(* ===== verification/Beans_Prelude.thy ===== *)
theory Beans_Prelude
  imports Main "HOL-Library.Word"
begin

unbundle bit_operations_syntax

text \<open>
  Shared vocabulary of the development: the machine types of the C runtime, the outcome of a
  runtime call (a value, a panic with its message and position, or undefined behaviour), the few
  pieces of the C standard library the runtime calls (\<^verbatim>\<open>memchr\<close>, \<^verbatim>\<open>memcmp\<close>, \<^verbatim>\<open>memcpy\<close>,
  NUL-terminated text), and the generic lemmas on lists and words the components use.

  Integers: a C \<^verbatim>\<open>unsigned long long\<close> or a raw eight-byte slot is a \<^typ>\<open>64 word\<close>; a C
  \<^verbatim>\<open>long long\<close> used as a number is an \<^typ>\<open>int\<close> within \<open>i64_ok\<close>, and every
  place where the code can leave that range is written out.
\<close>

section \<open>Machine types\<close>

type_synonym byte = "8 word"
type_synonym u32 = "32 word"
type_synonym u64 = "64 word"
type_synonym slot = "64 word"
type_synonym bstr = "byte list"

definition i64_ok :: "int \<Rightarrow> bool" where
  "i64_ok x \<longleftrightarrow> - (2 ^ 63) \<le> x \<and> x < 2 ^ 63"

definition u64_of :: "int \<Rightarrow> u64" where
  "u64_of x = word_of_int x"

definition asc :: "string \<Rightarrow> bstr" where
  "asc s = map of_char s"

section \<open>Outcomes of a runtime call\<close>

text \<open>
  \<open>Panic msg line col\<close> is \<^verbatim>\<open>beans_panic\<close>, which does not return. \<open>Fault\<close> is
  undefined behaviour of the C code: an access outside an allocation or a signed overflow.
\<close>

datatype 'a rt = Ok 'a | Panic bstr int int | Fault

fun rt_bind :: "'a rt \<Rightarrow> ('a \<Rightarrow> 'b rt) \<Rightarrow> 'b rt" where
  "rt_bind (Ok x) f = f x"
| "rt_bind (Panic m l c) f = Panic m l c"
| "rt_bind Fault f = Fault"

lemma rt_bind_Ok_iff:
  "rt_bind m f = Ok y \<longleftrightarrow> (\<exists>x. m = Ok x \<and> f x = Ok y)"
  by (cases m) auto

lemma rt_bind_cong:
  "m = m' \<Longrightarrow> (\<And>x. m' = Ok x \<Longrightarrow> f x = g x) \<Longrightarrow> rt_bind m f = rt_bind m' g"
  by (cases m') auto

lemma rt_bind_assoc: "rt_bind (rt_bind m f) g = rt_bind m (\<lambda>x. rt_bind (f x) g)"
  by (cases m) auto

section \<open>Programs over a component\<close>

text \<open>
  The contract most components of the runtime have: a state, commands that return a value or
  panic, and an abstract value the state stands for. \<open>rt_run\<close> runs a sequence of commands and
  collects the answers, \<open>opt_run\<close> does the same with the specification, whose \<open>None\<close> is a refused
  command. \<open>excuse\<close> are the panics that are always allowed (lack of memory), \<open>legal\<close> the commands the
  contract speaks of.
\<close>

fun rt_run :: "('s \<Rightarrow> 'c \<Rightarrow> ('s \<times> 'o) rt) \<Rightarrow> 's \<Rightarrow> 'c list \<Rightarrow> ('s \<times> 'o list) rt" where
  "rt_run step s [] = Ok (s, [])"
| "rt_run step s (c # cs) =
     rt_bind (step s c) (\<lambda>(s', x). rt_bind (rt_run step s' cs) (\<lambda>(s'', xs). Ok (s'', x # xs)))"

fun opt_run :: "('a \<Rightarrow> 'c \<Rightarrow> ('a \<times> 'o) option) \<Rightarrow> 'a \<Rightarrow> 'c list \<Rightarrow> ('a \<times> 'o list) option" where
  "opt_run spec a [] = Some (a, [])"
| "opt_run spec a (c # cs) =
     Option.bind (spec a c) (\<lambda>(a', x). Option.bind (opt_run spec a' cs) (\<lambda>(a'', xs). Some (a'', x # xs)))"

locale rt_refinement =
  fixes step :: "'s \<Rightarrow> 'c \<Rightarrow> ('s \<times> 'o) rt"
    and ok :: "'s \<Rightarrow> bool"
    and abs :: "'s \<Rightarrow> 'a"
    and spec :: "'a \<Rightarrow> 'c \<Rightarrow> ('a \<times> 'o) option"
    and excuse :: "bstr \<Rightarrow> bool"
    and legal :: "'c \<Rightarrow> bool"
  assumes step_Ok: "ok s \<Longrightarrow> legal c \<Longrightarrow> step s c = Ok (s', x) \<Longrightarrow> ok s' \<and> spec (abs s) c = Some (abs s', x)"
    and step_Panic: "ok s \<Longrightarrow> legal c \<Longrightarrow> step s c = Panic m line col \<Longrightarrow> excuse m \<or> spec (abs s) c = None"
    and step_Fault: "ok s \<Longrightarrow> legal c \<Longrightarrow> step s c \<noteq> Fault"
begin

lemma run_Ok:
  "ok s \<Longrightarrow> list_all legal cs \<Longrightarrow> rt_run step s cs = Ok (s', xs) \<Longrightarrow> ok s' \<and> opt_run spec (abs s) cs = Some (abs s', xs)"
proof (induction cs arbitrary: s xs)
  case (Cons c cs)
  from Cons.prems(2) have legal: "legal c" "list_all legal cs" by simp_all
  from Cons.prems(3) obtain t x ys where step: "step s c = Ok (t, x)"
    and run: "rt_run step t cs = Ok (s', ys)" and xs: "xs = x # ys"
    by (auto simp: rt_bind_Ok_iff split: prod.splits)
  from step_Ok [OF Cons.prems(1) legal(1) step] have t: "ok t" "spec (abs s) c = Some (abs t, x)" by auto
  from Cons.IH [OF t(1) legal(2) run] t(2) xs show ?case by simp
qed auto

lemma run_Panic:
  "ok s \<Longrightarrow> list_all legal cs \<Longrightarrow> rt_run step s cs = Panic m line col \<Longrightarrow> excuse m \<or> opt_run spec (abs s) cs = None"
proof (induction cs arbitrary: s)
  case (Cons c cs)
  from Cons.prems(2) have legal: "legal c" "list_all legal cs" by simp_all
  show ?case
  proof (cases "step s c")
    case (Ok p)
    obtain t x where p: "p = (t, x)" by (cases p)
    from step_Ok [OF Cons.prems(1) legal(1) Ok [unfolded p]]
    have t: "ok t" "spec (abs s) c = Some (abs t, x)" by auto
    from Cons.prems(3) Ok p have "rt_run step t cs = Panic m line col"
      by (cases "rt_run step t cs") auto
    from Cons.IH [OF t(1) legal(2) this] t(2) show ?thesis by auto
  next
    case (Panic m' line' col')
    with Cons.prems(3) step_Panic [OF Cons.prems(1) legal(1) Panic] show ?thesis by auto
  next
    case Fault
    with step_Fault [OF Cons.prems(1) legal(1)] show ?thesis by simp
  qed
qed simp

lemma run_Fault: "ok s \<Longrightarrow> list_all legal cs \<Longrightarrow> rt_run step s cs \<noteq> Fault"
proof (induction cs arbitrary: s)
  case (Cons c cs)
  from Cons.prems(2) have legal: "legal c" "list_all legal cs" by simp_all
  show ?case
  proof (cases "step s c")
    case (Ok p)
    obtain t x where p: "p = (t, x)" by (cases p)
    from step_Ok [OF Cons.prems(1) legal(1) Ok [unfolded p]] have "ok t" by auto
    from Cons.IH [OF this legal(2)] show ?thesis using Ok p by (cases "rt_run step t cs") auto
  next
    case Fault
    with step_Fault [OF Cons.prems(1) legal(1)] show ?thesis by simp
  qed simp
qed simp

text \<open>The three outcomes of a program in one statement.\<close>

lemma run_program:
  assumes "ok s" "list_all legal cs"
  shows "case rt_run step s cs of
      Ok (s', xs) \<Rightarrow> ok s' \<and> opt_run spec (abs s) cs = Some (abs s', xs)
    | Panic m _ _ \<Rightarrow> excuse m \<or> opt_run spec (abs s) cs = None
    | Fault \<Rightarrow> False"
  using run_Ok [OF assms] run_Panic [OF assms] run_Fault [OF assms] by (auto split: rt.splits)

end

section \<open>C library text and memory\<close>

text \<open>The index of the first occurrence of a byte, as \<^verbatim>\<open>memchr\<close> finds it.\<close>

fun memchr :: "byte \<Rightarrow> bstr \<Rightarrow> nat option" where
  "memchr c [] = None"
| "memchr c (x # xs) = (if x = c then Some 0 else map_option Suc (memchr c xs))"

text \<open>The sign of \<^verbatim>\<open>memcmp\<close> on two ranges of the same length.\<close>

fun memcmp :: "bstr \<Rightarrow> bstr \<Rightarrow> int" where
  "memcmp (x # xs) (y # ys) = (if x < y then -1 else if y < x then 1 else memcmp xs ys)"
| "memcmp _ _ = 0"

text \<open>
  \<open>mem_write buf at bs\<close> is \<^verbatim>\<open>memcpy(buf + at, bs, n)\<close>: the bytes of the range are
  replaced; a range that leaves the buffer is \<open>Fault\<close>.
\<close>

definition mem_write :: "'a list \<Rightarrow> nat \<Rightarrow> 'a list \<Rightarrow> 'a list rt" where
  "mem_write buf at bs =
     (if at + length bs \<le> length buf
      then Ok (take at buf @ bs @ drop (at + length bs) buf) else Fault)"

text \<open>The bytes of the range \<open>[from, to)\<close>.\<close>

definition sub_range :: "'a list \<Rightarrow> nat \<Rightarrow> nat \<Rightarrow> 'a list" where
  "sub_range xs from to = take (to - from) (drop from xs)"

section \<open>Generic lemmas\<close>

named_theorems rt_defs "definitions of the runtime model that proofs unfold"

lemma length_asc [simp]: "length (asc s) = length s"
  by (simp add: asc_def)

lemma asc_simps [simp]: "asc [] = []" "asc (c # cs) = of_char c # asc cs"
  by (simp_all add: asc_def)

lemma memchr_None: "memchr c xs = None \<longleftrightarrow> c \<notin> set xs"
  by (induction xs) auto

lemma memchr_Some:
  "memchr c xs = Some k \<longleftrightarrow> k < length xs \<and> xs ! k = c \<and> (\<forall>j<k. xs ! j \<noteq> c)"
proof (induction xs arbitrary: k)
  case Nil
  then show ?case by simp
next
  case (Cons x xs)
  show ?case
  proof (cases k)
    case 0
    then show ?thesis by auto
  next
    case (Suc k')
    then show ?thesis
      using Cons.IH [of k'] by (auto simp: All_less_Suc2)
  qed
qed

lemma memcmp_eq_0: "length xs = length ys \<Longrightarrow> memcmp xs ys = 0 \<longleftrightarrow> xs = ys"
  by (induction xs ys rule: memcmp.induct) (auto simp: not_less intro: order_antisym)

lemma memcmp_swap: "length xs = length ys \<Longrightarrow> memcmp ys xs = - memcmp xs ys"
  by (induction xs ys rule: memcmp.induct) auto

lemma memcmp_range: "memcmp xs ys \<in> {-1, 0, 1}"
  by (induction xs ys rule: memcmp.induct) auto

lemma length_mem_write: "mem_write buf at bs = Ok r \<Longrightarrow> length r = length buf"
  by (auto simp: mem_write_def split: if_splits)

lemma mem_write_append:
  "at = length xs \<Longrightarrow> length bs \<le> length ys \<Longrightarrow>
   mem_write (xs @ ys) at bs = Ok (xs @ bs @ drop (length bs) ys)"
  by (simp add: mem_write_def)

lemma mem_write_fill:
  "at = length xs \<Longrightarrow> length bs \<le> n \<Longrightarrow>
   mem_write (xs @ replicate n z) at bs = Ok ((xs @ bs) @ replicate (n - length bs) z)"
  by (simp add: mem_write_def)

lemma length_sub_range [simp]:
  "length (sub_range xs from to) = min (to - from) (length xs - from)"
  by (simp add: sub_range_def)

lemma sub_range_full [simp]: "sub_range xs 0 (length xs) = xs"
  by (simp add: sub_range_def)

lemma sub_range_append:
  "from \<le> mid \<Longrightarrow> mid \<le> to \<Longrightarrow> sub_range xs from mid @ sub_range xs mid to = sub_range xs from to"
proof -
  assume "from \<le> mid" "mid \<le> to"
  then have "to - from = (mid - from) + (to - mid)" by simp
  then have "take (to - from) (drop from xs) =
      take (mid - from) (drop from xs) @ take (to - mid) (drop (mid - from) (drop from xs))"
    by (simp only: take_add)
  with \<open>from \<le> mid\<close> show ?thesis
    by (simp add: sub_range_def)
qed

lemma sub_range_nth: "i < to - from \<Longrightarrow> to \<le> length xs \<Longrightarrow> sub_range xs from to ! i = xs ! (from + i)"
  by (simp add: sub_range_def)

lemma sub_range_Cons: "i < to \<Longrightarrow> to \<le> length xs \<Longrightarrow> sub_range xs i to = xs ! i # sub_range xs (Suc i) to"
proof -
  assume "i < to" "to \<le> length xs"
  then have "drop i xs = xs ! i # drop (Suc i) xs" "to - i = Suc (to - Suc i)"
    by (auto simp: Cons_nth_drop_Suc)
  then show ?thesis by (simp add: sub_range_def)
qed

lemma i64_ok_word: "i64_ok x \<longleftrightarrow> sint (word_of_int x :: 64 word) = x"
  by (auto simp: i64_ok_def sint_word_ariths signed_take_bit_int_eq_self_iff sint_sbintrunc')

lemma unat_byte_bound: "unat (c :: byte) < 256"
  using unsigned_less [of c] by simp

lemma unat_u64_bound: "unat (w :: u64) < 2 ^ 64"
  using unsigned_less [of w] by simp

lemma uint_less_63: "unat (w :: u64) < 2 ^ 63 \<Longrightarrow> uint w < 2 ^ 63"
  using of_nat_less_iff [of "unat w" "2 ^ 63", where 'a = int] by simp

lemma sint_small: "unat (w :: u64) < 2 ^ 63 \<Longrightarrow> sint w = int (unat w)"
  using uint_less_63 [of w] i64_ok_word [of "uint w"] uint_ge_0 [of w]
  by (simp add: i64_ok_def order_trans [of _ 0])

end
