(* ===== verification/Rt_Format.thy ===== *)
theory Rt_Format
  imports Beans_Prelude
begin

text \<open>
  Integer text and the hand-written formatter of \<^verbatim>\<open>src/runtime/beans_rt.c\<close>: the
  little-endian word codec (\<^verbatim>\<open>rt_load_le\<close>, \<^verbatim>\<open>rt_store_le\<close>), the three digit
  generators (\<^verbatim>\<open>rt_utoa\<close>/\<^verbatim>\<open>rt_itoa\<close>, \<^verbatim>\<open>write_uint\<close>/\<^verbatim>\<open>write_int\<close>,
  \<^verbatim>\<open>beans_from_int\<close>), and \<^verbatim>\<open>rt_vformat\<close>, the \<^verbatim>\<open>snprintf\<close> subset all panic
  messages go through. The lemmas show the generators equal to one reference printer, within
  their fixed scratch buffers, and the codec inverse in both directions.
\<close>

unbundle bit_operations_syntax

section \<open>Little-endian words\<close>

text \<open>\<^verbatim>\<open>value |= (unsigned long long)bytes[i] << (i * 8)\<close> for \<open>i\<close> below the width.\<close>

fun load_le_from :: "nat \<Rightarrow> bstr \<Rightarrow> u64" where
  "load_le_from i [] = 0"
| "load_le_from i (b # bs) = push_bit (i * 8) (ucast b) OR load_le_from (Suc i) bs"

definition rt_load_le :: "bstr \<Rightarrow> nat \<Rightarrow> u64" where
  "rt_load_le source width = load_le_from 0 (take width source)"

definition rt_store_le :: "u64 \<Rightarrow> nat \<Rightarrow> bstr" where
  "rt_store_le value width = map (\<lambda>i. ucast (drop_bit (i * 8) value)) [0..<width]"

section \<open>Digits\<close>

text \<open>\<^verbatim>\<open>do { tmp[n++] = '0' + v % 10; v /= 10; } while (v);\<close>: least digit first.\<close>

function utoa_tmp :: "u64 \<Rightarrow> bstr" where
  "utoa_tmp v = ucast (48 + v mod 10) # (if v div 10 = 0 then [] else utoa_tmp (v div 10))"
  by pat_completeness auto

lemma word_div_less: "(v :: 64 word) div 10 \<noteq> 0 \<Longrightarrow> unat (v div 10) < unat v"
  by (simp add: unat_div unat_eq_zero [symmetric] del: unat_eq_zero)

termination utoa_tmp
  by (relation "measure unat") (auto simp: word_div_less)

definition rt_utoa :: "u64 \<Rightarrow> bstr" where
  "rt_utoa v = (let tmp = utoa_tmp v; n = length tmp in map (\<lambda>i. tmp ! (n - 1 - i)) [0..<n])"

definition rt_itoa :: "int \<Rightarrow> bstr" where
  "rt_itoa v = (if v < 0 then 45 # rt_utoa (0 - u64_of v) else rt_utoa (u64_of v))"

text \<open>The string builder's own digits: counted first, then written backwards.\<close>

function uint_digits_from :: "int \<Rightarrow> u64 \<Rightarrow> int" where
  "uint_digits_from n v = (if 10 \<le> v then uint_digits_from (n + 1) (v div 10) else n)"
  by pat_completeness auto

lemma word_ge_div_less: "(10 :: 64 word) \<le> v \<Longrightarrow> unat (v div 10) < unat v"
proof -
  assume "(10 :: 64 word) \<le> v"
  then have "10 \<le> unat v" by (simp add: word_le_nat_alt)
  then show ?thesis by (simp add: unat_div)
qed

termination uint_digits_from
  by (relation "measure (\<lambda>(n, v). unat v)") (auto simp: word_ge_div_less)

definition uint_digits :: "u64 \<Rightarrow> int" where
  "uint_digits v = uint_digits_from 1 v"

text \<open>\<^verbatim>\<open>do { *--p = '0' + v % 10; v /= 10; } while (v);\<close>: the bytes from \<open>p\<close> to the end.\<close>

function digits_back :: "u64 \<Rightarrow> bstr \<Rightarrow> bstr" where
  "digits_back v acc =
     (let acc' = ucast (48 + v mod 10) # acc
      in if v div 10 = 0 then acc' else digits_back (v div 10) acc')"
  by pat_completeness auto

termination digits_back
  by (relation "measure (\<lambda>(v, acc). unat v)") (auto simp: word_div_less)

text \<open>The magnitude \<^verbatim>\<open>v < 0 ? (unsigned long long)-(v + 1) + 1 : (unsigned long long)v\<close>.\<close>

definition int_magnitude :: "int \<Rightarrow> u64" where
  "int_magnitude v = (if v < 0 then u64_of (- (v + 1)) + 1 else u64_of v)"

definition write_uint :: "bstr \<Rightarrow> nat \<Rightarrow> u64 \<Rightarrow> (bstr \<times> nat) rt" where
  "write_uint buf out v =
     (let end' = out + nat (uint_digits v); ds = digits_back v [] in
      if length ds \<le> end'
      then rt_bind (mem_write buf (end' - length ds) ds) (\<lambda>b. Ok (b, end'))
      else Fault)"

definition int_digits :: "int \<Rightarrow> int" where
  "int_digits v = uint_digits (int_magnitude v) + (if v < 0 then 1 else 0)"

definition write_int :: "bstr \<Rightarrow> nat \<Rightarrow> int \<Rightarrow> (bstr \<times> nat) rt" where
  "write_int buf out v =
     (if v < 0
      then rt_bind (mem_write buf out [45]) (\<lambda>b. write_uint b (out + 1) (int_magnitude v))
      else write_uint buf out (int_magnitude v))"

definition beans_from_int :: "int \<Rightarrow> bstr" where
  "beans_from_int v = (let ds = digits_back (int_magnitude v) [] in if v < 0 then 45 # ds else ds)"

definition beans_from_uint :: "u64 \<Rightarrow> bstr" where
  "beans_from_uint v = digits_back v []"

definition beans_from_bool :: "bool \<Rightarrow> bstr" where
  "beans_from_bool v = (if v then asc ''true'' else asc ''false'')"

section \<open>The formatter\<close>

text \<open>
  The variadic arguments, one constructor per \<^verbatim>\<open>va_arg\<close> type. \<^verbatim>\<open>%s\<close> with a null
  pointer prints \<^verbatim>\<open>(null)\<close>.
\<close>

datatype fmt_arg = ArgI64 int | ArgU64 u64 | ArgInt int | ArgStr "bstr option" | ArgChr byte

text \<open>
  The text \<^verbatim>\<open>rt_vformat\<close> produces before truncation. An argument of the wrong type, a
  missing argument, or a lone \<^verbatim>\<open>%\<close> at the end of the format is undefined behaviour.
\<close>

definition ll_spec :: "string \<Rightarrow> char option" where
  "ll_spec ps =
     (case ps of a # b # d # _ \<Rightarrow>
        if a = CHR ''l'' \<and> b = CHR ''l'' \<and> (d = CHR ''d'' \<or> d = CHR ''u'') then Some d else None
      | _ \<Rightarrow> None)"

fun vformat_text :: "string \<Rightarrow> fmt_arg list \<Rightarrow> bstr rt" where
  "vformat_text [] args = Ok []"
| "vformat_text (p # ps) args =
     (if p \<noteq> CHR ''%'' then rt_bind (vformat_text ps args) (\<lambda>r. Ok (of_char p # r))
      else case ps of
        [] \<Rightarrow> Fault
      | q # qs \<Rightarrow>
          (if ll_spec ps \<noteq> None then
             (case (ll_spec ps = Some CHR ''d'', args) of
                (True, ArgI64 v # as) \<Rightarrow>
                  rt_bind (vformat_text (drop 2 qs) as) (\<lambda>r. Ok (rt_itoa v @ r))
              | (False, ArgU64 v # as) \<Rightarrow>
                  rt_bind (vformat_text (drop 2 qs) as) (\<lambda>r. Ok (rt_utoa v @ r))
              | _ \<Rightarrow> Fault)
           else if q = CHR ''d'' then
             (case args of ArgInt v # as \<Rightarrow> rt_bind (vformat_text qs as) (\<lambda>r. Ok (rt_itoa v @ r))
              | _ \<Rightarrow> Fault)
           else if q = CHR ''s'' then
             (case args of
                ArgStr s # as \<Rightarrow>
                  rt_bind (vformat_text qs as)
                    (\<lambda>r. Ok ((case s of None \<Rightarrow> asc ''(null)'' | Some t \<Rightarrow> takeWhile (\<lambda>c. c \<noteq> 0) t) @ r))
              | _ \<Rightarrow> Fault)
           else if q = CHR ''c'' then
             (case args of ArgChr c # as \<Rightarrow> rt_bind (vformat_text qs as) (\<lambda>r. Ok (c # r))
              | _ \<Rightarrow> Fault)
           else rt_bind (vformat_text qs args) (\<lambda>r. Ok (of_char q # r))))"

text \<open>
  \<^verbatim>\<open>snprintf\<close>'s contract: at most \<open>cap - 1\<close> bytes and a terminator are written, and the
  length that would have been written is returned.
\<close>

definition rt_vformat :: "nat \<Rightarrow> string \<Rightarrow> fmt_arg list \<Rightarrow> (bstr \<times> nat) rt" where
  "rt_vformat cap fmt args =
     rt_bind (vformat_text fmt args)
       (\<lambda>t. Ok (if cap = 0 then [] else take (cap - 1) t @ [0], length t))"

text \<open>\<^verbatim>\<open>char m[cap]; rt_format(m, sizeof m, fmt, ...); beans_panic(m, line, col);\<close>\<close>

definition rt_panic :: "nat \<Rightarrow> string \<Rightarrow> fmt_arg list \<Rightarrow> int \<Rightarrow> int \<Rightarrow> 'a rt" where
  "rt_panic cap fmt args line col =
     rt_bind (rt_vformat cap fmt args)
       (\<lambda>(m, _). Panic (takeWhile (\<lambda>c. c \<noteq> 0) m) line col)"

section \<open>Correctness of the digit generators\<close>

text \<open>The reference printer: decimal digits of a natural number, most significant first.\<close>

fun nat_text :: "nat \<Rightarrow> bstr" where
  "nat_text n = (if n < 10 then [48 + of_nat n] else nat_text (n div 10) @ [48 + of_nat (n mod 10)])"

declare nat_text.simps [simp del]

definition int_text :: "int \<Rightarrow> bstr" where
  "int_text v = (if v < 0 then 45 # nat_text (nat (- v)) else nat_text (nat v))"

definition text_val :: "bstr \<Rightarrow> nat" where
  "text_val ds = foldl (\<lambda>a d. a * 10 + (unat d - 48)) 0 ds"

declare utoa_tmp.simps [simp del] uint_digits_from.simps [simp del] digits_back.simps [simp del]

lemma digit_ucast: "ucast (48 + v mod 10 :: u64) = (48 + of_nat (unat v mod 10) :: byte)"
proof -
  have a: "unat (v mod 10) = unat v mod 10" by (simp add: unat_mod)
  then have "unat (v mod 10) < 10" by simp
  then have b: "unat (48 + v mod 10) = 48 + unat v mod 10"
    using a by (subst unat_add_lem [THEN iffD1]) auto
  have "ucast (48 + v mod 10 :: u64) = (of_nat (unat (48 + v mod 10)) :: byte)"
    by simp
  then show ?thesis by (simp only: b of_nat_add of_nat_numeral)
qed

lemma word_div10_zero: "(v :: u64) div 10 = 0 \<longleftrightarrow> unat v < 10"
proof -
  have "v div 10 = 0 \<longleftrightarrow> unat (v div 10) = 0" by (simp add: unat_eq_0)
  also have "\<dots> \<longleftrightarrow> unat v < 10" by (auto simp: unat_div div_eq_0_iff)
  finally show ?thesis .
qed

lemma word_ge10: "10 \<le> (v :: u64) \<longleftrightarrow> \<not> unat v < 10"
  by (auto simp: word_le_nat_alt)

lemma unat_div10: "unat ((v :: u64) div 10) = unat v div 10"
  by (simp add: unat_div)

lemmas word10_simps = digit_ucast word_div10_zero word_ge10 unat_div10

lemma utoa_tmp_text: "rev (utoa_tmp v) = nat_text (unat v)"
proof (induction v rule: utoa_tmp.induct)
  case (1 v)
  then show ?case
    by (simp add: utoa_tmp.simps [of v] nat_text.simps [of "unat v"] word10_simps)
qed

lemma digits_back_text: "digits_back v acc = nat_text (unat v) @ acc"
proof (induction v acc rule: digits_back.induct)
  case (1 v acc)
  then show ?case
    by (simp add: digits_back.simps [of v] nat_text.simps [of "unat v"] word10_simps Let_def)
qed

lemma uint_digits_from_text: "uint_digits_from n v = n - 1 + int (length (nat_text (unat v)))"
proof (induction n v rule: uint_digits_from.induct)
  case (1 n v)
  then show ?case
    by (simp add: uint_digits_from.simps [of n v] nat_text.simps [of "unat v"] word10_simps)
qed

lemma uint_digits_text: "uint_digits v = int (length (nat_text (unat v)))"
  by (simp add: uint_digits_def uint_digits_from_text)

lemma rt_utoa_text: "rt_utoa v = nat_text (unat v)"
proof -
  have "rt_utoa v = rev (utoa_tmp v)"
    by (rule nth_equalityI) (simp_all add: rt_utoa_def Let_def rev_nth)
  then show ?thesis by (simp add: utoa_tmp_text)
qed

lemma unat_u64_of_nonneg: "0 \<le> v \<Longrightarrow> v < 2 ^ 64 \<Longrightarrow> unat (u64_of v) = nat v"
  by (simp add: u64_of_def unat_eq_nat_uint uint_word_of_int_eq take_bit_int_eq_self)

lemma int_magnitude_unat: "i64_ok v \<Longrightarrow> unat (int_magnitude v) = nat \<bar>v\<bar>"
proof -
  assume v: "i64_ok v"
  have "u64_of (- (v + 1)) + 1 = u64_of (- v)"
    by (simp add: u64_of_def)
  with v show ?thesis
    by (auto simp: int_magnitude_def unat_u64_of_nonneg i64_ok_def)
qed

lemma neg_u64_of: "i64_ok v \<Longrightarrow> v < 0 \<Longrightarrow> unat (0 - u64_of v) = nat (- v)"
proof -
  assume "i64_ok v" "v < 0"
  moreover have "0 - u64_of v = u64_of (- v)" by (simp add: u64_of_def)
  ultimately show ?thesis by (simp add: unat_u64_of_nonneg i64_ok_def)
qed

lemma rt_itoa_text: "i64_ok v \<Longrightarrow> rt_itoa v = int_text v"
  using neg_u64_of [of v]
  by (auto simp: rt_itoa_def int_text_def rt_utoa_text unat_u64_of_nonneg i64_ok_def)

lemma from_int_text: "i64_ok v \<Longrightarrow> beans_from_int v = int_text v"
  by (auto simp: beans_from_int_def int_text_def digits_back_text int_magnitude_unat Let_def)

lemma int_digits_text: "i64_ok v \<Longrightarrow> int_digits v = int (length (int_text v))"
  by (auto simp: int_digits_def int_text_def uint_digits_text int_magnitude_unat)

lemma nat_text_digits: "\<forall>d \<in> set (nat_text n). 48 \<le> d \<and> d \<le> 57"
proof (induction n rule: nat_text.induct)
  case (1 n)
  have d: "48 \<le> (48 + of_nat k :: byte) \<and> (48 + of_nat k :: byte) \<le> 57" if "k < 10" for k
    using that by (simp add: word_le_nat_alt unat_word_ariths unat_of_nat)
  show ?case
    using 1 d [of n] d [of "n mod 10"] by (auto simp: nat_text.simps [of n])
qed

lemma text_val_snoc [simp]: "text_val (ds @ [d]) = text_val ds * 10 + (unat d - 48)"
  by (simp add: text_val_def)

lemma text_val_Nil [simp]: "text_val [] = 0"
  by (simp add: text_val_def)

lemma unat_digit: "k < 10 \<Longrightarrow> unat (48 + of_nat k :: byte) = 48 + k"
  by (simp add: unat_word_ariths unat_of_nat)

lemma text_val_nat_text: "text_val (nat_text n) = n"
proof (induction n rule: nat_text.induct)
  case (1 n)
  show ?case
  proof (cases "n < 10")
    case True
    then show ?thesis
      by (simp add: nat_text.simps [of n] unat_digit text_val_def)
  next
    case False
    with 1 show ?thesis
      by (simp add: nat_text.simps [of n] unat_digit)
  qed
qed

lemma nat_text_length: "n < 10 ^ Suc k \<Longrightarrow> length (nat_text n) \<le> Suc k"
proof (induction k arbitrary: n)
  case 0
  then show ?case by (simp add: nat_text.simps)
next
  case (Suc k)
  show ?case
  proof (cases "n < 10")
    case True
    then show ?thesis by (simp add: nat_text.simps)
  next
    case False
    have "n div 10 < 10 ^ Suc k" using Suc.prems by (simp add: div_less_iff_less_mult)
    from Suc.IH [OF this] False show ?thesis by (simp add: nat_text.simps [of n])
  qed
qed

lemma int_text_length: "i64_ok v \<Longrightarrow> length (int_text v) \<le> 20"
proof -
  assume v: "i64_ok v"
  then have "nat \<bar>v\<bar> < 10 ^ Suc 18" by (auto simp: i64_ok_def)
  then have "length (nat_text (nat \<bar>v\<bar>)) \<le> 19" using nat_text_length by fastforce
  then show ?thesis by (auto simp: int_text_def)
qed

lemma nat_text_nonempty [simp]: "nat_text n \<noteq> []"
  by (simp add: nat_text.simps [of n])

lemma write_uint_fills:
  assumes "out = length xs" "length (nat_text (unat v)) \<le> n"
  shows "write_uint (xs @ replicate n z) out v =
    Ok ((xs @ nat_text (unat v)) @ replicate (n - length (nat_text (unat v))) z,
        out + length (nat_text (unat v)))"
  using assms
  by (simp add: write_uint_def uint_digits_text digits_back_text mem_write_fill Let_def)

lemma write_int_fills:
  assumes "i64_ok v" "out = length xs" "length (int_text v) \<le> n"
  shows "write_int (xs @ replicate n z) out v =
    Ok ((xs @ int_text v) @ replicate (n - length (int_text v)) z, out + length (int_text v))"
proof (cases "v < 0")
  case True
  have "mem_write (xs @ replicate n z) out [45] = Ok ((xs @ [45]) @ replicate (n - 1) z)"
    using assms True by (simp add: mem_write_fill int_text_def)
  moreover have "write_uint ((xs @ [45]) @ replicate (n - 1) z) (out + 1) (int_magnitude v) =
      Ok (((xs @ [45]) @ nat_text (nat \<bar>v\<bar>)) @ replicate (n - 1 - length (nat_text (nat \<bar>v\<bar>))) z,
          out + 1 + length (nat_text (nat \<bar>v\<bar>)))"
    using assms True write_uint_fills [of "out + 1" "xs @ [45]" "int_magnitude v" "n - 1" z]
    by (simp add: int_magnitude_unat int_text_def)
  ultimately show ?thesis
    using True by (simp add: write_int_def int_text_def)
next
  case False
  with assms show ?thesis
    by (simp add: write_int_def write_uint_fills int_magnitude_unat int_text_def)
qed

section \<open>The word codec\<close>

lemma bit_load_le_from:
  "bit (load_le_from i bs) n \<longleftrightarrow>
     n < 64 \<and> i * 8 \<le> n \<and> n div 8 - i < length bs \<and> bit (bs ! (n div 8 - i)) (n mod 8)"
proof (induction i bs rule: load_le_from.induct)
  case (1 i)
  then show ?case by simp
next
  case (2 i b bs)
  show ?case
  proof (cases "i * 8 \<le> n \<and> n < i * 8 + 8")
    case True
    then have *: "n div 8 = i" by auto
    then have "n - i * 8 = n mod 8" by (simp add: minus_mult_div_eq_mod [symmetric] mult.commute)
    note * = * this
    with True show ?thesis
      using 2 by (auto simp: bit_or_iff bit_push_bit_iff bit_ucast_iff)
  next
    case False
    have "\<not> bit (ucast b :: u64) (n - i * 8)" if "i * 8 + 8 \<le> n"
      using that by (auto simp: bit_ucast_iff dest: bit_imp_le_length)
    moreover have "n div 8 - i = Suc (n div 8 - Suc i)" if "i * 8 + 8 \<le> n"
      using that by linarith
    ultimately show ?thesis
      using False 2 by (auto simp: bit_or_iff bit_push_bit_iff)
  qed
qed

lemma bit_store_le:
  "i < w \<Longrightarrow> bit (rt_store_le v w ! i) k \<longleftrightarrow> k < 8 \<and> bit v (i * 8 + k)"
  by (auto simp: rt_store_le_def bit_ucast_iff bit_drop_bit_eq)

lemma length_store_le [simp]: "length (rt_store_le v w) = w"
  by (simp add: rt_store_le_def)

lemma load_store_le: "w \<le> 8 \<Longrightarrow> rt_load_le (rt_store_le v w @ rest) w = take_bit (8 * w) v"
proof (rule bit_word_eqI)
  fix n assume "w \<le> 8" "n < LENGTH(64)"
  moreover have "n div 8 < w \<longleftrightarrow> n < 8 * w" by (simp add: div_less_iff_less_mult mult.commute)
  ultimately show "bit (rt_load_le (rt_store_le v w @ rest) w) n = bit (take_bit (8 * w) v) n"
    by (auto simp: rt_load_le_def bit_load_le_from bit_store_le bit_take_bit_iff)
qed

lemma store_load_le: "w \<le> 8 \<Longrightarrow> w \<le> length bs \<Longrightarrow> rt_store_le (rt_load_le bs w) w = take w bs"
proof (rule nth_equalityI)
  fix i assume "w \<le> 8" "w \<le> length bs" and "i < length (rt_store_le (rt_load_le bs w) w)"
  then have i: "i < w" by simp
  show "rt_store_le (rt_load_le bs w) w ! i = take w bs ! i"
  proof (rule bit_word_eqI)
    fix k assume "k < LENGTH(8)"
    then have "(i * 8 + k) div 8 = i" "(i * 8 + k) mod 8 = k" "i * 8 + k < 64"
      using i \<open>w \<le> 8\<close> by auto
    then show "bit (rt_store_le (rt_load_le bs w) w ! i) k = bit (take w bs ! i) k"
      using i \<open>k < LENGTH(8)\<close> \<open>w \<le> length bs\<close>
      by (simp add: bit_store_le) (simp add: rt_load_le_def bit_load_le_from)
  qed
qed simp

section \<open>Properties\<close>

text \<open>
  The three hand-written digit generators print the same decimal text of every signed 64-bit
  value; the counted width is the text's length, and the text fits the 24-byte scratch buffers.
\<close>

theorem digit_generators_agree:
  assumes "i64_ok v"
  shows "rt_itoa v = int_text v \<and> beans_from_int v = int_text v \<and>
    int_digits v = int (length (int_text v)) \<and> length (int_text v) \<le> 20"
  using rt_itoa_text [OF assms] from_int_text [OF assms] int_digits_text [OF assms]
    int_text_length [OF assms] by simp

theorem digit_generators_agree_witness:
  "i64_ok (- (2 ^ 63)) \<and> beans_from_int (- (2 ^ 63)) = rt_itoa (- (2 ^ 63))"
proof -
  have ok: "i64_ok (- (2 ^ 63))" by (simp add: i64_ok_def)
  with digit_generators_agree [OF ok] show ?thesis by simp
qed

text \<open>
  The little-endian word codec is a round trip in both directions for every width up to eight
  bytes: a stored word reads back truncated to the width, and the bytes of a read word are the
  bytes that were read.
\<close>

theorem le_codec_roundtrip:
  assumes "w \<le> 8"
  shows "rt_load_le (rt_store_le v w @ rest) w = take_bit (8 * w) v \<and>
    (w \<le> length bs \<longrightarrow> rt_store_le (rt_load_le bs w) w = take w bs)"
  using load_store_le [OF assms, of v rest] store_load_le [OF assms, of bs] by simp

theorem le_codec_roundtrip_witness:
  "(2 :: nat) \<le> 8 \<and> rt_load_le (rt_store_le 0x1234 2 @ []) 2 = take_bit 16 0x1234 \<and>
   rt_store_le (rt_load_le [0x34, 0x12] 2) 2 = [0x34, 0x12]"
proof -
  have w: "(2 :: nat) \<le> 8" by simp
  from le_codec_roundtrip [OF w, of "0x1234" "[]" "[0x34, 0x12]"] show ?thesis by simp
qed

end
