(* ===== verification/Rt_Strings.thy ===== *)
theory Rt_Strings
  imports Rt_Format
begin

text \<open>
  The string operations of \<^verbatim>\<open>src/runtime/beans_rt.c\<close>. A Beans string is a byte array with a
  stored length and a NUL terminator behind it; the model is the byte list, and the two functions
  that read up to the terminator (\<^verbatim>\<open>rt_parse_i64\<close> and its caller) see the list followed by a
  zero byte. Functions that fill a freshly allocated buffer are modelled on that buffer, so that
  an \<open>Ok\<close> result also says that every write stayed inside the allocation.
\<close>

section \<open>Building a string in an allocated buffer\<close>

text \<open>\<open>beans_alloc(total + 1, total << 3)\<close>: the zeroed payload, terminator included.\<close>

definition str_alloc :: "nat \<Rightarrow> bstr" where
  "str_alloc n = replicate (n + 1) 0"

text \<open>The string a finished buffer of \<open>n\<close> bytes and a terminator holds.\<close>

definition str_of_buf :: "nat \<Rightarrow> bstr \<Rightarrow> bstr" where
  "str_of_buf n buf = take n buf"

text \<open>\<^verbatim>\<open>memcpy(w, part, n); w += n;\<close> once per part.\<close>

fun fill_parts :: "bstr \<Rightarrow> nat \<Rightarrow> bstr list \<Rightarrow> (bstr \<times> nat) rt" where
  "fill_parts buf w [] = Ok (buf, w)"
| "fill_parts buf w (p # ps) = rt_bind (mem_write buf w p) (\<lambda>b. fill_parts b (w + length p) ps)"

definition beans_concat :: "bstr \<Rightarrow> bstr \<Rightarrow> bstr rt" where
  "beans_concat a b =
     (let la = length a; lb = length b in
      rt_bind (mem_write (str_alloc (la + lb)) 0 a) (\<lambda>r.
      rt_bind (mem_write r la (b @ [0])) (\<lambda>r'. Ok (str_of_buf (la + lb) r'))))"

section \<open>Interpolation\<close>

text \<open>
  One interpolated piece: kinds 0, 1, 2, 3 and every other kind. The text of a float is produced
  by the host's formatter; the piece carries it.
\<close>

datatype interp_arg = IStr bstr | IInt int | IUint u64 | IFloat bstr | IBool bool

fun interp_len :: "interp_arg \<Rightarrow> int" where
  "interp_len (IStr s) = int (length s)"
| "interp_len (IInt v) = int_digits v"
| "interp_len (IUint v) = uint_digits v"
| "interp_len (IFloat t) = int (length t)"
| "interp_len (IBool b) = (if b then 4 else 5)"

fun interp_write :: "bstr \<Rightarrow> nat \<Rightarrow> interp_arg \<Rightarrow> (bstr \<times> nat) rt" where
  "interp_write buf w (IStr s) = rt_bind (mem_write buf w s) (\<lambda>b. Ok (b, w + length s))"
| "interp_write buf w (IInt v) = write_int buf w v"
| "interp_write buf w (IUint v) = write_uint buf w v"
| "interp_write buf w (IFloat t) = rt_bind (mem_write buf w t) (\<lambda>b. Ok (b, w + length t))"
| "interp_write buf w (IBool v) =
     rt_bind (mem_write buf w (take (if v then 4 else 5) (if v then asc ''true'' else asc ''false'')))
       (\<lambda>b. Ok (b, w + (if v then 4 else 5)))"

fun interp_write_all :: "bstr \<Rightarrow> nat \<Rightarrow> interp_arg list \<Rightarrow> (bstr \<times> nat) rt" where
  "interp_write_all buf w [] = Ok (buf, w)"
| "interp_write_all buf w (a # as) =
     rt_bind (interp_write buf w a) (\<lambda>(b, w'). interp_write_all b w' as)"

definition beans_interpolate :: "interp_arg list \<Rightarrow> bstr rt" where
  "beans_interpolate args =
     (let total = nat (sum_list (map interp_len args)) in
      rt_bind (interp_write_all (str_alloc total) 0 args) (\<lambda>(b, w). Ok (str_of_buf total b)))"

section \<open>Comparison and search\<close>

definition beans_str_cmp :: "bstr \<Rightarrow> bstr \<Rightarrow> int" where
  "beans_str_cmp a b =
     (let la = length a; lb = length b; n = (if la < lb then la else lb);
          c = (if n \<noteq> 0 then memcmp (take n a) (take n b) else 0)
      in if c \<noteq> 0 then c else if la < lb then -1 else if la > lb then 1 else 0)"

definition beans_str_eq :: "bstr \<Rightarrow> bstr \<Rightarrow> bool" where
  "beans_str_eq a b \<longleftrightarrow> length a = length b \<and> memcmp a b = 0"

text \<open>
  \<^verbatim>\<open>str_search\<close>: \<^verbatim>\<open>memchr\<close> for the first byte over the remaining room, then
  \<^verbatim>\<open>memcmp\<close> for the tail; the result is the offset of the match or -1.
\<close>

function str_search_loop :: "bstr \<Rightarrow> bstr \<Rightarrow> nat \<Rightarrow> int" where
  "str_search_loop s sub p =
     (let room = int (length s) - int p - (int (length sub) - 1) in
      if room \<le> 0 then -1
      else case memchr (sub ! 0) (take (nat room) (drop p s)) of
        None \<Rightarrow> -1
      | Some k \<Rightarrow>
          (let hit = p + k in
           if length sub = 1 \<or> memcmp (sub_range s (hit + 1) (hit + length sub)) (drop 1 sub) = 0
           then int hit
           else str_search_loop s sub (hit + 1)))"
  by pat_completeness auto
termination
  by (relation "measure (\<lambda>(s, sub, p). length s - p)") (auto simp: memchr_Some)

declare str_search_loop.simps [simp del]

definition str_search :: "bstr \<Rightarrow> bstr \<Rightarrow> int \<Rightarrow> int" where
  "str_search s sub from =
     (if int (length sub) > int (length s) - from then -1
      else if length sub = 0 then from
      else str_search_loop s sub (nat from))"

definition beans_str_contains :: "bstr \<Rightarrow> bstr \<Rightarrow> bool" where
  "beans_str_contains s sub \<longleftrightarrow> (if length sub = 0 then True else str_search s sub 0 \<ge> 0)"

definition beans_str_starts_with :: "bstr \<Rightarrow> bstr \<Rightarrow> bool" where
  "beans_str_starts_with s p \<longleftrightarrow> length p \<le> length s \<and> memcmp (take (length p) s) p = 0"

definition beans_str_ends_with :: "bstr \<Rightarrow> bstr \<Rightarrow> bool" where
  "beans_str_ends_with s p \<longleftrightarrow>
     length p \<le> length s \<and> memcmp (drop (length s - length p) s) p = 0"

definition beans_str_find :: "bstr \<Rightarrow> bstr \<Rightarrow> int option" where
  "beans_str_find s sub =
     (if length sub = 0 then Some 0
      else let i = str_search s sub 0 in if i \<ge> 0 then Some i else None)"

fun rfind_loop :: "bstr \<Rightarrow> bstr \<Rightarrow> nat \<Rightarrow> int option" where
  "rfind_loop s sub i =
     (if memcmp (sub_range s i (i + length sub)) sub = 0 then Some (int i)
      else case i of 0 \<Rightarrow> None | Suc i' \<Rightarrow> rfind_loop s sub i')"

declare rfind_loop.simps [simp del]

definition beans_str_rfind :: "bstr \<Rightarrow> bstr \<Rightarrow> int option" where
  "beans_str_rfind s sub =
     (if length sub = 0 then Some (int (length s))
      else if length s < length sub then None
      else rfind_loop s sub (length s - length sub))"

section \<open>Slicing\<close>

definition beans_str_len :: "bstr \<Rightarrow> int" where
  "beans_str_len s = int (length s)"

definition beans_str_is_empty :: "bstr \<Rightarrow> bool" where
  "beans_str_is_empty s \<longleftrightarrow> length s = 0"

definition clamp_len :: "int \<Rightarrow> int \<Rightarrow> int" where
  "clamp_len n len = (let n = (if n < 0 then 0 else n) in if n > len then len else n)"

definition beans_str_first :: "bstr \<Rightarrow> int \<Rightarrow> bstr" where
  "beans_str_first s n = take (nat (clamp_len n (int (length s)))) s"

definition beans_str_last :: "bstr \<Rightarrow> int \<Rightarrow> bstr" where
  "beans_str_last s n =
     (let len = length s; n = nat (clamp_len n (int len)) in sub_range s (len - n) len)"

definition beans_str_slice :: "bstr \<Rightarrow> int \<Rightarrow> int \<Rightarrow> int \<Rightarrow> int \<Rightarrow> bstr rt" where
  "beans_str_slice s from to line col =
     (let n = int (length s) in
      if from < 0 \<or> to < from \<or> to > n
      then rt_panic 96 ''slice %lld..%lld out of range (len %lld)''
             [ArgI64 from, ArgI64 to, ArgI64 n] line col
      else Ok (sub_range s (nat from) (nat to)))"

definition beans_str_byte_at :: "bstr \<Rightarrow> int \<Rightarrow> int \<Rightarrow> int \<Rightarrow> int rt" where
  "beans_str_byte_at s i line col =
     (let n = int (length s) in
      if i < 0 \<or> i \<ge> n
      then rt_panic 80 ''byte index %lld out of range (len %lld)'' [ArgI64 i, ArgI64 n] line col
      else Ok (uint (s ! nat i)))"

definition beans_str_find_byte :: "bstr \<Rightarrow> int \<Rightarrow> int \<Rightarrow> int \<Rightarrow> int \<Rightarrow> int rt" where
  "beans_str_find_byte s b from line col =
     (let n = int (length s) in
      if b < 0 \<or> b > 255 then rt_panic 64 ''byte %lld out of range'' [ArgI64 b] line col
      else if from < 0 \<or> from > n
      then rt_panic 96 ''find start %lld out of range (len %lld)'' [ArgI64 from, ArgI64 n] line col
      else Ok (case memchr (word_of_int b) (drop (nat from) s) of
                 None \<Rightarrow> -1 | Some k \<Rightarrow> from + int k))"

definition beans_str_range_equals ::
  "bstr \<Rightarrow> int \<Rightarrow> int \<Rightarrow> bstr \<Rightarrow> int \<Rightarrow> int \<Rightarrow> bool rt" where
  "beans_str_range_equals s from to other line col =
     (let n = int (length s) in
      if from < 0 \<or> to < from \<or> to > n
      then rt_panic 96 ''range %lld..%lld out of range (len %lld)''
             [ArgI64 from, ArgI64 to, ArgI64 n] line col
      else Ok (to - from = int (length other) \<and>
               memcmp (sub_range s (nat from) (nat to)) other = 0))"

section \<open>Reading integers\<close>

definition is_digit :: "byte \<Rightarrow> bool" where
  "is_digit c \<longleftrightarrow> 48 \<le> c \<and> c \<le> 57"

text \<open>The byte under a pointer into NUL-terminated text.\<close>

definition peek :: "bstr \<Rightarrow> byte" where
  "peek rest = (case rest of [] \<Rightarrow> 0 | c # _ \<Rightarrow> c)"

fun parse_digits :: "u64 \<Rightarrow> u64 \<Rightarrow> bool \<Rightarrow> bstr \<Rightarrow> u64 \<times> bool \<times> bstr" where
  "parse_digits cap value overflowed [] = (value, overflowed, [])"
| "parse_digits cap value overflowed (c # p) =
     (if is_digit c then
        (let digit = ucast c - 48 in
         if value > (cap - digit) div 10 then parse_digits cap value True p
         else parse_digits cap (value * 10 + digit) overflowed p)
      else (value, overflowed, c # p))"

text \<open>
  \<open>None\<close> is the return value 0 (no number); \<open>Some (v, end)\<close> is 1 with \<^verbatim>\<open>*out = v\<close> and the
  text left at \<^verbatim>\<open>*end\<close>. Negating the value \<open>2\<^sup>63\<close> as a \<^verbatim>\<open>long long\<close> is a signed overflow.
\<close>

definition parse_i64_result :: "bool \<Rightarrow> bstr \<Rightarrow> (int \<times> bstr) option rt" where
  "parse_i64_result negative p =
     (let cap = (if negative then 9223372036854775808 else 9223372036854775807);
          (value, overflowed, end') = parse_digits cap 0 False p;
          value = (if overflowed then cap else value)
      in if negative
         then (if sint value = - (2 ^ 63) then Fault else Ok (Some (- sint value, end')))
         else Ok (Some (sint value, end')))"

definition rt_parse_i64 :: "bstr \<Rightarrow> (int \<times> bstr) option rt" where
  "rt_parse_i64 text =
     (let p = dropWhile (\<lambda>c. c = 32 \<or> c = 9 \<or> c = 10 \<or> c = 13) text;
          negative = (peek p = 45);
          q = (if peek p = 43 \<or> peek p = 45 then drop 1 p else p)
      in if \<not> is_digit (peek q) then Ok None else parse_i64_result negative q)"

datatype berror = BError (err_msg: bstr) (err_kind: bstr)

definition parse_fail :: "bstr \<Rightarrow> string \<Rightarrow> berror rt" where
  "parse_fail s what =
     (let p1 = asc (''can't read '' @ [CHR 0x27]); p2 = asc (CHR 0x27 # '' as ''); w = asc what;
          total = length p1 + length s + length p2 + length w
      in rt_bind (fill_parts (str_alloc total) 0 [p1, s, p2, w])
           (\<lambda>(m, _). Ok (BError (str_of_buf total m) (asc ''invalid''))))"

definition beans_str_to_int :: "bstr \<Rightarrow> (berror + int) rt" where
  "beans_str_to_int s =
     rt_bind (rt_parse_i64 s) (\<lambda>r.
       case r of
         None \<Rightarrow> rt_bind (parse_fail s ''int'') (\<lambda>e. Ok (Inl e))
       | Some (v, end') \<Rightarrow>
           (if length end' = length s \<or> peek end' \<noteq> 0
            then rt_bind (parse_fail s ''int'') (\<lambda>e. Ok (Inl e))
            else Ok (Inr v)))"

text \<open>The allocation-free range reader: wraps modulo \<open>2\<^sup>64\<close>, answers the fallback on bad text.\<close>

fun parse_range_digits :: "u64 \<Rightarrow> bstr \<Rightarrow> u64 option" where
  "parse_range_digits value [] = Some value"
| "parse_range_digits value (c # cs) =
     (if c < 48 \<or> c > 57 then None else parse_range_digits (value * 10 + (ucast c - 48)) cs)"

definition beans_str_parse_int_range_or ::
  "bstr \<Rightarrow> int \<Rightarrow> int \<Rightarrow> int \<Rightarrow> int \<Rightarrow> int \<Rightarrow> int rt" where
  "beans_str_parse_int_range_or s from to fallback line col =
     (let n = int (length s) in
      if from < 0 \<or> to < from \<or> to > n
      then rt_panic 96 ''range %lld..%lld out of range (len %lld)''
             [ArgI64 from, ArgI64 to, ArgI64 n] line col
      else
        (let r = sub_range s (nat from) (nat to);
             signed = (r \<noteq> [] \<and> (hd r = 43 \<or> hd r = 45));
             negative = (signed \<and> hd r = 45);
             ds = (if signed then tl r else r)
         in if ds = [] then Ok fallback
            else case parse_range_digits 0 ds of
                None \<Rightarrow> Ok fallback
              | Some value \<Rightarrow> Ok (sint (if negative then 0 - value else value))))"

section \<open>Trimming and case\<close>

definition str_is_ws :: "byte \<Rightarrow> bool" where
  "str_is_ws c \<longleftrightarrow> c = 32 \<or> c = 9 \<or> c = 10 \<or> c = 13 \<or> c = 12 \<or> c = 11"

function skip_ws_up :: "bstr \<Rightarrow> nat \<Rightarrow> nat \<Rightarrow> nat" where
  "skip_ws_up s b e = (if b < e \<and> str_is_ws (s ! b) then skip_ws_up s (b + 1) e else b)"
  by pat_completeness auto
termination
  by (relation "measure (\<lambda>(s, b, e). e - b)") auto

fun skip_ws_down :: "bstr \<Rightarrow> nat \<Rightarrow> nat \<Rightarrow> nat" where
  "skip_ws_down s b e = (if b < e \<and> str_is_ws (s ! (e - 1)) then skip_ws_down s b (e - 1) else e)"

declare skip_ws_up.simps [simp del] skip_ws_down.simps [simp del]

definition beans_str_trim :: "bstr \<Rightarrow> bstr" where
  "beans_str_trim s =
     (let b = skip_ws_up s 0 (length s); e = skip_ws_down s b (length s) in sub_range s b e)"

definition beans_str_trim_start :: "bstr \<Rightarrow> bstr" where
  "beans_str_trim_start s = (let b = skip_ws_up s 0 (length s) in sub_range s b (length s))"

definition beans_str_trim_end :: "bstr \<Rightarrow> bstr" where
  "beans_str_trim_end s = (let e = skip_ws_down s 0 (length s) in sub_range s 0 e)"

definition beans_str_to_upper :: "bstr \<Rightarrow> bstr" where
  "beans_str_to_upper s = map (\<lambda>c. if 97 \<le> c \<and> c \<le> 122 then c - 97 + 65 else c) s"

definition beans_str_to_lower :: "bstr \<Rightarrow> bstr" where
  "beans_str_to_lower s = map (\<lambda>c. if 65 \<le> c \<and> c \<le> 90 then c - 65 + 97 else c) s"

section \<open>Replacing, repeating, splitting\<close>

text \<open>
  The two passes of \<^verbatim>\<open>beans_str_replace\<close>: counting the matches, then copying. Both are
  entered with a nonempty \<^verbatim>\<open>old\<close> only.
\<close>

function replace_count :: "bstr \<Rightarrow> bstr \<Rightarrow> nat \<Rightarrow> nat" where
  "replace_count s old i =
     (let j = str_search s old (int i) in
      if j < 0 \<or> old = [] then 0 else 1 + replace_count s old (nat j + length old))"
  by pat_completeness auto

function replace_fill :: "bstr \<Rightarrow> nat \<Rightarrow> bstr \<Rightarrow> bstr \<Rightarrow> bstr \<Rightarrow> nat \<Rightarrow> (bstr \<times> nat \<times> nat) rt" where
  "replace_fill buf w s old nw i =
     (let j = str_search s old (int i) in
      if j < 0 \<or> old = [] then Ok (buf, w, i)
      else
        rt_bind (mem_write buf w (sub_range s i (nat j))) (\<lambda>b.
        rt_bind (mem_write b (w + (nat j - i)) nw) (\<lambda>b'.
          replace_fill b' (w + (nat j - i) + length nw) s old nw (nat j + length old))))"
  by pat_completeness auto

function split_from :: "bstr \<Rightarrow> bstr \<Rightarrow> nat \<Rightarrow> bstr list" where
  "split_from s sep i =
     (let j = str_search s sep (int i) in
      if j < 0 \<or> sep = [] then [sub_range s i (length s)]
      else sub_range s i (nat j) # split_from s sep (nat j + length sep))"
  by pat_completeness auto

lemma str_search_loop_upper: "str_search_loop s sub p + int (length sub) \<le> max (int (length sub) - 1) (int (length s))"
proof (induction s sub p rule: str_search_loop.induct)
  case (1 s sub p)
  then show ?case
    by (subst str_search_loop.simps) (auto simp: Let_def memchr_Some split: option.splits)
qed

lemma str_search_upper: "0 \<le> from \<Longrightarrow> str_search s sub from = j \<Longrightarrow> 0 \<le> j \<Longrightarrow> nat j + length sub \<le> length s"
  using str_search_loop_upper [of s sub "nat from"]
  by (auto simp: str_search_def split: if_splits)

lemma str_search_loop_lower: "0 \<le> str_search_loop s sub p \<Longrightarrow> int p \<le> str_search_loop s sub p"
proof (induction s sub p rule: str_search_loop.induct)
  case (1 s sub p)
  from 1(2) show ?case
    apply (subst (asm) str_search_loop.simps)
    apply (subst str_search_loop.simps)
    using 1(1) by (fastforce simp: Let_def split: option.splits if_splits)
qed

lemma str_search_lower: "0 \<le> from \<Longrightarrow> 0 \<le> str_search s sub from \<Longrightarrow> from \<le> str_search s sub from"
  using str_search_loop_lower [of s sub "nat from"]
  by (auto simp: str_search_def split: if_splits)

lemma search_progress:
  "\<not> str_search s old (int i) < 0 \<Longrightarrow> old \<noteq> [] \<Longrightarrow>
   length s - (nat (str_search s old (int i)) + length old) < length s - i"
  using str_search_upper [of "int i" s old] str_search_lower [of "int i" s old]
  by (cases old) auto

termination replace_count
  by (relation "measure (\<lambda>(s, old, i). length s - i)") (auto dest: search_progress)

termination replace_fill
  by (relation "measure (\<lambda>(buf, w, s, old, nw, i). length s - i)")
     (auto dest: search_progress)

termination split_from
  by (relation "measure (\<lambda>(s, sep, i). length s - i)") (auto dest: search_progress)

definition beans_str_replace :: "bstr \<Rightarrow> bstr \<Rightarrow> bstr \<Rightarrow> bstr rt" where
  "beans_str_replace s old nw =
     (let n = length s; m = length old; rl = length nw in
      if m = 0 then Ok s
      else
        (let count = replace_count s old 0 in
         if count = 0 then Ok s
         else
           (let outn = int n + int count * (int rl - int m) in
            rt_bind (replace_fill (str_alloc (nat outn)) 0 s old nw 0) (\<lambda>(b, w, i).
            rt_bind (mem_write b w (sub_range s i n)) (\<lambda>b'. Ok (str_of_buf (nat outn) b'))))))"

fun repeat_fill :: "bstr \<Rightarrow> bstr \<Rightarrow> nat \<Rightarrow> nat \<Rightarrow> bstr rt" where
  "repeat_fill buf s i 0 = Ok buf"
| "repeat_fill buf s i (Suc k) =
     rt_bind (mem_write buf (i * length s) s) (\<lambda>b. repeat_fill b s (i + 1) k)"

text \<open>\<^verbatim>\<open>long long outn = len * n;\<close> has no range check: an overflow is undefined behaviour.\<close>

definition beans_str_repeat :: "bstr \<Rightarrow> int \<Rightarrow> int \<Rightarrow> int \<Rightarrow> bstr rt" where
  "beans_str_repeat s n line col =
     (if n < 0 then rt_panic 64 ''negative repeat count %lld'' [ArgI64 n] line col
      else
        (let outn = int (length s) * n in
         if \<not> i64_ok (outn + 1) then Fault
         else rt_bind (repeat_fill (str_alloc (nat outn)) s 0 (nat n))
                (\<lambda>b. Ok (str_of_buf (nat outn) b))))"

definition beans_str_split :: "bstr \<Rightarrow> bstr \<Rightarrow> bstr list" where
  "beans_str_split s sep = (if length sep = 0 then [s] else split_from s sep 0)"

text \<open>\<^verbatim>\<open>beans_str_lines\<close>: \<open>i\<close> is the start of the current line, \<open>j\<close> the scan position.\<close>

function lines_from :: "bstr \<Rightarrow> nat \<Rightarrow> nat \<Rightarrow> bstr list" where
  "lines_from s i j =
     (if j < length s
      then (if s ! j = 10 then sub_range s i j # lines_from s (j + 1) (j + 1)
            else lines_from s i (j + 1))
      else if i < length s then [sub_range s i (length s)] else [])"
  by pat_completeness auto
termination
  by (relation "measure (\<lambda>(s, i, j). length s - j)") auto

definition beans_str_lines :: "bstr \<Rightarrow> bstr list" where
  "beans_str_lines s = lines_from s 0 0"

declare replace_count.simps [simp del]
  replace_fill.simps [simp del] split_from.simps [simp del] lines_from.simps [simp del]

section \<open>Search\<close>

definition match_at :: "bstr \<Rightarrow> bstr \<Rightarrow> nat \<Rightarrow> bool" where
  "match_at s sub i \<longleftrightarrow> i + length sub \<le> length s \<and> sub_range s i (i + length sub) = sub"

text \<open>\<open>r\<close> is the leftmost match at or after \<open>from\<close>, or \<open>-1\<close> when there is none.\<close>

definition is_search_result :: "bstr \<Rightarrow> bstr \<Rightarrow> nat \<Rightarrow> int \<Rightarrow> bool" where
  "is_search_result s sub from r \<longleftrightarrow>
     (r = -1 \<and> (\<forall>i\<ge>from. \<not> match_at s sub i)) \<or>
     (\<exists>i\<ge>from. r = int i \<and> match_at s sub i \<and> (\<forall>j. from \<le> j \<and> j < i \<longrightarrow> \<not> match_at s sub j))"

lemma match_at_Cons:
  "match_at s (c # cs) i \<longleftrightarrow>
     i + length (c # cs) \<le> length s \<and> s ! i = c \<and> sub_range s (Suc i) (i + length (c # cs)) = cs"
  by (auto simp: match_at_def sub_range_Cons)

lemma search_hit_test:
  assumes "sub \<noteq> []" "hit + length sub \<le> length s" "s ! hit = sub ! 0"
  shows "(length sub = 1 \<or> memcmp (sub_range s (hit + 1) (hit + length sub)) (drop 1 sub) = 0)
    \<longleftrightarrow> match_at s sub hit"
proof (cases sub)
  case Nil
  with assms show ?thesis by simp
next
  case (Cons c cs)
  have "memcmp (sub_range s (hit + 1) (hit + length sub)) cs = 0 \<longleftrightarrow>
      sub_range s (hit + 1) (hit + length sub) = cs"
    using assms Cons by (intro memcmp_eq_0) simp
  with assms Cons show ?thesis
    by (auto simp: match_at_Cons sub_range_def)
qed

lemma no_match_before_hit:
  assumes "sub \<noteq> []" "length sub \<le> length s - p" "p \<le> j" "match_at s sub j"
    and "\<forall>j<k. take (length s - p - (length sub - 1)) (drop p s) ! j \<noteq> sub ! 0"
  shows "p + k \<le> j"
proof (rule ccontr)
  assume "\<not> p + k \<le> j"
  with assms(3) obtain q where q: "j = p + q" "q < k"
    by (metis le_Suc_ex not_le nat_add_left_cancel_less)
  obtain c cs where sub: "sub = c # cs" using assms(1) by (cases sub) auto
  from assms(4) q sub have "s ! j = c" "j + length sub \<le> length s" by (auto simp: match_at_Cons)
  with q sub assms(5) show False by auto
qed

lemma is_search_result_extend:
  assumes "is_search_result s sub q r" "\<And>j. p \<le> j \<Longrightarrow> j < q \<Longrightarrow> \<not> match_at s sub j" "p \<le> q"
  shows "is_search_result s sub p r"
proof -
  have split: "\<not> match_at s sub j" if "p \<le> j" "q \<le> j \<Longrightarrow> \<not> match_at s sub j" for j
    using that assms(2) [of j] by (cases "q \<le> j") auto
  from assms(1) consider "r = -1" "\<forall>i\<ge>q. \<not> match_at s sub i"
    | i where "q \<le> i" "r = int i" "match_at s sub i" "\<forall>j. q \<le> j \<and> j < i \<longrightarrow> \<not> match_at s sub j"
    unfolding is_search_result_def by blast
  then show ?thesis
  proof cases
    case 1
    then show ?thesis unfolding is_search_result_def using split by blast
  next
    case (2 i)
    then have "p \<le> i" "\<forall>j. p \<le> j \<and> j < i \<longrightarrow> \<not> match_at s sub j" using split assms(3) by auto
    with 2 show ?thesis unfolding is_search_result_def by blast
  qed
qed

lemma str_search_loop_result:
  "sub \<noteq> [] \<Longrightarrow> is_search_result s sub p (str_search_loop s sub p)"
proof (induction s sub p rule: str_search_loop.induct)
  case (1 s sub p)
  let ?room = "int (length s) - int p - (int (length sub) - 1)"
  let ?nroom = "length s - p - (length sub - 1)"
  show ?case
  proof (cases "?room \<le> 0")
    case True
    then have "\<forall>i\<ge>p. \<not> match_at s sub i"
      using "1.prems" by (auto simp: match_at_def)
    with True show ?thesis
      by (simp add: str_search_loop.simps [of s sub p] is_search_result_def)
  next
    case False
    have nr: "nat ?room = ?nroom" using "1.prems" False by (cases sub) auto
    have len: "length sub \<le> length s - p" using False "1.prems" by (cases sub) auto
    show ?thesis
    proof (cases "memchr (sub ! 0) (take ?nroom (drop p s))")
      case None
      then have none: "sub ! 0 \<notin> set (take ?nroom (drop p s))" by (simp add: memchr_None)
      have "\<not> match_at s sub i" if "p \<le> i" for i
      proof
        assume m: "match_at s sub i"
        with "1.prems" have "s ! i = sub ! 0" "i + length sub \<le> length s"
          by (cases sub; simp add: match_at_Cons)+
        moreover from this have "i - p < ?nroom" using that "1.prems" by (cases sub) auto
        ultimately have "take ?nroom (drop p s) ! (i - p) = sub ! 0" "i - p < length (take ?nroom (drop p s))"
          using that by auto
        with none show False by (metis nth_mem)
      qed
      with False None nr show ?thesis
        by (simp add: str_search_loop.simps [of s sub p] is_search_result_def)
    next
      case (Some k)
      let ?hit = "p + k"
      from Some have k: "k < ?nroom" "k < length s - p" "s ! ?hit = sub ! 0"
        and before: "\<forall>j<k. take ?nroom (drop p s) ! j \<noteq> sub ! 0"
        by (auto simp: memchr_Some)
      have hl: "?hit + length sub \<le> length s" using k(1) len "1.prems" by (cases sub) auto
      note test = search_hit_test [OF "1.prems" hl k(3)]
      have min: "?hit \<le> j" if "p \<le> j" "match_at s sub j" for j
        using no_match_before_hit [OF "1.prems" len that before] .
      show ?thesis
      proof (cases "match_at s sub ?hit")
        case True
        with test False Some nr have "str_search_loop s sub p = int ?hit"
          by (simp add: str_search_loop.simps [of s sub p] Let_def)
        moreover have "\<forall>j. p \<le> j \<and> j < ?hit \<longrightarrow> \<not> match_at s sub j"
          using min by (meson leD)
        ultimately show ?thesis
          using True unfolding is_search_result_def by (metis le_add1)
      next
        case nm: False
        with test False Some nr have step: "str_search_loop s sub p = str_search_loop s sub (?hit + 1)"
          by (simp add: str_search_loop.simps [of s sub p] Let_def)
        have "is_search_result s sub (?hit + 1) (str_search_loop s sub (?hit + 1))"
          using "1.IH" [OF refl False _ refl] Some nr nm test "1.prems" by auto
        moreover have "\<not> match_at s sub j" if "p \<le> j" "j < ?hit + 1" for j
          using that nm min [of j] by (metis Suc_eq_plus1 le_neq_implies_less less_Suc_eq_le not_le)
        ultimately show ?thesis
          unfolding step by (rule is_search_result_extend) simp_all
      qed
    qed
  qed
qed

lemma str_search_result:
  assumes "from \<le> length s"
  shows "is_search_result s sub from (str_search s sub (int from))"
proof (cases "length sub > length s - from")
  case True
  with assms show ?thesis
    by (auto simp: str_search_def is_search_result_def match_at_def)
next
  case False
  with assms have "sub = [] \<Longrightarrow> match_at s sub from" by (simp add: match_at_def sub_range_def)
  with False assms str_search_loop_result [of sub s "from"] show ?thesis
    by (auto simp: str_search_def is_search_result_def)
qed

section \<open>Splitting, joining and replacing\<close>

fun join_with :: "bstr \<Rightarrow> bstr list \<Rightarrow> bstr" where
  "join_with sep [] = []"
| "join_with sep [p] = p"
| "join_with sep (p # q # ps) = p @ sep @ join_with sep (q # ps)"

lemma join_with_Cons: "ps \<noteq> [] \<Longrightarrow> join_with sep (p # ps) = p @ sep @ join_with sep ps"
  by (cases ps) auto

lemma length_join_with:
  "ps \<noteq> [] \<Longrightarrow> length (join_with sep ps) = sum_list (map length ps) + (length ps - 1) * length sep"
  by (induction sep ps rule: join_with.induct) auto

lemma split_from_nonempty [simp]: "split_from s sep i \<noteq> []"
  by (subst split_from.simps) (simp add: Let_def)

text \<open>One turn of the shared search loop: the next match, or none.\<close>

lemma search_step:
  assumes "sep \<noteq> []" "i \<le> length s"
  obtains (none) "str_search s sep (int i) < 0" "\<forall>j\<ge>i. \<not> match_at s sep j"
  | (hit) j where "str_search s sep (int i) = int j" "i \<le> j" "j + length sep \<le> length s"
      "sub_range s j (j + length sep) = sep" "\<forall>k. i \<le> k \<and> k < j \<longrightarrow> \<not> match_at s sep k"
  using str_search_result [OF assms(2), of sep]
  by (auto simp: is_search_result_def match_at_def)

lemma split_from_hit:
  "str_search s sep (int i) = int j \<Longrightarrow> sep \<noteq> [] \<Longrightarrow>
   split_from s sep i = sub_range s i j # split_from s sep (j + length sep)"
  by (simp add: split_from.simps [of s sep i])

lemma split_from_none:
  "str_search s sep (int i) < 0 \<Longrightarrow> split_from s sep i = [sub_range s i (length s)]"
  by (simp add: split_from.simps [of s sep i])

text \<open>Induction along the matches of \<open>sep\<close> from position \<open>i\<close>.\<close>

lemma search_induct [consumes 2, case_names none hit]:
  assumes "sep \<noteq> []" "i \<le> length s"
    and none: "\<And>i. i \<le> length s \<Longrightarrow> str_search s sep (int i) < 0 \<Longrightarrow>
      \<forall>j\<ge>i. \<not> match_at s sep j \<Longrightarrow> sep \<noteq> [] \<Longrightarrow> P i"
    and hit: "\<And>i j. i \<le> j \<Longrightarrow> j + length sep \<le> length s \<Longrightarrow> str_search s sep (int i) = int j \<Longrightarrow>
      sub_range s j (j + length sep) = sep \<Longrightarrow> \<forall>k. i \<le> k \<and> k < j \<longrightarrow> \<not> match_at s sep k \<Longrightarrow>
      sep \<noteq> [] \<Longrightarrow> P (j + length sep) \<Longrightarrow> P i"
  shows "P i"
  using assms(2)
proof (induction "length s - i" arbitrary: i rule: less_induct)
  case less
  from assms(1) less.prems show ?case
  proof (cases rule: search_step)
    case none
    then show ?thesis using assms(1,3) less.prems by blast
  next
    case (hit j)
    have "length s - (j + length sep) < length s - i" using hit assms(1) by (cases sep) auto
    then have "P (j + length sep)" using less.hyps hit by blast
    then show ?thesis using assms(1,4) hit by blast
  qed
qed

lemma split_from_join: "sep \<noteq> [] \<Longrightarrow> i \<le> length s \<Longrightarrow> join_with sep (split_from s sep i) = drop i s"
proof (induction rule: search_induct)
  case (none i)
  then show ?case by (simp add: split_from_none sub_range_def)
next
  case (hit i j)
  have "drop i s = sub_range s i j @ drop j s"
    using hit(1) by (metis append_take_drop_id drop_drop le_add_diff_inverse2 sub_range_def)
  also have "drop j s = sep @ drop (j + length sep) s"
    using hit(4) by (metis append_take_drop_id drop_drop add.commute add_diff_cancel_left' sub_range_def)
  finally show ?case
    using hit by (simp add: split_from_hit join_with_Cons \<open>sep \<noteq> []\<close>)
qed

lemma match_in_range:
  assumes "match_at (sub_range s i j) sep k" "j \<le> length s"
  shows "match_at s sep (i + k) \<and> i + k + length sep \<le> j \<or> sep = []"
proof -
  have "sub_range (sub_range s i j) k (k + length sep) = sub_range s (i + k) (i + k + length sep)"
  proof -
    have "k + length sep \<le> j - i" using assms by (auto simp: match_at_def)
    then have "length sep \<le> j - (i + k)" by linarith
    then show ?thesis by (simp add: sub_range_def drop_take min_absorb1 add.commute)
  qed
  moreover have "sep \<noteq> [] \<Longrightarrow> i + k + length sep \<le> j"
    using assms by (cases sep) (auto simp: match_at_def)
  ultimately show ?thesis using assms by (cases "sep = []") (auto simp: match_at_def)
qed

lemma split_from_pieces:
  "sep \<noteq> [] \<Longrightarrow> i \<le> length s \<Longrightarrow> \<forall>p \<in> set (split_from s sep i). \<forall>k. \<not> match_at p sep k"
proof (induction rule: search_induct)
  case (none i)
  then show ?case
    using match_in_range [of s i "length s" sep] \<open>sep \<noteq> []\<close>
    by (auto simp: split_from_none)
next
  case (hit i j)
  have "\<not> match_at (sub_range s i j) sep k" for k
  proof
    assume "match_at (sub_range s i j) sep k"
    then have "match_at s sep (i + k)" "i + k + length sep \<le> j"
      using match_in_range [of s i j sep k] hit \<open>sep \<noteq> []\<close> by auto
    with hit(5) \<open>sep \<noteq> []\<close> show False by (cases sep) auto
  qed
  with hit show ?case by (simp add: split_from_hit \<open>sep \<noteq> []\<close>)
qed

lemma replace_count_split:
  "sep \<noteq> [] \<Longrightarrow> i \<le> length s \<Longrightarrow> replace_count s sep i = length (split_from s sep i) - 1"
proof (induction rule: search_induct)
  case (none i)
  then show ?case by (simp add: split_from_none replace_count.simps [of s sep i])
next
  case (hit i j)
  then show ?case
    by (simp add: split_from_hit replace_count.simps [of s sep i])
qed

text \<open>The fill loop writes the joined pieces up to the last one, whose start it returns.\<close>

lemma replace_fill_ok:
  "old \<noteq> [] \<Longrightarrow> i \<le> length s \<Longrightarrow>
   length (join_with nw (split_from s old i)) \<le> n \<Longrightarrow>
   \<exists>pre i'. replace_fill (xs @ replicate n z) (length xs) s old nw i =
       Ok ((xs @ pre) @ replicate (n - length pre) z, length xs + length pre, i') \<and>
     i' \<le> length s \<and> join_with nw (split_from s old i) = pre @ sub_range s i' (length s)"
proof (induction arbitrary: xs n rule: search_induct)
  case (none i)
  then show ?case
    by (intro exI [of _ "[]"] exI [of _ i]) (simp add: split_from_none replace_fill.simps)
next
  case (hit i j)
  let ?p = "sub_range s i j" and ?i = "j + length old"
  have lp: "length ?p = j - i" using hit by simp
  have split: "join_with nw (split_from s old i) = ?p @ nw @ join_with nw (split_from s old ?i)"
    using hit by (simp add: split_from_hit join_with_Cons \<open>old \<noteq> []\<close>)
  with hit.prems have n: "length ?p + length nw + length (join_with nw (split_from s old ?i)) \<le> n"
    by simp
  have w1: "mem_write (xs @ replicate n z) (length xs) ?p = Ok ((xs @ ?p) @ replicate (n - length ?p) z)"
    using n by (intro mem_write_fill) auto
  have w2: "mem_write ((xs @ ?p) @ replicate (n - length ?p) z) (length xs + (j - i)) nw =
      Ok (((xs @ ?p) @ nw) @ replicate (n - length ?p - length nw) z)"
    using n lp by (intro mem_write_fill) auto
  have "length (join_with nw (split_from s old ?i)) \<le> n - length ?p - length nw" using n by linarith
  from hit.IH [OF this, of "(xs @ ?p) @ nw"] obtain pre i' where IH:
    "replace_fill (((xs @ ?p) @ nw) @ replicate (n - length ?p - length nw) z)
       (length xs + (j - i) + length nw) s old nw ?i =
     Ok ((((xs @ ?p) @ nw) @ pre) @ replicate (n - length ?p - length nw - length pre) z,
         length xs + (j - i) + length nw + length pre, i')"
    "i' \<le> length s" "join_with nw (split_from s old ?i) = pre @ sub_range s i' (length s)"
    using lp by (auto simp: add.assoc)
  have "replace_fill (xs @ replicate n z) (length xs) s old nw i =
      replace_fill (((xs @ ?p) @ nw) @ replicate (n - length ?p - length nw) z)
        (length xs + (j - i) + length nw) s old nw ?i"
    using hit w1 w2 by (simp add: replace_fill.simps [of _ _ s old nw i] \<open>old \<noteq> []\<close>)
  with IH split lp show ?case
    by (intro exI [of _ "?p @ nw @ pre"] exI [of _ i']) (simp add: add.assoc diff_diff_add)
qed

lemma length_join_replace:
  assumes "old \<noteq> []"
  shows "int (length (join_with nw (split_from s old 0))) =
    int (length s) + int (replace_count s old 0) * (int (length nw) - int (length old))"
proof -
  let ?ps = "split_from s old 0"
  have "length (join_with old ?ps) = length s"
    using split_from_join [of old 0 s] assms by simp
  moreover have sz: "int (length (join_with x ?ps)) =
      int (sum_list (map length ?ps)) + int (replace_count s old 0) * int (length x)" for x
    using replace_count_split [of old 0 s] assms by (simp add: length_join_with)
  ultimately show ?thesis
    using sz [of nw] sz [of old] by (simp add: right_diff_distrib)
qed

lemma str_replace_join:
  assumes "old \<noteq> []"
  shows "beans_str_replace s old nw = Ok (join_with nw (beans_str_split s old))"
proof (cases "replace_count s old 0 = 0")
  case True
  then have "length (split_from s old 0) = 1"
    using replace_count_split [of old 0 s] assms
    by (metis Suc_pred le0 length_greater_0_conv One_nat_def split_from_nonempty)
  then obtain p where "split_from s old 0 = [p]" by (metis One_nat_def length_0_conv length_Suc_conv)
  with True assms split_from_join [of old 0 s] show ?thesis
    by (auto simp: beans_str_replace_def beans_str_split_def)
next
  case False
  let ?out = "join_with nw (split_from s old 0)"
  let ?outn = "int (length s) + int (replace_count s old 0) * (int (length nw) - int (length old))"
  have outn: "nat ?outn = length ?out" using length_join_replace [OF assms, of nw s] by simp
  obtain pre i' where f:
    "replace_fill (str_alloc (length ?out)) 0 s old nw 0 =
       Ok (pre @ replicate (length ?out + 1 - length pre) 0, length pre, i')"
    and i': "i' \<le> length s" "?out = pre @ sub_range s i' (length s)"
    using replace_fill_ok [of old 0 s nw "length ?out + 1" "[]" 0] assms
    by (auto simp: str_alloc_def simp del: replicate_Suc)
  have "mem_write (pre @ replicate (length ?out + 1 - length pre) 0) (length pre) (sub_range s i' (length s))
      = Ok ((pre @ sub_range s i' (length s)) @
            replicate (length ?out + 1 - length pre - length (sub_range s i' (length s))) 0)"
    using i' by (intro mem_write_fill) auto
  with False assms f outn i' show ?thesis
    by (simp add: beans_str_replace_def beans_str_split_def Let_def str_of_buf_def)
qed

section \<open>Buffers filled exactly\<close>

lemma str_of_buf_fill [simp]: "str_of_buf (length xs) (xs @ ys) = xs"
  by (simp add: str_of_buf_def)

lemma fill_parts_ok:
  "length (concat ps) \<le> n \<Longrightarrow>
   fill_parts (xs @ replicate n z) (length xs) ps =
     Ok ((xs @ concat ps) @ replicate (n - length (concat ps)) z, length xs + length (concat ps))"
proof (induction ps arbitrary: xs n)
  case Nil
  then show ?case by simp
next
  case (Cons p ps)
  have "mem_write (xs @ replicate n z) (length xs) p = Ok ((xs @ p) @ replicate (n - length p) z)"
    using Cons.prems by (intro mem_write_fill) auto
  moreover have "fill_parts ((xs @ p) @ replicate (n - length p) z) (length (xs @ p)) ps =
      Ok (((xs @ p) @ concat ps) @ replicate (n - length p - length (concat ps)) z,
          length (xs @ p) + length (concat ps))"
    using Cons.prems by (intro Cons.IH) simp
  ultimately show ?case by (simp add: add.assoc)
qed

lemma fill_fresh:
  "fill_parts (str_alloc (length (concat ps))) 0 ps = Ok (concat ps @ [0], length (concat ps))"
  using fill_parts_ok [of ps "length (concat ps) + 1" "[]" 0] by (simp add: str_alloc_def)

lemma str_concat_append: "beans_concat a b = Ok (a @ b)"
  by (simp add: beans_concat_def mem_write_def str_alloc_def str_of_buf_def Let_def)

lemma parse_fail_text:
  "parse_fail s what =
     Ok (BError (asc (''can't read '' @ [CHR 0x27]) @ s @ asc (CHR 0x27 # '' as '') @ asc what)
                (asc ''invalid''))"
  using fill_fresh [of "[asc (''can't read '' @ [CHR 0x27]), s, asc (CHR 0x27 # '' as ''), asc what]"]
  by (simp add: parse_fail_def str_of_buf_def Let_def del: asc_simps)

fun interp_text :: "interp_arg \<Rightarrow> bstr" where
  "interp_text (IStr s) = s"
| "interp_text (IInt v) = int_text v"
| "interp_text (IUint v) = nat_text (unat v)"
| "interp_text (IFloat t) = t"
| "interp_text (IBool b) = (if b then asc ''true'' else asc ''false'')"

fun interp_ok :: "interp_arg \<Rightarrow> bool" where
  "interp_ok (IInt v) = i64_ok v"
| "interp_ok _ = True"

lemma interp_len_text: "interp_ok a \<Longrightarrow> interp_len a = int (length (interp_text a))"
  by (cases a) (auto simp: int_digits_text uint_digits_text)

lemma interp_write_ok:
  assumes "interp_ok a" "length (interp_text a) \<le> n"
  shows "interp_write (xs @ replicate n z) (length xs) a =
    Ok ((xs @ interp_text a) @ replicate (n - length (interp_text a)) z, length xs + length (interp_text a))"
proof (cases a)
  case (IStr s)
  with assms show ?thesis by (simp add: mem_write_fill)
next
  case (IInt v)
  with assms show ?thesis by (simp add: write_int_fills)
next
  case (IUint v)
  with assms show ?thesis by (simp add: write_uint_fills)
next
  case (IFloat t)
  with assms show ?thesis by (simp add: mem_write_fill)
next
  case (IBool b)
  with assms show ?thesis by (cases b) (simp_all add: mem_write_fill)
qed

lemma interp_write_all_ok:
  "\<forall>a \<in> set as. interp_ok a \<Longrightarrow> length (concat (map interp_text as)) \<le> n \<Longrightarrow>
   interp_write_all (xs @ replicate n z) (length xs) as =
     Ok ((xs @ concat (map interp_text as)) @ replicate (n - length (concat (map interp_text as))) z,
         length xs + length (concat (map interp_text as)))"
proof (induction as arbitrary: xs n)
  case Nil
  then show ?case by simp
next
  case (Cons a as)
  have "interp_write (xs @ replicate n z) (length xs) a =
      Ok ((xs @ interp_text a) @ replicate (n - length (interp_text a)) z, length (xs @ interp_text a))"
    using Cons.prems by (subst interp_write_ok) auto
  moreover have "interp_write_all ((xs @ interp_text a) @ replicate (n - length (interp_text a)) z)
      (length (xs @ interp_text a)) as =
    Ok (((xs @ interp_text a) @ concat (map interp_text as)) @
          replicate (n - length (interp_text a) - length (concat (map interp_text as))) z,
        length (xs @ interp_text a) + length (concat (map interp_text as)))"
    using Cons.prems by (intro Cons.IH) simp_all
  ultimately show ?case by (simp add: add.assoc)
qed

lemma interp_total:
  "\<forall>a \<in> set as. interp_ok a \<Longrightarrow>
   sum_list (map interp_len as) = int (length (concat (map interp_text as)))"
  by (induction as) (auto simp: interp_len_text)

lemma repeat_fill_ok:
  "length xs = i * length s \<Longrightarrow> k * length s \<le> n \<Longrightarrow>
   repeat_fill (xs @ replicate n z) s i k =
     Ok (xs @ concat (replicate k s) @ replicate (n - k * length s) z)"
proof (induction k arbitrary: xs i n)
  case 0
  then show ?case by simp
next
  case (Suc k)
  have "mem_write (xs @ replicate n z) (i * length s) s = Ok ((xs @ s) @ replicate (n - length s) z)"
    using Suc.prems by (intro mem_write_fill) auto
  moreover have "repeat_fill ((xs @ s) @ replicate (n - length s) z) s (i + 1) k =
      Ok ((xs @ s) @ concat (replicate k s) @ replicate (n - length s - k * length s) z)"
    using Suc.prems by (intro Suc.IH) auto
  ultimately show ?case by (simp add: diff_diff_add)
qed

lemma length_concat_replicate: "length (concat (replicate k s)) = k * length s"
  by (induction k) auto

lemma str_repeat_value:
  assumes "0 \<le> n" "i64_ok (int (length s) * n + 1)"
  shows "beans_str_repeat s n line col = Ok (concat (replicate (nat n) s))"
proof -
  have sz: "nat (int (length s) * n) = nat n * length s"
    using assms(1) by (simp add: nat_mult_distrib mult.commute)
  have "repeat_fill ([] @ replicate (nat n * length s + 1) 0) s 0 (nat n) =
      Ok ([] @ concat (replicate (nat n) s) @ replicate (nat n * length s + 1 - nat n * length s) 0)"
    by (rule repeat_fill_ok) auto
  with assms sz show ?thesis
    by (simp add: beans_str_repeat_def str_alloc_def Let_def str_of_buf_def length_concat_replicate)
qed

section \<open>Trimming\<close>

lemma sub_range_drop: "sub_range s b (length s) = drop b s"
  by (simp add: sub_range_def)

lemma skip_ws_up_drop:
  "b \<le> length s \<Longrightarrow> drop (skip_ws_up s b (length s)) s = dropWhile str_is_ws (drop b s)
     \<and> b \<le> skip_ws_up s b (length s) \<and> skip_ws_up s b (length s) \<le> length s"
proof (induction s b "length s" rule: skip_ws_up.induct)
  case (1 s b)
  show ?case
  proof (cases "b < length s \<and> str_is_ws (s ! b)")
    case True
    then have "drop b s = s ! b # drop (b + 1) s" by (simp add: Cons_nth_drop_Suc)
    with 1 True show ?thesis by (simp add: skip_ws_up.simps [of s b])
  next
    case False
    then have "dropWhile str_is_ws (drop b s) = drop b s"
      using "1.prems" by (cases "b < length s") (auto simp: Cons_nth_drop_Suc [symmetric])
    with False "1.prems" show ?thesis by (auto simp: skip_ws_up.simps [of s b])
  qed
qed

lemma skip_ws_down_range:
  "b \<le> e \<Longrightarrow> e \<le> length s \<Longrightarrow>
   rev (sub_range s b (skip_ws_down s b e)) = dropWhile str_is_ws (rev (sub_range s b e))"
proof (induction s b e rule: skip_ws_down.induct)
  case (1 s b e)
  have snoc: "sub_range s b e = sub_range s b (e - 1) @ [s ! (e - 1)]" if "b < e"
  proof -
    have "sub_range s b (e - 1) @ sub_range s (e - 1) e = sub_range s b e"
      using that by (intro sub_range_append) auto
    moreover have "sub_range s (e - 1) e = [s ! (e - 1)]"
      using that "1.prems" by (simp add: sub_range_Cons) (simp add: sub_range_def)
    ultimately show ?thesis by simp
  qed
  show ?case
  proof (cases "b < e \<and> str_is_ws (s ! (e - 1))")
    case True
    then have "b \<le> e - 1" "e - 1 \<le> length s" using "1.prems" by auto
    from "1.IH" [OF True this] True snoc show ?thesis by (simp add: skip_ws_down.simps [of s b e])
  next
    case False
    with "1.prems" have "e = b \<or> \<not> str_is_ws (s ! (e - 1))" by auto
    moreover have "skip_ws_down s b e = e" using False by (subst skip_ws_down.simps) auto
    ultimately show ?thesis
      using snoc "1.prems" by (cases "b < e") (auto simp: sub_range_def)
  qed
qed

definition strip_end :: "bstr \<Rightarrow> bstr" where
  "strip_end s = rev (dropWhile str_is_ws (rev s))"

lemma trim_end_value: "beans_str_trim_end s = strip_end s"
  using skip_ws_down_range [of 0 "length s" s]
  by (simp add: beans_str_trim_end_def strip_end_def rev_swap)

lemma trim_start_value: "beans_str_trim_start s = dropWhile str_is_ws s"
  using skip_ws_up_drop [of 0 s] by (simp add: beans_str_trim_start_def sub_range_drop)

lemma trim_value: "beans_str_trim s = strip_end (dropWhile str_is_ws s)"
proof -
  let ?b = "skip_ws_up s 0 (length s)"
  have b: "drop ?b s = dropWhile str_is_ws s" "?b \<le> length s" using skip_ws_up_drop [of 0 s] by auto
  then show ?thesis
    using skip_ws_down_range [of ?b "length s" s]
    by (simp add: beans_str_trim_def strip_end_def rev_swap sub_range_drop Let_def)
qed

section \<open>Reading integers back\<close>

text \<open>The value of a digit string continued from \<open>a\<close>.\<close>

definition digits_val :: "nat \<Rightarrow> bstr \<Rightarrow> nat" where
  "digits_val a ds = foldl (\<lambda>a d. a * 10 + (unat d - 48)) a ds"

lemma digits_val_simps [simp]:
  "digits_val a [] = a" "digits_val a (d # ds) = digits_val (a * 10 + (unat d - 48)) ds"
  by (simp_all add: digits_val_def)

lemma digits_val_mono: "a \<le> b \<Longrightarrow> digits_val a ds \<le> digits_val b ds"
  by (induction ds arbitrary: a b) auto

lemma digits_val_ge: "a \<le> digits_val a ds"
proof (induction ds arbitrary: a)
  case (Cons d ds)
  have "a \<le> a * 10 + (unat d - 48)" by simp
  also have "\<dots> \<le> digits_val (a * 10 + (unat d - 48)) ds" by (rule Cons.IH)
  finally show ?case by simp
qed simp

lemma unat_ucast_byte: "unat (ucast (c :: byte) :: u64) = unat c"
  using unat_byte_bound [of c] by (simp add: unsigned_ucast_eq take_bit_nat_eq_self)

lemma digit_word: "is_digit c \<Longrightarrow> unat (ucast c - 48 :: u64) = unat c - 48 \<and> unat c - 48 \<le> 9"
proof -
  assume "is_digit c"
  then have c: "48 \<le> unat c" "unat c \<le> 57" by (auto simp: is_digit_def word_le_nat_alt)
  then have "(48 :: u64) \<le> ucast c" by (simp add: word_le_nat_alt unat_ucast_byte)
  then have "unat (ucast c - 48 :: u64) = unat (ucast c :: u64) - 48" by (simp add: unat_sub)
  with c show ?thesis by (simp add: unat_ucast_byte)
qed

lemma parse_digits_overflowed:
  "list_all is_digit ds \<Longrightarrow> (rest = [] \<or> \<not> is_digit (hd rest)) \<Longrightarrow>
   \<exists>v. parse_digits cap u True (ds @ rest) = (v, True, rest)"
proof (induction ds arbitrary: u)
  case Nil
  then show ?case by (cases rest) auto
next
  case (Cons d ds)
  then show ?case by (auto simp: Let_def)
qed

lemma parse_digits_value:
  assumes cap: "9 \<le> unat (cap :: u64)"
  shows "list_all is_digit ds \<Longrightarrow> (rest = [] \<or> \<not> is_digit (hd rest)) \<Longrightarrow> unat u \<le> unat cap \<Longrightarrow>
   \<exists>v. parse_digits cap u False (ds @ rest) =
         (v, unat cap < digits_val (unat u) ds, rest) \<and>
       (digits_val (unat u) ds \<le> unat cap \<longrightarrow> unat v = digits_val (unat u) ds)"
proof (induction ds arbitrary: u)
  case Nil
  then show ?case by (cases rest) auto
next
  case (Cons c ds)
  let ?d = "ucast c - 48 :: u64"
  from Cons.prems have c: "is_digit c" "list_all is_digit ds" by auto
  from digit_word [OF c(1)] have d: "unat ?d = unat c - 48" "unat ?d \<le> 9" by auto
  have "?d \<le> cap" using d(2) cap by (simp add: word_le_nat_alt)
  then have q: "unat ((cap - ?d) div 10) = (unat cap - unat ?d) div 10"
    by (simp add: unat_div unat_sub)
  have test: "u > (cap - ?d) div 10 \<longleftrightarrow> unat cap < unat u * 10 + unat ?d"
    using d(2) cap unfolding word_less_nat_alt q by linarith
  show ?case
  proof (cases "unat cap < unat u * 10 + unat ?d")
    case True
    with test c obtain v where "parse_digits cap u False ((c # ds) @ rest) = (v, True, rest)"
      using parse_digits_overflowed [OF c(2) Cons.prems(2), of cap u] by (auto simp: Let_def)
    moreover have "unat cap < digits_val (unat u) (c # ds)"
      using True d(1) digits_val_ge [of "unat u * 10 + (unat c - 48)" ds] by simp
    ultimately show ?thesis by auto
  next
    case False
    then have "unat u * 10 + unat ?d < 2 ^ 64" using unat_u64_bound [of cap] by simp
    then have v: "unat (u * 10 + ?d) = unat u * 10 + (unat c - 48)"
      using d(1) by (simp add: unat_word_ariths)
    with False d(1) have "unat (u * 10 + ?d) \<le> unat cap" by simp
    from Cons.IH [OF c(2) Cons.prems(2) this] show ?thesis
      using False test c(1) by (simp add: Let_def v)
  qed
qed

lemma text_val_digits_val: "text_val ds = digits_val 0 ds"
  by (simp add: text_val_def digits_val_def)

lemma nat_text_list_all: "list_all is_digit (nat_text n)"
  using nat_text_digits by (auto simp: list_all_iff is_digit_def)

text \<open>
  The reader on optional blanks, an optional sign, a digit string and a rest that starts with no
  digit: the value saturates at the ends of the signed range, except that the most negative value
  is produced by an overflowing negation.
\<close>

definition saturate_i64 :: "bool \<Rightarrow> nat \<Rightarrow> int" where
  "saturate_i64 negative n =
     (if negative then max (- (2 ^ 63)) (- int n) else min (2 ^ 63 - 1) (int n))"

lemma parse_i64_digits:
  assumes ds: "list_all is_digit ds" "ds \<noteq> []" and rest: "rest = [] \<or> \<not> is_digit (hd rest)"
    and ws: "list_all (\<lambda>c. c = 32 \<or> c = 9 \<or> c = 10 \<or> c = 13) ws"
    and sg: "sg \<in> {[], [43], [45]}"
  shows "rt_parse_i64 (ws @ sg @ ds @ rest) =
    (let v = saturate_i64 (sg = [45]) (text_val ds)
     in if v = - (2 ^ 63) then Fault else Ok (Some (v, rest)))"
proof -
  obtain d ds' where d: "ds = d # ds'" "is_digit d" using ds by (cases ds) auto
  then have dd: "d \<noteq> 32" "d \<noteq> 9" "d \<noteq> 10" "d \<noteq> 13" "d \<noteq> 43" "d \<noteq> 45"
    by (auto simp: is_digit_def)
  have "dropWhile (\<lambda>c. c = 32 \<or> c = 9 \<or> c = 10 \<or> c = 13) (ws @ sg @ ds @ rest) = sg @ ds @ rest"
    using ws sg d dd by (subst dropWhile_append2) (auto simp: list_all_iff)
  moreover define cap :: u64 where "cap = (if sg = [45] then 9223372036854775808 else 9223372036854775807)"
  have capv: "unat cap = (if sg = [45] then 2 ^ 63 else 2 ^ 63 - 1)" by (simp add: cap_def)
  obtain v where v: "parse_digits cap 0 False (ds @ rest) = (v, unat cap < text_val ds, rest)"
    and vv: "text_val ds \<le> unat cap \<longrightarrow> unat v = text_val ds"
    using parse_digits_value [OF _ ds(1) rest, of cap 0] capv by (auto simp: text_val_digits_val split: if_splits)
  let ?w = "if unat cap < text_val ds then cap else v"
  have w: "unat ?w = min (unat cap) (text_val ds)" using vv by auto
  have sw: "sint ?w = (if sg = [45] \<and> 2 ^ 63 \<le> text_val ds then - (2 ^ 63) else int (min (unat cap) (text_val ds)))"
  proof (cases "sg = [45] \<and> 2 ^ 63 \<le> text_val ds")
    case True
    then have "unat ?w = unat (9223372036854775808 :: u64)" using w capv by simp
    then have "?w = 9223372036854775808" by (rule word_unat_eq_iff [THEN iffD2])
    with True show ?thesis by simp
  next
    case False
    then have "unat ?w < 2 ^ 63" using w capv by (auto simp: min_def)
    with False show ?thesis using w by (simp add: sint_small)
  qed
  have peeks: "peek (sg @ ds @ rest) = (if sg = [] then d else hd sg)" "peek (ds @ rest) = d"
    using sg d by (auto simp: peek_def)
  have body: "parse_i64_result (sg = [45]) (ds @ rest) =
     (let v = saturate_i64 (sg = [45]) (text_val ds)
      in if v = - (2 ^ 63) then Fault else Ok (Some (v, rest)))"
    using sw capv v unfolding parse_i64_result_def Let_def cap_def [symmetric]
    by (auto simp: saturate_i64_def min_def max_def split: if_splits)
  have neg: "peek (sg @ ds @ rest) = 45 \<longleftrightarrow> sg = [45]" using sg dd by (auto simp: peeks)
  have skip: "(if peek (sg @ ds @ rest) = 43 \<or> peek (sg @ ds @ rest) = 45 then drop 1 (sg @ ds @ rest)
      else sg @ ds @ rest) = ds @ rest"
    using sg dd by (auto simp: peeks)
  show ?thesis
    unfolding rt_parse_i64_def Let_def calculation
    unfolding skip
    unfolding neg
    unfolding peeks body
    using d(2) by simp
qed

section \<open>Order, containment, lines and the last match\<close>

lemma str_contains_match: "beans_str_contains s sub \<longleftrightarrow> (\<exists>k. match_at s sub k)"
proof (cases "sub = []")
  case True
  then have "match_at s sub 0" by (simp add: match_at_def sub_range_def)
  with True show ?thesis by (auto simp: beans_str_contains_def)
next
  case False
  with str_search_result [of 0 s sub] show ?thesis
    by (auto simp: beans_str_contains_def is_search_result_def)
qed

lemma str_find_match:
  "beans_str_find s sub = Some r \<longleftrightarrow>
     (\<exists>i. r = int i \<and> match_at s sub i \<and> (\<forall>j<i. \<not> match_at s sub j))"
proof (cases "sub = []")
  case True
  then have "match_at s sub 0" by (simp add: match_at_def sub_range_def)
  then have "(\<exists>i. r = int i \<and> match_at s sub i \<and> (\<forall>j<i. \<not> match_at s sub j)) \<longleftrightarrow> r = 0"
    by (auto intro!: exI [of _ 0]) (metis gr0I)
  with True show ?thesis by (auto simp: beans_str_find_def)
next
  case False
  from str_search_result [of 0 s sub]
  consider "str_search s sub 0 = -1" "\<forall>i. \<not> match_at s sub i"
    | i where "str_search s sub 0 = int i" "match_at s sub i" "\<forall>j<i. \<not> match_at s sub j"
    by (auto simp: is_search_result_def)
  then show ?thesis
  proof cases
    case 1
    with False show ?thesis by (simp add: beans_str_find_def)
  next
    case (2 i)
    then have "match_at s sub k \<Longrightarrow> \<forall>j<k. \<not> match_at s sub j \<Longrightarrow> k = i" for k
      by (metis linorder_neqE_nat)
    then have "(\<exists>k. r = int k \<and> match_at s sub k \<and> (\<forall>j<k. \<not> match_at s sub j)) \<longleftrightarrow> r = int i"
      using 2 by blast
    with 2 False show ?thesis by (simp add: beans_str_find_def) metis
  qed
qed

lemma memcmp_match:
  "i + length sub \<le> length s \<Longrightarrow> memcmp (sub_range s i (i + length sub)) sub = 0 \<longleftrightarrow> match_at s sub i"
  by (subst memcmp_eq_0) (auto simp: match_at_def)

lemma rfind_loop_match:
  "i + length sub \<le> length s \<Longrightarrow>
   rfind_loop s sub i = Some r \<longleftrightarrow>
     (\<exists>k\<le>i. r = int k \<and> match_at s sub k \<and> (\<forall>j. k < j \<and> j \<le> i \<longrightarrow> \<not> match_at s sub j))"
proof (induction i)
  case 0
  then show ?case
    using memcmp_match [of 0 sub s] by (auto simp: rfind_loop.simps [of s sub 0])
next
  case (Suc i)
  have m: "memcmp (sub_range s (Suc i) (Suc i + length sub)) sub = 0 \<longleftrightarrow> match_at s sub (Suc i)"
    by (rule memcmp_match) (use Suc.prems in simp)
  show ?case
  proof (cases "match_at s sub (Suc i)")
    case True
    then have "k \<le> Suc i \<Longrightarrow> \<forall>j. k < j \<and> j \<le> Suc i \<longrightarrow> \<not> match_at s sub j \<Longrightarrow> k = Suc i" for k
      by (metis le_neq_implies_less order_refl)
    with True m show ?thesis
      by (fastforce simp: rfind_loop.simps [of s sub "Suc i"])
  next
    case False
    with m Suc show ?thesis
      by (auto simp: rfind_loop.simps [of s sub "Suc i"] le_Suc_eq)
  qed
qed

lemma str_rfind_match:
  "beans_str_rfind s sub = Some r \<longleftrightarrow>
     (\<exists>i. r = int i \<and> match_at s sub i \<and> (\<forall>j>i. \<not> match_at s sub j))"
proof (cases "sub = []")
  case True
  then have "match_at s sub k \<longleftrightarrow> k \<le> length s" for k by (auto simp: match_at_def sub_range_def)
  with True show ?thesis
    by (auto simp: beans_str_rfind_def not_le)
next
  case False
  have bound: "match_at s sub k \<Longrightarrow> k \<le> length s - length sub \<and> length sub \<le> length s" for k
    by (auto simp: match_at_def)
  show ?thesis
  proof (cases "length s < length sub")
    case True
    with False bound show ?thesis by (fastforce simp: beans_str_rfind_def)
  next
    case le: False
    then have "length s - length sub + length sub \<le> length s" by simp
    from rfind_loop_match [OF this, of r] False le show ?thesis
      using bound by (auto simp: beans_str_rfind_def)
  qed
qed

lemma memcmp_lexord:
  "length a = length b \<Longrightarrow> (memcmp a b < 0 \<longleftrightarrow> ord_class.lexordp a b)"
  by (induction a b rule: memcmp.induct) (auto simp: not_less_iff_gr_or_eq)

lemma lexordp_prefix_split:
  fixes a b :: "'a::linorder list"
  assumes "n = min (length a) (length b)"
  shows "ord_class.lexordp a b \<longleftrightarrow>
     ord_class.lexordp (take n a) (take n b) \<or> (take n a = take n b \<and> length a < length b)"
  using assms
proof (induction a arbitrary: b n)
  case Nil
  then show ?case by (cases b) auto
next
  case (Cons x a)
  show ?case
  proof (cases b)
    case Nil
    with Cons.prems show ?thesis by simp
  next
    case (Cons y b')
    with Cons.prems Cons.IH [of "min (length a) (length b')" b'] show ?thesis
      by (auto simp: min_def)
  qed
qed

lemma str_cmp_sign:
  "beans_str_cmp a b < 0 \<longleftrightarrow> ord_class.lexordp a b" (is ?lt)
  "beans_str_cmp a b = 0 \<longleftrightarrow> a = b" (is ?eq)
  "beans_str_cmp b a = - beans_str_cmp a b" (is ?swap)
proof -
  define n where "n = min (length a) (length b)"
  let ?c = "memcmp (take n a) (take n b)"
  have len: "length (take n a) = length (take n b)" by (simp add: n_def)
  have c: "?c \<in> {-1, 0, 1}" by (rule memcmp_range)
  have cmp: "beans_str_cmp a b =
      (if ?c \<noteq> 0 then ?c else if length a < length b then -1 else if length a > length b then 1 else 0)"
    by (auto simp: beans_str_cmp_def n_def min_def Let_def)
  have cmp': "beans_str_cmp b a =
      (if ?c \<noteq> 0 then - ?c else if length b < length a then -1 else if length b > length a then 1 else 0)"
    using memcmp_swap [OF len] by (auto simp: beans_str_cmp_def n_def min_def Let_def)
  show ?lt
    unfolding lexordp_prefix_split [OF n_def] cmp
    using memcmp_lexord [OF len] memcmp_eq_0 [OF len] c by auto
  show ?eq
    unfolding cmp using memcmp_eq_0 [OF len] c by (auto simp: n_def)
  show ?swap unfolding cmp cmp' by auto
qed

lemma is_search_result_unique:
  assumes "is_search_result s sub i r" "is_search_result s sub i r'"
  shows "r = r'"
proof -
  have "k = k'" if "i \<le> k" "match_at s sub k" "\<forall>j. i \<le> j \<and> j < k \<longrightarrow> \<not> match_at s sub j"
    "i \<le> k'" "match_at s sub k'" "\<forall>j. i \<le> j \<and> j < k' \<longrightarrow> \<not> match_at s sub j" for k k'
    using that by (metis linorder_neqE_nat)
  with assms show ?thesis unfolding is_search_result_def by blast
qed

lemma lines_from_split:
  "i \<le> j \<Longrightarrow> j \<le> length s \<Longrightarrow> (\<forall>k. i \<le> k \<and> k < j \<longrightarrow> s ! k \<noteq> 10) \<Longrightarrow>
   lines_from s i j =
     (let ps = split_from s [10] i in if last ps = [] then butlast ps else ps)"
proof (induction s i j rule: lines_from.induct)
  case (1 s i j)
  have m: "match_at s [10] k \<longleftrightarrow> k < length s \<and> s ! k = 10" for k
    by (auto simp: match_at_Cons sub_range_def)
  show ?case
  proof (cases "j < length s")
    case True
    show ?thesis
    proof (cases "s ! j = 10")
      case nl: True
      from True nl "1.prems" have "is_search_result s [10] i (int j) "
        unfolding is_search_result_def m by auto
      moreover have "is_search_result s [10] i (str_search s [10] (int i))"
        using "1.prems" by (intro str_search_result) simp
      ultimately have search: "str_search s [10] (int i) = int j"
        by (rule is_search_result_unique [symmetric])
      have vac: "\<forall>k. j + 1 \<le> k \<and> k < j + 1 \<longrightarrow> s ! k \<noteq> 10" using not_less by blast
      from split_from_hit [OF search] have
        "split_from s [10] i = sub_range s i j # split_from s [10] (j + 1)" by simp
      then show ?thesis
        using 1(1) [OF True nl order_refl _ vac] True nl
        by (auto simp: lines_from.simps [of s i j] Let_def)
    next
      case False
      then have "\<forall>k. i \<le> k \<and> k < j + 1 \<longrightarrow> s ! k \<noteq> 10"
        using "1.prems"(3) by (metis Suc_eq_plus1 less_Suc_eq)
      with 1(2) [OF True False] True False "1.prems"(1) show ?thesis
        by (simp add: lines_from.simps [of s i j])
    qed
  next
    case False
    then have none: "\<forall>k\<ge>i. \<not> match_at s [10] k" using "1.prems" unfolding m by auto
    have "is_search_result s [10] i (str_search s [10] (int i))"
      using "1.prems" by (intro str_search_result) simp
    with none have "str_search s [10] (int i) < 0" by (auto simp: is_search_result_def)
    then have "split_from s [10] i = [sub_range s i (length s)]" by (rule split_from_none)
    moreover have "lines_from s i j = (if i < length s then [sub_range s i (length s)] else [])"
      using False by (subst lines_from.simps) simp
    ultimately show ?thesis
      using "1.prems" by (auto simp: sub_range_def)
  qed
qed

section \<open>Properties\<close>

text \<open>
  C17. Substring search: from any start inside the string, \<^verbatim>\<open>str_search\<close> answers the leftmost
  occurrence at or after the start, and -1 exactly when there is none.
\<close>

theorem search_finds_leftmost:
  assumes "from \<le> length s"
  shows "(str_search s sub (int from) = -1 \<and> (\<forall>i\<ge>from. \<not> match_at s sub i)) \<or>
    (\<exists>i\<ge>from. str_search s sub (int from) = int i \<and> match_at s sub i \<and>
       (\<forall>j. from \<le> j \<and> j < i \<longrightarrow> \<not> match_at s sub j))"
  using str_search_result [OF assms, of sub] by (simp add: is_search_result_def)

theorem search_finds_leftmost_witness:
  "(1 :: nat) \<le> length (asc ''abab'') \<and>
   (\<exists>i\<ge>1. str_search (asc ''abab'') (asc ''ab'') (int 1) = int i \<and> match_at (asc ''abab'') (asc ''ab'') i)"
proof -
  have le: "(1 :: nat) \<le> length (asc ''abab'')" by simp
  have "match_at (asc ''abab'') (asc ''ab'') 2" by code_simp
  with search_finds_leftmost [OF le, of "asc ''ab''"] le show ?thesis by fastforce
qed





text \<open>
  C22. Interpolation: the measuring pass and the writing pass of \<^verbatim>\<open>beans_interpolate\<close> agree on
  every piece, so the writes fill the allocation exactly and the result is the concatenation of
  the pieces' texts.
\<close>

theorem interpolate_exact:
  assumes "\<forall>a \<in> set args. interp_ok a"
  shows "beans_interpolate args = Ok (concat (map interp_text args))"
proof -
  let ?t = "concat (map interp_text args)"
  have "interp_write_all (replicate (length ?t + 1) 0) 0 args = Ok (?t @ [0], length ?t)"
    using interp_write_all_ok [OF assms, of "length ?t + 1" "[]" 0] by simp
  then show ?thesis
    using interp_total [OF assms] by (simp add: beans_interpolate_def str_alloc_def Let_def)
qed

theorem interpolate_exact_witness:
  "interp_ok (IStr (asc ''n='')) \<and> interp_ok (IInt (-42)) \<and> interp_ok (IBool True) \<and>
   beans_interpolate [IStr (asc ''n=''), IInt (-42), IBool True] = Ok (asc ''n=-42true'')"
proof -
  have ok: "\<forall>a \<in> set [IStr (asc ''n=''), IInt (-42), IBool True]. interp_ok a"
    by (simp add: i64_ok_def)
  have "concat (map interp_text [IStr (asc ''n=''), IInt (-42), IBool True]) = asc ''n=-42true''"
    by code_simp
  with ok interpolate_exact [OF ok] show ?thesis by simp
qed

text \<open>
  C23. Integers survive printing and reading: \<^verbatim>\<open>beans_str_to_int\<close> reads what
  \<^verbatim>\<open>beans_from_int\<close> prints back to the same value, for every signed 64-bit value but the
  most negative one, whose negation inside the reader is a signed overflow.
\<close>

theorem int_text_roundtrip:
  assumes "i64_ok v"
  shows "beans_str_to_int (beans_from_int v) = (if v = - (2 ^ 63) then Fault else Ok (Inr v))"
proof -
  let ?sg = "if v < 0 then [45] else []" and ?ds = "nat_text (nat \<bar>v\<bar>)"
  have printed: "beans_from_int v = [] @ ?sg @ ?ds @ []"
    using from_int_text [OF assms] by (auto simp: int_text_def)
  have "rt_parse_i64 (beans_from_int v) = (if v = - (2 ^ 63) then Fault else Ok (Some (v, [])))"
    unfolding printed
    using parse_i64_digits [of ?ds "[]" "[]" ?sg] assms
    by (auto simp: nat_text_list_all text_val_nat_text saturate_i64_def i64_ok_def)
  moreover have "beans_from_int v \<noteq> []" unfolding printed by simp
  ultimately show ?thesis by (simp add: beans_str_to_int_def peek_def)
qed

theorem int_text_roundtrip_witness:
  "i64_ok (-907) \<and> beans_str_to_int (beans_from_int (-907)) = Ok (Inr (-907))"
proof -
  have ok: "i64_ok (-907)" by (simp add: i64_ok_def)
  with int_text_roundtrip [OF ok] show ?thesis by simp
qed

text \<open>
  The reader is not length-based: a string whose digits are followed by a NUL byte is accepted
  whatever stands behind the NUL, although a string may hold NUL bytes.
\<close>

theorem to_int_ignores_after_nul:
  assumes "list_all is_digit ds" "ds \<noteq> []" "text_val ds < 2 ^ 63"
  shows "beans_str_to_int (ds @ 0 # rest) = Ok (Inr (int (text_val ds)))"
proof -
  have "int (text_val ds) < 2 ^ 63" using assms(3) by simp
  then have "rt_parse_i64 ([] @ [] @ ds @ (0 # rest)) = Ok (Some (int (text_val ds), 0 # rest))"
    using parse_i64_digits [of ds "0 # rest" "[]" "[]"] assms
    by (simp add: saturate_i64_def is_digit_def Let_def min_def)
  with assms(2) show ?thesis by (simp add: beans_str_to_int_def peek_def)
qed

theorem to_int_ignores_after_nul_witness:
  "list_all is_digit (asc ''12'') \<and> beans_str_to_int (asc ''12'' @ 0 # asc ''zz'') = Ok (Inr 12)"
proof -
  have d: "list_all is_digit (asc ''12'')" "asc ''12'' \<noteq> []" by code_simp+
  have v: "text_val (asc ''12'') = 12" by code_simp
  then have lt: "text_val (asc ''12'') < 2 ^ 63" by simp
  from d v to_int_ignores_after_nul [OF d lt, of "asc ''zz''"] show ?thesis by simp
qed

text \<open>
  Repetition: the buffer \<^verbatim>\<open>beans_str_repeat\<close> allocates is filled exactly whenever the
  product of length and count fits a signed 64-bit integer; otherwise the unchecked product
  overflows.
\<close>

theorem repeat_exact_or_overflow:
  assumes "0 \<le> n"
  shows "beans_str_repeat s n line col =
    (if i64_ok (int (length s) * n + 1) then Ok (concat (replicate (nat n) s)) else Fault)"
  using str_repeat_value [OF assms] assms by (simp add: beans_str_repeat_def)

theorem repeat_exact_or_overflow_witness:
  "0 \<le> (2 ^ 62 :: int) \<and> beans_str_repeat (asc ''ab'') (2 ^ 62) 1 1 = Fault"
proof -
  have n: "0 \<le> (2 ^ 62 :: int)" by simp
  have "\<not> i64_ok (int (length (asc ''ab'')) * 2 ^ 62 + 1)" by (simp add: i64_ok_def)
  with n repeat_exact_or_overflow [OF n, of "asc ''ab''" 1 1] show ?thesis by simp
qed

text \<open>
  String comparison is the lexicographic order on unsigned bytes with the shorter prefix
  first, zero exactly on equal strings, and antisymmetric.
\<close>

theorem str_cmp_is_lexicographic:
  "(beans_str_cmp a b < 0 \<longleftrightarrow> ord_class.lexordp a b) \<and>
   (beans_str_cmp a b = 0 \<longleftrightarrow> a = b) \<and> beans_str_cmp b a = - beans_str_cmp a b"
  using str_cmp_sign [of a b] by simp

end
