(* ===== verification/Rt_Slots.thy ===== *)
theory Rt_Slots
  imports Rt_Strings
begin

text \<open>
  The eight-byte slot every collection of the runtime stores: its order (\<^verbatim>\<open>slot_cmp\<close>), its
  equality (\<^verbatim>\<open>slot_eq\<close>) and its hash (\<^verbatim>\<open>slot_hash\<close>), one per kind code, and the pointer
  masks that say which words of a wide element are owned references.

  What a slot points at is read through an environment: the bytes of a string object, the tag word
  of an enum value, the decimal comparison and hash, and the callbacks generated by the compiler.
  The laws the containers rely on are the locale \<open>key_ops\<close>; it is interpreted here for the raw,
  float and string kinds.
\<close>

unbundle bit_operations_syntax

section \<open>Reading what a slot points at\<close>

record slot_env =
  str_at :: "slot \<Rightarrow> bstr"
  tag_at :: "slot \<Rightarrow> int"
  dec_cmp_at :: "slot \<Rightarrow> slot \<Rightarrow> int"
  dec_hash_at :: "slot \<Rightarrow> u64"
  user_eq :: "slot \<Rightarrow> slot \<Rightarrow> bool"
  user_hash :: "slot \<Rightarrow> u64"

section \<open>Order\<close>

definition rt_f64_total_key :: "slot \<Rightarrow> int" where
  "rt_f64_total_key raw =
     (let flip = 0 - drop_bit 63 raw in sint (raw XOR (flip AND 0x7fffffffffffffff)))"

definition rt_f32_total_key :: "u32 \<Rightarrow> int" where
  "rt_f32_total_key bits =
     (let flip = 0 - drop_bit 31 bits in sint (bits XOR (flip AND 0x7fffffff)))"

definition three_way :: "'a::linorder \<Rightarrow> 'a \<Rightarrow> int" where
  "three_way x y = (if x < y then -1 else if x > y then 1 else 0)"

definition slot_cmp :: "slot_env \<Rightarrow> slot \<Rightarrow> slot \<Rightarrow> int \<Rightarrow> int rt" where
  "slot_cmp env a b kind =
     (if kind = 0 then Ok (three_way (sint a) (sint b))
      else if kind = 1 then Ok (three_way (rt_f64_total_key a) (rt_f64_total_key b))
      else if kind = 2 then Ok (beans_str_cmp (str_at env a) (str_at env b))
      else if kind = 3 then Ok (dec_cmp_at env a b)
      else if kind = 4 then Ok 0
      else if kind = 5 then Ok (three_way a b)
      else if kind = 6 then Ok (three_way (rt_f32_total_key (ucast a)) (rt_f32_total_key (ucast b)))
      else if kind = 7 then Ok (three_way (tag_at env a) (tag_at env b))
      else Panic (asc ''order kind unknown to this runtime: the compiler and runtime are out of step'') 0 0)"

section \<open>Equality and hash\<close>

definition slot_eq :: "slot_env \<Rightarrow> slot \<Rightarrow> slot \<Rightarrow> int \<Rightarrow> bool" where
  "slot_eq env a b kind =
     (if kind = 0 then a = b
      else if kind = 1 then a = b
      else if kind = 2 then beans_str_eq (str_at env a) (str_at env b)
      else if kind = 3 then dec_cmp_at env a b = 0
      else if kind = 4 then user_eq env a b
      else if kind = 6 then (ucast a :: u32) = ucast b
      else False)"

definition beans_mix64 :: "u64 \<Rightarrow> u64" where
  "beans_mix64 x =
     (let x = x XOR drop_bit 32 x; x = x * 0xd6e8feb86659fd93 in x XOR drop_bit 32 x)"

definition beans_f64_hash :: "slot \<Rightarrow> u64" where
  "beans_f64_hash v = beans_mix64 v"

definition beans_f32_hash :: "slot \<Rightarrow> u64" where
  "beans_f32_hash v = beans_mix64 (ucast (ucast v :: u32))"

text \<open>FNV-1a over the bytes, then the mixer; \<^verbatim>\<open>beans_bytes_hash\<close> is the same loop.\<close>

fun fnv_loop :: "u64 \<Rightarrow> bstr \<Rightarrow> u64" where
  "fnv_loop h [] = h"
| "fnv_loop h (c # cs) = fnv_loop ((h XOR ucast c) * 1099511628211) cs"

definition beans_str_hash :: "bstr \<Rightarrow> u64" where
  "beans_str_hash s = beans_mix64 (fnv_loop 1469598103934665603 s)"

definition beans_bytes_hash :: "bstr \<Rightarrow> u64" where
  "beans_bytes_hash b = beans_mix64 (fnv_loop 1469598103934665603 b)"

definition slot_hash :: "slot_env \<Rightarrow> slot \<Rightarrow> int \<Rightarrow> u64" where
  "slot_hash env v kind =
     (if kind = 1 then beans_f64_hash v
      else if kind = 2 then beans_str_hash (str_at env v)
      else if kind = 3 then dec_hash_at env v
      else if kind = 4 then user_hash env v
      else if kind = 6 then beans_f32_hash v
      else beans_mix64 v)"

section \<open>Pointer masks\<close>

text \<open>
  The calls a collection operation makes on the memory manager, in order: reference counts, the
  write barrier, and the note that the container may be the root of a cycle.
\<close>

datatype effect = Retain slot | Release slot | CcWrite slot | PossibleRoot

abbreviation RT_MASK_SLOTS :: nat where
  "RT_MASK_SLOTS \<equiv> 58"

text \<open>A wide element is its words; a generic slot (\<^verbatim>\<open>i64_encoded\<close>) is one word.\<close>

definition rt_masked_child :: "slot list \<Rightarrow> nat \<Rightarrow> bool \<Rightarrow> slot" where
  "rt_masked_child value' k i64_encoded = (if i64_encoded then value' ! 0 else value' ! k)"

definition masked_children :: "slot list \<Rightarrow> u64 \<Rightarrow> bool \<Rightarrow> slot list" where
  "masked_children value' pmask i64_encoded =
     filter (\<lambda>c. c \<noteq> 0) (map (\<lambda>k. rt_masked_child value' k i64_encoded)
       (filter (bit pmask) [0..<RT_MASK_SLOTS]))"

function mask_top_loop :: "u64 \<Rightarrow> nat \<Rightarrow> nat" where
  "mask_top_loop m t = (if m \<noteq> 0 then mask_top_loop (drop_bit 1 m) (t + 1) else t)"
  by pat_completeness auto

lemma drop_bit_1_less: "(m :: u64) \<noteq> 0 \<Longrightarrow> unat (drop_bit (Suc 0) m) < unat m"
  by (simp add: drop_bit_Suc unat_div flip: unat_gt_0)

termination mask_top_loop
  by (relation "measure (\<lambda>(m, t). unat m)") (auto simp: drop_bit_1_less)

declare mask_top_loop.simps [simp del]

definition rt_mask_top :: "u64 \<Rightarrow> nat" where
  "rt_mask_top ptr_mask =
     (let t = mask_top_loop ptr_mask 0 in if t > RT_MASK_SLOTS then RT_MASK_SLOTS else t)"

text \<open>\<^verbatim>\<open>release_masked_slots\<close>: from one past the highest set slot down to slot 0.\<close>

fun masked_release_from :: "slot list \<Rightarrow> u64 \<Rightarrow> bool \<Rightarrow> nat \<Rightarrow> effect list" where
  "masked_release_from value' pmask i64_encoded 0 = []"
| "masked_release_from value' pmask i64_encoded (Suc k) =
     (if bit pmask k \<and> rt_masked_child value' k i64_encoded \<noteq> 0
      then [Release (rt_masked_child value' k i64_encoded)] else []) @
     masked_release_from value' pmask i64_encoded k"

definition release_masked_slots :: "slot list \<Rightarrow> u64 \<Rightarrow> bool \<Rightarrow> effect list" where
  "release_masked_slots value' pmask i64_encoded =
     masked_release_from value' pmask i64_encoded (rt_mask_top pmask)"

section \<open>The float key is totalOrder\<close>

lemma sint_not: "sint (NOT (w :: 'a::len word)) = - sint w - 1"
proof -
  have "sint (NOT w) = NOT (sint w)"
    by (rule bit_eqI) (auto simp: bit_simps bit_sint_iff not_le min_less_iff_disj)
  then show ?thesis by (simp add: not_eq_complement)
qed

lemma xor_magnitude:
  assumes "bit (raw :: u64) 63"
  shows "raw XOR 0x7fffffffffffffff = NOT (take_bit 63 raw)"
proof -
  have "(0x7fffffffffffffff :: u64) = mask 63" by (simp add: mask_eq_exp_minus_1)
  then show ?thesis using assms
    by (auto intro!: bit_word_eqI simp: bit_simps not_less less_Suc_eq numeral_eq_Suc)
qed

lemma flip_bits: "(0 - drop_bit 63 (raw :: u64)) AND 0x7fffffffffffffff =
   (if bit raw 63 then 0x7fffffffffffffff else 0)"
proof -
  have "unat (drop_bit 63 raw) < 2"
    using unat_u64_bound [of raw] by (simp add: unsigned_drop_bit_eq drop_bit_eq_div unat_div)
  then have "drop_bit 63 raw = 0 \<or> drop_bit 63 raw = 1"
    by (metis less_2_cases unat_0 unat_1 word_unat_eq_iff One_nat_def)
  moreover have "bit raw 63 \<longleftrightarrow> bit (drop_bit 63 raw) 0" by (simp add: bit_simps)
  ultimately show ?thesis by auto
qed

text \<open>The sixty-three bits under the sign.\<close>

definition f64_bits :: "slot \<Rightarrow> nat" where
  "f64_bits raw = unat (take_bit 63 raw)"

lemma f64_bits_bound: "f64_bits raw < 2 ^ 63"
  using take_bit_nat_less_exp [of 63 "unat raw"] by (simp only: f64_bits_def unsigned_take_bit_eq)

lemma sint_take_63: "sint (take_bit 63 raw :: u64) = int (f64_bits raw)"
  using sint_small [OF f64_bits_bound [unfolded f64_bits_def]] by (simp only: f64_bits_def)

lemma total_key_rank:
  "rt_f64_total_key raw = (if bit raw 63 then - int (f64_bits raw) - 1 else int (f64_bits raw))"
proof (cases "bit raw 63")
  case True
  then show ?thesis
    by (simp add: rt_f64_total_key_def Let_def flip_bits [unfolded diff_0] xor_magnitude sint_not
      sint_take_63)
next
  case False
  then have "take_bit 63 raw = raw"
    by (auto intro!: bit_word_eqI simp: bit_simps less_Suc_eq numeral_eq_Suc)
  with False show ?thesis
    using sint_take_63 [of raw]
    by (simp add: rt_f64_total_key_def Let_def flip_bits [unfolded diff_0])
qed

lemma total_key_inj: "rt_f64_total_key a = rt_f64_total_key b \<longleftrightarrow> a = b"
proof
  assume "rt_f64_total_key a = rt_f64_total_key b"
  then have s: "bit a 63 = bit b 63" and "f64_bits a = f64_bits b"
    by (auto simp: total_key_rank split: if_splits)
  then have t: "take_bit 63 a = take_bit 63 b"
    by (simp only: f64_bits_def) (rule unsigned_word_eqI)
  show "a = b"
  proof (rule bit_word_eqI)
    fix n assume "n < LENGTH(64)"
    then have "n < 63 \<or> n = 63" by auto
    then show "bit a n = bit b n"
      using s arg_cong [OF t, of "\<lambda>w. bit w n"] by (auto simp: bit_simps)
  qed
qed simp

text \<open>
  The value of a finite float in units of the smallest subnormal, from its IEEE 754 fields: a
  52-bit fraction, an 11-bit exponent and a sign.
\<close>

definition f64_exponent :: "slot \<Rightarrow> nat" where
  "f64_exponent raw = f64_bits raw div 2 ^ 52"

definition f64_magnitude :: "nat \<Rightarrow> nat" where
  "f64_magnitude m =
     (let e = m div 2 ^ 52; f = m mod 2 ^ 52 in if e = 0 then f else (2 ^ 52 + f) * 2 ^ (e - 1))"

definition f64_units :: "slot \<Rightarrow> int" where
  "f64_units raw = (if bit raw 63 then - int (f64_magnitude (f64_bits raw))
                    else int (f64_magnitude (f64_bits raw)))"

lemma f64_magnitude_Suc: "f64_magnitude m < f64_magnitude (Suc m)"
proof (cases "Suc (m mod 2 ^ 52) = 2 ^ 52")
  case True
  then have e: "Suc m div 2 ^ 52 = Suc (m div 2 ^ 52)" and f: "Suc m mod 2 ^ 52 = 0"
    by (simp_all add: div_Suc mod_Suc)
  from True have f': "m mod 2 ^ 52 = 2 ^ 52 - 1" by linarith
  show ?thesis
  proof (cases "m div 2 ^ 52")
    case 0
    then show ?thesis unfolding f64_magnitude_def Let_def e f f' by simp
  next
    case (Suc k)
    then show ?thesis unfolding f64_magnitude_def Let_def e f f' by simp
  qed
next
  case False
  then have e: "Suc m div 2 ^ 52 = m div 2 ^ 52" and f: "Suc m mod 2 ^ 52 = Suc (m mod 2 ^ 52)"
    by (simp_all add: div_Suc mod_Suc)
  show ?thesis unfolding f64_magnitude_def Let_def e f by simp
qed

lemma f64_magnitude_less: "m < n \<Longrightarrow> f64_magnitude m < f64_magnitude n"
  by (rule lift_Suc_mono_less [where f = f64_magnitude]) (simp_all add: f64_magnitude_Suc)

lemma f64_magnitude_le_iff: "f64_magnitude m < f64_magnitude n \<longleftrightarrow> m < n"
  using f64_magnitude_less [of m n] f64_magnitude_less [of n m] by (cases m n rule: linorder_cases) auto

lemma total_key_value: "f64_units a < f64_units b \<Longrightarrow> rt_f64_total_key a < rt_f64_total_key b"
  by (auto simp: f64_units_def total_key_rank f64_magnitude_le_iff split: if_splits)

section \<open>The mixer\<close>

lemma fold_shift: "(x XOR drop_bit 32 x) XOR drop_bit 32 (x XOR drop_bit 32 x) = (x :: u64)"
  by (auto intro!: bit_word_eqI simp: bit_simps)

lemma beans_mix64_inverse:
  "(let y = beans_mix64 x; z = (y XOR drop_bit 32 y) * 0xcfee444d8b59a89b in
    z XOR drop_bit 32 z) = x"
proof -
  have "(w * 0xd6e8feb86659fd93) * 0xcfee444d8b59a89b = w" for w :: u64
  proof -
    have "(0xd6e8feb86659fd93 * 0xcfee444d8b59a89b :: u64) = 1"
      by (simp add: word_unat_eq_iff unat_word_ariths)
    then show ?thesis by (simp only: mult.assoc mult_1_right)
  qed
  then show ?thesis by (simp only: beans_mix64_def Let_def fold_shift)
qed

lemma beans_mix64_inj: "beans_mix64 x = beans_mix64 y \<longleftrightarrow> x = y"
  using beans_mix64_inverse [of x] beans_mix64_inverse [of y] by metis

section \<open>Key laws\<close>

text \<open>What a hash container asks of its key equality and hash.\<close>

locale key_ops =
  fixes keq :: "'k \<Rightarrow> 'k \<Rightarrow> bool"
    and khash :: "'k \<Rightarrow> u64"
  assumes keq_refl: "keq k k"
    and keq_sym: "keq k k' \<Longrightarrow> keq k' k"
    and keq_trans: "keq k k' \<Longrightarrow> keq k' k'' \<Longrightarrow> keq k k''"
    and keq_hash: "keq k k' \<Longrightarrow> khash k = khash k'"
begin

lemma keq_commute: "keq k k' \<longleftrightarrow> keq k' k"
  using keq_sym by blast

lemma keq_cong: "keq k k' \<Longrightarrow> keq k x \<longleftrightarrow> keq k' x"
  using keq_sym keq_trans by blast

lemma hash_separates: "khash k \<noteq> khash k' \<Longrightarrow> \<not> keq k k'"
  using keq_hash by blast

end

text \<open>The keys of one map: the kind code selects the equality and the hash.\<close>

locale slot_keys = key_ops "\<lambda>a b. slot_eq env a b kind" "\<lambda>v. slot_hash env v kind"
  for env :: slot_env and kind :: int

lemma beans_str_eq_iff: "beans_str_eq a b \<longleftrightarrow> a = b"
  by (auto simp: beans_str_eq_def memcmp_eq_0)

lemma key_ops_builtin:
  assumes "kind \<in> {0, 1, 2, 6}"
  shows "key_ops (\<lambda>a b. slot_eq env a b kind) (\<lambda>v. slot_hash env v kind)"
  using assms
  by unfold_locales (auto simp: slot_eq_def slot_hash_def beans_str_eq_iff beans_f32_hash_def)

interpretation raw_keys: slot_keys env 0 for env
  by (simp add: slot_keys_def key_ops_builtin)

interpretation f64_keys: slot_keys env 1 for env
  by (simp add: slot_keys_def key_ops_builtin)

interpretation str_keys: slot_keys env 2 for env
  by (simp add: slot_keys_def key_ops_builtin)

interpretation f32_keys: slot_keys env 6 for env
  by (simp add: slot_keys_def key_ops_builtin)

section \<open>Masked walks\<close>

lemma mask_top_loop_bit: "bit m k \<Longrightarrow> k + t < mask_top_loop m t"
proof (induction m t arbitrary: k rule: mask_top_loop.induct)
  case (1 m t)
  then have "m \<noteq> 0" by auto
  show ?case
  proof (cases k)
    case 0
    have le: "t' \<le> mask_top_loop m' t'" for m' t'
      by (induction m' t' rule: mask_top_loop.induct) (subst mask_top_loop.simps, auto)
    show ?thesis
      using le [of "t + 1" "drop_bit 1 m"] 0 \<open>m \<noteq> 0\<close> by (subst mask_top_loop.simps) simp
  next
    case (Suc j)
    with "1.prems" have "bit (drop_bit 1 m) j" by (simp add: bit_simps)
    from "1.IH" [OF \<open>m \<noteq> 0\<close> this] Suc \<open>m \<noteq> 0\<close> show ?thesis
      by (subst mask_top_loop.simps) simp
  qed
qed

lemma rt_mask_top_bit: "bit m k \<Longrightarrow> k < RT_MASK_SLOTS \<Longrightarrow> k < rt_mask_top m"
  using mask_top_loop_bit [of m k 0] by (simp add: rt_mask_top_def Let_def)

lemma rt_mask_top_le: "rt_mask_top m \<le> RT_MASK_SLOTS"
  by (simp add: rt_mask_top_def Let_def)

lemma masked_release_from_children:
  "masked_release_from v m e n =
     map Release (rev (filter (\<lambda>c. c \<noteq> 0) (map (\<lambda>k. rt_masked_child v k e) (filter (bit m) [0..<n]))))"
  by (induction n) auto

lemma release_masked_slots_children:
  "release_masked_slots v m e = map Release (rev (masked_children v m e))"
proof -
  have "[0..<RT_MASK_SLOTS] = [0..<rt_mask_top m] @ [rt_mask_top m..<RT_MASK_SLOTS]"
    using upt_add_eq_append [of 0 "rt_mask_top m" "RT_MASK_SLOTS - rt_mask_top m"] rt_mask_top_le [of m]
    by simp
  moreover have "filter (bit m) [rt_mask_top m..<RT_MASK_SLOTS] = []"
    using rt_mask_top_bit [of m] by (fastforce simp: filter_empty_conv)
  ultimately show ?thesis
    unfolding release_masked_slots_def masked_release_from_children masked_children_def by simp
qed

lemma ucast_32_64_inj: "(ucast (x :: u32) :: u64) = ucast y \<longleftrightarrow> x = y"
proof
  assume "(ucast x :: u64) = ucast y"
  then have "unat (ucast x :: u64) = unat (ucast y :: u64)" by simp
  then show "x = y"
    by (simp add: unsigned_ucast_eq take_bit_nat_eq_self less_le_trans [OF unsigned_less]
        word_unat_eq_iff)
qed simp

text \<open>An environment in which no slot points at anything, for concrete runs on plain slots.\<close>

definition plain_env :: slot_env where
  "plain_env = \<lparr>str_at = \<lambda>_. [], tag_at = \<lambda>_. 0, dec_cmp_at = \<lambda>_ _. 0, dec_hash_at = \<lambda>_. 0,
     user_eq = \<lambda>_ _. False, user_hash = \<lambda>_. 0\<rparr>"

section \<open>Properties\<close>



text \<open>C25. Keys of the raw, float and string kinds obey the contract of the map index: their
  equality is an equivalence and equal keys hash equal; on the kinds compared by bits the hash
  never collides.\<close>

theorem builtin_keys_lawful:
  assumes "kind \<in> {0, 1, 2, 6}"
  shows "slot_eq env a a kind \<and> (slot_eq env a b kind \<longleftrightarrow> slot_eq env b a kind) \<and>
    (slot_eq env a b kind \<and> slot_eq env b c kind \<longrightarrow> slot_eq env a c kind) \<and>
    (slot_eq env a b kind \<longrightarrow> slot_hash env a kind = slot_hash env b kind) \<and>
    (kind \<noteq> 2 \<longrightarrow> (slot_hash env a kind = slot_hash env b kind \<longleftrightarrow> slot_eq env a b kind))"
proof -
  have inj: "kind \<noteq> 2 \<longrightarrow> (slot_hash env a kind = slot_hash env b kind \<longleftrightarrow> slot_eq env a b kind)"
    using assms
    by (auto simp: slot_hash_def slot_eq_def beans_f64_hash_def beans_f32_hash_def beans_mix64_inj
      ucast_32_64_inj)
  note k = key_ops_builtin [OF assms, of env]
  show ?thesis
    using inj key_ops.keq_refl [OF k] key_ops.keq_commute [OF k, of a b] key_ops.keq_trans [OF k, of a b c]
      key_ops.keq_hash [OF k, of a b] by blast
qed

theorem builtin_keys_lawful_witness:
  "slot_eq plain_env 5 5 0 \<and> slot_hash plain_env 5 0 \<noteq> slot_hash plain_env 6 0"
  using builtin_keys_lawful [of 0 plain_env 5 6 7] by (simp add: slot_eq_def)

text \<open>Releasing a wide element visits exactly the children its pointer mask names, non-null
  ones only, in the reverse of the order in which they are retained, although it starts from the
  highest set bit instead of from the fixed slot count.\<close>

theorem masked_release_mirrors_retain:
  "release_masked_slots v pmask e = map Release (rev (masked_children v pmask e))"
  by (rule release_masked_slots_children)

end
