(* ===== verification/Rt_Lists.thy ===== *)
theory Rt_Lists
  imports Rt_Slots
begin

text \<open>
  The growable list of the runtime (\<^verbatim>\<open>BList\<close>): header, backing buffer, growth, and every
  operation that reads or changes it. A backing is the cells that were really allocated, so an
  access past it is \<open>Fault\<close> and the capacity the header claims is a separate field: that the two
  agree is an invariant, not a definition. The byte counts handed to the allocator are the 64-bit
  products the code computes.

  The allocator is a parameter \<open>alloc\<close>: which byte counts it grants. A list operation returns the
  list together with the calls it makes on the elements it owns (retain, release, write barrier),
  in order.
\<close>

unbundle bit_operations_syntax

section \<open>State\<close>

text \<open>An element is its machine words; the generic representation has one word per element.\<close>

type_synonym elem = "slot list"

record blist =
  l_buf :: "elem list"
  l_inline :: bool
  l_len :: nat
  l_cap :: nat
  l_stride :: int
  l_mask :: u64
  l_count :: u32
  l_kind :: nat

abbreviation (input) LIST_CHANGE_PUSH :: nat where "LIST_CHANGE_PUSH \<equiv> 1"
abbreviation (input) LIST_CHANGE_POP :: nat where "LIST_CHANGE_POP \<equiv> 2"
abbreviation (input) LIST_CHANGE_INSERT :: nat where "LIST_CHANGE_INSERT \<equiv> 3"
abbreviation (input) LIST_CHANGE_REMOVE :: nat where "LIST_CHANGE_REMOVE \<equiv> 4"
abbreviation (input) LIST_CHANGE_CLEAR :: nat where "LIST_CHANGE_CLEAR \<equiv> 5"
abbreviation (input) LIST_CHANGE_REVERSE :: nat where "LIST_CHANGE_REVERSE \<equiv> 6"
abbreviation (input) LIST_CHANGE_SORT :: nat where "LIST_CHANGE_SORT \<equiv> 7"
abbreviation (input) LIST_INLINE_MAX :: nat where "LIST_INLINE_MAX \<equiv> 128"

definition list_stride :: "blist \<Rightarrow> int" where
  "list_stride l =
     (if l_stride l < 0 then - l_stride l else if l_stride l \<noteq> 0 then l_stride l else 8)"

definition list_backing_fits :: "int \<Rightarrow> int \<Rightarrow> bool" where
  "list_backing_fits capacity stride = (capacity \<le> int LIST_INLINE_MAX div stride)"

definition list_changed :: "blist \<Rightarrow> nat \<Rightarrow> blist" where
  "list_changed l what = l\<lparr>l_count := l_count l + 1, l_kind := what\<rparr>"

definition list_retain_element :: "blist \<Rightarrow> elem \<Rightarrow> effect list" where
  "list_retain_element l e = map Retain (masked_children e (l_mask l) (l_stride l < 0))"

definition list_release_element :: "blist \<Rightarrow> elem \<Rightarrow> effect list" where
  "list_release_element l e = release_masked_slots e (l_mask l) (l_stride l < 0)"

section \<open>Cells of the backing\<close>

definition cells_of :: "u64 \<Rightarrow> int \<Rightarrow> nat" where
  "cells_of bytes stride = unat bytes div nat stride"

definition load_cell :: "blist \<Rightarrow> nat \<Rightarrow> elem rt" where
  "load_cell l i = (if i < length (l_buf l) then Ok (l_buf l ! i) else Fault)"

definition store_cell :: "blist \<Rightarrow> nat \<Rightarrow> elem \<Rightarrow> blist rt" where
  "store_cell l i e =
     (if i < length (l_buf l) then Ok (l\<lparr>l_buf := (l_buf l)[i := e]\<rparr>) else Fault)"

text \<open>\<^verbatim>\<open>memmove\<close> of \<open>n\<close> cells.\<close>

definition move_cells :: "blist \<Rightarrow> nat \<Rightarrow> nat \<Rightarrow> nat \<Rightarrow> blist rt" where
  "move_cells l dst src n =
     (if src + n \<le> length (l_buf l) \<and> dst + n \<le> length (l_buf l)
      then Ok (l\<lparr>l_buf := take dst (l_buf l) @ take n (drop src (l_buf l)) @
                           drop (dst + n) (l_buf l)\<rparr>)
      else Fault)"

section \<open>Allocation and growth\<close>

definition out_of_memory :: "int \<Rightarrow> int \<Rightarrow> 'a rt" where
  "out_of_memory line col = Panic (asc ''out of memory'') line col"

text \<open>
  \<^verbatim>\<open>list_backing_grow\<close>: an inline backing is copied into a fresh block, a heap backing is
  reallocated; the tail of the new backing is not initialised.
\<close>

definition list_backing_grow :: "(u64 \<Rightarrow> bool) \<Rightarrow> blist \<Rightarrow> int \<Rightarrow> int \<Rightarrow> int \<Rightarrow> int \<Rightarrow> blist rt" where
  "list_backing_grow alloc l new_cap stride line col =
     (let old_bytes = of_nat (l_cap l) * of_int stride;
          new_bytes = of_int new_cap * of_int stride;
          fresh = cells_of new_bytes stride in
      if \<not> alloc new_bytes then out_of_memory line col
      else if l_inline l then
        (let n = cells_of old_bytes stride in
         if n \<le> length (l_buf l) \<and> n \<le> fresh
         then Ok (l\<lparr>l_buf := take n (l_buf l) @ replicate (fresh - n) [], l_inline := False,
                    l_cap := nat new_cap\<rparr>)
         else Fault)
      else Ok (l\<lparr>l_buf := take fresh (l_buf l) @ replicate (fresh - length (l_buf l)) [],
                 l_cap := nat new_cap\<rparr>))"

definition beans_list_new_typed :: "(u64 \<Rightarrow> bool) \<Rightarrow> int \<Rightarrow> u64 \<Rightarrow> blist rt" where
  "beans_list_new_typed alloc stride pmask =
     (if stride \<le> 0 \<or> stride > 2 ^ 30 then Panic (asc ''invalid list element size'') 0 0
      else if list_backing_fits 4 stride then
        Ok \<lparr>l_buf = replicate 4 [], l_inline = True, l_len = 0, l_cap = 4, l_stride = stride,
            l_mask = pmask, l_count = 0, l_kind = 0\<rparr>
      else if \<not> alloc (4 * of_int stride) then out_of_memory 0 0
      else Ok \<lparr>l_buf = replicate (cells_of (4 * of_int stride) stride) [], l_inline = False,
               l_len = 0, l_cap = 4, l_stride = stride, l_mask = pmask, l_count = 0, l_kind = 0\<rparr>)"

definition list_new_capacity ::
    "(u64 \<Rightarrow> bool) \<Rightarrow> int \<Rightarrow> u64 \<Rightarrow> int \<Rightarrow> int \<Rightarrow> int \<Rightarrow> blist rt" where
  "list_new_capacity alloc stride pmask capacity line col =
     (let byte_stride = (if stride < 0 then - stride else stride) in
      if byte_stride \<le> 0 \<or> byte_stride > 2 ^ 30
      then Panic (asc ''invalid list element size'') line col
      else
        let cap = (if capacity > 4 then capacity else 4) in
        if list_backing_fits cap byte_stride then
          Ok \<lparr>l_buf = replicate (nat cap) [], l_inline = True, l_len = 0, l_cap = nat cap,
              l_stride = stride, l_mask = pmask, l_count = 0, l_kind = 0\<rparr>
        else
          let bytes = of_int cap * of_int byte_stride in
          if \<not> alloc bytes then out_of_memory line col
          else Ok \<lparr>l_buf = replicate (cells_of bytes byte_stride) [], l_inline = False,
                   l_len = 0, l_cap = nat cap, l_stride = stride, l_mask = pmask,
                   l_count = 0, l_kind = 0\<rparr>)"

definition beans_list_new :: "(u64 \<Rightarrow> bool) \<Rightarrow> u64 \<Rightarrow> blist rt" where
  "beans_list_new alloc elem_ptr =
     rt_bind (beans_list_new_typed alloc 8 elem_ptr) (\<lambda>l. Ok (l\<lparr>l_stride := -8\<rparr>))"

text \<open>
  The doubling loop of \<^verbatim>\<open>beans_list_reserve\<close>; a capacity of zero would double for ever.
\<close>

partial_function (option) reserve_double :: "int \<Rightarrow> int \<Rightarrow> int option" where
  "reserve_double cap capacity =
     (if cap < capacity \<and> cap \<le> 2 ^ 60 then reserve_double (cap * 2) capacity else Some cap)"

declare reserve_double.simps [code]

text \<open>A loop that never ends has no outcome of the call: it is counted as \<open>Fault\<close>.\<close>

definition beans_list_reserve ::
    "(u64 \<Rightarrow> bool) \<Rightarrow> blist \<Rightarrow> int \<Rightarrow> int \<Rightarrow> int \<Rightarrow> blist rt" where
  "beans_list_reserve alloc l capacity line col =
     (if capacity < 0
      then rt_panic 64 ''negative reserve capacity %lld'' [ArgI64 capacity] line col
      else if capacity > 2 ^ 58 then Panic (asc ''reserve capacity too large'') line col
      else if capacity \<le> int (l_cap l) then Ok l
      else case reserve_double (int (l_cap l)) capacity of
        None \<Rightarrow> Fault
      | Some cap \<Rightarrow>
          list_backing_grow alloc l (if cap < capacity then capacity else cap) (list_stride l)
            line col)"

section \<open>Operations\<close>

type_synonym 'a leff = "('a \<times> effect list) rt"

text \<open>The write barrier calls of \<^verbatim>\<open>beans_cc_write_typed\<close>: one per owned child.\<close>

definition cc_write_typed :: "elem \<Rightarrow> u64 \<Rightarrow> effect list" where
  "cc_write_typed value' pmask =
     (if pmask \<noteq> 0 then map CcWrite (masked_children value' pmask False) else [])"

definition beans_list_push :: "(u64 \<Rightarrow> bool) \<Rightarrow> blist \<Rightarrow> slot \<Rightarrow> blist leff" where
  "beans_list_push alloc l v =
     (let eff = (if l_mask l \<noteq> 0 then [CcWrite v] else []) in
      rt_bind (if l_len l = l_cap l
               then list_backing_grow alloc l (int (l_cap l) * 2) (list_stride l) 0 0 else Ok l) (\<lambda>l.
      rt_bind (store_cell l (l_len l) [v]) (\<lambda>l.
      Ok (list_changed (l\<lparr>l_len := l_len l + 1\<rparr>) LIST_CHANGE_PUSH, eff))))"

definition beans_list_push_typed :: "(u64 \<Rightarrow> bool) \<Rightarrow> blist \<Rightarrow> elem \<Rightarrow> blist leff" where
  "beans_list_push_typed alloc l value' =
     (let eff = cc_write_typed value' (l_mask l); stride = list_stride l in
      rt_bind (if l_len l = l_cap l
               then list_backing_grow alloc l (int (l_cap l) * 2) stride 0 0 else Ok l) (\<lambda>l.
      rt_bind (store_cell l (l_len l) value') (\<lambda>l.
      Ok (list_changed (l\<lparr>l_len := l_len l + 1\<rparr>) LIST_CHANGE_PUSH, eff))))"

definition insert_oob :: "blist \<Rightarrow> int \<Rightarrow> int \<Rightarrow> int \<Rightarrow> 'a rt" where
  "insert_oob l i line col =
     rt_panic 96 ''insert at %lld out of range (len %lld)'' [ArgI64 i, ArgI64 (int (l_len l))] line col"

definition index_oob :: "blist \<Rightarrow> int \<Rightarrow> int \<Rightarrow> int \<Rightarrow> 'a rt" where
  "index_oob l i line col =
     rt_panic 96 ''list index %lld out of range (len %lld)'' [ArgI64 i, ArgI64 (int (l_len l))] line col"

definition beans_list_insert ::
    "(u64 \<Rightarrow> bool) \<Rightarrow> blist \<Rightarrow> int \<Rightarrow> slot \<Rightarrow> int \<Rightarrow> int \<Rightarrow> blist leff" where
  "beans_list_insert alloc l i v line col =
     (if i < 0 \<or> i > int (l_len l) then insert_oob l i line col
      else
        let eff = (if l_mask l \<noteq> 0 then [CcWrite v] else []) in
        rt_bind (if l_len l = l_cap l
                 then list_backing_grow alloc l (int (l_cap l) * 2) 8 line col else Ok l) (\<lambda>l.
        rt_bind (move_cells l (nat i + 1) (nat i) (l_len l - nat i)) (\<lambda>l.
        rt_bind (store_cell l (nat i) [v]) (\<lambda>l.
        Ok (list_changed (l\<lparr>l_len := l_len l + 1\<rparr>) LIST_CHANGE_INSERT, eff)))))"

definition beans_list_insert_typed ::
    "(u64 \<Rightarrow> bool) \<Rightarrow> blist \<Rightarrow> int \<Rightarrow> elem \<Rightarrow> int \<Rightarrow> int \<Rightarrow> blist leff" where
  "beans_list_insert_typed alloc l i value' line col =
     (if i < 0 \<or> i > int (l_len l) then insert_oob l i line col
      else
        let eff = cc_write_typed value' (l_mask l); stride = list_stride l in
        rt_bind (if l_len l = l_cap l
                 then list_backing_grow alloc l (int (l_cap l) * 2) stride line col else Ok l) (\<lambda>l.
        rt_bind (move_cells l (nat i + 1) (nat i) (l_len l - nat i)) (\<lambda>l.
        rt_bind (store_cell l (nat i) value') (\<lambda>l.
        Ok (list_changed (l\<lparr>l_len := l_len l + 1\<rparr>) LIST_CHANGE_INSERT, eff)))))"

text \<open>The generic removal returns the slot, the typed one writes the element out: both give the
  cell's words.\<close>

definition beans_list_remove :: "blist \<Rightarrow> int \<Rightarrow> int \<Rightarrow> int \<Rightarrow> (blist \<times> elem) rt" where
  "beans_list_remove l i line col =
     (if i < 0 \<or> i \<ge> int (l_len l) then index_oob l i line col
      else
        rt_bind (load_cell l (nat i)) (\<lambda>v.
        rt_bind (move_cells l (nat i) (nat i + 1) (l_len l - nat i - 1)) (\<lambda>l.
        Ok (list_changed (l\<lparr>l_len := l_len l - 1\<rparr>) LIST_CHANGE_REMOVE, v))))"

definition beans_list_remove_typed :: "blist \<Rightarrow> int \<Rightarrow> int \<Rightarrow> int \<Rightarrow> (blist \<times> elem) rt" where
  "beans_list_remove_typed l i line col =
     (if i < 0 \<or> i \<ge> int (l_len l) then index_oob l i line col
      else
        rt_bind (load_cell l (nat i)) (\<lambda>out.
        rt_bind (move_cells l (nat i) (nat i + 1) (l_len l - nat i - 1)) (\<lambda>l.
        Ok (list_changed (l\<lparr>l_len := l_len l - 1\<rparr>) LIST_CHANGE_REMOVE, out))))"

text \<open>The swap loop of \<^verbatim>\<open>beans_list_reverse\<close>: \<open>i\<close> walks up, \<open>j\<close> walks down, while \<open>i < j\<close>.\<close>

function reverse_loop :: "blist \<Rightarrow> int \<Rightarrow> int \<Rightarrow> blist rt" where
  "reverse_loop l i j =
     (if i < j then
        rt_bind (load_cell l (nat i)) (\<lambda>t.
        rt_bind (load_cell l (nat j)) (\<lambda>b.
        rt_bind (store_cell l (nat i) b) (\<lambda>l.
        rt_bind (store_cell l (nat j) t) (\<lambda>l. reverse_loop l (i + 1) (j - 1)))))
      else Ok l)"
  by pat_completeness auto

termination reverse_loop
  by (relation "measure (\<lambda>(l, i, j). nat (j - i))") auto

declare reverse_loop.simps [simp del]

text \<open>An element that is not eight bytes wide is swapped through a temporary of its size.\<close>

definition beans_list_reverse :: "(u64 \<Rightarrow> bool) \<Rightarrow> blist \<Rightarrow> blist rt" where
  "beans_list_reverse alloc l =
     (let l = (if l_len l > 1 then list_changed l LIST_CHANGE_REVERSE else l);
          stride = list_stride l in
      if stride \<noteq> 8 \<and> \<not> alloc (of_int stride) then out_of_memory 0 0
      else reverse_loop l 0 (int (l_len l) - 1))"

text \<open>
  \<^verbatim>\<open>beans_list_clear\<close>. A release can run user code, and that code can reach this very list:
  \<open>run\<close> is what the releases of one element do to it. The walk goes from the last element down
  and stops when an index is owned by the list again.
\<close>

fun rt_list_clear_from :: "(effect list \<Rightarrow> blist \<Rightarrow> blist) \<Rightarrow> blist \<Rightarrow> nat \<Rightarrow> blist leff" where
  "rt_list_clear_from run l 0 = Ok (l, [])"
| "rt_list_clear_from run l (Suc i) =
     (if i < l_len l then Ok (l, [])
      else
        rt_bind (load_cell l i) (\<lambda>e.
          let eff = list_release_element l e in
          rt_bind (rt_list_clear_from run (run eff l) i) (\<lambda>(l', effs). Ok (l', eff @ effs))))"

definition beans_list_clear :: "(effect list \<Rightarrow> blist \<Rightarrow> blist) \<Rightarrow> blist \<Rightarrow> blist leff" where
  "beans_list_clear run l =
     (let l1 = (if l_len l \<noteq> 0 then list_changed l LIST_CHANGE_CLEAR else l);
          n = l_len l1; l2 = l1\<lparr>l_len := 0\<rparr> in
      if l_mask l2 = 0 then Ok (l2, []) else rt_list_clear_from run l2 n)"

definition change_word :: "nat \<Rightarrow> string" where
  "change_word kind =
     (if kind = LIST_CHANGE_PUSH then ''push''
      else if kind = LIST_CHANGE_POP then ''pop''
      else if kind = LIST_CHANGE_INSERT then ''insert''
      else if kind = LIST_CHANGE_REMOVE then ''remove''
      else if kind = LIST_CHANGE_CLEAR then ''clear''
      else if kind = LIST_CHANGE_REVERSE then ''reverse''
      else if kind = LIST_CHANGE_SORT then ''sort''
      else ''change'')"

definition beans_list_iter_invalid :: "blist \<Rightarrow> int \<Rightarrow> int \<Rightarrow> int \<Rightarrow> 'a rt" where
  "beans_list_iter_invalid l was_len line col =
     (let what = ArgStr (Some (asc (change_word (l_kind l)))) in
      if int (l_len l) \<noteq> was_len
      then rt_panic 112 ''list changed during iteration (%s, length %lld -> %lld)''
             [what, ArgI64 was_len, ArgI64 (int (l_len l))] line col
      else rt_panic 112 ''list changed during iteration (%s, length %lld)''
             [what, ArgI64 was_len] line col)"

definition beans_list_slice_check :: "blist \<Rightarrow> int \<Rightarrow> int \<Rightarrow> int \<Rightarrow> int \<Rightarrow> unit rt" where
  "beans_list_slice_check l from to line col =
     (if from < 0 \<or> to < from \<or> to > int (l_len l)
      then rt_panic 96 ''list slice %lld..%lld out of range (len %lld)''
             [ArgI64 from, ArgI64 to, ArgI64 (int (l_len l))] line col
      else Ok ())"

text \<open>\<^verbatim>\<open>memcpy\<close> of \<open>n\<close> cells into the front of a new list, then a retain per element.\<close>

definition copy_cells_retained :: "blist \<Rightarrow> blist \<Rightarrow> nat \<Rightarrow> nat \<Rightarrow> blist leff" where
  "copy_cells_retained r l from n =
     (if from + n \<le> length (l_buf l) \<and> n \<le> length (l_buf r) then
        let src = take n (drop from (l_buf l)); r = r\<lparr>l_len := n, l_buf := src @ drop n (l_buf r)\<rparr> in
        Ok (r, if l_mask r \<noteq> 0 then concat (map (list_retain_element r) src) else [])
      else Fault)"

definition beans_list_slice ::
    "(u64 \<Rightarrow> bool) \<Rightarrow> blist \<Rightarrow> int \<Rightarrow> int \<Rightarrow> int \<Rightarrow> int \<Rightarrow> blist leff" where
  "beans_list_slice alloc l from to line col =
     rt_bind (beans_list_slice_check l from to line col) (\<lambda>_.
     let n = to - from in
     rt_bind (list_new_capacity alloc (if l_stride l \<noteq> 0 then l_stride l else 8) (l_mask l) n line col)
       (\<lambda>r. copy_cells_retained r l (nat from) (nat n)))"

definition beans_list_clone :: "(u64 \<Rightarrow> bool) \<Rightarrow> blist \<Rightarrow> blist leff" where
  "beans_list_clone alloc l =
     rt_bind (list_new_capacity alloc (if l_stride l \<noteq> 0 then l_stride l else 8) (l_mask l)
        (int (l_len l)) 0 0)
       (\<lambda>r. copy_cells_retained r l 0 (l_len l))"

section \<open>Reading slots\<close>

definition list_slot_at :: "blist \<Rightarrow> nat \<Rightarrow> slot rt" where
  "list_slot_at l i =
     rt_bind (load_cell l i) (\<lambda>e.
       case e of [] \<Rightarrow> Fault
       | w # _ \<Rightarrow> Ok (if l_stride l = 4 then ucast (ucast w :: u32) else w))"

text \<open>The scan that keeps the best element; \<open>better c\<close> is the test on the comparison.\<close>

function best_loop :: "slot_env \<Rightarrow> (int \<Rightarrow> bool) \<Rightarrow> blist \<Rightarrow> int \<Rightarrow> nat \<Rightarrow> slot \<Rightarrow> slot rt" where
  "best_loop env better l kind i best =
     (if i < l_len l then
        rt_bind (list_slot_at l i) (\<lambda>v.
        rt_bind (slot_cmp env v best kind) (\<lambda>c.
        best_loop env better l kind (i + 1) (if better c then v else best)))
      else Ok best)"
  by pat_completeness auto

termination best_loop
  by (relation "measure (\<lambda>(env, better, l, kind, i, best). l_len l - i)") auto

declare best_loop.simps [simp del]

text \<open>The result is the pair of \<^verbatim>\<open>*ok\<close> and the value.\<close>

definition beans_list_max :: "slot_env \<Rightarrow> blist \<Rightarrow> int \<Rightarrow> (bool \<times> slot) rt" where
  "beans_list_max env l kind =
     (if \<not> l_len l > 0 then Ok (False, 0)
      else rt_bind (list_slot_at l 0) (\<lambda>best.
           rt_bind (best_loop env (\<lambda>c. c > 0) l kind 1 best) (\<lambda>v. Ok (True, v))))"

definition beans_list_min :: "slot_env \<Rightarrow> blist \<Rightarrow> int \<Rightarrow> (bool \<times> slot) rt" where
  "beans_list_min env l kind =
     (if \<not> l_len l > 0 then Ok (False, 0)
      else rt_bind (list_slot_at l 0) (\<lambda>best.
           rt_bind (best_loop env (\<lambda>c. c < 0) l kind 1 best) (\<lambda>v. Ok (True, v))))"

function index_loop :: "slot_env \<Rightarrow> blist \<Rightarrow> slot \<Rightarrow> int \<Rightarrow> nat \<Rightarrow> nat option rt" where
  "index_loop env l v kind i =
     (if i < l_len l then
        rt_bind (list_slot_at l i) (\<lambda>w.
          if slot_eq env w v kind then Ok (Some i) else index_loop env l v kind (i + 1))
      else Ok None)"
  by pat_completeness auto

termination index_loop
  by (relation "measure (\<lambda>(env, l, v, kind, i). l_len l - i)") auto

declare index_loop.simps [simp del]

definition beans_list_contains :: "slot_env \<Rightarrow> blist \<Rightarrow> slot \<Rightarrow> int \<Rightarrow> bool rt" where
  "beans_list_contains env l v kind =
     rt_bind (index_loop env l v kind 0) (\<lambda>r. Ok (r \<noteq> None))"

definition beans_list_index :: "slot_env \<Rightarrow> blist \<Rightarrow> slot \<Rightarrow> int \<Rightarrow> (bool \<times> nat) rt" where
  "beans_list_index env l v kind =
     rt_bind (index_loop env l v kind 0)
       (\<lambda>r. Ok (case r of Some i \<Rightarrow> (True, i) | None \<Rightarrow> (False, 0)))"

text \<open>The element loop of the two equalities: \<open>at\<close> loads an element, \<open>same\<close> compares two.\<close>

function equal_loop ::
    "(blist \<Rightarrow> nat \<Rightarrow> 'e rt) \<Rightarrow> ('e \<Rightarrow> 'e \<Rightarrow> bool) \<Rightarrow> blist \<Rightarrow> blist \<Rightarrow> nat \<Rightarrow> bool rt" where
  "equal_loop at same a b i =
     (if i < l_len a then
        rt_bind (at a i) (\<lambda>x. rt_bind (at b i) (\<lambda>y.
          if \<not> same x y then Ok False else equal_loop at same a b (i + 1)))
      else Ok True)"
  by pat_completeness auto

termination equal_loop
  by (relation "measure (\<lambda>(at, same, a, b, i). l_len a - i)") auto

declare equal_loop.simps [simp del]

text \<open>
  A list argument can be null; \<open>a == b\<close> on pointers is passed as \<open>same_object\<close>.
\<close>

definition beans_list_equal ::
    "slot_env \<Rightarrow> bool \<Rightarrow> blist option \<Rightarrow> blist option \<Rightarrow> int \<Rightarrow> bool rt" where
  "beans_list_equal env same_object a b kind =
     (if same_object then Ok True
      else case (a, b) of
        (Some a, Some b) \<Rightarrow>
          if l_len a \<noteq> l_len b then Ok False
          else equal_loop list_slot_at (\<lambda>x y. slot_eq env x y kind) a b 0
      | _ \<Rightarrow> Ok False)"

definition beans_list_val_equal ::
    "(elem \<Rightarrow> elem \<Rightarrow> bool) \<Rightarrow> bool \<Rightarrow> blist option \<Rightarrow> blist option \<Rightarrow> bool rt" where
  "beans_list_val_equal eq same_object a b =
     (if same_object then Ok True
      else case (a, b) of
        (Some a, Some b) \<Rightarrow>
          if l_len a \<noteq> l_len b then Ok False
          else if list_stride b \<noteq> list_stride a then Ok False
          else equal_loop load_cell eq a b 0
      | _ \<Rightarrow> Ok False)"

section \<open>Invariant and abstraction\<close>

text \<open>
  \<open>alloc_law\<close> is what the code relies on of the allocator: no block of \<open>2 ^ 62\<close> bytes or more is
  ever granted.
\<close>

definition alloc_law :: "(u64 \<Rightarrow> bool) \<Rightarrow> bool" where
  "alloc_law alloc \<longleftrightarrow> (\<forall>b. alloc b \<longrightarrow> unat b < 2 ^ 62)"

definition list_ok :: "blist \<Rightarrow> bool" where
  "list_ok l \<longleftrightarrow> l_len l \<le> l_cap l \<and> length (l_buf l) = l_cap l \<and> 4 \<le> l_cap l \<and> l_stride l \<noteq> 0 \<and>
     list_stride l \<le> 2 ^ 30 \<and> int (l_cap l) * list_stride l < 2 ^ 62"

definition live :: "blist \<Rightarrow> elem list" where
  "live l = take (l_len l) (l_buf l)"

definition same_shape :: "blist \<Rightarrow> blist \<Rightarrow> bool" where
  "same_shape l l' \<longleftrightarrow> l_stride l' = l_stride l \<and> l_mask l' = l_mask l"

lemma list_stride_pos: "l_stride l \<noteq> 0 \<Longrightarrow> 0 < list_stride l"
  by (auto simp: list_stride_def)

lemma length_live: "list_ok l \<Longrightarrow> length (live l) = l_len l"
  by (simp add: list_ok_def live_def)

lemma unat_of_int_small: "0 \<le> k \<Longrightarrow> k < 2 ^ 64 \<Longrightarrow> unat (of_int k :: u64) = nat k"
  by (simp add: unsigned_of_int take_bit_int_eq_self)

lemma unat_product:
  "0 < s \<Longrightarrow> 0 \<le> n \<Longrightarrow> n * s < 2 ^ 64 \<Longrightarrow> unat (of_int n * of_int s :: u64) = nat (n * s)"
  using unat_of_int_small [of "n * s"] by simp

lemma cells_of_product:
  "0 < s \<Longrightarrow> 0 \<le> n \<Longrightarrow> n * s < 2 ^ 64 \<Longrightarrow> cells_of (of_int n * of_int s) s = nat n"
  by (simp add: cells_of_def unat_product nat_mult_distrib)

section \<open>Growth\<close>

lemma reserve_double_total:
  assumes "0 < cap"
  shows "\<exists>c. reserve_double cap capacity = Some c \<and> cap \<le> c \<and>
     (capacity \<le> c \<or> 2 ^ 60 < c) \<and> (c = cap \<or> c < 2 * capacity)"
  using assms
proof (induction "nat (2 ^ 61 - cap)" arbitrary: cap rule: less_induct)
  case less
  show ?case
  proof (cases "cap < capacity \<and> cap \<le> 2 ^ 60")
    case True
    then have "nat (2 ^ 61 - cap * 2) < nat (2 ^ 61 - cap)" using less.prems by simp
    from less.hyps [OF this] less.prems True show ?thesis
      by (subst reserve_double.simps) auto
  next
    case False
    then show ?thesis by (subst reserve_double.simps) auto
  qed
qed

lemma list_backing_grow_result:
  assumes ok: "list_ok l" and law: "alloc_law alloc"
    and cap: "int (l_cap l) \<le> new_cap" and small: "new_cap * list_stride l < 2 ^ 64"
  defines "bytes \<equiv> of_int new_cap * of_int (list_stride l) :: u64"
  shows "\<not> alloc bytes \<and> list_backing_grow alloc l new_cap (list_stride l) line col = out_of_memory line col \<or>
    alloc bytes \<and>
    (\<exists>l'. list_backing_grow alloc l new_cap (list_stride l) line col = Ok l' \<and> list_ok l' \<and>
       l_cap l' = nat new_cap \<and> live l' = live l \<and> l_len l' = l_len l \<and> same_shape l l' \<and>
       l_count l' = l_count l \<and> l_kind l' = l_kind l)"
proof (cases "alloc bytes")
  case False
  then show ?thesis by (simp add: list_backing_grow_def bytes_def Let_def)
next
  case True
  define s where "s = list_stride l"
  have s: "0 < s" "s \<le> 2 ^ 30" "l_stride l \<noteq> 0" and buf: "length (l_buf l) = l_cap l"
    and len: "l_len l \<le> l_cap l" and c: "4 \<le> l_cap l" "int (l_cap l) * s < 2 ^ 62"
    using ok list_stride_pos [of l] by (auto simp: list_ok_def s_def)
  have fresh: "cells_of bytes s = nat new_cap"
    unfolding bytes_def s_def [symmetric] using s cap small by (intro cells_of_product) (auto simp: s_def)
  have old: "cells_of (of_nat (l_cap l) * of_int s) s = l_cap l"
    using cells_of_product [of s "int (l_cap l)"] s c by simp
  have "unat bytes = nat (new_cap * s)"
    unfolding bytes_def s_def [symmetric] using s cap small by (intro unat_product) (auto simp: s_def)
  moreover have "unat bytes < 2 ^ 62" using law True by (auto simp: alloc_law_def)
  ultimately have fits: "new_cap * s < 2 ^ 62" by simp
  define l' where "l' = l\<lparr>l_buf := l_buf l @ replicate (nat new_cap - l_cap l) [],
     l_inline := False, l_cap := nat new_cap\<rparr>"
  have grow: "list_backing_grow alloc l new_cap s line col = Ok l'"
    using True cap buf fresh old
    by (auto simp: list_backing_grow_def Let_def l'_def bytes_def s_def nat_le_iff)
  have "list_stride l' = s" by (simp add: l'_def s_def list_stride_def)
  then have "list_ok l'"
    using s c cap buf len fits unfolding list_ok_def by (simp add: l'_def) linarith
  moreover have "live l' = live l" using buf len by (simp add: live_def l'_def)
  ultimately show ?thesis
    using True grow by (auto simp: s_def l'_def same_shape_def)
qed

section \<open>Each operation on the live elements\<close>

lemma list_stride_update [simp]:
  "list_stride (l\<lparr>l_buf := b\<rparr>) = list_stride l" "list_stride (l\<lparr>l_len := n\<rparr>) = list_stride l"
  "list_stride (l\<lparr>l_cap := n\<rparr>) = list_stride l" "list_stride (l\<lparr>l_inline := i\<rparr>) = list_stride l"
  "list_stride (l\<lparr>l_count := c\<rparr>) = list_stride l" "list_stride (l\<lparr>l_kind := k\<rparr>) = list_stride l"
  by (simp_all add: list_stride_def)

lemma make_room:
  fixes line col :: int
  assumes "list_ok l" "alloc_law alloc"
  defines "r \<equiv> (if l_len l = l_cap l
     then list_backing_grow alloc l (int (l_cap l) * 2) (list_stride l) line col else Ok l)"
  shows "r = out_of_memory line col \<or>
    (\<exists>l'. r = Ok l' \<and> list_ok l' \<and> live l' = live l \<and> l_len l' = l_len l \<and> l_len l < l_cap l' \<and>
       same_shape l l' \<and> l_count l' = l_count l \<and> l_kind l' = l_kind l)"
proof (cases "l_len l = l_cap l")
  case True
  define x where "x = int (l_cap l) * list_stride l"
  have "x < 2 ^ 62" using assms(1) by (simp add: list_ok_def x_def)
  moreover have "int (l_cap l) * 2 * list_stride l = 2 * x" by (simp add: x_def)
  moreover have "2 * x < 2 ^ 64" using \<open>x < 2 ^ 62\<close> by simp
  ultimately have "int (l_cap l) * 2 * list_stride l < 2 ^ 64" by (simp only:)
  from list_backing_grow_result [OF assms(1,2) _ this, of line col] True assms(1)
  show ?thesis by (fastforce simp: r_def list_ok_def)
next
  case False
  then show ?thesis using assms(1) by (simp add: r_def list_ok_def same_shape_def)
qed

definition bumped :: "blist \<Rightarrow> nat \<Rightarrow> blist \<Rightarrow> bool" where
  "bumped l what l' \<longleftrightarrow> l_count l' = l_count l + 1 \<and> l_kind l' = what \<and> same_shape l l'"

lemma list_ok_update:
  assumes "list_ok l" "n \<le> l_cap l" "length b = l_cap l"
  shows "list_ok (list_changed (l\<lparr>l_buf := b, l_len := n\<rparr>) what)"
    "live (list_changed (l\<lparr>l_buf := b, l_len := n\<rparr>) what) = take n b"
  using assms by (auto simp: list_ok_def list_changed_def list_stride_def live_def)

lemma store_push:
  assumes "list_ok l" "l_len l < l_cap l"
  shows "\<exists>l'. rt_bind (store_cell l (l_len l) e)
      (\<lambda>l. Ok (list_changed (l\<lparr>l_len := l_len l + 1\<rparr>) what, eff)) = Ok (l', eff) \<and>
    list_ok l' \<and> live l' = live l @ [e] \<and> bumped l what l'"
proof -
  let ?b = "(l_buf l)[l_len l := e]"
  have "length (l_buf l) = l_cap l" using assms by (simp add: list_ok_def)
  with assms have "take (l_len l + 1) ?b = live l @ [e]"
    by (simp add: live_def take_Suc_conv_app_nth)
  then show ?thesis
    using assms list_ok_update [OF assms(1), of "l_len l + 1" ?b what] \<open>length (l_buf l) = l_cap l\<close>
    by (auto simp: store_cell_def bumped_def list_changed_def same_shape_def)
qed

lemma store_insert:
  assumes "list_ok l" "l_len l < l_cap l" "i \<le> l_len l"
  shows "\<exists>l'. rt_bind (move_cells l (i + 1) i (l_len l - i)) (\<lambda>l. rt_bind (store_cell l i e)
      (\<lambda>l. Ok (list_changed (l\<lparr>l_len := l_len l + 1\<rparr>) what, eff))) = Ok (l', eff) \<and>
    list_ok l' \<and> live l' = take i (live l) @ e # drop i (live l) \<and> bumped l what l'"
proof -
  have buf: "length (l_buf l) = l_cap l" using assms by (simp add: list_ok_def)
  let ?m = "take (i + 1) (l_buf l) @ take (l_len l - i) (drop i (l_buf l)) @ drop (l_len l + 1) (l_buf l)"
  let ?b = "?m[i := e]"
  have lenm: "length ?m = l_cap l" using assms buf by simp
  have m: "take (i + 1) (l_buf l) = take i (l_buf l) @ [l_buf l ! i]"
    using assms buf by (simp add: take_Suc_conv_app_nth)
  have b: "?b = take i (l_buf l) @ e # take (l_len l - i) (drop i (l_buf l)) @ drop (l_len l + 1) (l_buf l)"
    using assms buf unfolding m by (simp add: list_update_append)
  have "take (l_len l + 1) ?b = take i (live l) @ e # drop i (live l)"
    unfolding b using assms buf by (simp add: live_def drop_take take_Cons' min_def) arith
  then show ?thesis
    using assms buf lenm list_ok_update [OF assms(1), of "l_len l + 1" ?b what]
    by (auto simp: move_cells_def store_cell_def bumped_def list_changed_def same_shape_def)
qed

lemma cut_remove:
  assumes "list_ok l" "i < l_len l"
  shows "load_cell l i = Ok (live l ! i) \<and>
    (\<exists>l'. rt_bind (move_cells l i (i + 1) (l_len l - i - 1))
        (\<lambda>l. Ok (list_changed (l\<lparr>l_len := l_len l - 1\<rparr>) what, e)) = Ok (l', e) \<and>
      list_ok l' \<and> live l' = take i (live l) @ drop (Suc i) (live l) \<and> bumped l what l')"
proof -
  have buf: "length (l_buf l) = l_cap l" and len: "l_len l \<le> l_cap l" using assms by (auto simp: list_ok_def)
  let ?b = "take i (l_buf l) @ take (l_len l - i - 1) (drop (i + 1) (l_buf l)) @ drop (l_len l - 1) (l_buf l)"
  have "length ?b = l_cap l" using assms buf len by simp
  moreover have "min (l_len l - Suc 0) i = i" "min (l_len l) i = i" using assms by auto
  then have "take (l_len l - 1) ?b = take i (live l) @ drop (Suc i) (live l)"
    using assms buf len by (simp add: live_def drop_take min.commute)
  moreover have "i + (l_len l - i - 1) = l_len l - 1" using assms by simp
  ultimately show ?thesis
    using assms buf len list_ok_update [OF assms(1), of "l_len l - 1" ?b what]
    by (auto simp: load_cell_def move_cells_def bumped_def list_changed_def same_shape_def live_def)
qed

lemma reverse_loop_swaps:
  assumes "0 \<le> i" "j < int (length (l_buf l))"
  shows "\<exists>b. reverse_loop l i j = Ok (l\<lparr>l_buf := b\<rparr>) \<and> length b = length (l_buf l) \<and>
    (\<forall>k < length b. b ! k = (if i \<le> int k \<and> int k \<le> j then l_buf l ! nat (i + j - int k) else l_buf l ! k))"
  using assms
proof (induction l i j rule: reverse_loop.induct)
  case (1 l i j)
  show ?case
  proof (cases "i < j")
    case True
    define l2 where "l2 = l\<lparr>l_buf := (l_buf l)[nat i := l_buf l ! nat j, nat j := l_buf l ! nat i]\<rparr>"
    have in_buf: "nat i < length (l_buf l)" "nat j < length (l_buf l)" using True "1.prems" by auto
    have step: "reverse_loop l i j = reverse_loop l2 (i + 1) (j - 1)"
      using True in_buf by (subst reverse_loop.simps) (simp add: load_cell_def store_cell_def l2_def)
    have "\<exists>b. reverse_loop l2 (i + 1) (j - 1) = Ok (l2\<lparr>l_buf := b\<rparr>) \<and> length b = length (l_buf l2) \<and>
      (\<forall>k < length b. b ! k = (if i + 1 \<le> int k \<and> int k \<le> j - 1
          then l_buf l2 ! nat (i + 1 + (j - 1) - int k) else l_buf l2 ! k))"
      using True in_buf "1.prems"
      by (intro "1.IH") (auto simp: l2_def)
    then obtain b where b: "reverse_loop l2 (i + 1) (j - 1) = Ok (l2\<lparr>l_buf := b\<rparr>)"
      "length b = length (l_buf l)"
      "\<And>k. k < length b \<Longrightarrow> b ! k = (if i + 1 \<le> int k \<and> int k \<le> j - 1
          then l_buf l2 ! nat (i + j - int k) else l_buf l2 ! k)"
      by (auto simp: l2_def)
    have "b ! k = (if i \<le> int k \<and> int k \<le> j then l_buf l ! nat (i + j - int k) else l_buf l ! k)"
      if "k < length b" for k
    proof (cases "k = nat i \<or> k = nat j")
      case True
      moreover have "int (nat i) = i" "int (nat j) = j" "nat i \<noteq> nat j"
        using \<open>i < j\<close> "1.prems" by auto
      ultimately show ?thesis using b(3) [OF that] in_buf \<open>i < j\<close> by (auto simp: l2_def)
    next
      case False
      then have "nat i \<noteq> nat (i + j - int k)" "nat j \<noteq> nat (i + j - int k)"
        if "i \<le> int k" "int k \<le> j" using that \<open>i < j\<close> "1.prems" by auto
      with b(3) [OF that] False \<open>i < j\<close> "1.prems" show ?thesis by (auto simp: l2_def)
    qed
    moreover have "reverse_loop l i j = Ok (l\<lparr>l_buf := b\<rparr>)" using b(1) step by (simp add: l2_def)
    ultimately show ?thesis using b(2) by blast
  next
    case False
    then have "nat (i + j - int k) = k" if "i \<le> int k" "int k \<le> j" for k using that by simp
    with False show ?thesis by (subst reverse_loop.simps) (auto intro!: exI [of _ "l_buf l"])
  qed
qed

lemma beans_list_reverse_live:
  assumes "list_ok l"
  shows "beans_list_reverse alloc l = out_of_memory 0 0 \<or>
    (\<exists>l'. beans_list_reverse alloc l = Ok l' \<and> list_ok l' \<and> live l' = rev (live l) \<and>
       (if l_len l > 1 then bumped l LIST_CHANGE_REVERSE l' else l' = l))"
proof -
  define l1 where "l1 = (if l_len l > 1 then list_changed l LIST_CHANGE_REVERSE else l)"
  have l1: "l_buf l1 = l_buf l" "l_len l1 = l_len l" "l_cap l1 = l_cap l" "l_stride l1 = l_stride l"
    "list_stride l1 = list_stride l"
    by (auto simp: l1_def list_changed_def list_stride_def)
  from assms have len: "l_len l \<le> length (l_buf l)" and buf: "length (l_buf l) = l_cap l"
    by (auto simp: list_ok_def)
  obtain b where b: "reverse_loop l1 0 (int (l_len l1) - 1) = Ok (l1\<lparr>l_buf := b\<rparr>)" "length b = length (l_buf l)"
    "\<forall>k < length b. b ! k = (if 0 \<le> int k \<and> int k \<le> int (l_len l1) - 1
        then l_buf l1 ! nat (0 + (int (l_len l1) - 1) - int k) else l_buf l1 ! k)"
    using reverse_loop_swaps [of 0 "int (l_len l1) - 1" l1] len l1 by auto
  have "take (l_len l) b = rev (live l)"
  proof (rule nth_equalityI)
    show "length (take (l_len l) b) = length (rev (live l))" using b(2) len by (simp add: live_def)
    fix k assume "k < length (take (l_len l) b)"
    then have k: "k < l_len l" "k < length b" by auto
    moreover have "nat (int (l_len l) - 1 - int k) = l_len l - Suc k" using k by linarith
    ultimately show "take (l_len l) b ! k = rev (live l) ! k"
      using b(3) l1 len by (auto simp: rev_nth live_def)
  qed
  moreover have "list_ok (l1\<lparr>l_buf := b\<rparr>)"
    using assms b(2) buf l1 by (simp add: list_ok_def)
  moreover have "l1\<lparr>l_buf := b\<rparr> = l" if "\<not> l_len l > 1"
  proof -
    have "reverse_loop l1 0 (int (l_len l1) - 1) = Ok l1"
      using that l1 by (subst reverse_loop.simps) simp
    with b(1) that show ?thesis by (simp add: l1_def)
  qed
  moreover have "beans_list_reverse alloc l = out_of_memory 0 0 \<or>
      beans_list_reverse alloc l = Ok (l1\<lparr>l_buf := b\<rparr>)"
    using b(1) unfolding beans_list_reverse_def Let_def l1_def [symmetric] by simp
  moreover have "live (l1\<lparr>l_buf := b\<rparr>) = take (l_len l) b" by (simp add: live_def l1)
  moreover have "l_len l > 1 \<Longrightarrow> bumped l LIST_CHANGE_REVERSE (l1\<lparr>l_buf := b\<rparr>)"
    by (simp add: bumped_def same_shape_def l1_def list_changed_def)
  ultimately show ?thesis by auto
qed

lemma beans_list_reserve_live:
  assumes ok: "list_ok l" and law: "alloc_law alloc" and narrow: "list_stride l \<le> 32"
    and range: "0 \<le> capacity" "capacity \<le> 2 ^ 58"
  shows "beans_list_reserve alloc l capacity line col = out_of_memory line col \<or>
    (\<exists>l'. beans_list_reserve alloc l capacity line col = Ok l' \<and> list_ok l' \<and> capacity \<le> int (l_cap l') \<and>
       live l' = live l \<and> same_shape l l')"
proof (cases "capacity \<le> int (l_cap l)")
  case True
  then show ?thesis using ok range by (simp add: beans_list_reserve_def same_shape_def)
next
  case False
  have pos: "0 < int (l_cap l)" "0 < list_stride l" using ok list_stride_pos [of l] by (auto simp: list_ok_def)
  obtain c where c: "reserve_double (int (l_cap l)) capacity = Some c" "int (l_cap l) \<le> c"
    "capacity \<le> c \<or> 2 ^ 60 < c" "c = int (l_cap l) \<or> c < 2 * capacity"
    using reserve_double_total [OF pos(1), of capacity] by blast
  have cap: "capacity \<le> c" "c < 2 ^ 59" using c(3,4) False range by auto
  have "c * list_stride l \<le> c * 32" using narrow cap pos c(2) by (intro mult_left_mono) auto
  with cap have "c * list_stride l < 2 ^ 64" by simp
  from list_backing_grow_result [OF ok law c(2) this, of line col] c cap False range
  show ?thesis by (auto simp: beans_list_reserve_def)
qed

lemma list_new_capacity_result:
  assumes "stride \<noteq> 0" "\<bar>stride\<bar> \<le> 2 ^ 30" "0 \<le> n" and fits: "max 4 n * \<bar>stride\<bar> < 2 ^ 62"
  shows "list_new_capacity alloc stride pmask n line col = out_of_memory line col \<or>
    (\<exists>r. list_new_capacity alloc stride pmask n line col = Ok r \<and> list_ok r \<and> l_len r = 0 \<and>
      n \<le> int (l_cap r) \<and> l_stride r = stride \<and> l_mask r = pmask)"
proof -
  define s where "s = (if stride < 0 then - stride else stride)"
  define c where "c = (if n > 4 then n else 4)"
  have s: "0 < s" "s = \<bar>stride\<bar>" "s \<le> 2 ^ 30" and c: "4 \<le> c" "n \<le> c" "c * s < 2 ^ 62"
    using assms by (auto simp: s_def c_def max_def split: if_splits)
  have cells: "cells_of (of_int c * of_int s) s = nat c"
    using s c by (intro cells_of_product) auto
  have "list_ok \<lparr>l_buf = replicate (nat c) [], l_inline = i, l_len = 0, l_cap = nat c,
      l_stride = stride, l_mask = pmask, l_count = 0, l_kind = 0\<rparr>" for i
  proof -
    have "list_stride \<lparr>l_buf = replicate (nat c) [], l_inline = i, l_len = 0, l_cap = nat c,
      l_stride = stride, l_mask = pmask, l_count = 0, l_kind = 0\<rparr> = s"
      using assms(1) by (simp add: list_stride_def s_def)
    then show ?thesis using assms(1) s c by (simp add: list_ok_def nat_le_iff)
  qed
  then show ?thesis
    using s c cells unfolding list_new_capacity_def Let_def s_def [symmetric] c_def [symmetric]
    by auto
qed

lemma copy_cells_retained_result:
  assumes "list_ok r" "l_len r = 0" "n \<le> l_cap r" "from + n \<le> length (l_buf l)"
  shows "\<exists>r' eff. copy_cells_retained r l from n = Ok (r', eff) \<and> list_ok r' \<and>
    live r' = take n (drop from (l_buf l)) \<and> same_shape r r' \<and>
    eff = (if l_mask r \<noteq> 0 then concat (map (list_retain_element r) (live r')) else [])"
proof -
  let ?r = "r\<lparr>l_len := n, l_buf := take n (drop from (l_buf l)) @ drop n (l_buf r)\<rparr>"
  have "list_retain_element ?r = list_retain_element r" by (simp add: list_retain_element_def fun_eq_iff)
  then show ?thesis
    using assms by (auto simp: copy_cells_retained_def Let_def list_ok_def live_def same_shape_def)
qed

lemma beans_list_slice_live:
  assumes ok: "list_ok l" and range: "0 \<le> a" "a \<le> b" "b \<le> int (l_len l)"
  shows "beans_list_slice alloc l a b line col = out_of_memory line col \<or>
    (\<exists>r eff. beans_list_slice alloc l a b line col = Ok (r, eff) \<and> list_ok r \<and> same_shape l r \<and>
       live r = sub_range (live l) (nat a) (nat b) \<and>
       eff = (if l_mask l \<noteq> 0 then concat (map (list_retain_element l) (live r)) else []))"
proof -
  have len: "l_len l \<le> l_cap l" "length (l_buf l) = l_cap l" "4 \<le> l_cap l" "l_stride l \<noteq> 0"
    and s: "\<bar>l_stride l\<bar> = list_stride l" "list_stride l \<le> 2 ^ 30" "int (l_cap l) * list_stride l < 2 ^ 62"
    using ok by (auto simp: list_ok_def list_stride_def)
  have "max 4 (b - a) * \<bar>l_stride l\<bar> \<le> int (l_cap l) * list_stride l"
    using len range s by (intro mult_mono) auto
  then have small: "max 4 (b - a) * \<bar>l_stride l\<bar> < 2 ^ 62" using s by linarith
  have "nat a + nat (b - a) = nat b" "nat b \<le> length (l_buf l)" using range len by linarith+
  then have piece: "take (nat (b - a)) (drop (nat a) (l_buf l)) = sub_range (live l) (nat a) (nat b)"
    using range by (simp add: sub_range_def live_def drop_take min_def nat_diff_distrib) linarith
  have stride: "\<bar>l_stride l\<bar> \<le> 2 ^ 30" "0 \<le> b - a" using s range by auto
  consider "list_new_capacity alloc (l_stride l) (l_mask l) (b - a) line col = out_of_memory line col"
    | r where "list_new_capacity alloc (l_stride l) (l_mask l) (b - a) line col = Ok r" "list_ok r"
      "l_len r = 0" "b - a \<le> int (l_cap r)" "l_stride r = l_stride l" "l_mask r = l_mask l"
    using list_new_capacity_result [OF len(4) stride small, of alloc "l_mask l" line col] by blast
  then show ?thesis
  proof cases
    case 1
    then show ?thesis using range len
      by (simp add: beans_list_slice_def beans_list_slice_check_def out_of_memory_def)
  next
    case (2 r)
    have "nat (b - a) \<le> l_cap r" using 2 by linarith
    moreover have "list_retain_element r = list_retain_element l"
      using 2 by (simp add: list_retain_element_def fun_eq_iff)
    moreover note copy_cells_retained_result [OF 2(2,3), of "nat (b - a)" "nat a" l]
    ultimately show ?thesis using 2 range len piece \<open>nat a + nat (b - a) = nat b\<close> \<open>nat b \<le> length (l_buf l)\<close>
      by (auto simp: beans_list_slice_def beans_list_slice_check_def same_shape_def)
  qed
qed

lemma beans_list_clone_slice:
  "list_ok l \<Longrightarrow> beans_list_clone alloc l = beans_list_slice alloc l 0 (int (l_len l)) 0 0"
  by (simp add: beans_list_clone_def beans_list_slice_def beans_list_slice_check_def)

section \<open>Clearing\<close>

text \<open>
  What user code running inside a release may do here for the walk to be right: keep the list
  well formed, never shorten it, and leave the cells past its length alone.
\<close>

definition tail_safe :: "(effect list \<Rightarrow> blist \<Rightarrow> blist) \<Rightarrow> bool" where
  "tail_safe run \<longleftrightarrow> (\<forall>eff l. list_ok l \<longrightarrow> list_ok (run eff l) \<and> same_shape l (run eff l) \<and>
     l_len l \<le> l_len (run eff l) \<and>
     (\<forall>i. l_len (run eff l) \<le> i \<and> i < l_cap l \<longrightarrow>
       i < l_cap (run eff l) \<and> l_buf (run eff l) ! i = l_buf l ! i))"

lemma clear_from_suffix:
  assumes "tail_safe run" "list_ok l" "n \<le> l_cap l"
  shows "\<exists>l' j. rt_list_clear_from run l n =
      Ok (l', concat (map (list_release_element l) (rev (drop j (take n (l_buf l)))))) \<and>
    list_ok l' \<and> same_shape l l' \<and> min n (l_len l) \<le> j \<and> j \<le> n \<and> (j = 0 \<or> j \<le> l_len l')"
  using assms(2,3)
proof (induction n arbitrary: l)
  case 0
  then show ?case by (auto simp: same_shape_def)
next
  case (Suc i)
  have buf: "length (l_buf l) = l_cap l" using Suc.prems by (simp add: list_ok_def)
  show ?case
  proof (cases "i < l_len l")
    case True
    then show ?thesis using Suc.prems
      by (intro exI [of _ l] exI [of _ "Suc i"]) (simp add: same_shape_def)
  next
    case False
    define e where "e = l_buf l ! i"
    define m where "m = run (list_release_element l e) l"
    have m: "list_ok m" "same_shape l m" "l_len l \<le> l_len m"
      and keep: "\<And>k. l_len m \<le> k \<Longrightarrow> k < l_cap l \<Longrightarrow> k < l_cap m \<and> l_buf m ! k = l_buf l ! k"
      using assms(1) Suc.prems unfolding tail_safe_def m_def by blast+
    have rel: "list_release_element m = list_release_element l"
      using m(2) by (simp add: fun_eq_iff list_release_element_def same_shape_def)
    have step: "rt_list_clear_from run l (Suc i) =
        rt_bind (rt_list_clear_from run m i) (\<lambda>(l', effs). Ok (l', list_release_element l e @ effs))"
      using False Suc.prems buf by (simp add: load_cell_def e_def m_def Let_def)
    have le: "i \<le> l_cap m"
      using keep [of i] Suc.prems m(1) by (cases "l_len m \<le> i") (auto simp: list_ok_def)
    obtain l' j where rec: "rt_list_clear_from run m i =
        Ok (l', concat (map (list_release_element l) (rev (drop j (take i (l_buf m))))))"
      and l': "list_ok l'" "same_shape m l'" "min i (l_len m) \<le> j" "j \<le> i" "j = 0 \<or> j \<le> l_len l'"
      using Suc.IH [OF m(1) le] rel by auto
    have same: "drop j (take i (l_buf m)) = drop j (take i (l_buf l))"
    proof (rule nth_equalityI)
      show "length (drop j (take i (l_buf m))) = length (drop j (take i (l_buf l)))"
        using le m(1) Suc.prems buf by (simp add: list_ok_def)
      fix k assume "k < length (drop j (take i (l_buf m)))"
      then have "j + k < i" by simp
      with l'(3) keep [of "j + k"] Suc.prems m(1) le buf
      show "drop j (take i (l_buf m)) ! k = drop j (take i (l_buf l)) ! k"
        by (auto simp: list_ok_def)
    qed
    have last: "drop j (take (Suc i) (l_buf l)) = drop j (take i (l_buf l)) @ [e]"
      using l'(4) Suc.prems buf by (simp add: take_Suc_conv_app_nth e_def)
    show ?thesis
      using step rec l' m(2,3) False
      by (intro exI [of _ l'] exI [of _ j]) (auto simp: same last same_shape_def)
  qed
qed

lemma beans_list_clear_plain:
  assumes "list_ok l" "l_mask l \<noteq> 0"
  shows "\<exists>l'. beans_list_clear (\<lambda>_ l. l) l =
      Ok (l', concat (map (list_release_element l) (rev (live l)))) \<and> list_ok l' \<and> live l' = [] \<and> same_shape l l'"
proof -
  let ?l = "(if l_len l \<noteq> 0 then list_changed l LIST_CHANGE_CLEAR else l)\<lparr>l_len := 0\<rparr>"
  have ok: "list_ok ?l" using assms by (simp add: list_ok_def list_changed_def)
  have buf: "l_buf ?l = l_buf l" "l_mask ?l = l_mask l" "l_cap ?l = l_cap l" "l_len ?l = 0"
    "list_release_element ?l = list_release_element l"
    by (auto simp: list_changed_def list_release_element_def fun_eq_iff)
  have all: "rt_list_clear_from (\<lambda>_ l. l) ?l n =
      Ok (?l, concat (map (list_release_element l) (rev (take n (l_buf l)))))" if "n \<le> l_cap l" for n
    using that
  proof (induction n)
    case (Suc i)
    then show ?case
      using buf assms(1)
      by (simp add: load_cell_def list_ok_def take_Suc_conv_app_nth Let_def)
  qed simp
  have "beans_list_clear (\<lambda>_ l. l) l = rt_list_clear_from (\<lambda>_ l. l) ?l (l_len l)"
    using assms(2) by (simp add: beans_list_clear_def Let_def list_changed_def)
  moreover have "same_shape l ?l" by (simp add: same_shape_def list_changed_def)
  ultimately show ?thesis
    using all [of "l_len l"] ok buf(4) assms(1) by (simp add: live_def list_ok_def)
qed

section \<open>A list as a sequence machine\<close>

datatype 'v list_cmd = Push 'v | Insert int 'v | Remove int | Reverse | Clear | Reserve int

text \<open>
  One command on a generic list and on a list of inline elements. The position of the call is
  irrelevant here and is 0; releases run no code that reaches the list.
\<close>

fun generic_list_step :: "(u64 \<Rightarrow> bool) \<Rightarrow> blist \<Rightarrow> slot list_cmd \<Rightarrow> (blist \<times> elem option) rt" where
  "generic_list_step alloc l (Push v) = rt_bind (beans_list_push alloc l v) (\<lambda>(l, _). Ok (l, None))"
| "generic_list_step alloc l (Insert i v) =
     rt_bind (beans_list_insert alloc l i v 0 0) (\<lambda>(l, _). Ok (l, None))"
| "generic_list_step alloc l (Remove i) = rt_bind (beans_list_remove l i 0 0) (\<lambda>(l, e). Ok (l, Some e))"
| "generic_list_step alloc l Reverse = rt_bind (beans_list_reverse alloc l) (\<lambda>l. Ok (l, None))"
| "generic_list_step alloc l Clear = rt_bind (beans_list_clear (\<lambda>_ l. l) l) (\<lambda>(l, _). Ok (l, None))"
| "generic_list_step alloc l (Reserve n) = rt_bind (beans_list_reserve alloc l n 0 0) (\<lambda>l. Ok (l, None))"

fun typed_list_step :: "(u64 \<Rightarrow> bool) \<Rightarrow> blist \<Rightarrow> elem list_cmd \<Rightarrow> (blist \<times> elem option) rt" where
  "typed_list_step alloc l (Push v) = rt_bind (beans_list_push_typed alloc l v) (\<lambda>(l, _). Ok (l, None))"
| "typed_list_step alloc l (Insert i v) =
     rt_bind (beans_list_insert_typed alloc l i v 0 0) (\<lambda>(l, _). Ok (l, None))"
| "typed_list_step alloc l (Remove i) =
     rt_bind (beans_list_remove_typed l i 0 0) (\<lambda>(l, e). Ok (l, Some e))"
| "typed_list_step alloc l Reverse = rt_bind (beans_list_reverse alloc l) (\<lambda>l. Ok (l, None))"
| "typed_list_step alloc l Clear = rt_bind (beans_list_clear (\<lambda>_ l. l) l) (\<lambda>(l, _). Ok (l, None))"
| "typed_list_step alloc l (Reserve n) = rt_bind (beans_list_reserve alloc l n 0 0) (\<lambda>l. Ok (l, None))"

text \<open>What the commands do to a sequence; a refused command is \<open>None\<close>.\<close>

fun seq_spec :: "('v \<Rightarrow> elem) \<Rightarrow> elem list \<Rightarrow> 'v list_cmd \<Rightarrow> (elem list \<times> elem option) option" where
  "seq_spec emb xs (Push v) = Some (xs @ [emb v], None)"
| "seq_spec emb xs (Insert i v) =
     (if 0 \<le> i \<and> i \<le> int (length xs)
      then Some (take (nat i) xs @ emb v # drop (nat i) xs, None) else None)"
| "seq_spec emb xs (Remove i) =
     (if 0 \<le> i \<and> i < int (length xs)
      then Some (take (nat i) xs @ drop (Suc (nat i)) xs, Some (xs ! nat i)) else None)"
| "seq_spec emb xs Reverse = Some (rev xs, None)"
| "seq_spec emb xs Clear = Some ([], None)"
| "seq_spec emb xs (Reserve n) = (if 0 \<le> n \<and> n \<le> 2 ^ 58 then Some (xs, None) else None)"

definition oom_text :: "bstr \<Rightarrow> bool" where
  "oom_text m \<longleftrightarrow> m = asc ''out of memory''"

text \<open>
  The outcome of a step that the refinement asks for: as the specification says, or out of memory.
\<close>

definition step_meets ::
    "(blist \<Rightarrow> bool) \<Rightarrow> (blist \<times> elem option) rt \<Rightarrow> (elem list \<times> elem option) option \<Rightarrow> bool" where
  "step_meets ok r s \<longleftrightarrow>
     (case r of Ok (l', x) \<Rightarrow> ok l' \<and> s = Some (live l', x)
      | Panic m _ _ \<Rightarrow> oom_text m \<or> s = None | Fault \<Rightarrow> False)"

lemma step_meets_oom [simp]: "step_meets ok (rt_bind (out_of_memory line col) f) s"
  by (simp add: step_meets_def out_of_memory_def oom_text_def)

definition narrow_ok :: "int \<Rightarrow> blist \<Rightarrow> bool" where
  "narrow_ok w l \<longleftrightarrow> list_ok l \<and> list_stride l = w"

lemma narrow_ok_shape: "narrow_ok w l \<Longrightarrow> same_shape l l' \<Longrightarrow> list_ok l' \<Longrightarrow> narrow_ok w l'"
  by (auto simp: narrow_ok_def same_shape_def list_stride_def)

lemma oob_panics:
  "\<exists>m. insert_oob l i line col = Panic m line col" "\<exists>m. index_oob l i line col = Panic m line col"
  "\<exists>m. rt_panic 64 ''negative reserve capacity %lld'' [ArgI64 i] line col = Panic m line col"
  by (simp_all add: insert_oob_def index_oob_def rt_panic_def rt_vformat_def ll_spec_def)

lemma bumped_trans: "same_shape a b \<Longrightarrow> l_count b = l_count a \<Longrightarrow> bumped b what c \<Longrightarrow> bumped a what c"
  by (simp add: bumped_def same_shape_def)

lemma grow_push_result:
  fixes line col :: int and e :: elem and eff :: "effect list" and what i :: nat
  assumes "list_ok l" "alloc_law alloc"
  defines "r \<equiv> rt_bind (if l_len l = l_cap l
       then list_backing_grow alloc l (int (l_cap l) * 2) (list_stride l) line col else Ok l) (\<lambda>l.
     rt_bind (store_cell l (l_len l) e) (\<lambda>l.
     Ok (list_changed (l\<lparr>l_len := l_len l + 1\<rparr>) what, eff)))"
  shows "r = out_of_memory line col \<or>
    (\<exists>l'. r = Ok (l', eff) \<and> list_ok l' \<and> live l' = live l @ [e] \<and> bumped l what l')"
  using make_room [OF assms(1,2), of line col]
proof (elim disjE exE conjE, goal_cases)
  case 1
  then show ?case by (simp add: r_def out_of_memory_def)
next
  case (2 m)
  then show ?case
    using store_push [of m e what eff] bumped_trans [of l m what] by (auto simp: r_def)
qed

lemma grow_insert_result:
  fixes line col :: int and e :: elem and eff :: "effect list" and what i :: nat
  assumes "list_ok l" "alloc_law alloc" "i \<le> l_len l"
  defines "r \<equiv> rt_bind (if l_len l = l_cap l
       then list_backing_grow alloc l (int (l_cap l) * 2) (list_stride l) line col else Ok l) (\<lambda>l.
     rt_bind (move_cells l (i + 1) i (l_len l - i)) (\<lambda>l. rt_bind (store_cell l i e) (\<lambda>l.
     Ok (list_changed (l\<lparr>l_len := l_len l + 1\<rparr>) what, eff))))"
  shows "r = out_of_memory line col \<or>
    (\<exists>l'. r = Ok (l', eff) \<and> list_ok l' \<and> live l' = take i (live l) @ e # drop i (live l) \<and>
      bumped l what l')"
  using make_room [OF assms(1,2), of line col]
proof (elim disjE exE conjE, goal_cases)
  case 1
  then show ?case by (simp add: r_def out_of_memory_def)
next
  case (2 m)
  then show ?case
    using store_insert [of m i e what eff] bumped_trans [of l m what] assms(3) by (auto simp: r_def)
qed

lemma step_meets_cases:
  assumes "narrow_ok w l"
    and "r = out_of_memory line col \<or> (\<exists>l' x. r = Ok (l', x) \<and> list_ok l' \<and> bumped l what l' \<and> s = Some (live l', x))"
  shows "step_meets (narrow_ok w) r s"
  using assms narrow_ok_shape [of w l]
  by (auto simp: step_meets_def bumped_def out_of_memory_def oom_text_def)

lemma step_meets_refused: "\<exists>m. r = Panic m line col \<Longrightarrow> step_meets ok r None"
  by (auto simp: step_meets_def)

lemma remove_meets:
  assumes "narrow_ok w l"
  shows "step_meets (narrow_ok w) (rt_bind (beans_list_remove l i 0 0) (\<lambda>(l, e). Ok (l, Some e)))
    (seq_spec emb (live l) (Remove i))"
proof (cases "0 \<le> i \<and> i < int (l_len l)")
  case True
  have ok: "list_ok l" using assms by (simp add: narrow_ok_def)
  have i: "nat i < l_len l" using True by auto
  show ?thesis
    using cut_remove [OF ok i, of LIST_CHANGE_REMOVE "live l ! nat i"] True length_live [OF ok]
    by (intro step_meets_cases [OF assms, where what = LIST_CHANGE_REMOVE and line = 0 and col = 0] disjI2)
       (auto simp: beans_list_remove_def)
next
  case False
  moreover obtain m where "(index_oob l i 0 0 :: (blist \<times> elem) rt) = Panic m 0 0"
    using oob_panics(2) by blast
  ultimately show ?thesis
    using assms length_live [of l]
    by (auto simp: beans_list_remove_def narrow_ok_def step_meets_def)
qed

lemma insert_typed_meets:
  assumes "narrow_ok w l" "alloc_law alloc"
  shows "step_meets (narrow_ok w) (rt_bind (beans_list_insert_typed alloc l i e 0 0) (\<lambda>(l, _). Ok (l, None)))
    (seq_spec id (live l) (Insert i e))"
proof (cases "0 \<le> i \<and> i \<le> int (l_len l)")
  case True
  have ok: "list_ok l" using assms by (simp add: narrow_ok_def)
  have i: "nat i \<le> l_len l" using True by auto
  show ?thesis
    using grow_insert_result [OF ok assms(2) i, of 0 0 e LIST_CHANGE_INSERT "cc_write_typed e (l_mask l)"]
      True length_live [OF ok]
    by (intro step_meets_cases [OF assms(1), where what = LIST_CHANGE_INSERT and line = 0 and col = 0])
       (auto simp: beans_list_insert_typed_def Let_def out_of_memory_def)
next
  case False
  moreover obtain m where "(insert_oob l i 0 0 :: blist leff) = Panic m 0 0"
    using oob_panics(1) by blast
  ultimately show ?thesis
    using assms length_live [of l]
    by (auto simp: beans_list_insert_typed_def narrow_ok_def step_meets_def)
qed

text \<open>The generic operations are the typed ones on one-word elements, up to the barrier calls.\<close>

lemma generic_insert_typed:
  assumes "list_stride l = 8"
  shows "rt_bind (beans_list_insert alloc l i v line col) (\<lambda>(l, _). Ok (l, x)) =
    rt_bind (beans_list_insert_typed alloc l i [v] line col) (\<lambda>(l, _). Ok (l, x))"
  using assms by (simp add: beans_list_insert_def beans_list_insert_typed_def insert_oob_def rt_panic_def
      Let_def rt_bind_assoc split: prod.splits)

lemma push_typed_meets:
  assumes "narrow_ok w l" "alloc_law alloc"
  shows "step_meets (narrow_ok w) (rt_bind (beans_list_push_typed alloc l e) (\<lambda>(l, _). Ok (l, None)))
    (Some (live l @ [e], None))"
  using grow_push_result [of l alloc 0 0 e LIST_CHANGE_PUSH "cc_write_typed e (l_mask l)"] assms
  by (intro step_meets_cases [OF assms(1), where what = LIST_CHANGE_PUSH and line = 0 and col = 0])
     (auto simp: beans_list_push_typed_def Let_def out_of_memory_def narrow_ok_def)

lemma generic_push_typed:
  "rt_bind (beans_list_push alloc l v) (\<lambda>(l, _). Ok (l, x)) =
   rt_bind (beans_list_push_typed alloc l [v]) (\<lambda>(l, _). Ok (l, x))"
  by (simp add: beans_list_push_def beans_list_push_typed_def Let_def rt_bind_assoc)

lemma reverse_meets:
  assumes "narrow_ok w l"
  shows "step_meets (narrow_ok w) (rt_bind (beans_list_reverse alloc l) (\<lambda>l. Ok (l, None)))
    (Some (rev (live l), None))"
proof -
  have "list_ok l" using assms by (simp add: narrow_ok_def)
  from beans_list_reverse_live [OF this, of alloc] show ?thesis
  proof (elim disjE exE conjE)
    assume "beans_list_reverse alloc l = out_of_memory 0 0"
    then show ?thesis by simp
  next
    fix l' assume l': "beans_list_reverse alloc l = Ok l'" "list_ok l'" "live l' = rev (live l)"
      "if l_len l > 1 then bumped l LIST_CHANGE_REVERSE l' else l' = l"
    then have "narrow_ok w l'"
      using narrow_ok_shape [OF assms, of l'] assms by (auto simp: bumped_def split: if_splits)
    with l' show ?thesis by (simp add: step_meets_def)
  qed
qed

lemma clear_meets:
  assumes "narrow_ok w l"
  shows "step_meets (narrow_ok w) (rt_bind (beans_list_clear (\<lambda>_ l. l) l) (\<lambda>(l, _). Ok (l, None)))
    (Some ([], None))"
proof (cases "l_mask l = 0")
  case True
  then show ?thesis using assms
    by (auto simp: beans_list_clear_def Let_def step_meets_def list_changed_def narrow_ok_def
      list_ok_def live_def)
next
  case False
  have ok: "list_ok l" using assms by (simp add: narrow_ok_def)
  from beans_list_clear_plain [OF this False] obtain l' eff where l': "beans_list_clear (\<lambda>_ l. l) l = Ok (l', eff)"
    "list_ok l'" "live l' = []" "same_shape l l'" by blast
  with narrow_ok_shape [OF assms] show ?thesis by (simp add: step_meets_def)
qed

lemma reserve_meets:
  assumes "narrow_ok w l" "alloc_law alloc" "w \<le> 32"
  shows "step_meets (narrow_ok w) (rt_bind (beans_list_reserve alloc l n 0 0) (\<lambda>l. Ok (l, None)))
    (seq_spec emb (live l) (Reserve n))"
proof (cases "0 \<le> n \<and> n \<le> 2 ^ 58")
  case True
  have "list_ok l" "list_stride l \<le> 32" using assms by (auto simp: narrow_ok_def)
  from beans_list_reserve_live [OF this(1) assms(2) this(2), of n 0 0] True
  consider "beans_list_reserve alloc l n 0 0 = out_of_memory 0 0"
    | l' where "beans_list_reserve alloc l n 0 0 = Ok l'" "list_ok l'" "live l' = live l" "same_shape l l'"
    by blast
  then show ?thesis
  proof cases
    case (2 l')
    with True narrow_ok_shape [OF assms(1), of l'] show ?thesis by (simp add: step_meets_def)
  qed simp
next
  case False
  moreover obtain m where "(rt_panic 64 ''negative reserve capacity %lld'' [ArgI64 n] 0 0 :: blist rt) = Panic m 0 0"
    using oob_panics(3) by blast
  ultimately show ?thesis by (auto simp: beans_list_reserve_def step_meets_def)
qed

lemma typed_step_meets:
  assumes "narrow_ok w l" "alloc_law alloc" "w \<le> 32"
  shows "step_meets (narrow_ok w) (typed_list_step alloc l c) (seq_spec id (live l) c)"
proof (cases c)
  case (Remove i)
  have "beans_list_remove_typed l i 0 0 = beans_list_remove l i 0 0"
    by (simp add: beans_list_remove_typed_def beans_list_remove_def)
  with Remove remove_meets [OF assms(1), of i id] show ?thesis by simp
qed (use assms push_typed_meets insert_typed_meets reverse_meets clear_meets reserve_meets in simp_all)

lemma generic_step_typed:
  assumes "list_stride l = 8"
  shows "generic_list_step alloc l c = typed_list_step alloc l (map_list_cmd (\<lambda>v. [v]) c)"
  using assms
  by (cases c) (simp_all add: generic_push_typed generic_insert_typed beans_list_remove_typed_def
      beans_list_remove_def)

lemma seq_spec_map: "seq_spec (\<lambda>v. [v]) xs c = seq_spec id xs (map_list_cmd (\<lambda>v. [v]) c)"
  by (cases c) simp_all

lemma generic_step_meets:
  assumes "narrow_ok 8 l" "alloc_law alloc"
  shows "step_meets (narrow_ok 8) (generic_list_step alloc l c) (seq_spec (\<lambda>v. [v]) (live l) c)"
  using typed_step_meets [OF assms, of "map_list_cmd (\<lambda>v. [v]) c"] assms(1)
  by (simp add: generic_step_typed seq_spec_map narrow_ok_def)

text \<open>The allocator that never grants \<open>2 ^ 62\<close> bytes or more, in the form the locales take.\<close>

locale lawful_alloc =
  fixes alloc :: "u64 \<Rightarrow> bool"
  assumes law: "alloc_law alloc"

locale narrow_elements = lawful_alloc +
  fixes w :: int
  assumes narrow: "w \<le> 32"

sublocale lawful_alloc \<subseteq> generic_list:
  rt_refinement "generic_list_step alloc" "narrow_ok 8" live "seq_spec (\<lambda>v. [v])" oom_text "\<lambda>_. True"
  using generic_step_meets [OF _ law]
  by unfold_locales (fastforce simp: step_meets_def split: rt.splits)+

sublocale narrow_elements \<subseteq> typed_list:
  rt_refinement "typed_list_step alloc" "narrow_ok w" live "seq_spec id" oom_text "\<lambda>_. True"
  using typed_step_meets [OF _ law narrow]
  by unfold_locales (fastforce simp: step_meets_def split: rt.splits)+

context lawful_alloc
begin

lemma generic_program:
  assumes "narrow_ok 8 l"
  shows "case rt_run (generic_list_step alloc) l cs of
      Ok (l', outs) \<Rightarrow> narrow_ok 8 l' \<and> opt_run (seq_spec (\<lambda>v. [v])) (live l) cs = Some (live l', outs)
    | Panic m _ _ \<Rightarrow> oom_text m \<or> opt_run (seq_spec (\<lambda>v. [v])) (live l) cs = None
    | Fault \<Rightarrow> False"
  using generic_list.run_program [OF assms] by (simp add: list.pred_True)

end

context narrow_elements
begin

lemma typed_program:
  assumes "narrow_ok w l"
  shows "case rt_run (typed_list_step alloc) l cs of
      Ok (l', outs) \<Rightarrow> narrow_ok w l' \<and> opt_run (seq_spec id) (live l) cs = Some (live l', outs)
    | Panic m _ _ \<Rightarrow> oom_text m \<or> opt_run (seq_spec id) (live l) cs = None
    | Fault \<Rightarrow> False"
  using typed_list.run_program [OF assms] by (simp add: list.pred_True)

end

text \<open>An allocator bounded by the 47-bit user address space of the 64-bit targets.\<close>

definition address_space_alloc :: "u64 \<Rightarrow> bool" where
  "address_space_alloc b \<longleftrightarrow> unat b < 2 ^ 47"

lemma address_space_alloc_law: "alloc_law address_space_alloc"
  by (simp add: alloc_law_def address_space_alloc_def)

interpretation host: narrow_elements address_space_alloc 32
  by unfold_locales (simp_all add: address_space_alloc_law)

section \<open>Searching\<close>

text \<open>The slots a reader sees, one per live element.\<close>

definition slot_of_elem :: "blist \<Rightarrow> elem \<Rightarrow> slot" where
  "slot_of_elem l e = (if l_stride l = 4 then ucast (ucast (hd e) :: u32) else hd e)"

definition slots :: "blist \<Rightarrow> slot list" where
  "slots l = map (slot_of_elem l) (live l)"

definition readable :: "blist \<Rightarrow> bool" where
  "readable l \<longleftrightarrow> list_ok l \<and> [] \<notin> set (live l)"

lemma length_slots: "readable l \<Longrightarrow> length (slots l) = l_len l"
  by (simp add: slots_def readable_def length_live)

lemma list_slot_at_slots: "readable l \<Longrightarrow> i < l_len l \<Longrightarrow> list_slot_at l i = Ok (slots l ! i)"
proof -
  assume r: "readable l" and i: "i < l_len l"
  then have len: "l_len l \<le> length (l_buf l)" by (simp add: readable_def list_ok_def)
  then have "live l ! i = l_buf l ! i" "i < length (live l)" using i by (simp_all add: live_def)
  moreover from this r have "l_buf l ! i \<noteq> []" by (metis nth_mem readable_def)
  ultimately show ?thesis
    using i len by (auto simp: list_slot_at_def load_cell_def slots_def slot_of_elem_def split: list.splits)
qed

lemma index_loop_first:
  assumes "readable l"
  shows "\<exists>r. index_loop env l v kind i = Ok r \<and>
    (case r of None \<Rightarrow> \<forall>k. i \<le> k \<and> k < l_len l \<longrightarrow> \<not> slot_eq env (slots l ! k) v kind
     | Some k \<Rightarrow> i \<le> k \<and> k < l_len l \<and> slot_eq env (slots l ! k) v kind \<and>
         (\<forall>j. i \<le> j \<and> j < k \<longrightarrow> \<not> slot_eq env (slots l ! j) v kind))"
proof (induction "l_len l - i" arbitrary: i)
  case 0
  then show ?case by (subst index_loop.simps) auto
next
  case (Suc n)
  then have i: "i < l_len l" by simp
  show ?case
  proof (cases "slot_eq env (slots l ! i) v kind")
    case True
    then show ?thesis using i list_slot_at_slots [OF assms i] by (subst index_loop.simps) auto
  next
    case False
    have "n = l_len l - (i + 1)" using Suc.hyps(2) by simp
    from Suc.hyps(1) [OF this] obtain r where r: "index_loop env l v kind (i + 1) = Ok r"
      "case r of None \<Rightarrow> \<forall>k. i + 1 \<le> k \<and> k < l_len l \<longrightarrow> \<not> slot_eq env (slots l ! k) v kind
       | Some k \<Rightarrow> i + 1 \<le> k \<and> k < l_len l \<and> slot_eq env (slots l ! k) v kind \<and>
         (\<forall>j. i + 1 \<le> j \<and> j < k \<longrightarrow> \<not> slot_eq env (slots l ! j) v kind)" by blast
    have "index_loop env l v kind i = Ok r"
      using i False r(1) list_slot_at_slots [OF assms i] by (subst index_loop.simps) simp
    moreover have "i \<le> k \<Longrightarrow> k = i \<or> i + 1 \<le> k" for k by auto
    ultimately show ?thesis using r(2) False by (fastforce split: option.splits)
  qed
qed

section \<open>Properties\<close>


definition demo_list :: blist where
  "demo_list = \<lparr>l_buf = replicate 4 [], l_inline = True, l_len = 0, l_cap = 4, l_stride = -8,
     l_mask = 0, l_count = 0, l_kind = 0\<rparr>"

lemma demo_list_ok: "list_ok demo_list" "list_stride demo_list = 8" "live demo_list = []"
  by (simp_all add: demo_list_def list_ok_def list_stride_def live_def)


text \<open>The same for a list of inline elements of up to 32 bytes, whose operations move
  whole elements by the list's stride.\<close>

theorem typed_list_refines_sequence:
  assumes "alloc_law alloc" "list_ok l" "list_stride l \<le> 32"
  shows "case rt_run (typed_list_step alloc) l cs of
      Ok (l', outs) \<Rightarrow> list_ok l' \<and> opt_run (seq_spec id) (live l) cs = Some (live l', outs)
    | Panic m _ _ \<Rightarrow> m = asc ''out of memory'' \<or> opt_run (seq_spec id) (live l) cs = None
    | Fault \<Rightarrow> False"
proof -
  have loc: "narrow_elements alloc (list_stride l)"
    using assms by (simp add: narrow_elements_def narrow_elements_axioms_def lawful_alloc_def)
  have "narrow_ok (list_stride l) l" using assms by (simp add: narrow_ok_def)
  from narrow_elements.typed_program [OF loc this, of cs]
  show ?thesis by (auto simp: oom_text_def narrow_ok_def split: rt.splits)
qed

definition demo_wide_list :: blist where
  "demo_wide_list = demo_list\<lparr>l_stride := 16\<rparr>"

lemma demo_wide_list_ok: "list_ok demo_wide_list" "list_stride demo_wide_list \<le> 32" "live demo_wide_list = []"
  by (simp_all add: demo_list_def demo_wide_list_def list_ok_def list_stride_def live_def)

theorem typed_list_refines_sequence_witness:
  "case rt_run (typed_list_step address_space_alloc) demo_wide_list [Push [3, 4], Insert 0 [5, 6], Remove 1] of
      Ok (l', outs) \<Rightarrow> live l' = [[5, 6]] \<and> outs = [None, None, Some [3, 4]]
    | Panic m _ _ \<Rightarrow> m = asc ''out of memory'' | Fault \<Rightarrow> False"
  using typed_list_refines_sequence [OF address_space_alloc_law demo_wide_list_ok(1,2),
      of "[Push [3, 4], Insert 0 [5, 6], Remove 1]"]
  by (auto simp: demo_wide_list_ok(3) split: rt.splits)

text \<open>The ceiling of \<^verbatim>\<open>beans_list_reserve\<close> does not bound the byte count: on a list of 64-byte
  elements a reservation of \<open>2 ^ 58\<close> elements passes the guard, its byte count wraps to 0, and an
  allocator that answers such a request leaves the header claiming \<open>2 ^ 58\<close> cells over a backing
  that has none.\<close>

theorem reserve_byte_count_wraps:
  assumes "list_ok l" "l_stride l = 64" "\<not> l_inline l" "alloc 0" "l_cap l = 4"
  shows "\<exists>l'. beans_list_reserve alloc l (2 ^ 58) line col = Ok l' \<and> l_cap l' = 2 ^ 58 \<and> l_buf l' = []"
proof -
  have "reserve_double 4 (2 ^ 58) = Some (2 ^ 58)"
    by (simp add: reserve_double.simps)
  moreover have "list_stride l = 64" using assms by (simp add: list_stride_def)
  moreover have "(of_int (2 ^ 58) * of_int 64 :: u64) = 0" by simp
  ultimately have "list_backing_grow alloc l (2 ^ 58) (list_stride l) line col =
      Ok (l\<lparr>l_buf := [], l_cap := 2 ^ 58\<rparr>)"
    unfolding list_backing_grow_def Let_def using assms
    by (simp only: cells_of_def) (simp add: nat_power_eq)
  with \<open>reserve_double 4 (2 ^ 58) = Some (2 ^ 58)\<close> assms show ?thesis
    by (simp add: beans_list_reserve_def)
qed

theorem reserve_byte_count_wraps_witness:
  "\<exists>l'. beans_list_reserve (\<lambda>b. unat b < 2 ^ 47) (demo_list\<lparr>l_stride := 64, l_inline := False\<rparr>) (2 ^ 58) 1 1 = Ok l' \<and>
     l_cap l' = 2 ^ 58 \<and> l_buf l' = []"
  by (rule reserve_byte_count_wraps) (simp_all add: demo_list_def list_ok_def list_stride_def)

text \<open>A slice copies exactly the elements of its range, in order, into a list of the same
  representation, and retains every owned child of the copied elements once, in order; it fails
  only for lack of memory. A clone is the slice of the whole list.\<close>

theorem slice_copies_and_retains:
  assumes "list_ok l" "0 \<le> a" "a \<le> b" "b \<le> int (l_len l)"
  shows "(beans_list_slice alloc l a b line col = out_of_memory line col \<or>
     (\<exists>r. beans_list_slice alloc l a b line col =
          Ok (r, concat (map (\<lambda>e. map Retain (masked_children e (l_mask l) (l_stride l < 0)))
                   (sub_range (live l) (nat a) (nat b)))) \<and>
        list_ok r \<and> live r = sub_range (live l) (nat a) (nat b) \<and>
        l_stride r = l_stride l \<and> l_mask r = l_mask l)) \<and>
     beans_list_clone alloc l = beans_list_slice alloc l 0 (int (l_len l)) 0 0"
proof -
  have none: "concat (map (\<lambda>e. map Retain (masked_children e 0 f)) xs) = []" for f xs
    by (simp add: masked_children_def)
  show ?thesis
    using beans_list_slice_live [OF assms, of alloc line col] beans_list_clone_slice [OF assms(1), of alloc]
    by (auto simp: list_retain_element_def [abs_def] same_shape_def none split: if_splits)
qed

theorem slice_copies_and_retains_witness:
  "case beans_list_slice address_space_alloc (demo_list\<lparr>l_buf := [[3], [4], [5], []], l_len := 3, l_mask := 1\<rparr>) 1 3 0 0 of
     Ok (r, eff) \<Rightarrow> live r = [[4], [5]] \<and> eff = [Retain 4, Retain 5]
   | Panic m _ _ \<Rightarrow> m = asc ''out of memory'' | Fault \<Rightarrow> False"
proof -
  let ?l = "demo_list\<lparr>l_buf := [[3], [4], [5], []], l_len := 3, l_mask := 1\<rparr>"
  have "list_ok ?l" by (simp add: demo_list_def list_ok_def list_stride_def)
  moreover have "sub_range (live ?l) (nat 1) (nat 3) = [[4], [5]]"
    by (simp add: live_def sub_range_def demo_list_def)
  moreover have "concat (map (\<lambda>e. map Retain (masked_children e (l_mask ?l) (l_stride ?l < 0))) [[4], [5]])
      = [Retain 4, Retain 5]" by code_simp
  ultimately show ?thesis
    using slice_copies_and_retains [of ?l 1 3 address_space_alloc 0 0]
    by (auto simp: out_of_memory_def demo_list_def split: rt.splits)
qed


definition demo_owned_list :: blist where
  "demo_owned_list = demo_list\<lparr>l_buf := [[3], [4], [5], []], l_len := 3, l_mask := 1\<rparr>"

lemma demo_owned_list_ok: "list_ok demo_owned_list" "l_mask demo_owned_list \<noteq> 0"
  by (simp_all add: demo_owned_list_def demo_list_def list_ok_def list_stride_def)


definition push_and_remove :: "effect list \<Rightarrow> blist \<Rightarrow> blist" where
  "push_and_remove eff l =
     (if eff = [Release 5] then
        (case beans_list_push address_space_alloc l 9 of
           Ok (l1, _) \<Rightarrow> (case beans_list_remove l1 0 0 0 of Ok (l2, _) \<Rightarrow> l2 | _ \<Rightarrow> l1)
         | _ \<Rightarrow> l)
      else l)"

text \<open>A release that pushes an element and removes it again defeats the walk: the list is empty
  again, so the walk goes on, releases the element the removal handed to its caller, and never
  releases the element whose cell was overwritten.\<close>

theorem clear_reentry_releases_moved_element:
  "\<exists>l'. beans_list_clear push_and_remove demo_owned_list = Ok (l', [Release 5, Release 4, Release 9]) \<and>
     live l' = []"
proof -
  have "beans_list_clear push_and_remove demo_owned_list =
      Ok (demo_owned_list\<lparr>l_buf := [[9], [4], [5], []], l_len := 0, l_count := 3, l_kind := 4\<rparr>,
        [Release 5, Release 4, Release 9])"
    by code_simp
  then show ?thesis by (simp add: live_def)
qed

text \<open>\<^verbatim>\<open>beans_list_index\<close> answers the first position whose slot equals the argument under the
  element kind, and 0 with the not-found flag when there is none; \<^verbatim>\<open>beans_list_contains\<close> agrees
  with it.\<close>

theorem list_index_is_first:
  assumes "readable l"
  shows "(\<exists>k < l_len l. beans_list_index env l v kind = Ok (True, k) \<and> beans_list_contains env l v kind = Ok True \<and>
       slot_eq env (slots l ! k) v kind \<and> (\<forall>j<k. \<not> slot_eq env (slots l ! j) v kind)) \<or>
    beans_list_index env l v kind = Ok (False, 0) \<and> beans_list_contains env l v kind = Ok False \<and>
       (\<forall>j < l_len l. \<not> slot_eq env (slots l ! j) v kind)"
proof -
  obtain r where "index_loop env l v kind 0 = Ok r"
    "case r of None \<Rightarrow> \<forall>k. 0 \<le> k \<and> k < l_len l \<longrightarrow> \<not> slot_eq env (slots l ! k) v kind
     | Some k \<Rightarrow> 0 \<le> k \<and> k < l_len l \<and> slot_eq env (slots l ! k) v kind \<and>
         (\<forall>j. 0 \<le> j \<and> j < k \<longrightarrow> \<not> slot_eq env (slots l ! j) v kind)"
    using index_loop_first [OF assms, of env v kind 0] by blast
  then show ?thesis
    by (cases r) (auto simp: beans_list_index_def beans_list_contains_def)
qed

theorem list_index_is_first_witness:
  "beans_list_index plain_env demo_owned_list 4 0 = Ok (True, 1)"
proof -
  have r: "readable demo_owned_list"
    by (simp add: readable_def demo_owned_list_ok) (simp add: demo_owned_list_def demo_list_def live_def)
  have s: "slots demo_owned_list = [3, 4, 5]" "l_len demo_owned_list = 3"
    by (simp_all add: slots_def slot_of_elem_def demo_owned_list_def demo_list_def live_def)
  from list_index_is_first [OF r, of plain_env 4 0] show ?thesis
    unfolding s by (auto simp: slot_eq_def less_Suc_eq numeral_3_eq_3 all_conj_distrib)
qed

end
