(* ===== verification/Rt_Sort.thy ===== *)
theory Rt_Sort
  imports Rt_Lists "HOL-Library.Multiset"
begin

text \<open>
  Sorting: the bottom-up merge used for comparators and ordered kinds, the sixteen-bit radix sort
  used for plain integers, and sorting by an integer key, which picks one of the two by size.

  The array is the list's slots. A comparator is a function to \<^typ>\<open>bool rt\<close>: it may panic, and so
  may the built-in order on a kind it does not know. Comparators that change the list while it is
  sorted are refused by the code (\<^verbatim>\<open>rt_sort_check\<close>) and are not expressible here.
\<close>

unbundle bit_operations_syntax

section \<open>Bottom-up merge\<close>

definition sort_less :: "slot_env \<Rightarrow> (slot \<Rightarrow> slot \<Rightarrow> bool rt) option \<Rightarrow> int \<Rightarrow> slot \<Rightarrow> slot \<Rightarrow> bool rt" where
  "sort_less env thunk kind x y =
     (case thunk of Some f \<Rightarrow> f x y | None \<Rightarrow> rt_bind (slot_cmp env x y kind) (\<lambda>c. Ok (c < 0)))"

text \<open>The bytes written to \<open>buf[lo..hi)\<close> by one merge of \<open>a[i..mid)\<close> and \<open>a[j..hi)\<close>.\<close>

function merge_run :: "('a \<Rightarrow> 'a \<Rightarrow> bool rt) \<Rightarrow> 'a list \<Rightarrow> nat \<Rightarrow> nat \<Rightarrow> nat \<Rightarrow> nat \<Rightarrow> 'a list rt" where
  "merge_run lt a i mid j hi =
     (if i < mid \<and> j < hi then
        rt_bind (lt (a ! j) (a ! i)) (\<lambda>right.
          if \<not> right then rt_bind (merge_run lt a (i + 1) mid j hi) (\<lambda>r. Ok (a ! i # r))
          else rt_bind (merge_run lt a i mid (j + 1) hi) (\<lambda>r. Ok (a ! j # r)))
      else Ok (sub_range a i mid @ sub_range a j hi))"
  by pat_completeness auto

termination merge_run
  by (relation "measure (\<lambda>(lt, a, i, mid, j, hi). (mid - i) + (hi - j))") auto

declare merge_run.simps [simp del]

text \<open>
  One pass over all pairs of blocks of width \<open>w\<close>. The width starts at 1 and only doubles, so the
  test \<open>0 < w\<close> always holds.
\<close>

function merge_blocks :: "('a \<Rightarrow> 'a \<Rightarrow> bool rt) \<Rightarrow> 'a list \<Rightarrow> nat \<Rightarrow> nat \<Rightarrow> nat \<Rightarrow> 'a list rt" where
  "merge_blocks lt a n w lo =
     (if lo < n \<and> 0 < w then
        let mid = (if lo + w < n then lo + w else n);
            hi = (if lo + 2 * w < n then lo + 2 * w else n) in
        if mid \<ge> hi then merge_blocks lt a n w (lo + 2 * w)
        else rt_bind (merge_run lt a lo mid mid hi) (\<lambda>buf.
               merge_blocks lt (take lo a @ buf @ drop hi a) n w (lo + 2 * w))
      else Ok a)"
  by pat_completeness auto

termination merge_blocks
  by (relation "measure (\<lambda>(lt, a, n, w, lo). n - lo)") auto

declare merge_blocks.simps [simp del]

function merge_widths :: "('a \<Rightarrow> 'a \<Rightarrow> bool rt) \<Rightarrow> 'a list \<Rightarrow> nat \<Rightarrow> nat \<Rightarrow> 'a list rt" where
  "merge_widths lt a n w =
     (if w < n \<and> 0 < w
      then rt_bind (merge_blocks lt a n w 0) (\<lambda>a. merge_widths lt a n (2 * w)) else Ok a)"
  by pat_completeness auto

termination merge_widths
  by (relation "measure (\<lambda>(lt, a, n, w). n - w)") auto

declare merge_widths.simps [simp del]

text \<open>The scratch buffer of the merge is not checked: a refused allocation is written through.\<close>

definition list_merge_sort ::
    "(u64 \<Rightarrow> bool) \<Rightarrow> (slot \<Rightarrow> slot \<Rightarrow> bool rt) \<Rightarrow> slot list \<Rightarrow> slot list rt" where
  "list_merge_sort alloc lt a =
     (let n = length a in
      if n < 2 then Ok a
      else if \<not> alloc (of_nat n * 8) then Fault
      else merge_widths lt a n 1)"

section \<open>Radix sort\<close>

abbreviation (input) BUCKETS :: nat where "BUCKETS \<equiv> 65536"

fun minimum_of :: "int \<Rightarrow> slot list \<Rightarrow> int" where
  "minimum_of m [] = m"
| "minimum_of m (x # xs) = minimum_of (if sint x < m then sint x else m) xs"

fun maximum_of :: "int \<Rightarrow> slot list \<Rightarrow> int" where
  "maximum_of m [] = m"
| "maximum_of m (x # xs) = maximum_of (if sint x > m then sint x else m) xs"

definition radix_passes :: "u64 \<Rightarrow> nat" where
  "radix_passes span = (if span \<le> 0xffff then 1 else if span \<le> 0xffffffff then 2 else 4)"

text \<open>The bucket of a key in the pass with this shift.\<close>

definition bucket :: "slot \<Rightarrow> nat \<Rightarrow> slot \<Rightarrow> nat" where
  "bucket minimum shift key = unat ((drop_bit shift (key - minimum)) AND 65535)"

fun count_keys :: "('a \<Rightarrow> nat) \<Rightarrow> 'a list \<Rightarrow> nat list \<Rightarrow> nat list" where
  "count_keys d [] cnt = cnt"
| "count_keys d (x # xs) cnt = count_keys d xs (cnt[d x := cnt ! d x + 1])"

fun prefix_sums :: "nat \<Rightarrow> nat list \<Rightarrow> nat list" where
  "prefix_sums acc [] = []"
| "prefix_sums acc (c # cs) = acc # prefix_sums (acc + c) cs"

fun scatter :: "('a \<Rightarrow> nat) \<Rightarrow> 'a list \<Rightarrow> nat list \<Rightarrow> 'a list \<Rightarrow> 'a list" where
  "scatter d [] at dst = dst"
| "scatter d (x # xs) at dst = scatter d xs (at[d x := at ! d x + 1]) (dst[at ! d x := x])"

definition radix_pass :: "('a \<Rightarrow> nat) \<Rightarrow> 'a list \<Rightarrow> 'a list \<Rightarrow> 'a list" where
  "radix_pass d src dst =
     scatter d src (prefix_sums 0 (count_keys d src (replicate BUCKETS 0))) dst"

text \<open>\<open>src\<close> and \<open>dst\<close> swap after every pass.\<close>

fun radix_loop :: "(nat \<Rightarrow> 'a \<Rightarrow> nat) \<Rightarrow> nat \<Rightarrow> nat \<Rightarrow> 'a list \<Rightarrow> 'a list \<Rightarrow> 'a list" where
  "radix_loop d pass 0 src dst = src"
| "radix_loop d pass (Suc k) src dst =
     radix_loop d (pass + 1) k (radix_pass (d (pass * 16)) src dst) src"

definition list_radix_sort_int :: "(u64 \<Rightarrow> bool) \<Rightarrow> slot list \<Rightarrow> slot list rt" where
  "list_radix_sort_int alloc a =
     (let n = length a in
      if n < 2 then Ok a
      else
        let minimum = minimum_of (sint (a ! 0)) (tl a);
            maximum = maximum_of (sint (a ! 0)) (tl a);
            span = of_int maximum - of_int minimum in
        if \<not> alloc (of_nat n * 8) \<or> \<not> alloc (of_nat BUCKETS * 8) then Fault
        else Ok (radix_loop (bucket (of_int minimum)) 0 (radix_passes span) a (replicate n 0)))"

section \<open>Sorting a list\<close>

fun list_widen_from :: "blist \<Rightarrow> nat \<Rightarrow> slot list rt" where
  "list_widen_from l 0 = Ok []"
| "list_widen_from l (Suc i) =
     rt_bind (list_widen_from l i) (\<lambda>ws. rt_bind (list_slot_at l i) (\<lambda>w. Ok (ws @ [w])))"

definition list_widen_slots :: "(u64 \<Rightarrow> bool) \<Rightarrow> blist \<Rightarrow> slot list rt" where
  "list_widen_slots alloc l =
     (if \<not> alloc (of_nat (if l_len l > 0 then l_len l else 1) * 8) then out_of_memory 0 0
      else list_widen_from l (l_len l))"

definition list_narrow_slots :: "blist \<Rightarrow> slot list \<Rightarrow> blist" where
  "list_narrow_slots l wide =
     l\<lparr>l_buf := map (\<lambda>v. [ucast (ucast v :: u32)]) (take (l_len l) wide) @ drop (l_len l) (l_buf l)\<rparr>"

text \<open>The eight-byte slots of the live cells, read and written in place.\<close>

definition put_slots :: "blist \<Rightarrow> slot list \<Rightarrow> blist" where
  "put_slots l a = l\<lparr>l_buf := map (\<lambda>v. [v]) a @ drop (length a) (l_buf l)\<rparr>"

definition sort_slots ::
    "(u64 \<Rightarrow> bool) \<Rightarrow> (slot list \<Rightarrow> slot list rt) \<Rightarrow> blist \<Rightarrow> blist rt" where
  "sort_slots alloc sorter l =
     (let l = (if l_len l > 1 then list_changed l LIST_CHANGE_SORT else l) in
      if l_stride l = 4 then
        rt_bind (list_widen_slots alloc l) (\<lambda>wide.
        rt_bind (sorter wide) (\<lambda>wide. Ok (list_narrow_slots l wide)))
      else
        rt_bind (list_widen_from l (l_len l)) (\<lambda>a.
        rt_bind (sorter a) (\<lambda>a. Ok (put_slots l a))))"

definition beans_list_sort :: "(u64 \<Rightarrow> bool) \<Rightarrow> slot_env \<Rightarrow> blist \<Rightarrow> int \<Rightarrow> blist rt" where
  "beans_list_sort alloc env l kind =
     sort_slots alloc
       (if kind = 0 then list_radix_sort_int alloc
        else list_merge_sort alloc (sort_less env None kind)) l"

definition beans_list_sort_by ::
    "(u64 \<Rightarrow> bool) \<Rightarrow> slot_env \<Rightarrow> blist \<Rightarrow> (slot \<Rightarrow> slot \<Rightarrow> bool rt) \<Rightarrow> blist rt" where
  "beans_list_sort_by alloc env l thunk =
     sort_slots alloc (list_merge_sort alloc (sort_less env (Some thunk) 0)) l"

section \<open>Sorting by key\<close>

fun keys_of :: "('a \<Rightarrow> slot rt) \<Rightarrow> 'a list \<Rightarrow> slot list rt" where
  "keys_of key_fn [] = Ok []"
| "keys_of key_fn (v # vs) =
     rt_bind (key_fn v) (\<lambda>k. rt_bind (keys_of key_fn vs) (\<lambda>ks. Ok (k # ks)))"

text \<open>
  Keys and values move together, so the two arrays are one array of pairs. Small inputs take the
  merge, large ones the radix passes; every buffer is checked here.
\<close>

definition list_sort_by_key_slots ::
    "(u64 \<Rightarrow> bool) \<Rightarrow> (slot \<Rightarrow> slot rt) \<Rightarrow> slot list \<Rightarrow> slot list rt" where
  "list_sort_by_key_slots alloc key_fn a =
     (let n = length a in
      if n < 1 then Ok a
      else if \<not> alloc (of_nat n * 8) then out_of_memory 0 0
      else rt_bind (keys_of key_fn a) (\<lambda>keys.
        if n < 2 then Ok a
        else
          let minimum = minimum_of (sint (keys ! 0)) (tl keys);
              maximum = maximum_of (sint (keys ! 0)) (tl keys);
              passes = radix_passes (of_int maximum - of_int minimum);
              pairs = zip keys a in
          if passes * 4096 > n then
            rt_bind (merge_widths (\<lambda>x y. Ok (sint (fst x) < sint (fst y))) pairs n 1)
              (\<lambda>ps. Ok (map snd ps))
          else if \<not> alloc (of_nat BUCKETS * 8) then out_of_memory 0 0
          else Ok (map snd (radix_loop (\<lambda>shift p. bucket (of_int minimum) shift (fst p)) 0 passes pairs
                  (replicate n (0, 0))))))"

definition beans_list_sort_by_key ::
    "(u64 \<Rightarrow> bool) \<Rightarrow> blist \<Rightarrow> (slot \<Rightarrow> slot rt) \<Rightarrow> blist rt" where
  "beans_list_sort_by_key alloc l key_fn =
     sort_slots alloc (list_sort_by_key_slots alloc key_fn) l"

section \<open>Stable merging\<close>

text \<open>A comparator that answers and is a strict weak order.\<close>

locale weak_order =
  fixes lt :: "'a \<Rightarrow> 'a \<Rightarrow> bool"
  assumes asym: "lt x y \<Longrightarrow> \<not> lt y x"
    and negtrans: "lt x z \<Longrightarrow> lt x y \<or> lt y z"
begin

definition le :: "'a \<Rightarrow> 'a \<Rightarrow> bool" where
  "le x y \<longleftrightarrow> \<not> lt y x"

definition tied :: "'a \<Rightarrow> 'a \<Rightarrow> bool" where
  "tied x y \<longleftrightarrow> le x y \<and> le y x"

lemma le_trans: "le x y \<Longrightarrow> le y z \<Longrightarrow> le x z"
  using negtrans by (auto simp: le_def)

lemma le_total: "le x y \<or> le y x"
  using asym by (auto simp: le_def)

fun merge_lists :: "'a list \<Rightarrow> 'a list \<Rightarrow> 'a list" where
  "merge_lists [] ys = ys"
| "merge_lists xs [] = xs"
| "merge_lists (x # xs) (y # ys) =
     (if \<not> lt y x then x # merge_lists xs (y # ys) else y # merge_lists (x # xs) ys)"

lemma merge_lists_Nil [simp]: "merge_lists xs [] = xs"
  by (cases xs) auto

lemma length_merge_lists: "length (merge_lists xs ys) = length xs + length ys"
  by (induction xs ys rule: merge_lists.induct) auto

lemma set_merge_lists: "set (merge_lists xs ys) = set xs \<union> set ys"
  by (induction xs ys rule: merge_lists.induct) auto

lemma mset_merge_lists: "mset (merge_lists xs ys) = mset xs + mset ys"
  by (induction xs ys rule: merge_lists.induct) auto

lemma merge_lists_sorted:
  "sorted_wrt le xs \<Longrightarrow> sorted_wrt le ys \<Longrightarrow> sorted_wrt le (merge_lists xs ys)"
proof (induction xs ys rule: merge_lists.induct)
  case (3 x xs y ys)
  show ?case
  proof (cases "lt y x")
    case True
    then have "le y x" using asym by (auto simp: le_def)
    then have "\<forall>z \<in> set (x # xs). le y z" using "3.prems" le_trans by auto
    with True "3.IH"(2) "3.prems" show ?thesis by (auto simp: set_merge_lists)
  next
    case False
    then have "le x y" by (simp add: le_def)
    then have "\<forall>z \<in> set (y # ys). le x z" using "3.prems" le_trans by auto
    with False "3.IH"(1) "3.prems" show ?thesis by (auto simp: set_merge_lists)
  qed
qed auto

lemma merge_lists_stable:
  assumes "sorted_wrt le xs" "sorted_wrt le ys"
  shows "filter (tied k) (merge_lists xs ys) = filter (tied k) xs @ filter (tied k) ys"
  using assms
proof (induction xs ys rule: merge_lists.induct)
  case (3 x xs y ys)
  show ?case
  proof (cases "lt y x")
    case True
    have "\<not> tied k z" if "tied k y" "z \<in> set (x # xs)" for z
    proof
      assume "tied k z"
      then have "le z y" using that(1) le_trans by (auto simp: tied_def)
      moreover have "le x z" using that(2) "3.prems"(1) le_total [of x x] by auto
      ultimately show False using True le_trans by (auto simp: le_def)
    qed
    then have "tied k y \<Longrightarrow> filter (tied k) (x # xs) = []" by (auto simp: filter_empty_conv)
    with True "3.IH"(2) "3.prems" show ?thesis by auto
  next
    case False
    with "3.IH"(1) "3.prems" show ?thesis by auto
  qed
qed auto

text \<open>One pass over blocks of width \<open>w\<close>, as a function on lists.\<close>

function pair_merge :: "nat \<Rightarrow> 'a list \<Rightarrow> 'a list" where
  "pair_merge w xs =
     (if xs = [] \<or> w = 0 then xs
      else merge_lists (take w xs) (take w (drop w xs)) @ pair_merge w (drop (2 * w) xs))"
  by pat_completeness auto

termination pair_merge
  by (relation "measure (\<lambda>(w, xs). length xs)") auto

declare pair_merge.simps [simp del]

function runs_sorted :: "nat \<Rightarrow> 'a list \<Rightarrow> bool" where
  "runs_sorted w xs \<longleftrightarrow>
     (if xs = [] \<or> w = 0 then True else sorted_wrt le (take w xs) \<and> runs_sorted w (drop w xs))"
  by pat_completeness auto

termination runs_sorted
  by (relation "measure (\<lambda>(w, xs). length xs)") auto

declare runs_sorted.simps [simp del]

lemma length_pair_merge: "length (pair_merge w xs) = length xs"
proof (induction w xs rule: pair_merge.induct)
  case (1 w xs)
  then show ?case by (subst pair_merge.simps) (simp add: length_merge_lists min_def)
qed

lemma runs_sorted_1: "runs_sorted (Suc 0) xs"
proof (induction xs)
  case (Cons x xs)
  then show ?case by (subst runs_sorted.simps) simp
qed (simp add: runs_sorted.simps)

lemma runs_sorted_all: "0 < w \<Longrightarrow> length xs \<le> w \<Longrightarrow> runs_sorted w xs \<Longrightarrow> sorted_wrt le xs"
  by (subst (asm) runs_sorted.simps) (auto split: if_splits)

lemma runs_sorted_drop: "runs_sorted w xs \<Longrightarrow> runs_sorted w (drop w xs)"
  by (cases "xs = [] \<or> w = 0") (auto simp: runs_sorted.simps [of w xs] runs_sorted.simps [of w "[]"] runs_sorted.simps [of 0 xs])

lemma runs_sorted_take: "runs_sorted w xs \<Longrightarrow> 0 < w \<Longrightarrow> sorted_wrt le (take w xs)"
  by (cases "xs = []") (auto simp: runs_sorted.simps [of w xs])

lemma pair_merge_runs:
  assumes "runs_sorted w xs" "0 < w"
  shows "runs_sorted (2 * w) (pair_merge w xs) \<and>
    (\<forall>k. filter (tied k) (pair_merge w xs) = filter (tied k) xs) \<and> mset (pair_merge w xs) = mset xs"
  using assms
proof (induction w xs rule: pair_merge.induct)
  case (1 w xs)
  show ?case
  proof (cases "xs = []")
    case True
    then show ?thesis by (simp add: pair_merge.simps runs_sorted.simps)
  next
    case False
    let ?m = "merge_lists (take w xs) (take w (drop w xs))"
    let ?rest = "drop (2 * w) xs"
    have pm: "pair_merge w xs = ?m @ pair_merge w ?rest"
      using False 1(3) by (subst pair_merge.simps) simp
    have dd: "drop w (drop w xs) = ?rest" by (simp add: mult_2)
    have sorted: "sorted_wrt le (take w xs)" "sorted_wrt le (take w (drop w xs))"
      using 1(2,3) runs_sorted_take runs_sorted_drop by blast+
    have IH: "runs_sorted (2 * w) (pair_merge w ?rest)"
      "\<And>k. filter (tied k) (pair_merge w ?rest) = filter (tied k) ?rest" "mset (pair_merge w ?rest) = mset ?rest"
      using 1(1) False 1(3) runs_sorted_drop [OF runs_sorted_drop [OF 1(2)]] dd by auto
    have xs: "xs = take w xs @ take w (drop w xs) @ ?rest"
      by (metis append_take_drop_id dd)
    have lm: "length ?m = min (2 * w) (length xs)" by (simp add: length_merge_lists)
    have "runs_sorted (2 * w) (?m @ pair_merge w ?rest)"
    proof (cases "2 * w \<le> length xs")
      case True
      then have "take (2 * w) (?m @ pair_merge w ?rest) = ?m" "drop (2 * w) (?m @ pair_merge w ?rest) = pair_merge w ?rest"
        using lm by auto
      then show ?thesis
        using merge_lists_sorted [OF sorted] IH(1) by (subst runs_sorted.simps) simp
    next
      case False
      then have "?rest = []" by simp
      then have "pair_merge w ?rest = []" by (simp add: pair_merge.simps)
      moreover have "take (2 * w) ?m = ?m" "drop (2 * w) ?m = []" using lm False by auto
      ultimately show ?thesis
        using merge_lists_sorted [OF sorted] by (subst runs_sorted.simps) (simp add: runs_sorted.simps)
    qed
    moreover have "filter (tied k) (?m @ pair_merge w ?rest) = filter (tied k) xs" for k
      using merge_lists_stable [OF sorted, of k] IH(2) [of k] arg_cong [OF xs, of "filter (tied k)"] by simp
    moreover have "mset (?m @ pair_merge w ?rest) = mset xs"
      using IH(3) arg_cong [OF xs, of mset] by (simp add: mset_merge_lists)
    ultimately show ?thesis using pm by simp
  qed
qed

text \<open>The index loops of the code compute these functions.\<close>

lemma merge_run_lists:
  assumes "mid \<le> length a" "hi \<le> length a"
  shows "merge_run (\<lambda>x y. Ok (lt x y)) a i mid j hi = Ok (merge_lists (sub_range a i mid) (sub_range a j hi))"
  using assms
proof (induction "(mid - i) + (hi - j)" arbitrary: i j rule: less_induct)
  case less
  show ?case
  proof (cases "i < mid \<and> j < hi")
    case True
    then have si: "sub_range a i mid = a ! i # sub_range a (i + 1) mid"
      and sj: "sub_range a j hi = a ! j # sub_range a (j + 1) hi"
      using less.prems by (simp_all add: sub_range_Cons)
    have "(mid - (i + 1)) + (hi - j) < (mid - i) + (hi - j)" "(mid - i) + (hi - (j + 1)) < (mid - i) + (hi - j)"
      using True by linarith+
    from less.hyps [OF this(1) less.prems] less.hyps [OF this(2) less.prems] True show ?thesis
      by (subst merge_run.simps) (simp add: si sj)
  next
    case False
    then have "sub_range a i mid = [] \<or> sub_range a j hi = []" by (auto simp: sub_range_def)
    with False show ?thesis by (subst merge_run.simps) auto
  qed
qed

lemma merge_blocks_pairs:
  assumes "length a = n" "0 < w"
  shows "merge_blocks (\<lambda>x y. Ok (lt x y)) a n w lo = Ok (take lo a @ pair_merge w (drop lo a))"
  using assms(1)
proof (induction "n - lo" arbitrary: a lo rule: less_induct)
  case less
  show ?case
  proof (cases "lo < n")
    case False
    then show ?thesis using less.prems by (subst merge_blocks.simps) (simp add: pair_merge.simps)
  next
    case True
    define mid where "mid = (if lo + w < n then lo + w else n)"
    define hi where "hi = (if lo + 2 * w < n then lo + 2 * w else n)"
    let ?m = "merge_lists (take w (drop lo a)) (take w (drop w (drop lo a)))"
    have left: "sub_range a lo mid = take w (drop lo a)" 
      using less.prems True by (auto simp: sub_range_def mid_def)
    have right: "sub_range a mid hi = take w (drop w (drop lo a))"
      using less.prems True by (auto simp: sub_range_def mid_def hi_def add.commute)
    have pm: "pair_merge w (drop lo a) = ?m @ pair_merge w (drop (lo + 2 * w) a)"
      using True less.prems assms(2) by (subst pair_merge.simps) (simp add: add.commute)
    have dec: "n - (lo + 2 * w) < n - lo" using True assms(2) by simp
    have lm: "length ?m = hi - lo"
      using less.prems True by (simp add: length_merge_lists hi_def) linarith
    show ?thesis
    proof (cases "mid \<ge> hi")
      case skip: True
      then have "?m = take (2 * w) (drop lo a)"
        using less.prems True by (auto simp: mid_def hi_def split: if_splits)
      then have "take (lo + 2 * w) a = take lo a @ ?m" by (simp add: take_add)
      then show ?thesis
        using True assms(2) skip less.hyps [OF dec less.prems] pm
        by (subst merge_blocks.simps) (simp add: mid_def [symmetric] hi_def [symmetric] Let_def)
    next
      case False
      let ?a = "take lo a @ ?m @ drop hi a"
      have la: "length ?a = n" using less.prems True lm False by (simp add: hi_def split: if_splits)
      have bounds: "mid \<le> length a" "hi \<le> length a" using less.prems by (auto simp: mid_def hi_def)
      have "take (lo + 2 * w) ?a = take lo a @ ?m"
        using less.prems True lm by (auto simp: hi_def)
      moreover have "drop (lo + 2 * w) ?a = drop (lo + 2 * w) a"
        using less.prems True lm by (cases "lo + 2 * w < n") (simp_all add: hi_def add.commute)
      ultimately show ?thesis
        using True assms(2) False less.hyps [OF dec la] pm merge_run_lists [OF bounds, of lo mid] left right
        by (subst merge_blocks.simps) (simp add: mid_def [symmetric] hi_def [symmetric] Let_def)
    qed
  qed
qed

definition stable_sorted :: "'a list \<Rightarrow> 'a list \<Rightarrow> bool" where
  "stable_sorted xs ys \<longleftrightarrow> sorted_wrt le ys \<and> mset ys = mset xs \<and>
     (\<forall>k. filter (tied k) ys = filter (tied k) xs)"

lemma merge_widths_stable:
  assumes "length a = n" "0 < w" "runs_sorted w a"
  shows "\<exists>b. merge_widths (\<lambda>x y. Ok (lt x y)) a n w = Ok b \<and> stable_sorted a b"
  using assms
proof (induction "n - w" arbitrary: a w rule: less_induct)
  case less
  show ?case
  proof (cases "w < n")
    case True
    let ?b = "pair_merge w a"
    from pair_merge_runs [OF less.prems(3,2)]
    have b: "runs_sorted (2 * w) ?b" "\<And>k. filter (tied k) ?b = filter (tied k) a" "mset ?b = mset a" by auto
    have dec: "n - 2 * w < n - w" using True less.prems by simp
    from less.hyps [OF dec _ _ b(1)] less.prems
    obtain c where c: "merge_widths (\<lambda>x y. Ok (lt x y)) ?b n (2 * w) = Ok c" "stable_sorted ?b c"
      by (auto simp: length_pair_merge)
    have "merge_widths (\<lambda>x y. Ok (lt x y)) a n w = Ok c"
      using True less.prems c(1) merge_blocks_pairs [of a n w 0] by (subst merge_widths.simps) simp
    with c(2) b show ?thesis by (auto simp: stable_sorted_def)
  next
    case False
    then have "sorted_wrt le a" using runs_sorted_all [OF less.prems(2) _ less.prems(3)] less.prems by simp
    with False show ?thesis by (subst merge_widths.simps) (simp add: stable_sorted_def)
  qed
qed

lemma merge_sort_stable:
  "\<exists>b. merge_widths (\<lambda>x y. Ok (lt x y)) a (length a) 1 = Ok b \<and> stable_sorted a b"
  using merge_widths_stable [of a "length a" 1] runs_sorted_1 by simp

end

section \<open>Comparison by a key\<close>

interpretation keyed: weak_order "\<lambda>x y. f x < f y" for f :: "'a \<Rightarrow> 'k::linorder"
  by unfold_locales auto

lemma keyed_simps:
  fixes f :: "'a \<Rightarrow> 'k::linorder"
  shows "weak_order.le (\<lambda>x y. f x < f y) = (\<lambda>x y. f x \<le> f y)"
    "weak_order.tied (\<lambda>x y. f x < f y) = (\<lambda>x y. f x = f y)"
  by (auto simp: keyed.le_def keyed.tied_def fun_eq_iff)

lemma stable_sorted_sort_key:
  fixes f :: "'a \<Rightarrow> 'k::linorder"
  assumes "weak_order.stable_sorted (\<lambda>x y. f x < f y) xs ys"
  shows "ys = sort_key f xs"
proof -
  have "sorted_wrt (\<lambda>x y. f x \<le> f y) ys" "mset ys = mset xs"
    "\<And>k. filter (\<lambda>y. f k = f y) ys = filter (\<lambda>y. f k = f y) xs"
    using assms by (auto simp: keyed.stable_sorted_def keyed_simps)
  then show ?thesis by (intro properties_for_sort_key [symmetric]) (auto simp: sorted_map)
qed

lemma merge_widths_sort_key:
  fixes f :: "'a \<Rightarrow> 'k::linorder"
  shows "merge_widths (\<lambda>x y. Ok (f x < f y)) a (length a) 1 = Ok (sort_key f a)"
  using keyed.merge_sort_stable [of f a] stable_sorted_sort_key by blast

lemma sort_key_cong_order:
  fixes f :: "'a \<Rightarrow> 'k::linorder" and g :: "'a \<Rightarrow> 'l::linorder"
  assumes "\<And>x y. x \<in> set xs \<Longrightarrow> y \<in> set xs \<Longrightarrow> f x \<le> f y \<longleftrightarrow> g x \<le> g y"
  shows "sort_key f xs = sort_key g xs"
proof (rule properties_for_sort_key)
  show "mset (sort_key g xs) = mset xs" by simp
  have eq: "f x = f y \<longleftrightarrow> g x = g y" if "x \<in> set xs" "y \<in> set xs" for x y
    using assms that by (metis order_antisym order_refl)
  show "filter (\<lambda>x. f k = f x) (sort_key g xs) = filter (\<lambda>x. f k = f x) xs" if "k \<in> set (sort_key g xs)" for k
  proof -
    have k: "k \<in> set xs" using that by simp
    have "filter (\<lambda>x. f k = f x) (sort_key g xs) = filter (\<lambda>x. g x = g k) (sort_key g xs)"
      using eq k by (intro filter_cong) auto
    also have "\<dots> = filter (\<lambda>x. g x = g k) xs" by (rule sort_key_stable)
    also have "\<dots> = filter (\<lambda>x. f k = f x) xs" using eq k by (intro filter_cong) auto
    finally show ?thesis .
  qed
  have "sorted_wrt (\<lambda>x y. g x \<le> g y) (sort_key g xs)"
    using sorted_sort_key [of g xs] by (simp only: sorted_map)
  then have "sorted_wrt (\<lambda>x y. f x \<le> f y) (sort_key g xs)"
    using assms by (elim sorted_wrt_mono_rel [rotated]) (simp only: set_sort)
  then show "sorted (map f (sort_key g xs))" by (simp add: sorted_map)
qed

section \<open>Radix passes\<close>

text \<open>Sorting by the high digit after the low part is sorting by both.\<close>

lemma sorted_by_parts:
  fixes f g :: "'a \<Rightarrow> nat"
  assumes "sorted (map g zs)" "\<And>k. sorted (map f (filter (\<lambda>x. g x = k) zs))" "\<forall>x \<in> set zs. f x < M"
  shows "sorted (map (\<lambda>x. g x * M + f x) zs)"
  using assms
proof (induction zs)
  case (Cons z zs)
  have "g z * M + f z \<le> g y * M + f y" if "y \<in> set zs" for y
  proof (cases "g z = g y")
    case True
    with Cons.prems(2) [of "g z"] that show ?thesis by auto
  next
    case False
    then have "Suc (g z) \<le> g y" using Cons.prems(1) that by fastforce
    then have "Suc (g z) * M \<le> g y * M" by (rule mult_le_mono1)
    moreover have "f z < M" using Cons.prems(3) by simp
    ultimately show ?thesis by simp
  qed
  moreover have "sorted (map f (filter (\<lambda>x. g x = k) zs))" for k
    using Cons.prems(2) [of k] by (auto split: if_splits)
  ultimately show ?case using Cons by auto
qed simp

lemma sort_key_by_parts:
  fixes f g :: "'a \<Rightarrow> nat"
  assumes "\<forall>x \<in> set xs. f x < M"
  shows "sort_key g (sort_key f xs) = sort_key (\<lambda>x. g x * M + f x) xs"
proof (rule properties_for_sort_key [symmetric])
  let ?h = "\<lambda>x. g x * M + f x" and ?ys = "sort_key g (sort_key f xs)"
  show "mset ?ys = mset xs" by simp
  have inj: "?h x = ?h y \<longleftrightarrow> g x = g y \<and> f x = f y" if "x \<in> set xs" "y \<in> set xs" for x y
  proof
    assume eq: "?h x = ?h y"
    have "f x < M" "f y < M" using assms that by auto
    then have "f x = ?h x mod M" "f y = ?h y mod M" "g x = ?h x div M" "g y = ?h y div M" by auto
    with eq show "g x = g y \<and> f x = f y" by metis
  qed simp
  show "filter (\<lambda>x. ?h k = ?h x) ?ys = filter (\<lambda>x. ?h k = ?h x) xs" if "k \<in> set ?ys" for k
  proof -
    have k: "k \<in> set xs" using that by simp
    have "filter (\<lambda>x. ?h k = ?h x) ?ys = filter (\<lambda>x. f x = f k) (filter (\<lambda>x. g x = g k) ?ys)"
      using inj k by (auto simp: intro!: filter_cong)
    also have "filter (\<lambda>x. g x = g k) ?ys = filter (\<lambda>x. g x = g k) (sort_key f xs)"
      by (rule sort_key_stable)
    also have "filter (\<lambda>x. f x = f k) (filter (\<lambda>x. g x = g k) (sort_key f xs)) =
        filter (\<lambda>x. g x = g k) (filter (\<lambda>x. f x = f k) (sort_key f xs))"
      by (simp only: filter_filter conj_commute)
    also have "\<dots> = filter (\<lambda>x. ?h k = ?h x) xs"
      using inj k by (simp only: sort_key_stable) (auto simp: intro!: filter_cong)
    finally show ?thesis .
  qed
  have "sorted (map f (filter (\<lambda>x. g x = k) ?ys))" for k
    by (simp only: sort_key_stable) (simp add: sorted_filter)
  then show "sorted (map ?h ?ys)" using assms by (intro sorted_by_parts) auto
qed

subsection \<open>One counting pass\<close>

abbreviation (input) with_digit :: "('a \<Rightarrow> nat) \<Rightarrow> nat \<Rightarrow> 'a list \<Rightarrow> 'a list" where
  "with_digit d b xs \<equiv> filter (\<lambda>x. d x = b) xs"

lemma count_keys_nth:
  "\<forall>x \<in> set xs. d x < length cnt \<Longrightarrow>
   length (count_keys d xs cnt) = length cnt \<and>
   (\<forall>b < length cnt. count_keys d xs cnt ! b = cnt ! b + length (with_digit d b xs))"
  by (induction xs arbitrary: cnt) (auto simp: nth_list_update)

lemma prefix_sums_nth:
  "length (prefix_sums acc cs) = length cs \<and>
   (\<forall>i < length cs. prefix_sums acc cs ! i = acc + sum_list (take i cs))"
proof (induction cs arbitrary: acc)
  case (Cons c cs)
  show ?case
  proof (intro conjI allI impI)
    fix i assume "i < length (c # cs)"
    then show "prefix_sums acc (c # cs) ! i = acc + sum_list (take i (c # cs))"
      using Cons [of "acc + c"] by (cases i) auto
  qed (use Cons in simp)
qed simp

definition segment :: "('a \<Rightarrow> nat) \<Rightarrow> 'a list \<Rightarrow> nat list \<Rightarrow> nat \<Rightarrow> nat set" where
  "segment d xs at b = {at ! b ..< at ! b + length (with_digit d b xs)}"

lemma scatter_segments:
  assumes "\<forall>x \<in> set xs. d x < length at"
    and "\<forall>b < length at. segment d xs at b \<subseteq> {..<length dst}"
    and "\<forall>b < length at. \<forall>c < length at. b \<noteq> c \<longrightarrow> segment d xs at b \<inter> segment d xs at c = {}"
  shows "length (scatter d xs at dst) = length dst \<and>
    (\<forall>b < length at. \<forall>k < length (with_digit d b xs).
       scatter d xs at dst ! (at ! b + k) = with_digit d b xs ! k) \<and>
    (\<forall>p. (\<forall>b < length at. p \<notin> segment d xs at b) \<longrightarrow> scatter d xs at dst ! p = dst ! p)"
  using assms
proof (induction xs arbitrary: at dst)
  case (Cons x xs)
  let ?b = "d x"
  let ?at = "at[?b := at ! ?b + 1]"
  let ?dst = "dst[at ! ?b := x]"
  have b: "?b < length at" using Cons.prems(1) by simp
  have seg_b: "segment d (x # xs) at ?b = insert (at ! ?b) (segment d xs ?at ?b)"
    using b by (auto simp: segment_def)
  have seg_o: "segment d (x # xs) at c = segment d xs ?at c" if "c \<noteq> ?b" for c
    using that by (simp add: segment_def)
  have sub: "segment d xs ?at c \<subseteq> segment d (x # xs) at c" for c
    using seg_b seg_o by (cases "c = ?b") auto
  have "\<forall>y \<in> set xs. d y < length ?at" using Cons.prems(1) by simp
  moreover have "\<forall>c < length ?at. segment d xs ?at c \<subseteq> {..<length ?dst}"
    using Cons.prems(2) sub by simp blast
  moreover have "\<forall>c < length ?at. \<forall>e < length ?at. c \<noteq> e \<longrightarrow> segment d xs ?at c \<inter> segment d xs ?at e = {}"
    using Cons.prems(3) sub by simp blast
  ultimately have IH: "length (scatter d xs ?at ?dst) = length ?dst"
    "\<And>c k. c < length at \<Longrightarrow> k < length (with_digit d c xs) \<Longrightarrow>
       scatter d xs ?at ?dst ! (?at ! c + k) = with_digit d c xs ! k"
    "\<And>p. (\<And>c. c < length at \<Longrightarrow> p \<notin> segment d xs ?at c) \<Longrightarrow> scatter d xs ?at ?dst ! p = ?dst ! p"
    using Cons.IH [of ?at ?dst] by auto
  have here: "at ! ?b \<in> segment d (x # xs) at ?b" by (simp add: seg_b)
  have "at ! ?b < length dst" using Cons.prems(2) b here by blast
  have free: "at ! ?b \<notin> segment d xs ?at c" if "c < length at" for c
  proof (cases "c = ?b")
    case True
    then show ?thesis using b by (simp add: segment_def)
  next
    case False
    then show ?thesis using Cons.prems(3) that b here seg_o [OF False] by blast
  qed
  have "scatter d xs ?at ?dst ! (at ! c + k) = with_digit d c (x # xs) ! k"
    if c: "c < length at" "k < length (with_digit d c (x # xs))" for c k
  proof (cases "c = ?b")
    case True
    show ?thesis
    proof (cases k)
      case 0
      then show ?thesis using True IH(3) [of "at ! ?b"] free \<open>at ! ?b < length dst\<close> by simp
    next
      case (Suc m)
      then show ?thesis using True IH(2) [of ?b m] b c by simp
    qed
  next
    case False
    then show ?thesis using IH(2) [of c k] c by simp
  qed
  moreover have "scatter d xs ?at ?dst ! p = dst ! p" if "\<forall>c < length at. p \<notin> segment d (x # xs) at c" for p
  proof -
    have "p \<noteq> at ! ?b" using that b here by auto
    moreover have "p \<notin> segment d xs ?at c" if "c < length at" for c
      using that sub \<open>\<forall>c < length at. p \<notin> segment d (x # xs) at c\<close> by blast
    ultimately show ?thesis using IH(3) [of p] by simp
  qed
  ultimately show ?case using IH(1) by simp
qed simp

lemma concat_digits_mset:
  "\<forall>x \<in> set xs. d x < B \<Longrightarrow> mset (concat (map (\<lambda>b. with_digit d b xs) [0..<B])) = mset xs"
proof (induction xs)
  case (Cons x xs)
  have "mset (concat (map (\<lambda>b. with_digit d b (x # xs)) [0..<n])) =
      (if d x < n then {#x#} else {#}) + mset (concat (map (\<lambda>b. with_digit d b xs) [0..<n]))" for n
    by (induction n) auto
  with Cons show ?case by simp
qed simp

lemma concat_digits_sort:
  assumes "\<forall>x \<in> set xs. d x < B"
  shows "concat (map (\<lambda>b. with_digit d b xs) [0..<B]) = sort_key d xs"
proof (rule properties_for_sort_key [symmetric])
  let ?ys = "concat (map (\<lambda>b. with_digit d b xs) [0..<B])"
  show "mset ?ys = mset xs" by (rule concat_digits_mset [OF assms])
  have "filter (\<lambda>x. d x = c) (concat (map (\<lambda>b. with_digit d b xs) [0..<n])) =
      (if c < n then with_digit d c xs else [])" for c n
    by (induction n) (auto simp: less_Suc_eq intro: filter_cong)
  then show "filter (\<lambda>x. d k = d x) ?ys = filter (\<lambda>x. d k = d x) xs" if "k \<in> set ?ys" for k
    using that assms by (auto simp: eq_commute [of "d k"])
  have const: "sorted (map d (with_digit d n xs))" for n by (induction xs) auto
  have "sorted (map d (concat (map (\<lambda>b. with_digit d b xs) [0..<n])))" for n
    by (induction n) (auto simp: sorted_append const)
  then show "sorted (map d ?ys)" by blast
qed

lemma radix_pass_sort:
  assumes digits: "\<forall>x \<in> set src. d x < BUCKETS" and len: "length dst = length src"
  shows "radix_pass d src dst = sort_key d src"
proof -
  define F where "F b = with_digit d b src" for b
  define cnt where "cnt = count_keys d src (replicate BUCKETS 0)"
  define at where "at = prefix_sums 0 cnt"
  define base where "base b = length (concat (map F [0..<b]))" for b
  define res where "res = scatter d src at dst"
  have cnt: "length cnt = BUCKETS" "\<And>b. b < BUCKETS \<Longrightarrow> cnt ! b = length (F b)"
    using count_keys_nth [of src d "replicate BUCKETS 0"] digits by (auto simp: cnt_def F_def)
  have take_cnt: "take b cnt = map (\<lambda>b. length (F b)) [0..<b]" if "b \<le> BUCKETS" for b
    using that cnt by (intro nth_equalityI) auto
  have at: "length at = BUCKETS" "\<And>b. b < BUCKETS \<Longrightarrow> at ! b = base b"
    using prefix_sums_nth [of 0 cnt] cnt(1) take_cnt by (auto simp: at_def base_def length_concat comp_def)
  have base_Suc: "base (Suc b) = base b + length (F b)" for b by (simp add: base_def)
  have base_mono: "b \<le> c \<Longrightarrow> base b \<le> base c" for b c
    by (rule lift_Suc_mono_le [of base]) (simp_all add: base_Suc)
  have total: "base BUCKETS = length src"
    using arg_cong [OF concat_digits_mset [OF digits], of size] by (simp add: base_def F_def [abs_def])
  have seg: "segment d src at b = {base b ..< base (Suc b)}" if "b < BUCKETS" for b
    using that at by (simp add: segment_def base_Suc F_def)
  have in_dst: "\<forall>b < length at. segment d src at b \<subseteq> {..<length dst}"
  proof (intro allI impI)
    fix b assume b: "b < length at"
    then have "base (Suc b) \<le> length dst" using base_mono [of "Suc b" BUCKETS] at(1) total len by simp
    with b seg [of b] at(1) show "segment d src at b \<subseteq> {..<length dst}" by auto
  qed
  have disjoint: "\<forall>b < length at. \<forall>c < length at. b \<noteq> c \<longrightarrow> segment d src at b \<inter> segment d src at c = {}"
  proof (intro allI impI)
    fix b c assume "b < length at" "c < length at" "b \<noteq> c"
    then show "segment d src at b \<inter> segment d src at c = {}"
      using seg at(1) base_mono [of "Suc b" c] base_mono [of "Suc c" b] by (cases b c rule: linorder_cases) auto
  qed
  have spec: "length res = length dst" "\<And>b k. b < BUCKETS \<Longrightarrow> k < length (F b) \<Longrightarrow> res ! (base b + k) = F b ! k"
    using scatter_segments [OF _ in_dst disjoint] digits at by (auto simp: res_def F_def)
  have "take (base b) res = concat (map F [0..<b])" if "b \<le> BUCKETS" for b
    using that
  proof (induction b)
    case (Suc b)
    have "take (length (F b)) (drop (base b) res) = F b"
      using spec Suc.prems total len base_mono [of "Suc b" BUCKETS]
      by (intro nth_equalityI) (auto simp: base_Suc)
    with Suc show ?case by (simp add: base_Suc take_add)
  qed (simp add: base_def)
  from this [of BUCKETS] total len spec(1) have "res = concat (map F [0..<BUCKETS])" by simp
  also have "\<dots> = sort_key d src"
    unfolding F_def [abs_def] by (rule concat_digits_sort [OF digits])
  finally show ?thesis by (simp add: res_def at_def cnt_def radix_pass_def)
qed

lemma radix_loop_sort:
  assumes "\<And>p x. x \<in> set xs \<Longrightarrow> d (p * 16) x = key x div 2 ^ (16 * p) mod BUCKETS"
    and "set src = set xs" "length dst = length src"
    and "src = sort_key (\<lambda>x. key x mod 2 ^ (16 * pass)) xs"
  shows "radix_loop d pass k src dst = sort_key (\<lambda>x. key x mod 2 ^ (16 * (pass + k))) xs"
  using assms(2-4)
proof (induction k arbitrary: pass src dst)
  case (Suc k)
  let ?M = "2 ^ (16 * pass) :: nat"
  have digit: "d (pass * 16) x = key x div ?M mod BUCKETS" if "x \<in> set src" for x
    using assms(1) that Suc.prems(1) by simp
  have split: "key x mod 2 ^ (16 * (pass + 1)) = (key x div ?M mod BUCKETS) * ?M + key x mod ?M" for x
  proof -
    have "(2::nat) ^ (16 * (pass + 1)) = ?M * BUCKETS" by (simp add: power_add)
    then show ?thesis by (simp add: mod_mult2_eq)
  qed
  have "radix_pass (d (pass * 16)) src dst = sort_key (d (pass * 16)) src"
    using Suc.prems digit by (intro radix_pass_sort) auto
  also have "\<dots> = sort_key (\<lambda>x. key x div ?M mod BUCKETS) src"
    using digit by (intro sort_key_cong_order) auto
  also have "\<dots> = sort_key (\<lambda>x. key x mod 2 ^ (16 * (pass + 1))) xs"
    unfolding Suc.prems(3) split by (intro sort_key_by_parts) simp
  finally have pass: "radix_pass (d (pass * 16)) src dst = sort_key (\<lambda>x. key x mod 2 ^ (16 * (pass + 1))) xs" .
  have "radix_loop d (pass + 1) k (radix_pass (d (pass * 16)) src dst) src =
      sort_key (\<lambda>x. key x mod 2 ^ (16 * (pass + 1 + k))) xs"
    using Suc.prems pass by (intro Suc.IH) simp_all
  then show ?case by simp
qed simp

subsection \<open>The key range\<close>

lemma minimum_of_le: "minimum_of m xs \<le> m \<and> (\<forall>x \<in> set xs. minimum_of m xs \<le> sint x)"
proof (induction xs arbitrary: m)
  case (Cons x xs)
  from Cons [of "if sint x < m then sint x else m"] show ?case by (auto split: if_splits)
qed simp

lemma maximum_of_ge: "m \<le> maximum_of m xs \<and> (\<forall>x \<in> set xs. sint x \<le> maximum_of m xs)"
proof (induction xs arbitrary: m)
  case (Cons x xs)
  from Cons [of "if sint x > m then sint x else m"] show ?case by (auto split: if_splits)
qed simp

lemma minimum_of_mem: "minimum_of m xs \<in> insert m (sint ` set xs)"
proof (induction xs arbitrary: m)
  case (Cons x xs)
  from Cons [of "if sint x < m then sint x else m"] show ?case by (auto split: if_splits)
qed simp

lemma maximum_of_mem: "maximum_of m xs \<in> insert m (sint ` set xs)"
proof (induction xs arbitrary: m)
  case (Cons x xs)
  from Cons [of "if sint x > m then sint x else m"] show ?case by (auto split: if_splits)
qed simp

lemma sint_range: "- (2 ^ 63) \<le> sint (x :: slot)" "sint (x :: slot) < 2 ^ 63"
  using sint_ge [of x] sint_lt [of x] by simp_all

lemma unat_key:
  assumes "mn \<le> sint x" "- (2 ^ 63) \<le> mn"
  shows "unat (x - of_int mn :: slot) = nat (sint x - mn)"
proof -
  have "x - of_int mn = of_int (sint x - mn)" by simp
  moreover have "0 \<le> sint x - mn" "sint x - mn < 2 ^ 64" using assms sint_range [of x] by simp_all
  ultimately show ?thesis using unat_of_int_small [of "sint x - mn"] by simp
qed

lemma bucket_digit:
  assumes "mn \<le> sint x" "- (2 ^ 63) \<le> mn"
  shows "bucket (of_int mn) (p * 16) x = nat (sint x - mn) div 2 ^ (16 * p) mod BUCKETS"
proof -
  have "(65535 :: slot) = mask 16" by (simp add: mask_eq_exp_minus_1)
  then have "bucket (of_int mn) (p * 16) x = unat (take_bit 16 (drop_bit (p * 16) (x - of_int mn :: slot)))"
    by (simp only: bucket_def take_bit_eq_mask)
  also have "\<dots> = take_bit 16 (drop_bit (p * 16) (unat (x - of_int mn :: slot)))"
    using take_bit_nat_eq_self [OF unat_u64_bound, of "x - of_int mn"]
    by (simp add: unsigned_take_bit_eq unsigned_drop_bit_eq)
  finally have "bucket (of_int mn) (p * 16) x = take_bit 16 (drop_bit (p * 16) (unat (x - of_int mn :: slot)))" .
  then show ?thesis
    using unat_key [OF assms] by (simp add: take_bit_eq_mod drop_bit_eq_div mult.commute)
qed

lemma radix_passes_enough:
  assumes "mn \<le> mx" "- (2 ^ 63) \<le> mn" "mx < 2 ^ 63"
  shows "nat (mx - mn) < 2 ^ (16 * radix_passes (of_int mx - of_int mn))"
proof -
  have "unat (of_int (mx - mn) :: u64) = nat (mx - mn)" using assms by (intro unat_of_int_small) auto
  then have u: "unat (of_int mx - of_int mn :: u64) = nat (mx - mn)" by simp
  show ?thesis
    using assms u by (auto simp: radix_passes_def word_le_nat_alt nat_less_iff)
qed

lemma radix_loop_by_key:
  fixes pr :: "'a \<Rightarrow> slot"
  assumes range: "\<forall>x \<in> set xs. mn \<le> sint (pr x) \<and> sint (pr x) \<le> mx" and "mn \<le> mx" "- (2 ^ 63) \<le> mn" "mx < 2 ^ 63"
    and len: "length dst = length xs"
  shows "radix_loop (\<lambda>shift x. bucket (of_int mn) shift (pr x)) 0 (radix_passes (of_int mx - of_int mn)) xs dst =
    sort_key (\<lambda>x. sint (pr x)) xs"
proof -
  let ?p = "radix_passes (of_int mx - of_int mn)"
  let ?key = "\<lambda>x. nat (sint (pr x) - mn)"
  have "radix_loop (\<lambda>shift x. bucket (of_int mn) shift (pr x)) 0 ?p xs dst =
      sort_key (\<lambda>x. ?key x mod 2 ^ (16 * (0 + ?p))) xs"
  proof (rule radix_loop_sort)
    show "bucket (of_int mn) (p * 16) (pr x) = ?key x div 2 ^ (16 * p) mod BUCKETS" if "x \<in> set xs" for p x
      using range that assms(3) by (intro bucket_digit) auto
    have "sort_key (\<lambda>x. 0 :: nat) xs = xs" for xs :: "'a list"
      by (rule properties_for_sort_key) (auto simp: sorted_wrt_iff_nth_less)
    then show "xs = sort_key (\<lambda>x. ?key x mod 2 ^ (16 * 0)) xs" by simp
  qed (use len in simp_all)
  also have "\<dots> = sort_key (\<lambda>x. sint (pr x)) xs"
  proof (rule sort_key_cong_order)
    have key: "?key x mod 2 ^ (16 * (0 + ?p)) = ?key x" if "x \<in> set xs" for x
    proof -
      have "?key x \<le> nat (mx - mn)" using range that by auto
      from mod_less [OF le_less_trans [OF this radix_passes_enough [OF assms(2-4)]]] show ?thesis by simp
    qed
    fix x y assume "x \<in> set xs" "y \<in> set xs"
    then show "?key x mod 2 ^ (16 * (0 + ?p)) \<le> ?key y mod 2 ^ (16 * (0 + ?p)) \<longleftrightarrow> sint (pr x) \<le> sint (pr y)"
      using key range by (auto simp: nat_le_eq_zle)
  qed
  finally show ?thesis .
qed

lemma key_range:
  assumes "a \<noteq> []"
  defines "mn \<equiv> minimum_of (sint (a ! 0)) (tl a)" and "mx \<equiv> maximum_of (sint (a ! 0)) (tl a)"
  shows "\<forall>x \<in> set a. mn \<le> sint x \<and> sint x \<le> mx" "mn \<le> mx" "- (2 ^ 63) \<le> mn" "mx < 2 ^ 63"
proof -
  obtain x xs where a: "a = x # xs" using assms(1) by (cases a) auto
  show "\<forall>x \<in> set a. mn \<le> sint x \<and> sint x \<le> mx"
    using minimum_of_le [of "sint x" xs] maximum_of_ge [of "sint x" xs] by (auto simp: mn_def mx_def a)
  then show "mn \<le> mx" using a by fastforce
  show "- (2 ^ 63) \<le> mn" "mx < 2 ^ 63"
    using minimum_of_mem [of "sint x" xs] maximum_of_mem [of "sint x" xs] sint_range
    by (auto simp: mn_def mx_def a)
qed

lemma list_radix_sort_int_sort:
  assumes "alloc (of_nat (length a) * 8)" "alloc (of_nat BUCKETS * 8)"
  shows "list_radix_sort_int alloc a = Ok (sort_key sint a)"
proof (cases "length a < 2")
  case True
  then consider "a = []" | x where "a = [x]" by (cases a) (auto simp: length_Suc_conv)
  then show ?thesis by cases (simp_all add: list_radix_sort_int_def)
next
  case False
  then have "a \<noteq> []" by auto
  note range = key_range [OF this]
  from radix_loop_by_key [where pr = "\<lambda>x. x" and xs = a, OF range, of "replicate (length a) 0"] False assms
  show ?thesis by (simp add: list_radix_sort_int_def Let_def)
qed

lemma list_merge_sort_sort:
  fixes f :: "slot \<Rightarrow> 'k::linorder"
  assumes "alloc (of_nat (length a) * 8)"
  shows "list_merge_sort alloc (\<lambda>x y. Ok (f x < f y)) a = Ok (sort_key f a)"
proof (cases "length a < 2")
  case True
  then consider "a = []" | x where "a = [x]" by (cases a) (auto simp: length_Suc_conv)
  then show ?thesis by cases (simp_all add: list_merge_sort_def)
next
  case False
  then show ?thesis using assms merge_widths_sort_key [of f a] by (simp add: list_merge_sort_def)
qed

section \<open>Sorting the list object\<close>

lemma list_widen_from_slots: "readable l \<Longrightarrow> n \<le> l_len l \<Longrightarrow> list_widen_from l n = Ok (take n (slots l))"
  by (induction n) (auto simp: list_slot_at_slots length_slots take_Suc_conv_app_nth)

lemma slots_narrow: "l_stride l = 4 \<Longrightarrow> v \<in> set (slots l) \<Longrightarrow> ucast (ucast v :: u32) = v"
proof -
  have "(ucast (ucast (w :: slot) :: u32) :: slot) = take_bit 32 w" for w
    by (rule bit_word_eqI) (auto simp: bit_simps)
  then show "l_stride l = 4 \<Longrightarrow> v \<in> set (slots l) \<Longrightarrow> ucast (ucast v :: u32) = v"
    by (auto simp: slots_def slot_of_elem_def)
qed

lemma sort_slots_result:
  assumes r: "readable l" and sorter: "sorter (slots l) = Ok b" and perm: "mset b = mset (slots l)"
    and room: "l_stride l = 4 \<longrightarrow> alloc (of_nat (if l_len l > 0 then l_len l else 1) * 8)"
  shows "\<exists>l'. sort_slots alloc sorter l = Ok l' \<and> readable l' \<and> slots l' = b \<and> same_shape l l' \<and>
    (l_len l > 1 \<longrightarrow> bumped l LIST_CHANGE_SORT l')"
proof -
  define m where "m = (if l_len l > 1 then list_changed l LIST_CHANGE_SORT else l)"
  have m: "l_buf m = l_buf l" "l_len m = l_len l" "l_stride m = l_stride l" "l_cap m = l_cap l" "l_mask m = l_mask l"
    "list_stride m = list_stride l" "readable m" "slots m = slots l"
    using r by (auto simp: m_def list_changed_def readable_def list_ok_def live_def slots_def slot_of_elem_def [abs_def])
  have len: "length b = l_len l" using perm length_slots [OF r] by (metis size_mset)
  have buf: "length (l_buf l) = l_cap l" "l_len l \<le> l_cap l" using r by (auto simp: readable_def list_ok_def)
  have wide: "list_widen_from m (l_len m) = Ok (slots l)"
    using list_widen_from_slots [OF m(7), of "l_len m"] m length_slots [OF r] by simp
  define l' where "l' = m\<lparr>l_buf := map (\<lambda>v. [v]) b @ drop (l_len l) (l_buf l)\<rparr>"
  have id4: "map (\<lambda>v. [ucast (ucast v :: u32)]) b = map (\<lambda>v. [v]) b" if "l_stride l = 4"
    using slots_narrow [OF that] mset_eq_setD [OF perm] by auto
  have "sort_slots alloc sorter l = Ok l'"
  proof (cases "l_stride l = 4")
    case True
    then have "list_widen_slots alloc m = Ok (slots l)"
      using wide room unfolding list_widen_slots_def m(2) by (simp split del: if_split)
    then show ?thesis
      using True sorter m len id4 [OF True]
      unfolding sort_slots_def Let_def m_def [symmetric]
      by (simp add: list_narrow_slots_def l'_def)
  next
    case False
    then show ?thesis
      using wide sorter m len unfolding sort_slots_def Let_def m_def [symmetric]
      by (simp add: put_slots_def l'_def)
  qed
  moreover have live: "live l' = map (\<lambda>v. [v]) b" using len m by (simp add: live_def l'_def)
  have st: "l_stride l' = l_stride l" by (simp add: l'_def m)
  have "readable l'"
    using m len buf unfolding readable_def live by (auto simp: list_ok_def l'_def)
  moreover have "slots l' = b"
  proof (cases "l_stride l = 4")
    case True
    then have "ucast (ucast v :: u32) = v" if "v \<in> set b" for v
      using slots_narrow [OF True] mset_eq_setD [OF perm] that by auto
    then show ?thesis using True st by (simp add: slots_def live slot_of_elem_def comp_def map_idI)
  next
    case False
    then show ?thesis using st by (simp add: slots_def live slot_of_elem_def comp_def)
  qed
  moreover have "same_shape l l'" "l_len l > 1 \<longrightarrow> bumped l LIST_CHANGE_SORT l'"
    by (auto simp: same_shape_def bumped_def l'_def m_def list_changed_def)
  ultimately show ?thesis by blast
qed

definition sort_grants :: "(u64 \<Rightarrow> bool) \<Rightarrow> nat \<Rightarrow> bool" where
  "sort_grants alloc n \<longleftrightarrow> alloc (of_nat n * 8) \<and> alloc 8 \<and> alloc (of_nat BUCKETS * 8)"

lemma sort_grants_widen: "sort_grants alloc n \<Longrightarrow> alloc (of_nat (if n > 0 then n else 1) * 8)"
  by (simp add: sort_grants_def)

lemma sort_key_map_pairs: "sort_key f (map g xs) = map g (sort_key (\<lambda>x. f (g x)) xs)"
proof (induction xs)
  case (Cons x xs)
  have "insort_key f (g y) (map g ys) = map g (insort_key (\<lambda>x. f (g x)) y ys)" for y ys
    by (induction ys) auto
  with Cons show ?case by simp
qed simp

lemma keys_of_pure: "(\<And>v. key_fn v = Ok (key v)) \<Longrightarrow> keys_of key_fn a = Ok (map key a)"
  by (induction a) auto

lemma sort_by_key_slots_sort:
  assumes "sort_grants alloc (length a)" "\<And>v. key_fn v = Ok (key v)"
  shows "list_sort_by_key_slots alloc key_fn a = Ok (sort_key (\<lambda>v. sint (key v)) a)"
proof (cases "length a < 2")
  case True
  then consider "a = []" | x where "a = [x]" by (cases a) (auto simp: length_Suc_conv)
  then show ?thesis
    using assms by cases (simp_all add: list_sort_by_key_slots_def sort_grants_def)
next
  case False
  define keys where "keys = map key a"
  define pairs where "pairs = zip keys a"
  have pairs: "pairs = map (\<lambda>v. (key v, v)) a" by (auto simp: pairs_def keys_def zip_map1 map_zip_map [symmetric] zip_same_conv_map)
  have sorted: "map snd (sort_key (\<lambda>p. sint (fst p)) pairs) = sort_key (\<lambda>v. sint (key v)) a"
    by (simp add: pairs sort_key_map_pairs comp_def)
  have "keys \<noteq> []" using False by (auto simp: keys_def)
  note range = key_range [OF this]
  have "\<forall>p \<in> set pairs. fst p \<in> set keys" by (auto simp: pairs keys_def)
  with range(1) have r: "\<forall>p \<in> set pairs. minimum_of (sint (keys ! 0)) (tl keys) \<le> sint (fst p) \<and>
      sint (fst p) \<le> maximum_of (sint (keys ! 0)) (tl keys)" by blast
  have len: "length pairs = length a" by (simp add: pairs)
  note radix = radix_loop_by_key [OF r range(2-4), of "replicate (length a) (0, 0)"]
  note merge = merge_widths_sort_key [of "\<lambda>p. sint (fst p)" pairs]
  show ?thesis
    using False assms keys_of_pure [of key_fn key a] radix merge sorted len
    by (simp add: list_sort_by_key_slots_def sort_grants_def Let_def keys_def [symmetric] pairs_def [symmetric])
qed

section \<open>Properties\<close>

text \<open>C11. Sorting a list of integers, of floats or of unsigned integers is a stable sort by the
  signed value, by the totalOrder key, by the unsigned value: the radix passes and the bottom-up
  merge both compute the library's \<open>sort_key\<close> of the slots, the list stays well formed, and the
  change is recorded for running iterators.\<close>

theorem list_sort_is_sort_key:
  assumes "readable l" "sort_grants alloc (l_len l)"
  shows "(\<exists>l'. beans_list_sort alloc env l 0 = Ok l' \<and> readable l' \<and> slots l' = sort_key sint (slots l) \<and>
       (l_len l > 1 \<longrightarrow> bumped l LIST_CHANGE_SORT l')) \<and>
    (\<exists>l'. beans_list_sort alloc env l 1 = Ok l' \<and> readable l' \<and> slots l' = sort_key rt_f64_total_key (slots l)) \<and>
    (\<exists>l'. beans_list_sort alloc env l 5 = Ok l' \<and> readable l' \<and> slots l' = sort_key (\<lambda>w. w) (slots l))"
proof -
  have room: "l_stride l = 4 \<longrightarrow> alloc (of_nat (if l_len l > 0 then l_len l else 1) * 8)"
    using sort_grants_widen [OF assms(2)] by blast
  have g: "alloc (of_nat (length (slots l)) * 8)" "alloc (of_nat BUCKETS * 8)"
    using assms by (simp_all add: sort_grants_def length_slots)
  have less: "sort_less env None 1 = (\<lambda>x y. Ok (rt_f64_total_key x < rt_f64_total_key y))"
    "sort_less env None 5 = (\<lambda>x y. Ok (x < y))"
    by (auto simp: fun_eq_iff sort_less_def slot_cmp_def three_way_def)
  note int = sort_slots_result [where alloc = alloc and sorter = "list_radix_sort_int alloc",
      OF assms(1) list_radix_sort_int_sort [where alloc = alloc, OF g] _ room]
  note flt = sort_slots_result [where alloc = alloc and sorter = "list_merge_sort alloc (\<lambda>x y. Ok (rt_f64_total_key x < rt_f64_total_key y))",
      OF assms(1) list_merge_sort_sort [where alloc = alloc and f = rt_f64_total_key, OF g(1)] _ room]
  note uns = sort_slots_result [where alloc = alloc and sorter = "list_merge_sort alloc (\<lambda>x y. Ok (x < y))",
      OF assms(1) list_merge_sort_sort [where alloc = alloc and f = "\<lambda>w. w", OF g(1)] _ room]
  show ?thesis
    using int flt uns unfolding beans_list_sort_def by (auto simp: less)
qed

theorem list_sort_is_sort_key_witness:
  "\<exists>l'. beans_list_sort address_space_alloc plain_env
       (demo_list\<lparr>l_buf := [[7], [0xffffffffffffffff], [3], []], l_len := 3\<rparr>) 0 = Ok l' \<and>
     slots l' = [0xffffffffffffffff, 3, 7]"
proof -
  let ?l = "demo_list\<lparr>l_buf := [[7], [0xffffffffffffffff], [3], []], l_len := 3\<rparr>"
  have "readable ?l" by (simp add: readable_def demo_list_def list_ok_def list_stride_def live_def)
  moreover have "sort_grants address_space_alloc (l_len ?l)"
    by (simp add: sort_grants_def address_space_alloc_def)
  moreover have "slots ?l = [7, 0xffffffffffffffff, 3]"
    by (simp add: slots_def slot_of_elem_def demo_list_def live_def)
  moreover have "sort_key sint [7, 0xffffffffffffffff, 3 :: slot] = [0xffffffffffffffff, 3, 7]" by code_simp
  ultimately show ?thesis using list_sort_is_sort_key [of ?l address_space_alloc plain_env] by auto
qed

text \<open>C19. Sorting with a user comparator that is a strict weak order gives a sorted permutation in
  which tied elements keep their order.\<close>

theorem sort_by_is_stable:
  assumes "readable l" "sort_grants alloc (l_len l)"
    and "\<And>x y. thunk x y = Ok (before x y)"
    and "\<And>x y. before x y \<Longrightarrow> \<not> before y x"
    and "\<And>x y z. before x z \<Longrightarrow> before x y \<or> before y z"
  shows "\<exists>l'. beans_list_sort_by alloc env l thunk = Ok l' \<and> readable l' \<and>
    sorted_wrt (\<lambda>x y. \<not> before y x) (slots l') \<and> mset (slots l') = mset (slots l) \<and>
    (\<forall>k. filter (\<lambda>x. \<not> before x k \<and> \<not> before k x) (slots l') =
         filter (\<lambda>x. \<not> before x k \<and> \<not> before k x) (slots l))"
proof -
  have wo: "weak_order before" using assms(4,5) by unfold_locales
  have thunk: "sort_less env (Some thunk) 0 = (\<lambda>x y. Ok (before x y))"
    using assms(3) by (simp add: fun_eq_iff sort_less_def)
  have g: "alloc (of_nat (length (slots l)) * 8)" using assms by (simp add: sort_grants_def length_slots)
  obtain b where b: "merge_widths (\<lambda>x y. Ok (before x y)) (slots l) (length (slots l)) 1 = Ok b"
    "weak_order.stable_sorted before (slots l) b"
    using weak_order.merge_sort_stable [OF wo] by blast
  have le: "weak_order.le before = (\<lambda>x y. \<not> before y x)"
    "weak_order.tied before = (\<lambda>k x. \<not> before x k \<and> \<not> before k x)"
    using weak_order.le_def [OF wo] weak_order.tied_def [OF wo] by (auto simp: fun_eq_iff)
  have b': "sorted_wrt (\<lambda>x y. \<not> before y x) b" "mset b = mset (slots l)"
    "\<And>k. filter (\<lambda>x. \<not> before x k \<and> \<not> before k x) b = filter (\<lambda>x. \<not> before x k \<and> \<not> before k x) (slots l)"
    using b(2) weak_order.stable_sorted_def [OF wo] by (auto simp: le)
  have sorter: "list_merge_sort alloc (sort_less env (Some thunk) 0) (slots l) = Ok b"
  proof (cases "length (slots l) < 2")
    case True
    then have "b = slots l" using b(1) by (subst (asm) merge_widths.simps) (simp split: if_splits)
    with True show ?thesis by (simp add: list_merge_sort_def)
  next
    case False
    with b(1) g show ?thesis by (simp add: list_merge_sort_def thunk)
  qed
  have room: "l_stride l = 4 \<longrightarrow> alloc (of_nat (if l_len l > 0 then l_len l else 1) * 8)"
    using sort_grants_widen [OF assms(2)] by blast
  from sort_slots_result [where alloc = alloc and sorter = "list_merge_sort alloc (sort_less env (Some thunk) 0)",
      OF assms(1) sorter b'(2) room] b' show ?thesis
    unfolding beans_list_sort_by_def by auto
qed

theorem sort_by_is_stable_witness:
  "\<exists>l'. beans_list_sort_by address_space_alloc plain_env
       (demo_list\<lparr>l_buf := [[7], [9], [3], []], l_len := 3\<rparr>) (\<lambda>x y. Ok (x < y)) = Ok l' \<and>
     mset (slots l') = {#3, 7, 9#}"
proof -
  let ?l = "demo_list\<lparr>l_buf := [[7], [9], [3], []], l_len := 3\<rparr>"
  have r: "readable ?l" by (simp add: readable_def demo_list_def list_ok_def list_stride_def live_def)
  have g: "sort_grants address_space_alloc (l_len ?l)"
    by (simp add: sort_grants_def address_space_alloc_def)
  have t: "x < y \<Longrightarrow> \<not> y < x" "x < z \<Longrightarrow> x < y \<or> y < z" for x y z :: slot by auto
  have "slots ?l = [7, 9, 3]" by (simp add: slots_def slot_of_elem_def demo_list_def live_def)
  with sort_by_is_stable [where before = "\<lambda>x y. x < y" and env = plain_env, OF r g refl t(1) t(2)] show ?thesis
    by (auto simp: add_mset_commute)
qed

text \<open>Sorting by an integer key gives the stable order by that key, whichever of the two
  algorithms the size of the list and of the key range selects.\<close>

theorem sort_by_key_same_permutation:
  assumes "readable l" "sort_grants alloc (l_len l)" "\<And>v. key_fn v = Ok (key v)"
  shows "\<exists>l'. beans_list_sort_by_key alloc l key_fn = Ok l' \<and> readable l' \<and>
    slots l' = sort_key (\<lambda>v. sint (key v)) (slots l)"
proof -
  have room: "l_stride l = 4 \<longrightarrow> alloc (of_nat (if l_len l > 0 then l_len l else 1) * 8)"
    using sort_grants_widen [OF assms(2)] by blast
  have "sort_grants alloc (length (slots l))" using assms by (simp add: length_slots)
  from sort_slots_result [where alloc = alloc and sorter = "list_sort_by_key_slots alloc key_fn",
      OF assms(1) sort_by_key_slots_sort [where key = key and key_fn = key_fn, OF this assms(3)] _ room] show ?thesis
    unfolding beans_list_sort_by_key_def by auto
qed

theorem sort_by_key_same_permutation_witness:
  "\<exists>l'. beans_list_sort_by_key address_space_alloc
       (demo_list\<lparr>l_buf := [[21], [12], [11], []], l_len := 3\<rparr>) (\<lambda>v. Ok (v mod 10)) = Ok l' \<and>
     slots l' = [21, 11, 12]"
proof -
  let ?l = "demo_list\<lparr>l_buf := [[21], [12], [11], []], l_len := 3\<rparr>"
  have "readable ?l" by (simp add: readable_def demo_list_def list_ok_def list_stride_def live_def)
  moreover have "sort_grants address_space_alloc (l_len ?l)"
    by (simp add: sort_grants_def address_space_alloc_def)
  moreover have "slots ?l = [21, 12, 11]" by (simp add: slots_def slot_of_elem_def demo_list_def live_def)
  moreover have "sort_key (\<lambda>v :: slot. sint (v mod 10)) [21, 12, 11] = [21, 11, 12]" by code_simp
  ultimately show ?thesis
    using sort_by_key_same_permutation [of ?l address_space_alloc "\<lambda>v. Ok (v mod 10)" "\<lambda>v. v mod 10"] by auto
qed

text \<open>When the scratch buffer is refused, the plain sort writes through the null pointer, where
  the sort by key panics with \<^verbatim>\<open>out of memory\<close>.\<close>

theorem sort_scratch_unchecked:
  assumes "readable l" "l_len l \<ge> 2" "l_stride l \<noteq> 4" "\<not> alloc (of_nat (l_len l) * 8)"
  shows "beans_list_sort alloc env l kind = Fault \<and> beans_list_sort_by alloc env l thunk = Fault \<and>
    beans_list_sort_by_key alloc l key_fn = out_of_memory 0 0"
proof -
  define m where "m = (if l_len l > 1 then list_changed l LIST_CHANGE_SORT else l)"
  have m: "l_len m = l_len l" "l_stride m = l_stride l" "readable m" "slots m = slots l"
    using assms(1) by (auto simp: m_def list_changed_def readable_def list_ok_def live_def slots_def slot_of_elem_def [abs_def])
  have wide: "list_widen_from m (l_len m) = Ok (slots l)"
    using list_widen_from_slots [OF m(3), of "l_len m"] m length_slots [OF assms(1)] by simp
  have "slots l \<noteq> []" using assms(2) length_slots [OF assms(1)] by auto
  then show ?thesis
    using wide assms m length_slots [OF assms(1)]
    unfolding beans_list_sort_def beans_list_sort_by_def beans_list_sort_by_key_def sort_slots_def Let_def m_def [symmetric]
    by (simp add: list_radix_sort_int_def list_merge_sort_def list_sort_by_key_slots_def Let_def out_of_memory_def)
qed

theorem sort_scratch_unchecked_witness:
  "beans_list_sort (\<lambda>_. False) plain_env (demo_list\<lparr>l_buf := [[7], [9], [3], []], l_len := 3\<rparr>) 0 = Fault"
proof -
  let ?l = "demo_list\<lparr>l_buf := [[7], [9], [3], []], l_len := 3\<rparr>"
  have "readable ?l" by (simp add: readable_def demo_list_def list_ok_def list_stride_def live_def)
  then show ?thesis using sort_scratch_unchecked [of ?l "\<lambda>_. False" plain_env 0] by (simp add: demo_list_def)
qed

end
