(* ===== verification/Rt_Maps.thy ===== *)
theory Rt_Maps
  imports Rt_Sort
begin

text \<open>
  The hash map of the runtime (\<^verbatim>\<open>BMap\<close>), plain and insertion-ordered: a flat array of entries,
  an open-addressed index over it once the map outgrows a linear scan, tombstones in the index, and
  for the ordered map a bitmap of holes. An entry is a key and the words of its value: one word in
  the interleaved array, or \<^verbatim>\<open>value_stride\<close> bytes in the parallel buffer of wide values.

  The equality and the hash of the keys are those of the kind code in the slot environment; the
  raw-key entry points compare and mix the slots directly, as the code does.
\<close>

unbundle bit_operations_syntax

section \<open>State\<close>

record bmap =
  m_data :: "(slot \<times> elem) list"
  m_len :: nat
  m_cap :: nat
  m_idx :: "u64 list option"
  m_icap :: nat
  m_tombs :: nat
  m_used :: nat
  m_dead :: "bool list option"
  m_ordered :: bool
  m_wide :: bool
  m_vstride :: int
  m_vmask :: u64
  m_vcycle :: u64
  m_version :: u64
  m_key_owned :: bool
  m_val_owned :: bool

abbreviation (input) MAP_LINEAR_MAX :: nat where "MAP_LINEAR_MAX \<equiv> 8"
abbreviation (input) IDX_POS :: u64 where "IDX_POS \<equiv> 0xffffffff"
abbreviation (input) IDX_FRAG :: u64 where "IDX_FRAG \<equiv> 0xffffffff00000000"

definition map_dead :: "bmap \<Rightarrow> nat \<Rightarrow> bool" where
  "map_dead m p = (case m_dead m of None \<Rightarrow> False | Some bits \<Rightarrow> p < length bits \<and> bits ! p)"

definition dead_words :: "nat \<Rightarrow> nat" where
  "dead_words cap = (cap + 63) div 64"

definition map_bump_version :: "bmap \<Rightarrow> bmap" where
  "map_bump_version m = m\<lparr>m_version := m_version m + 1\<rparr>"

definition entry_at :: "bmap \<Rightarrow> nat \<Rightarrow> (slot \<times> elem) rt" where
  "entry_at m p = (if p < length (m_data m) then Ok (m_data m ! p) else Fault)"

definition put_entry :: "bmap \<Rightarrow> nat \<Rightarrow> slot \<times> elem \<Rightarrow> bmap rt" where
  "put_entry m p e =
     (if p < length (m_data m) then Ok (m\<lparr>m_data := (m_data m)[p := e]\<rparr>) else Fault)"

section \<open>Construction\<close>

definition beans_map_new :: "(u64 \<Rightarrow> bool) \<Rightarrow> bool \<Rightarrow> bool \<Rightarrow> bool \<Rightarrow> bmap rt" where
  "beans_map_new alloc key_ptr val_ptr ordered =
     (if \<not> alloc 64 then out_of_memory 0 0
      else Ok \<lparr>m_data = replicate 4 (0, [0]), m_len = 0, m_cap = 4, m_idx = None, m_icap = 0,
               m_tombs = 0, m_used = 0, m_dead = None, m_ordered = ordered, m_wide = False,
               m_vstride = 0, m_vmask = 0, m_vcycle = 0, m_version = 0, m_key_owned = key_ptr,
               m_val_owned = val_ptr\<rparr>)"

definition beans_map_new_typed_value ::
    "(u64 \<Rightarrow> bool) \<Rightarrow> bool \<Rightarrow> int \<Rightarrow> u64 \<Rightarrow> u64 \<Rightarrow> bool \<Rightarrow> bmap rt" where
  "beans_map_new_typed_value alloc key_ptr value_stride value_ptr_mask value_cycle_mask ordered =
     (if value_stride \<le> 0 \<or> value_stride > 2 ^ 30 then Panic (asc ''invalid map value size'') 0 0
      else rt_bind (beans_map_new alloc key_ptr (value_ptr_mask \<noteq> 0) ordered) (\<lambda>m.
        if \<not> alloc (4 * of_int value_stride) then out_of_memory 0 0
        else Ok (m\<lparr>m_wide := True, m_vstride := value_stride, m_vmask := value_ptr_mask,
                   m_vcycle := value_cycle_mask\<rparr>)))"

section \<open>The index\<close>

text \<open>An index word: the high half of the hash and the entry's position plus two.\<close>

definition idx_word :: "u64 \<Rightarrow> nat \<Rightarrow> u64" where
  "idx_word h p = (h AND IDX_FRAG) OR of_nat (p + 2)"

text \<open>
  The probe loops run until they meet what they look for. The index has \<open>icap\<close> slots and the walk is
  cyclic, so a walk that has not ended after \<open>icap\<close> steps never ends; that outcome is \<open>Fault\<close>.
\<close>

fun idx_free_slot :: "u64 list \<Rightarrow> u64 \<Rightarrow> nat \<Rightarrow> u64 \<Rightarrow> u64 rt" where
  "idx_free_slot ix msk 0 i = Fault"
| "idx_free_slot ix msk (Suc fuel) i =
     (if unat i < length ix then
        if ix ! unat i AND IDX_POS \<noteq> 0 then idx_free_slot ix msk fuel ((i + 1) AND msk) else Ok i
      else Fault)"

text \<open>The compaction of \<^verbatim>\<open>map_reindex_to\<close>: \<open>p\<close> reads, \<open>w\<close> writes.\<close>

function compact_loop :: "bmap \<Rightarrow> nat \<Rightarrow> nat \<Rightarrow> bmap rt" where
  "compact_loop m p w =
     (if p < m_used m then
        if map_dead m p then compact_loop m (p + 1) w
        else if w \<noteq> p then
          rt_bind (entry_at m p) (\<lambda>e. rt_bind (put_entry m w e) (\<lambda>m'.
            compact_loop (m\<lparr>m_data := m_data m'\<rparr>) (p + 1) (w + 1)))
        else compact_loop m (p + 1) (w + 1)
      else Ok (m\<lparr>m_dead := None, m_used := w\<rparr>))"
  by pat_completeness auto

termination compact_loop
  by (relation "measure (\<lambda>(m, p, w). m_used m - p)") auto

declare compact_loop.simps [simp del]

text \<open>The index size starts at 16, so the test \<open>0 < cap\<close> always holds.\<close>

function index_cap :: "nat \<Rightarrow> nat \<Rightarrow> nat" where
  "index_cap wanted cap = (if wanted * 3 \<ge> cap * 2 \<and> 0 < cap then index_cap wanted (cap * 2) else cap)"
  by pat_completeness auto

termination index_cap
  by (relation "measure (\<lambda>(wanted, cap). wanted * 3 + 1 - cap)") auto

declare index_cap.simps [simp del]

text \<open>The fill loop, from entry \<open>p\<close> on.\<close>

function index_fill ::
    "slot_env \<Rightarrow> int \<Rightarrow> (slot \<times> elem) list \<Rightarrow> nat \<Rightarrow> nat \<Rightarrow> u64 list \<Rightarrow> u64 list rt" where
  "index_fill env kind data len p ix =
     (if p < len then
        if p < length data then
          let h = slot_hash env (fst (data ! p)) kind; msk = of_nat (length ix) - 1 in
          rt_bind (idx_free_slot ix msk (length ix) (h AND msk)) (\<lambda>i.
            index_fill env kind data len (p + 1) (ix[unat i := idx_word h p]))
        else Fault
      else Ok ix)"
  by pat_completeness auto

termination index_fill
  by (relation "measure (\<lambda>(env, kind, data, len, p, ix). len - p)") auto

declare index_fill.simps [simp del]

definition map_reindex_to ::
    "(u64 \<Rightarrow> bool) \<Rightarrow> slot_env \<Rightarrow> bmap \<Rightarrow> int \<Rightarrow> nat \<Rightarrow> bmap rt" where
  "map_reindex_to alloc env m kind reserve =
     rt_bind (if m_dead m \<noteq> None then compact_loop m 0 0 else Ok m) (\<lambda>m.
       let wanted = (if m_len m > reserve then m_len m else reserve);
           cap = index_cap wanted 16 in
       if \<not> alloc (of_nat cap * 8) then out_of_memory 0 0
       else rt_bind (index_fill env kind (m_data m) (m_len m) 0 (replicate cap 0)) (\<lambda>ix.
         Ok (m\<lparr>m_idx := Some ix, m_icap := cap, m_tombs := 0\<rparr>)))"

definition map_reindex :: "(u64 \<Rightarrow> bool) \<Rightarrow> slot_env \<Rightarrow> bmap \<Rightarrow> int \<Rightarrow> bmap rt" where
  "map_reindex alloc env m kind = map_reindex_to alloc env m kind 0"

text \<open>
  Growing the entry arrays to \<open>cap\<close> cells. The byte counts are 64-bit products; a refused buffer is a
  panic at the given position.
\<close>

definition map_grow :: "(u64 \<Rightarrow> bool) \<Rightarrow> bmap \<Rightarrow> nat \<Rightarrow> int \<Rightarrow> int \<Rightarrow> bmap rt" where
  "map_grow alloc m cap line col =
     (let bytes = of_nat cap * 16; wbytes = of_nat cap * of_int (m_vstride m);
          cells = (if m_wide m then min (unat bytes div 16) (cells_of wbytes (m_vstride m))
                   else unat bytes div 16) in
      if \<not> alloc bytes \<or> (m_wide m \<and> \<not> alloc wbytes) then out_of_memory line col
      else if m_dead m \<noteq> None \<and> \<not> alloc (of_nat (dead_words cap) * 8) then out_of_memory line col
      else Ok (m\<lparr>m_data := take cells (m_data m) @ replicate (cells - length (m_data m)) (0, []),
                 m_dead := map_option (\<lambda>bits. bits @ replicate (64 * dead_words cap - length bits) False)
                             (m_dead m),
                 m_cap := cap\<rparr>))"

partial_function (option) map_reserve_double :: "nat \<Rightarrow> nat \<Rightarrow> nat option" where
  "map_reserve_double cap capacity =
     (if cap < capacity \<and> cap \<le> 2 ^ 59 then map_reserve_double (cap * 2) capacity else Some cap)"

declare map_reserve_double.simps [code]

definition beans_map_reserve ::
    "(u64 \<Rightarrow> bool) \<Rightarrow> slot_env \<Rightarrow> bmap \<Rightarrow> int \<Rightarrow> int \<Rightarrow> int \<Rightarrow> int \<Rightarrow> bmap rt" where
  "beans_map_reserve alloc env m capacity kind line col =
     (if capacity < 0
      then rt_panic 64 ''negative reserve capacity %lld'' [ArgI64 capacity] line col
      else if capacity > 2 ^ 58 then Panic (asc ''reserve capacity too large'') line col
      else
        let m = map_bump_version m in
        rt_bind
          (if capacity > int (m_cap m) then
             (case map_reserve_double (m_cap m) (nat capacity) of
                None \<Rightarrow> Fault
              | Some cap \<Rightarrow>
                  map_grow alloc m (if int cap < capacity then nat capacity else cap) line col)
           else Ok m)
          (\<lambda>m. map_reindex_to alloc env m kind (nat capacity)))"

section \<open>Lookup\<close>

text \<open>
  The outcome of a search: the entry's position, or that there is none; the hash, filled in only when
  the index is active; and the index slot of the hit, or the slot where the key would be inserted.
\<close>

type_synonym found = "nat option \<times> u64 \<times> u64"

fun scan_keys :: "(slot \<Rightarrow> bool) \<Rightarrow> (slot \<times> elem) list \<Rightarrow> nat \<Rightarrow> nat \<Rightarrow> nat option" where
  "scan_keys hit data i 0 = None"
| "scan_keys hit data i (Suc n) =
     (if hit (fst (data ! i)) then Some i else scan_keys hit data (i + 1) n)"

fun idx_probe ::
    "(slot \<Rightarrow> bool) \<Rightarrow> bmap \<Rightarrow> u64 list \<Rightarrow> u64 \<Rightarrow> u64 \<Rightarrow> nat \<Rightarrow> u64 \<Rightarrow> u64 option \<Rightarrow>
     (nat option \<times> u64) rt" where
  "idx_probe hit m ix msk frag 0 i first_tomb = Fault"
| "idx_probe hit m ix msk frag (Suc fuel) i first_tomb =
     (if unat i < length ix then
        let w = ix ! unat i; st = w AND IDX_POS in
        if st = 0 then Ok (None, case first_tomb of Some t \<Rightarrow> t | None \<Rightarrow> i)
        else
          let tomb = (if st = 1 \<and> first_tomb = None then Some i else first_tomb) in
          if st \<ge> 2 \<and> w AND IDX_FRAG = frag then
            rt_bind (entry_at m (unat st - 2)) (\<lambda>e.
              if hit (fst e) then Ok (Some (unat st - 2), i)
              else idx_probe hit m ix msk frag fuel ((i + 1) AND msk) tomb)
          else idx_probe hit m ix msk frag fuel ((i + 1) AND msk) tomb
      else Fault)"

definition map_find :: "slot_env \<Rightarrow> bmap \<Rightarrow> slot \<Rightarrow> int \<Rightarrow> found rt" where
  "map_find env m key kind =
     (case m_idx m of
        None \<Rightarrow>
          if m_len m \<le> length (m_data m)
          then Ok (scan_keys (\<lambda>k. slot_eq env k key kind) (m_data m) 0 (m_len m), 0, 0) else Fault
      | Some ix \<Rightarrow>
          let h = slot_hash env key kind; msk = of_nat (m_icap m) - 1 in
          rt_bind (idx_probe (\<lambda>k. slot_eq env k key kind) m ix msk (h AND IDX_FRAG) (m_icap m)
                     (h AND msk) None)
            (\<lambda>(r, slt). Ok (r, h, slt)))"

definition map_find_raw :: "bmap \<Rightarrow> slot \<Rightarrow> found rt" where
  "map_find_raw m key =
     (case m_idx m of
        None \<Rightarrow>
          if m_len m \<le> length (m_data m)
          then Ok (scan_keys (\<lambda>k. k = key) (m_data m) 0 (m_len m), 0, 0) else Fault
      | Some ix \<Rightarrow>
          let h = beans_mix64 key; msk = of_nat (m_icap m) - 1 in
          rt_bind (idx_probe (\<lambda>k. k = key) m ix msk (h AND IDX_FRAG) (m_icap m) (h AND msk) None)
            (\<lambda>(r, slt). Ok (r, h, slt)))"

section \<open>Insertion of a new key\<close>

text \<open>The part common to \<^verbatim>\<open>map_insert_miss\<close> and its typed sibling: room, store, index.\<close>

definition map_append_entry ::
    "(u64 \<Rightarrow> bool) \<Rightarrow> slot_env \<Rightarrow> bmap \<Rightarrow> slot \<Rightarrow> elem \<Rightarrow> u64 \<Rightarrow> int \<Rightarrow> u64 \<Rightarrow> bmap rt" where
  "map_append_entry alloc env m key val h kind insert_slot =
     rt_bind (if m_used m = m_cap m then map_grow alloc m (m_cap m * 2) 0 0 else Ok m) (\<lambda>m.
     rt_bind (put_entry m (m_used m) (key, val)) (\<lambda>m.
       let m = map_bump_version (m\<lparr>m_used := m_used m + 1, m_len := m_len m + 1\<rparr>) in
       case m_idx m of
         None \<Rightarrow> if m_len m > MAP_LINEAR_MAX then map_reindex alloc env m kind else Ok m
       | Some ix \<Rightarrow>
           if (m_used m + m_tombs m) * 3 \<ge> m_icap m * 2 then map_reindex alloc env m kind
           else if unat insert_slot < length ix then
             Ok (m\<lparr>m_tombs := (if ix ! unat insert_slot AND IDX_POS = 1 then m_tombs m - 1 else m_tombs m),
                    m_idx := Some (ix[unat insert_slot := (h AND IDX_FRAG) OR of_nat (m_used m + 1)])\<rparr>)
           else Fault))"

type_synonym 'a meff = "('a \<times> effect list) rt"

definition cc_write_if :: "bool \<Rightarrow> slot \<Rightarrow> effect list" where
  "cc_write_if owned v = (if owned then [CcWrite v] else [])"

definition release_if :: "bool \<Rightarrow> slot \<Rightarrow> effect list" where
  "release_if owned v = (if owned then [Release v] else [])"

definition map_insert_miss ::
    "(u64 \<Rightarrow> bool) \<Rightarrow> slot_env \<Rightarrow> bmap \<Rightarrow> slot \<Rightarrow> slot \<Rightarrow> u64 \<Rightarrow> int \<Rightarrow> u64 \<Rightarrow> bmap meff" where
  "map_insert_miss alloc env m key val h kind insert_slot =
     (let eff = cc_write_if (m_key_owned m) key @ cc_write_if (m_val_owned m) val in
      rt_bind (map_append_entry alloc env m key [val] h kind insert_slot) (\<lambda>m. Ok (m, eff)))"

definition map_insert_miss_typed ::
    "(u64 \<Rightarrow> bool) \<Rightarrow> slot_env \<Rightarrow> bmap \<Rightarrow> slot \<Rightarrow> elem \<Rightarrow> u64 \<Rightarrow> int \<Rightarrow> u64 \<Rightarrow> bmap meff" where
  "map_insert_miss_typed alloc env m key val h kind insert_slot =
     (let eff = cc_write_if (m_key_owned m) key @ cc_write_typed val (m_vmask m) in
      rt_bind (map_append_entry alloc env m key val h kind insert_slot) (\<lambda>m. Ok (m, eff)))"

section \<open>Set, add and insert\<close>

definition map_release_wide_value :: "bmap \<Rightarrow> elem \<Rightarrow> effect list" where
  "map_release_wide_value m value' = release_masked_slots value' (m_vmask m) False"

definition map_retain_wide_value :: "bmap \<Rightarrow> elem \<Rightarrow> effect list" where
  "map_retain_wide_value m value' = map Retain (masked_children value' (m_vmask m) False)"

text \<open>The hit path: the new value is stored first and the old value is released last.\<close>

definition beans_map_set ::
    "(u64 \<Rightarrow> bool) \<Rightarrow> slot_env \<Rightarrow> bmap \<Rightarrow> slot \<Rightarrow> slot \<Rightarrow> int \<Rightarrow> bmap meff" where
  "beans_map_set alloc env m key val kind =
     rt_bind (map_find env m key kind) (\<lambda>(r, h, slt).
       case r of
         Some i \<Rightarrow>
           rt_bind (entry_at m i) (\<lambda>(k, old).
           rt_bind (put_entry m i (k, [val])) (\<lambda>m'.
           Ok (m', cc_write_if (m_val_owned m) val @ release_if (m_key_owned m) key @
                   (if kind = 4 \<and> m_key_owned m then [PossibleRoot] else []) @
                   (if m_val_owned m then map Release old else []))))
       | None \<Rightarrow>
           rt_bind (map_insert_miss alloc env m key val h kind slt) (\<lambda>(m', eff).
             Ok (m', eff @ (if kind = 4 then [PossibleRoot] else []))))"

definition beans_map_set_raw ::
    "(u64 \<Rightarrow> bool) \<Rightarrow> slot_env \<Rightarrow> bmap \<Rightarrow> slot \<Rightarrow> slot \<Rightarrow> bmap meff" where
  "beans_map_set_raw alloc env m key val =
     rt_bind (map_find_raw m key) (\<lambda>(r, h, slt).
       case r of
         Some i \<Rightarrow>
           rt_bind (entry_at m i) (\<lambda>(k, old).
           rt_bind (put_entry m i (k, [val])) (\<lambda>m'.
           Ok (m', cc_write_if (m_val_owned m) val @ release_if (m_key_owned m) key @
                   (if m_val_owned m then map Release old else []))))
       | None \<Rightarrow> map_insert_miss alloc env m key val h 0 slt)"

text \<open>\<^verbatim>\<open>rt_swap_wide\<close>: the entry takes the new words, the caller's buffer the old ones.\<close>

definition rt_swap_wide :: "bmap \<Rightarrow> nat \<Rightarrow> elem \<Rightarrow> (bmap \<times> elem) rt" where
  "rt_swap_wide m i incoming =
     rt_bind (entry_at m i) (\<lambda>(k, old). rt_bind (put_entry m i (k, incoming)) (\<lambda>m'. Ok (m', old)))"

definition beans_map_set_typed ::
    "(u64 \<Rightarrow> bool) \<Rightarrow> slot_env \<Rightarrow> bmap \<Rightarrow> slot \<Rightarrow> elem \<Rightarrow> int \<Rightarrow> bmap meff" where
  "beans_map_set_typed alloc env m key val kind =
     rt_bind (map_find env m key kind) (\<lambda>(r, h, slt).
       case r of
         Some i \<Rightarrow>
           rt_bind (rt_swap_wide m i val) (\<lambda>(m', old).
           Ok (m', cc_write_typed val (m_vmask m) @ release_if (m_key_owned m) key @
                   (if m_vcycle m \<noteq> 0 \<or> kind = 4 then [PossibleRoot] else []) @
                   map_release_wide_value m old))
       | None \<Rightarrow>
           rt_bind (map_insert_miss_typed alloc env m key val h kind slt) (\<lambda>(m', eff).
             Ok (m', eff @ (if m_vcycle m \<noteq> 0 \<or> kind = 4 then [PossibleRoot] else []))))"

definition beans_map_set_typed_raw ::
    "(u64 \<Rightarrow> bool) \<Rightarrow> slot_env \<Rightarrow> bmap \<Rightarrow> slot \<Rightarrow> elem \<Rightarrow> bmap meff" where
  "beans_map_set_typed_raw alloc env m key val =
     rt_bind (map_find_raw m key) (\<lambda>(r, h, slt).
       case r of
         Some i \<Rightarrow>
           rt_bind (rt_swap_wide m i val) (\<lambda>(m', old).
           Ok (m', cc_write_typed val (m_vmask m) @ release_if (m_key_owned m) key @
                   (if m_vcycle m \<noteq> 0 then [PossibleRoot] else []) @ map_release_wide_value m old))
       | None \<Rightarrow>
           rt_bind (map_insert_miss_typed alloc env m key val h 0 slt) (\<lambda>(m', eff).
             Ok (m', eff @ (if m_vcycle m \<noteq> 0 then [PossibleRoot] else []))))"

text \<open>A one-word value read as a slot.\<close>

definition slot_value :: "elem \<Rightarrow> slot rt" where
  "slot_value e = (case e of w # _ \<Rightarrow> Ok w | [] \<Rightarrow> Fault)"

definition beans_map_add ::
    "(u64 \<Rightarrow> bool) \<Rightarrow> slot_env \<Rightarrow> bmap \<Rightarrow> slot \<Rightarrow> slot \<Rightarrow> int \<Rightarrow> bmap meff" where
  "beans_map_add alloc env m key delta kind =
     rt_bind (map_find env m key kind) (\<lambda>(r, h, slt).
       case r of
         Some i \<Rightarrow>
           rt_bind (entry_at m i) (\<lambda>(k, old). rt_bind (slot_value old) (\<lambda>v.
           rt_bind (put_entry m i (k, [v + delta])) (\<lambda>m'. Ok (m', release_if (m_key_owned m) key))))
       | None \<Rightarrow> map_insert_miss alloc env m key delta h kind slt)"

definition beans_map_add_raw ::
    "(u64 \<Rightarrow> bool) \<Rightarrow> slot_env \<Rightarrow> bmap \<Rightarrow> slot \<Rightarrow> slot \<Rightarrow> bmap meff" where
  "beans_map_add_raw alloc env m key delta =
     rt_bind (map_find_raw m key) (\<lambda>(r, h, slt).
       case r of
         Some i \<Rightarrow>
           rt_bind (entry_at m i) (\<lambda>(k, old). rt_bind (slot_value old) (\<lambda>v.
           rt_bind (put_entry m i (k, [v + delta])) (\<lambda>m'. Ok (m', release_if (m_key_owned m) key))))
       | None \<Rightarrow> map_insert_miss alloc env m key delta h 0 slt)"

text \<open>A declined insertion releases the value it was given, then the key.\<close>

definition beans_map_insert ::
    "(u64 \<Rightarrow> bool) \<Rightarrow> slot_env \<Rightarrow> bmap \<Rightarrow> slot \<Rightarrow> slot \<Rightarrow> int \<Rightarrow> (bmap \<times> bool) meff" where
  "beans_map_insert alloc env m key val kind =
     rt_bind (map_find env m key kind) (\<lambda>(r, h, slt).
       case r of
         Some i \<Rightarrow> Ok ((m, False), release_if (m_val_owned m \<and> val \<noteq> 0) val @
                                     release_if (m_key_owned m \<and> key \<noteq> 0) key)
       | None \<Rightarrow>
           rt_bind (map_insert_miss alloc env m key val h kind slt) (\<lambda>(m', eff).
             Ok ((m', True), eff @ (if kind = 4 then [PossibleRoot] else []))))"

definition beans_map_insert_raw ::
    "(u64 \<Rightarrow> bool) \<Rightarrow> slot_env \<Rightarrow> bmap \<Rightarrow> slot \<Rightarrow> slot \<Rightarrow> (bmap \<times> bool) meff" where
  "beans_map_insert_raw alloc env m key val =
     rt_bind (map_find_raw m key) (\<lambda>(r, h, slt).
       case r of
         Some i \<Rightarrow> Ok ((m, False), release_if (m_val_owned m \<and> val \<noteq> 0) val @
                                     release_if (m_key_owned m \<and> key \<noteq> 0) key)
       | None \<Rightarrow> rt_bind (map_insert_miss alloc env m key val h 0 slt) (\<lambda>(m', eff). Ok ((m', True), eff)))"

definition beans_map_insert_typed ::
    "(u64 \<Rightarrow> bool) \<Rightarrow> slot_env \<Rightarrow> bmap \<Rightarrow> slot \<Rightarrow> elem \<Rightarrow> int \<Rightarrow> (bmap \<times> bool) meff" where
  "beans_map_insert_typed alloc env m key val kind =
     rt_bind (map_find env m key kind) (\<lambda>(r, h, slt).
       case r of
         Some i \<Rightarrow> Ok ((m, False), map_release_wide_value m val @ release_if (m_key_owned m \<and> key \<noteq> 0) key)
       | None \<Rightarrow>
           rt_bind (map_insert_miss_typed alloc env m key val h kind slt) (\<lambda>(m', eff).
             Ok ((m', True), eff @ (if m_vcycle m \<noteq> 0 \<or> kind = 4 then [PossibleRoot] else []))))"

definition beans_map_insert_typed_raw ::
    "(u64 \<Rightarrow> bool) \<Rightarrow> slot_env \<Rightarrow> bmap \<Rightarrow> slot \<Rightarrow> elem \<Rightarrow> (bmap \<times> bool) meff" where
  "beans_map_insert_typed_raw alloc env m key val =
     rt_bind (map_find_raw m key) (\<lambda>(r, h, slt).
       case r of
         Some i \<Rightarrow> Ok ((m, False), map_release_wide_value m val @ release_if (m_key_owned m \<and> key \<noteq> 0) key)
       | None \<Rightarrow>
           rt_bind (map_insert_miss_typed alloc env m key val h 0 slt) (\<lambda>(m', eff).
             Ok ((m', True), eff @ (if m_vcycle m \<noteq> 0 then [PossibleRoot] else []))))"

section \<open>Reading\<close>

definition beans_map_get :: "slot_env \<Rightarrow> bmap \<Rightarrow> slot \<Rightarrow> int \<Rightarrow> (bool \<times> slot) rt" where
  "beans_map_get env m key kind =
     rt_bind (map_find env m key kind) (\<lambda>(r, _).
       case r of
         Some i \<Rightarrow> rt_bind (entry_at m i) (\<lambda>(_, v). rt_bind (slot_value v) (\<lambda>w. Ok (True, w)))
       | None \<Rightarrow> Ok (False, 0))"

definition beans_map_get_raw :: "bmap \<Rightarrow> slot \<Rightarrow> (bool \<times> slot) rt" where
  "beans_map_get_raw m key =
     rt_bind (map_find_raw m key) (\<lambda>(r, _).
       case r of
         Some i \<Rightarrow> rt_bind (entry_at m i) (\<lambda>(_, v). rt_bind (slot_value v) (\<lambda>w. Ok (True, w)))
       | None \<Rightarrow> Ok (False, 0))"

definition beans_map_contains_raw :: "bmap \<Rightarrow> slot \<Rightarrow> bool rt" where
  "beans_map_contains_raw m key = rt_bind (map_find_raw m key) (\<lambda>(r, _). Ok (r \<noteq> None))"

text \<open>The typed readers copy the value's words out, or answer that there is none.\<close>

definition beans_map_get_typed :: "slot_env \<Rightarrow> bmap \<Rightarrow> slot \<Rightarrow> int \<Rightarrow> elem option rt" where
  "beans_map_get_typed env m key kind =
     rt_bind (map_find env m key kind) (\<lambda>(r, _).
       case r of Some i \<Rightarrow> rt_bind (entry_at m i) (\<lambda>(_, v). Ok (Some v)) | None \<Rightarrow> Ok None)"

definition beans_map_get_typed_raw :: "bmap \<Rightarrow> slot \<Rightarrow> elem option rt" where
  "beans_map_get_typed_raw m key =
     rt_bind (map_find_raw m key) (\<lambda>(r, _).
       case r of Some i \<Rightarrow> rt_bind (entry_at m i) (\<lambda>(_, v). Ok (Some v)) | None \<Rightarrow> Ok None)"

section \<open>Removal\<close>

text \<open>The walk of the swap removal: from the moved key's home to the slot that holds its position.\<close>

fun idx_find_pos :: "u64 list \<Rightarrow> u64 \<Rightarrow> nat \<Rightarrow> nat \<Rightarrow> u64 \<Rightarrow> u64 rt" where
  "idx_find_pos ix msk pos 0 at = Fault"
| "idx_find_pos ix msk pos (Suc fuel) at =
     (if unat at < length ix then
        if ix ! unat at AND IDX_POS = of_nat (pos + 2) then Ok at
        else idx_find_pos ix msk pos fuel ((at + 1) AND msk)
      else Fault)"

text \<open>A value whose bytes are all zero, and an emptied cell of the entry array.\<close>

definition zero_value :: "bmap \<Rightarrow> elem" where
  "zero_value m = replicate (if m_wide m then nat ((m_vstride m + 7) div 8) else 1) 0"

definition hole :: "bmap \<Rightarrow> slot \<times> elem" where
  "hole m = (0, zero_value m)"

definition map_unlink_entry ::
    "(u64 \<Rightarrow> bool) \<Rightarrow> slot_env \<Rightarrow> bmap \<Rightarrow> nat \<Rightarrow> u64 \<Rightarrow> int \<Rightarrow> bmap rt" where
  "map_unlink_entry alloc env m i slt kind =
     (let last = m_used m - 1 in
      case m_idx m of
        None \<Rightarrow>
          if \<not> (i < m_used m \<and> m_used m \<le> length (m_data m)) then Fault
          else
            let d = m_data m;
                d' = (if m_ordered m
                      then take i d @ take (m_used m - i - 1) (drop (i + 1) d) @ drop last d
                      else if i \<noteq> last then d[i := d ! last] else d) in
            Ok (m\<lparr>m_data := (if m_wide m then d'[last := (fst (d' ! last), zero_value m)] else d'),
                   m_len := m_len m - 1, m_used := last\<rparr>)
      | Some ix \<Rightarrow>
          if \<not> (unat slt < length ix \<and> i < m_used m \<and> m_used m \<le> length (m_data m)) then Fault
          else if \<not> m_ordered m then
            rt_bind
              (let ix1 = ix[unat slt := 1] in
               if i \<noteq> last then
                 let h = slot_hash env (fst (m_data m ! last)) kind; msk = of_nat (m_icap m) - 1 in
                 rt_bind (idx_find_pos ix1 msk last (m_icap m) (h AND msk)) (\<lambda>at.
                   Ok (ix1[unat at := (ix1 ! unat at AND IDX_FRAG) OR of_nat (i + 2)],
                       (m_data m)[i := m_data m ! last]))
               else Ok (ix1, m_data m))
              (\<lambda>(ix', d).
                let m' = m\<lparr>m_idx := Some ix', m_tombs := m_tombs m + 1, m_data := d[last := hole m],
                           m_len := m_len m - 1, m_used := last\<rparr> in
                if m_tombs m' > m_len m' then map_reindex alloc env m' kind else Ok m')
          else
            let bits = (case m_dead m of
                          Some bits \<Rightarrow> Some bits
                        | None \<Rightarrow> if alloc (of_nat (dead_words (m_cap m)) * 8)
                                  then Some (replicate (64 * dead_words (m_cap m)) False) else None) in
            (case bits of
               None \<Rightarrow> Fault
             | Some bits \<Rightarrow>
                 if i < length bits then
                   let m' = m\<lparr>m_data := (m_data m)[i := hole m], m_dead := Some (bits[i := True]),
                              m_len := m_len m - 1, m_idx := Some (ix[unat slt := 1]),
                              m_tombs := m_tombs m + 1\<rparr> in
                   if m_used m' > m_len m' * 2 then map_reindex alloc env m' kind else Ok m'
                 else Fault))"

text \<open>The removed key and value are released after the entry is gone from every view of the map.\<close>

definition map_remove_found ::
    "(u64 \<Rightarrow> bool) \<Rightarrow> slot_env \<Rightarrow> bmap \<Rightarrow> nat \<Rightarrow> u64 \<Rightarrow> int \<Rightarrow> bmap meff" where
  "map_remove_found alloc env m i slt kind =
     (let m = map_bump_version m in
      rt_bind (entry_at m i) (\<lambda>(k, v).
      rt_bind (map_unlink_entry alloc env m i slt kind) (\<lambda>m'.
        Ok (m', release_if (m_key_owned m \<and> k \<noteq> 0) k @
                (if m_wide m then map Release (rev (masked_children v (m_vmask m) False))
                 else if m_val_owned m then map Release (filter (\<lambda>w. w \<noteq> 0) v) else [])))))"

definition beans_map_remove ::
    "(u64 \<Rightarrow> bool) \<Rightarrow> slot_env \<Rightarrow> bmap \<Rightarrow> slot \<Rightarrow> int \<Rightarrow> (bmap \<times> bool) meff" where
  "beans_map_remove alloc env m key kind =
     rt_bind (map_find env m key kind) (\<lambda>(r, h, slt).
       case r of
         None \<Rightarrow> Ok ((m, False), [])
       | Some i \<Rightarrow> rt_bind (map_remove_found alloc env m i slt kind) (\<lambda>(m', eff). Ok ((m', True), eff)))"

definition beans_map_remove_raw ::
    "(u64 \<Rightarrow> bool) \<Rightarrow> slot_env \<Rightarrow> bmap \<Rightarrow> slot \<Rightarrow> (bmap \<times> bool) meff" where
  "beans_map_remove_raw alloc env m key =
     rt_bind (map_find_raw m key) (\<lambda>(r, h, slt).
       case r of
         None \<Rightarrow> Ok ((m, False), [])
       | Some i \<Rightarrow> rt_bind (map_remove_found alloc env m i slt 0) (\<lambda>(m', eff). Ok ((m', True), eff)))"

section \<open>Whole-map operations\<close>

text \<open>The entries a walk over the map visits, in order.\<close>

definition live_entries :: "bmap \<Rightarrow> (slot \<times> elem) list" where
  "live_entries m = map (\<lambda>p. m_data m ! p) (filter (\<lambda>p. \<not> map_dead m p) [0..<m_used m])"

definition entry_retains :: "bmap \<Rightarrow> slot \<times> elem \<Rightarrow> effect list" where
  "entry_retains m e =
     (if m_key_owned m \<and> fst e \<noteq> 0 then [Retain (fst e)] else []) @
     (if m_wide m then map_retain_wide_value m (snd e)
      else if m_val_owned m then map Retain (filter (\<lambda>w. w \<noteq> 0) (snd e)) else [])"

definition beans_map_clone ::
    "(u64 \<Rightarrow> bool) \<Rightarrow> slot_env \<Rightarrow> bmap \<Rightarrow> int \<Rightarrow> bmap meff" where
  "beans_map_clone alloc env m kind =
     (if \<not> m_used m \<le> length (m_data m) then Fault
      else
        rt_bind (if m_wide m
                 then beans_map_new_typed_value alloc (m_key_owned m) (m_vstride m) (m_vmask m)
                        (m_vcycle m) (m_ordered m)
                 else beans_map_new alloc (m_key_owned m) (m_val_owned m) (m_ordered m)) (\<lambda>c.
        rt_bind (if m_len m > m_cap c then map_grow alloc c (m_len m) 0 0 else Ok c) (\<lambda>c.
          let es = live_entries m; n = length es in
          if n \<le> length (m_data c) then
            let c = c\<lparr>m_data := es @ drop n (m_data c), m_used := n, m_len := n\<rparr> in
            rt_bind (if m_len c > MAP_LINEAR_MAX then map_reindex alloc env c kind else Ok c)
              (\<lambda>c. Ok (c, concat (map (entry_retains m) es)))
          else Fault)))"

text \<open>Pushing the visited keys or values into a new list.\<close>

fun push_each ::
    "(blist \<Rightarrow> 'v \<Rightarrow> blist leff) \<Rightarrow> ('v \<Rightarrow> effect list) \<Rightarrow> blist \<Rightarrow> 'v list \<Rightarrow> blist leff" where
  "push_each push retains l [] = Ok (l, [])"
| "push_each push retains l (v # vs) =
     rt_bind (push l v) (\<lambda>(l', eff).
     rt_bind (push_each push retains l' vs) (\<lambda>(l'', effs). Ok (l'', retains v @ eff @ effs)))"

definition beans_map_keys :: "(u64 \<Rightarrow> bool) \<Rightarrow> bmap \<Rightarrow> blist leff" where
  "beans_map_keys alloc m =
     (if \<not> m_used m \<le> length (m_data m) then Fault
      else rt_bind (list_new_capacity alloc (-8) (if m_key_owned m then 1 else 0) (int (m_len m)) 0 0) (\<lambda>l.
        push_each (beans_list_push alloc)
          (\<lambda>k. if m_key_owned m \<and> k \<noteq> 0 then [Retain k] else []) l (map fst (live_entries m))))"

text \<open>A typed key lives behind its slot: \<open>key_words\<close> reads it.\<close>

definition beans_map_keys_typed ::
    "(u64 \<Rightarrow> bool) \<Rightarrow> (slot \<Rightarrow> elem) \<Rightarrow> bmap \<Rightarrow> int \<Rightarrow> u64 \<Rightarrow> blist leff" where
  "beans_map_keys_typed alloc key_words m stride pmask =
     (if stride \<le> 0 \<or> stride > 2 ^ 30 then Panic (asc ''invalid map key size'') 0 0
      else if \<not> m_used m \<le> length (m_data m) then Fault
      else rt_bind (list_new_capacity alloc stride pmask (int (m_len m)) 0 0) (\<lambda>l.
        push_each (beans_list_push_typed alloc) (\<lambda>k. map Retain (masked_children k pmask False)) l
          (map (\<lambda>e. key_words (fst e)) (live_entries m))))"

definition beans_map_values :: "(u64 \<Rightarrow> bool) \<Rightarrow> bmap \<Rightarrow> blist leff" where
  "beans_map_values alloc m =
     (if \<not> m_used m \<le> length (m_data m) then Fault
      else if m_wide m then
        rt_bind (list_new_capacity alloc (m_vstride m) (m_vmask m) (int (m_len m)) 0 0) (\<lambda>l.
          push_each (beans_list_push_typed alloc) (map_retain_wide_value m) l
            (map snd (live_entries m)))
      else
        rt_bind (list_new_capacity alloc (-8) (if m_val_owned m then 1 else 0) (int (m_len m)) 0 0) (\<lambda>l.
          push_each (beans_list_push alloc)
            (\<lambda>v. if m_val_owned m \<and> v \<noteq> 0 then [Retain v] else []) l
            (map (\<lambda>e. hd (snd e)) (live_entries m))))"

section \<open>Iteration\<close>

definition beans_map_iter_version :: "bmap \<Rightarrow> u64" where
  "beans_map_iter_version m = m_version m"

function skip_dead :: "bmap \<Rightarrow> nat \<Rightarrow> nat" where
  "skip_dead m cursor =
     (if cursor < m_used m \<and> map_dead m cursor then skip_dead m (cursor + 1) else cursor)"
  by pat_completeness auto

termination skip_dead
  by (relation "measure (\<lambda>(m, cursor). m_used m - cursor)") auto

declare skip_dead.simps [simp del]

definition beans_map_iter_next :: "bmap \<Rightarrow> nat \<Rightarrow> u64 \<Rightarrow> int \<Rightarrow> int \<Rightarrow> int rt" where
  "beans_map_iter_next m cursor version line col =
     (if m_version m \<noteq> version then Panic (asc ''map changed during iteration'') line col
      else
        let c = skip_dead m cursor in Ok (if c < m_used m then int c else -1))"

definition beans_map_iter_key :: "bmap \<Rightarrow> nat \<Rightarrow> slot rt" where
  "beans_map_iter_key m entry = rt_bind (entry_at m entry) (\<lambda>(k, _). Ok k)"

definition beans_map_iter_value :: "bmap \<Rightarrow> nat \<Rightarrow> elem rt" where
  "beans_map_iter_value m entry = rt_bind (entry_at m entry) (\<lambda>(_, v). Ok v)"

section \<open>Clearing\<close>

text \<open>
  \<^verbatim>\<open>rt_map_clear_from\<close>, from entry \<open>n - 1\<close> down: the value of an entry is released before its key,
  and the key is read from the entry again after the value's release has run. As for lists, \<open>run\<close>
  is what the releases do to the map itself.
\<close>

definition clear_value_releases :: "bmap \<Rightarrow> elem \<Rightarrow> effect list" where
  "clear_value_releases m v =
     (if m_wide m then map_release_wide_value m v
      else if m_val_owned m then map Release (filter (\<lambda>w. w \<noteq> 0) v) else [])"

fun rt_map_clear_from :: "(effect list \<Rightarrow> bmap \<Rightarrow> bmap) \<Rightarrow> bmap \<Rightarrow> nat \<Rightarrow> bmap meff" where
  "rt_map_clear_from run m 0 = Ok (m, [])"
| "rt_map_clear_from run m (Suc i) =
     (if i < m_used m then Ok (m, [])
      else
        rt_bind (entry_at m i) (\<lambda>(_, v).
          let veff = clear_value_releases m v; m1 = run veff m in
          rt_bind (entry_at m1 i) (\<lambda>(k, _).
            let keff = release_if (m_key_owned m \<and> k \<noteq> 0) k; m2 = run keff m1 in
            rt_bind (rt_map_clear_from run m2 i) (\<lambda>(m', effs). Ok (m', veff @ keff @ effs)))))"

definition beans_map_clear :: "(effect list \<Rightarrow> bmap \<Rightarrow> bmap) \<Rightarrow> bmap \<Rightarrow> bmap meff" where
  "beans_map_clear run m =
     (let m1 = (if m_len m \<noteq> 0 then map_bump_version m else m); used = m_used m1;
          m2 = m1\<lparr>m_len := 0, m_used := 0, m_dead := None, m_idx := None, m_icap := 0, m_tombs := 0\<rparr> in
      if \<not> m_key_owned m2 \<and> \<not> m_val_owned m2 \<and> m_vmask m2 = 0 then Ok (m2, [])
      else rt_map_clear_from run m2 used)"

end
