(* ===== verification/Rt_Map_Index.thy ===== *)
theory Rt_Map_Index
  imports Rt_Maps
begin

text \<open>
  The open-addressed index of the map as a table: what a well-formed index is with respect to the
  live entry positions and their hashes, how putting a position, leaving a tombstone and moving a
  position keep it well formed, and that the probe loops of the code end and find what they look for.
\<close>

unbundle bit_operations_syntax

section \<open>Index words\<close>

definition idx_state :: "u64 list \<Rightarrow> nat \<Rightarrow> nat" where
  "idx_state ix i = unat (ix ! i AND 0xffffffff)"

definition idx_frag :: "u64 list \<Rightarrow> nat \<Rightarrow> u64" where
  "idx_frag ix i = ix ! i AND 0xffffffff00000000"

lemma pos_mask: "(0xffffffff :: u64) = mask 32"
  by (simp add: mask_eq_exp_minus_1)

lemma frag_mask: "(0xffffffff00000000 :: u64) = NOT (mask 32)"
  by (simp add: mask_eq_exp_minus_1)

lemma take_small: "n < 2 ^ 32 \<Longrightarrow> take_bit 32 (of_nat n :: u64) = of_nat n"
  by (simp add: word_unat_eq_iff unsigned_take_bit_eq unsigned_of_nat take_bit_nat_eq_self)

lemma word_pos:
  assumes "n < 2 ^ 32"
  shows "((h AND 0xffffffff00000000) OR of_nat n :: u64) AND 0xffffffff = of_nat n"
    "((h AND 0xffffffff00000000) OR of_nat n :: u64) AND 0xffffffff00000000 = h AND 0xffffffff00000000"
proof -
  have z: "(of_nat n :: u64) AND NOT (mask 32) = 0"
  proof -
    have "(of_nat n :: u64) AND NOT (mask 32) = (of_nat n AND mask 32) AND NOT (mask 32)"
      using take_small [OF assms] by (simp add: take_bit_eq_mask)
    then show ?thesis by (simp add: and.assoc)
  qed
  show "((h AND 0xffffffff00000000) OR of_nat n :: u64) AND 0xffffffff = of_nat n"
    unfolding pos_mask frag_mask using take_small [OF assms, unfolded take_bit_eq_mask]
    by (simp only: bit.conj_disj_distrib2 and.assoc bit.conj_cancel_left) simp
  show "((h AND 0xffffffff00000000) OR of_nat n :: u64) AND 0xffffffff00000000 = h AND 0xffffffff00000000"
    unfolding pos_mask frag_mask using z by (simp add: bit.conj_disj_distrib2 and.assoc)
qed

lemma unat_of_nat_small: "n < 2 ^ 64 \<Longrightarrow> unat (of_nat n :: u64) = n"
  by (simp add: unsigned_of_nat take_bit_nat_eq_self)

lemma and_cap_mask:
  assumes "C = 2 ^ k" "k < 64"
  shows "unat (w AND (of_nat C - 1) :: u64) = unat w mod C"
proof -
  have "(of_nat C - 1 :: u64) = mask k" using assms by (simp add: mask_eq_exp_minus_1)
  then have "unat (w AND (of_nat C - 1) :: u64) = unat (take_bit k w)" by (simp only: take_bit_eq_mask)
  also have "\<dots> = unat w mod 2 ^ k" by (simp only: unsigned_take_bit_eq) (simp add: take_bit_eq_mod)
  finally show ?thesis using assms by simp
qed

lemma next_slot:
  assumes "C = 2 ^ k" "k < 63" "unat i < C"
  shows "unat ((i + 1) AND (of_nat C - 1) :: u64) = (unat i + 1) mod C"
proof -
  have "(2::nat) ^ k \<le> 2 ^ 62" using assms(2) by (intro power_increasing) auto
  then have "unat (i + 1) = unat i + 1"
    using assms(1,3) unat_u64_bound [of i] by (subst unat_add_lem [THEN iffD1]) simp_all
  then show ?thesis using and_cap_mask [OF assms(1), of "i + 1"] assms(2) by simp
qed

section \<open>Well-formed index\<close>

text \<open>The slots a probe for hash \<open>h\<close> visits, in order.\<close>

definition probe_at :: "u64 list \<Rightarrow> u64 \<Rightarrow> nat \<Rightarrow> nat" where
  "probe_at ix h n = (unat h + n) mod length ix"

definition idx_ok :: "u64 list \<Rightarrow> nat set \<Rightarrow> (nat \<Rightarrow> u64) \<Rightarrow> bool" where
  "idx_ok ix LV H \<longleftrightarrow>
     (\<exists>k < 63. length ix = 2 ^ k) \<and>
     (\<forall>i < length ix. 2 \<le> idx_state ix i \<longrightarrow>
        idx_state ix i - 2 \<in> LV \<and> idx_frag ix i = H (idx_state ix i - 2) AND 0xffffffff00000000) \<and>
     (\<forall>i < length ix. \<forall>j < length ix. 2 \<le> idx_state ix i \<and> idx_state ix i = idx_state ix j \<longrightarrow> i = j) \<and>
     (\<forall>p \<in> LV. \<exists>n < length ix. idx_state ix (probe_at ix (H p) n) = p + 2 \<and>
        (\<forall>m < n. idx_state ix (probe_at ix (H p) m) \<noteq> 0))"

lemma idx_okI:
  assumes "k < 63" "length ix = 2 ^ k"
    "\<And>i. i < length ix \<Longrightarrow> 2 \<le> idx_state ix i \<Longrightarrow>
        idx_state ix i - 2 \<in> LV \<and> idx_frag ix i = H (idx_state ix i - 2) AND 0xffffffff00000000"
    "\<And>i j. i < length ix \<Longrightarrow> j < length ix \<Longrightarrow> 2 \<le> idx_state ix i \<Longrightarrow> idx_state ix i = idx_state ix j \<Longrightarrow> i = j"
    "\<And>p. p \<in> LV \<Longrightarrow> \<exists>n < length ix. idx_state ix (probe_at ix (H p) n) = p + 2 \<and>
        (\<forall>m < n. idx_state ix (probe_at ix (H p) m) \<noteq> 0)"
  shows "idx_ok ix LV H"
  using assms unfolding idx_ok_def by blast

lemma idx_okD:
  assumes "idx_ok ix LV H"
  shows "\<exists>k < 63. length ix = 2 ^ k" "0 < length ix"
    "\<And>i. i < length ix \<Longrightarrow> 2 \<le> idx_state ix i \<Longrightarrow>
        idx_state ix i - 2 \<in> LV \<and> idx_frag ix i = H (idx_state ix i - 2) AND 0xffffffff00000000"
    "\<And>i j. i < length ix \<Longrightarrow> j < length ix \<Longrightarrow> 2 \<le> idx_state ix i \<Longrightarrow> idx_state ix i = idx_state ix j \<Longrightarrow> i = j"
    "\<And>p. p \<in> LV \<Longrightarrow> \<exists>n < length ix. idx_state ix (probe_at ix (H p) n) = p + 2 \<and>
        (\<forall>m < n. idx_state ix (probe_at ix (H p) m) \<noteq> 0)"
  using assms unfolding idx_ok_def by (auto simp del: One_nat_def)

lemma probe_at_less: "0 < length ix \<Longrightarrow> probe_at ix h n < length ix"
  by (simp add: probe_at_def)

lemma idx_state_update:
  "s < length ix \<Longrightarrow> idx_state (ix[s := w]) i = (if i = s then unat (w AND 0xffffffff) else idx_state ix i)"
  by (simp add: idx_state_def nth_list_update)

lemma idx_frag_update:
  "s < length ix \<Longrightarrow> idx_frag (ix[s := w]) i = (if i = s then w AND 0xffffffff00000000 else idx_frag ix i)"
  by (simp add: idx_frag_def nth_list_update)

lemma probe_at_update [simp]: "probe_at (ix[s := w]) h n = probe_at ix h n"
  by (simp add: probe_at_def)

lemma state_of_word:
  assumes "n < 2 ^ 32"
  shows "unat (((h AND 0xffffffff00000000) OR of_nat n :: u64) AND 0xffffffff) = n"
  using word_pos(1) [OF assms, of h] unat_of_nat_small [of n] assms by simp

lemma idx_ok_cong:
  "idx_ok ix LV H \<Longrightarrow> (\<And>p. p \<in> LV \<Longrightarrow> H p = H' p) \<Longrightarrow> idx_ok ix LV H'"
  unfolding idx_ok_def by (elim conjE, intro conjI) auto

lemma idx_ok_empty: "k < 63 \<Longrightarrow> idx_ok (replicate (2 ^ k) 0) {} H"
  by (rule idx_okI [of k]) (auto simp: idx_state_def)

lemma idx_ok_put:
  assumes ok: "idx_ok ix LV H" and s: "s < length ix" "idx_state ix s < 2" and p: "p \<notin> LV" "p + 2 < 2 ^ 32"
    and path: "n < length ix" "s = probe_at ix (H p) n" "\<forall>m < n. idx_state ix (probe_at ix (H p) m) \<noteq> 0"
  shows "idx_ok (ix[s := (H p AND 0xffffffff00000000) OR of_nat (p + 2)]) (insert p LV) H"
proof -
  define w where "w = (H p AND 0xffffffff00000000) OR of_nat (p + 2)"
  define nix where "nix = ix[s := w]"
  have len: "length nix = length ix" "probe_at nix = probe_at ix" by (auto simp: nix_def fun_eq_iff)
  note D = idx_okD [OF ok]
  have st: "idx_state nix i = (if i = s then p + 2 else idx_state ix i)" for i
    using idx_state_update [OF s(1), of w i] state_of_word [OF p(2), of "H p"] by (simp add: w_def nix_def del: of_nat_add)
  have fr: "idx_frag nix i = (if i = s then H p AND 0xffffffff00000000 else idx_frag ix i)" for i
    using idx_frag_update [OF s(1), of w i] word_pos(2) [OF p(2), of "H p"] by (simp add: w_def nix_def del: of_nat_add)
  obtain k where k: "k < 63" "length ix = 2 ^ k" using D(1) by blast
  have new: "q + 2 \<noteq> idx_state ix i" if "q \<notin> LV" "i < length ix" for q i
    using D(3) [OF that(2)] that(1) by (metis add_diff_cancel_right' le_add2)
  have "idx_ok nix (insert p LV) H"
  proof (rule idx_okI [of k])
    fix i assume "i < length nix" "2 \<le> idx_state nix i"
    then show "idx_state nix i - 2 \<in> insert p LV \<and> idx_frag nix i = H (idx_state nix i - 2) AND 0xffffffff00000000"
      using D(3) [of i] by (auto simp: st fr len)
  next
    fix i j assume "i < length nix" "j < length nix" "2 \<le> idx_state nix i" "idx_state nix i = idx_state nix j"
    then show "i = j"
      using D(4) [of i j] new [OF p(1), of i] new [OF p(1), of j] by (auto simp: st len split: if_splits)
  next
    fix q assume "q \<in> insert p LV"
    then consider "q = p" | "q \<in> LV" by blast
    then show "\<exists>n < length nix. idx_state nix (probe_at nix (H q) n) = q + 2 \<and>
        (\<forall>m < n. idx_state nix (probe_at nix (H q) m) \<noteq> 0)"
    proof cases
      case 1
      then show ?thesis using path by (intro exI [of _ n]) (auto simp: st len)
    next
      case 2
      then obtain n where "n < length ix" "idx_state ix (probe_at ix (H q) n) = q + 2"
        "\<forall>m < n. idx_state ix (probe_at ix (H q) m) \<noteq> 0" using D(5) by blast
      then show ?thesis using s by (intro exI [of _ n]) (auto simp: st len)
    qed
  qed (use k len in auto)
  then show ?thesis by (simp only: nix_def w_def)
qed

lemma idx_ok_tomb:
  assumes ok: "idx_ok ix LV H" and s: "s < length ix" "idx_state ix s = q + 2"
  shows "idx_ok (ix[s := 1]) (LV - {q}) H"
proof -
  let ?ix = "ix[s := 1 :: u64]"
  note D = idx_okD [OF ok]
  have st: "idx_state ?ix i = (if i = s then 1 else idx_state ix i)" for i
    using idx_state_update [OF s(1), of 1 i] by simp
  have fr: "i \<noteq> s \<Longrightarrow> idx_frag ?ix i = idx_frag ix i" for i
    using idx_frag_update [OF s(1), of 1 i] by simp
  obtain k where k: "k < 63" "length ix = 2 ^ k" using D(1) by blast
  show ?thesis
  proof (rule idx_okI [of k])
    fix i assume i: "i < length ?ix" "2 \<le> idx_state ?ix i"
    then have "i \<noteq> s" by (auto simp: st)
    moreover have "idx_state ix i \<noteq> q + 2" if "i \<noteq> s" using that i D(4) [of i s] s by (auto simp: st)
    ultimately show "idx_state ?ix i - 2 \<in> LV - {q} \<and> idx_frag ?ix i = H (idx_state ?ix i - 2) AND 0xffffffff00000000"
      using i D(3) [of i] by (auto simp: st fr)
  next
    fix p assume p: "p \<in> LV - {q}"
    then obtain n where "n < length ix" "idx_state ix (probe_at ix (H p) n) = p + 2"
      "\<forall>m < n. idx_state ix (probe_at ix (H p) m) \<noteq> 0" using D(5) by blast
    then show "\<exists>n < length ?ix. idx_state ?ix (probe_at ?ix (H p) n) = p + 2 \<and>
        (\<forall>m < n. idx_state ?ix (probe_at ?ix (H p) m) \<noteq> 0)"
      using p s by (intro exI [of _ n]) (auto simp: st)
  qed (use k D(4) in \<open>auto simp: st split: if_splits\<close>)
qed

lemma idx_ok_move:
  assumes ok: "idx_ok ix LV H" and s: "s < length ix" "idx_state ix s = q + 2" and i: "i \<notin> LV" "i + 2 < 2 ^ 32"
  shows "idx_ok (ix[s := (ix ! s AND 0xffffffff00000000) OR of_nat (i + 2)]) (insert i (LV - {q})) (H(i := H q))"
proof -
  define w where "w = (ix ! s AND 0xffffffff00000000) OR of_nat (i + 2)"
  define nix where "nix = ix[s := w]"
  let ?H = "H(i := H q)"
  have len: "length nix = length ix" "probe_at nix = probe_at ix" by (auto simp: nix_def fun_eq_iff)
  note D = idx_okD [OF ok]
  have st: "idx_state nix j = (if j = s then i + 2 else idx_state ix j)" for j
    using idx_state_update [OF s(1), of w j] state_of_word [OF i(2), of "ix ! s"] by (simp add: w_def nix_def del: of_nat_add)
  have fr: "idx_frag nix j = idx_frag ix j" for j
    using idx_frag_update [OF s(1), of w j] word_pos(2) [OF i(2), of "ix ! s"]
    by (simp add: w_def nix_def idx_frag_def del: of_nat_add)
  obtain k where k: "k < 63" "length ix = 2 ^ k" using D(1) by blast
  have q: "q \<in> LV" "idx_frag ix s = H q AND 0xffffffff00000000" using D(3) [OF s(1)] s(2) by auto
  have new: "i + 2 \<noteq> idx_state ix j" if "j < length ix" for j
    using D(3) [OF that] i(1) by (metis add_diff_cancel_right' le_add2)
  have "idx_ok nix (insert i (LV - {q})) ?H"
  proof (rule idx_okI [of k])
    fix j assume j: "j < length nix" "2 \<le> idx_state nix j"
    show "idx_state nix j - 2 \<in> insert i (LV - {q}) \<and> idx_frag nix j = ?H (idx_state nix j - 2) AND 0xffffffff00000000"
    proof (cases "j = s")
      case True
      then show ?thesis using q by (simp add: st fr)
    next
      case False
      then have "idx_state ix j \<noteq> q + 2" using j D(4) [of j s] s by (auto simp: st len)
      moreover have "2 \<le> idx_state ix j" "j < length ix" using False j by (auto simp: st len)
      ultimately have "idx_state ix j - 2 \<noteq> i" "idx_state ix j - 2 \<noteq> q" using D(3) [of j] i by auto
      then show ?thesis using False j D(3) [of j] by (auto simp: st fr len)
    qed
  next
    fix a b assume "a < length nix" "b < length nix" "2 \<le> idx_state nix a" "idx_state nix a = idx_state nix b"
    then show "a = b" using D(4) [of a b] new [of a] new [of b] by (auto simp: st len split: if_splits)
  next
    fix p assume p: "p \<in> insert i (LV - {q})"
    have "\<exists>n < length ix. idx_state nix (probe_at ix (H r) n) = (if r = q then i else r) + 2 \<and>
        (\<forall>m < n. idx_state nix (probe_at ix (H r) m) \<noteq> 0)" if r: "r \<in> LV" for r
    proof -
      obtain n where n: "n < length ix" "idx_state ix (probe_at ix (H r) n) = r + 2"
        "\<forall>m < n. idx_state ix (probe_at ix (H r) m) \<noteq> 0" using D(5) r by blast
      have "probe_at ix (H r) n = s \<longleftrightarrow> r = q"
        using n(2) s D(4) [of "probe_at ix (H r) n" s] probe_at_less [OF D(2)] by auto
      then show ?thesis using n by (intro exI [of _ n]) (auto simp: st len)
    qed
    from this [of p] this [of q] p q(1) show "\<exists>n < length nix. idx_state nix (probe_at nix (?H p) n) = p + 2 \<and>
        (\<forall>m < n. idx_state nix (probe_at nix (?H p) m) \<noteq> 0)"
      by (cases "p = i") (auto simp: len)
  qed (use k len in auto)
  then show ?thesis by (simp only: nix_def w_def)
qed

section \<open>Counting\<close>

definition idx_tombs :: "u64 list \<Rightarrow> nat" where
  "idx_tombs ix = card {i. i < length ix \<and> idx_state ix i = 1}"

lemma idx_ok_finite: "idx_ok ix LV H \<Longrightarrow> finite LV"
proof -
  assume ok: "idx_ok ix LV H"
  have "LV \<subseteq> (\<lambda>i. idx_state ix i - 2) ` {..<length ix}"
  proof
    fix p assume "p \<in> LV"
    then obtain n where n: "n < length ix" "idx_state ix (probe_at ix (H p) n) = p + 2"
      using idx_okD(5) [OF ok] by blast
    then show "p \<in> (\<lambda>i. idx_state ix i - 2) ` {..<length ix}"
      using probe_at_less [OF idx_okD(2) [OF ok]] by (intro image_eqI [of _ _ "probe_at ix (H p) n"]) auto
  qed
  then show ?thesis by (rule finite_subset) simp
qed

lemma idx_ok_card_live: "idx_ok ix LV H \<Longrightarrow> card {i. i < length ix \<and> 2 \<le> idx_state ix i} = card LV"
proof -
  assume ok: "idx_ok ix LV H"
  note D = idx_okD [OF ok]
  have "bij_betw (\<lambda>i. idx_state ix i - 2) {i. i < length ix \<and> 2 \<le> idx_state ix i} LV"
  proof (rule bij_betwI')
    fix i j assume "i \<in> {i. i < length ix \<and> 2 \<le> idx_state ix i}" "j \<in> {i. i < length ix \<and> 2 \<le> idx_state ix i}"
    then show "(idx_state ix i - 2 = idx_state ix j - 2) = (i = j)"
      using D(4) [of i j] by (auto simp: eq_diff_iff)
  next
    fix p assume "p \<in> LV"
    then obtain n where "idx_state ix (probe_at ix (H p) n) = p + 2" using D(5) by blast
    then show "\<exists>i \<in> {i. i < length ix \<and> 2 \<le> idx_state ix i}. p = idx_state ix i - 2"
      using probe_at_less [OF D(2)] by (intro bexI [of _ "probe_at ix (H p) n"]) auto
  qed (use D(3) in auto)
  then show ?thesis by (rule bij_betw_same_card)
qed

lemma idx_ok_empty_slot:
  assumes ok: "idx_ok ix LV H" and room: "card LV + idx_tombs ix < length ix"
  shows "\<exists>i < length ix. idx_state ix i = 0"
proof (rule ccontr)
  assume "\<not> ?thesis"
  then have full: "\<And>i. i < length ix \<Longrightarrow> idx_state ix i = 1 \<or> 2 \<le> idx_state ix i" by fastforce
  have "{..<length ix} \<subseteq> {i. i < length ix \<and> 2 \<le> idx_state ix i} \<union> {i. i < length ix \<and> idx_state ix i = 1}"
    using full by auto
  from card_mono [OF _ this] have "length ix \<le>
      card ({i. i < length ix \<and> 2 \<le> idx_state ix i} \<union> {i. i < length ix \<and> idx_state ix i = 1})" by simp
  also have "\<dots> \<le> card LV + idx_tombs ix"
    using idx_ok_card_live [OF ok] card_Un_le by (metis idx_tombs_def)
  finally show False using room by simp
qed

lemma idx_tombs_update:
  assumes "s < length ix"
  shows "idx_tombs (ix[s := w]) + (if idx_state ix s = 1 then 1 else 0) =
    idx_tombs ix + (if unat (w AND 0xffffffff) = 1 then 1 else 0)"
proof -
  let ?A = "{i. i < length ix \<and> i \<noteq> s \<and> idx_state ix i = 1}"
  have fin: "finite ?A" by simp
  have old: "{i. i < length ix \<and> idx_state ix i = 1} = (if idx_state ix s = 1 then insert s ?A else ?A)"
    using assms by auto
  have new: "{i. i < length (ix[s := w]) \<and> idx_state (ix[s := w]) i = 1} =
      (if unat (w AND 0xffffffff) = 1 then insert s ?A else ?A)"
    using assms by (auto simp: idx_state_update)
  show ?thesis unfolding idx_tombs_def old new using fin by auto
qed

lemma idx_tombs_empty: "idx_tombs (replicate n 0) = 0"
  by (auto simp: idx_tombs_def idx_state_def)

lemma probe_reaches:
  assumes "i < length ix"
  shows "\<exists>n < length ix. probe_at ix h n = i"
proof -
  let ?C = "length ix"
  let ?n = "(i + (?C - unat h mod ?C)) mod ?C"
  have "(unat h + ?n) mod ?C = (unat h mod ?C + (i + (?C - unat h mod ?C))) mod ?C"
    by (simp only: mod_add_left_eq mod_add_right_eq)
  also have "unat h mod ?C + (i + (?C - unat h mod ?C)) = i + ?C"
    using mod_less_divisor [of ?C "unat h"] assms by linarith
  also have "(i + ?C) mod ?C = i" using assms by simp
  finally have "probe_at ix h ?n = i" by (simp only: probe_at_def)
  moreover have "?n < ?C" using assms by (intro mod_less_divisor) linarith
  ultimately show ?thesis by blast
qed

section \<open>The probe loops\<close>

abbreviation (input) idx_msk :: "u64 list \<Rightarrow> u64" where
  "idx_msk ix \<equiv> of_nat (length ix) - 1"

lemma probe_start: "\<exists>k < 63. length ix = 2 ^ k \<Longrightarrow> unat (h AND idx_msk ix) = probe_at ix h 0"
  using and_cap_mask [of "length ix"] by (auto simp: probe_at_def)

lemma probe_step:
  assumes "\<exists>k < 63. length ix = 2 ^ k" "unat i = probe_at ix h n"
  shows "unat ((i + 1) AND idx_msk ix) = probe_at ix h (Suc n)"
proof -
  obtain k where k: "k < 63" "length ix = 2 ^ k" using assms(1) by blast
  have "0 < length ix" using k by simp
  then have "unat i < length ix" using assms(2) probe_at_less by simp
  from next_slot [OF k(2) k(1) this] assms(2) show ?thesis
    by (simp add: probe_at_def mod_Suc_eq)
qed

lemma state_zero: "ix ! i AND 0xffffffff = 0 \<longleftrightarrow> idx_state ix i = 0"
  by (simp add: idx_state_def unat_eq_0)

lemma state_one: "ix ! i AND 0xffffffff = 1 \<longleftrightarrow> idx_state ix i = 1"
  by (simp add: idx_state_def word_unat_eq_iff)

lemma state_two: "ix ! i AND 0xffffffff \<ge> 2 \<longleftrightarrow> idx_state ix i \<ge> 2"
  by (simp add: idx_state_def word_le_nat_alt)

lemma idx_free_slot_walk:
  assumes pow: "\<exists>k < 63. length ix = 2 ^ k" and stop: "idx_state ix (probe_at ix h n) = 0"
    and busy: "\<forall>m < n. idx_state ix (probe_at ix h m) \<noteq> 0"
  shows "d \<le> n \<Longrightarrow> n < d + fuel \<Longrightarrow> unat i = probe_at ix h d \<Longrightarrow>
    \<exists>j. idx_free_slot ix (idx_msk ix) fuel i = Ok j \<and> unat j = probe_at ix h n"
proof (induction fuel arbitrary: d i)
  case (Suc fuel)
  have "0 < length ix" using pow by auto
  then have i: "unat i < length ix" using Suc.prems probe_at_less by simp
  show ?case
  proof (cases "d = n")
    case True
    then show ?thesis using i stop Suc.prems by (simp add: state_zero)
  next
    case False
    then have "idx_state ix (unat i) \<noteq> 0" using busy Suc.prems by auto
    then show ?thesis
      using i Suc.IH [of "Suc d" "(i + 1) AND idx_msk ix"] False Suc.prems probe_step [OF pow Suc.prems(3)]
      by (simp add: state_zero)
  qed
qed simp

lemma first_zero:
  assumes "\<exists>i < length ix. idx_state ix i = 0"
  obtains n where "n < length ix" "idx_state ix (probe_at ix h n) = 0"
    "\<forall>m < n. idx_state ix (probe_at ix h m) \<noteq> 0"
proof -
  let ?P = "\<lambda>n. idx_state ix (probe_at ix h n) = 0"
  obtain n where n: "n < length ix" "?P n" using assms probe_reaches by metis
  have least: "?P (LEAST n. ?P n)" using n(2) by (rule LeastI)
  moreover have "(LEAST n. ?P n) < length ix" using Least_le [of ?P, OF n(2)] n(1) by linarith
  moreover have "\<forall>m < (LEAST n. ?P n). \<not> ?P m" using not_less_Least [of _ ?P] by blast
  ultimately show ?thesis using that by blast
qed

lemma idx_free_slot_finds:
  assumes pow: "\<exists>k < 63. length ix = 2 ^ k" and "\<exists>i < length ix. idx_state ix i = 0"
  shows "\<exists>j n. idx_free_slot ix (idx_msk ix) (length ix) (h AND idx_msk ix) = Ok j \<and> n < length ix \<and>
    unat j = probe_at ix h n \<and> idx_state ix (unat j) = 0 \<and> (\<forall>m < n. idx_state ix (probe_at ix h m) \<noteq> 0)"
proof -
  obtain n where n: "n < length ix" "idx_state ix (probe_at ix h n) = 0"
    "\<forall>m < n. idx_state ix (probe_at ix h m) \<noteq> 0" using first_zero [OF assms(2)] by blast
  from idx_free_slot_walk [OF pow n(2,3), of 0 "length ix"] n probe_start [OF pow, of h]
  show ?thesis by fastforce
qed

lemma idx_find_pos_walk:
  assumes pow: "\<exists>k < 63. length ix = 2 ^ k" and stop: "idx_state ix (probe_at ix h n) = p + 2" "p + 2 < 2 ^ 32"
  shows "d \<le> n \<Longrightarrow> n < d + fuel \<Longrightarrow> unat i = probe_at ix h d \<Longrightarrow>
    \<exists>j. idx_find_pos ix (idx_msk ix) p fuel i = Ok j \<and> unat j < length ix \<and> idx_state ix (unat j) = p + 2"
proof (induction fuel arbitrary: d i)
  case (Suc fuel)
  have "0 < length ix" using pow by auto
  then have i: "unat i < length ix" using Suc.prems probe_at_less by simp
  have eq: "ix ! unat i AND 0xffffffff = of_nat (p + 2) \<longleftrightarrow> idx_state ix (unat i) = p + 2"
    using stop(2) unat_of_nat_small [of "p + 2"] by (simp add: idx_state_def word_unat_eq_iff del: of_nat_add)
  show ?case
  proof (cases "idx_state ix (unat i) = p + 2")
    case True
    then show ?thesis using i eq by simp
  next
    case False
    then have "d \<noteq> n" using stop Suc.prems by auto
    then show ?thesis
      using i eq False Suc.IH [of "Suc d" "(i + 1) AND idx_msk ix"] Suc.prems probe_step [OF pow Suc.prems(3)] by simp
  qed
qed simp

text \<open>What a probe for a key stops at: an empty slot, or a slot with its fragment and an equal key.\<close>

definition probe_hit :: "(slot \<Rightarrow> bool) \<Rightarrow> bmap \<Rightarrow> u64 list \<Rightarrow> u64 \<Rightarrow> nat \<Rightarrow> bool" where
  "probe_hit hit m ix h i \<longleftrightarrow> idx_state ix i \<ge> 2 \<and> idx_frag ix i = h AND 0xffffffff00000000 \<and>
     hit (fst (m_data m ! (idx_state ix i - 2)))"

lemma idx_probe_walk:
  assumes pow: "\<exists>k < 63. length ix = 2 ^ k"
    and cells: "\<And>i. i < length ix \<Longrightarrow> idx_state ix i \<ge> 2 \<Longrightarrow> idx_state ix i - 2 < length (m_data m)"
    and stop: "idx_state ix (probe_at ix h n) = 0 \<or> probe_hit hit m ix h (probe_at ix h n)"
    and busy: "\<forall>j < n. idx_state ix (probe_at ix h j) \<noteq> 0 \<and> \<not> probe_hit hit m ix h (probe_at ix h j)"
  shows "d \<le> n \<Longrightarrow> n < d + fuel \<Longrightarrow> unat i = probe_at ix h d \<Longrightarrow>
    (tomb = None \<or> (\<exists>t w. t < d \<and> tomb = Some w \<and> unat w = probe_at ix h t \<and> idx_state ix (unat w) = 1)) \<Longrightarrow>
    \<exists>r w. idx_probe hit m ix (idx_msk ix) (h AND 0xffffffff00000000) fuel i tomb = Ok (r, w) \<and>
      (if idx_state ix (probe_at ix h n) = 0
       then r = None \<and> (\<exists>t \<le> n. unat w = probe_at ix h t \<and> idx_state ix (unat w) < 2)
       else r = Some (idx_state ix (probe_at ix h n) - 2) \<and> unat w = probe_at ix h n)"
proof (induction fuel arbitrary: d i tomb)
  case (Suc fuel)
  have pos: "0 < length ix" using pow by auto
  then have i: "unat i < length ix" using Suc.prems probe_at_less by simp
  have st: "unat (ix ! unat i AND 0xffffffff) = idx_state ix (unat i)" by (simp add: idx_state_def)
  show ?case
  proof (cases "d = n")
    case True
    then have at: "probe_at ix h n = unat i" using Suc.prems by simp
    show ?thesis
    proof (cases "idx_state ix (unat i) = 0")
      case True
      have t: "\<exists>t \<le> n. unat (case tomb of Some t \<Rightarrow> t | None \<Rightarrow> i) = probe_at ix h t \<and>
          idx_state ix (unat (case tomb of Some t \<Rightarrow> t | None \<Rightarrow> i)) < 2"
        using Suc.prems(4)
      proof (elim disjE exE conjE)
        fix t w assume "t < d" "tomb = Some w" "unat w = probe_at ix h t" "idx_state ix (unat w) = 1"
        then show ?thesis using \<open>d = n\<close> by (intro exI [of _ t]) simp
      next
        assume "tomb = None"
        then show ?thesis using at True by (intro exI [of _ n]) simp
      qed
      have "idx_probe hit m ix (idx_msk ix) (h AND 0xffffffff00000000) (Suc fuel) i tomb =
          Ok (None, case tomb of Some t \<Rightarrow> t | None \<Rightarrow> i)"
        using i True by (simp add: state_zero)
      then show ?thesis using t at True by auto
    next
      case False
      then have hit: "probe_hit hit m ix h (unat i)" using stop at by simp
      then have "idx_probe hit m ix (idx_msk ix) (h AND 0xffffffff00000000) (Suc fuel) i tomb =
          Ok (Some (idx_state ix (unat i) - 2), i)"
        using i False cells [OF i] st
        by (simp add: state_zero state_two probe_hit_def entry_at_def idx_frag_def Let_def)
      then show ?thesis using at False by simp
    qed
  next
    case False
    then have nz: "idx_state ix (unat i) \<noteq> 0" and miss: "\<not> probe_hit hit m ix h (unat i)"
      using busy Suc.prems by auto
    let ?tomb = "if ix ! unat i AND 0xffffffff = 1 \<and> tomb = None then Some i else tomb"
    have step: "idx_probe hit m ix (idx_msk ix) (h AND 0xffffffff00000000) (Suc fuel) i tomb =
        idx_probe hit m ix (idx_msk ix) (h AND 0xffffffff00000000) fuel ((i + 1) AND idx_msk ix) ?tomb"
      using i nz miss cells [OF i] st
      by (simp add: state_zero state_two probe_hit_def entry_at_def idx_frag_def Let_def)
    have "?tomb = None \<or> (\<exists>t w. t < Suc d \<and> ?tomb = Some w \<and> unat w = probe_at ix h t \<and> idx_state ix (unat w) = 1)"
      using Suc.prems(3,4) by (auto simp: state_one less_Suc_eq)
    from Suc.IH [OF _ _ probe_step [OF pow Suc.prems(3)] this] False Suc.prems(1,2) show ?thesis
      unfolding step by simp
  qed
qed simp

lemma idx_probe_finds:
  assumes ok: "idx_ok ix LV H" and room: "\<exists>i < length ix. idx_state ix i = 0"
    and cells: "\<And>p. p \<in> LV \<Longrightarrow> p < length (m_data m)"
    and same_hash: "\<And>p. p \<in> LV \<Longrightarrow> hit (fst (m_data m ! p)) \<Longrightarrow> H p = h"
  shows "\<exists>r w. idx_probe hit m ix (idx_msk ix) (h AND 0xffffffff00000000) (length ix) (h AND idx_msk ix) None = Ok (r, w) \<and>
    unat w < length ix \<and>
    (case r of
       Some p \<Rightarrow> p \<in> LV \<and> hit (fst (m_data m ! p)) \<and> idx_state ix (unat w) = p + 2
     | None \<Rightarrow> (\<forall>p \<in> LV. \<not> hit (fst (m_data m ! p))) \<and> idx_state ix (unat w) < 2 \<and>
         (\<exists>n < length ix. unat w = probe_at ix h n \<and> (\<forall>j < n. idx_state ix (probe_at ix h j) \<noteq> 0)))"
proof -
  note D = idx_okD [OF ok]
  let ?stop = "\<lambda>n. idx_state ix (probe_at ix h n) = 0 \<or> probe_hit hit m ix h (probe_at ix h n)"
  obtain z where z: "z < length ix" "idx_state ix (probe_at ix h z) = 0" using first_zero [OF room] by blast
  define n where "n = (LEAST n. ?stop n)"
  have stop: "?stop n" unfolding n_def by (rule LeastI [of ?stop z]) (simp add: z)
  have "\<not> ?stop j" if "j < n" for j
    by (rule not_less_Least [of j ?stop, folded n_def, OF that])
  then have busy: "\<forall>j < n. idx_state ix (probe_at ix h j) \<noteq> 0 \<and> \<not> probe_hit hit m ix h (probe_at ix h j)"
    by simp
  have "n \<le> z" unfolding n_def by (rule Least_le) (simp add: z)
  then have n: "n < length ix" using z by simp
  have at: "probe_at ix h k < length ix" for k using probe_at_less [OF D(2)] .
  have cells': "idx_state ix i - 2 < length (m_data m)" if "i < length ix" "idx_state ix i \<ge> 2" for i
    using D(3) [OF that] cells by blast
  obtain r w where rw: "idx_probe hit m ix (idx_msk ix) (h AND 0xffffffff00000000) (length ix) (h AND idx_msk ix) None = Ok (r, w)"
    "if idx_state ix (probe_at ix h n) = 0
     then r = None \<and> (\<exists>t \<le> n. unat w = probe_at ix h t \<and> idx_state ix (unat w) < 2)
     else r = Some (idx_state ix (probe_at ix h n) - 2) \<and> unat w = probe_at ix h n"
    using idx_probe_walk [OF D(1) cells' stop busy, of 0 "length ix" "h AND idx_msk ix" None]
      probe_start [OF D(1), of h] n by auto
  show ?thesis
  proof (cases "idx_state ix (probe_at ix h n) = 0")
    case True
    then obtain t where t: "r = None" "t \<le> n" "unat w = probe_at ix h t" "idx_state ix (unat w) < 2"
      using rw(2) by auto
    have "\<not> hit (fst (m_data m ! p))" if p: "p \<in> LV" for p
    proof
      assume hit: "hit (fst (m_data m ! p))"
      then have H: "H p = h" using same_hash p by simp
      obtain j where j: "idx_state ix (probe_at ix h j) = p + 2" "\<forall>k < j. idx_state ix (probe_at ix h k) \<noteq> 0"
        using D(5) [OF p] H by auto
      have "probe_hit hit m ix h (probe_at ix h j)"
        using j(1) hit D(3) [OF at, of j] H by (auto simp: probe_hit_def)
      then show False using busy j True by (metis add_is_0 linorder_neqE_nat numeral_neq_zero zero_neq_numeral)
    qed
    then show ?thesis using rw(1) t at [of t] n busy
      by (intro exI [of _ None] exI [of _ w]) (auto intro!: exI [of _ t])
  next
    case False
    then have hit: "probe_hit hit m ix h (probe_at ix h n)" using stop by simp
    then have "idx_state ix (probe_at ix h n) - 2 \<in> LV" "idx_state ix (probe_at ix h n) - 2 + 2 = idx_state ix (probe_at ix h n)"
      using D(3) [OF at, of n] by (auto simp: probe_hit_def)
    then show ?thesis
      using rw False hit at [of n] by (intro exI [of _ r] exI [of _ w]) (simp add: probe_hit_def)
  qed
qed

section \<open>Rebuilding\<close>

lemma index_cap_power:
  assumes "16 \<le> cap" "\<exists>k. cap = 2 ^ k"
  shows "(\<exists>k. index_cap wanted cap = 2 ^ k) \<and> wanted * 3 < index_cap wanted cap * 2 \<and>
    cap \<le> index_cap wanted cap \<and> (index_cap wanted cap = cap \<or> index_cap wanted cap \<le> wanted * 3)"
  using assms
proof (induction wanted cap rule: index_cap.induct)
  case (1 wanted cap)
  show ?case
  proof (cases "wanted * 3 \<ge> cap * 2 \<and> 0 < cap")
    case True
    obtain k where "cap = 2 ^ k" using "1.prems"(2) by blast
    then have "\<exists>k. cap * 2 = 2 ^ k" by (intro exI [of _ "Suc k"]) simp
    with "1.IH" [OF True] "1.prems"(1) True show ?thesis by (subst (1 2 3 4 5) index_cap.simps) auto
  next
    case False
    with "1.prems" show ?thesis by (subst (1 2 3 4 5) index_cap.simps) auto
  qed
qed

lemma index_fill_ok:
  assumes H: "\<And>p. p < len \<Longrightarrow> H p = slot_hash env (fst (data ! p)) kind"
    and "len \<le> length data" "len + 2 < 2 ^ 32"
    and room: "len < length ix"
    and "idx_ok ix {..<p} H" "idx_tombs ix = 0" "p \<le> len"
  shows "\<exists>ix'. index_fill env kind data len p ix = Ok ix' \<and> idx_ok ix' {..<len} H \<and> idx_tombs ix' = 0 \<and>
    length ix' = length ix"
  using assms(2-)
proof (induction "len - p" arbitrary: p ix)
  case 0
  then show ?case by (subst index_fill.simps) auto
next
  case (Suc n)
  then have p: "p < len" by simp
  let ?h = "slot_hash env (fst (data ! p)) kind"
  note D = idx_okD [OF Suc.prems(4)]
  have "card {..<p} + idx_tombs ix < length ix" using Suc.prems p by simp
  from idx_ok_empty_slot [OF Suc.prems(4) this] idx_free_slot_finds [OF D(1)]
  obtain j t where j: "idx_free_slot ix (idx_msk ix) (length ix) (?h AND idx_msk ix) = Ok j" "t < length ix"
    "unat j = probe_at ix ?h t" "idx_state ix (unat j) = 0" "\<forall>m < t. idx_state ix (probe_at ix ?h m) \<noteq> 0"
    by metis
  let ?ix = "ix[unat j := idx_word ?h p]"
  have jl: "unat j < length ix" using j(3) probe_at_less [OF D(2)] by simp
  have Hp: "H p = ?h" using H p by simp
  have "idx_ok ?ix (insert p {..<p}) H"
    using idx_ok_put [OF Suc.prems(4) jl, of p t] j Suc.prems(2) p unfolding idx_word_def Hp by simp
  then have ok: "idx_ok ?ix {..<Suc p} H" by (simp add: lessThan_Suc)
  have "idx_tombs ?ix = 0"
    using idx_tombs_update [OF jl, of "idx_word ?h p"] j(4) Suc.prems(5) state_of_word [of "p + 2" ?h] Suc.prems(2) p
    unfolding idx_word_def by simp
  moreover have "n = len - Suc p" using Suc.hyps(2) by simp
  ultimately obtain ix' where "index_fill env kind data len (Suc p) ?ix = Ok ix'" "idx_ok ix' {..<len} H"
    "idx_tombs ix' = 0" "length ix' = length ?ix"
    using Suc.hyps(1) [of "Suc p" ?ix] Suc.prems ok p by auto
  then show ?case
    using p j(1) Suc.prems by (subst index_fill.simps) (simp add: Let_def)
qed

end
