(* ===== verification/Rt_Map_Spec.thy ===== *)
theory Rt_Map_Spec
  imports Rt_Map_Index
begin

text \<open>
  Correctness of the map: its invariant, that every operation keeps it, and that the map refines an
  association list kept in iteration order. The laws of the keys are those of the locale
  \<open>slot_keys\<close>; the allocator grants no block of 32 GiB or more, so that an entry's position fits
  the 32 bits an index word has for it.
\<close>

unbundle bit_operations_syntax

section \<open>Invariant\<close>

definition map_alloc_law :: "(u64 \<Rightarrow> bool) \<Rightarrow> bool" where
  "map_alloc_law alloc \<longleftrightarrow> (\<forall>b. alloc b \<longrightarrow> unat b < 2 ^ 35)"

definition live_pos :: "bmap \<Rightarrow> nat set" where
  "live_pos m = {p. p < m_used m \<and> \<not> map_dead m p}"

definition key_at :: "bmap \<Rightarrow> nat \<Rightarrow> slot" where
  "key_at m p = fst (m_data m ! p)"

text \<open>Everything but the index.\<close>

definition map_base_ok :: "slot_env \<Rightarrow> int \<Rightarrow> bmap \<Rightarrow> bool" where
  "map_base_ok env kind m \<longleftrightarrow>
     m_used m \<le> m_cap m \<and> length (m_data m) = m_cap m \<and> 4 \<le> m_cap m \<and> m_cap m * 16 < 2 ^ 35 \<and>
     (m_wide m \<longrightarrow> 0 < m_vstride m \<and> int (m_cap m) * m_vstride m < 2 ^ 35) \<and>
     m_len m = card (live_pos m) \<and>
     (\<forall>bits. m_dead m = Some bits \<longrightarrow> m_ordered m \<and> length bits = 64 * dead_words (m_cap m) \<and>
        (\<forall>p < length bits. m_used m \<le> p \<longrightarrow> \<not> bits ! p)) \<and>
     (\<forall>p \<in> live_pos m. \<forall>q \<in> live_pos m. slot_eq env (key_at m p) (key_at m q) kind \<longrightarrow> p = q)"

definition map_index_ok :: "slot_env \<Rightarrow> int \<Rightarrow> bmap \<Rightarrow> bool" where
  "map_index_ok env kind m \<longleftrightarrow>
     (case m_idx m of
        None \<Rightarrow> m_dead m = None
      | Some ix \<Rightarrow> length ix = m_icap m \<and> idx_ok ix (live_pos m) (\<lambda>p. slot_hash env (key_at m p) kind) \<and>
          idx_tombs ix = m_tombs m \<and> (m_len m + m_tombs m) * 3 < m_icap m * 2)"

definition map_ok :: "slot_env \<Rightarrow> int \<Rightarrow> bmap \<Rightarrow> bool" where
  "map_ok env kind m \<longleftrightarrow> map_base_ok env kind m \<and> map_index_ok env kind m"

text \<open>What no operation on the entries changes.\<close>

definition same_kind :: "bmap \<Rightarrow> bmap \<Rightarrow> bool" where
  "same_kind m m' \<longleftrightarrow> m_ordered m' = m_ordered m \<and> m_wide m' = m_wide m \<and> m_vstride m' = m_vstride m \<and>
     m_vmask m' = m_vmask m \<and> m_vcycle m' = m_vcycle m \<and> m_key_owned m' = m_key_owned m \<and>
     m_val_owned m' = m_val_owned m"

lemma same_kind_refl [simp]: "same_kind m m"
  by (simp add: same_kind_def)

lemma same_kind_trans: "same_kind a b \<Longrightarrow> same_kind b c \<Longrightarrow> same_kind a c"
  by (simp add: same_kind_def)

section \<open>Live entries\<close>

definition live_list :: "bmap \<Rightarrow> nat list" where
  "live_list m = filter (\<lambda>p. \<not> map_dead m p) [0..<m_used m]"

lemma live_entries_list: "live_entries m = map (\<lambda>p. m_data m ! p) (live_list m)"
  by (simp add: live_entries_def live_list_def)

lemma set_live_list: "set (live_list m) = live_pos m"
  by (auto simp: live_list_def live_pos_def)

lemma distinct_live_list: "distinct (live_list m)"
  by (simp add: live_list_def)

lemma finite_live_pos [simp]: "finite (live_pos m)"
  by (simp add: live_pos_def)

lemma length_live_entries: "length (live_entries m) = card (live_pos m)"
  using distinct_card [OF distinct_live_list, of m] by (simp add: live_entries_list set_live_list)

lemma live_entries_no_holes: "m_dead m = None \<Longrightarrow> m_used m \<le> length (m_data m) \<Longrightarrow> live_entries m = take (m_used m) (m_data m)"
  by (intro nth_equalityI) (simp_all add: live_entries_def map_dead_def)

lemma live_pos_no_holes: "m_dead m = None \<Longrightarrow> live_pos m = {..<m_used m}"
  by (auto simp: live_pos_def map_dead_def)

lemma map_dead_update [simp]:
  "map_dead (m\<lparr>m_data := d\<rparr>) = map_dead m" "map_dead (m\<lparr>m_len := n\<rparr>) = map_dead m"
  "map_dead (m\<lparr>m_used := n\<rparr>) = map_dead m" "map_dead (m\<lparr>m_idx := ix\<rparr>) = map_dead m"
  "map_dead (m\<lparr>m_tombs := t\<rparr>) = map_dead m" "map_dead (m\<lparr>m_icap := n\<rparr>) = map_dead m"
  "map_dead (m\<lparr>m_version := v\<rparr>) = map_dead m" "map_dead (m\<lparr>m_cap := n\<rparr>) = map_dead m"
  by (auto simp: map_dead_def fun_eq_iff)

lemma sorted_wrt_filter_upt:
  "sorted_wrt R (filter P [0..<n]) \<longleftrightarrow> (\<forall>q < n. \<forall>p < q. P p \<and> P q \<longrightarrow> R p q)"
  by (induction n) (auto simp: sorted_wrt_append less_Suc_eq)

context slot_keys
begin

lemma keys_unique_list:
  "(\<forall>p \<in> live_pos m. \<forall>q \<in> live_pos m. slot_eq env (key_at m p) (key_at m q) kind \<longrightarrow> p = q) \<longleftrightarrow>
   sorted_wrt (\<lambda>a b. \<not> slot_eq env (fst a) (fst b) kind) (live_entries m)"
proof -
  have "sorted_wrt (\<lambda>a b. \<not> slot_eq env (fst a) (fst b) kind) (live_entries m) \<longleftrightarrow>
      (\<forall>q < m_used m. \<forall>p < q. \<not> map_dead m p \<and> \<not> map_dead m q \<longrightarrow> \<not> slot_eq env (key_at m p) (key_at m q) kind)"
    by (simp add: live_entries_def sorted_wrt_map sorted_wrt_filter_upt key_at_def)
  also have "\<dots> \<longleftrightarrow> (\<forall>p \<in> live_pos m. \<forall>q \<in> live_pos m. slot_eq env (key_at m p) (key_at m q) kind \<longrightarrow> p = q)"
  proof (intro iffI ballI impI)
    fix p q
    assume L: "\<forall>q < m_used m. \<forall>p < q. \<not> map_dead m p \<and> \<not> map_dead m q \<longrightarrow> \<not> slot_eq env (key_at m p) (key_at m q) kind"
      and pq: "p \<in> live_pos m" "q \<in> live_pos m" and eq: "slot_eq env (key_at m p) (key_at m q) kind"
    then show "p = q" using keq_sym [OF eq] by (cases p q rule: linorder_cases) (auto simp: live_pos_def)
  qed (fastforce simp: live_pos_def)
  finally show ?thesis by blast
qed

end

section \<open>Compaction and rebuilding\<close>

definition live_from :: "bmap \<Rightarrow> nat \<Rightarrow> (slot \<times> elem) list" where
  "live_from m p = map (\<lambda>q. m_data m ! q) (filter (\<lambda>q. \<not> map_dead m q) [p..<m_used m])"

lemma compact_loop_result:
  "m_used m \<le> length (m_data m) \<Longrightarrow> w \<le> p \<Longrightarrow> p \<le> m_used m \<Longrightarrow>
   \<exists>d. compact_loop m p w = Ok (m\<lparr>m_data := d, m_dead := None, m_used := w + length (live_from m p)\<rparr>) \<and>
    length d = length (m_data m) \<and> take (w + length (live_from m p)) d = take w (m_data m) @ live_from m p"
proof (induction "m_used m - p" arbitrary: m p w)
  case 0
  then show ?case by (subst compact_loop.simps) (auto simp: live_from_def intro!: exI [of _ "m_data m"])
next
  case (Suc n)
  then have p: "p < m_used m" by simp
  then have upt: "[p..<m_used m] = p # [Suc p..<m_used m]" by (simp add: upt_conv_Cons)
  show ?case
  proof (cases "map_dead m p")
    case True
    have "n = m_used m - Suc p" using Suc.hyps(2) by simp
    from Suc.hyps(1) [OF this, of w] Suc.prems p
    obtain d where d: "compact_loop m (Suc p) w = Ok (m\<lparr>m_data := d, m_dead := None, m_used := w + length (live_from m (Suc p))\<rparr>)"
      "length d = length (m_data m)" "take (w + length (live_from m (Suc p))) d = take w (m_data m) @ live_from m (Suc p)"
      by auto
    have "compact_loop m p w = compact_loop m (Suc p) w" using p True by (subst compact_loop.simps) simp
    moreover have "live_from m p = live_from m (Suc p)" using True by (simp add: live_from_def upt)
    ultimately show ?thesis using d by (intro exI [of _ d]) simp
  next
    case False
    let ?m = "m\<lparr>m_data := (m_data m)[w := m_data m ! p]\<rparr>"
    have same: "(m_data m)[w := m_data m ! p] = m_data m" if "w = p" using that p Suc.prems by simp
    have step: "compact_loop m p w = compact_loop ?m (Suc p) (Suc w)"
      using p False Suc.prems same by (subst compact_loop.simps) (auto simp: entry_at_def put_entry_def)
    have E: "live_from m p = (m_data m ! p) # live_from ?m (Suc p)"
      using False Suc.prems by (auto simp: live_from_def upt nth_list_update)
    have "n = m_used ?m - Suc p" using Suc.hyps(2) by simp
    from Suc.hyps(1) [OF this, of "Suc w"] Suc.prems p
    obtain d where d: "compact_loop ?m (Suc p) (Suc w) = Ok (?m\<lparr>m_data := d, m_dead := None, m_used := Suc w + length (live_from ?m (Suc p))\<rparr>)"
      "length d = length (m_data ?m)" "take (Suc w + length (live_from ?m (Suc p))) d = take (Suc w) (m_data ?m) @ live_from ?m (Suc p)"
      by auto
    moreover have "take (Suc w) (m_data ?m) = take w (m_data m) @ [m_data m ! p]"
      using Suc.prems p by (simp add: take_Suc_conv_app_nth)
    ultimately show ?thesis using step E by (intro exI [of _ d]) simp
  qed
qed

lemma live_from_0: "live_from m 0 = live_entries m"
  by (simp add: live_from_def live_entries_def)

lemma key_at_update [simp]:
  "key_at (m\<lparr>m_len := n\<rparr>) = key_at m" "key_at (m\<lparr>m_used := n\<rparr>) = key_at m"
  "key_at (m\<lparr>m_idx := ix\<rparr>) = key_at m" "key_at (m\<lparr>m_icap := n\<rparr>) = key_at m"
  "key_at (m\<lparr>m_tombs := n\<rparr>) = key_at m" "key_at (m\<lparr>m_dead := b\<rparr>) = key_at m"
  "key_at (m\<lparr>m_version := v\<rparr>) = key_at m" "key_at (m\<lparr>m_cap := n\<rparr>) = key_at m"
  by (auto simp: key_at_def fun_eq_iff)

lemma map_base_ok_used: "map_base_ok env kind m \<Longrightarrow> m_used m + 2 < 2 ^ 32"
  by (simp add: map_base_ok_def)

lemma map_base_ok_index_update [simp]:
  "map_base_ok env kind (m\<lparr>m_idx := ix, m_icap := c, m_tombs := t\<rparr>) = map_base_ok env kind m"
  by (simp add: map_base_ok_def live_pos_def)

lemma unat_bytes: "n * 8 < 2 ^ 64 \<Longrightarrow> unat (of_nat n * 8 :: u64) = n * 8"
  using unat_of_nat_small [of "n * 8"] by simp

context slot_keys
begin

lemma compact_ok:
  assumes base: "map_base_ok env kind m"
  shows "\<exists>m'. (if m_dead m \<noteq> None then compact_loop m 0 0 else Ok m) = Ok m' \<and> map_base_ok env kind m' \<and>
    live_entries m' = live_entries m \<and> m_dead m' = None \<and> m_used m' = m_len m \<and> m_len m' = m_len m \<and>
    same_kind m m' \<and> m_cap m' = m_cap m \<and> m_version m' = m_version m"
proof (cases "m_dead m")
  case None
  then have "m_used m = m_len m" using base by (simp add: map_base_ok_def live_pos_no_holes)
  with None base show ?thesis by simp
next
  case (Some bits)
  have used: "m_used m \<le> length (m_data m)" using base by (simp add: map_base_ok_def)
  obtain d where d: "compact_loop m 0 0 = Ok (m\<lparr>m_data := d, m_dead := None, m_used := length (live_entries m)\<rparr>)"
    "length d = length (m_data m)" "take (length (live_entries m)) d = live_entries m"
    using compact_loop_result [OF used, of 0 0] by (auto simp: live_from_0)
  let ?m = "m\<lparr>m_data := d, m_dead := None, m_used := length (live_entries m)\<rparr>"
  have len: "length (live_entries m) = m_len m" using base by (simp add: length_live_entries map_base_ok_def)
  have le: "m_len m \<le> m_cap m"
  proof -
    have "live_pos m \<subseteq> {..<m_used m}" by (auto simp: live_pos_def)
    from card_mono [OF _ this] base show ?thesis by (simp add: map_base_ok_def)
  qed
  have entries: "live_entries ?m = live_entries m"
    using d(2,3) len le base by (subst live_entries_no_holes) (simp_all add: map_base_ok_def)
  have "sorted_wrt (\<lambda>a b. \<not> slot_eq env (fst a) (fst b) kind) (live_entries ?m)"
    using keys_unique_list [of m] base unfolding entries by (simp add: map_base_ok_def)
  then have uniq: "\<forall>p \<in> live_pos ?m. \<forall>q \<in> live_pos ?m. slot_eq env (key_at ?m p) (key_at ?m q) kind \<longrightarrow> p = q"
    using keys_unique_list [of ?m] by blast
  have "live_pos ?m = {..<m_len m}" using len by (simp add: live_pos_no_holes)
  then have "map_base_ok env kind ?m"
    using base uniq d(2) le len unfolding map_base_ok_def by simp
  then show ?thesis
    using Some d(1) entries len by (intro exI [of _ ?m]) (simp add: same_kind_def)
qed

lemma map_reindex_to_ok:
  assumes base: "map_base_ok env kind m" and law: "map_alloc_law alloc" and r: "reserve \<le> 2 ^ 58"
  shows "map_reindex_to alloc env m kind reserve = out_of_memory 0 0 \<or>
    (\<exists>m'. map_reindex_to alloc env m kind reserve = Ok m' \<and> map_ok env kind m' \<and>
       live_entries m' = live_entries m \<and> same_kind m m' \<and> m_version m' = m_version m)"
proof -
  obtain m1 where m1: "(if m_dead m \<noteq> None then compact_loop m 0 0 else Ok m) = Ok m1"
    "map_base_ok env kind m1" "live_entries m1 = live_entries m" "m_dead m1 = None" "m_used m1 = m_len m"
    "m_len m1 = m_len m" "same_kind m m1" "m_version m1 = m_version m"
    using compact_ok [OF base] by blast
  define wanted where "wanted = (if m_len m1 > reserve then m_len m1 else reserve)"
  define cap where "cap = index_cap wanted 16"
  have wanted: "m_len m1 \<le> wanted" "wanted \<le> 2 ^ 58"
    using r map_base_ok_used [OF m1(2)] m1(5,6) by (auto simp: wanted_def)
  have "\<exists>k. (16::nat) = 2 ^ k" by (intro exI [of _ 4]) simp
  from index_cap_power [OF _ this, of wanted]
  obtain k where k: "cap = 2 ^ k" and room: "wanted * 3 < cap * 2" and cap: "cap = 16 \<or> cap \<le> wanted * 3"
    by (auto simp: cap_def)
  show ?thesis
  proof (cases "alloc (of_nat cap * 8)")
    case False
    then show ?thesis using m1(1)
      unfolding map_reindex_to_def wanted_def cap_def by (simp add: Let_def)
  next
    case True
    have "cap * 8 < 2 ^ 64" using cap wanted by auto
    then have "cap * 8 < 2 ^ 35" using law True unat_bytes unfolding map_alloc_law_def by metis
    then have "2 ^ k < (2 :: nat) ^ 63" using k by simp
    then have k63: "k < 63" by (rule power_less_imp_less_exp [rotated]) simp
    have "m_len m1 \<le> length (m_data m1)" "m_len m1 + 2 < 2 ^ 32"
      using m1(2,5,6) map_base_ok_used [OF m1(2)] by (auto simp: map_base_ok_def)
    from index_fill_ok [where H = "\<lambda>p. slot_hash env (key_at m1 p) kind" and p = 0 and ix = "replicate cap 0" and env = env and kind = kind, OF _ this]
      idx_ok_empty [OF k63] k room wanted
    obtain ix where ix: "index_fill env kind (m_data m1) (m_len m1) 0 (replicate cap 0) = Ok ix"
      "idx_ok ix {..<m_len m1} (\<lambda>p. slot_hash env (key_at m1 p) kind)" "idx_tombs ix = 0" "length ix = cap"
      by (auto simp: key_at_def idx_tombs_empty)
    let ?m = "m1\<lparr>m_idx := Some ix, m_icap := cap, m_tombs := 0\<rparr>"
    have "map_reindex_to alloc env m kind reserve = Ok ?m"
      using m1(1) True ix(1) unfolding map_reindex_to_def wanted_def cap_def by (simp add: Let_def)
    moreover have "live_pos ?m = {..<m_len m1}" using m1(4,5,6) by (simp add: live_pos_no_holes)
    then have "map_ok env kind ?m"
      using m1(2) ix(2-4) room wanted unfolding map_ok_def map_index_ok_def by simp
    moreover have "live_entries ?m = live_entries m" using m1(3) by (simp add: live_entries_def)
    moreover have "same_kind m ?m" using m1(7) by (simp add: same_kind_def)
    ultimately show ?thesis using m1(8) by simp
  qed
qed

end

section \<open>Searching\<close>

lemma scan_keys_Some: "scan_keys hit data i n = Some p \<Longrightarrow> i \<le> p \<and> p < i + n \<and> hit (fst (data ! p))"
  by (induction n arbitrary: i) (fastforce split: if_splits)+

lemma scan_keys_None: "scan_keys hit data i n = None \<Longrightarrow> i \<le> p \<Longrightarrow> p < i + n \<Longrightarrow> \<not> hit (fst (data ! p))"
proof (induction n arbitrary: i)
  case (Suc n)
  then show ?case by (cases "p = i") (auto split: if_splits)
qed simp

text \<open>A slot where a key with this hash can go.\<close>

definition insert_ready :: "u64 list \<Rightarrow> u64 \<Rightarrow> u64 \<Rightarrow> bool" where
  "insert_ready ix h w \<longleftrightarrow> unat w < length ix \<and> idx_state ix (unat w) < 2 \<and>
     (\<exists>n < length ix. unat w = probe_at ix h n \<and> (\<forall>j < n. idx_state ix (probe_at ix h j) \<noteq> 0))"

definition find_meets :: "slot_env \<Rightarrow> int \<Rightarrow> bmap \<Rightarrow> slot \<Rightarrow> found \<Rightarrow> bool" where
  "find_meets env kind m key f \<longleftrightarrow>
     (case f of (r, h, w) \<Rightarrow>
       (case r of
          Some p \<Rightarrow> p \<in> live_pos m \<and> slot_eq env (key_at m p) key kind \<and>
            (\<forall>ix. m_idx m = Some ix \<longrightarrow> unat w < length ix \<and> idx_state ix (unat w) = p + 2)
        | None \<Rightarrow> (\<forall>p \<in> live_pos m. \<not> slot_eq env (key_at m p) key kind) \<and>
            (\<forall>ix. m_idx m = Some ix \<longrightarrow> insert_ready ix h w \<and> h = slot_hash env key kind)))"

context slot_keys
begin

lemma map_find_ok:
  assumes ok: "map_ok env kind m"
  shows "\<exists>f. map_find env m key kind = Ok f \<and> find_meets env kind m key f"
proof (cases "m_idx m")
  case None
  then have dead: "m_dead m = None" using ok by (simp add: map_ok_def map_index_ok_def)
  have base: "map_base_ok env kind m" using ok by (simp add: map_ok_def)
  then have len: "m_used m = m_len m" "m_len m \<le> length (m_data m)"
    using live_pos_no_holes [OF dead] by (auto simp: map_base_ok_def)
  let ?s = "scan_keys (\<lambda>k. slot_eq env k key kind) (m_data m) 0 (m_len m)"
  have "find_meets env kind m key (?s, 0, 0)"
  proof (cases ?s)
    case None
    then show ?thesis
      using scan_keys_None [OF None] \<open>m_idx m = None\<close> len live_pos_no_holes [OF dead]
      by (simp add: find_meets_def key_at_def)
  next
    case (Some p)
    then show ?thesis
      using scan_keys_Some [OF Some] \<open>m_idx m = None\<close> len live_pos_no_holes [OF dead]
      by (simp add: find_meets_def key_at_def)
  qed
  with None len show ?thesis by (simp add: map_find_def)
next
  case (Some ix)
  let ?h = "slot_hash env key kind" and ?hit = "\<lambda>k. slot_eq env k key kind"
  have base: "map_base_ok env kind m" and ix: "length ix = m_icap m"
    "idx_ok ix (live_pos m) (\<lambda>p. slot_hash env (key_at m p) kind)" "idx_tombs ix = m_tombs m"
    "(m_len m + m_tombs m) * 3 < m_icap m * 2"
    using ok Some by (auto simp: map_ok_def map_index_ok_def)
  have "card (live_pos m) + idx_tombs ix < length ix" using base ix by (simp add: map_base_ok_def)
  note room = idx_ok_empty_slot [OF ix(2) this]
  have cells: "p < length (m_data m)" if "p \<in> live_pos m" for p
    using that base by (auto simp: map_base_ok_def live_pos_def)
  have hash: "slot_hash env (key_at m p) kind = ?h" if "p \<in> live_pos m" "slot_eq env (fst (m_data m ! p)) key kind" for p
    using keq_hash [OF that(2)] by (simp add: key_at_def)
  have "\<exists>r w. idx_probe ?hit m ix (idx_msk ix) (?h AND 0xffffffff00000000) (length ix) (?h AND idx_msk ix) None = Ok (r, w) \<and>
    unat w < length ix \<and>
    (case r of
       Some p \<Rightarrow> p \<in> live_pos m \<and> ?hit (fst (m_data m ! p)) \<and> idx_state ix (unat w) = p + 2
     | None \<Rightarrow> (\<forall>p \<in> live_pos m. \<not> ?hit (fst (m_data m ! p))) \<and> idx_state ix (unat w) < 2 \<and>
         (\<exists>n < length ix. unat w = probe_at ix ?h n \<and> (\<forall>j < n. idx_state ix (probe_at ix ?h j) \<noteq> 0)))"
    by (rule idx_probe_finds [OF ix(2) room]) (fact cells, fact hash)
  then obtain r w where "idx_probe ?hit m ix (idx_msk ix) (?h AND 0xffffffff00000000) (length ix) (?h AND idx_msk ix) None = Ok (r, w)"
    "unat w < length ix"
    "case r of
       Some p \<Rightarrow> p \<in> live_pos m \<and> ?hit (fst (m_data m ! p)) \<and> idx_state ix (unat w) = p + 2
     | None \<Rightarrow> (\<forall>p \<in> live_pos m. \<not> ?hit (fst (m_data m ! p))) \<and> idx_state ix (unat w) < 2 \<and>
         (\<exists>n < length ix. unat w = probe_at ix ?h n \<and> (\<forall>j < n. idx_state ix (probe_at ix ?h j) \<noteq> 0))"
    by blast
  then show ?thesis
    using Some ix(1)
    by (intro exI [of _ "(r, ?h, w)"])
       (auto simp: map_find_def Let_def find_meets_def insert_ready_def key_at_def split: option.splits)
qed

end

text \<open>The raw entry points search as the kind 0 does.\<close>

lemma map_find_raw_kind0: "map_find_raw m key = map_find env m key 0"
proof -
  have "(\<lambda>k. slot_eq env k key 0) = (\<lambda>k. k = key)" "slot_hash env key 0 = beans_mix64 key"
    by (simp_all add: fun_eq_iff slot_eq_def slot_hash_def)
  then show ?thesis by (simp only: map_find_raw_def map_find_def)
qed

section \<open>Growing the entry array\<close>

lemma dead_words_mono: "a \<le> b \<Longrightarrow> dead_words a \<le> dead_words b"
  by (simp add: dead_words_def div_le_mono)

lemma dead_words_enough: "n \<le> 64 * dead_words n"
  by (simp add: dead_words_def)

lemma map_grow_ok:
  assumes ok: "map_ok env kind m" and law: "map_alloc_law alloc" and cap: "m_cap m \<le> cap"
    and small: "cap * 16 < 2 ^ 64" "m_wide m \<longrightarrow> int cap * m_vstride m < 2 ^ 64"
  shows "map_grow alloc m cap line col = out_of_memory line col \<or>
    (\<exists>m'. map_grow alloc m cap line col = Ok m' \<and> map_ok env kind m' \<and> m_cap m' = cap \<and>
       live_entries m' = live_entries m \<and> live_pos m' = live_pos m \<and>
       (\<forall>p < m_cap m. m_data m' ! p = m_data m ! p) \<and> m_used m' = m_used m \<and> m_len m' = m_len m \<and>
       m_idx m' = m_idx m \<and> m_icap m' = m_icap m \<and> m_tombs m' = m_tombs m \<and>
       (m_dead m' = None \<longleftrightarrow> m_dead m = None) \<and> same_kind m m' \<and> m_version m' = m_version m)"
proof -
  have base: "map_base_ok env kind m" using ok by (simp add: map_ok_def)
  define bytes where "bytes = (of_nat cap * 16 :: u64)"
  define wbytes where "wbytes = (of_nat cap * of_int (m_vstride m) :: u64)"
  define cells where "cells = (if m_wide m then min (unat bytes div 16) (cells_of wbytes (m_vstride m)) else unat bytes div 16)"
  define bits' where "bits' = map_option (\<lambda>bits. bits @ replicate (64 * dead_words cap - length bits) False) (m_dead m)"
  define m' where "m' = m\<lparr>m_data := take cells (m_data m) @ replicate (cells - length (m_data m)) (0, []),
     m_dead := bits', m_cap := cap\<rparr>"
  show ?thesis
  proof (cases "(\<not> alloc bytes \<or> (m_wide m \<and> \<not> alloc wbytes)) \<or> (m_dead m \<noteq> None \<and> \<not> alloc (of_nat (dead_words cap) * 8))")
    case True
    then have "map_grow alloc m cap line col = out_of_memory line col"
      unfolding map_grow_def Let_def bytes_def wbytes_def by argo
    then show ?thesis by blast
  next
    case False
    then have grow: "map_grow alloc m cap line col = Ok m'"
      unfolding map_grow_def Let_def m'_def cells_def bits'_def bytes_def wbytes_def by argo
    have b: "unat bytes = cap * 16"
      using unat_of_nat_small [of "cap * 16"] small(1) by (simp add: bytes_def)
    have small': "cap * 16 < 2 ^ 35" using law False b by (metis map_alloc_law_def)
    have wide: "cells_of wbytes (m_vstride m) = cap" "int cap * m_vstride m < 2 ^ 35" if "m_wide m"
    proof -
      have pos: "0 < m_vstride m" using that base by (simp add: map_base_ok_def)
      have w: "wbytes = of_int (int cap) * of_int (m_vstride m)" by (simp add: wbytes_def)
      show "cells_of wbytes (m_vstride m) = cap"
        unfolding w using cells_of_product [OF pos, of "int cap"] small(2) that by simp
      have "unat wbytes = nat (int cap * m_vstride m)"
        unfolding w using unat_product [OF pos, of "int cap"] small(2) that by simp
      moreover have "unat wbytes < 2 ^ 35" using law False that by (metis map_alloc_law_def)
      ultimately show "int cap * m_vstride m < 2 ^ 35" by simp
    qed
    have cells: "cells = cap" using b wide(1) by (simp add: cells_def)
    have len: "length (m_data m) = m_cap m" "m_used m \<le> m_cap m" using base by (auto simp: map_base_ok_def)
    have data: "m_data m' ! p = m_data m ! p" if "p < m_cap m" for p
      using that len cap cells by (simp add: m'_def nth_append)
    have dead: "map_dead m' p \<longleftrightarrow> map_dead m p" for p
      by (auto simp: map_dead_def m'_def bits'_def nth_append split: option.splits)
    have used: "m_used m' = m_used m" by (simp add: m'_def)
    have live: "live_pos m' = live_pos m" "m_used m' = m_used m" by (auto simp: live_pos_def dead used)
    have key: "key_at m' p = key_at m p" if "p \<in> live_pos m" for p
      using data [of p] that len by (auto simp: key_at_def live_pos_def)
    have "live_entries m' = live_entries m"
      using data len by (auto simp: live_entries_def dead live(2))
    moreover have "map_base_ok env kind m'"
    proof -
      have fields: "m_cap m' = cap" "length (m_data m') = cap" "m_wide m' = m_wide m" "m_vstride m' = m_vstride m"
        "m_len m' = m_len m" "m_ordered m' = m_ordered m"
        using cells cap len by (simp_all add: m'_def)
      have bits: "m_ordered m \<and> length b = 64 * dead_words cap \<and> (\<forall>p < length b. m_used m \<le> p \<longrightarrow> \<not> b ! p)"
        if d: "m_dead m' = Some b" for b
      proof -
        obtain z where z: "m_dead m = Some z" and b: "b = z @ replicate (64 * dead_words cap - length z) False"
          using d by (auto simp: m'_def bits'_def)
        have "m_ordered m" "length z = 64 * dead_words (m_cap m)" "\<forall>p < length z. m_used m \<le> p \<longrightarrow> \<not> z ! p"
          using base z by (auto simp: map_base_ok_def)
        then show ?thesis using dead_words_mono [OF cap] by (auto simp: b nth_append)
      qed
      show ?thesis
        using base small' wide(2) cap len bits key unfolding map_base_ok_def fields live by auto
    qed
    moreover have "map_index_ok env kind m'"
      using ok idx_ok_cong [where H = "\<lambda>p. slot_hash env (key_at m p) kind" and H' = "\<lambda>p. slot_hash env (key_at m' p) kind" and LV = "live_pos m"] key
      unfolding map_ok_def map_index_ok_def live(1)
      by (auto simp: m'_def bits'_def split: option.splits)
    ultimately show ?thesis
      using grow data live by (intro disjI2 exI [of _ m'] conjI) (auto simp: map_ok_def m'_def bits'_def same_kind_def)
  qed
qed

section \<open>Insertion\<close>

definition stored :: "bmap \<Rightarrow> slot \<Rightarrow> elem \<Rightarrow> bmap" where
  "stored m key val = map_bump_version (m\<lparr>m_data := (m_data m)[m_used m := (key, val)],
     m_used := m_used m + 1, m_len := m_len m + 1\<rparr>)"

lemma stored_fields:
  "m_idx (stored m key val) = m_idx m" "m_tombs (stored m key val) = m_tombs m"
  "m_icap (stored m key val) = m_icap m" "m_used (stored m key val) = m_used m + 1"
  "m_len (stored m key val) = m_len m + 1" "same_kind m (stored m key val)" "m_dead (stored m key val) = m_dead m"
  "m_cap (stored m key val) = m_cap m" "m_data (stored m key val) = (m_data m)[m_used m := (key, val)]"
  "m_wide (stored m key val) = m_wide m" "m_vstride (stored m key val) = m_vstride m"
  "m_ordered (stored m key val) = m_ordered m"
  by (simp_all add: stored_def map_bump_version_def same_kind_def)

lemma used_not_live: "m_used m \<notin> live_pos m"
  by (simp add: live_pos_def)

lemma stored_live:
  assumes base: "map_base_ok env kind m" and room: "m_used m < m_cap m"
  shows "live_pos (stored m key val) = insert (m_used m) (live_pos m)"
    "live_entries (stored m key val) = live_entries m @ [(key, val)]"
    "\<And>p. p \<in> live_pos m \<Longrightarrow> key_at (stored m key val) p = key_at m p" "key_at (stored m key val) (m_used m) = key"
proof -
  have used: "\<not> map_dead m (m_used m)"
    using base by (auto simp: map_base_ok_def map_dead_def split: option.splits)
  have dead: "map_dead (stored m key val) = map_dead m" by (simp add: map_dead_def stored_fields fun_eq_iff)
  have len: "m_used m < length (m_data m)" using base room by (simp add: map_base_ok_def)
  show "live_pos (stored m key val) = insert (m_used m) (live_pos m)"
    using used by (auto simp: live_pos_def dead stored_fields)
  show "live_entries (stored m key val) = live_entries m @ [(key, val)]"
    using used len by (auto simp: live_entries_def dead stored_fields)
  show "key_at (stored m key val) p = key_at m p" if "p \<in> live_pos m" for p
    using that by (auto simp: key_at_def stored_fields live_pos_def)
  show "key_at (stored m key val) (m_used m) = key" using len by (simp add: key_at_def stored_fields)
qed

context slot_keys
begin

lemma stored_base:
  assumes base: "map_base_ok env kind m" and room: "m_used m < m_cap m"
    and miss: "\<forall>p \<in> live_pos m. \<not> slot_eq env (key_at m p) key kind"
  shows "map_base_ok env kind (stored m key val)"
proof -
  note live = stored_live [OF base room, where key = key and val = val]
  have "p = q" if "p \<in> live_pos (stored m key val)" "q \<in> live_pos (stored m key val)"
    "slot_eq env (key_at (stored m key val) p) (key_at (stored m key val) q) kind" for p q
  proof -
    have "\<not> slot_eq env key (key_at m r) kind" if "r \<in> live_pos m" for r
      using miss that keq_sym by blast
    moreover have "\<And>p q. p \<in> live_pos m \<Longrightarrow> q \<in> live_pos m \<Longrightarrow> slot_eq env (key_at m p) (key_at m q) kind \<Longrightarrow> p = q"
      using base by (simp add: map_base_ok_def)
    ultimately show ?thesis using that miss unfolding live(1) by (auto simp: live)
  qed
  moreover have "card (live_pos (stored m key val)) = m_len m + 1"
    using base live(1) used_not_live [of m] by (simp add: map_base_ok_def)
  ultimately show ?thesis
    using base room unfolding map_base_ok_def by (auto simp: stored_fields)
qed

lemma stored_indexed:
  assumes ok: "map_ok env kind m" and room: "m_used m < m_cap m" and ix: "m_idx m = Some ix"
    and miss: "\<forall>p \<in> live_pos m. \<not> slot_eq env (key_at m p) key kind"
    and ready: "insert_ready ix h w" "h = slot_hash env key kind"
    and load: "(m_used m + 1 + m_tombs m) * 3 < m_icap m * 2"
  defines "t \<equiv> (if ix ! unat w AND 0xffffffff = 1 then m_tombs m - 1 else m_tombs m)"
    and "nix \<equiv> ix[unat w := (h AND 0xffffffff00000000) OR of_nat (m_used m + 2)]"
  shows "map_ok env kind (stored m key val\<lparr>m_tombs := t, m_idx := Some nix\<rparr>)"
proof -
  have base: "map_base_ok env kind m" and x: "length ix = m_icap m"
    "idx_ok ix (live_pos m) (\<lambda>p. slot_hash env (key_at m p) kind)" "idx_tombs ix = m_tombs m"
    using ok ix by (auto simp: map_ok_def map_index_ok_def)
  note live = stored_live [OF base room, where key = key and val = val]
  let ?H = "\<lambda>p. slot_hash env (key_at (stored m key val) p) kind"
  have H: "?H (m_used m) = h" using live(4) ready(2) by simp
  have small: "m_used m + 2 < 2 ^ 32" using map_base_ok_used [OF base] .
  have w: "unat w < length ix" "idx_state ix (unat w) < 2" using ready(1) by (auto simp: insert_ready_def)
  have "idx_ok ix (live_pos m) ?H" using idx_ok_cong [OF x(2)] live(3) by simp
  from idx_ok_put [OF this w used_not_live small] ready(1)
  have put: "idx_ok nix (insert (m_used m) (live_pos m)) ?H"
    unfolding nix_def insert_ready_def H by blast
  have "idx_tombs nix = t"
    using idx_tombs_update [OF w(1), of "(h AND 0xffffffff00000000) OR of_nat (m_used m + 2)"]
      state_of_word [OF small, of h] x(3) by (auto simp: nix_def t_def state_one simp del: of_nat_add split: if_splits)
  moreover have "t \<le> m_tombs m" by (simp add: t_def)
  moreover have "m_len m \<le> m_used m"
    using card_mono [of "{..<m_used m}" "live_pos m"] base by (auto simp: map_base_ok_def live_pos_def)
  moreover have "length nix = m_icap m" using x(1) by (simp add: nix_def)
  ultimately have "map_index_ok env kind (stored m key val\<lparr>m_tombs := t, m_idx := Some nix\<rparr>)"
    using put load live(1) by (simp add: map_index_ok_def stored_fields live_pos_def)
  moreover have "map_base_ok env kind (stored m key val\<lparr>m_tombs := t, m_idx := Some nix\<rparr>)"
    using stored_base [OF base room miss, of val] by (simp add: map_base_ok_def live_pos_def)
  ultimately show ?thesis by (simp add: map_ok_def)
qed

lemma map_append_entry_ok:
  assumes ok: "map_ok env kind m" and law: "map_alloc_law alloc"
    and miss: "\<forall>p \<in> live_pos m. \<not> slot_eq env (key_at m p) key kind"
    and ready: "\<forall>ix. m_idx m = Some ix \<longrightarrow> insert_ready ix h w \<and> h = slot_hash env key kind"
  shows "map_append_entry alloc env m key val h kind w = out_of_memory 0 0 \<or>
    (\<exists>m'. map_append_entry alloc env m key val h kind w = Ok m' \<and> map_ok env kind m' \<and>
       live_entries m' = live_entries m @ [(key, val)] \<and> same_kind m m')"
proof -
  let ?room = "if m_used m = m_cap m then map_grow alloc m (m_cap m * 2) 0 0 else Ok m"
  have base: "map_base_ok env kind m" using ok by (simp add: map_ok_def)
  consider "?room = out_of_memory 0 0"
    | n where "?room = Ok n" "map_ok env kind n" "m_used n < m_cap n" "live_entries n = live_entries m"
        "live_pos n = live_pos m" "\<forall>p < m_cap m. m_data n ! p = m_data m ! p" "m_idx n = m_idx m" "same_kind m n"
  proof (cases "m_used m = m_cap m")
    case True
    have "m_cap m \<le> m_cap m * 2" "m_cap m * 2 * 16 < 2 ^ 64" "m_cap m * 2 > m_used m"
      "m_wide m \<longrightarrow> int (m_cap m * 2) * m_vstride m < 2 ^ 64"
      using base True by (auto simp: map_base_ok_def mult.commute [of "m_vstride m"])
    from map_grow_ok [OF ok law this(1,2,4), of 0 0] this(3) True that show ?thesis by auto
  next
    case False
    then show ?thesis using that(2) [of m] ok base by (simp add: map_base_ok_def)
  qed
  then show ?thesis
  proof cases
    case 1
    then show ?thesis unfolding map_append_entry_def by (simp add: out_of_memory_def)
  next
    case (2 n)
    have nb: "map_base_ok env kind n" using 2(2) by (simp add: map_ok_def)
    have keys: "key_at n p = key_at m p" if "p \<in> live_pos m" for p
      using that 2(6) base by (auto simp: key_at_def live_pos_def map_base_ok_def)
    have nmiss: "\<forall>p \<in> live_pos n. \<not> slot_eq env (key_at n p) key kind" using miss keys 2(5) by simp
    let ?s = "stored n key val"
    note sb = stored_base [OF nb 2(3) nmiss, of val]
    have entries: "live_entries ?s = live_entries m @ [(key, val)]" using stored_live(2) [OF nb 2(3)] 2(4) by simp
    have skind: "same_kind m ?s" using 2(8) stored_fields(6) same_kind_trans by blast
    have put: "put_entry n (m_used n) (key, val) = Ok (n\<lparr>m_data := (m_data n)[m_used n := (key, val)]\<rparr>)"
      using nb 2(3) by (simp add: put_entry_def map_base_ok_def)
    have run: "map_append_entry alloc env m key val h kind w =
       (case m_idx ?s of
         None \<Rightarrow> if m_len ?s > MAP_LINEAR_MAX then map_reindex alloc env ?s kind else Ok ?s
       | Some ix \<Rightarrow>
           if (m_used ?s + m_tombs ?s) * 3 \<ge> m_icap ?s * 2 then map_reindex alloc env ?s kind
           else if unat w < length ix then
             Ok (?s\<lparr>m_tombs := (if ix ! unat w AND IDX_POS = 1 then m_tombs ?s - 1 else m_tombs ?s),
                    m_idx := Some (ix[unat w := (h AND IDX_FRAG) OR of_nat (m_used ?s + 1)])\<rparr>)
           else Fault)"
    proof -
      have st: "map_bump_version ((n\<lparr>m_data := (m_data n)[m_used n := (key, val)]\<rparr>)
          \<lparr>m_used := m_used (n\<lparr>m_data := (m_data n)[m_used n := (key, val)]\<rparr>) + 1,
           m_len := m_len (n\<lparr>m_data := (m_data n)[m_used n := (key, val)]\<rparr>) + 1\<rparr>) = ?s"
        by (simp add: stored_def)
      show ?thesis unfolding map_append_entry_def 2(1) rt_bind.simps put Let_def st by (rule refl)
    qed
    have reindexed: "map_reindex alloc env ?s kind = out_of_memory 0 0 \<or>
      (\<exists>m'. map_reindex alloc env ?s kind = Ok m' \<and> map_ok env kind m' \<and>
        live_entries m' = live_entries m @ [(key, val)] \<and> same_kind m m')"
      using map_reindex_to_ok [OF sb law, of 0] entries skind same_kind_trans unfolding map_reindex_def by fastforce
    show ?thesis
    proof (cases "m_idx n")
      case None
      then have "m_dead n = None" using 2(2) by (simp add: map_ok_def map_index_ok_def)
      then have "map_ok env kind ?s" using sb None by (simp add: map_ok_def map_index_ok_def stored_fields)
      then show ?thesis using run None reindexed entries skind by (simp add: stored_fields)
    next
      case (Some ix)
      show ?thesis
      proof (cases "(m_used ?s + m_tombs ?s) * 3 \<ge> m_icap ?s * 2")
        case True
        then show ?thesis using run Some reindexed by (simp add: stored_fields)
      next
        case False
        have r: "insert_ready ix h w" "h = slot_hash env key kind" using ready Some 2(7) by auto
        then have w: "unat w < length ix" by (simp add: insert_ready_def)
        have load: "(m_used n + 1 + m_tombs n) * 3 < m_icap n * 2" using False by (simp add: stored_fields)
        note final = stored_indexed [OF 2(2,3) Some nmiss r load, of val]
        define f where "f = ?s\<lparr>m_tombs := (if ix ! unat w AND IDX_POS = 1 then m_tombs n - 1 else m_tombs n),
            m_idx := Some (ix[unat w := (h AND IDX_FRAG) OR of_nat (m_used n + 2)])\<rparr>"
        have u: "m_used ?s + 1 = m_used n + 2" by (simp add: stored_fields)
        have "map_append_entry alloc env m key val h kind w = Ok f"
          unfolding run f_def u using Some False w
          by (simp only: stored_fields option.case if_False if_True)
        moreover have "map_ok env kind f" using final by (simp only: f_def)
        moreover have "live_entries f = live_entries m @ [(key, val)]"
          using entries by (simp add: f_def live_entries_def)
        moreover have "same_kind m f" using skind by (simp add: f_def same_kind_def)
        ultimately show ?thesis by blast
      qed
    qed
  qed
qed

end

end
