(* ===== verification/Rt_Map_Ops.thy ===== *)
theory Rt_Map_Ops
  imports Rt_Map_Spec
begin

text \<open>
  The operations of the map on top of its invariant: replacing a value, removing an entry in each of
  the three representations (linear, indexed, indexed with holes), and the refinement of the map to
  an association list in iteration order.
\<close>

unbundle bit_operations_syntax

section \<open>Replacing a value\<close>

definition same_key :: "slot_env \<Rightarrow> int \<Rightarrow> slot \<Rightarrow> slot \<times> elem \<Rightarrow> bool" where
  "same_key env kind key e \<longleftrightarrow> slot_eq env (fst e) key kind"

definition replaced :: "slot_env \<Rightarrow> int \<Rightarrow> slot \<Rightarrow> elem \<Rightarrow> (slot \<times> elem) list \<Rightarrow> (slot \<times> elem) list" where
  "replaced env kind key val xs = map (\<lambda>e. if same_key env kind key e then (fst e, val) else e) xs"

lemma live_entries_mem: "e \<in> set (live_entries m) \<longleftrightarrow> (\<exists>p \<in> live_pos m. e = m_data m ! p)"
  by (auto simp: live_entries_list set_live_list)

context slot_keys
begin

lemma hit_unique:
  assumes "map_base_ok env kind m" "i \<in> live_pos m" "slot_eq env (key_at m i) key kind" "p \<in> live_pos m"
  shows "slot_eq env (key_at m p) key kind \<longleftrightarrow> p = i"
proof
  assume "slot_eq env (key_at m p) key kind"
  then have "slot_eq env (key_at m p) (key_at m i) kind" using assms(3) keq_sym keq_trans by blast
  then show "p = i" using assms(1,2,4) by (simp add: map_base_ok_def)
qed (use assms(3) in simp)

lemma put_hit_ok:
  assumes ok: "map_ok env kind m" and i: "i \<in> live_pos m" "slot_eq env (key_at m i) key kind"
  shows "\<exists>m'. put_entry m i (key_at m i, val) = Ok m' \<and> map_ok env kind m' \<and>
    live_entries m' = replaced env kind key val (live_entries m) \<and> same_kind m m' \<and> m_version m' = m_version m"
proof -
  have base: "map_base_ok env kind m" using ok by (simp add: map_ok_def)
  have il: "i < length (m_data m)" using base i by (auto simp: map_base_ok_def live_pos_def)
  let ?m = "m\<lparr>m_data := (m_data m)[i := (key_at m i, val)]\<rparr>"
  have key: "key_at ?m = key_at m" using il by (auto simp: key_at_def fun_eq_iff nth_list_update)
  have live: "live_pos ?m = live_pos m" by (simp add: live_pos_def)
  have "map_base_ok env kind ?m" using base il unfolding map_base_ok_def live key by simp
  moreover have "map_index_ok env kind ?m"
    using ok unfolding map_ok_def map_index_ok_def live key by (simp split: option.splits)
  moreover have "live_entries ?m = replaced env kind key val (live_entries m)"
  proof -
    have "m_data ?m ! p = (if same_key env kind key (m_data m ! p) then (fst (m_data m ! p), val) else m_data m ! p)"
      if "p \<in> live_pos m" for p
      using hit_unique [OF base i that] il by (auto simp: same_key_def key_at_def nth_list_update)
    then show ?thesis
      by (simp add: live_entries_list replaced_def live_list_def) (auto simp: live_pos_def)
  qed
  ultimately show ?thesis using il by (simp add: put_entry_def map_ok_def same_kind_def)
qed

end

section \<open>Removal\<close>

text \<open>Removal from a plain map moves the last entry into the hole.\<close>

definition swap_out :: "'a list \<Rightarrow> nat \<Rightarrow> 'a list" where
  "swap_out xs i = butlast (xs[i := last xs])"

definition removed :: "slot_env \<Rightarrow> int \<Rightarrow> bool \<Rightarrow> slot \<Rightarrow> (slot \<times> elem) list \<Rightarrow> (slot \<times> elem) list" where
  "removed env kind ordered key xs =
     (if ordered then filter (\<lambda>e. \<not> same_key env kind key e) xs
      else swap_out xs (length (takeWhile (\<lambda>e. \<not> same_key env kind key e) xs)))"

lemma takeWhile_unique:
  assumes "i < length xs" "P (xs ! i)" "\<forall>j < i. \<not> P (xs ! j)"
  shows "length (takeWhile (\<lambda>x. \<not> P x) xs) = i"
proof -
  have "takeWhile (\<lambda>x. \<not> P x) xs = take i xs" using assms by (intro takeWhile_eq_take_P_nth) auto
  then show ?thesis using assms(1) by simp
qed

lemma filter_unique:
  assumes "i < length xs" "\<And>j. j < length xs \<Longrightarrow> P (xs ! j) \<longleftrightarrow> j = i"
  shows "filter (\<lambda>x. \<not> P x) xs = take i xs @ drop (Suc i) xs"
proof -
  have xs: "xs = take i xs @ xs ! i # drop (Suc i) xs" using id_take_nth_drop [OF assms(1)] .
  have "filter (\<lambda>x. \<not> P x) (take i xs) = take i xs" "filter (\<lambda>x. \<not> P x) (drop (Suc i) xs) = drop (Suc i) xs"
    using assms by (auto simp: filter_id_conv in_set_conv_nth)
  moreover have "P (xs ! i)" using assms by simp
  ultimately show ?thesis by (subst xs) (simp only: filter_append filter.simps if_False not_True_eq_False)
qed

lemma swap_out_take:
  assumes "i < n" "n \<le> length d"
  shows "swap_out (take n d) i = take (n - 1) (d[i := d ! (n - 1)])"
proof -
  have "last (take n d) = take n d ! (length (take n d) - 1)" using assms by (intro last_conv_nth) auto
  then have "last (take n d) = d ! (n - 1)" using assms by (simp add: min_def)
  then have "swap_out (take n d) i = butlast ((take n d)[i := d ! (n - 1)])" by (simp add: swap_out_def)
  also have "(take n d)[i := d ! (n - 1)] = take n (d[i := d ! (n - 1)])" by (simp add: take_update_swap)
  also have "butlast \<dots> = take (n - 1) (d[i := d ! (n - 1)])" using assms by (simp add: butlast_take)
  finally show ?thesis .
qed

context slot_keys
begin

lemma no_holes_index:
  assumes base: "map_base_ok env kind m" and "m_dead m = None"
    and i: "i \<in> live_pos m" "slot_eq env (key_at m i) key kind"
  shows "removed env kind False key (live_entries m) = take (m_used m - 1) ((m_data m)[i := m_data m ! (m_used m - 1)])"
    "removed env kind True key (live_entries m) = take i (m_data m) @ take (m_used m - i - 1) (drop (i + 1) (m_data m))"
proof -
  have len: "m_used m \<le> length (m_data m)" "i < m_used m" using base i by (auto simp: map_base_ok_def live_pos_def)
  have live: "live_pos m = {..<m_used m}" using assms(2) live_pos_no_holes by blast
  have entries: "live_entries m = take (m_used m) (m_data m)" using assms(2) len live_entries_no_holes by blast
  have same: "same_key env kind key (take (m_used m) (m_data m) ! j) \<longleftrightarrow> j = i" if "j < m_used m" for j
    using hit_unique [OF base i, of j] that len live by (simp add: same_key_def key_at_def)
  have "length (takeWhile (\<lambda>e. \<not> same_key env kind key e) (take (m_used m) (m_data m))) = i"
    using same len by (intro takeWhile_unique) auto
  then show "removed env kind False key (live_entries m) = take (m_used m - 1) ((m_data m)[i := m_data m ! (m_used m - 1)])"
    using len by (simp add: removed_def entries swap_out_take)
  have "filter (\<lambda>e. \<not> same_key env kind key e) (take (m_used m) (m_data m)) =
      take i (take (m_used m) (m_data m)) @ drop (Suc i) (take (m_used m) (m_data m))"
    using same len by (intro filter_unique) auto
  then show "removed env kind True key (live_entries m) = take i (m_data m) @ take (m_used m - i - 1) (drop (i + 1) (m_data m))"
    using len by (simp add: removed_def entries drop_take min_def)
qed

lemma unlink_linear_ok:
  assumes ok: "map_ok env kind m" and idx: "m_idx m = None"
    and i: "i \<in> live_pos m" "slot_eq env (key_at m i) key kind"
  shows "\<exists>m'. map_unlink_entry alloc env m i w kind = Ok m' \<and> map_ok env kind m' \<and>
    live_entries m' = removed env kind (m_ordered m) key (live_entries m) \<and> same_kind m m'"
proof -
  have base: "map_base_ok env kind m" and dead: "m_dead m = None" using ok idx by (auto simp: map_ok_def map_index_ok_def)
  have live: "live_pos m = {..<m_used m}" using dead live_pos_no_holes by blast
  have len: "m_used m \<le> m_cap m" "length (m_data m) = m_cap m" "i < m_used m" "m_len m = m_used m"
    using base i live by (auto simp: map_base_ok_def)
  define last where "last = m_used m - 1"
  define d' where "d' = (if m_ordered m then take i (m_data m) @ take (m_used m - i - 1) (drop (i + 1) (m_data m)) @ drop last (m_data m)
      else if i \<noteq> last then (m_data m)[i := m_data m ! last] else m_data m)"
  define d where "d = (if m_wide m then d'[last := (fst (d' ! last), zero_value m)] else d')"
  define m' where "m' = m\<lparr>m_data := d, m_len := m_len m - 1, m_used := last\<rparr>"
  have run: "map_unlink_entry alloc env m i w kind = Ok m'"
    using idx len by (simp add: map_unlink_entry_def Let_def m'_def d_def d'_def last_def)
  have last: "last < m_used m" "i \<le> last" "Suc last = m_used m" using len by (auto simp: last_def)
  have ld: "length d = m_cap m" using len last by (simp add: d_def d'_def)
  have "take last d = take last d'" by (simp add: d_def)
  also have "take last d' = removed env kind (m_ordered m) key (live_entries m)"
  proof (cases "m_ordered m")
    case True
    then show ?thesis using no_holes_index(2) [OF base dead i] len last by (simp add: d'_def last_def)
  next
    case False
    then show ?thesis using no_holes_index(1) [OF base dead i] len last by (auto simp: d'_def last_def)
  qed
  finally have tk: "take last d = removed env kind (m_ordered m) key (live_entries m)" .
  have dead': "m_dead m' = None" "m_used m' = last" "length (m_data m') = m_cap m" using dead ld by (simp_all add: m'_def)
  have entries: "live_entries m' = removed env kind (m_ordered m) key (live_entries m)"
    using live_entries_no_holes [OF dead'(1)] dead' last len tk by (simp add: m'_def)
  have live': "live_pos m' = {..<last}" using live_pos_no_holes [OF dead'(1)] dead'(2) by simp
  have uniq: "sorted_wrt (\<lambda>a b. \<not> slot_eq env (fst a) (fst b) kind) (live_entries m)"
    using keys_unique_list [of m] base by (simp add: map_base_ok_def)
  have keys: "\<forall>p \<in> live_pos m'. \<forall>q \<in> live_pos m'. slot_eq env (key_at m' p) (key_at m' q) kind \<longrightarrow> p = q"
  proof (cases "m_ordered m")
    case True
    then have "sorted_wrt (\<lambda>a b. \<not> slot_eq env (fst a) (fst b) kind) (live_entries m')"
      using uniq entries by (simp add: removed_def sorted_wrt_filter)
    then show ?thesis using keys_unique_list [of m'] by blast
  next
    case False
    define s where "s p = (if p = i then last else p)" for p
    have key: "key_at m' p = key_at m (s p)" if "p < last" for p
      using that False len last by (auto simp: key_at_def m'_def d_def d'_def nth_list_update s_def)
    have un: "p = q" if "p < m_used m" "q < m_used m" "slot_eq env (key_at m p) (key_at m q) kind" for p q
      using that base live by (simp add: map_base_ok_def)
    have "p = q" if pq: "p < last" "q < last" and eq: "slot_eq env (key_at m' p) (key_at m' q) kind" for p q
    proof -
      have "s p < m_used m" "s q < m_used m" using pq last by (auto simp: s_def)
      with un [of "s p" "s q"] eq key pq have "s p = s q" by simp
      with pq show ?thesis by (auto simp: s_def split: if_splits)
    qed
    then show ?thesis unfolding live' by auto
  qed
  have "map_base_ok env kind m'"
    using base keys ld last len dead' unfolding map_base_ok_def live'
    by (simp add: m'_def last_def)
  moreover have "map_index_ok env kind m'" using idx dead by (simp add: map_index_ok_def m'_def)
  ultimately show ?thesis using run entries by (auto simp: map_ok_def m'_def same_kind_def)
qed

end

context slot_keys
begin

text \<open>Any map whose entries are those of \<open>m\<close> with the last one moved into position \<open>i\<close>.\<close>

lemma swap_out_ok:
  assumes base: "map_base_ok env kind m" and dead: "m_dead m = None"
    and i: "i \<in> live_pos m" "slot_eq env (key_at m i) key kind"
    and kind: "same_kind m m'" "m_cap m' = m_cap m" "length (m_data m') = m_cap m"
    and m': "m_dead m' = None" "m_used m' = m_used m - 1" "m_len m' = m_len m - 1"
    and data: "\<forall>p < m_used m - 1. m_data m' ! p = m_data m ! (if p = i then m_used m - 1 else p)"
  shows "map_base_ok env kind m'" "live_entries m' = removed env kind False key (live_entries m)"
proof -
  define last where "last = m_used m - 1"
  define s where "s p = (if p = i then last else p)" for p
  have live: "live_pos m = {..<m_used m}" using dead live_pos_no_holes by blast
  have len: "m_used m \<le> m_cap m" "length (m_data m) = m_cap m" "i < m_used m" "m_len m = m_used m" "last < m_used m"
    using base i live by (auto simp: map_base_ok_def last_def)
  have live': "live_pos m' = {..<last}" using live_pos_no_holes [OF m'(1)] m'(2) by (simp add: last_def)
  have key: "key_at m' p = key_at m (s p)" if "p < last" for p
    using data that by (simp add: key_at_def s_def last_def)
  have "p = q" if pq: "p < last" "q < last" and eq: "slot_eq env (key_at m' p) (key_at m' q) kind" for p q
  proof -
    have "s p < m_used m" "s q < m_used m" using pq len by (auto simp: s_def)
    then have "s p = s q" using eq key pq base live by (simp add: map_base_ok_def)
    with pq show ?thesis by (auto simp: s_def split: if_splits)
  qed
  then show "map_base_ok env kind m'"
    using base kind m' len unfolding map_base_ok_def live' by (auto simp: same_kind_def last_def)
  have "take last (m_data m') = take last ((m_data m)[i := m_data m ! last])"
    using data len kind(3) by (intro nth_equalityI) (auto simp: last_def nth_list_update)
  then show "live_entries m' = removed env kind False key (live_entries m)"
    using no_holes_index(1) [OF base dead i] live_entries_no_holes [OF m'(1)] m'(2) kind(3) len
    by (simp add: last_def)
qed

text \<open>An index whose slot of position \<open>q\<close> becomes a tombstone.\<close>

lemma tomb_count:
  assumes "s < length ix" "idx_state ix s = q + 2"
  shows "idx_tombs (ix[s := 1]) = idx_tombs ix + 1"
  using idx_tombs_update [OF assms(1), of 1] assms(2) by simp

lemma move_count:
  assumes "s < length ix" "idx_state ix s = q + 2" "i + 2 < 2 ^ 32"
  shows "idx_tombs (ix[s := (w AND 0xffffffff00000000) OR of_nat (i + 2)]) = idx_tombs ix"
  using idx_tombs_update [OF assms(1), of "(w AND 0xffffffff00000000) OR of_nat (i + 2)"]
    state_of_word [OF assms(3), of w] assms(2) by (simp del: of_nat_add)

lemma reindexed_ok:
  assumes "map_ok env kind m" "map_alloc_law alloc"
  shows "(if c then map_reindex alloc env m kind else Ok m) = out_of_memory 0 0 \<or>
    (\<exists>m'. (if c then map_reindex alloc env m kind else Ok m) = Ok m' \<and> map_ok env kind m' \<and>
       live_entries m' = live_entries m \<and> same_kind m m')"
  using map_reindex_to_ok [of m alloc 0] assms unfolding map_reindex_def map_ok_def by auto

lemma unlink_swap_ok:
  assumes ok: "map_ok env kind m" and law: "map_alloc_law alloc" and ix: "m_idx m = Some ix" and plain: "\<not> m_ordered m"
    and i: "i \<in> live_pos m" "slot_eq env (key_at m i) key kind"
    and w: "unat w < length ix" "idx_state ix (unat w) = i + 2"
  shows "map_unlink_entry alloc env m i w kind = out_of_memory 0 0 \<or>
    (\<exists>m'. map_unlink_entry alloc env m i w kind = Ok m' \<and> map_ok env kind m' \<and>
       live_entries m' = removed env kind False key (live_entries m) \<and> same_kind m m')"
proof -
  have base: "map_base_ok env kind m" and x: "length ix = m_icap m"
    "idx_ok ix (live_pos m) (\<lambda>p. slot_hash env (key_at m p) kind)" "idx_tombs ix = m_tombs m"
    "(m_len m + m_tombs m) * 3 < m_icap m * 2"
    using ok ix by (auto simp: map_ok_def map_index_ok_def)
  have dead: "m_dead m = None" using base plain by (cases "m_dead m") (auto simp: map_base_ok_def)
  have live: "live_pos m = {..<m_used m}" using dead live_pos_no_holes by blast
  define last where "last = m_used m - 1"
  have len: "m_used m \<le> m_cap m" "length (m_data m) = m_cap m" "i < m_used m" "m_len m = m_used m" "Suc last = m_used m"
    using base i live by (auto simp: map_base_ok_def last_def)
  have used: "live_pos m = insert last {..<last}" unfolding live len(5) [symmetric] by (rule lessThan_Suc)
  let ?H = "\<lambda>p. slot_hash env (key_at m p) kind"
  define ix1 where "ix1 = ix[unat w := 1]"
  have ok1: "idx_ok ix1 (live_pos m - {i}) ?H" "idx_tombs ix1 = m_tombs m + 1" "length ix1 = m_icap m"
    using idx_ok_tomb [OF x(2) w] tomb_count [OF w] x by (simp_all add: ix1_def)
  define d where "d = (if i \<noteq> last then (m_data m)[i := m_data m ! last] else m_data m)"
  obtain ix' where ix': "(if i \<noteq> last then
        rt_bind (idx_find_pos ix1 (of_nat (m_icap m) - 1) last (m_icap m) (?H last AND (of_nat (m_icap m) - 1)))
          (\<lambda>at. Ok (ix1[unat at := (ix1 ! unat at AND IDX_FRAG) OR of_nat (i + 2)], (m_data m)[i := m_data m ! last]))
      else Ok (ix1, m_data m)) = Ok (ix', d)"
    "idx_ok ix' {..<last} (\<lambda>p. slot_hash env (key_at m (if p = i then last else p)) kind)"
    "idx_tombs ix' = m_tombs m + 1" "length ix' = m_icap m"
  proof (cases "i = last")
    case True
    have "live_pos m - {i} = {..<last}" unfolding used True by auto
    moreover have "idx_ok ix1 (live_pos m - {i}) (\<lambda>p. slot_hash env (key_at m (if p = i then last else p)) kind)"
      by (rule idx_ok_cong [OF ok1(1)]) simp
    ultimately have "idx_ok ix1 {..<last} (\<lambda>p. slot_hash env (key_at m (if p = i then last else p)) kind)" by (simp only:)
    from that [OF _ this ok1(2,3)] True show ?thesis by (simp add: d_def)
  next
    case False
    have small: "last + 2 < 2 ^ 32" "i + 2 < 2 ^ 32" using map_base_ok_used [OF base] len by auto
    have below: "i < last" using len(3,5) False by simp
    have "last \<in> live_pos m - {i}" unfolding used using False by simp
    from idx_okD(5) [OF ok1(1) this] obtain n where n: "n < length ix1" "idx_state ix1 (probe_at ix1 (?H last) n) = last + 2"
      by blast
    from idx_find_pos_walk [OF idx_okD(1) [OF ok1(1)] n(2) small(1), of 0 "m_icap m"] n(1) ok1(3)
      probe_start [OF idx_okD(1) [OF ok1(1)], of "?H last"]
    obtain at where pos: "idx_find_pos ix1 (of_nat (m_icap m) - 1) last (m_icap m) (?H last AND (of_nat (m_icap m) - 1)) = Ok at"
      "unat at < length ix1" "idx_state ix1 (unat at) = last + 2" by auto
    have "i \<notin> live_pos m - {i}" by simp
    from idx_ok_move [OF ok1(1) pos(2,3) this small(2)]
    have "idx_ok (ix1[unat at := (ix1 ! unat at AND IDX_FRAG) OR of_nat (i + 2)]) (insert i (live_pos m - {i} - {last})) (?H(i := ?H last))" .
    moreover have "?H(i := ?H last) = (\<lambda>p. slot_hash env (key_at m (if p = i then last else p)) kind)" by auto
    moreover have "insert i (live_pos m - {i} - {last}) = {..<last}" unfolding used using below by auto
    ultimately have "idx_ok (ix1[unat at := (ix1 ! unat at AND IDX_FRAG) OR of_nat (i + 2)]) {..<last}
        (\<lambda>p. slot_hash env (key_at m (if p = i then last else p)) kind)"
      by (simp only:)
    then show ?thesis
      using that [of "ix1[unat at := (ix1 ! unat at AND IDX_FRAG) OR of_nat (i + 2)]"] pos False ok1
        move_count [OF pos(2,3) small(2)] by (simp add: d_def)
  qed
  define m' where "m' = m\<lparr>m_idx := Some ix', m_tombs := m_tombs m + 1, m_data := d[last := hole m],
      m_len := m_len m - 1, m_used := last\<rparr>"
  have guard: "\<not> \<not> (unat w < length ix \<and> i < m_used m \<and> m_used m \<le> length (m_data m))" using w len by simp
  have run: "map_unlink_entry alloc env m i w kind = (if m_tombs m' > m_len m' then map_reindex alloc env m' kind else Ok m')"
    unfolding map_unlink_entry_def Let_def last_def [symmetric] ix option.case ix1_def [symmetric]
    by (simp only: guard plain if_False if_True simp_thms ix'(1) [unfolded key_at_def] rt_bind.simps prod.case m'_def)
  have dm: "\<forall>p < m_used m - 1. m_data m' ! p = m_data m ! (if p = i then m_used m - 1 else p)"
    using len by (auto simp: m'_def d_def last_def nth_list_update)
  have "same_kind m m'" "m_cap m' = m_cap m" "length (m_data m') = m_cap m" "m_dead m' = None"
    "m_used m' = m_used m - 1" "m_len m' = m_len m - 1"
    using dead len by (simp_all add: m'_def same_kind_def last_def d_def)
  note swapped = swap_out_ok [OF base dead i this dm] and k = this(1)
  have "live_pos m' = {..<last}" using dead by (simp add: m'_def live_pos_no_holes)
  moreover have "key_at m' p = key_at m (if p = i then last else p)" if "p < last" for p
    using dm that by (simp add: key_at_def last_def)
  ultimately have "idx_ok ix' (live_pos m') (\<lambda>p. slot_hash env (key_at m' p) kind)"
    using idx_ok_cong [OF ix'(2)] by simp
  then have "map_index_ok env kind m'"
    using ix'(3,4) x(4) len by (simp add: map_index_ok_def m'_def)
  then have "map_ok env kind m'" using swapped(1) by (simp add: map_ok_def)
  from reindexed_ok [OF this law, of "m_tombs m' > m_len m'"] show ?thesis
    unfolding run using swapped(2) k same_kind_trans by fastforce
qed

text \<open>
  The bitmap of holes is not checked by the code: the lemma asks that it is granted.
\<close>

lemma unlink_hole_ok:
  assumes ok: "map_ok env kind m" and law: "map_alloc_law alloc" and ix: "m_idx m = Some ix" and ord: "m_ordered m"
    and i: "i \<in> live_pos m" "slot_eq env (key_at m i) key kind"
    and w: "unat w < length ix" "idx_state ix (unat w) = i + 2"
    and grant: "m_dead m = None \<longrightarrow> alloc (of_nat (dead_words (m_cap m)) * 8)"
  shows "map_unlink_entry alloc env m i w kind = out_of_memory 0 0 \<or>
    (\<exists>m'. map_unlink_entry alloc env m i w kind = Ok m' \<and> map_ok env kind m' \<and>
       live_entries m' = removed env kind True key (live_entries m) \<and> same_kind m m')"
proof -
  have base: "map_base_ok env kind m" and x: "length ix = m_icap m"
    "idx_ok ix (live_pos m) (\<lambda>p. slot_hash env (key_at m p) kind)" "idx_tombs ix = m_tombs m"
    "(m_len m + m_tombs m) * 3 < m_icap m * 2"
    using ok ix by (auto simp: map_ok_def map_index_ok_def)
  have len: "m_used m \<le> m_cap m" "length (m_data m) = m_cap m" "i < m_used m" "m_len m = card (live_pos m)" "0 < m_len m"
    using base i by (auto simp: map_base_ok_def live_pos_def card_gt_0_iff)
  define bits where "bits = (case m_dead m of Some bits \<Rightarrow> bits | None \<Rightarrow> replicate (64 * dead_words (m_cap m)) False)"
  have bits: "length bits = 64 * dead_words (m_cap m)" "\<forall>p < length bits. m_used m \<le> p \<longrightarrow> \<not> bits ! p"
    "\<And>p. p < length bits \<Longrightarrow> bits ! p = map_dead m p"
    using base by (auto simp: map_base_ok_def bits_def map_dead_def split: option.splits)
  have room: "m_cap m \<le> length bits" using bits(1) dead_words_enough [of "m_cap m"] by simp
  define m' where "m' = m\<lparr>m_data := (m_data m)[i := hole m], m_dead := Some (bits[i := True]),
      m_len := m_len m - 1, m_idx := Some (ix[unat w := 1]), m_tombs := m_tombs m + 1\<rparr>"
  have guard: "unat w < length ix \<and> i < m_used m \<and> m_used m \<le> length (m_data m)" using w len by simp
  have chosen: "(case m_dead m of Some bits \<Rightarrow> Some bits
      | None \<Rightarrow> if alloc (of_nat (dead_words (m_cap m)) * 8) then Some (replicate (64 * dead_words (m_cap m)) False) else None) = Some bits"
    using grant by (auto simp: bits_def split: option.splits)
  have ib: "i < length bits" using len room by simp
  have run: "map_unlink_entry alloc env m i w kind = (if m_used m' > m_len m' * 2 then map_reindex alloc env m' kind else Ok m')"
    unfolding map_unlink_entry_def Let_def ix option.case chosen
    by (simp only: guard ord ib if_False if_True simp_thms option.case m'_def)
  have dead': "map_dead m' p \<longleftrightarrow> p = i \<or> map_dead m p" if "p < m_used m" for p
    using that len room bits(3) [of p] ib by (simp add: map_dead_def m'_def nth_list_update)
  have live': "live_pos m' = live_pos m - {i}" using dead' by (auto simp: live_pos_def m'_def)
  have keys: "key_at m' p = key_at m p" if "p \<noteq> i" for p using that by (simp add: key_at_def m'_def)
  have "card (live_pos m') = m_len m - 1" using live' i(1) len(4) by simp
  moreover have "\<forall>p \<in> live_pos m'. \<forall>q \<in> live_pos m'. slot_eq env (key_at m' p) (key_at m' q) kind \<longrightarrow> p = q"
    using base keys unfolding live' by (simp add: map_base_ok_def)
  ultimately have base': "map_base_ok env kind m'"
    using base bits ord len(3) unfolding map_base_ok_def by (simp add: m'_def nth_list_update)
  have "idx_ok (ix[unat w := 1]) (live_pos m - {i}) (\<lambda>p. slot_hash env (key_at m' p) kind)"
    by (rule idx_ok_cong [OF idx_ok_tomb [OF x(2) w]]) (simp add: keys)
  then have "map_index_ok env kind m'"
    using tomb_count [OF w] x live' len(5) by (simp add: map_index_ok_def m'_def)
  with base' have ok': "map_ok env kind m'" by (simp add: map_ok_def)
  have "live_list m' = filter (\<lambda>p. p \<noteq> i) (live_list m)"
    using dead' by (simp add: live_list_def m'_def [symmetric]) (auto simp: m'_def intro: filter_cong)
  then have "live_entries m' = map (\<lambda>p. m_data m ! p) (filter (\<lambda>p. p \<noteq> i) (live_list m))"
    by (simp add: live_entries_list m'_def)
  also have "\<dots> = filter (\<lambda>e. \<not> same_key env kind key e) (live_entries m)"
  proof -
    have "filter (\<lambda>p. p \<noteq> i) (live_list m) = filter (\<lambda>p. \<not> same_key env kind key (m_data m ! p)) (live_list m)"
      using hit_unique [OF base i] by (intro filter_cong) (auto simp: same_key_def key_at_def set_live_list)
    then show ?thesis by (simp add: live_entries_list filter_map comp_def)
  qed
  finally have entries: "live_entries m' = removed env kind True key (live_entries m)" by (simp add: removed_def)
  have "same_kind m m'" by (simp add: m'_def same_kind_def)
  with reindexed_ok [OF ok' law, of "m_used m' > m_len m' * 2"] entries show ?thesis
    unfolding run using same_kind_trans by fastforce
qed

end

section \<open>Hits and misses on the association list\<close>

lemma swap_out_middle: "mset (swap_out (ys @ e # zs) (length ys)) = mset (ys @ zs)"
proof (cases zs rule: rev_cases)
  case (snoc ws w)
  then show ?thesis by (simp add: swap_out_def list_update_append butlast_append)
qed (simp add: swap_out_def list_update_append butlast_append)

lemma find_skip: "\<forall>x \<in> set ys. \<not> P x \<Longrightarrow> find P (ys @ zs) = find P zs"
  by (induction ys) auto

context slot_keys
begin

lemma hit_split:
  assumes base: "map_base_ok env kind m" and i: "i \<in> live_pos m" "slot_eq env (key_at m i) key kind"
  obtains ys zs where "live_entries m = ys @ m_data m ! i # zs" "same_key env kind key (m_data m ! i)"
    "\<forall>x \<in> set ys \<union> set zs. \<not> same_key env kind key x"
proof -
  let ?e = "m_data m ! i"
  have e: "same_key env kind key ?e" using i(2) by (simp add: same_key_def key_at_def)
  have "?e \<in> set (live_entries m)" using i(1) live_entries_mem by blast
  then obtain ys zs where split: "live_entries m = ys @ ?e # zs" by (meson split_list)
  have "sorted_wrt (\<lambda>a b. \<not> slot_eq env (fst a) (fst b) kind) (live_entries m)"
    using keys_unique_list [of m] base by (simp add: map_base_ok_def)
  then have "\<forall>x \<in> set ys. \<not> slot_eq env (fst x) (fst ?e) kind" "\<forall>x \<in> set zs. \<not> slot_eq env (fst ?e) (fst x) kind"
    unfolding split by (auto simp: sorted_wrt_append)
  then have "\<not> same_key env kind key x" if "x \<in> set ys \<union> set zs" for x
    using that e keq_sym keq_trans unfolding same_key_def by blast
  then show ?thesis using that split e by blast
qed

lemma find_hit:
  assumes "map_base_ok env kind m" "i \<in> live_pos m" "slot_eq env (key_at m i) key kind"
  shows "find (same_key env kind key) (live_entries m) = Some (m_data m ! i)"
proof -
  obtain ys zs where "live_entries m = ys @ m_data m ! i # zs" "same_key env kind key (m_data m ! i)"
    "\<forall>x \<in> set ys \<union> set zs. \<not> same_key env kind key x" using hit_split [OF assms] .
  then show ?thesis by (simp add: find_skip)
qed

lemma find_miss:
  assumes "\<forall>p \<in> live_pos m. \<not> slot_eq env (key_at m p) key kind"
  shows "find (same_key env kind key) (live_entries m) = None"
  using assms unfolding find_None_iff live_entries_mem same_key_def key_at_def by blast

text \<open>The two outcomes of a search, with what each says about the association list.\<close>

lemma map_find_cases:
  assumes "map_ok env kind m"
  obtains (hit) i h w where "map_find env m key kind = Ok (Some i, h, w)" "i \<in> live_pos m"
      "slot_eq env (key_at m i) key kind" "entry_at m i = Ok (m_data m ! i)"
      "find (same_key env kind key) (live_entries m) = Some (m_data m ! i)"
      "\<forall>ix. m_idx m = Some ix \<longrightarrow> unat w < length ix \<and> idx_state ix (unat w) = i + 2"
  | (miss) h w where "map_find env m key kind = Ok (None, h, w)"
      "\<forall>p \<in> live_pos m. \<not> slot_eq env (key_at m p) key kind"
      "find (same_key env kind key) (live_entries m) = None"
      "\<forall>ix. m_idx m = Some ix \<longrightarrow> insert_ready ix h w \<and> h = slot_hash env key kind"
proof -
  have base: "map_base_ok env kind m" using assms by (simp add: map_ok_def)
  obtain r h w where f: "map_find env m key kind = Ok (r, h, w)" "find_meets env kind m key (r, h, w)"
    using map_find_ok [OF assms, of key] by (metis prod_cases3)
  show ?thesis
  proof (cases r)
    case None
    with f find_miss [of m key] show ?thesis by (intro miss [of h w]) (auto simp: find_meets_def)
  next
    case (Some i)
    with f have i: "i \<in> live_pos m" "slot_eq env (key_at m i) key kind" by (simp_all add: find_meets_def)
    moreover have "entry_at m i = Ok (m_data m ! i)"
      using i base by (auto simp: entry_at_def live_pos_def map_base_ok_def)
    ultimately show ?thesis using f Some find_hit [OF base i] by (intro hit [of i h w]) (simp_all add: find_meets_def)
  qed
qed

end

section \<open>A map as an association list\<close>

datatype 'v map_cmd = MSet slot 'v | MInsert slot 'v | MRemove slot | MGet slot

datatype map_out = MDone | MFlag bool | MFound "elem option"

text \<open>One command through the generic and through the typed entry points, effects left out.\<close>

fun generic_map_step ::
    "(u64 \<Rightarrow> bool) \<Rightarrow> slot_env \<Rightarrow> int \<Rightarrow> bmap \<Rightarrow> slot map_cmd \<Rightarrow> (bmap \<times> map_out) rt" where
  "generic_map_step alloc env kind m (MSet k v) =
     rt_bind (beans_map_set alloc env m k v kind) (\<lambda>(m, _). Ok (m, MDone))"
| "generic_map_step alloc env kind m (MInsert k v) =
     rt_bind (beans_map_insert alloc env m k v kind) (\<lambda>((m, f), _). Ok (m, MFlag f))"
| "generic_map_step alloc env kind m (MRemove k) =
     rt_bind (beans_map_remove alloc env m k kind) (\<lambda>((m, f), _). Ok (m, MFlag f))"
| "generic_map_step alloc env kind m (MGet k) =
     rt_bind (beans_map_get env m k kind) (\<lambda>(f, v). Ok (m, MFound (if f then Some [v] else None)))"

fun typed_map_step ::
    "(u64 \<Rightarrow> bool) \<Rightarrow> slot_env \<Rightarrow> int \<Rightarrow> bmap \<Rightarrow> elem map_cmd \<Rightarrow> (bmap \<times> map_out) rt" where
  "typed_map_step alloc env kind m (MSet k v) =
     rt_bind (beans_map_set_typed alloc env m k v kind) (\<lambda>(m, _). Ok (m, MDone))"
| "typed_map_step alloc env kind m (MInsert k v) =
     rt_bind (beans_map_insert_typed alloc env m k v kind) (\<lambda>((m, f), _). Ok (m, MFlag f))"
| "typed_map_step alloc env kind m (MRemove k) =
     rt_bind (beans_map_remove alloc env m k kind) (\<lambda>((m, f), _). Ok (m, MFlag f))"
| "typed_map_step alloc env kind m (MGet k) =
     rt_bind (beans_map_get_typed env m k kind) (\<lambda>v. Ok (m, MFound v))"

text \<open>The specification on the entries in iteration order.\<close>

definition holds :: "slot_env \<Rightarrow> int \<Rightarrow> slot \<Rightarrow> (slot \<times> elem) list \<Rightarrow> bool" where
  "holds env kind key xs \<longleftrightarrow> find (same_key env kind key) xs \<noteq> None"

fun assoc_spec ::
    "('v \<Rightarrow> elem) \<Rightarrow> slot_env \<Rightarrow> int \<Rightarrow> bool \<Rightarrow> (slot \<times> elem) list \<Rightarrow> 'v map_cmd \<Rightarrow>
     ((slot \<times> elem) list \<times> map_out) option" where
  "assoc_spec emb env kind ordered xs (MSet k v) =
     Some (if holds env kind k xs then replaced env kind k (emb v) xs else xs @ [(k, emb v)], MDone)"
| "assoc_spec emb env kind ordered xs (MInsert k v) =
     Some (if holds env kind k xs then xs else xs @ [(k, emb v)], MFlag (\<not> holds env kind k xs))"
| "assoc_spec emb env kind ordered xs (MRemove k) =
     Some (if holds env kind k xs then removed env kind ordered k xs else xs, MFlag (holds env kind k xs))"
| "assoc_spec emb env kind ordered xs (MGet k) =
     Some (xs, MFound (map_option snd (find (same_key env kind k) xs)))"

definition bitmap_granted :: "(u64 \<Rightarrow> bool) \<Rightarrow> bool" where
  "bitmap_granted alloc \<longleftrightarrow> (\<forall>cap. cap * 16 < 2 ^ 35 \<longrightarrow> alloc (of_nat (dead_words cap) * 8))"

text \<open>The state a program of the map runs in; \<open>P\<close> is what holds of every stored value.\<close>

definition map_state_ok ::
    "(u64 \<Rightarrow> bool) \<Rightarrow> slot_env \<Rightarrow> int \<Rightarrow> bool \<Rightarrow> (elem \<Rightarrow> bool) \<Rightarrow> bmap \<Rightarrow> bool" where
  "map_state_ok alloc env kind ordered P m \<longleftrightarrow>
     map_ok env kind m \<and> m_ordered m = ordered \<and> (ordered \<longrightarrow> bitmap_granted alloc) \<and>
     (\<forall>e \<in> set (live_entries m). P (snd e))"

definition map_meets ::
    "(bmap \<Rightarrow> bool) \<Rightarrow> (bmap \<times> map_out) rt \<Rightarrow> ((slot \<times> elem) list \<times> map_out) option \<Rightarrow> bool" where
  "map_meets ok r s \<longleftrightarrow>
     (case r of Ok (m, x) \<Rightarrow> ok m \<and> s = Some (live_entries m, x)
      | Panic msg _ _ \<Rightarrow> oom_text msg | Fault \<Rightarrow> False)"

lemma map_meets_simps [simp]:
  "map_meets ok (rt_bind (out_of_memory line col) f) s"
  "map_meets ok (Ok (m, x)) (Some (xs, y)) \<longleftrightarrow> ok m \<and> live_entries m = xs \<and> x = y"
  by (auto simp: map_meets_def out_of_memory_def oom_text_def)

lemma set_replaced: "e \<in> set (replaced env kind k v xs) \<Longrightarrow> snd e = v \<or> e \<in> set xs"
  by (auto simp: replaced_def split: if_splits)

lemma set_removed: "set (removed env kind ordered k xs) \<subseteq> set xs"
proof (cases ordered)
  case False
  have "set (xs[n := last xs]) \<subseteq> set xs" for n
  proof (cases "xs = []")
    case False
    then have "insert (last xs) (set xs) = set xs" by auto
    with set_update_subset_insert [of xs n "last xs"] show ?thesis by simp
  qed simp
  then show ?thesis using False by (fastforce simp: removed_def swap_out_def dest: in_set_butlastD)
qed (auto simp: removed_def)

context slot_keys
begin

lemma map_state_replace:
  assumes st: "map_state_ok alloc env kind ordered P m" and i: "i \<in> live_pos m" "slot_eq env (key_at m i) key kind"
    and v: "P v"
  shows "\<exists>m'. put_entry m i (fst (m_data m ! i), v) = Ok m' \<and> map_state_ok alloc env kind ordered P m' \<and>
    live_entries m' = replaced env kind key v (live_entries m)"
  using put_hit_ok [of m i key v] assms set_replaced
  by (fastforce simp: map_state_ok_def key_at_def same_kind_def)

lemma map_state_append:
  assumes st: "map_state_ok alloc env kind ordered P m" and law: "map_alloc_law alloc"
    and miss: "\<forall>p \<in> live_pos m. \<not> slot_eq env (key_at m p) key kind"
      "\<forall>ix. m_idx m = Some ix \<longrightarrow> insert_ready ix h w \<and> h = slot_hash env key kind" and v: "P v"
  shows "map_append_entry alloc env m key v h kind w = out_of_memory 0 0 \<or>
    (\<exists>m'. map_append_entry alloc env m key v h kind w = Ok m' \<and> map_state_ok alloc env kind ordered P m' \<and>
       live_entries m' = live_entries m @ [(key, v)])"
  using map_append_entry_ok [OF _ law miss, of v] st v by (fastforce simp: map_state_ok_def same_kind_def)

lemma bump_version_ok:
  "map_ok env kind (map_bump_version m) \<longleftrightarrow> map_ok env kind m" "live_pos (map_bump_version m) = live_pos m"
  "key_at (map_bump_version m) = key_at m" "live_entries (map_bump_version m) = live_entries m"
  "m_idx (map_bump_version m) = m_idx m" "m_ordered (map_bump_version m) = m_ordered m"
  "entry_at (map_bump_version m) = entry_at m" "m_dead (map_bump_version m) = m_dead m"
  "m_cap (map_bump_version m) = m_cap m"
proof -
  show l: "live_pos (map_bump_version m) = live_pos m" by (simp add: live_pos_def map_bump_version_def)
  show k: "key_at (map_bump_version m) = key_at m" by (simp add: key_at_def [abs_def] map_bump_version_def)
  show "map_ok env kind (map_bump_version m) \<longleftrightarrow> map_ok env kind m"
    unfolding map_ok_def map_base_ok_def map_index_ok_def l k by (simp add: map_bump_version_def split: option.split)
qed (simp_all add: live_entries_def map_bump_version_def entry_at_def fun_eq_iff)

lemma bump_version_kind:
  "m_wide (map_bump_version m) = m_wide m" "m_vmask (map_bump_version m) = m_vmask m"
  "m_val_owned (map_bump_version m) = m_val_owned m" "m_key_owned (map_bump_version m) = m_key_owned m"
  "m_vstride (map_bump_version m) = m_vstride m" "m_vcycle (map_bump_version m) = m_vcycle m"
  by (simp_all add: map_bump_version_def)

lemma map_state_remove:
  assumes st: "map_state_ok alloc env kind ordered P m" and law: "map_alloc_law alloc"
    and i: "i \<in> live_pos m" "slot_eq env (key_at m i) key kind"
    and w: "\<forall>ix. m_idx m = Some ix \<longrightarrow> unat w < length ix \<and> idx_state ix (unat w) = i + 2"
  shows "map_unlink_entry alloc env (map_bump_version m) i w kind = out_of_memory 0 0 \<or>
    (\<exists>m'. map_unlink_entry alloc env (map_bump_version m) i w kind = Ok m' \<and> map_state_ok alloc env kind ordered P m' \<and>
       live_entries m' = removed env kind ordered key (live_entries m) \<and> same_kind m m')"
proof -
  let ?b = "map_bump_version m"
  have ok: "map_ok env kind ?b" and ord: "m_ordered ?b = ordered" and mok: "map_ok env kind m"
    using st by (simp_all add: map_state_ok_def bump_version_ok)
  then have base: "map_base_ok env kind m" by (simp add: map_ok_def)
  have i': "i \<in> live_pos ?b" "slot_eq env (key_at ?b i) key kind" using i by (simp_all add: bump_version_ok)
  have grant: "alloc (of_nat (dead_words (m_cap m)) * 8)" if ordered
    using st base that by (simp add: map_state_ok_def bitmap_granted_def map_base_ok_def)
  have "map_unlink_entry alloc env ?b i w kind = out_of_memory 0 0 \<or>
    (\<exists>m'. map_unlink_entry alloc env ?b i w kind = Ok m' \<and> map_ok env kind m' \<and>
       live_entries m' = removed env kind ordered key (live_entries ?b) \<and> same_kind ?b m')"
  proof (cases "m_idx ?b")
    case None
    with unlink_linear_ok [OF ok None i', of alloc w] show ?thesis unfolding ord by blast
  next
    case (Some ix)
    then have ww: "unat w < length ix" "idx_state ix (unat w) = i + 2" using w by (auto simp: bump_version_ok)
    show ?thesis
    proof (cases ordered)
      case True
      then show ?thesis
        using unlink_hole_ok [OF ok law Some _ i' ww] ord grant by (simp add: bump_version_ok)
    next
      case False
      then show ?thesis using unlink_swap_ok [OF ok law Some _ i' ww] ord by simp
    qed
  qed
  then show ?thesis
    using st set_removed [of env kind ordered key "live_entries m"] unfolding bump_version_ok
    by (fastforce simp: map_state_ok_def same_kind_def bump_version_ok bump_version_kind)
qed

lemma generic_map_meets:
  assumes st: "map_state_ok alloc env kind ordered (\<lambda>v. length v = 1) m" and law: "map_alloc_law alloc"
  shows "map_meets (map_state_ok alloc env kind ordered (\<lambda>v. length v = 1))
    (generic_map_step alloc env kind m c) (assoc_spec (\<lambda>v. [v]) env kind ordered (live_entries m) c)"
proof -
  have ok: "map_ok env kind m" using st by (simp add: map_state_ok_def)
  have one: "\<And>v. length [v :: slot] = 1" by simp
  define key where "key = (case c of MSet k _ \<Rightarrow> k | MInsert k _ \<Rightarrow> k | MRemove k \<Rightarrow> k | MGet k \<Rightarrow> k)"
  from ok show ?thesis
  proof (cases rule: map_find_cases [where key = key])
    case (hit i h w)
    obtain k v where e: "m_data m ! i = (k, [v])"
      using st hit(2) live_entries_mem [of "m_data m ! i" m]
      by (cases "m_data m ! i") (fastforce simp: map_state_ok_def length_Suc_conv)
    have yes: "holds env kind key (live_entries m)" using hit(5) by (simp add: holds_def)
    note put = map_state_replace [OF st hit(2,3), of "[u]" for u]
    note remove = map_state_remove [OF st law hit(2,3,6)]
    show ?thesis
    proof (cases c)
      case (MSet k' u)
      with put [of u] hit e yes show ?thesis by (auto simp: beans_map_set_def key_def)
    next
      case (MInsert k' u)
      with hit yes st show ?thesis by (simp add: beans_map_insert_def key_def)
    next
      case (MRemove k')
      with remove hit e yes show ?thesis
        by (auto simp: beans_map_remove_def map_remove_found_def key_def Let_def bump_version_ok out_of_memory_def)
          (simp_all add: map_meets_def oom_text_def)
    next
      case (MGet k')
      with hit e yes st show ?thesis by (simp add: beans_map_get_def slot_value_def key_def)
    qed
  next
    case (miss h w)
    have no: "\<not> holds env kind key (live_entries m)" using miss(3) by (simp add: holds_def)
    note append = map_state_append [OF st law miss(2,4), of "[u]" for u]
    show ?thesis
    proof (cases c)
      case (MSet k' u)
      with append [of u] miss no show ?thesis
        by (auto simp: beans_map_set_def map_insert_miss_def key_def Let_def out_of_memory_def)
          (simp_all add: map_meets_def oom_text_def)
    next
      case (MInsert k' u)
      with append [of u] miss no show ?thesis
        by (auto simp: beans_map_insert_def map_insert_miss_def key_def Let_def out_of_memory_def)
          (simp_all add: map_meets_def oom_text_def)
    next
      case (MRemove k')
      with miss no st show ?thesis by (simp add: beans_map_remove_def key_def)
    next
      case (MGet k')
      with miss no st show ?thesis by (simp add: beans_map_get_def key_def)
    qed
  qed
qed

lemma typed_map_meets:
  assumes st: "map_state_ok alloc env kind ordered (\<lambda>_. True) m" and law: "map_alloc_law alloc"
  shows "map_meets (map_state_ok alloc env kind ordered (\<lambda>_. True))
    (typed_map_step alloc env kind m c) (assoc_spec id env kind ordered (live_entries m) c)"
proof -
  have ok: "map_ok env kind m" using st by (simp add: map_state_ok_def)
  define key where "key = (case c of MSet k _ \<Rightarrow> k | MInsert k _ \<Rightarrow> k | MRemove k \<Rightarrow> k | MGet k \<Rightarrow> k)"
  from ok show ?thesis
  proof (cases rule: map_find_cases [where key = key])
    case (hit i h w)
    obtain k v where e: "m_data m ! i = (k, v)" by (cases "m_data m ! i")
    have yes: "holds env kind key (live_entries m)" using hit(5) by (simp add: holds_def)
    note put = map_state_replace [OF st hit(2,3) TrueI]
    note remove = map_state_remove [OF st law hit(2,3,6)]
    show ?thesis
    proof (cases c)
      case (MSet k' u)
      with put [of u] hit e yes show ?thesis by (auto simp: beans_map_set_typed_def rt_swap_wide_def key_def)
    next
      case (MInsert k' u)
      with hit yes st show ?thesis by (simp add: beans_map_insert_typed_def key_def)
    next
      case (MRemove k')
      with remove hit e yes show ?thesis
        by (auto simp: beans_map_remove_def map_remove_found_def key_def Let_def bump_version_ok out_of_memory_def)
          (simp_all add: map_meets_def oom_text_def)
    next
      case (MGet k')
      with hit e yes st show ?thesis by (simp add: beans_map_get_typed_def key_def)
    qed
  next
    case (miss h w)
    have no: "\<not> holds env kind key (live_entries m)" using miss(3) by (simp add: holds_def)
    note append = map_state_append [OF st law miss(2,4) TrueI]
    show ?thesis
    proof (cases c)
      case (MSet k' u)
      with append [of u] miss no show ?thesis
        by (auto simp: beans_map_set_typed_def map_insert_miss_typed_def key_def Let_def out_of_memory_def)
          (simp_all add: map_meets_def oom_text_def)
    next
      case (MInsert k' u)
      with append [of u] miss no show ?thesis
        by (auto simp: beans_map_insert_typed_def map_insert_miss_typed_def key_def Let_def out_of_memory_def)
          (simp_all add: map_meets_def oom_text_def)
    next
      case (MRemove k')
      with miss no st show ?thesis by (simp add: beans_map_remove_def key_def)
    next
      case (MGet k')
      with miss no st show ?thesis by (simp add: beans_map_get_typed_def key_def)
    qed
  qed
qed

end

locale map_programs = slot_keys +
  fixes alloc :: "u64 \<Rightarrow> bool" and ordered :: bool
  assumes map_law: "map_alloc_law alloc"

sublocale map_programs \<subseteq> generic_map:
  rt_refinement "generic_map_step alloc env kind" "map_state_ok alloc env kind ordered (\<lambda>v. length v = 1)"
    live_entries "assoc_spec (\<lambda>v. [v]) env kind ordered" oom_text "\<lambda>_. True"
  using generic_map_meets [OF _ map_law]
  by unfold_locales (fastforce simp: map_meets_def split: rt.splits)+

sublocale map_programs \<subseteq> typed_map:
  rt_refinement "typed_map_step alloc env kind" "map_state_ok alloc env kind ordered (\<lambda>_. True)"
    live_entries "assoc_spec id env kind ordered" oom_text "\<lambda>_. True"
  using typed_map_meets [OF _ map_law]
  by unfold_locales (fastforce simp: map_meets_def split: rt.splits)+

context map_programs
begin

lemmas generic_map_program = generic_map.run_program
lemmas typed_map_program = typed_map.run_program

end

text \<open>An allocator that grants everything below 32 GiB.\<close>

definition small_alloc :: "u64 \<Rightarrow> bool" where
  "small_alloc b \<longleftrightarrow> unat b < 2 ^ 35"

lemma small_alloc_law: "map_alloc_law small_alloc"
  by (simp add: map_alloc_law_def small_alloc_def)

interpretation string_maps: map_programs env 2 small_alloc ordered for env ordered
  by unfold_locales (rule small_alloc_law)

interpretation integer_maps: map_programs env 0 small_alloc ordered for env ordered
  by unfold_locales (rule small_alloc_law)

section \<open>Ownership\<close>

text \<open>
  The references an entry owns: the key when the map owns its keys, and the value's words that are
  references (all of a narrow value, those of the mask of a wide one). Null words own nothing.
\<close>

definition value_refs :: "bmap \<Rightarrow> elem \<Rightarrow> slot list" where
  "value_refs m v =
     (if m_wide m then masked_children v (m_vmask m) False
      else if m_val_owned m then filter (\<lambda>w. w \<noteq> 0) v else [])"

definition key_refs :: "bmap \<Rightarrow> slot \<Rightarrow> slot list" where
  "key_refs m k = (if m_key_owned m \<and> k \<noteq> 0 then [k] else [])"

definition list_refs :: "bmap \<Rightarrow> (slot \<times> elem) list \<Rightarrow> slot multiset" where
  "list_refs m xs = mset (concat (map (\<lambda>(k, v). key_refs m k @ value_refs m v) xs))"

definition map_refs :: "bmap \<Rightarrow> slot multiset" where
  "map_refs m = list_refs m (live_entries m)"

fun released :: "effect list \<Rightarrow> slot multiset" where
  "released [] = {#}"
| "released (Release w # es) = (if w \<noteq> 0 then {#w#} else {#}) + released es"
| "released (_ # es) = released es"

lemma list_refs_simps [simp]:
  "list_refs m [] = {#}" "list_refs m ((k, v) # xs) = mset (key_refs m k) + mset (value_refs m v) + list_refs m xs"
  "list_refs m (xs @ ys) = list_refs m xs + list_refs m ys"
  by (simp_all add: list_refs_def)

lemma list_refs_kind: "same_kind m m' \<Longrightarrow> list_refs m' xs = list_refs m xs"
  by (simp add: list_refs_def key_refs_def value_refs_def same_kind_def cong: if_cong)

lemma list_refs_mset: "mset xs = mset ys \<Longrightarrow> list_refs m xs = list_refs m ys"
  by (simp add: list_refs_def mset_concat flip: sum_mset_sum_list)

lemma released_append [simp]: "released (xs @ ys) = released xs + released ys"
  by (induction xs rule: released.induct) (simp_all add: add.assoc)

lemma released_simps [simp]:
  "released (cc_write_if b w) = {#}" "released (cc_write_typed v msk) = {#}"
  "released (release_if b w) = (if b \<and> w \<noteq> 0 then {#w#} else {#})"
  "released (map Release ws) = mset (filter (\<lambda>w. w \<noteq> 0) ws)"
proof -
  have "released (map CcWrite ws) = {#}" for ws by (induction ws) simp_all
  then show "released (cc_write_typed v msk) = {#}" by (auto simp: cc_write_typed_def)
  show "released (map Release ws) = mset (filter (\<lambda>w. w \<noteq> 0) ws)" by (induction ws) simp_all
qed (simp_all add: cc_write_if_def release_if_def)

lemma masked_children_nonzero: "0 \<notin> set (masked_children v msk e)"
  by (auto simp: masked_children_def)

lemma released_wide: "released (release_masked_slots v msk e) = mset (masked_children v msk e)"
proof -
  have "filter (\<lambda>w. w \<noteq> 0) (rev (masked_children v msk e)) = rev (masked_children v msk e)"
    using masked_children_nonzero [of v msk e] by (auto simp: filter_id_conv)
  then show ?thesis by (simp only: release_masked_slots_children released_simps(4) mset_rev)
qed

context slot_keys
begin

text \<open>A replaced and a removed entry, in terms of what the entries own.\<close>

lemma refs_replaced:
  assumes "map_base_ok env kind m" "i \<in> live_pos m" "slot_eq env (key_at m i) key kind" "m_data m ! i = (k, old)"
  shows "mset (value_refs m old) + list_refs m (replaced env kind key v (live_entries m)) = map_refs m + mset (value_refs m v)"
proof -
  obtain ys zs where s: "live_entries m = ys @ m_data m ! i # zs" "same_key env kind key (m_data m ! i)"
    "\<forall>x \<in> set ys \<union> set zs. \<not> same_key env kind key x" using hit_split [OF assms(1-3)] .
  then have "replaced env kind key v (live_entries m) = ys @ (k, v) # zs"
    using assms(4) by (simp add: replaced_def map_idI)
  then show ?thesis using s(1) assms(4) by (simp add: map_refs_def ac_simps)
qed

lemma refs_removed:
  assumes "map_base_ok env kind m" "i \<in> live_pos m" "slot_eq env (key_at m i) key kind" "m_data m ! i = (k, old)"
  shows "mset (key_refs m k) + mset (value_refs m old) + list_refs m (removed env kind ordered key (live_entries m)) = map_refs m"
proof -
  obtain ys zs where s: "live_entries m = ys @ m_data m ! i # zs" "same_key env kind key (m_data m ! i)"
    "\<forall>x \<in> set ys \<union> set zs. \<not> same_key env kind key x" using hit_split [OF assms(1-3)] .
  have "length (takeWhile (\<lambda>e. \<not> same_key env kind key e) (live_entries m)) = length ys"
    using s by (simp add: takeWhile_append2)
  moreover have "filter (\<lambda>e. \<not> same_key env kind key e) (live_entries m) = ys @ zs" using s by (simp add: filter_id_conv)
  ultimately have "mset (removed env kind ordered key (live_entries m)) = mset (ys @ zs)"
    using swap_out_middle [of ys "m_data m ! i" zs] s(1) by (simp add: removed_def)
  from list_refs_mset [OF this, of m] show ?thesis
    using s(1) assms(4) by (simp add: map_refs_def ac_simps)
qed

lemma appended_refs:
  assumes "same_kind m n" "live_entries n = live_entries m @ [(key, v)]"
  shows "map_refs n = map_refs m + mset (key_refs m key) + mset (value_refs m v)"
proof -
  have "map_refs n = list_refs m (live_entries m @ [(key, v)])"
    using list_refs_kind [OF assms(1)] assms(2) by (simp only: map_refs_def)
  then show ?thesis by (simp add: map_refs_def)
qed

lemma replaced_refs:
  assumes "map_ok env kind m" "i \<in> live_pos m" "slot_eq env (key_at m i) key kind" "m_data m ! i = (k, old)"
  obtains n where "put_entry m i (k, v) = Ok n"
    "mset (value_refs m old) + map_refs n = map_refs m + mset (value_refs m v)"
proof -
  obtain n where n: "put_entry m i (k, v) = Ok n" "live_entries n = replaced env kind key v (live_entries m)" "same_kind m n"
    using put_hit_ok [OF assms(1-3), of v] assms(4) by (auto simp: key_at_def)
  have "map_refs n = list_refs m (replaced env kind key v (live_entries m))"
    using list_refs_kind [OF n(3)] n(2) by (simp only: map_refs_def)
  with refs_replaced [OF _ assms(2-4), of v] assms(1) n(1) that show ?thesis by (simp add: map_ok_def)
qed

lemma appended_entry:
  assumes "map_ok env kind m" "map_alloc_law alloc"
    "\<forall>p \<in> live_pos m. \<not> slot_eq env (key_at m p) key kind"
    "\<forall>ix. m_idx m = Some ix \<longrightarrow> insert_ready ix h w \<and> h = slot_hash env key kind"
    "map_append_entry alloc env m key v h kind w = Ok n"
  shows "map_refs n = map_refs m + mset (key_refs m key) + mset (value_refs m v)"
  using map_append_entry_ok [OF assms(1-4), of v] assms(5) appended_refs by (auto simp: out_of_memory_def)

lemma set_conserves:
  assumes ok: "map_ok env kind m" and law: "map_alloc_law alloc" and narrow: "\<not> m_wide m"
    and run: "beans_map_set alloc env m key val kind = Ok (m', eff)"
  shows "released eff + map_refs m' = map_refs m + mset (key_refs m key) + mset (value_refs m [val])"
  using ok
proof (cases rule: map_find_cases [where key = key])
  case (hit i h w)
  obtain k old where e: "m_data m ! i = (k, old)" by (cases "m_data m ! i")
  obtain n where n: "put_entry m i (k, [val]) = Ok n"
    "mset (value_refs m old) + map_refs n = map_refs m + mset (value_refs m [val])"
    using replaced_refs [OF ok hit(2,3) e] .
  have "m' = n" "released eff = mset (key_refs m key) + mset (value_refs m old)"
    using run hit(1,4) e n(1) narrow by (auto simp: beans_map_set_def key_refs_def value_refs_def)
  then show ?thesis using n(2) by (simp add: ac_simps)
next
  case (miss h w)
  then obtain n where "map_append_entry alloc env m key [val] h kind w = Ok n" "m' = n" "released eff = {#}"
    using run by (cases "map_append_entry alloc env m key [val] h kind w")
      (auto simp: beans_map_set_def map_insert_miss_def Let_def)
  then show ?thesis using appended_entry [OF ok law miss(2,4)] by simp
qed

lemma set_typed_conserves:
  assumes ok: "map_ok env kind m" and law: "map_alloc_law alloc" and wide: "m_wide m"
    and run: "beans_map_set_typed alloc env m key val kind = Ok (m', eff)"
  shows "released eff + map_refs m' = map_refs m + mset (key_refs m key) + mset (value_refs m val)"
  using ok
proof (cases rule: map_find_cases [where key = key])
  case (hit i h w)
  obtain k old where e: "m_data m ! i = (k, old)" by (cases "m_data m ! i")
  obtain n where n: "put_entry m i (k, val) = Ok n"
    "mset (value_refs m old) + map_refs n = map_refs m + mset (value_refs m val)"
    using replaced_refs [OF ok hit(2,3) e] .
  have "m' = n" "released eff = mset (key_refs m key) + mset (value_refs m old)"
    using run hit(1,4) e n(1) wide
    by (auto simp: beans_map_set_typed_def rt_swap_wide_def key_refs_def value_refs_def map_release_wide_value_def released_wide)
  then show ?thesis using n(2) by (simp add: ac_simps)
next
  case (miss h w)
  then obtain n where "map_append_entry alloc env m key val h kind w = Ok n" "m' = n" "released eff = {#}"
    using run by (cases "map_append_entry alloc env m key val h kind w")
      (auto simp: beans_map_set_typed_def map_insert_miss_typed_def Let_def)
  then show ?thesis using appended_entry [OF ok law miss(2,4)] by simp
qed

lemma insert_conserves:
  assumes ok: "map_ok env kind m" and law: "map_alloc_law alloc" and narrow: "\<not> m_wide m"
    and run: "beans_map_insert alloc env m key val kind = Ok ((m', f), eff)"
  shows "released eff + map_refs m' = map_refs m + mset (key_refs m key) + mset (value_refs m [val])"
  using ok
proof (cases rule: map_find_cases [where key = key])
  case (hit i h w)
  then show ?thesis using run narrow by (auto simp: beans_map_insert_def key_refs_def value_refs_def)
next
  case (miss h w)
  then obtain n where "map_append_entry alloc env m key [val] h kind w = Ok n" "m' = n" "released eff = {#}"
    using run by (cases "map_append_entry alloc env m key [val] h kind w")
      (auto simp: beans_map_insert_def map_insert_miss_def Let_def)
  then show ?thesis using appended_entry [OF ok law miss(2,4)] by simp
qed

lemma insert_typed_conserves:
  assumes ok: "map_ok env kind m" and law: "map_alloc_law alloc" and wide: "m_wide m"
    and run: "beans_map_insert_typed alloc env m key val kind = Ok ((m', f), eff)"
  shows "released eff + map_refs m' = map_refs m + mset (key_refs m key) + mset (value_refs m val)"
  using ok
proof (cases rule: map_find_cases [where key = key])
  case (hit i h w)
  then show ?thesis using run wide
    by (auto simp: beans_map_insert_typed_def key_refs_def value_refs_def map_release_wide_value_def released_wide)
next
  case (miss h w)
  then obtain n where "map_append_entry alloc env m key val h kind w = Ok n" "m' = n" "released eff = {#}"
    using run by (cases "map_append_entry alloc env m key val h kind w")
      (auto simp: beans_map_insert_typed_def map_insert_miss_typed_def Let_def)
  then show ?thesis using appended_entry [OF ok law miss(2,4)] by simp
qed

lemma remove_conserves:
  assumes ok: "map_ok env kind m" and law: "map_alloc_law alloc" and ord: "m_ordered m \<longrightarrow> bitmap_granted alloc"
    and run: "beans_map_remove alloc env m key kind = Ok ((m', f), eff)"
  shows "released eff + map_refs m' = map_refs m"
  using ok
proof (cases rule: map_find_cases [where key = key])
  case (hit i h w)
  have base: "map_base_ok env kind m" using ok by (simp add: map_ok_def)
  obtain k old where e: "m_data m ! i = (k, old)" by (cases "m_data m ! i")
  have children: "filter_mset (\<lambda>w. w \<noteq> 0) (mset (masked_children old (m_vmask m) False)) = mset (masked_children old (m_vmask m) False)"
    using masked_children_nonzero [of old "m_vmask m" False] by (metis (mono_tags, lifting) filter_True mset_filter)
  let ?u = "map_unlink_entry alloc env (map_bump_version m) i w kind"
  obtain n where u: "?u = Ok n" and m': "m' = n"
    and eff: "released eff = mset (key_refs m k) + mset (value_refs m old)"
    using run hit(1,4) e children
    by (cases ?u)
       (auto simp: beans_map_remove_def map_remove_found_def Let_def bump_version_ok bump_version_kind key_refs_def value_refs_def)
  have "map_state_ok alloc env kind (m_ordered m) (\<lambda>_. True) m" using ok ord by (simp add: map_state_ok_def)
  from map_state_remove [OF this law hit(2,3,6)] u
  have n: "live_entries n = removed env kind (m_ordered m) key (live_entries m)" "same_kind m n" by (auto simp: out_of_memory_def)
  have "map_refs n = list_refs m (removed env kind (m_ordered m) key (live_entries m))"
    using list_refs_kind [OF n(2)] n(1) by (simp only: map_refs_def)
  then show ?thesis using refs_removed [OF base hit(2,3) e, of "m_ordered m"] eff m' by simp
next
  case (miss h w)
  then show ?thesis using run by (auto simp: beans_map_remove_def)
qed

end

section \<open>Iteration\<close>

text \<open>
  The loop the compiler emits for \<^verbatim>\<open>for k, v in m\<close>: the version is read once, the cursor moves past
  each visited entry. The fuel bounds the number of turns; one more than the used cells is enough.
\<close>

fun map_for_each :: "bmap \<Rightarrow> u64 \<Rightarrow> nat \<Rightarrow> nat \<Rightarrow> (slot \<times> elem) list rt" where
  "map_for_each m version 0 cursor = Fault"
| "map_for_each m version (Suc n) cursor =
     rt_bind (beans_map_iter_next m cursor version 0 0) (\<lambda>r.
       if r < 0 then Ok []
       else
         rt_bind (beans_map_iter_key m (nat r)) (\<lambda>k.
         rt_bind (beans_map_iter_value m (nat r)) (\<lambda>v.
         rt_bind (map_for_each m version n (nat r + 1)) (\<lambda>es. Ok ((k, v) # es)))))"

lemma skip_dead_result:
  "cursor \<le> m_used m \<Longrightarrow> cursor \<le> skip_dead m cursor \<and> skip_dead m cursor \<le> m_used m \<and>
     live_from m cursor = live_from m (skip_dead m cursor) \<and>
     (skip_dead m cursor < m_used m \<longrightarrow> \<not> map_dead m (skip_dead m cursor))"
proof (induction m cursor rule: skip_dead.induct)
  case (1 m cursor)
  show ?case
  proof (cases "cursor < m_used m \<and> map_dead m cursor")
    case True
    then have "live_from m cursor = live_from m (cursor + 1)"
      by (simp add: live_from_def upt_conv_Cons)
    with 1 True show ?thesis by (subst (1 2 3 4 5) skip_dead.simps) auto
  next
    case False
    with "1.prems" show ?thesis by (subst (1 2 3 4 5) skip_dead.simps) auto
  qed
qed

lemma map_for_each_live:
  assumes "m_used m \<le> length (m_data m)"
  shows "cursor \<le> m_used m \<Longrightarrow> m_used m - cursor < n \<Longrightarrow>
    map_for_each m (m_version m) n cursor = Ok (live_from m cursor)"
proof (induction n arbitrary: cursor)
  case (Suc n)
  define c where "c = skip_dead m cursor"
  have c: "cursor \<le> c" "c \<le> m_used m" "live_from m cursor = live_from m c" "c < m_used m \<longrightarrow> \<not> map_dead m c"
    using skip_dead_result [OF Suc.prems(1)] by (simp_all add: c_def)
  show ?case
  proof (cases "c < m_used m")
    case True
    have "entry_at m c = Ok (m_data m ! c)" using True assms by (simp add: entry_at_def)
    moreover have "live_from m c = m_data m ! c # live_from m (c + 1)"
      using True c(4) by (simp add: live_from_def upt_conv_Cons)
    moreover have "map_for_each m (m_version m) n (c + 1) = Ok (live_from m (c + 1))"
      using Suc.IH [of "c + 1"] Suc.prems(2) c(1) True by simp
    ultimately show ?thesis
      using True c(3) by (cases "m_data m ! c")
        (simp add: beans_map_iter_next_def beans_map_iter_key_def beans_map_iter_value_def flip: c_def)
  next
    case False
    then have "live_from m c = []" by (simp add: live_from_def)
    with False c show ?thesis by (simp add: beans_map_iter_next_def flip: c_def)
  qed
qed simp

text \<open>Versions: every change of the set of keys counts one up.\<close>

lemma compact_loop_version: "compact_loop m p w = Ok m' \<Longrightarrow> m_version m' = m_version m"
proof (induction m p w rule: compact_loop.induct)
  case (1 m p w)
  show ?case
  proof (cases "p < m_used m \<and> \<not> map_dead m p \<and> w \<noteq> p")
    case True
    with "1.prems" obtain e n where "entry_at m p = Ok e" "put_entry m w e = Ok n"
      "compact_loop (m\<lparr>m_data := m_data n\<rparr>) (p + 1) (w + 1) = Ok m'"
      by (subst (asm) compact_loop.simps) (auto simp: rt_bind_Ok_iff)
    from "1.IH"(2) [OF _ _ _ this(3)] True show ?thesis by simp
  next
    case False
    with "1.prems" "1.IH"(1,3) show ?thesis
      by (subst (asm) compact_loop.simps) (auto split: if_splits)
  qed
qed

lemma map_reindex_version: "map_reindex_to alloc env m kind n = Ok m' \<Longrightarrow> m_version m' = m_version m"
  by (auto simp: map_reindex_to_def Let_def rt_bind_Ok_iff out_of_memory_def dest: compact_loop_version split: if_splits)

lemma map_append_version:
  assumes "map_append_entry alloc env m key val h kind w = Ok m'"
  shows "m_version m' = m_version m + 1"
proof -
  have grow: "m_version n = m_version m" if "(if m_used m = m_cap m then map_grow alloc m (m_cap m * 2) 0 0 else Ok m) = Ok n" for n
    using that by (auto simp: map_grow_def Let_def out_of_memory_def split: if_splits)
  from assms obtain n where n: "(if m_used m = m_cap m then map_grow alloc m (m_cap m * 2) 0 0 else Ok m) = Ok n"
    unfolding map_append_entry_def rt_bind_Ok_iff by blast
  show ?thesis
    using assms grow [OF n] unfolding map_append_entry_def n
    by (auto simp: put_entry_def Let_def map_bump_version_def map_reindex_def
        dest: map_reindex_version split: if_splits option.splits)
qed

lemma map_unlink_version:
  assumes "map_unlink_entry alloc env m i w kind = Ok m'"
  shows "m_version m' = m_version m"
  using assms
  by (auto simp: map_unlink_entry_def Let_def map_reindex_def rt_bind_Ok_iff
      dest: map_reindex_version split: if_splits option.splits)

section \<open>Clearing\<close>

lemma map_clear_walk:
  assumes "n \<le> length (m_data m)" "m_used m = 0"
  shows "\<exists>eff. rt_map_clear_from (\<lambda>_ m. m) m n = Ok (m, eff) \<and>
    released eff = list_refs m (take n (m_data m))"
  using assms
proof (induction n)
  case (Suc i)
  obtain eff where e: "rt_map_clear_from (\<lambda>_ m. m) m i = Ok (m, eff)" "released eff = list_refs m (take i (m_data m))"
    using Suc by auto
  obtain k v where kv: "m_data m ! i = (k, v)" by (cases "m_data m ! i")
  have "entry_at m i = Ok (k, v)" using Suc.prems(1) kv by (simp add: entry_at_def)
  moreover have "released (clear_value_releases m v) = mset (value_refs m v)"
    by (simp add: clear_value_releases_def value_refs_def map_release_wide_value_def released_wide)
  moreover have "released (release_if (m_key_owned m \<and> k \<noteq> 0) k) = mset (key_refs m k)" by (simp add: key_refs_def)
  ultimately show ?case
    using e Suc.prems kv by (simp add: take_Suc_conv_app_nth ac_simps)
qed simp

lemma cleared_ok:
  assumes "map_base_ok env kind m"
  shows "map_ok env kind (m\<lparr>m_len := 0, m_used := 0, m_dead := None, m_idx := None, m_icap := 0, m_tombs := 0\<rparr>)"
    "live_entries (m\<lparr>m_len := 0, m_used := 0, m_dead := None, m_idx := None, m_icap := 0, m_tombs := 0\<rparr>) = []"
  using assms by (simp_all add: map_ok_def map_index_ok_def map_base_ok_def live_pos_def live_entries_def)

lemma clear_conserves:
  assumes base: "map_base_ok env kind m" and full: "m_dead m = None"
  shows "\<exists>m' eff. beans_map_clear (\<lambda>_ m. m) m = Ok (m', eff) \<and> map_ok env kind m' \<and> live_entries m' = [] \<and>
    same_kind m m' \<and> released eff = map_refs m"
proof -
  define b where "b = (if m_len m \<noteq> 0 then map_bump_version m else m)"
  define c where "c = b\<lparr>m_len := 0, m_used := 0, m_dead := None, m_idx := None, m_icap := 0, m_tombs := 0\<rparr>"
  have bb: "map_base_ok env kind b" using base by (auto simp: b_def map_base_ok_def map_bump_version_def live_pos_def key_at_def)
  have bk: "same_kind m c" "m_used b = m_used m" "m_data c = m_data m" "m_used c = 0"
    by (auto simp: b_def c_def map_bump_version_def same_kind_def)
  have len: "m_used m \<le> length (m_data m)" using base by (simp add: map_base_ok_def)
  have cc: "map_ok env kind c" "live_entries c = []" using cleared_ok [OF bb] by (simp_all add: c_def)
  have refs: "list_refs c (take (m_used m) (m_data m)) = map_refs m"
    using list_refs_kind [OF bk(1)] live_entries_no_holes [OF full len] by (simp add: map_refs_def)
  have fields: "m_key_owned c = m_key_owned m" "m_val_owned c = m_val_owned m" "m_vmask c = m_vmask m"
    using bk(1) by (simp_all add: same_kind_def)
  have run: "beans_map_clear (\<lambda>_ m. m) m =
      (if \<not> m_key_owned c \<and> \<not> m_val_owned c \<and> m_vmask c = 0 then Ok (c, []) else rt_map_clear_from (\<lambda>_ m. m) c (m_used m))"
    unfolding beans_map_clear_def Let_def b_def [symmetric] c_def [symmetric] bk(2) by (rule refl)
  show ?thesis
  proof (cases "\<not> m_key_owned c \<and> \<not> m_val_owned c \<and> m_vmask c = 0")
    case True
    then have none: "key_refs m k = []" "value_refs m v = []" for k v
      using fields by (auto simp: key_refs_def value_refs_def masked_children_def)
    have "list_refs m xs = {#}" for xs by (induction xs) (auto simp: none)
    then have "map_refs m = {#}" by (simp add: map_refs_def)
    with True cc bk run show ?thesis by simp
  next
    case False
    have "m_used m \<le> length (m_data c)" using len bk by simp
    from map_clear_walk [OF this bk(4)] obtain eff where
      "rt_map_clear_from (\<lambda>_ m. m) c (m_used m) = Ok (c, eff)" "released eff = map_refs m"
      using refs bk(3) by auto
    with False cc bk run show ?thesis by auto
  qed
qed

lemma skip_dead_cong:
  "m_used m' = m_used m \<Longrightarrow> map_dead m' = map_dead m \<Longrightarrow> skip_dead m' c = skip_dead m c"
proof (induction m c rule: skip_dead.induct)
  case (1 m c)
  then show ?case by (subst skip_dead.simps, subst (2) skip_dead.simps) simp
qed

section \<open>Properties\<close>


definition demo_map :: bmap where
  "demo_map = \<lparr>m_data = [(3, [5]), (4, [6]), (0, []), (0, [])], m_len = 2, m_cap = 4, m_idx = None, m_icap = 0,
     m_tombs = 0, m_used = 2, m_dead = None, m_ordered = False, m_wide = False, m_vstride = 0, m_vmask = 0,
     m_vcycle = 0, m_version = 0, m_key_owned = True, m_val_owned = True\<rparr>"

lemma demo_map_ok:
  "live_entries demo_map = [(3, [5]), (4, [6])]" "map_ok env 0 demo_map" "slot_keys env 0"
  "map_state_ok small_alloc env 0 False (\<lambda>v. length v = 1) demo_map"
  "map_state_ok small_alloc env 0 False (\<lambda>v. True) demo_map"
proof -
  show entries: "live_entries demo_map = [(3, [5]), (4, [6])]"
    by (simp add: live_entries_no_holes demo_map_def)
  have live: "live_pos demo_map = {..<2}" by (simp add: live_pos_no_holes demo_map_def)
  have "key_at demo_map p = (if p = 0 then 3 else 4)" if "p < 2" for p
    using that by (cases p) (auto simp: key_at_def demo_map_def less_Suc_eq)
  then have "p = q" if "p < 2" "q < 2" "slot_eq env (key_at demo_map p) (key_at demo_map q) 0" for p q
    using that by (auto simp: slot_eq_def split: if_splits)
  then show ok: "map_ok env 0 demo_map"
    unfolding map_ok_def map_base_ok_def map_index_ok_def live by (auto simp: demo_map_def)
  show "slot_keys env 0" by unfold_locales
  show "map_state_ok small_alloc env 0 False (\<lambda>v. length v = 1) demo_map"
    "map_state_ok small_alloc env 0 False (\<lambda>v. True) demo_map"
    using ok entries by (auto simp: map_state_ok_def) (simp_all add: demo_map_def)
qed


text \<open>The same for the typed entry points, whose values are stored by their words in a buffer of
  their own: sets, insertions, removals and lookups of wide values are those of the association
  list.\<close>

theorem typed_map_refines_association_list:
  assumes "slot_keys env kind" "map_alloc_law alloc" "map_state_ok alloc env kind ordered (\<lambda>_. True) m"
  shows "case rt_run (typed_map_step alloc env kind) m cs of
      Ok (m', outs) \<Rightarrow> map_state_ok alloc env kind ordered (\<lambda>_. True) m' \<and>
        opt_run (assoc_spec id env kind ordered) (live_entries m) cs = Some (live_entries m', outs)
    | Panic msg _ _ \<Rightarrow> msg = asc ''out of memory'' \<or> opt_run (assoc_spec id env kind ordered) (live_entries m) cs = None
    | Fault \<Rightarrow> False"
proof -
  have "map_programs env kind alloc"
    using assms(1,2) by (simp add: map_programs_def map_programs_axioms_def)
  from map_programs.typed_map_program [OF this assms(3), of cs] show ?thesis
    unfolding oom_text_def list.pred_True by blast
qed

theorem typed_map_refines_association_list_witness:
  "case rt_run (typed_map_step small_alloc plain_env 0) (demo_map\<lparr>m_wide := True, m_vstride := 16\<rparr>) [MSet 3 [8, 9], MGet 3] of
     Ok (m', outs) \<Rightarrow> outs = [MDone, MFound (Some [8, 9])]
   | Panic msg _ _ \<Rightarrow> msg = asc ''out of memory'' | Fault \<Rightarrow> False"
proof -
  let ?m = "demo_map\<lparr>m_wide := True, m_vstride := 16\<rparr>"
  have entries: "live_entries ?m = [(3, [5]), (4, [6])]" using demo_map_ok(1) by (simp add: live_entries_def map_dead_def)
  have "live_pos ?m = live_pos demo_map" "key_at ?m = key_at demo_map"
    by (auto simp: live_pos_def map_dead_def key_at_def)
  then have "map_ok plain_env 0 ?m"
    using demo_map_ok(2) [of plain_env] by (simp add: map_ok_def map_base_ok_def map_index_ok_def) (simp add: demo_map_def)
  then have st: "map_state_ok small_alloc plain_env 0 False (\<lambda>_. True) ?m"
    by (simp add: map_state_ok_def) (simp add: demo_map_def)
  have "opt_run (assoc_spec id plain_env 0 False) [(3, [5]), (4, [6])] [MSet 3 [8, 9], MGet 3] =
      Some ([(3, [8, 9]), (4, [6])], [MDone, MFound (Some [8, 9])])"
    by code_simp
  then show ?thesis
    using typed_map_refines_association_list [OF demo_map_ok(3) small_alloc_law st, of "[MSet 3 [8, 9], MGet 3]"] entries
    by (auto simp del: rt_run.simps opt_run.simps split: rt.splits)
qed





text \<open>The entry points for integer keys, which compare and mix the key directly, behave as the
  generic ones at the raw kind, effects included.\<close>

theorem raw_entry_points_agree:
  "beans_map_set_raw alloc env m key v = beans_map_set alloc env m key v 0 \<and>
   beans_map_add_raw alloc env m key v = beans_map_add alloc env m key v 0 \<and>
   beans_map_insert_raw alloc env m key v = beans_map_insert alloc env m key v 0 \<and>
   beans_map_set_typed_raw alloc env m key ws = beans_map_set_typed alloc env m key ws 0 \<and>
   beans_map_insert_typed_raw alloc env m key ws = beans_map_insert_typed alloc env m key ws 0 \<and>
   beans_map_get_raw m key = beans_map_get env m key 0 \<and>
   beans_map_get_typed_raw m key = beans_map_get_typed env m key 0 \<and>
   beans_map_remove_raw alloc env m key = beans_map_remove alloc env m key 0 \<and>
   beans_map_contains_raw m key = rt_bind (map_find env m key 0) (\<lambda>(r, _). Ok (r \<noteq> None))"
proof -
  note find = map_find_raw_kind0 [of m key env]
  have unit: "rt_bind x Ok = x" for x :: "'z rt" by (cases x) auto
  show ?thesis
    unfolding beans_map_set_raw_def beans_map_add_raw_def beans_map_insert_raw_def beans_map_set_typed_raw_def
      beans_map_insert_typed_raw_def beans_map_get_raw_def beans_map_get_typed_raw_def beans_map_remove_raw_def
      beans_map_contains_raw_def beans_map_set_def beans_map_add_def beans_map_insert_def beans_map_set_typed_def
      beans_map_insert_typed_def beans_map_get_def beans_map_get_typed_def beans_map_remove_def find
    by (simp add: unit cong: option.case_cong)
qed

text \<open>A value's deinit that inserts into the map being cleared makes the clear release a key the map
  has just taken and leak the one it was releasing: the key is read from the entry again after the
  value's release has run.\<close>

definition insert_on_release :: "effect list \<Rightarrow> bmap \<Rightarrow> bmap" where
  "insert_on_release eff m =
     (if eff = [Release 5] then
        (case beans_map_insert small_alloc plain_env m 9 7 0 of Ok ((m', _), _) \<Rightarrow> m' | _ \<Rightarrow> m)
      else m)"

definition demo_single_map :: bmap where
  "demo_single_map = demo_map\<lparr>m_data := [(3, [5]), (0, []), (0, []), (0, [])], m_len := 1, m_used := 1\<rparr>"

theorem map_clear_reentry_releases_new_key:
  "\<exists>m'. beans_map_clear insert_on_release demo_single_map = Ok (m', [Release 5, Release 9]) \<and>
     live_entries m' = [(9, [7])]"
proof -
  have "beans_map_clear insert_on_release demo_single_map =
      Ok (demo_single_map\<lparr>m_data := [(9, [7]), (0, []), (0, []), (0, [])], m_version := 2\<rparr>, [Release 5, Release 9])"
    by code_simp
  then show ?thesis by (simp add: live_entries_no_holes demo_single_map_def demo_map_def)
qed

end
