(* ===== verification/Rt_Bytes.thy ===== *)
theory Rt_Bytes
  imports Rt_Lists
begin

text \<open>
  \<^verbatim>\<open>Bytes\<close>, the byte buffer of the runtime: a length, a capacity and a backing. A cell of the backing
  is \<open>None\<close> while it is uninitialised, and reading such a cell is \<open>Fault\<close>, so that an \<open>Ok\<close> result
  also says that only bytes that were written are read. Growth, resizing, fixed-width loads and
  stores, variable-length integers, CRC-32, and the conversions to and from strings.
\<close>

unbundle bit_operations_syntax

section \<open>State and memory\<close>

record bbytes =
  b_data :: "byte option list"
  b_len :: int
  b_cap :: int

definition bytes_store :: "bbytes \<Rightarrow> int \<Rightarrow> bstr \<Rightarrow> bbytes rt" where
  "bytes_store b at bs =
     (if 0 \<le> at then rt_bind (mem_write (b_data b) (nat at) (map Some bs)) (\<lambda>d. Ok (b\<lparr>b_data := d\<rparr>))
      else Fault)"

definition bytes_load :: "bbytes \<Rightarrow> int \<Rightarrow> int \<Rightarrow> bstr rt" where
  "bytes_load b at n =
     (let cells = sub_range (b_data b) (nat at) (nat (at + n)) in
      if 0 \<le> at \<and> 0 \<le> n \<and> at + n \<le> int (length (b_data b)) \<and> None \<notin> set cells
      then Ok (map the cells) else Fault)"

section \<open>Creation\<close>

definition bytes_mk :: "(u64 \<Rightarrow> bool) \<Rightarrow> int \<Rightarrow> bbytes rt" where
  "bytes_mk alloc n =
     (let cap = (if n < 8 then 8 else n) in
      if \<not> alloc (u64_of cap) then out_of_memory 0 0
      else Ok \<lparr>b_data = replicate (nat cap) (Some 0), b_len = n, b_cap = cap\<rparr>)"

definition negative_size :: "int \<Rightarrow> int \<Rightarrow> int \<Rightarrow> 'a rt" where
  "negative_size n line col = rt_panic 48 ''negative size %lld'' [ArgI64 n] line col"

definition beans_bytes_new :: "(u64 \<Rightarrow> bool) \<Rightarrow> int \<Rightarrow> int \<Rightarrow> int \<Rightarrow> bbytes rt" where
  "beans_bytes_new alloc n line col = (if n < 0 then negative_size n line col else bytes_mk alloc n)"

definition beans_bytes_filled :: "(u64 \<Rightarrow> bool) \<Rightarrow> int \<Rightarrow> int \<Rightarrow> int \<Rightarrow> int \<Rightarrow> bbytes rt" where
  "beans_bytes_filled alloc n v line col =
     (if n < 0 then negative_size n line col
      else rt_bind (bytes_mk alloc n) (\<lambda>b. bytes_store b 0 (replicate (nat n) (word_of_int v))))"

definition beans_bytes_from :: "(u64 \<Rightarrow> bool) \<Rightarrow> bstr \<Rightarrow> bbytes rt" where
  "beans_bytes_from alloc s = rt_bind (bytes_mk alloc (int (length s))) (\<lambda>b. bytes_store b 0 s)"

text \<open>The raw source is what is readable at the pointer, \<open>None\<close> for a null pointer.\<close>

definition beans_bytes_from_raw ::
    "(u64 \<Rightarrow> bool) \<Rightarrow> bstr option \<Rightarrow> int \<Rightarrow> int \<Rightarrow> int \<Rightarrow> bbytes rt" where
  "beans_bytes_from_raw alloc source n line col =
     (if n < 0 then rt_panic 64 ''negative raw byte length %lld'' [ArgI64 n] line col
      else if source = None \<and> n \<noteq> 0 then Panic (asc ''null pointer with non-empty Bytes'') line col
      else rt_bind (bytes_mk alloc n) (\<lambda>b.
        if n = 0 then Ok b
        else if nat n \<le> length (the source) then bytes_store b 0 (take (nat n) (the source)) else Fault))"

definition beans_bytes_len :: "bbytes \<Rightarrow> int" where
  "beans_bytes_len b = b_len b"

definition beans_bytes_eq :: "bbytes \<Rightarrow> bbytes \<Rightarrow> bool rt" where
  "beans_bytes_eq a b =
     (if b_len a \<noteq> b_len b then Ok False
      else rt_bind (bytes_load a 0 (b_len a)) (\<lambda>x. rt_bind (bytes_load b 0 (b_len a)) (\<lambda>y.
             Ok (memcmp x y = 0))))"

section \<open>Growth\<close>

text \<open>
  \<^verbatim>\<open>while (cap < need) cap *= 2;\<close> on a signed capacity: the product that leaves the type is
  undefined behaviour, and a capacity of zero would double for ever.
\<close>

partial_function (option) bytes_double :: "int \<Rightarrow> int \<Rightarrow> int rt option" where
  "bytes_double cap need =
     (if cap < need then if i64_ok (cap * 2) then bytes_double (cap * 2) need else Some Fault
      else Some (Ok cap))"

declare bytes_double.simps [code]

definition bytes_grow :: "(u64 \<Rightarrow> bool) \<Rightarrow> bbytes \<Rightarrow> int \<Rightarrow> bbytes rt" where
  "bytes_grow alloc b need =
     (if need \<le> b_cap b then Ok b
      else case bytes_double (b_cap b) need of
        None \<Rightarrow> Fault
      | Some r \<Rightarrow> rt_bind r (\<lambda>cap.
          if \<not> alloc (u64_of cap) then out_of_memory 0 0
          else Ok (b\<lparr>b_data := b_data b @ replicate (nat cap - length (b_data b)) None, b_cap := cap\<rparr>)))"

text \<open>\<^verbatim>\<open>bytes_grow(b, b->len + n)\<close>, the sum signed.\<close>

definition bytes_room :: "(u64 \<Rightarrow> bool) \<Rightarrow> bbytes \<Rightarrow> int \<Rightarrow> bbytes rt" where
  "bytes_room alloc b n = (if i64_ok (b_len b + n) then bytes_grow alloc b (b_len b + n) else Fault)"

text \<open>Grow, copy behind the end, lengthen: the shape of every append.\<close>

definition bytes_append_raw :: "(u64 \<Rightarrow> bool) \<Rightarrow> bbytes \<Rightarrow> bstr \<Rightarrow> bbytes rt" where
  "bytes_append_raw alloc b bs =
     rt_bind (bytes_room alloc b (int (length bs))) (\<lambda>b.
     rt_bind (bytes_store b (b_len b) bs) (\<lambda>b. Ok (b\<lparr>b_len := b_len b + int (length bs)\<rparr>)))"

definition beans_bytes_ensure_padding :: "(u64 \<Rightarrow> bool) \<Rightarrow> bbytes \<Rightarrow> int \<Rightarrow> bbytes rt" where
  "beans_bytes_ensure_padding alloc b padding =
     (if padding < 0 \<or> padding > 64 then Panic (asc ''invalid Bytes padding'') 0 0
      else rt_bind (bytes_room alloc b padding) (\<lambda>b. bytes_store b (b_len b) (replicate (nat padding) 0)))"

definition beans_bytes_resize :: "(u64 \<Rightarrow> bool) \<Rightarrow> bbytes \<Rightarrow> int \<Rightarrow> int \<Rightarrow> int \<Rightarrow> bbytes rt" where
  "beans_bytes_resize alloc b n line col =
     (if n < 0 then negative_size n line col
      else rt_bind (bytes_grow alloc b n) (\<lambda>b.
           rt_bind (if n > b_len b then bytes_store b (b_len b) (replicate (nat (n - b_len b)) 0) else Ok b)
             (\<lambda>b. Ok (b\<lparr>b_len := n\<rparr>))))"

definition beans_bytes_reserve :: "(u64 \<Rightarrow> bool) \<Rightarrow> bbytes \<Rightarrow> int \<Rightarrow> int \<Rightarrow> int \<Rightarrow> bbytes rt" where
  "beans_bytes_reserve alloc b n line col =
     (if n < 0 then rt_panic 64 ''negative reserve capacity %lld'' [ArgI64 n] line col
      else if n > 2 ^ 58 then Panic (asc ''reserve capacity too large'') line col
      else bytes_grow alloc b n)"

definition beans_bytes_reserve_raw :: "(u64 \<Rightarrow> bool) \<Rightarrow> bbytes \<Rightarrow> u64 \<Rightarrow> u64 \<Rightarrow> (bbytes \<times> u64) rt" where
  "beans_bytes_reserve_raw alloc b len min_cap =
     (if min_cap > 2 ^ 58 then Panic (asc ''JSON output too large'') 0 0
      else rt_bind (bytes_grow alloc b (sint min_cap)) (\<lambda>b. Ok (b\<lparr>b_len := sint len\<rparr>, u64_of (b_cap b))))"

section \<open>Single bytes and fixed widths\<close>

definition bytes_oob :: "int \<Rightarrow> int \<Rightarrow> int \<Rightarrow> int \<Rightarrow> 'a rt" where
  "bytes_oob i len line col =
     rt_panic 80 ''byte index %lld out of range (len %lld)'' [ArgI64 i, ArgI64 len] line col"

definition beans_bytes_get :: "bbytes \<Rightarrow> int \<Rightarrow> int \<Rightarrow> int \<Rightarrow> int rt" where
  "beans_bytes_get b i line col =
     (if i < 0 \<or> i \<ge> b_len b then bytes_oob i (b_len b) line col
      else rt_bind (bytes_load b i 1) (\<lambda>bs. Ok (uint (hd bs))))"

definition beans_bytes_set :: "bbytes \<Rightarrow> int \<Rightarrow> int \<Rightarrow> int \<Rightarrow> int \<Rightarrow> bbytes rt" where
  "beans_bytes_set b i v line col =
     (if i < 0 \<or> i \<ge> b_len b then bytes_oob i (b_len b) line col else bytes_store b i [word_of_int v])"

definition beans_bytes_push :: "(u64 \<Rightarrow> bool) \<Rightarrow> bbytes \<Rightarrow> int \<Rightarrow> bbytes rt" where
  "beans_bytes_push alloc b v = bytes_append_raw alloc b [word_of_int v]"

definition beans_bytes_fill :: "bbytes \<Rightarrow> int \<Rightarrow> bbytes rt" where
  "beans_bytes_fill b v = bytes_store b 0 (replicate (nat (b_len b)) (word_of_int v))"

definition bytes_woob :: "string \<Rightarrow> string \<Rightarrow> int \<Rightarrow> int \<Rightarrow> int \<Rightarrow> int \<Rightarrow> 'a rt" where
  "bytes_woob what op pos len line col =
     rt_panic 96 ''%s %s at %lld out of range (len %lld)''
       [ArgStr (Some (asc what)), ArgStr (Some (asc op)), ArgI64 pos, ArgI64 len] line col"

definition bytes_getw :: "bbytes \<Rightarrow> int \<Rightarrow> int \<Rightarrow> string \<Rightarrow> int \<Rightarrow> int \<Rightarrow> int rt" where
  "bytes_getw b pos w what line col =
     (if pos < 0 \<or> w > b_len b \<or> pos > b_len b - w then bytes_woob what ''read'' pos (b_len b) line col
      else rt_bind (bytes_load b pos w) (\<lambda>bs. Ok (sint (rt_load_le bs (nat w)))))"

definition bytes_putw :: "bbytes \<Rightarrow> int \<Rightarrow> int \<Rightarrow> int \<Rightarrow> string \<Rightarrow> int \<Rightarrow> int \<Rightarrow> bbytes rt" where
  "bytes_putw b pos w val what line col =
     (if pos < 0 \<or> w > b_len b \<or> pos > b_len b - w then bytes_woob what ''write'' pos (b_len b) line col
      else bytes_store b pos (rt_store_le (u64_of val) (nat w)))"

definition beans_bytes_get_u8 :: "bbytes \<Rightarrow> int \<Rightarrow> int \<Rightarrow> int \<Rightarrow> int rt" where
  "beans_bytes_get_u8 b p l c = bytes_getw b p 1 ''u8'' l c"

definition beans_bytes_get_u16 :: "bbytes \<Rightarrow> int \<Rightarrow> int \<Rightarrow> int \<Rightarrow> int rt" where
  "beans_bytes_get_u16 b p l c = bytes_getw b p 2 ''u16'' l c"

definition beans_bytes_get_u32 :: "bbytes \<Rightarrow> int \<Rightarrow> int \<Rightarrow> int \<Rightarrow> int rt" where
  "beans_bytes_get_u32 b p l c = bytes_getw b p 4 ''u32'' l c"

definition beans_bytes_get_u64 :: "bbytes \<Rightarrow> int \<Rightarrow> int \<Rightarrow> int \<Rightarrow> int rt" where
  "beans_bytes_get_u64 b p l c = bytes_getw b p 8 ''u64'' l c"

definition beans_bytes_get_i64 :: "bbytes \<Rightarrow> int \<Rightarrow> int \<Rightarrow> int \<Rightarrow> int rt" where
  "beans_bytes_get_i64 b p l c = bytes_getw b p 8 ''i64'' l c"

definition beans_bytes_put_u8 :: "bbytes \<Rightarrow> int \<Rightarrow> int \<Rightarrow> int \<Rightarrow> int \<Rightarrow> bbytes rt" where
  "beans_bytes_put_u8 b p v l c = bytes_putw b p 1 v ''u8'' l c"

definition beans_bytes_put_u16 :: "bbytes \<Rightarrow> int \<Rightarrow> int \<Rightarrow> int \<Rightarrow> int \<Rightarrow> bbytes rt" where
  "beans_bytes_put_u16 b p v l c = bytes_putw b p 2 v ''u16'' l c"

definition beans_bytes_put_u32 :: "bbytes \<Rightarrow> int \<Rightarrow> int \<Rightarrow> int \<Rightarrow> int \<Rightarrow> bbytes rt" where
  "beans_bytes_put_u32 b p v l c = bytes_putw b p 4 v ''u32'' l c"

definition beans_bytes_put_u64 :: "bbytes \<Rightarrow> int \<Rightarrow> int \<Rightarrow> int \<Rightarrow> int \<Rightarrow> bbytes rt" where
  "beans_bytes_put_u64 b p v l c = bytes_putw b p 8 v ''u64'' l c"

definition beans_bytes_put_i64 :: "bbytes \<Rightarrow> int \<Rightarrow> int \<Rightarrow> int \<Rightarrow> int \<Rightarrow> bbytes rt" where
  "beans_bytes_put_i64 b p v l c = bytes_putw b p 8 v ''i64'' l c"

section \<open>Ranges and appends\<close>

definition bytes_slice_check :: "bbytes \<Rightarrow> int \<Rightarrow> int \<Rightarrow> int \<Rightarrow> int \<Rightarrow> unit rt" where
  "bytes_slice_check b from to line col =
     (if from < 0 \<or> to < from \<or> to > b_len b
      then rt_panic 96 ''byte slice %lld..%lld out of range (len %lld)''
             [ArgI64 from, ArgI64 to, ArgI64 (b_len b)] line col
      else Ok ())"

definition beans_bytes_slice :: "(u64 \<Rightarrow> bool) \<Rightarrow> bbytes \<Rightarrow> int \<Rightarrow> int \<Rightarrow> int \<Rightarrow> int \<Rightarrow> bbytes rt" where
  "beans_bytes_slice alloc b from to line col =
     rt_bind (bytes_slice_check b from to line col) (\<lambda>_.
     rt_bind (bytes_mk alloc (to - from)) (\<lambda>r.
     rt_bind (bytes_load b from (to - from)) (\<lambda>bs. bytes_store r 0 bs)))"

text \<open>
  The other buffer of an operation, \<open>None\<close> when it is the buffer itself: it is read after the growth.
\<close>

definition other_of :: "bbytes \<Rightarrow> bbytes option \<Rightarrow> bbytes" where
  "other_of b src = (case src of None \<Rightarrow> b | Some s \<Rightarrow> s)"

text \<open>
  \<^verbatim>\<open>memcpy\<close> between overlapping objects is undefined, so a nonempty buffer copied onto itself is
  \<open>Fault\<close>.
\<close>

definition beans_bytes_copy_from :: "bbytes \<Rightarrow> bbytes option \<Rightarrow> int \<Rightarrow> int \<Rightarrow> int \<Rightarrow> bbytes rt" where
  "beans_bytes_copy_from b src at line col =
     (let n = b_len (other_of b src) in
      if at < 0 \<or> n > b_len b \<or> at > b_len b - n
      then rt_panic 96 ''copy of %lld bytes at %lld out of range (len %lld)''
             [ArgI64 n, ArgI64 at, ArgI64 (b_len b)] line col
      else if src = None \<and> n > 0 then Fault
      else rt_bind (bytes_load (other_of b src) 0 n) (\<lambda>bs. bytes_store b at bs))"

definition beans_bytes_append :: "(u64 \<Rightarrow> bool) \<Rightarrow> bbytes \<Rightarrow> bbytes option \<Rightarrow> bbytes rt" where
  "beans_bytes_append alloc b src =
     (let n = b_len (other_of b src) in
      rt_bind (bytes_room alloc b n) (\<lambda>b.
      rt_bind (bytes_load (other_of b src) 0 n) (\<lambda>bs.
      rt_bind (bytes_store b (b_len b) bs) (\<lambda>b. Ok (b\<lparr>b_len := b_len b + n\<rparr>)))))"

definition beans_bytes_append_str :: "(u64 \<Rightarrow> bool) \<Rightarrow> bbytes \<Rightarrow> bstr \<Rightarrow> bbytes rt" where
  "beans_bytes_append_str alloc b s = bytes_append_raw alloc b s"

definition beans_bytes_append_i64 :: "(u64 \<Rightarrow> bool) \<Rightarrow> bbytes \<Rightarrow> int \<Rightarrow> bbytes rt" where
  "beans_bytes_append_i64 alloc b v = bytes_append_raw alloc b (rt_store_le (u64_of v) 8)"

definition beans_bytes_append_range ::
    "(u64 \<Rightarrow> bool) \<Rightarrow> bbytes \<Rightarrow> bbytes option \<Rightarrow> int \<Rightarrow> int \<Rightarrow> int \<Rightarrow> int \<Rightarrow> bbytes rt" where
  "beans_bytes_append_range alloc b src from to line col =
     (if from < 0 \<or> to < from \<or> to > b_len (other_of b src)
      then rt_panic 96 ''slice %lld..%lld out of range (len %lld)''
             [ArgI64 from, ArgI64 to, ArgI64 (b_len (other_of b src))] line col
      else rt_bind (bytes_room alloc b (to - from)) (\<lambda>b.
           rt_bind (bytes_load (other_of b src) from (to - from)) (\<lambda>bs.
           rt_bind (bytes_store b (b_len b) bs) (\<lambda>b. Ok (b\<lparr>b_len := b_len b + (to - from)\<rparr>)))))"

definition beans_bytes_append_int_text :: "(u64 \<Rightarrow> bool) \<Rightarrow> bbytes \<Rightarrow> int \<Rightarrow> bbytes rt" where
  "beans_bytes_append_int_text alloc b v =
     (let magnitude = (if v < 0 then 0 - u64_of v else u64_of v) in
      bytes_append_raw alloc b ((if v < 0 then [45] else []) @ rev (utoa_tmp magnitude)))"

section \<open>Strings\<close>

definition beans_bytes_to_string :: "bbytes \<Rightarrow> bstr rt" where
  "beans_bytes_to_string b = rt_bind (bytes_load b 0 (b_len b)) (\<lambda>bs. Ok (takeWhile (\<lambda>c. c \<noteq> 0) bs))"

definition beans_bytes_to_string_full :: "bbytes \<Rightarrow> bstr rt" where
  "beans_bytes_to_string_full b = bytes_load b 0 (b_len b)"

definition beans_bytes_slice_to_string :: "bbytes \<Rightarrow> int \<Rightarrow> int \<Rightarrow> int \<Rightarrow> int \<Rightarrow> bstr rt" where
  "beans_bytes_slice_to_string b from to line col =
     rt_bind (bytes_slice_check b from to line col) (\<lambda>_.
     rt_bind (bytes_load b from (to - from)) (\<lambda>bs. Ok (takeWhile (\<lambda>c. c \<noteq> 0) bs)))"

definition beans_bytes_slice_to_string_full :: "bbytes \<Rightarrow> int \<Rightarrow> int \<Rightarrow> int \<Rightarrow> int \<Rightarrow> bstr rt" where
  "beans_bytes_slice_to_string_full b from to line col =
     rt_bind (bytes_slice_check b from to line col) (\<lambda>_. bytes_load b from (to - from))"

section \<open>Variable-length integers\<close>

function varint_push :: "(u64 \<Rightarrow> bool) \<Rightarrow> bbytes \<Rightarrow> u64 \<Rightarrow> bbytes rt" where
  "varint_push alloc b v =
     (if v \<ge> 0x80
      then rt_bind (bytes_append_raw alloc b [ucast (v OR 0x80)]) (\<lambda>b. varint_push alloc b (drop_bit 7 v))
      else bytes_append_raw alloc b [ucast v])"
  by pat_completeness auto

definition beans_bytes_append_varint :: "(u64 \<Rightarrow> bool) \<Rightarrow> bbytes \<Rightarrow> int \<Rightarrow> bbytes rt" where
  "beans_bytes_append_varint alloc b x = varint_push alloc b (u64_of x)"

function varint_read :: "bbytes \<Rightarrow> int \<Rightarrow> int \<Rightarrow> int \<Rightarrow> u64 \<Rightarrow> int \<Rightarrow> int \<Rightarrow> u64 rt" where
  "varint_read b pos i shift v line col =
     (if pos < 0 \<or> i \<ge> b_len b
      then rt_panic 96 ''varint read at %lld out of range (len %lld)'' [ArgI64 pos, ArgI64 (b_len b)] line col
      else if shift \<ge> 64 then rt_panic 96 ''varint too long at %lld'' [ArgI64 pos] line col
      else rt_bind (bytes_load b i 1) (\<lambda>bs.
        let byte = hd bs; v' = v OR push_bit (nat shift) (ucast (byte AND 0x7f)) in
        if byte AND 0x80 = 0 then Ok v' else varint_read b pos (i + 1) (shift + 7) v' line col))"
  by pat_completeness auto
termination varint_read
  by (relation "measure (\<lambda>(b, pos, i, shift, v, line, col). nat (64 - shift))") auto

definition beans_bytes_get_varint :: "bbytes \<Rightarrow> int \<Rightarrow> int \<Rightarrow> int \<Rightarrow> int rt" where
  "beans_bytes_get_varint b pos line col =
     rt_bind (varint_read b pos (if pos < 0 then b_len b else pos) 0 0 line col) (\<lambda>v. Ok (sint v))"

function varint_size_from :: "int \<Rightarrow> u64 \<Rightarrow> int" where
  "varint_size_from n v = (if v \<ge> 0x80 then varint_size_from (n + 1) (drop_bit 7 v) else n)"
  by pat_completeness auto

definition beans_bytes_varint_size :: "int \<Rightarrow> int" where
  "beans_bytes_varint_size x = varint_size_from 1 (u64_of x)"

lemma drop_bit_7_less: "0x80 \<le> v \<Longrightarrow> unat (drop_bit 7 v) < unat (v :: u64)"
  by (auto simp: drop_bit_eq_div unat_div word_le_nat_alt intro: div_less_dividend)

termination varint_push
  by (relation "measure (\<lambda>(alloc, b, v). unat v)") (simp_all add: drop_bit_7_less)

termination varint_size_from
  by (relation "measure (\<lambda>(n, v). unat v)") (simp_all add: drop_bit_7_less)

declare varint_push.simps [simp del] varint_read.simps [simp del] varint_size_from.simps [simp del]

section \<open>CRC-32\<close>

text \<open>
  The reflected IEEE polynomial. The code fills the 256-entry table once; its entries are the
  values below.
\<close>

definition crc_shift :: "u32 \<Rightarrow> u32" where
  "crc_shift c = (if c AND 1 \<noteq> 0 then 0xEDB88320 XOR drop_bit 1 c else drop_bit 1 c)"

definition crc_table :: "u32 \<Rightarrow> u32" where
  "crc_table i = (crc_shift ^^ 8) i"

fun crc_loop :: "u32 \<Rightarrow> bstr \<Rightarrow> u32" where
  "crc_loop c [] = c"
| "crc_loop c (x # xs) = crc_loop (crc_table ((c XOR ucast x) AND 0xFF) XOR drop_bit 8 c) xs"

definition beans_bytes_crc32 :: "bbytes \<Rightarrow> int \<Rightarrow> int \<Rightarrow> int \<Rightarrow> int \<Rightarrow> int rt" where
  "beans_bytes_crc32 b from to line col =
     (if from < 0 \<or> to < from \<or> to > b_len b
      then rt_panic 96 ''crc32 %lld..%lld out of range (len %lld)''
             [ArgI64 from, ArgI64 to, ArgI64 (b_len b)] line col
      else rt_bind (bytes_load b from (to - from)) (\<lambda>bs.
        Ok (uint (crc_loop 0xFFFFFFFF bs XOR 0xFFFFFFFF))))"

section \<open>Invariant\<close>

text \<open>
  A well-formed buffer is its content followed by cells of spare capacity. The capacity is at least
  eight and below \<open>2 ^ 61\<close>, the bound of the allocator: the sum of two lengths then stays below
  \<open>2 ^ 62\<close>, where the doubling of the capacity is still safe.
\<close>

definition bytes_alloc_law :: "(u64 \<Rightarrow> bool) \<Rightarrow> bool" where
  "bytes_alloc_law alloc \<longleftrightarrow> (\<forall>b. alloc b \<longrightarrow> unat b < 2 ^ 61)"

definition mkb :: "bstr \<Rightarrow> byte option list \<Rightarrow> bbytes" where
  "mkb xs ys = \<lparr>b_data = map Some xs @ ys, b_len = int (length xs), b_cap = int (length xs + length ys)\<rparr>"

definition fits :: "bstr \<Rightarrow> byte option list \<Rightarrow> bool" where
  "fits xs ys \<longleftrightarrow> 8 \<le> length xs + length ys \<and> length xs + length ys < 2 ^ 61"

definition bytes_ok :: "bbytes \<Rightarrow> bool" where
  "bytes_ok b \<longleftrightarrow> 8 \<le> b_cap b \<and> b_cap b < 2 ^ 61 \<and> int (length (b_data b)) = b_cap b \<and>
     0 \<le> b_len b \<and> b_len b \<le> b_cap b \<and> None \<notin> set (take (nat (b_len b)) (b_data b))"

definition content :: "bbytes \<Rightarrow> bstr" where
  "content b = map the (take (nat (b_len b)) (b_data b))"

lemma mkb_fields [simp]:
  "b_data (mkb xs ys) = map Some xs @ ys" "b_len (mkb xs ys) = int (length xs)"
  "b_cap (mkb xs ys) = int (length xs + length ys)"
  by (simp_all add: mkb_def)

lemma content_mkb [simp]: "content (mkb xs ys) = xs"
  by (simp add: content_def comp_def)

lemma bytes_ok_mkb [simp]: "bytes_ok (mkb xs ys) \<longleftrightarrow> fits xs ys"
  by (auto simp: bytes_ok_def fits_def)

lemma bytes_okE:
  assumes "bytes_ok b"
  obtains ys where "b = mkb (content b) ys" "fits (content b) ys"
proof -
  let ?n = "nat (b_len b)"
  have "map Some (content b) = take ?n (b_data b)"
    using assms by (auto simp: bytes_ok_def content_def intro!: map_idI) (metis option.collapse)
  then have d: "b_data b = map Some (content b) @ drop ?n (b_data b)"
    by (metis append_take_drop_id)
  have n: "length (content b) = ?n" "b_len b = int ?n" using assms by (auto simp: bytes_ok_def content_def)
  have len: "length (content b) + length (drop ?n (b_data b)) = length (b_data b)"
    using n assms by (simp add: bytes_ok_def nat_le_iff)
  have "b = mkb (content b) (drop ?n (b_data b))"
    using d n len assms by (simp add: mkb_def bytes_ok_def)
  moreover from this have "fits (content b) (drop ?n (b_data b))" using assms bytes_ok_mkb by metis
  ultimately show ?thesis by (rule that)
qed

lemma b_len_content: "bytes_ok b \<Longrightarrow> b_len b = int (length (content b))"
  by (erule bytes_okE) (metis mkb_fields(2))

section \<open>Memory\<close>

lemma bytes_load_mkb:
  assumes "0 \<le> at" "0 \<le> n" "at + n \<le> int (length xs)"
  shows "bytes_load (mkb xs ys) at n = Ok (sub_range xs (nat at) (nat (at + n)))"
proof -
  have "nat (at + n) \<le> length xs" using assms by simp
  then have cells: "sub_range (map Some xs @ ys) (nat at) (nat (at + n)) = map Some (sub_range xs (nat at) (nat (at + n)))"
    using assms by (simp add: sub_range_def take_map drop_map)
  show ?thesis using assms by (simp add: bytes_load_def cells comp_def)
qed

lemma bytes_load_all [simp]: "bytes_load (mkb xs ys) 0 (int (length xs)) = Ok xs"
  by (simp add: bytes_load_mkb)

lemma bytes_load_one:
  assumes "0 \<le> i" "i < int (length xs)"
  shows "bytes_load (mkb xs ys) i 1 = Ok [xs ! nat i]"
proof -
  have "nat (i + 1) = Suc (nat i)" "nat i < length xs" using assms by auto
  with assms show ?thesis by (simp add: bytes_load_mkb sub_range_Cons) (simp add: sub_range_def)
qed

lemma bytes_store_inside:
  assumes "0 \<le> at" "at + int (length bs) \<le> int (length xs)"
  shows "bytes_store (mkb xs ys) at bs = Ok (mkb (take (nat at) xs @ bs @ drop (nat at + length bs) xs) ys)"
proof -
  have "nat at + length bs \<le> length xs" using assms by simp
  then show ?thesis
    using assms by (simp add: bytes_store_def mem_write_def mkb_def take_map drop_map)
qed

text \<open>A store behind the end; the length still has to be raised.\<close>

lemma bytes_store_end:
  assumes "length bs \<le> length ys"
  shows "bytes_store (mkb xs ys) (int (length xs)) bs = Ok (mkb xs (map Some bs @ drop (length bs) ys))"
    "(mkb xs (map Some bs @ zs))\<lparr>b_len := int (length xs) + int (length bs)\<rparr> = mkb (xs @ bs) zs"
  using assms by (simp_all add: bytes_store_def mem_write_def mkb_def)

section \<open>Growth\<close>

lemma bytes_double_result:
  assumes "0 < cap" "need \<le> 2 ^ 62" "cap < 2 ^ 63"
  shows "\<exists>c. bytes_double cap need = Some (Ok c) \<and> need \<le> c \<and> cap \<le> c \<and> c < 2 ^ 63"
  using assms
proof (induction "nat (need - cap)" arbitrary: cap rule: less_induct)
  case less
  show ?case
  proof (cases "cap < need")
    case True
    then have "i64_ok (cap * 2)" "nat (need - cap * 2) < nat (need - cap)"
      using less.prems by (auto simp: i64_ok_def)
    with less.hyps [OF this(2)] less.prems True show ?thesis
      by (subst bytes_double.simps) (force simp: i64_ok_def)
  next
    case False
    with less.prems show ?thesis by (subst bytes_double.simps) auto
  qed
qed

lemma bytes_grow_result:
  assumes "fits xs ys" "bytes_alloc_law alloc" "need \<le> 2 ^ 62"
  shows "bytes_grow alloc (mkb xs ys) need = out_of_memory 0 0 \<or>
    (\<exists>zs. bytes_grow alloc (mkb xs ys) need = Ok (mkb xs (ys @ zs)) \<and> fits xs (ys @ zs) \<and>
       need \<le> int (length xs + length (ys @ zs)))"
proof (cases "need \<le> int (length xs + length ys)")
  case True
  then show ?thesis using assms(1) by (intro disjI2 exI [of _ "[]"]) (simp add: bytes_grow_def)
next
  case False
  let ?cap = "int (length xs + length ys)"
  have "0 < ?cap" "?cap < 2 ^ 63" using assms(1) by (auto simp: fits_def)
  from bytes_double_result [OF this(1) assms(3) this(2)] obtain c
    where c: "bytes_double ?cap need = Some (Ok c)" "need \<le> c" "?cap \<le> c" "c < 2 ^ 63" by blast
  show ?thesis
  proof (cases "alloc (u64_of c)")
    case True
    with assms(2) have "unat (u64_of c) < 2 ^ 61" by (simp add: bytes_alloc_law_def)
    moreover have "int (unat (u64_of c)) = c"
      using c by (simp add: u64_of_def uint_word_of_int take_bit_int_eq_self)
    ultimately have small: "c < 2 ^ 61"
      by (metis of_nat_less_iff of_nat_numeral of_nat_power)
    let ?zs = "replicate (nat c - (length xs + length ys)) None :: byte option list"
    have n: "length xs + length (ys @ ?zs) = nat c" using c(3) by simp
    have "bytes_grow alloc (mkb xs ys) need = Ok (mkb xs (ys @ ?zs))"
      using c True \<open>\<not> need \<le> ?cap\<close> by (simp add: bytes_grow_def mkb_def)
    moreover have "fits xs (ys @ ?zs)" unfolding fits_def n using assms(1) c small by (auto simp: fits_def)
    ultimately show ?thesis using c n by (intro disjI2 exI [of _ ?zs]) auto
  next
    case no: False
    with c False show ?thesis by (simp add: bytes_grow_def)
  qed
qed

lemma bytes_room_result:
  assumes "fits xs ys" "bytes_alloc_law alloc" "0 \<le> n" "n < 2 ^ 61"
  shows "bytes_room alloc (mkb xs ys) n = out_of_memory 0 0 \<or>
    (\<exists>zs. bytes_room alloc (mkb xs ys) n = Ok (mkb xs zs) \<and> fits xs zs \<and> n \<le> int (length zs))"
proof -
  have "int (length xs) + n \<le> 2 ^ 62" "i64_ok (int (length xs) + n)"
    using assms by (auto simp: fits_def i64_ok_def)
  with bytes_grow_result [OF assms(1,2) this(1)] show ?thesis
    by (auto simp: bytes_room_def)
qed

lemma bytes_append_raw_result:
  assumes "fits xs ys" "bytes_alloc_law alloc" "length bs < 2 ^ 61"
  shows "bytes_append_raw alloc (mkb xs ys) bs = out_of_memory 0 0 \<or>
    (\<exists>zs. bytes_append_raw alloc (mkb xs ys) bs = Ok (mkb (xs @ bs) zs) \<and> fits (xs @ bs) zs)"
proof -
  have "int (length bs) < 2 ^ 61" using assms(3) by simp
  from bytes_room_result [OF assms(1,2) _ this] consider
      "bytes_room alloc (mkb xs ys) (int (length bs)) = out_of_memory 0 0"
    | zs where "bytes_room alloc (mkb xs ys) (int (length bs)) = Ok (mkb xs zs)" "fits xs zs" "length bs \<le> length zs"
    by force
  then show ?thesis
  proof cases
    case (2 zs)
    then have "bytes_append_raw alloc (mkb xs ys) bs = Ok (mkb (xs @ bs) (drop (length bs) zs))"
      by (simp add: bytes_append_raw_def bytes_store_end)
    moreover have "fits (xs @ bs) (drop (length bs) zs)" using 2 by (simp add: fits_def)
    ultimately show ?thesis by blast
  qed (simp add: bytes_append_raw_def out_of_memory_def)
qed

section \<open>A buffer as a byte sequence\<close>

datatype bytes_cmd =
  BPush int | BAppendStr bstr | BAppend "bstr option" | BAppendRange "bstr option" int int
| BAppendI64 int | BAppendInt int | BResize int | BReserve int | BPad int | BFill int | BSet int int
| BPutU32 int int | BGet int | BGetU32 int | BCopyFrom bstr int | BToString

datatype bytes_out = ONone | OInt int | OStr bstr

text \<open>
  The other buffer of an append is a fresh one made from a string, or the buffer itself (\<open>None\<close>).
\<close>

definition with_other ::
    "(u64 \<Rightarrow> bool) \<Rightarrow> bstr option \<Rightarrow> (bbytes option \<Rightarrow> bbytes rt) \<Rightarrow> bbytes rt" where
  "with_other alloc src f =
     (case src of None \<Rightarrow> f None | Some s \<Rightarrow> rt_bind (beans_bytes_from alloc s) (\<lambda>s. f (Some s)))"

definition silent :: "bbytes rt \<Rightarrow> (bbytes \<times> bytes_out) rt" where
  "silent r = rt_bind r (\<lambda>b. Ok (b, ONone))"

fun bytes_step :: "(u64 \<Rightarrow> bool) \<Rightarrow> bbytes \<Rightarrow> bytes_cmd \<Rightarrow> (bbytes \<times> bytes_out) rt" where
  "bytes_step alloc b (BPush v) = silent (beans_bytes_push alloc b v)"
| "bytes_step alloc b (BAppendStr s) = silent (beans_bytes_append_str alloc b s)"
| "bytes_step alloc b (BAppend src) = silent (with_other alloc src (beans_bytes_append alloc b))"
| "bytes_step alloc b (BAppendRange src i j) =
     silent (with_other alloc src (\<lambda>src. beans_bytes_append_range alloc b src i j 0 0))"
| "bytes_step alloc b (BAppendI64 v) = silent (beans_bytes_append_i64 alloc b v)"
| "bytes_step alloc b (BAppendInt v) = silent (beans_bytes_append_int_text alloc b v)"
| "bytes_step alloc b (BResize n) = silent (beans_bytes_resize alloc b n 0 0)"
| "bytes_step alloc b (BReserve n) = silent (beans_bytes_reserve alloc b n 0 0)"
| "bytes_step alloc b (BPad n) = silent (beans_bytes_ensure_padding alloc b n)"
| "bytes_step alloc b (BFill v) = silent (beans_bytes_fill b v)"
| "bytes_step alloc b (BSet i v) = silent (beans_bytes_set b i v 0 0)"
| "bytes_step alloc b (BPutU32 i v) = silent (beans_bytes_put_u32 b i v 0 0)"
| "bytes_step alloc b (BGet i) = rt_bind (beans_bytes_get b i 0 0) (\<lambda>v. Ok (b, OInt v))"
| "bytes_step alloc b (BGetU32 i) = rt_bind (beans_bytes_get_u32 b i 0 0) (\<lambda>v. Ok (b, OInt v))"
| "bytes_step alloc b (BCopyFrom s i) =
     silent (with_other alloc (Some s) (\<lambda>src. beans_bytes_copy_from b src i 0 0))"
| "bytes_step alloc b BToString = rt_bind (beans_bytes_to_string_full b) (\<lambda>s. Ok (b, OStr s))"

definition patch :: "bstr \<Rightarrow> int \<Rightarrow> bstr \<Rightarrow> (bstr \<times> bytes_out) option" where
  "patch xs i bs =
     (if 0 \<le> i \<and> i + int (length bs) \<le> int (length xs)
      then Some (take (nat i) xs @ bs @ drop (nat i + length bs) xs, ONone) else None)"

fun bytes_spec :: "bstr \<Rightarrow> bytes_cmd \<Rightarrow> (bstr \<times> bytes_out) option" where
  "bytes_spec xs (BPush v) = Some (xs @ [word_of_int v], ONone)"
| "bytes_spec xs (BAppendStr s) = Some (xs @ s, ONone)"
| "bytes_spec xs (BAppend src) = Some (xs @ (case src of None \<Rightarrow> xs | Some s \<Rightarrow> s), ONone)"
| "bytes_spec xs (BAppendRange src i j) =
     (let s = (case src of None \<Rightarrow> xs | Some s \<Rightarrow> s) in
      if 0 \<le> i \<and> i \<le> j \<and> j \<le> int (length s) then Some (xs @ sub_range s (nat i) (nat j), ONone) else None)"
| "bytes_spec xs (BAppendI64 v) = Some (xs @ rt_store_le (u64_of v) 8, ONone)"
| "bytes_spec xs (BAppendInt v) = Some (xs @ int_text v, ONone)"
| "bytes_spec xs (BResize n) =
     (if 0 \<le> n then Some (take (nat n) xs @ replicate (nat n - length xs) 0, ONone) else None)"
| "bytes_spec xs (BReserve n) = (if 0 \<le> n \<and> n \<le> 2 ^ 58 then Some (xs, ONone) else None)"
| "bytes_spec xs (BPad n) = (if 0 \<le> n \<and> n \<le> 64 then Some (xs, ONone) else None)"
| "bytes_spec xs (BFill v) = Some (replicate (length xs) (word_of_int v), ONone)"
| "bytes_spec xs (BSet i v) = patch xs i [word_of_int v]"
| "bytes_spec xs (BPutU32 i v) = patch xs i (rt_store_le (u64_of v) 4)"
| "bytes_spec xs (BGet i) =
     (if 0 \<le> i \<and> i < int (length xs) then Some (xs, OInt (uint (xs ! nat i))) else None)"
| "bytes_spec xs (BGetU32 i) =
     (if 0 \<le> i \<and> i + 4 \<le> int (length xs)
      then Some (xs, OInt (uint (rt_load_le (sub_range xs (nat i) (nat i + 4)) 4))) else None)"
| "bytes_spec xs (BCopyFrom s i) = patch xs i s"
| "bytes_spec xs BToString = Some (xs, OStr xs)"

text \<open>Arguments a program can pass: integers of the type, strings that fit the address space.\<close>

definition other_small :: "bstr option \<Rightarrow> bool" where
  "other_small src \<longleftrightarrow> (case src of None \<Rightarrow> True | Some s \<Rightarrow> length s < 2 ^ 61)"

fun bytes_legal :: "bytes_cmd \<Rightarrow> bool" where
  "bytes_legal (BAppendStr s) \<longleftrightarrow> length s < 2 ^ 61"
| "bytes_legal (BAppend src) \<longleftrightarrow> other_small src"
| "bytes_legal (BAppendRange src i j) \<longleftrightarrow> other_small src"
| "bytes_legal (BCopyFrom s i) \<longleftrightarrow> other_small (Some s)"
| "bytes_legal (BAppendInt v) \<longleftrightarrow> i64_ok v"
| "bytes_legal (BResize n) \<longleftrightarrow> n \<le> 2 ^ 62"
| "bytes_legal _ \<longleftrightarrow> True"

text \<open>The outcome the refinement asks for.\<close>

definition bytes_meets :: "(bbytes \<times> bytes_out) rt \<Rightarrow> (bstr \<times> bytes_out) option \<Rightarrow> bool" where
  "bytes_meets r s \<longleftrightarrow>
     (case r of Ok (b, x) \<Rightarrow> bytes_ok b \<and> s = Some (content b, x)
      | Panic m _ _ \<Rightarrow> oom_text m \<or> s = None | Fault \<Rightarrow> False)"

lemma bytes_meets_simps [simp]:
  "bytes_meets (silent (out_of_memory line col)) s"
  "bytes_meets (silent (rt_bind (out_of_memory line col) g)) s"
  "bytes_meets (Panic m line col) None"
  "bytes_meets (silent (Panic m line col)) None"
  "bytes_meets (Ok (b, x)) (Some (xs, y)) \<longleftrightarrow> bytes_ok b \<and> content b = xs \<and> x = y"
  "bytes_meets (silent (Ok b)) (Some (xs, y)) \<longleftrightarrow> bytes_ok b \<and> content b = xs \<and> y = ONone"
  by (auto simp: bytes_meets_def silent_def out_of_memory_def oom_text_def)

lemma bytes_meets_panic:
  "\<exists>m. r = Panic m line col \<Longrightarrow> bytes_meets (silent r) None"
  "\<exists>m. r' = Panic m line col \<Longrightarrow> bytes_meets (rt_bind r' f) None"
  by (auto simp: bytes_meets_def silent_def)

lemma bytes_panics:
  "\<exists>m. negative_size n line col = Panic m line col"
  "\<exists>m. bytes_oob i n line col = Panic m line col"
  "\<exists>m. bytes_woob what op i n line col = Panic m line col"
  "\<exists>m. rt_panic 64 ''negative reserve capacity %lld'' [ArgI64 i] line col = Panic m line col"
  "\<exists>m. rt_panic 96 ''slice %lld..%lld out of range (len %lld)'' [ArgI64 i, ArgI64 j, ArgI64 k] line col = Panic m line col"
  "\<exists>m. rt_panic 96 ''copy of %lld bytes at %lld out of range (len %lld)'' [ArgI64 i, ArgI64 j, ArgI64 k] line col = Panic m line col"
  by (simp_all add: negative_size_def bytes_oob_def bytes_woob_def rt_panic_def rt_vformat_def ll_spec_def)

lemmas bytes_refused = bytes_panics [THEN bytes_meets_panic(1)] bytes_panics [THEN bytes_meets_panic(2)]

text \<open>An operation that answers a buffer whose content is known, or runs out of memory.\<close>

lemma bytes_meets_result:
  assumes "r = out_of_memory 0 0 \<or> (\<exists>zs. r = Ok (mkb xs zs) \<and> fits xs zs)"
  shows "bytes_meets (silent r) (Some (xs, ONone))"
  using assms by auto

lemma bytes_from_result:
  assumes "bytes_alloc_law alloc" "length s < 2 ^ 61"
  shows "beans_bytes_from alloc s = out_of_memory 0 0 \<or>
    (\<exists>zs. beans_bytes_from alloc s = Ok (mkb s zs) \<and> fits s zs)"
proof (cases "alloc (u64_of (if int (length s) < 8 then 8 else int (length s)))")
  case True
  let ?n = "8 - length s"
  have "bytes_mk alloc (int (length s)) = Ok (mkb (replicate (length s) 0) (replicate ?n (Some 0)))"
    using True by (auto simp: bytes_mk_def mkb_def Let_def simp flip: replicate_add)
  then have "beans_bytes_from alloc s = Ok (mkb s (replicate ?n (Some 0)))"
    by (simp add: beans_bytes_from_def bytes_store_inside)
  moreover have "fits s (replicate ?n (Some 0))" using assms(2) by (auto simp: fits_def)
  ultimately show ?thesis by blast
next
  case False
  then show ?thesis by (simp add: beans_bytes_from_def bytes_mk_def out_of_memory_def)
qed

lemma with_other_result:
  assumes "bytes_alloc_law alloc" "other_small src"
    and "src = None \<Longrightarrow> P (f None)" "\<And>s zs. src = Some s \<Longrightarrow> fits s zs \<Longrightarrow> P (f (Some (mkb s zs)))"
    and "P (out_of_memory 0 0)"
  shows "P (with_other alloc src f)"
proof (cases src)
  case (Some s)
  with bytes_from_result [of alloc s] assms show ?thesis
    by (auto simp: with_other_def out_of_memory_def other_small_def)
qed (use assms in \<open>simp add: with_other_def\<close>)

lemma append_other_result:
  assumes "fits xs ys" "bytes_alloc_law alloc" "0 \<le> i" "i \<le> j" "j \<le> int (length s)" "length s < 2 ^ 61"
    and "src = None \<and> s = xs \<or> src = Some (mkb s zs)"
  shows "(\<lambda>r. r = out_of_memory 0 0 \<or> (\<exists>zs. r = Ok (mkb (xs @ sub_range s (nat i) (nat j)) zs) \<and>
      fits (xs @ sub_range s (nat i) (nat j)) zs))
    (rt_bind (bytes_room alloc (mkb xs ys) (j - i)) (\<lambda>b.
      rt_bind (bytes_load (other_of b src) i (j - i)) (\<lambda>bs.
      rt_bind (bytes_store b (b_len b) bs) (\<lambda>b. Ok (b\<lparr>b_len := b_len b + (j - i)\<rparr>)))))"
proof -
  have small: "0 \<le> j - i" "j - i < 2 ^ 61" using assms by auto
  let ?bs = "sub_range s (nat i) (nat j)"
  have len: "int (length ?bs) = j - i" using assms by (auto simp: min_def nat_le_iff)
  from bytes_room_result [OF assms(1,2) small] consider
      "bytes_room alloc (mkb xs ys) (j - i) = out_of_memory 0 0"
    | ws where "bytes_room alloc (mkb xs ys) (j - i) = Ok (mkb xs ws)" "fits xs ws" "j - i \<le> int (length ws)"
    by blast
  then show ?thesis
  proof cases
    case (2 ws)
    have other: "bytes_load (other_of (mkb xs ws) src) i (j - i) = Ok ?bs"
      using assms by (auto simp: other_of_def bytes_load_mkb)
    have room: "length ?bs \<le> length ws" using 2(3) len by linarith
    have "rt_bind (bytes_store (mkb xs ws) (int (length xs)) ?bs) (\<lambda>b. Ok (b\<lparr>b_len := b_len b + (j - i)\<rparr>)) =
        Ok (mkb (xs @ ?bs) (drop (length ?bs) ws))"
      using bytes_store_end [OF room, of xs] len by simp
    moreover have "fits (xs @ ?bs) (drop (length ?bs) ws)" using 2(2) room by (auto simp: fits_def)
    ultimately show ?thesis using 2 other by auto
  qed (simp add: out_of_memory_def)
qed

lemma resize_result:
  assumes "fits xs ys" "bytes_alloc_law alloc" "0 \<le> n" "n \<le> 2 ^ 62"
  shows "(\<lambda>r. r = out_of_memory 0 0 \<or>
      (\<exists>zs. r = Ok (mkb (take (nat n) xs @ replicate (nat n - length xs) 0) zs) \<and>
         fits (take (nat n) xs @ replicate (nat n - length xs) 0) zs)) (beans_bytes_resize alloc (mkb xs ys) n line col)"
proof -
  from bytes_grow_result [OF assms(1,2,4)] consider
      "bytes_grow alloc (mkb xs ys) n = out_of_memory 0 0"
    | ws where "bytes_grow alloc (mkb xs ys) n = Ok (mkb xs ws)" "fits xs ws" "n \<le> int (length xs + length ws)"
    by blast
  then show ?thesis
  proof cases
    case (2 ws)
    show ?thesis
    proof (cases "n > int (length xs)")
      case True
      let ?zero = "replicate (nat n - length xs) (0 :: byte)"
      have room: "length ?zero \<le> length ws" using 2(3) by simp
      have n: "int (length xs) + int (length ?zero) = n" "nat (n - int (length xs)) = nat n - length xs" using True by auto
      have "beans_bytes_resize alloc (mkb xs ys) n line col = Ok (mkb (xs @ ?zero) (drop (length ?zero) ws))"
        using True 2(1) bytes_store_end(1) [OF room, of xs] bytes_store_end(2) [OF room, of xs "drop (length ?zero) ws"] n assms(3)
        by (simp add: beans_bytes_resize_def)
      moreover have "fits (xs @ ?zero) (drop (length ?zero) ws)" using 2(2) room by (auto simp: fits_def)
      ultimately show ?thesis using True by auto
    next
      case False
      then have "beans_bytes_resize alloc (mkb xs ys) n line col =
          Ok (mkb (take (nat n) xs) (map Some (drop (nat n) xs) @ ws))"
        using 2(1) assms(3)
        by (simp add: beans_bytes_resize_def mkb_def flip: map_append)
      moreover have "fits (take (nat n) xs) (map Some (drop (nat n) xs) @ ws)"
        using 2(2) False by (auto simp: fits_def)
      ultimately show ?thesis using False by auto
    qed
  qed (use assms(3) in \<open>simp add: beans_bytes_resize_def out_of_memory_def\<close>)
qed

lemma patch_meets:
  assumes "fits xs ys" "0 \<le> i" "i + int (length bs) \<le> int (length xs)"
  shows "bytes_meets (silent (bytes_store (mkb xs ys) i bs)) (patch xs i bs)"
  using assms by (auto simp: bytes_store_inside patch_def fits_def)

lemma patch_refused: "\<not> (0 \<le> i \<and> i + int (length bs) \<le> int (length xs)) \<Longrightarrow> patch xs i bs = None"
  by (auto simp: patch_def)

lemma append_range_meets:
  assumes "fits xs ys" "bytes_alloc_law alloc" "length s < 2 ^ 61"
    and src: "src = None \<and> s = xs \<or> src = Some (mkb s zs)"
  shows "bytes_meets (silent (beans_bytes_append_range alloc (mkb xs ys) src i j 0 0))
    (if 0 \<le> i \<and> i \<le> j \<and> j \<le> int (length s) then Some (xs @ sub_range s (nat i) (nat j), ONone) else None)"
proof (cases "0 \<le> i \<and> i \<le> j \<and> j \<le> int (length s)")
  case True
  have "b_len (other_of (mkb xs ys) src) = int (length s)" using src by (auto simp: other_of_def)
  with True bytes_meets_result [OF append_other_result [OF assms(1,2) _ _ _ assms(3,4), of i j]] show ?thesis
    by (simp add: beans_bytes_append_range_def)
next
  case False
  moreover have "b_len (other_of (mkb xs ys) src) = int (length s)" using src by (auto simp: other_of_def)
  ultimately show ?thesis
    using bytes_refused(5) by (auto simp: beans_bytes_append_range_def)
qed

lemma append_is_range:
  "0 \<le> b_len (other_of b src) \<Longrightarrow>
   beans_bytes_append alloc b src = beans_bytes_append_range alloc b src 0 (b_len (other_of b src)) line col"
  by (simp add: beans_bytes_append_def beans_bytes_append_range_def Let_def)

lemma top_bit_less: "\<not> bit w 63 \<Longrightarrow> unat (w :: u64) < 2 ^ 63"
proof -
  assume "\<not> bit w 63"
  then have "take_bit 63 w = w" by (auto intro!: bit_word_eqI simp: bit_simps less_Suc_eq numeral_eq_Suc)
  with f64_bits_bound [of w] show ?thesis by (simp add: f64_bits_def)
qed

text \<open>A load of fewer than eight bytes is not negative.\<close>

lemma load_le_nonneg:
  assumes "w < 8"
  shows "sint (rt_load_le bs w) = uint (rt_load_le bs w)"
proof -
  have "\<not> bit (rt_load_le bs w) 63" using assms by (simp add: rt_load_le_def bit_load_le_from)
  then have "unat (rt_load_le bs w) < 2 ^ 63" by (rule top_bit_less)
  from sint_small [OF this] show ?thesis by simp
qed

text \<open>One lemma per group of commands.\<close>

lemma append_cmds_meet:
  assumes f: "fits xs ys" and law: "bytes_alloc_law alloc" and legal: "bytes_legal c"
    and c: "c \<in> {BPush v, BAppendStr s, BAppendI64 v, BAppendInt v}"
  shows "bytes_meets (bytes_step alloc (mkb xs ys) c) (bytes_spec xs c)"
proof -
  note append = bytes_meets_result [OF bytes_append_raw_result [OF f law]]
  have "(if v < 0 then [45] else []) @ rev (utoa_tmp (if v < 0 then 0 - u64_of v else u64_of v)) = int_text v"
    "length (int_text v) < 2 ^ 61" if "i64_ok v"
    using rt_itoa_text [OF that] int_text_length [OF that] by (auto simp: rt_itoa_def rt_utoa_text utoa_tmp_text)
  then show ?thesis
    using c legal append [of "[word_of_int v]"] append [of s] append [of "rt_store_le (u64_of v) 8"] append [of "int_text v"]
    by (auto simp: beans_bytes_push_def beans_bytes_append_str_def beans_bytes_append_i64_def length_store_le
        beans_bytes_append_int_text_def)
qed

lemma append_other_cmds_meet:
  assumes f: "fits xs ys" and law: "bytes_alloc_law alloc" and legal: "other_small src"
  shows "bytes_meets (bytes_step alloc (mkb xs ys) (BAppendRange src i j)) (bytes_spec xs (BAppendRange src i j))"
    "bytes_meets (bytes_step alloc (mkb xs ys) (BAppend src)) (bytes_spec xs (BAppend src))"
proof -
  have s: "length xs < 2 ^ 61" using f by (simp add: fits_def)
  have small: "fits s zs \<Longrightarrow> length s < 2 ^ 61" for s zs by (simp add: fits_def)
  show "bytes_meets (bytes_step alloc (mkb xs ys) (BAppendRange src i j)) (bytes_spec xs (BAppendRange src i j))"
    unfolding bytes_step.simps
    by (rule with_other_result [OF law legal, where P = "\<lambda>r. bytes_meets (silent r) _"])
       (use append_range_meets [OF f law s, of None _ i j] append_range_meets [OF f law small] in \<open>auto simp: Let_def\<close>)
  have other: "bytes_meets (silent (beans_bytes_append_range alloc (mkb xs ys) (Some (mkb s zs)) 0 (int (length s)) 0 0))
      (Some (xs @ s, ONone))" if "fits s zs" for s zs
    using append_range_meets [OF f law small [OF that], of "Some (mkb s zs)" zs 0 "int (length s)"] by simp
  show "bytes_meets (bytes_step alloc (mkb xs ys) (BAppend src)) (bytes_spec xs (BAppend src))"
    unfolding bytes_step.simps
    by (rule with_other_result [OF law legal, where P = "\<lambda>r. bytes_meets (silent r) _"])
       (use append_range_meets [OF f law s, of None _ 0 "int (length xs)"] other in
         \<open>auto simp: append_is_range [where line = 0 and col = 0] other_of_def\<close>)
qed

lemma capacity_cmds_meet:
  assumes f: "fits xs ys" and law: "bytes_alloc_law alloc"
  shows "bytes_meets (bytes_step alloc (mkb xs ys) (BReserve n)) (bytes_spec xs (BReserve n))"
    "bytes_meets (bytes_step alloc (mkb xs ys) (BPad n)) (bytes_spec xs (BPad n))"
    "n \<le> 2 ^ 62 \<Longrightarrow> bytes_meets (bytes_step alloc (mkb xs ys) (BResize n)) (bytes_spec xs (BResize n))"
proof -
  show "bytes_meets (bytes_step alloc (mkb xs ys) (BReserve n)) (bytes_spec xs (BReserve n))"
  proof (cases "0 \<le> n \<and> n \<le> 2 ^ 58")
    case True
    then have "n \<le> 2 ^ 62" by auto
    with bytes_grow_result [OF f law this] True show ?thesis by (auto simp: beans_bytes_reserve_def)
  qed (use bytes_refused(4) in \<open>auto simp: beans_bytes_reserve_def\<close>)
  show "bytes_meets (bytes_step alloc (mkb xs ys) (BPad n)) (bytes_spec xs (BPad n))"
  proof (cases "0 \<le> n \<and> n \<le> 64")
    case True
    then have "0 \<le> n" "n < 2 ^ 61" by auto
    from bytes_room_result [OF f law this] True show ?thesis
      by (auto simp: beans_bytes_ensure_padding_def bytes_store_end nat_le_iff fits_def)
  qed (auto simp: beans_bytes_ensure_padding_def)
  show "bytes_meets (bytes_step alloc (mkb xs ys) (BResize n)) (bytes_spec xs (BResize n))" if "n \<le> 2 ^ 62"
  proof (cases "0 \<le> n")
    case True
    with bytes_meets_result [OF resize_result [OF f law True that, of 0 0]] show ?thesis by simp
  qed (use bytes_refused(1) in \<open>simp add: beans_bytes_resize_def\<close>)
qed

lemma write_cmds_meet:
  assumes f: "fits xs ys"
  shows "bytes_meets (bytes_step alloc (mkb xs ys) (BFill v)) (bytes_spec xs (BFill v))"
    "bytes_meets (bytes_step alloc (mkb xs ys) (BSet i v)) (bytes_spec xs (BSet i v))"
    "bytes_meets (bytes_step alloc (mkb xs ys) (BPutU32 i v)) (bytes_spec xs (BPutU32 i v))"
proof -
  show "bytes_meets (bytes_step alloc (mkb xs ys) (BFill v)) (bytes_spec xs (BFill v))"
    using f by (simp add: beans_bytes_fill_def bytes_store_inside fits_def)
  show "bytes_meets (bytes_step alloc (mkb xs ys) (BSet i v)) (bytes_spec xs (BSet i v))"
    using patch_meets [OF f, of i "[word_of_int v]"] bytes_refused(2)
    by (cases "0 \<le> i \<and> i < int (length xs)") (auto simp: beans_bytes_set_def patch_refused)
  show "bytes_meets (bytes_step alloc (mkb xs ys) (BPutU32 i v)) (bytes_spec xs (BPutU32 i v))"
    using patch_meets [OF f, of i "rt_store_le (u64_of v) 4"] bytes_refused(3)
    by (cases "0 \<le> i \<and> i + 4 \<le> int (length xs)")
       (auto simp: beans_bytes_put_u32_def bytes_putw_def patch_refused length_store_le)
qed

lemma read_cmds_meet:
  assumes f: "fits xs ys"
  shows "bytes_meets (bytes_step alloc (mkb xs ys) (BGet i)) (bytes_spec xs (BGet i))"
    "bytes_meets (bytes_step alloc (mkb xs ys) (BGetU32 i)) (bytes_spec xs (BGetU32 i))"
    "bytes_meets (bytes_step alloc (mkb xs ys) BToString) (bytes_spec xs BToString)"
proof -
  show "bytes_meets (bytes_step alloc (mkb xs ys) (BGet i)) (bytes_spec xs (BGet i))"
    using f bytes_refused(8)
    by (cases "0 \<le> i \<and> i < int (length xs)") (auto simp: beans_bytes_get_def bytes_load_one)
  have "nat (i + 4) = nat i + 4" if "0 \<le> i" using that by simp
  then show "bytes_meets (bytes_step alloc (mkb xs ys) (BGetU32 i)) (bytes_spec xs (BGetU32 i))"
    using f bytes_refused(9)
    by (cases "0 \<le> i \<and> i + 4 \<le> int (length xs)")
       (auto simp: beans_bytes_get_u32_def bytes_getw_def bytes_load_mkb load_le_nonneg)
  show "bytes_meets (bytes_step alloc (mkb xs ys) BToString) (bytes_spec xs BToString)"
    using f by (simp add: beans_bytes_to_string_full_def)
qed

lemma copy_cmd_meets:
  assumes f: "fits xs ys" and law: "bytes_alloc_law alloc" and legal: "other_small (Some s)"
  shows "bytes_meets (bytes_step alloc (mkb xs ys) (BCopyFrom s i)) (bytes_spec xs (BCopyFrom s i))"
  unfolding bytes_step.simps
proof (rule with_other_result [OF law legal, where P = "\<lambda>r. bytes_meets (silent r) _"])
  fix s' zs assume "Some s = Some s'" "fits s' zs"
  then show "bytes_meets (silent (beans_bytes_copy_from (mkb xs ys) (Some (mkb s' zs)) i 0 0)) (bytes_spec xs (BCopyFrom s i))"
    using patch_meets [OF f, of i s] bytes_refused(6)
    by (cases "0 \<le> i \<and> i + int (length s) \<le> int (length xs)")
       (auto simp: beans_bytes_copy_from_def other_of_def patch_refused Let_def)
qed simp_all

lemma bytes_step_meets:
  assumes "fits xs ys" "bytes_alloc_law alloc" "bytes_legal c"
  shows "bytes_meets (bytes_step alloc (mkb xs ys) c) (bytes_spec xs c)"
  using assms append_cmds_meet [OF assms] append_other_cmds_meet capacity_cmds_meet write_cmds_meet read_cmds_meet
    copy_cmd_meets
  by (cases c) (simp_all del: bytes_step.simps bytes_spec.simps)

locale bytes_alloc =
  fixes alloc :: "u64 \<Rightarrow> bool"
  assumes law: "bytes_alloc_law alloc"

sublocale bytes_alloc \<subseteq> byte_buffer:
  rt_refinement "bytes_step alloc" bytes_ok content bytes_spec oom_text bytes_legal
proof unfold_locales
  fix s c
  assume ok: "bytes_ok s" and legal: "bytes_legal c"
  then obtain ys where s: "s = mkb (content s) ys" "fits (content s) ys" by (blast elim: bytes_okE)
  from bytes_step_meets [OF s(2) law legal] s(1)
  have meets: "bytes_meets (bytes_step alloc s c) (bytes_spec (content s) c)" by simp
  show "bytes_step alloc s c \<noteq> Fault" using meets by (auto simp: bytes_meets_def)
  fix s' x m line col
  show "bytes_ok s' \<and> bytes_spec (content s) c = Some (content s', x)" if "bytes_step alloc s c = Ok (s', x)"
    using meets that by (simp add: bytes_meets_def)
  show "oom_text m \<or> bytes_spec (content s) c = None" if "bytes_step alloc s c = Panic m line col"
    using meets that by (simp add: bytes_meets_def)
qed

context bytes_alloc
begin

lemmas bytes_program = byte_buffer.run_program

end

interpretation bytes_host: bytes_alloc address_space_alloc
  by unfold_locales (auto simp: bytes_alloc_law_def address_space_alloc_def)

section \<open>Variable-length integers\<close>

text \<open>The encoding as a list: seven bits a byte, least significant first.\<close>

function varint_bytes :: "u64 \<Rightarrow> bstr" where
  "varint_bytes v = (if v \<ge> 0x80 then ucast (v OR 0x80) # varint_bytes (drop_bit 7 v) else [ucast v])"
  by pat_completeness auto
termination by (relation "measure unat") (simp_all add: drop_bit_7_less)

declare varint_bytes.simps [simp del]

lemma varint_push_bytes:
  assumes "fits xs ys" "bytes_alloc_law alloc"
  shows "varint_push alloc (mkb xs ys) v = out_of_memory 0 0 \<or>
    (\<exists>zs. varint_push alloc (mkb xs ys) v = Ok (mkb (xs @ varint_bytes v) zs) \<and> fits (xs @ varint_bytes v) zs)"
  using assms(1)
proof (induction v arbitrary: xs ys rule: varint_bytes.induct)
  case (1 v)
  show ?case
  proof (cases "v \<ge> 0x80")
    case True
    let ?c = "ucast (v OR 0x80) :: byte"
    from bytes_append_raw_result [OF "1.prems" assms(2), of "[?c]"] consider
        "bytes_append_raw alloc (mkb xs ys) [?c] = out_of_memory 0 0"
      | zs where "bytes_append_raw alloc (mkb xs ys) [?c] = Ok (mkb (xs @ [?c]) zs)" "fits (xs @ [?c]) zs"
      by auto
    then show ?thesis
    proof cases
      case (2 zs)
      from "1.IH" [OF True 2(2)] 2(1) True show ?thesis
        by (simp add: varint_push.simps [of _ _ v] varint_bytes.simps [of v])
    qed (use True in \<open>simp add: varint_push.simps [of _ _ v] out_of_memory_def\<close>)
  next
    case False
    with bytes_append_raw_result [OF "1.prems" assms(2), of "[ucast v]"] show ?thesis
      by (simp add: varint_push.simps [of _ _ v] varint_bytes.simps [of v])
  qed
qed

lemma varint_size_bytes: "varint_size_from n v = n + int (length (varint_bytes v)) - 1"
proof (induction n v rule: varint_size_from.induct)
  case (1 n v)
  then show ?case by (subst varint_size_from.simps) (simp add: varint_bytes.simps [of v])
qed

lemma bit_7f: "bit (0x7f :: int) n \<longleftrightarrow> n < 7"
  using bit_mask_iff [of 7 n, where 'a = int] by (auto simp: mask_eq_exp_minus_1)

lemma bit_80: "bit (0x80 :: int) n \<longleftrightarrow> n = 7"
  using bit_exp_iff [of 7 n, where 'a = int] by auto

lemma varint_chunk:
  "(ucast (v OR 0x80 :: u64) :: byte) AND 0x80 \<noteq> 0" "ucast ((ucast (v OR 0x80) :: byte) AND 0x7f) = take_bit 7 v"
proof -
  have "bit ((ucast (v OR 0x80) :: byte) AND 0x80) 7" by (simp add: bit_simps bit_80)
  then show "(ucast (v OR 0x80 :: u64) :: byte) AND 0x80 \<noteq> 0" by (metis bit_0_eq bot_apply bot_bool_def)
  show "ucast ((ucast (v OR 0x80) :: byte) AND 0x7f) = take_bit 7 v"
    by (auto intro!: bit_word_eqI simp: bit_simps bit_80 bit_7f)
qed

lemma varint_last:
  assumes "v < (0x80 :: u64)"
  shows "(ucast v :: byte) AND 0x80 = 0" "ucast ((ucast v :: byte) AND 0x7f) = v"
proof -
  have "drop_bit 7 v = 0" using assms by (simp add: drop_bit_eq_div div_word_less)
  then have v: "take_bit 7 v = v" by (simp add: take_bit_eq_self_iff_drop_bit_eq_0)
  then have "\<not> bit v 7" by (metis bit_take_bit_iff less_irrefl)
  then show "(ucast v :: byte) AND 0x80 = 0" by (auto intro!: bit_word_eqI simp: bit_simps bit_80)
  have "ucast ((ucast v :: byte) AND 0x7f) = take_bit 7 v"
    by (auto intro!: bit_word_eqI simp: bit_simps bit_7f)
  with v show "ucast ((ucast v :: byte) AND 0x7f) = v" by simp
qed

lemma shift_split:
  "push_bit n (take_bit 7 v) OR push_bit (n + 7) (drop_bit 7 v) = push_bit n (v :: u64)"
  by (auto intro!: bit_word_eqI simp: bit_simps)

text \<open>
  Reading back: at a shift that is a multiple of seven with the remaining bits of the word, the
  reader consumes exactly the encoding.
\<close>

lemma varint_bytes_read:
  assumes "shift = 7 * k" "k \<le> 9" "drop_bit (64 - 7 * k) v = 0" "0 \<le> pos"
  shows "varint_read (mkb (pre @ varint_bytes v @ post) ys) pos (int (length pre)) (int shift) acc line col =
    Ok (acc OR push_bit shift v)"
  using assms(1-3)
proof (induction v arbitrary: pre k shift acc rule: varint_bytes.induct)
  case (1 v)
  define xs where "xs = pre @ varint_bytes v @ post"
  have ne: "varint_bytes v \<noteq> []" by (subst varint_bytes.simps) simp
  have in_range: "int (length pre) < int (length xs)" using ne by (cases "varint_bytes v") (simp_all add: xs_def)
  have head: "xs ! length pre = hd (varint_bytes v)" using ne by (simp add: xs_def nth_append hd_conv_nth)
  have load: "bytes_load (mkb xs ys) (int (length pre)) 1 = Ok [hd (varint_bytes v)]"
    using bytes_load_one [of "int (length pre)" xs ys] in_range head by simp
  have shift: "\<not> int shift \<ge> 64" using "1.prems" by simp
  note step = varint_read.simps [of "mkb xs ys" pos "int (length pre)" "int shift" acc line col]
  show ?case
  proof (cases "v \<ge> 0x80")
    case False
    then have vb: "varint_bytes v = [ucast v]" by (subst varint_bytes.simps) simp
    have "varint_read (mkb xs ys) pos (int (length pre)) (int shift) acc line col = Ok (acc OR push_bit shift v)"
      using varint_last [of v] False load in_range shift assms(4) unfolding step vb
      by (simp add: Let_def not_le)
    then show ?thesis unfolding xs_def .
  next
    case True
    let ?c = "ucast (v OR 0x80) :: byte"
    have vb: "varint_bytes v = ?c # varint_bytes (drop_bit 7 v)" using True by (subst varint_bytes.simps) simp
    have k: "k \<le> 8"
    proof (rule ccontr)
      assume "\<not> k \<le> 8"
      then have "k = 9" using "1.prems"(2) by simp
      then have "drop_bit 1 v = 0" using "1.prems"(3) by simp
      then have "unat v div 2 = 0" by (metis drop_bit_eq_div power_one_right unat_0 unat_drop_bit_eq)
      with True show False by (simp add: word_le_nat_alt)
    qed
    have dd: "drop_bit (64 - 7 * Suc k) (drop_bit 7 v) = 0" using "1.prems"(3) k by (simp add: drop_bit_drop_bit)
    have "varint_read (mkb xs ys) pos (int (length pre)) (int shift) acc line col =
        varint_read (mkb xs ys) pos (int (length (pre @ [?c]))) (int (shift + 7)) (acc OR push_bit shift (take_bit 7 v)) line col"
      using varint_chunk [of v] load in_range shift assms(4) unfolding step vb by (simp add: Let_def add.commute)
    also have "\<dots> = Ok ((acc OR push_bit shift (take_bit 7 v)) OR push_bit (shift + 7) (drop_bit 7 v))"
      using "1.IH" [OF True, of "shift + 7" "Suc k" "pre @ [?c]"] "1.prems" k dd by (simp add: xs_def vb)
    finally show ?thesis using shift_split [of shift v] by (simp add: xs_def or.assoc)
  qed
qed

lemma varint_push_total:
  assumes "bytes_ok b" "bytes_alloc_law alloc"
  shows "varint_push alloc b v = out_of_memory 0 0 \<or>
    (\<exists>b'. varint_push alloc b v = Ok b' \<and> bytes_ok b' \<and> content b' = content b @ varint_bytes v)"
  using assms varint_push_bytes by (elim bytes_okE) (metis bytes_ok_mkb content_mkb)

section \<open>CRC-32\<close>

text \<open>The reference: one polynomial division step per bit, no table.\<close>

definition crc_byte :: "u32 \<Rightarrow> byte \<Rightarrow> u32" where
  "crc_byte c x = (crc_shift ^^ 8) (c XOR ucast x)"

lemma and_1_bit: "(c :: u32) AND 1 \<noteq> 0 \<longleftrightarrow> bit c 0"
  by (simp add: and_one_eq bit_0 odd_iff_mod_2_eq_one)

lemma word_bit_lim: "bit (c :: u32) n \<Longrightarrow> n < 32" "bit (x :: byte) n \<Longrightarrow> n < 8"
  using bit_imp_le_length [of c n] bit_imp_le_length [of x n] by auto

lemma xor_zero_iff: "(a :: u32) XOR b = 0 \<longleftrightarrow> a = b"
  by (auto simp: bit_eq_iff bit_xor_iff)

lemma crc_shift_xor: "crc_shift (a XOR b) = crc_shift a XOR crc_shift b"
  unfolding crc_shift_def and_1_bit by (auto simp: bit_xor_iff drop_bit_xor ac_simps)

lemma crc_pow_xor: "(crc_shift ^^ n) (a XOR b) = (crc_shift ^^ n) a XOR (crc_shift ^^ n) b"
  by (induction n) (simp_all add: crc_shift_xor)

lemma crc_pow_low_zero: "take_bit n c = 0 \<Longrightarrow> (crc_shift ^^ n) c = drop_bit n c"
proof (induction n arbitrary: c)
  case (Suc n)
  have b: "\<not> bit c k" if "k < Suc n" for k
    using Suc.prems that by (metis bit_0_eq bit_take_bit_iff bot_apply bot_bool_def)
  have "crc_shift c = drop_bit 1 c" using b [of 0] by (simp add: crc_shift_def and_1_bit)
  moreover have "take_bit n (drop_bit 1 c) = 0"
    using b by (auto intro!: bit_word_eqI simp: bit_simps)
  ultimately show ?case
    using Suc.IH [of "drop_bit 1 c"] by (simp add: funpow_Suc_right drop_bit_drop_bit del: funpow.simps)
qed simp

lemma crc_table_step: "crc_table (c AND 0xFF) XOR drop_bit 8 c = (crc_shift ^^ 8) c"
proof -
  have ff: "(0xFF :: u32) = mask 8" by (simp add: mask_eq_exp_minus_1)
  have split: "c = (c AND 0xFF) XOR (c AND NOT 0xFF)"
    by (auto intro!: bit_word_eqI simp: bit_simps)
  have "bit c (8 + n) \<Longrightarrow> n < 24" for n using word_bit_lim(1) [of c "8 + n"] by simp
  then have hi: "take_bit 8 (c AND NOT 0xFF) = 0" "drop_bit 8 (c AND NOT 0xFF) = drop_bit 8 c"
    unfolding ff by (auto intro!: bit_word_eqI simp: bit_simps simp del: mask_numeral)
  have "(crc_shift ^^ 8) c = (crc_shift ^^ 8) (c AND 0xFF) XOR (crc_shift ^^ 8) (c AND NOT 0xFF)"
    by (subst split) (rule crc_pow_xor)
  also have "(crc_shift ^^ 8) (c AND NOT 0xFF) = drop_bit 8 c" using crc_pow_low_zero [OF hi(1)] hi(2) by simp
  finally show ?thesis by (simp add: crc_table_def)
qed

lemma crc_loop_bytes: "crc_loop c xs = foldl crc_byte c xs"
proof (induction xs arbitrary: c)
  case (Cons x xs)
  have "drop_bit 8 (c XOR ucast x) = drop_bit 8 c"
    by (auto intro!: bit_word_eqI simp: bit_simps dest: word_bit_lim)
  with crc_table_step [of "c XOR ucast x"] Cons show ?case by (simp add: crc_byte_def)
qed simp

text \<open>The step is linear with a trivial kernel, hence injective.\<close>

lemma crc_shift_eq_0: "crc_shift d = 0 \<longleftrightarrow> d = 0"
proof
  assume z: "crc_shift d = 0"
  have poly: "bit (0xEDB88320 :: u32) 31" by simp
  have "\<not> bit d 0"
  proof
    assume "bit d 0"
    with z have "0xEDB88320 XOR drop_bit 1 d = 0" by (simp add: crc_shift_def and_1_bit)
    then have "\<not> bit (0xEDB88320 XOR drop_bit 1 d) 31" by simp
    with poly show False by (auto simp: bit_xor_iff bit_drop_bit_eq dest: word_bit_lim)
  qed
  with z have "drop_bit 1 d = 0" by (simp add: crc_shift_def and_1_bit)
  then have "\<not> bit (drop_bit 1 d) n" for n by (simp only: bit_0_eq bot_apply bot_bool_def not_False_eq_True)
  then have "\<not> bit d (Suc n)" for n by (simp add: bit_drop_bit_eq)
  with \<open>\<not> bit d 0\<close> have "\<not> bit d n" for n by (cases n) auto
  then show "d = 0" by (auto intro!: bit_word_eqI)
qed (simp add: crc_shift_def)

lemma crc_pow_inj: "(crc_shift ^^ n) a = (crc_shift ^^ n) b \<longleftrightarrow> a = b"
proof -
  have z: "(crc_shift ^^ n) d = 0 \<longleftrightarrow> d = 0" for d by (induction n) (simp_all add: crc_shift_eq_0)
  have "(crc_shift ^^ n) a = (crc_shift ^^ n) b \<longleftrightarrow> (crc_shift ^^ n) (a XOR b) = 0"
    unfolding crc_pow_xor xor_zero_iff ..
  also have "\<dots> \<longleftrightarrow> a = b" by (simp only: z xor_zero_iff)
  finally show ?thesis .
qed

lemma crc_fold_inj: "foldl crc_byte c xs = foldl crc_byte d xs \<longleftrightarrow> c = d"
proof (induction xs arbitrary: c d)
  case (Cons x xs)
  have "c XOR y = d XOR y \<longleftrightarrow> c = d" for y
    by (auto simp: bit_eq_iff bit_xor_iff)
  then show ?case using Cons by (simp add: crc_byte_def crc_pow_inj)
qed simp

text \<open>Up to four bytes act as one word on the register.\<close>

fun le32 :: "bstr \<Rightarrow> u32" where
  "le32 [] = 0"
| "le32 (x # xs) = ucast x XOR push_bit 8 (le32 xs)"

lemma bit_le32: "bit (le32 xs) n \<longleftrightarrow> n < 32 \<and> n div 8 < length xs \<and> bit (xs ! (n div 8)) (n mod 8)"
proof (induction xs arbitrary: n)
  case (Cons x xs)
  show ?case
  proof (cases "n < 8")
    case True
    then show ?thesis by (simp add: bit_simps)
  next
    case False
    then have "n div 8 = Suc ((n - 8) div 8)" "n mod 8 = (n - 8) mod 8"
      by (simp_all add: le_div_geq le_mod_geq)
    with False show ?thesis using Cons [of "n - 8"]
      by (auto simp: bit_simps dest: word_bit_lim)
  qed
qed simp

lemma le32_inj:
  assumes "length xs = length ys" "length xs \<le> 4" "le32 xs = le32 ys"
  shows "xs = ys"
proof (rule nth_equalityI)
  fix i assume i: "i < length xs"
  show "xs ! i = ys ! i"
  proof (rule bit_word_eqI)
    fix k assume "k < LENGTH(8)"
    then have "k < 8" by simp
    then have k: "(i * 8 + k) div 8 = i" "(i * 8 + k) mod 8 = k" "i * 8 + k < 32" using i assms(2) by auto
    have "bit (le32 xs) (i * 8 + k) \<longleftrightarrow> bit (le32 ys) (i * 8 + k)" using assms(3) by simp
    then show "bit (xs ! i) k \<longleftrightarrow> bit (ys ! i) k" using i assms(1) unfolding bit_le32 k by (simp add: k)
  qed
qed (rule assms(1))

lemma crc_burst:
  "length xs \<le> 4 \<Longrightarrow> foldl crc_byte c xs = (crc_shift ^^ (8 * length xs)) (c XOR le32 xs)"
proof (induction xs arbitrary: c)
  case (Cons x xs)
  have hi: "take_bit 8 (push_bit 8 (le32 xs)) = 0" by (auto intro!: bit_word_eqI simp: bit_simps)
  have "drop_bit 8 (push_bit 8 (le32 xs)) = le32 xs"
    using Cons.prems by (auto intro!: bit_word_eqI simp: bit_simps bit_le32)
  then have p: "(crc_shift ^^ 8) (push_bit 8 (le32 xs)) = le32 xs" using crc_pow_low_zero [OF hi] by simp
  have "(crc_shift ^^ (8 * length (x # xs))) (c XOR le32 (x # xs)) =
      (crc_shift ^^ (8 * length xs)) ((crc_shift ^^ 8) (c XOR le32 (x # xs)))"
    by (simp add: add.commute [of 8] funpow_add)
  also have "(crc_shift ^^ 8) (c XOR le32 (x # xs)) = crc_byte c x XOR le32 xs"
    by (simp add: crc_byte_def crc_pow_xor p flip: xor.assoc)
  finally show ?case using Cons by simp
qed simp

section \<open>Properties\<close>


definition demo_bytes :: bbytes where
  "demo_bytes = mkb [1, 2] (replicate 6 None)"

lemma demo_bytes_ok: "bytes_ok demo_bytes" "content demo_bytes = [1, 2]"
  by (simp_all add: demo_bytes_def fits_def)

lemma address_space_bytes_law: "bytes_alloc_law address_space_alloc"
  by (rule bytes_host.law)


text \<open>C31. Variable-length integers: whatever the buffer holds, appending a 64-bit integer and reading
  at the old end gives the integer back, and the append lengthens the buffer by exactly
  \<^verbatim>\<open>varint_size\<close> bytes; later appends do not disturb it.\<close>

theorem varint_roundtrip:
  assumes "bytes_alloc_law alloc" "bytes_ok b" "i64_ok x"
    and "beans_bytes_append_varint alloc b x = Ok b'" "beans_bytes_append_str alloc b' tail = Ok b''" "length tail < 2 ^ 61"
  shows "beans_bytes_get_varint b'' (b_len b) line col = Ok x \<and>
    b_len b' = b_len b + beans_bytes_varint_size x \<and> content b'' = content b' @ tail"
proof -
  obtain ys where b: "b = mkb (content b) ys" "fits (content b) ys" using assms(2) by (rule bytes_okE)
  let ?v = "u64_of x"
  from varint_push_bytes [OF b(2) assms(1), of ?v] assms(4) obtain zs where
    b': "b' = mkb (content b @ varint_bytes ?v) zs" "fits (content b @ varint_bytes ?v) zs"
    unfolding beans_bytes_append_varint_def b(1) [symmetric] by (auto simp: out_of_memory_def)
  from bytes_append_raw_result [OF b'(2) assms(1,6)] assms(5) obtain ws where
    b'': "b'' = mkb (content b @ varint_bytes ?v @ tail) ws"
    unfolding beans_bytes_append_str_def b'(1) by (auto simp: out_of_memory_def)
  have len: "b_len b = int (length (content b))" using assms(2) by (rule b_len_content)
  have "varint_read b'' (b_len b) (b_len b) 0 0 line col = Ok ?v"
    using varint_bytes_read [of 0 0 ?v "b_len b" "content b" tail ws 0 line col] unfolding b'' len by simp
  moreover have "sint ?v = x" using assms(3) by (simp add: i64_ok_word u64_of_def)
  ultimately have "beans_bytes_get_varint b'' (b_len b) line col = Ok x"
    using len by (simp add: beans_bytes_get_varint_def)
  moreover have "b_len b' = b_len b + beans_bytes_varint_size x"
    unfolding b'(1) len by (simp add: beans_bytes_varint_size_def varint_size_bytes)
  moreover have "content b'' = content b' @ tail" unfolding b'' b'(1) by simp
  ultimately show ?thesis by blast
qed

theorem varint_roundtrip_witness:
  "beans_bytes_get_varint
     \<lparr>b_data = [Some 1, Some 2, Some 0xAC, Some 2, Some 7, None, None, None], b_len = 5, b_cap = 8\<rparr> 2 0 0 = Ok 300"
proof -
  define b' where "b' = \<lparr>b_data = [Some 1, Some 2, Some 0xAC, Some 2, None, None, None, None], b_len = 4, b_cap = 8\<rparr>"
  define b'' where "b'' = \<lparr>b_data = [Some 1, Some 2, Some 0xAC, Some 2, Some 7, None, None, None], b_len = 5, b_cap = 8\<rparr>"
  have "beans_bytes_append_varint address_space_alloc demo_bytes 300 = Ok b'"
    "beans_bytes_append_str address_space_alloc b' [7] = Ok b''" "b_len demo_bytes = 2"
    unfolding b'_def b''_def by code_simp+
  with varint_roundtrip [OF address_space_bytes_law demo_bytes_ok(1), of 300 b' "[7]" b'' 0 0] show ?thesis
    unfolding b''_def by (simp add: i64_ok_def)
qed

text \<open>C32. The table-driven CRC-32 is the bit-by-bit division by the reflected IEEE polynomial, over any
  range of the buffer; out of range it panics.\<close>

theorem crc32_is_bitwise:
  assumes "bytes_ok b" "0 \<le> i" "i \<le> j" "j \<le> b_len b"
  shows "beans_bytes_crc32 b i j line col =
    Ok (uint (foldl (\<lambda>c x. (crc_shift ^^ 8) (c XOR ucast x)) 0xFFFFFFFF
                (sub_range (content b) (nat i) (nat j)) XOR 0xFFFFFFFF))"
proof -
  obtain ys where b: "b = mkb (content b) ys" using assms(1) by (rule bytes_okE)
  have "bytes_load b i (j - i) = Ok (sub_range (content b) (nat i) (nat j))"
    using assms b_len_content [OF assms(1)] by (subst b) (simp add: bytes_load_mkb)
  with assms show ?thesis by (simp add: beans_bytes_crc32_def crc_loop_bytes crc_byte_def [abs_def])
qed

theorem crc32_is_bitwise_witness:
  "beans_bytes_crc32 demo_bytes 0 2 0 0 = Ok 0xB6CC4292"
proof -
  have "uint (foldl (\<lambda>c x. (crc_shift ^^ 8) (c XOR ucast x)) 0xFFFFFFFF [1, 2 :: byte] XOR 0xFFFFFFFF) = 0xB6CC4292"
    by code_simp
  moreover have "0 \<le> (0 :: int)" "0 \<le> (2 :: int)" "2 \<le> b_len demo_bytes" by (simp_all add: demo_bytes_def)
  moreover have "sub_range [1, 2 :: byte] (nat 0) (nat 2) = [1, 2]" by (simp add: sub_range_def)
  ultimately show ?thesis
    using crc32_is_bitwise [OF demo_bytes_ok(1), of 0 2 0 0] demo_bytes_ok(2) by simp
qed

text \<open>C33. CRC-32 detects every burst of up to four bytes: two buffers of the same length that agree
  outside a window of four bytes and differ inside it have different checksums.\<close>

theorem crc32_detects_bursts:
  assumes "bytes_ok a" "bytes_ok b" "content a = pre @ xs @ post" "content b = pre @ ys @ post"
    "length xs = length ys" "length xs \<le> 4" "xs \<noteq> ys"
  shows "\<exists>c d. beans_bytes_crc32 a 0 (b_len a) line col = Ok c \<and> beans_bytes_crc32 b 0 (b_len b) line col = Ok d \<and> c \<noteq> d"
proof -
  have crc: "beans_bytes_crc32 b 0 (b_len b) line col = Ok (uint (foldl crc_byte 0xFFFFFFFF (content b) XOR 0xFFFFFFFF))"
    if "bytes_ok b" for b
  proof -
    obtain ys where "b = mkb (content b) ys" using \<open>bytes_ok b\<close> by (rule bytes_okE)
    then have "bytes_load b 0 (b_len b) = Ok (content b)" "0 \<le> b_len b"
      by (metis bytes_load_all mkb_fields(2), metis mkb_fields(2) of_nat_0_le_iff)
    then show ?thesis by (simp add: beans_bytes_crc32_def crc_loop_bytes)
  qed
  let ?c = "foldl crc_byte 0xFFFFFFFF pre"
  have "le32 xs \<noteq> le32 ys" using le32_inj assms by blast
  then have "?c XOR le32 xs \<noteq> ?c XOR le32 ys" by (auto simp: bit_eq_iff bit_xor_iff)
  then have "foldl crc_byte ?c xs \<noteq> foldl crc_byte ?c ys"
    using crc_burst [of xs ?c] crc_burst [of ys ?c] assms(5,6) by (simp add: crc_pow_inj)
  then have "foldl crc_byte 0xFFFFFFFF (content a) \<noteq> foldl crc_byte 0xFFFFFFFF (content b)"
    using assms(3,4) by (simp add: crc_fold_inj)
  then have "foldl crc_byte 0xFFFFFFFF (content a) XOR 0xFFFFFFFF \<noteq> foldl crc_byte 0xFFFFFFFF (content b) XOR 0xFFFFFFFF"
    by (auto simp: bit_eq_iff bit_xor_iff)
  then show ?thesis using crc [OF assms(1)] crc [OF assms(2)] by (auto simp: word_uint_eq_iff)
qed

theorem crc32_detects_bursts_witness:
  "\<exists>c d. beans_bytes_crc32 demo_bytes 0 2 0 0 = Ok c \<and>
     beans_bytes_crc32 (mkb [1, 3] (replicate 6 None)) 0 2 0 0 = Ok d \<and> c \<noteq> d"
proof -
  have "bytes_ok (mkb [1, 3] (replicate 6 None))" by (simp add: fits_def)
  from crc32_detects_bursts [OF demo_bytes_ok(1) this, of "[1]" "[2]" "[]" "[3]" 0 0] show ?thesis
    by (simp add: demo_bytes_def)
qed

text \<open>Fixed-width access: a store of one to eight bytes at a position where it fits is read back
  there, truncated to the width, every other byte keeps its value, and no capacity changes; a
  position where it does not fit panics, also when the sum of position and width would overflow.\<close>

theorem fixed_width_roundtrip:
  assumes "bytes_ok b" "1 \<le> w" "w \<le> 8"
  shows "(0 \<le> pos \<and> pos \<le> b_len b - w \<longrightarrow>
      (\<exists>b'. bytes_putw b pos w v what line col = Ok b' \<and> bytes_ok b' \<and> b_len b' = b_len b \<and> b_cap b' = b_cap b \<and>
        bytes_getw b' pos w what line col = Ok (sint (take_bit (8 * nat w) (u64_of v))) \<and>
        (\<forall>i. i < length (content b) \<and> (int i < pos \<or> pos + w \<le> int i) \<longrightarrow> content b' ! i = content b ! i))) \<and>
    (\<not> (0 \<le> pos \<and> pos \<le> b_len b - w) \<longrightarrow>
      (\<exists>m. bytes_putw b pos w v what line col = Panic m line col) \<and>
      (\<exists>m. bytes_getw b pos w what line col = Panic m line col))"
proof (intro conjI impI)
  assume pos: "0 \<le> pos \<and> pos \<le> b_len b - w"
  obtain ys where b: "b = mkb (content b) ys" "fits (content b) ys" using assms(1) by (rule bytes_okE)
  let ?xs = "content b" and ?bs = "rt_store_le (u64_of v) (nat w)"
  let ?ys = "take (nat pos) ?xs @ ?bs @ drop (nat pos + nat w) ?xs"
  have len: "b_len b = int (length ?xs)" "nat pos + nat w \<le> length ?xs" "length ?bs = nat w" "nat pos < length ?xs"
    using b_len_content [OF assms(1)] pos assms by (auto simp: length_store_le)
  have ly: "length ?ys = length ?xs" using len by simp
  have put: "bytes_putw b pos w v what line col = Ok (mkb ?ys ys)"
    using bytes_store_inside [of pos ?bs ?xs ys] pos len assms b(1) by (simp add: bytes_putw_def)
  have "sub_range ?ys (nat pos) (nat (pos + w)) = ?bs"
    using pos len(2-4) assms(2) by (simp add: sub_range_def nat_add_distrib)
  then have get: "bytes_getw (mkb ?ys ys) pos w what line col = Ok (sint (take_bit (8 * nat w) (u64_of v)))"
    using pos len assms ly load_store_le [of "nat w" "u64_of v" "[]"]
    by (simp add: bytes_getw_def bytes_load_mkb)
  have "fits ?ys ys" using b(2) ly by (simp only: fits_def)
  moreover have "?ys ! i = ?xs ! i" if "i < length ?xs" "int i < pos \<or> pos + w \<le> int i" for i
    using that len assms pos by (auto simp: nth_append min_def)
  ultimately show "\<exists>b'. bytes_putw b pos w v what line col = Ok b' \<and> bytes_ok b' \<and> b_len b' = b_len b \<and> b_cap b' = b_cap b \<and>
        bytes_getw b' pos w what line col = Ok (sint (take_bit (8 * nat w) (u64_of v))) \<and>
        (\<forall>i. i < length (content b) \<and> (int i < pos \<or> pos + w \<le> int i) \<longrightarrow> content b' ! i = content b ! i)"
    using put get ly len(1) by (intro exI [of _ "mkb ?ys ys"]) (subst (3) b, simp)
next
  assume "\<not> (0 \<le> pos \<and> pos \<le> b_len b - w)"
  moreover have "\<exists>m. (bytes_woob what op pos (b_len b) line col :: 'x rt) = Panic m line col" for op
    by (rule bytes_panics)
  ultimately show "\<exists>m. bytes_putw b pos w v what line col = Panic m line col"
    "\<exists>m. bytes_getw b pos w what line col = Panic m line col"
    by (auto simp: bytes_putw_def bytes_getw_def bytes_panics)
qed

theorem fixed_width_roundtrip_witness:
  "(\<exists>b'. bytes_putw demo_bytes 0 2 0x1234 ''u16'' 0 0 = Ok b' \<and>
     bytes_getw b' 0 2 ''u16'' 0 0 = Ok (sint (take_bit (8 * nat 2) (u64_of 0x1234)))) \<and>
   (\<exists>m. bytes_getw demo_bytes (2 ^ 63 - 1) 2 ''u16'' 0 0 = Panic m 0 0)"
  using fixed_width_roundtrip [OF demo_bytes_ok(1), of 2 0 "0x1234" "''u16''" 0 0]
    fixed_width_roundtrip [OF demo_bytes_ok(1), of 2 "2 ^ 63 - 1" 0 "''u16''" 0 0]
  by (auto simp: demo_bytes_def)

text \<open>Resizing has no ceiling: a size above \<open>2 ^ 62\<close> drives the doubling of the capacity out of the
  signed range before the allocator is asked, where \<^verbatim>\<open>beans_bytes_reserve\<close> panics.\<close>

theorem resize_doubling_overflows:
  assumes "bytes_ok b" "b_cap b = 2 ^ k" "2 ^ 62 < n"
  shows "beans_bytes_resize alloc b n line col = Fault \<and>
    beans_bytes_reserve alloc b n line col = Panic (asc ''reserve capacity too large'') line col"
proof -
  have double: "bytes_double cap n = Some Fault" if "cap = 2 ^ j" "j \<le> 62" for cap j
    using that
  proof (induction "62 - j" arbitrary: j cap)
    case 0
    then show ?case using assms(3) by (subst bytes_double.simps) (simp add: i64_ok_def)
  next
    case (Suc m)
    have "j < 62" "bytes_double (2 ^ Suc j) n = Some Fault" using Suc.hyps(1) [of "Suc j"] Suc.hyps(2) by simp_all
    moreover have "(2 :: int) ^ Suc j \<le> 2 ^ 62" using \<open>j < 62\<close> by (intro power_increasing) auto
    ultimately show ?case using Suc.prems assms(3)
      by (subst bytes_double.simps) (simp add: i64_ok_def mult.commute)
  qed
  have "k \<le> 62"
  proof (rule ccontr)
    assume "\<not> k \<le> 62"
    then have "(2 :: int) ^ 61 \<le> 2 ^ k" by (intro power_increasing) auto
    with assms show False by (simp add: bytes_ok_def)
  qed
  with double [OF assms(2)] assms have "bytes_grow alloc b n = Fault"
    by (simp add: bytes_grow_def bytes_ok_def)
  then show ?thesis using assms(3) by (simp add: beans_bytes_resize_def beans_bytes_reserve_def)
qed

theorem resize_doubling_overflows_witness:
  "beans_bytes_resize address_space_alloc demo_bytes (2 ^ 62 + 1) 0 0 = Fault"
  using resize_doubling_overflows [OF demo_bytes_ok(1), of 3 "2 ^ 62 + 1" address_space_alloc 0 0]
  by (simp add: demo_bytes_def)

end
