(* ===== verification/Rt_Utf8.thy ===== *)
theory Rt_Utf8
  imports Rt_Strings
begin

unbundle bit_operations_syntax

text \<open>
  Text measured in characters and in terminal columns (\<^verbatim>\<open>src/runtime/beans_rt.c\<close>): the split of
  a string into UTF-8 sequences (\<^verbatim>\<open>beans_str_chars\<close>, \<^verbatim>\<open>beans_str_count_chars\<close>), the validating
  decoder (\<^verbatim>\<open>width_decode\<close>), the three generated range tables with their binary search and the
  column count (\<^verbatim>\<open>beans_width_utf8\<close>).

  A scalar is an \<^verbatim>\<open>unsigned int\<close>, here a \<^typ>\<open>32 word\<close>; a position is a natural number or, where the
  code computes below zero, an integer. Reading a byte or a table row that does not exist is \<open>Fault\<close>.
  The theorems: splitting loses nothing and finds exactly the encodings of well-formed text, the
  decoder accepts exactly the encodings of Unicode scalar values, the binary search is membership, and
  the width of a text lies between zero and its byte length.
\<close>

section \<open>Characters\<close>

text \<open>The length a lead byte announces; \<open>d\<close> stands for a byte that is not a lead byte.\<close>

definition lead_len :: "nat \<Rightarrow> byte \<Rightarrow> nat" where
  "lead_len d c = (if c < 0x80 then 1
     else if drop_bit 5 c = 0x6 then 2
     else if drop_bit 4 c = 0xE then 3
     else if drop_bit 3 c = 0x1E then 4 else d)"

text \<open>The bytes the character at \<open>i\<close> takes, in a range that ends at \<open>stop\<close>.\<close>

definition char_len :: "bstr \<Rightarrow> nat \<Rightarrow> nat \<Rightarrow> nat" where
  "char_len s i stop =
     (let n = lead_len 1 (s ! i) in
      if i + n > stop then 1
      else if list_all (\<lambda>k. drop_bit 6 (s ! (i + k)) = 0x2) [1..<n] then n else 1)"

lemma char_len_pos [simp]: "0 < char_len s i stop"
  by (simp add: char_len_def lead_len_def Let_def)

function chars_from :: "bstr \<Rightarrow> nat \<Rightarrow> bstr list" where
  "chars_from s i =
     (if i < length s
      then let n = char_len s i (length s) in sub_range s i (i + n) # chars_from s (i + n)
      else [])"
  by auto
termination
  by (relation "measure (\<lambda>(s, i). length s - i)") (auto intro: diff_less_mono2)

declare chars_from.simps [simp del]

definition beans_str_chars :: "bstr \<Rightarrow> bstr list" where
  "beans_str_chars s = chars_from s 0"

function count_chars_loop :: "bstr \<Rightarrow> nat \<Rightarrow> nat \<Rightarrow> int \<Rightarrow> int" where
  "count_chars_loop s i to n =
     (if i < to then count_chars_loop s (i + char_len s i to) to (n + 1) else n)"
  by auto
termination
  by (relation "measure (\<lambda>(s, i, to, n). to - i)") (auto intro: diff_less_mono2)

declare count_chars_loop.simps [simp del]

definition beans_str_count_chars :: "bstr \<Rightarrow> int \<Rightarrow> int \<Rightarrow> int \<Rightarrow> int \<Rightarrow> int rt" where
  "beans_str_count_chars s from to line col =
     (if from < 0 \<or> to < from \<or> to > int (length s)
      then rt_panic 112 ''character range %lld..%lld out of range (len %lld)''
             [ArgI64 from, ArgI64 to, ArgI64 (int (length s))] line col
      else Ok (count_chars_loop s (nat from) (nat to) 0))"

section \<open>Display width\<close>

text \<open>The generated tables, row by row; each row is an inclusive range of scalars.\<close>

definition width_zero_ranges :: "(u32 \<times> u32) list" where
  "width_zero_ranges =
    [(0x0, 0x1F), (0x7F, 0x9F), (0x300, 0x36F), (0x483, 0x489), (0x591, 0x5BD), (0x5BF, 0x5BF),
     (0x5C1, 0x5C2), (0x5C4, 0x5C5), (0x5C7, 0x5C7), (0x600, 0x605), (0x610, 0x61A),
     (0x61C, 0x61C), (0x64B, 0x65F), (0x670, 0x670), (0x6D6, 0x6DD), (0x6DF, 0x6E4),
     (0x6E7, 0x6E8), (0x6EA, 0x6ED), (0x70F, 0x70F), (0x711, 0x711), (0x730, 0x74A),
     (0x7A6, 0x7B0), (0x7EB, 0x7F3), (0x7FD, 0x7FD), (0x816, 0x819), (0x81B, 0x823),
     (0x825, 0x827), (0x829, 0x82D), (0x859, 0x85B), (0x890, 0x891), (0x897, 0x89F),
     (0x8CA, 0x902), (0x93A, 0x93A), (0x93C, 0x93C), (0x941, 0x948), (0x94D, 0x94D),
     (0x951, 0x957), (0x962, 0x963), (0x981, 0x981), (0x9BC, 0x9BC), (0x9C1, 0x9C4),
     (0x9CD, 0x9CD), (0x9E2, 0x9E3), (0x9FE, 0x9FE), (0xA01, 0xA02), (0xA3C, 0xA3C),
     (0xA41, 0xA42), (0xA47, 0xA48), (0xA4B, 0xA4D), (0xA51, 0xA51), (0xA70, 0xA71),
     (0xA75, 0xA75), (0xA81, 0xA82), (0xABC, 0xABC), (0xAC1, 0xAC5), (0xAC7, 0xAC8),
     (0xACD, 0xACD), (0xAE2, 0xAE3), (0xAFA, 0xAFF), (0xB01, 0xB01), (0xB3C, 0xB3C),
     (0xB3F, 0xB3F), (0xB41, 0xB44), (0xB4D, 0xB4D), (0xB55, 0xB56), (0xB62, 0xB63),
     (0xB82, 0xB82), (0xBC0, 0xBC0), (0xBCD, 0xBCD), (0xC00, 0xC00), (0xC04, 0xC04),
     (0xC3C, 0xC3C), (0xC3E, 0xC40), (0xC46, 0xC48), (0xC4A, 0xC4D), (0xC55, 0xC56),
     (0xC62, 0xC63), (0xC81, 0xC81), (0xCBC, 0xCBC), (0xCBF, 0xCBF), (0xCC6, 0xCC6),
     (0xCCC, 0xCCD), (0xCE2, 0xCE3), (0xD00, 0xD01), (0xD3B, 0xD3C), (0xD41, 0xD44),
     (0xD4D, 0xD4D), (0xD62, 0xD63), (0xD81, 0xD81), (0xDCA, 0xDCA), (0xDD2, 0xDD4),
     (0xDD6, 0xDD6), (0xE31, 0xE31), (0xE34, 0xE3A), (0xE47, 0xE4E), (0xEB1, 0xEB1),
     (0xEB4, 0xEBC), (0xEC8, 0xECE), (0xF18, 0xF19), (0xF35, 0xF35), (0xF37, 0xF37),
     (0xF39, 0xF39), (0xF71, 0xF7E), (0xF80, 0xF84), (0xF86, 0xF87), (0xF8D, 0xF97),
     (0xF99, 0xFBC), (0xFC6, 0xFC6), (0x102D, 0x1030), (0x1032, 0x1037), (0x1039, 0x103A),
     (0x103D, 0x103E), (0x1058, 0x1059), (0x105E, 0x1060), (0x1071, 0x1074), (0x1082, 0x1082),
     (0x1085, 0x1086), (0x108D, 0x108D), (0x109D, 0x109D), (0x1160, 0x11FF), (0x135D, 0x135F),
     (0x1712, 0x1714), (0x1732, 0x1733), (0x1752, 0x1753), (0x1772, 0x1773), (0x17B4, 0x17B5),
     (0x17B7, 0x17BD), (0x17C6, 0x17C6), (0x17C9, 0x17D3), (0x17DD, 0x17DD), (0x180B, 0x180F),
     (0x1885, 0x1886), (0x18A9, 0x18A9), (0x1920, 0x1922), (0x1927, 0x1928), (0x1932, 0x1932),
     (0x1939, 0x193B), (0x1A17, 0x1A18), (0x1A1B, 0x1A1B), (0x1A56, 0x1A56), (0x1A58, 0x1A5E),
     (0x1A60, 0x1A60), (0x1A62, 0x1A62), (0x1A65, 0x1A6C), (0x1A73, 0x1A7C), (0x1A7F, 0x1A7F),
     (0x1AB0, 0x1ADD), (0x1AE0, 0x1AEB), (0x1B00, 0x1B03), (0x1B34, 0x1B34), (0x1B36, 0x1B3A),
     (0x1B3C, 0x1B3C), (0x1B42, 0x1B42), (0x1B6B, 0x1B73), (0x1B80, 0x1B81), (0x1BA2, 0x1BA5),
     (0x1BA8, 0x1BA9), (0x1BAB, 0x1BAD), (0x1BE6, 0x1BE6), (0x1BE8, 0x1BE9), (0x1BED, 0x1BED),
     (0x1BEF, 0x1BF1), (0x1C2C, 0x1C33), (0x1C36, 0x1C37), (0x1CD0, 0x1CD2), (0x1CD4, 0x1CE0),
     (0x1CE2, 0x1CE8), (0x1CED, 0x1CED), (0x1CF4, 0x1CF4), (0x1CF8, 0x1CF9), (0x1DC0, 0x1DFF),
     (0x200B, 0x200F), (0x202A, 0x202E), (0x2060, 0x2064), (0x2066, 0x206F), (0x20D0, 0x20F0),
     (0x2CEF, 0x2CF1), (0x2D7F, 0x2D7F), (0x2DE0, 0x2DFF), (0x302A, 0x302D), (0x3099, 0x309A),
     (0xA66F, 0xA672), (0xA674, 0xA67D), (0xA69E, 0xA69F), (0xA6F0, 0xA6F1), (0xA802, 0xA802),
     (0xA806, 0xA806), (0xA80B, 0xA80B), (0xA825, 0xA826), (0xA82C, 0xA82C), (0xA8C4, 0xA8C5),
     (0xA8E0, 0xA8F1), (0xA8FF, 0xA8FF), (0xA926, 0xA92D), (0xA947, 0xA951), (0xA980, 0xA982),
     (0xA9B3, 0xA9B3), (0xA9B6, 0xA9B9), (0xA9BC, 0xA9BD), (0xA9E5, 0xA9E5), (0xAA29, 0xAA2E),
     (0xAA31, 0xAA32), (0xAA35, 0xAA36), (0xAA43, 0xAA43), (0xAA4C, 0xAA4C), (0xAA7C, 0xAA7C),
     (0xAAB0, 0xAAB0), (0xAAB2, 0xAAB4), (0xAAB7, 0xAAB8), (0xAABE, 0xAABF), (0xAAC1, 0xAAC1),
     (0xAAEC, 0xAAED), (0xAAF6, 0xAAF6), (0xABE5, 0xABE5), (0xABE8, 0xABE8), (0xABED, 0xABED),
     (0xD7B0, 0xD7C6), (0xD7CB, 0xD7FB), (0xFB1E, 0xFB1E), (0xFE00, 0xFE0F), (0xFE20, 0xFE2F),
     (0xFEFF, 0xFEFF), (0xFFF9, 0xFFFB), (0x101FD, 0x101FD), (0x102E0, 0x102E0),
     (0x10376, 0x1037A), (0x10A01, 0x10A03), (0x10A05, 0x10A06), (0x10A0C, 0x10A0F),
     (0x10A38, 0x10A3A), (0x10A3F, 0x10A3F), (0x10AE5, 0x10AE6), (0x10D24, 0x10D27),
     (0x10D69, 0x10D6D), (0x10EAB, 0x10EAC), (0x10EFA, 0x10EFF), (0x10F46, 0x10F50),
     (0x10F82, 0x10F85), (0x11001, 0x11001), (0x11038, 0x11046), (0x11070, 0x11070),
     (0x11073, 0x11074), (0x1107F, 0x11081), (0x110B3, 0x110B6), (0x110B9, 0x110BA),
     (0x110BD, 0x110BD), (0x110C2, 0x110C2), (0x110CD, 0x110CD), (0x11100, 0x11102),
     (0x11127, 0x1112B), (0x1112D, 0x11134), (0x11173, 0x11173), (0x11180, 0x11181),
     (0x111B6, 0x111BE), (0x111C9, 0x111CC), (0x111CF, 0x111CF), (0x1122F, 0x11231),
     (0x11234, 0x11234), (0x11236, 0x11237), (0x1123E, 0x1123E), (0x11241, 0x11241),
     (0x112DF, 0x112DF), (0x112E3, 0x112EA), (0x11300, 0x11301), (0x1133B, 0x1133C),
     (0x11340, 0x11340), (0x11366, 0x1136C), (0x11370, 0x11374), (0x113BB, 0x113C0),
     (0x113CE, 0x113CE), (0x113D0, 0x113D0), (0x113D2, 0x113D2), (0x113E1, 0x113E2),
     (0x11438, 0x1143F), (0x11442, 0x11444), (0x11446, 0x11446), (0x1145E, 0x1145E),
     (0x114B3, 0x114B8), (0x114BA, 0x114BA), (0x114BF, 0x114C0), (0x114C2, 0x114C3),
     (0x115B2, 0x115B5), (0x115BC, 0x115BD), (0x115BF, 0x115C0), (0x115DC, 0x115DD),
     (0x11633, 0x1163A), (0x1163D, 0x1163D), (0x1163F, 0x11640), (0x116AB, 0x116AB),
     (0x116AD, 0x116AD), (0x116B0, 0x116B5), (0x116B7, 0x116B7), (0x1171D, 0x1171D),
     (0x1171F, 0x1171F), (0x11722, 0x11725), (0x11727, 0x1172B), (0x1182F, 0x11837),
     (0x11839, 0x1183A), (0x1193B, 0x1193C), (0x1193E, 0x1193E), (0x11943, 0x11943),
     (0x119D4, 0x119D7), (0x119DA, 0x119DB), (0x119E0, 0x119E0), (0x11A01, 0x11A0A),
     (0x11A33, 0x11A38), (0x11A3B, 0x11A3E), (0x11A47, 0x11A47), (0x11A51, 0x11A56),
     (0x11A59, 0x11A5B), (0x11A8A, 0x11A96), (0x11A98, 0x11A99), (0x11B60, 0x11B60),
     (0x11B62, 0x11B64), (0x11B66, 0x11B66), (0x11C30, 0x11C36), (0x11C38, 0x11C3D),
     (0x11C3F, 0x11C3F), (0x11C92, 0x11CA7), (0x11CAA, 0x11CB0), (0x11CB2, 0x11CB3),
     (0x11CB5, 0x11CB6), (0x11D31, 0x11D36), (0x11D3A, 0x11D3A), (0x11D3C, 0x11D3D),
     (0x11D3F, 0x11D45), (0x11D47, 0x11D47), (0x11D90, 0x11D91), (0x11D95, 0x11D95),
     (0x11D97, 0x11D97), (0x11EF3, 0x11EF4), (0x11F00, 0x11F01), (0x11F36, 0x11F3A),
     (0x11F40, 0x11F40), (0x11F42, 0x11F42), (0x11F5A, 0x11F5A), (0x13430, 0x13440),
     (0x13447, 0x13455), (0x1611E, 0x16129), (0x1612D, 0x1612F), (0x16AF0, 0x16AF4),
     (0x16B30, 0x16B36), (0x16D63, 0x16D63), (0x16D67, 0x16D6A), (0x16F4F, 0x16F4F),
     (0x16F8F, 0x16F92), (0x16FE4, 0x16FE4), (0x1BC9D, 0x1BC9E), (0x1BCA0, 0x1BCA3),
     (0x1CF00, 0x1CF2D), (0x1CF30, 0x1CF46), (0x1D167, 0x1D169), (0x1D173, 0x1D182),
     (0x1D185, 0x1D18B), (0x1D1AA, 0x1D1AD), (0x1D242, 0x1D244), (0x1DA00, 0x1DA36),
     (0x1DA3B, 0x1DA6C), (0x1DA75, 0x1DA75), (0x1DA84, 0x1DA84), (0x1DA9B, 0x1DA9F),
     (0x1DAA1, 0x1DAAF), (0x1E000, 0x1E006), (0x1E008, 0x1E018), (0x1E01B, 0x1E021),
     (0x1E023, 0x1E024), (0x1E026, 0x1E02A), (0x1E08F, 0x1E08F), (0x1E130, 0x1E136),
     (0x1E2AE, 0x1E2AE), (0x1E2EC, 0x1E2EF), (0x1E4EC, 0x1E4EF), (0x1E5EE, 0x1E5EF),
     (0x1E6E3, 0x1E6E3), (0x1E6E6, 0x1E6E6), (0x1E6EE, 0x1E6EF), (0x1E6F5, 0x1E6F5),
     (0x1E8D0, 0x1E8D6), (0x1E944, 0x1E94A), (0x1F3FB, 0x1F3FF), (0xE0001, 0xE0001),
     (0xE0020, 0xE007F), (0xE0100, 0xE01EF)]"

definition width_wide_ranges :: "(u32 \<times> u32) list" where
  "width_wide_ranges =
    [(0x1100, 0x115F), (0x231A, 0x231B), (0x2329, 0x232A), (0x23E9, 0x23EC), (0x23F0, 0x23F0),
     (0x23F3, 0x23F3), (0x25FD, 0x25FE), (0x2614, 0x2615), (0x2630, 0x2637), (0x2648, 0x2653),
     (0x267F, 0x267F), (0x268A, 0x268F), (0x2693, 0x2693), (0x26A1, 0x26A1), (0x26AA, 0x26AB),
     (0x26BD, 0x26BE), (0x26C4, 0x26C5), (0x26CE, 0x26CE), (0x26D4, 0x26D4), (0x26EA, 0x26EA),
     (0x26F2, 0x26F3), (0x26F5, 0x26F5), (0x26FA, 0x26FA), (0x26FD, 0x26FD), (0x2705, 0x2705),
     (0x270A, 0x270B), (0x2728, 0x2728), (0x274C, 0x274C), (0x274E, 0x274E), (0x2753, 0x2755),
     (0x2757, 0x2757), (0x2795, 0x2797), (0x27B0, 0x27B0), (0x27BF, 0x27BF), (0x2B1B, 0x2B1C),
     (0x2B50, 0x2B50), (0x2B55, 0x2B55), (0x2E80, 0x2E99), (0x2E9B, 0x2EF3), (0x2F00, 0x2FD5),
     (0x2FF0, 0x3029), (0x302E, 0x303E), (0x3041, 0x3096), (0x309B, 0x30FF), (0x3105, 0x312F),
     (0x3131, 0x318E), (0x3190, 0x31E5), (0x31EF, 0x321E), (0x3220, 0x3247), (0x3250, 0xA48C),
     (0xA490, 0xA4C6), (0xA960, 0xA97C), (0xAC00, 0xD7A3), (0xF900, 0xFAFF), (0xFE10, 0xFE19),
     (0xFE30, 0xFE52), (0xFE54, 0xFE66), (0xFE68, 0xFE6B), (0xFF01, 0xFF60), (0xFFE0, 0xFFE6),
     (0x16FE0, 0x16FE3), (0x16FF0, 0x16FF6), (0x17000, 0x18CD5), (0x18CFF, 0x18D1E),
     (0x18D80, 0x18DF2), (0x1AFF0, 0x1AFF3), (0x1AFF5, 0x1AFFB), (0x1AFFD, 0x1AFFE),
     (0x1B000, 0x1B122), (0x1B132, 0x1B132), (0x1B150, 0x1B152), (0x1B155, 0x1B155),
     (0x1B164, 0x1B167), (0x1B170, 0x1B2FB), (0x1D300, 0x1D356), (0x1D360, 0x1D376),
     (0x1F004, 0x1F004), (0x1F0CF, 0x1F0CF), (0x1F18E, 0x1F18E), (0x1F191, 0x1F19A),
     (0x1F1E6, 0x1F202), (0x1F210, 0x1F23B), (0x1F240, 0x1F248), (0x1F250, 0x1F251),
     (0x1F260, 0x1F265), (0x1F300, 0x1F320), (0x1F32D, 0x1F335), (0x1F337, 0x1F37C),
     (0x1F37E, 0x1F393), (0x1F3A0, 0x1F3CA), (0x1F3CF, 0x1F3D3), (0x1F3E0, 0x1F3F0),
     (0x1F3F4, 0x1F3F4), (0x1F3F8, 0x1F3FA), (0x1F400, 0x1F43E), (0x1F440, 0x1F440),
     (0x1F442, 0x1F4FC), (0x1F4FF, 0x1F53D), (0x1F54B, 0x1F54E), (0x1F550, 0x1F567),
     (0x1F57A, 0x1F57A), (0x1F595, 0x1F596), (0x1F5A4, 0x1F5A4), (0x1F5FB, 0x1F64F),
     (0x1F680, 0x1F6C5), (0x1F6CC, 0x1F6CC), (0x1F6D0, 0x1F6D2), (0x1F6D5, 0x1F6D8),
     (0x1F6DC, 0x1F6DF), (0x1F6EB, 0x1F6EC), (0x1F6F4, 0x1F6FC), (0x1F7E0, 0x1F7EB),
     (0x1F7F0, 0x1F7F0), (0x1F90C, 0x1F93A), (0x1F93C, 0x1F945), (0x1F947, 0x1F9FF),
     (0x1FA70, 0x1FA7C), (0x1FA80, 0x1FA8A), (0x1FA8E, 0x1FAC6), (0x1FAC8, 0x1FAC8),
     (0x1FACD, 0x1FADC), (0x1FADF, 0x1FAEA), (0x1FAEF, 0x1FAF8), (0x20000, 0x2FFFD),
     (0x30000, 0x3FFFD)]"

definition width_pict_ranges :: "(u32 \<times> u32) list" where
  "width_pict_ranges =
    [(0xA9, 0xA9), (0xAE, 0xAE), (0x203C, 0x203C), (0x2049, 0x2049), (0x2122, 0x2122),
     (0x2139, 0x2139), (0x2194, 0x2199), (0x21A9, 0x21AA), (0x231A, 0x231B), (0x2328, 0x2328),
     (0x23CF, 0x23CF), (0x23E9, 0x23F3), (0x23F8, 0x23FA), (0x24C2, 0x24C2), (0x25AA, 0x25AB),
     (0x25B6, 0x25B6), (0x25C0, 0x25C0), (0x25FB, 0x25FE), (0x2600, 0x2604), (0x260E, 0x260E),
     (0x2611, 0x2611), (0x2614, 0x2615), (0x2618, 0x2618), (0x261D, 0x261D), (0x2620, 0x2620),
     (0x2622, 0x2623), (0x2626, 0x2626), (0x262A, 0x262A), (0x262E, 0x262F), (0x2638, 0x263A),
     (0x2640, 0x2640), (0x2642, 0x2642), (0x2648, 0x2653), (0x265F, 0x2660), (0x2663, 0x2663),
     (0x2665, 0x2666), (0x2668, 0x2668), (0x267B, 0x267B), (0x267E, 0x267F), (0x2692, 0x2697),
     (0x2699, 0x2699), (0x269B, 0x269C), (0x26A0, 0x26A1), (0x26A7, 0x26A7), (0x26AA, 0x26AB),
     (0x26B0, 0x26B1), (0x26BD, 0x26BE), (0x26C4, 0x26C5), (0x26C8, 0x26C8), (0x26CE, 0x26CF),
     (0x26D1, 0x26D1), (0x26D3, 0x26D4), (0x26E9, 0x26EA), (0x26F0, 0x26F5), (0x26F7, 0x26FA),
     (0x26FD, 0x26FD), (0x2702, 0x2702), (0x2705, 0x2705), (0x2708, 0x270D), (0x270F, 0x270F),
     (0x2712, 0x2712), (0x2714, 0x2714), (0x2716, 0x2716), (0x271D, 0x271D), (0x2721, 0x2721),
     (0x2728, 0x2728), (0x2733, 0x2734), (0x2744, 0x2744), (0x2747, 0x2747), (0x274C, 0x274C),
     (0x274E, 0x274E), (0x2753, 0x2755), (0x2757, 0x2757), (0x2763, 0x2764), (0x2795, 0x2797),
     (0x27A1, 0x27A1), (0x27B0, 0x27B0), (0x27BF, 0x27BF), (0x2934, 0x2935), (0x2B05, 0x2B07),
     (0x2B1B, 0x2B1C), (0x2B50, 0x2B50), (0x2B55, 0x2B55), (0x3030, 0x3030), (0x303D, 0x303D),
     (0x3297, 0x3297), (0x3299, 0x3299), (0x1F004, 0x1F004), (0x1F02C, 0x1F02F),
     (0x1F094, 0x1F09F), (0x1F0AF, 0x1F0B0), (0x1F0C0, 0x1F0C0), (0x1F0CF, 0x1F0D0),
     (0x1F0F6, 0x1F0FF), (0x1F170, 0x1F171), (0x1F17E, 0x1F17F), (0x1F18E, 0x1F18E),
     (0x1F191, 0x1F19A), (0x1F1AE, 0x1F1E5), (0x1F201, 0x1F20F), (0x1F21A, 0x1F21A),
     (0x1F22F, 0x1F22F), (0x1F232, 0x1F23A), (0x1F23C, 0x1F23F), (0x1F249, 0x1F25F),
     (0x1F266, 0x1F321), (0x1F324, 0x1F393), (0x1F396, 0x1F397), (0x1F399, 0x1F39B),
     (0x1F39E, 0x1F3F0), (0x1F3F3, 0x1F3F5), (0x1F3F7, 0x1F3FA), (0x1F400, 0x1F4FD),
     (0x1F4FF, 0x1F53D), (0x1F549, 0x1F54E), (0x1F550, 0x1F567), (0x1F56F, 0x1F570),
     (0x1F573, 0x1F57A), (0x1F587, 0x1F587), (0x1F58A, 0x1F58D), (0x1F590, 0x1F590),
     (0x1F595, 0x1F596), (0x1F5A4, 0x1F5A5), (0x1F5A8, 0x1F5A8), (0x1F5B1, 0x1F5B2),
     (0x1F5BC, 0x1F5BC), (0x1F5C2, 0x1F5C4), (0x1F5D1, 0x1F5D3), (0x1F5DC, 0x1F5DE),
     (0x1F5E1, 0x1F5E1), (0x1F5E3, 0x1F5E3), (0x1F5E8, 0x1F5E8), (0x1F5EF, 0x1F5EF),
     (0x1F5F3, 0x1F5F3), (0x1F5FA, 0x1F64F), (0x1F680, 0x1F6C5), (0x1F6CB, 0x1F6D2),
     (0x1F6D5, 0x1F6E5), (0x1F6E9, 0x1F6E9), (0x1F6EB, 0x1F6F0), (0x1F6F3, 0x1F6FF),
     (0x1F7DA, 0x1F7FF), (0x1F80C, 0x1F80F), (0x1F848, 0x1F84F), (0x1F85A, 0x1F85F),
     (0x1F888, 0x1F88F), (0x1F8AE, 0x1F8AF), (0x1F8BC, 0x1F8BF), (0x1F8C2, 0x1F8CF),
     (0x1F8D9, 0x1F8FF), (0x1F90C, 0x1F93A), (0x1F93C, 0x1F945), (0x1F947, 0x1F9FF),
     (0x1FA58, 0x1FA5F), (0x1FA6E, 0x1FAFF), (0x1FC00, 0x1FFFD)]"

text \<open>The binary search; \<open>low\<close> and \<open>high\<close> are signed, so that an empty range is \<open>high < low\<close>.\<close>

function range_search :: "(u32 \<times> u32) list \<Rightarrow> u32 \<Rightarrow> int \<Rightarrow> int \<Rightarrow> bool rt" where
  "range_search ranges cp low high =
     (if low \<le> high then
        let mid = low + (high - low) div 2 in
        if mid < 0 \<or> int (length ranges) \<le> mid then Fault
        else if cp < fst (ranges ! nat mid) then range_search ranges cp low (mid - 1)
        else if cp > snd (ranges ! nat mid) then range_search ranges cp (mid + 1) high
        else Ok True
      else Ok False)"
  by auto
termination
  by (relation "measure (\<lambda>(ranges, cp, low, high). nat (high + 1 - low))") auto

declare range_search.simps [simp del]

definition width_in_ranges :: "(u32 \<times> u32) list \<Rightarrow> int \<Rightarrow> u32 \<Rightarrow> bool rt" where
  "width_in_ranges ranges count cp = range_search ranges cp 0 (count - 1)"

definition WIDTH_COUNT :: "(u32 \<times> u32) list \<Rightarrow> int" where
  "WIDTH_COUNT table = int (length table)"

definition width_of_scalar :: "u32 \<Rightarrow> int rt" where
  "width_of_scalar cp =
     (if cp < 0x80 then Ok (if cp < 0x20 \<or> cp = 0x7F then 0 else 1)
      else rt_bind (width_in_ranges width_zero_ranges (WIDTH_COUNT width_zero_ranges) cp) (\<lambda>zero.
        if zero then Ok 0
        else rt_bind (width_in_ranges width_wide_ranges (WIDTH_COUNT width_wide_ranges) cp) (\<lambda>wide.
          Ok (if wide then 2 else 1))))"

text \<open>
  One decoded step: the bytes it spans, the scalar and whether the byte was bad. \<open>p\<close> is the text from
  the current position on.
\<close>

definition byte_at :: "bstr \<Rightarrow> nat \<Rightarrow> byte rt" where
  "byte_at p k = (if k < length p then Ok (p ! k) else Fault)"

definition lead_bits :: "nat \<Rightarrow> byte \<Rightarrow> u32" where
  "lead_bits n c = ucast c AND drop_bit (n + 1) 0xFF"

definition six_more :: "u32 \<Rightarrow> byte \<Rightarrow> u32" where
  "six_more cp t = push_bit 6 cp OR ucast (t AND 0x3F)"

function decode_tail :: "bstr \<Rightarrow> nat \<Rightarrow> nat \<Rightarrow> u32 \<Rightarrow> u32 option rt" where
  "decode_tail p n k cp =
     (if k < n then
        rt_bind (byte_at p k) (\<lambda>t.
          if drop_bit 6 t \<noteq> 0x2 then Ok None
          else decode_tail p n (k + 1) (six_more cp t))
      else Ok (Some cp))"
  by auto
termination
  by (relation "measure (\<lambda>(p, n, k, cp). n - k)") auto

declare decode_tail.simps [simp del]

definition decode_refused :: "nat \<Rightarrow> u32 \<Rightarrow> bool" where
  "decode_refused n cp \<longleftrightarrow> cp > 0x10FFFF \<or> (cp \<ge> 0xD800 \<and> cp \<le> 0xDFFF) \<or>
     (n = 2 \<and> cp < 0x80) \<or> (n = 3 \<and> cp < 0x800) \<or> (n = 4 \<and> cp < 0x10000)"

definition width_decode :: "bstr \<Rightarrow> int \<Rightarrow> (nat \<times> u32 \<times> bool) rt" where
  "width_decode p n =
     rt_bind (byte_at p 0) (\<lambda>c.
       let k = lead_len 0 c in
       if k = 1 then Ok (1, ucast c, False)
       else if k = 0 \<or> int k > n then Ok (1, 0xFFFD, True)
       else rt_bind (decode_tail p k 1 (lead_bits k c)) (\<lambda>r.
         case r of None \<Rightarrow> Ok (1, 0xFFFD, True)
         | Some cp \<Rightarrow> if decode_refused k cp then Ok (1, 0xFFFD, True) else Ok (k, cp, False)))"

text \<open>The locals of the column count.\<close>

record width_state =
  w_total :: int
  w_joined :: bool
  w_regional :: bool
  w_prev_pict :: bool
  w_prev_width :: int

definition width_step :: "width_state \<Rightarrow> u32 \<Rightarrow> bool \<Rightarrow> width_state rt" where
  "width_step st cp bad =
     (if bad then
        Ok (st\<lparr>w_total := w_total st + 1, w_joined := False, w_regional := False,
               w_prev_pict := False, w_prev_width := 1\<rparr>)
      else if cp = 0x200D then
        Ok (st\<lparr>w_joined := True, w_regional := False, w_prev_pict := False\<rparr>)
      else if cp = 0xFE0F \<or> cp = 0xFE0E then
        let wanted = (if cp = 0xFE0F then 2 else 1);
            st' = (if w_prev_pict st \<and> w_prev_width st \<noteq> wanted
                   then st\<lparr>w_total := w_total st + (wanted - w_prev_width st), w_prev_width := wanted\<rparr>
                   else st)
        in Ok (st'\<lparr>w_joined := False, w_prev_pict := False\<rparr>)
      else
        rt_bind (width_of_scalar cp) (\<lambda>w0.
          let flag = (cp \<ge> 0x1F1E6 \<and> cp \<le> 0x1F1FF);
              regional = (flag \<and> \<not> w_regional st);
              w1 = (if flag \<and> \<not> regional then 0 else w0);
              w = (if w_joined st then 0 else w1)
          in rt_bind (if w \<noteq> 0
                      then width_in_ranges width_pict_ranges (WIDTH_COUNT width_pict_ranges) cp
                      else Ok False) (\<lambda>pict.
            Ok (st\<lparr>w_total := w_total st + w, w_joined := False, w_regional := regional,
                   w_prev_pict := pict, w_prev_width := w\<rparr>))))"

text \<open>
  The walk advances by what the decoder reports. Every report is at least one byte; a report of zero
  bytes, where the C loop would stay in place, is \<open>Fault\<close>, and the theorems show it never happens.
\<close>

function width_loop :: "bstr \<Rightarrow> nat \<Rightarrow> width_state \<Rightarrow> int rt" where
  "width_loop p i st =
     (if i < length p then
        case width_decode (drop i p) (int (length p - i)) of
          Ok (k, cp, bad) \<Rightarrow>
            if k = 0 then Fault
            else (case width_step st cp bad of
                Ok st' \<Rightarrow> width_loop p (i + k) st'
              | Panic m line col \<Rightarrow> Panic m line col
              | Fault \<Rightarrow> Fault)
        | Panic m line col \<Rightarrow> Panic m line col
        | Fault \<Rightarrow> Fault
      else Ok (w_total st))"
  by auto
termination
  by (relation "measure (\<lambda>(p, i, st). length p - i)") (auto intro: diff_less_mono2)

declare width_loop.simps [simp del]

definition beans_width_utf8 :: "bstr option \<Rightarrow> int rt" where
  "beans_width_utf8 p =
     (case p of None \<Rightarrow> Ok 0
      | Some s \<Rightarrow> width_loop s 0 \<lparr>w_total = 0, w_joined = False, w_regional = False,
                                    w_prev_pict = False, w_prev_width = 0\<rparr>)"

definition beans_str_width :: "bstr \<Rightarrow> int rt" where
  "beans_str_width s = beans_width_utf8 (Some s)"

section \<open>The binary search is membership\<close>

text \<open>A table whose rows are non-empty, disjoint and in ascending order.\<close>

fun ascending :: "(u32 \<times> u32) list \<Rightarrow> bool" where
  "ascending [] \<longleftrightarrow> True"
| "ascending [(a, b)] \<longleftrightarrow> a \<le> b"
| "ascending ((a, b) # (c, d) # rows) \<longleftrightarrow> a \<le> b \<and> b < c \<and> ascending ((c, d) # rows)"

definition covers :: "(u32 \<times> u32) list \<Rightarrow> u32 \<Rightarrow> bool" where
  "covers table cp \<longleftrightarrow> list_ex (\<lambda>(lo, hi). lo \<le> cp \<and> cp \<le> hi) table"

lemma ascending_row: "ascending t \<Longrightarrow> i < length t \<Longrightarrow> fst (t ! i) \<le> snd (t ! i)"
proof (induction t arbitrary: i rule: ascending.induct)
  case (3 a b c d rows)
  then show ?case by (cases i) auto
qed auto

lemma ascending_next: "ascending t \<Longrightarrow> Suc i < length t \<Longrightarrow> snd (t ! i) < fst (t ! Suc i)"
proof (induction t arbitrary: i rule: ascending.induct)
  case (3 a b c d rows)
  then show ?case by (cases i) auto
qed auto

lemma ascending_apart:
  assumes "ascending t" "i < j" "j < length t"
  shows "snd (t ! i) < fst (t ! j)"
  using assms(2,3)
proof (induction j)
  case (Suc j)
  have last: "snd (t ! j) < fst (t ! Suc j)" using ascending_next [OF assms(1)] Suc.prems by simp
  show ?case
  proof (cases "i = j")
    case False
    with Suc have "snd (t ! i) < fst (t ! j)" by simp
    also have "\<dots> \<le> snd (t ! j)" using ascending_row [OF assms(1)] Suc.prems by simp
    finally show ?thesis using last by simp
  qed (use last in simp)
qed simp

lemma covers_nth: "covers t cp \<longleftrightarrow> (\<exists>i<length t. fst (t ! i) \<le> cp \<and> cp \<le> snd (t ! i))"
  by (simp add: covers_def list_ex_length case_prod_beta)

lemma range_search_covers:
  assumes "ascending t" "0 \<le> low" "high < int (length t)"
    and "\<And>i. int i < low \<Longrightarrow> i < length t \<Longrightarrow> snd (t ! i) < cp"
    and "\<And>i. high < int i \<Longrightarrow> i < length t \<Longrightarrow> cp < fst (t ! i)"
  shows "range_search t cp low high = Ok (covers t cp)"
  using assms
proof (induction t cp low high rule: range_search.induct)
  case (1 t cp low high)
  note asc = "1.prems"(1) and below = "1.prems"(4) and above = "1.prems"(5)
  show ?case
  proof (cases "low \<le> high")
    case True
    define mid where "mid = low + (high - low) div 2"
    have mid: "low \<le> mid" "mid \<le> high" using True by (auto simp: mid_def)
    then have inside: "0 \<le> mid" "mid < int (length t)" "nat mid < length t"
      using "1.prems"(2,3) by auto
    consider (left) "cp < fst (t ! nat mid)" | (right) "\<not> cp < fst (t ! nat mid)" "cp > snd (t ! nat mid)"
      | (hit) "fst (t ! nat mid) \<le> cp" "cp \<le> snd (t ! nat mid)" by force
    then show ?thesis
    proof cases
      case left
      have "range_search t cp low (mid - 1) = Ok (covers t cp)"
      proof (rule "1.IH"(1) [OF True mid_def])
        show "cp < fst (t ! i)" if "mid - 1 < int i" "i < length t" for i
        proof (cases "i = nat mid")
          case False
          with that inside have "nat mid < i" by linarith
          from ascending_apart [OF asc this that(2)] ascending_row [OF asc inside(3)] left
          show ?thesis by simp
        qed (use left in simp)
      qed (use left inside "1.prems" mid in auto)
      then show ?thesis using True left inside
        by (subst range_search.simps) (simp add: mid_def [symmetric] Let_def)
    next
      case right
      have "range_search t cp (mid + 1) high = Ok (covers t cp)"
      proof (rule "1.IH"(2) [OF True mid_def])
        show "snd (t ! i) < cp" if "int i < mid + 1" "i < length t" for i
        proof (cases "i = nat mid")
          case False
          with that inside have "i < nat mid" by linarith
          from ascending_apart [OF asc this inside(3)] ascending_row [OF asc inside(3)] right
          show ?thesis by simp
        qed (use right in simp)
      qed (use right inside "1.prems" mid in auto)
      then show ?thesis using True right inside
        by (subst range_search.simps) (simp add: mid_def [symmetric] Let_def)
    next
      case hit
      then have "covers t cp" using inside(3) by (auto simp: covers_nth)
      then show ?thesis using True hit inside
        by (subst range_search.simps) (auto simp: mid_def [symmetric] Let_def)
    qed
  next
    case False
    have "\<not> covers t cp"
    proof
      assume "covers t cp"
      then obtain i where i: "i < length t" "fst (t ! i) \<le> cp" "cp \<le> snd (t ! i)" by (auto simp: covers_nth)
      show False
      proof (cases "int i < low")
        case True with below [OF True i(1)] i show False by simp
      next
        case False
        with \<open>\<not> low \<le> high\<close> have "high < int i" by simp
        from above [OF this i(1)] i show False by simp
      qed
    qed
    with False show ?thesis by (subst range_search.simps) simp
  qed
qed

locale range_table =
  fixes table :: "(u32 \<times> u32) list"
  assumes rows_ascending: "ascending table"
begin

lemma search_is_membership: "width_in_ranges table (WIDTH_COUNT table) cp = Ok (covers table cp)"
  unfolding width_in_ranges_def WIDTH_COUNT_def
  by (rule range_search_covers [OF rows_ascending]) auto

end

interpretation zero_table: range_table width_zero_ranges
  by unfold_locales (simp add: width_zero_ranges_def)

interpretation wide_table: range_table width_wide_ranges
  by unfold_locales (simp add: width_wide_ranges_def)

interpretation pict_table: range_table width_pict_ranges
  by unfold_locales (simp add: width_pict_ranges_def)

lemmas table_search = zero_table.search_is_membership wide_table.search_is_membership
  pict_table.search_is_membership

section \<open>The decoder accepts exactly UTF-8\<close>

text \<open>The encoding of a scalar value, as the standard tabulates it, and what a scalar value is.\<close>

definition utf8_encode :: "u32 \<Rightarrow> bstr" where
  "utf8_encode cp = map of_nat
     (let n = unat cp in
      if n < 0x80 then [n]
      else if n < 0x800 then [0xC0 + n div 64, 0x80 + n mod 64]
      else if n < 0x10000 then [0xE0 + n div 4096, 0x80 + n div 64 mod 64, 0x80 + n mod 64]
      else [0xF0 + n div 262144, 0x80 + n div 4096 mod 64, 0x80 + n div 64 mod 64, 0x80 + n mod 64])"

definition scalar_value :: "u32 \<Rightarrow> bool" where
  "scalar_value cp \<longleftrightarrow> cp \<le> 0x10FFFF \<and> \<not> (0xD800 \<le> cp \<and> cp \<le> 0xDFFF)"

text \<open>The bit tests of the code as arithmetic on the byte values.\<close>

lemma byte_drop_bit:
  assumes "m < 256"
  shows "drop_bit k (c :: byte) = of_nat m \<longleftrightarrow> unat c div 2 ^ k = m"
proof -
  have "unat (drop_bit k c) = unat c div 2 ^ k"
    unfolding unsigned_drop_bit_eq by (simp add: drop_bit_eq_div take_bit_nat_eq_self unat_byte_bound)
  moreover have "unat (of_nat m :: byte) = m" using assms by (simp add: unat_of_nat)
  ultimately show ?thesis by (metis unsigned_word_eqI)
qed

lemma lead_len_unat:
  "lead_len d c = (if unat c < 128 then 1 else if unat c div 32 = 6 then 2
     else if unat c div 16 = 14 then 3 else if unat c div 8 = 30 then 4 else d)"
  using byte_drop_bit [of 6 5 c] byte_drop_bit [of 14 4 c] byte_drop_bit [of 30 3 c]
  by (simp add: lead_len_def word_less_nat_alt)

lemma continuation_unat: "drop_bit 6 (t :: byte) = 2 \<longleftrightarrow> unat t div 64 = 2"
  using byte_drop_bit [of 2 6 t] by simp

lemma payload_unat: "unat ((c :: u32) AND mask k) = unat c mod 2 ^ k"
  unfolding take_bit_eq_mask [symmetric] unsigned_take_bit_eq by (simp add: take_bit_eq_mod)

lemma low_mask: "(0x3F :: byte) = mask 6" "drop_bit 3 (0xFF :: u32) = mask 5"
  "drop_bit 4 (0xFF :: u32) = mask 4" "drop_bit 5 (0xFF :: u32) = mask 3"
  by (simp_all add: mask_eq_exp_minus_1)

lemma unat_ucast_u32: "unat (ucast (c :: byte) :: u32) = unat c"
  by (simp add: unsigned_ucast_eq take_bit_nat_eq_self_iff order.strict_trans2 [OF unat_byte_bound])

lemma append_six_bits:
  assumes "unat cp < 2 ^ 26"
  shows "unat (six_more cp t) = unat cp * 64 + unat t mod 64"
proof -
  have "push_bit 6 cp AND ucast (t AND 0x3F) = (0 :: u32)"
    by (rule bit_eqI) (auto simp: bit_simps low_mask(1))
  then have "push_bit 6 cp OR ucast (t AND 0x3F) = push_bit 6 cp + (ucast (t AND 0x3F) :: u32)"
    by (simp add: disjunctive_add_eq_or)
  moreover have "unat (ucast (t AND 0x3F) :: u32) = unat t mod 64"
    unfolding low_mask(1) unat_ucast_u32 take_bit_eq_mask [symmetric] unsigned_take_bit_eq
    by (simp add: take_bit_eq_mod)
  moreover have "unat (push_bit 6 cp) = unat cp * 64"
    using assms unfolding unsigned_push_bit_eq by (simp add: push_bit_eq_mult take_bit_eq_mod)
  ultimately show ?thesis using assms by (simp add: six_more_def unat_word_ariths)
qed

lemma unat_lead_bits:
  "unat (lead_bits 2 c) = unat c mod 32" "unat (lead_bits 3 c) = unat c mod 16"
  "unat (lead_bits 4 c) = unat c mod 8"
proof -
  have "2 + 1 = (3 :: nat)" "3 + 1 = (4 :: nat)" "4 + 1 = (5 :: nat)" by simp_all
  then show "unat (lead_bits 2 c) = unat c mod 32" "unat (lead_bits 3 c) = unat c mod 16"
    "unat (lead_bits 4 c) = unat c mod 8"
    unfolding lead_bits_def by (simp_all only: low_mask payload_unat unat_ucast_u32) simp_all
qed

text \<open>The value of the tail after a lead byte, and the decoder on each length.\<close>

definition is_cont :: "byte \<Rightarrow> bool" where
  "is_cont t \<longleftrightarrow> unat t div 64 = 2"

lemma byte_at_Cons [simp]: "byte_at (c # p) 0 = Ok c" "byte_at (c # p) (Suc k) = byte_at p k"
  by (simp_all add: byte_at_def)

lemma byte_at_numeral [simp]: "byte_at (c # p) (numeral k) = byte_at p (pred_numeral k)"
  by (simp add: numeral_eq_Suc)

lemma decode_tail_2:
  "decode_tail (c # t # p) 2 1 cp = Ok (if is_cont t then Some (six_more cp t) else None)"
  by (simp add: decode_tail.simps is_cont_def continuation_unat)

lemma decode_tail_3:
  "decode_tail (c # t # u # p) 3 1 cp =
     Ok (if is_cont t \<and> is_cont u then Some (six_more (six_more cp t) u) else None)"
  by (simp add: decode_tail.simps is_cont_def continuation_unat)

lemma decode_tail_4:
  "decode_tail (c # t # u # v # p) 4 1 cp =
     Ok (if is_cont t \<and> is_cont u \<and> is_cont v
         then Some (six_more (six_more (six_more cp t) u) v) else None)"
  by (simp add: decode_tail.simps is_cont_def continuation_unat)

definition seq2 :: "byte \<Rightarrow> byte \<Rightarrow> u32" where
  "seq2 c t = six_more (lead_bits 2 c) t"

definition seq3 :: "byte \<Rightarrow> byte \<Rightarrow> byte \<Rightarrow> u32" where
  "seq3 c t u = six_more (six_more (lead_bits 3 c) t) u"

definition seq4 :: "byte \<Rightarrow> byte \<Rightarrow> byte \<Rightarrow> byte \<Rightarrow> u32" where
  "seq4 c t u v = six_more (six_more (six_more (lead_bits 4 c) t) u) v"

lemma small_mods: "n mod 32 < (2::nat) ^ 26" "n mod 16 < (2::nat) ^ 26" "n mod 8 < (2::nat) ^ 26"
  "n mod 16 * 64 + m mod 64 < (2::nat) ^ 26" "n mod 8 * 64 + m mod 64 < (2::nat) ^ 26"
  "(n mod 8 * 64 + m mod 64) * 64 + l mod 64 < (2::nat) ^ 26"
  using mod_less_divisor [of 32 n] mod_less_divisor [of 16 n] mod_less_divisor [of 8 n]
    mod_less_divisor [of 64 m] mod_less_divisor [of 64 l] by simp_all

lemma unat_seq2: "unat (seq2 c t) = unat c mod 32 * 64 + unat t mod 64"
  by (simp only: seq2_def append_six_bits unat_lead_bits small_mods)

lemma unat_seq3: "unat (seq3 c t u) = (unat c mod 16 * 64 + unat t mod 64) * 64 + unat u mod 64"
  by (simp only: seq3_def append_six_bits unat_lead_bits small_mods)

lemma unat_seq4:
  "unat (seq4 c t u v) = ((unat c mod 8 * 64 + unat t mod 64) * 64 + unat u mod 64) * 64 + unat v mod 64"
  by (simp only: seq4_def append_six_bits unat_lead_bits small_mods)

text \<open>The decoder on a text whose first byte announces one, two, three or four bytes.\<close>

lemma width_decode_1:
  "lead_len 0 c = 1 \<Longrightarrow> width_decode (c # p) n = Ok (1, ucast c, False)"
  by (simp add: width_decode_def)

lemma width_decode_2:
  "lead_len 0 c = 2 \<Longrightarrow> 2 \<le> n \<Longrightarrow> width_decode (c # t # p) n =
     Ok (if is_cont t \<and> \<not> decode_refused 2 (seq2 c t) then (2, seq2 c t, False) else (1, 0xFFFD, True))"
  by (simp add: width_decode_def Let_def del: One_nat_def add: decode_tail_2 seq2_def)

lemma width_decode_3:
  "lead_len 0 c = 3 \<Longrightarrow> 3 \<le> n \<Longrightarrow> width_decode (c # t # u # p) n =
     Ok (if is_cont t \<and> is_cont u \<and> \<not> decode_refused 3 (seq3 c t u)
         then (3, seq3 c t u, False) else (1, 0xFFFD, True))"
  by (simp add: width_decode_def Let_def del: One_nat_def add: decode_tail_3 seq3_def)

lemma width_decode_4:
  "lead_len 0 c = 4 \<Longrightarrow> 4 \<le> n \<Longrightarrow> width_decode (c # t # u # v # p) n =
     Ok (if is_cont t \<and> is_cont u \<and> is_cont v \<and> \<not> decode_refused 4 (seq4 c t u v)
         then (4, seq4 c t u v, False) else (1, 0xFFFD, True))"
  by (simp add: width_decode_def Let_def del: One_nat_def add: decode_tail_4 seq4_def)

lemma width_decode_short:
  "lead_len 0 c = 0 \<or> int (lead_len 0 c) > n \<and> lead_len 0 c \<noteq> 1 \<Longrightarrow> width_decode (c # p) n = Ok (1, 0xFFFD, True)"
  by (auto simp: width_decode_def Let_def)

lemma lead_len_values: "lead_len d c \<in> {1, 2, 3, 4, d}"
  by (auto simp: lead_len_def)

text \<open>The five cases of a non-empty text, for one rule.\<close>

lemma decode_cases [consumes 1, case_names bad one two three four]:
  assumes "p \<noteq> []"
    and "width_decode p (int (length p)) = Ok (1, 0xFFFD, True) \<Longrightarrow> P"
    and "\<And>c q. p = c # q \<Longrightarrow> unat c < 128 \<Longrightarrow> width_decode p (int (length p)) = Ok (1, ucast c, False) \<Longrightarrow> P"
    and "\<And>c t q. p = c # t # q \<Longrightarrow> unat c div 32 = 6 \<Longrightarrow> is_cont t \<Longrightarrow> \<not> decode_refused 2 (seq2 c t) \<Longrightarrow>
       width_decode p (int (length p)) = Ok (2, seq2 c t, False) \<Longrightarrow> P"
    and "\<And>c t u q. p = c # t # u # q \<Longrightarrow> unat c div 16 = 14 \<Longrightarrow> is_cont t \<Longrightarrow> is_cont u \<Longrightarrow>
       \<not> decode_refused 3 (seq3 c t u) \<Longrightarrow>
       width_decode p (int (length p)) = Ok (3, seq3 c t u, False) \<Longrightarrow> P"
    and "\<And>c t u v q. p = c # t # u # v # q \<Longrightarrow> unat c div 8 = 30 \<Longrightarrow> is_cont t \<Longrightarrow> is_cont u \<Longrightarrow> is_cont v \<Longrightarrow>
       \<not> decode_refused 4 (seq4 c t u v) \<Longrightarrow>
       width_decode p (int (length p)) = Ok (4, seq4 c t u v, False) \<Longrightarrow> P"
  shows P
proof -
  obtain c q where p: "p = c # q" using assms(1) by (cases p) auto
  define k where "k = lead_len 0 c"
  have "k \<in> {1, 2, 3, 4, 0}" unfolding k_def by (rule lead_len_values)
  show P
  proof (cases "k = 1 \<or> k \<noteq> 0 \<and> k \<le> length p")
    case False
    then show P using assms(2) width_decode_short [of c "int (length p)" q] p by (auto simp: k_def)
  next
    case True
    with \<open>k \<in> _\<close> consider "k = 1" | "k = 2" "2 \<le> length p" | "k = 3" "3 \<le> length p" | "k = 4" "4 \<le> length p"
      by auto
    then show P
    proof cases
      case 1
      then have "unat c < 128" by (auto simp: k_def lead_len_unat split: if_splits)
      with assms(3) [OF p] width_decode_1 [of c q] 1 p show P by (simp add: k_def)
    next
      case 2
      then obtain t r where q: "q = t # r" using p by (cases q) auto
      from 2 have "unat c div 32 = 6" by (auto simp: k_def lead_len_unat split: if_splits)
      with assms(2) assms(4) [of c t r] width_decode_2 [of c "int (length p)" t r] 2 p q show P
        by (auto simp: k_def split: if_splits)
    next
      case 3
      then obtain t u r where q: "q = t # u # r" using p by (auto simp: numeral_eq_Suc Suc_le_length_iff)
      from 3 have "unat c div 16 = 14" by (auto simp: k_def lead_len_unat split: if_splits)
      with assms(2) assms(5) [of c t u r] width_decode_3 [of c "int (length p)" t u r] 3 p q show P
        by (auto simp: k_def split: if_splits)
    next
      case 4
      then obtain t u v r where q: "q = t # u # v # r" using p by (auto simp: numeral_eq_Suc Suc_le_length_iff)
      from 4 have "unat c div 8 = 30" by (auto simp: k_def lead_len_unat split: if_splits)
      with assms(2) assms(6) [of c t u v r] width_decode_4 [of c "int (length p)" t u v r] 4 p q show P
        by (auto simp: k_def split: if_splits)
    qed
  qed
qed

lemma decode_refused_unat:
  "decode_refused n cp \<longleftrightarrow> unat cp > 0x10FFFF \<or> (unat cp \<ge> 0xD800 \<and> unat cp \<le> 0xDFFF) \<or>
     (n = 2 \<and> unat cp < 0x80) \<or> (n = 3 \<and> unat cp < 0x800) \<or> (n = 4 \<and> unat cp < 0x10000)"
  by (simp add: decode_refused_def word_less_nat_alt word_le_nat_alt)

lemma scalar_value_unat:
  "scalar_value cp \<longleftrightarrow> unat cp \<le> 0x10FFFF \<and> \<not> (0xD800 \<le> unat cp \<and> unat cp \<le> 0xDFFF)"
  by (simp add: scalar_value_def word_le_nat_alt)

text \<open>Base-64 digits of a number that is given by its digits.\<close>

lemma digits64:
  fixes a b d e :: nat
  shows "(a * 64 + b mod 64) div 64 = a" "(a * 64 + b mod 64) mod 64 = b mod 64"
    "((a * 64 + b mod 64) * 64 + d mod 64) div 4096 = a"
    "((a * 64 + b mod 64) * 64 + d mod 64) div 64 mod 64 = b mod 64"
    "((a * 64 + b mod 64) * 64 + d mod 64) mod 64 = d mod 64"
    "(((a * 64 + b mod 64) * 64 + d mod 64) * 64 + e mod 64) div 262144 = a"
    "(((a * 64 + b mod 64) * 64 + d mod 64) * 64 + e mod 64) div 4096 mod 64 = b mod 64"
    "(((a * 64 + b mod 64) * 64 + d mod 64) * 64 + e mod 64) div 64 mod 64 = d mod 64"
    "(((a * 64 + b mod 64) * 64 + d mod 64) * 64 + e mod 64) mod 64 = e mod 64"
proof -
  have last: "(x * 64 + y mod 64) div 64 = x" "(x * 64 + y mod 64) mod 64 = y mod 64" for x y :: nat
    by simp_all
  have deep: "m div 4096 = m div 64 div 64" "m div 262144 = m div 64 div 64 div 64" for m :: nat
    by (simp_all add: div_mult2_eq [symmetric])
  show "(a * 64 + b mod 64) div 64 = a" "(a * 64 + b mod 64) mod 64 = b mod 64"
    "((a * 64 + b mod 64) * 64 + d mod 64) div 4096 = a"
    "((a * 64 + b mod 64) * 64 + d mod 64) div 64 mod 64 = b mod 64"
    "((a * 64 + b mod 64) * 64 + d mod 64) mod 64 = d mod 64"
    "(((a * 64 + b mod 64) * 64 + d mod 64) * 64 + e mod 64) div 262144 = a"
    "(((a * 64 + b mod 64) * 64 + d mod 64) * 64 + e mod 64) div 4096 mod 64 = b mod 64"
    "(((a * 64 + b mod 64) * 64 + d mod 64) * 64 + e mod 64) div 64 mod 64 = d mod 64"
    "(((a * 64 + b mod 64) * 64 + d mod 64) * 64 + e mod 64) mod 64 = e mod 64"
    by (simp_all only: deep last)
qed

lemma byte_of_div:
  assumes "unat (c :: byte) div k = q"
  shows "of_nat (k * q + unat c mod k) = c"
proof -
  have "k * q + unat c mod k = unat c" using assms mult_div_mod_eq [of k "unat c"] by simp
  then show ?thesis by (simp only: of_nat_unat ucast_id)
qed

lemma cont_byte: "is_cont t \<Longrightarrow> of_nat (128 + unat t mod 64) = t"
  using byte_of_div [of t 64 2] by (simp add: is_cont_def)

lemma lead_byte:
  "unat c div 32 = 6 \<Longrightarrow> of_nat (192 + unat c mod 32) = (c :: byte)"
  "unat c div 16 = 14 \<Longrightarrow> of_nat (224 + unat c mod 16) = (c :: byte)"
  "unat c div 8 = 30 \<Longrightarrow> of_nat (240 + unat c mod 8) = (c :: byte)"
  using byte_of_div [of c 32 6] byte_of_div [of c 16 14] byte_of_div [of c 8 30] by simp_all

lemma encode_1: "unat c < 128 \<Longrightarrow> utf8_encode (ucast c) = [c] \<and> scalar_value (ucast c)"
  by (simp add: utf8_encode_def scalar_value_unat unat_ucast_u32)

lemma encode_seq2:
  assumes "unat c div 32 = 6" "is_cont t" "\<not> decode_refused 2 (seq2 c t)"
  shows "utf8_encode (seq2 c t) = [c, t] \<and> scalar_value (seq2 c t)"
proof -
  define n where "n = unat (seq2 c t)"
  have n: "n = unat c mod 32 * 64 + unat t mod 64" by (simp add: n_def unat_seq2)
  have "128 \<le> n" "scalar_value (seq2 c t)" using assms(3)
    by (auto simp: decode_refused_unat scalar_value_unat n_def)
  moreover have "n < 0x800" using n mod_less_divisor [of 32 "unat c"] mod_less_divisor [of 64 "unat t"] by simp
  moreover have "n div 64 = unat c mod 32" "n mod 64 = unat t mod 64"
    unfolding n by (simp_all only: digits64)
  ultimately show ?thesis using assms
    by (simp add: utf8_encode_def n_def [symmetric] Let_def lead_byte cont_byte del: of_nat_add)
qed

lemma encode_seq3:
  assumes "unat c div 16 = 14" "is_cont t" "is_cont u" "\<not> decode_refused 3 (seq3 c t u)"
  shows "utf8_encode (seq3 c t u) = [c, t, u] \<and> scalar_value (seq3 c t u)"
proof -
  define n where "n = unat (seq3 c t u)"
  have n: "n = (unat c mod 16 * 64 + unat t mod 64) * 64 + unat u mod 64" by (simp add: n_def unat_seq3)
  have "0x800 \<le> n" "scalar_value (seq3 c t u)" using assms(4)
    by (auto simp: decode_refused_unat scalar_value_unat n_def)
  moreover have "n < 0x10000" using n mod_less_divisor [of 16 "unat c"]
      mod_less_divisor [of 64 "unat t"] mod_less_divisor [of 64 "unat u"] by simp
  moreover have "n div 4096 = unat c mod 16" "n div 64 mod 64 = unat t mod 64" "n mod 64 = unat u mod 64"
    unfolding n by (simp_all only: digits64)
  ultimately show ?thesis using assms
    by (simp add: utf8_encode_def n_def [symmetric] Let_def lead_byte cont_byte del: of_nat_add)
qed

lemma encode_seq4:
  assumes "unat c div 8 = 30" "is_cont t" "is_cont u" "is_cont v" "\<not> decode_refused 4 (seq4 c t u v)"
  shows "utf8_encode (seq4 c t u v) = [c, t, u, v] \<and> scalar_value (seq4 c t u v)"
proof -
  define n where "n = unat (seq4 c t u v)"
  have n: "n = ((unat c mod 8 * 64 + unat t mod 64) * 64 + unat u mod 64) * 64 + unat v mod 64"
    by (simp add: n_def unat_seq4)
  have "0x10000 \<le> n" "scalar_value (seq4 c t u v)" using assms(5)
    by (auto simp: decode_refused_unat scalar_value_unat n_def)
  moreover have "n div 262144 = unat c mod 8" "n div 4096 mod 64 = unat t mod 64"
    "n div 64 mod 64 = unat u mod 64" "n mod 64 = unat v mod 64"
    unfolding n by (simp_all only: digits64)
  ultimately show ?thesis using assms
    by (simp add: utf8_encode_def n_def [symmetric] Let_def lead_byte cont_byte del: of_nat_add)
qed

text \<open>The other direction: the bytes of an encoding pass every test of the decoder.\<close>

lemma unat_byte_of: "m < 256 \<Longrightarrow> unat (of_nat m :: byte) = m"
  by (simp add: unat_of_nat)

lemma byte_of_parts:
  assumes "k * q + r < 256" "r < k"
  shows "unat (of_nat (k * q + r) :: byte) div k = q" "unat (of_nat (k * q + r) :: byte) mod k = r"
  using assms by (simp_all only: unat_byte_of) (simp_all add: div_mult_self_is_m)

lemma cont_of_digit: "is_cont (of_nat (128 + m mod 64))" "unat (of_nat (128 + m mod 64) :: byte) mod 64 = m mod 64"
proof -
  have "m mod 64 < 64" by simp
  then have "64 * 2 + m mod 64 < 256" by linarith
  from byte_of_parts [OF this \<open>m mod 64 < 64\<close>]
  show "is_cont (of_nat (128 + m mod 64))" "unat (of_nat (128 + m mod 64) :: byte) mod 64 = m mod 64"
    by (simp_all only: is_cont_def) simp_all
qed

lemma utf8_encode_cases [consumes 1, case_names one two three four]:
  assumes "scalar_value cp"
    and "\<And>c. utf8_encode cp = [c] \<Longrightarrow> unat c < 128 \<Longrightarrow> ucast c = cp \<Longrightarrow> P"
    and "\<And>c t. utf8_encode cp = [c, t] \<Longrightarrow> unat c div 32 = 6 \<Longrightarrow> is_cont t \<Longrightarrow>
       seq2 c t = cp \<Longrightarrow> \<not> decode_refused 2 cp \<Longrightarrow> P"
    and "\<And>c t u. utf8_encode cp = [c, t, u] \<Longrightarrow> unat c div 16 = 14 \<Longrightarrow> is_cont t \<Longrightarrow> is_cont u \<Longrightarrow>
       seq3 c t u = cp \<Longrightarrow> \<not> decode_refused 3 cp \<Longrightarrow> P"
    and "\<And>c t u v. utf8_encode cp = [c, t, u, v] \<Longrightarrow> unat c div 8 = 30 \<Longrightarrow> is_cont t \<Longrightarrow> is_cont u \<Longrightarrow>
       is_cont v \<Longrightarrow> seq4 c t u v = cp \<Longrightarrow> \<not> decode_refused 4 cp \<Longrightarrow> P"
  shows P
proof -
  define n where "n = unat cp"
  have n: "n \<le> 0x10FFFF" "\<not> (0xD800 \<le> n \<and> n \<le> 0xDFFF)" using assms(1) by (auto simp: scalar_value_unat n_def)
  have word: "w = cp" if "unat w = n" for w using that by (simp add: n_def unsigned_word_eqI)
  note enc = utf8_encode_def [of cp, folded n_def, unfolded Let_def]
  consider "n < 0x80" | "0x80 \<le> n" "n < 0x800" | "0x800 \<le> n" "n < 0x10000" | "0x10000 \<le> n" by linarith
  then show P
  proof cases
    case 1
    then have "unat (of_nat n :: byte) = n" by (intro unat_byte_of) simp
    with 1 show P by (intro assms(2) [of "of_nat n"] word) (simp_all add: enc unat_ucast_u32)
  next
    case 2
    define c where "c = (of_nat (192 + n div 64) :: byte)"
    have "n div 64 < 32" using 2 by (simp add: less_mult_imp_div_less)
    then have lead: "unat c div 32 = 6" "unat c mod 32 = n div 64"
      using byte_of_parts [of 32 6 "n div 64"] by (simp_all add: c_def)
    show P
    proof (rule assms(3) [OF _ lead(1) cont_of_digit(1) word])
      show "utf8_encode cp = [c, of_nat (128 + n mod 64)]" using 2 by (simp add: enc c_def del: of_nat_add)
      show "unat (seq2 c (of_nat (128 + n mod 64))) = n"
        by (simp only: unat_seq2 lead(2) cont_of_digit(2)) simp
      show "\<not> decode_refused 2 cp" using n 2 by (auto simp: decode_refused_unat n_def [symmetric])
    qed
  next
    case 3
    define c where "c = (of_nat (224 + n div 4096) :: byte)"
    have "n div 4096 < 16" using 3 by (simp add: less_mult_imp_div_less)
    then have lead: "unat c div 16 = 14" "unat c mod 16 = n div 64 div 64"
      using byte_of_parts [of 16 14 "n div 4096"] by (simp_all add: c_def div_mult2_eq [symmetric])
    show P
    proof (rule assms(4) [OF _ lead(1) cont_of_digit(1) cont_of_digit(1) word])
      show "utf8_encode cp = [c, of_nat (128 + n div 64 mod 64), of_nat (128 + n mod 64)]"
        using 3 by (simp add: enc c_def del: of_nat_add)
      show "unat (seq3 c (of_nat (128 + n div 64 mod 64)) (of_nat (128 + n mod 64))) = n"
        by (simp only: unat_seq3 lead(2) cont_of_digit(2) div_mult_mod_eq)
      show "\<not> decode_refused 3 cp" using n 3 by (auto simp: decode_refused_unat n_def [symmetric])
    qed
  next
    case 4
    define c where "c = (of_nat (240 + n div 262144) :: byte)"
    have "n div 262144 < 8" using n(1) by (simp add: less_mult_imp_div_less)
    then have lead: "unat c div 8 = 30" "unat c mod 8 = n div 64 div 64 div 64"
      using byte_of_parts [of 8 30 "n div 262144"] by (simp_all add: c_def div_mult2_eq [symmetric])
    have mid: "n div 4096 = n div 64 div 64" by (simp add: div_mult2_eq [symmetric])
    show P
    proof (rule assms(5) [OF _ lead(1) cont_of_digit(1) cont_of_digit(1) cont_of_digit(1) word])
      show "utf8_encode cp =
          [c, of_nat (128 + n div 4096 mod 64), of_nat (128 + n div 64 mod 64), of_nat (128 + n mod 64)]"
        using 4 by (simp add: enc c_def del: of_nat_add)
      show "unat (seq4 c (of_nat (128 + n div 4096 mod 64)) (of_nat (128 + n div 64 mod 64))
          (of_nat (128 + n mod 64))) = n"
        by (simp only: unat_seq4 lead(2) cont_of_digit(2) mid div_mult_mod_eq)
      show "\<not> decode_refused 4 cp" using n 4 by (auto simp: decode_refused_unat n_def [symmetric])
    qed
  qed
qed

lemma decode_encoded:
  assumes "scalar_value cp"
  shows "width_decode (utf8_encode cp @ q) (int (length (utf8_encode cp @ q))) =
    Ok (length (utf8_encode cp), cp, False)"
  using assms
proof (cases rule: utf8_encode_cases)
  case (one c)
  then show ?thesis using width_decode_1 [of c q] by (simp add: lead_len_unat)
next
  case (two c t)
  then have "\<not> unat c < 128" by linarith
  with two show ?thesis using width_decode_2 [of c "int (length (utf8_encode cp @ q))" t q]
    by (simp add: lead_len_unat)
next
  case (three c t u)
  then have "\<not> unat c < 128" "unat c div 32 \<noteq> 6" by linarith+
  with three show ?thesis using width_decode_3 [of c "int (length (utf8_encode cp @ q))" t u q]
    by (simp add: lead_len_unat)
next
  case (four c t u v)
  then have "\<not> unat c < 128" "unat c div 32 \<noteq> 6" "unat c div 16 \<noteq> 14" by linarith+
  with four show ?thesis using width_decode_4 [of c "int (length (utf8_encode cp @ q))" t u v q]
    by (simp add: lead_len_unat)
qed

lemma decode_outcome:
  assumes "p \<noteq> []"
  obtains (bad) "width_decode p (int (length p)) = Ok (1, 0xFFFD, True)"
  | (good) cp q where "scalar_value cp" "p = utf8_encode cp @ q"
      "width_decode p (int (length p)) = Ok (length (utf8_encode cp), cp, False)"
  using assms
proof (cases rule: decode_cases)
  case (one c q)
  with encode_1 [of c] good [of "ucast c" q] show ?thesis by simp
next
  case (two c t q)
  with encode_seq2 [of c t] good [of "seq2 c t" q] show ?thesis by simp
next
  case (three c t u q)
  with encode_seq3 [of c t u] good [of "seq3 c t u" q] show ?thesis by simp
next
  case (four c t u v q)
  with encode_seq4 [of c t u v] good [of "seq4 c t u v" q] show ?thesis by simp
qed (use bad in simp)

text \<open>C36. On a text that is not empty the decoder consumes the encoding of a Unicode scalar value when
  the text starts with one, and answers that scalar and its length; in every other case (a stray or
  truncated sequence, an overlong form, a surrogate, a scalar past the last plane) it reports one bad
  byte. It never reads past the text.\<close>

theorem decode_accepts_exactly_utf8:
  assumes "p \<noteq> []"
  shows "(width_decode p (int (length p)) = Ok (k, cp, False) \<longleftrightarrow>
      scalar_value cp \<and> k = length (utf8_encode cp) \<and> take k p = utf8_encode cp) \<and>
    (width_decode p (int (length p)) = Ok (k, cp, True) \<longleftrightarrow>
      k = 1 \<and> cp = 0xFFFD \<and> \<not> (\<exists>c. scalar_value c \<and> take (length (utf8_encode c)) p = utf8_encode c)) \<and>
    width_decode p (int (length p)) \<noteq> Fault"
proof -
  have starts: "width_decode p (int (length p)) = Ok (length (utf8_encode c), c, False)"
    if "scalar_value c" "take (length (utf8_encode c)) p = utf8_encode c" for c
    using decode_encoded [OF that(1), of "drop (length (utf8_encode c)) p"] that(2)
    by (metis append_take_drop_id)
  from assms show ?thesis by (cases rule: decode_outcome) (auto dest: starts)
qed

theorem decode_accepts_exactly_utf8_witness:
  "width_decode [0xE2, 0x82, 0xAC, 0x41] 4 = Ok (3, 0x20AC, False) \<and>
   width_decode [0xED, 0xA0, 0x80] 3 \<noteq> Ok (3, 0xD800, False)"
  using decode_accepts_exactly_utf8 [of "[0xE2, 0x82, 0xAC, 0x41]" 3 "0x20AC"]
    decode_accepts_exactly_utf8 [of "[0xED, 0xA0, 0x80]" 3 "0xD800"]
  by (simp add: scalar_value_def utf8_encode_def)

section \<open>Splitting into characters\<close>

lemma char_len_fits: "i < stop \<Longrightarrow> i + char_len s i stop \<le> stop"
  by (auto simp: char_len_def Let_def)

lemma chars_from_concat: "concat (chars_from s i) = drop i s"
proof (induction s i rule: chars_from.induct)
  case (1 s i)
  show ?case
  proof (cases "i < length s")
    case True
    define n where "n = char_len s i (length s)"
    have "sub_range s i (i + n) @ drop (i + n) s = drop i s"
      by (simp add: sub_range_def) (metis add.commute append_take_drop_id drop_drop)
    with 1 [OF True n_def] True show ?thesis
      by (subst chars_from.simps) (simp add: n_def [symmetric] Let_def)
  qed (simp add: chars_from.simps)
qed

lemma char_len_shift:
  "j + i < length s \<Longrightarrow> char_len (drop j s) i (length s - j) = char_len s (j + i) (length s)"
  by (auto simp: char_len_def Let_def add.assoc)

lemma chars_from_shift: "chars_from (drop j s) i = chars_from s (j + i)"
proof (induction "drop j s" i rule: chars_from.induct)
  case (1 i)
  show ?case
  proof (cases "j + i < length s")
    case True
    define n where "n = char_len s (j + i) (length s)"
    have n: "char_len (drop j s) i (length (drop j s)) = n"
      using char_len_shift [OF True] by (simp add: n_def)
    have "chars_from (drop j s) (i + n) = chars_from s (j + (i + n))" using 1 [OF _ n [symmetric]] True by simp
    moreover have "sub_range (drop j s) i (i + n) = sub_range s (j + i) (j + i + n)"
      by (simp add: sub_range_def add.commute)
    ultimately show ?thesis using True n
      by (subst (1 2) chars_from.simps) (simp add: n_def [symmetric] add.assoc Let_def)
  next
    case False
    then have "\<not> i < length s - j" by linarith
    with False show ?thesis by (simp add: chars_from.simps [of _ i] chars_from.simps [of _ "j + i"])
  qed
qed

lemma char_len_take: "i < to \<Longrightarrow> to \<le> length s \<Longrightarrow> char_len (take to s) i to = char_len s i to"
  by (auto simp: char_len_def Let_def list_all_iff)

lemma count_chars_loop_length:
  "to \<le> length s \<Longrightarrow> count_chars_loop s i to n = n + int (length (chars_from (take to s) i))"
proof (induction s i to n rule: count_chars_loop.induct)
  case (1 s i to n)
  then show ?case
    by (cases "i < to") (subst count_chars_loop.simps, subst chars_from.simps, simp add: Let_def char_len_take)+
qed

lemma chars_from_take: "from \<le> to \<Longrightarrow> chars_from (take to s) from = beans_str_chars (sub_range s from to)"
  unfolding beans_str_chars_def sub_range_def using chars_from_shift [of "from" "take to s" 0]
  by (simp add: take_drop)

lemma tail_positions: "[Suc 0..<2] = [1]" "[Suc 0..<3] = [1, 2]" "[Suc 0..<4] = [1, 2, 3]"
  by (simp_all add: upt_rec)

text \<open>A character that is the encoding of a scalar value is split off whole.\<close>

lemma char_len_encoded:
  assumes "scalar_value cp"
  shows "char_len (utf8_encode cp @ q) 0 (length (utf8_encode cp @ q)) = length (utf8_encode cp)"
  using assms
proof (cases rule: utf8_encode_cases)
  case (one c)
  then show ?thesis by (simp add: char_len_def lead_len_unat)
next
  case (two c t)
  then have "\<not> unat c < 128" by linarith
  with two show ?thesis
    by (simp add: char_len_def lead_len_unat continuation_unat is_cont_def tail_positions)
next
  case (three c t u)
  then have "\<not> unat c < 128" "unat c div 32 \<noteq> 6" by linarith+
  with three show ?thesis
    by (simp add: char_len_def lead_len_unat continuation_unat is_cont_def tail_positions)
next
  case (four c t u v)
  then have "\<not> unat c < 128" "unat c div 32 \<noteq> 6" "unat c div 16 \<noteq> 14" by linarith+
  with four show ?thesis
    by (simp add: char_len_def lead_len_unat continuation_unat is_cont_def tail_positions)
qed

lemma utf8_encode_nonempty: "utf8_encode cp \<noteq> []"
  by (simp add: utf8_encode_def Let_def)

lemma chars_of_encoded:
  "list_all scalar_value cps \<Longrightarrow> beans_str_chars (concat (map utf8_encode cps)) = map utf8_encode cps"
proof (induction cps)
  case (Cons cp cps)
  define q where "q = concat (map utf8_encode cps)"
  define n where "n = length (utf8_encode cp)"
  from Cons.prems have "scalar_value cp" by simp
  then have len: "char_len (utf8_encode cp @ q) 0 (n + length q) = n" "0 < n"
    using char_len_encoded [of cp q] utf8_encode_nonempty [of cp] by (auto simp: n_def)
  have "chars_from (utf8_encode cp @ q) n = map utf8_encode cps"
    using chars_from_shift [of n "utf8_encode cp @ q" 0] Cons by (simp add: n_def q_def beans_str_chars_def)
  moreover have "sub_range (utf8_encode cp @ q) 0 n = utf8_encode cp" by (simp add: sub_range_def n_def)
  moreover have "0 < length (utf8_encode cp @ q)" using len by (simp add: n_def)
  ultimately show ?case using len
    by (simp add: beans_str_chars_def q_def [symmetric]) (subst chars_from.simps, simp add: n_def [symmetric])
qed (simp add: beans_str_chars_def chars_from.simps)



section \<open>The width of a text\<close>

text \<open>What the tables say of a scalar, without the search and without the shortcut for ASCII.\<close>

definition table_width :: "u32 \<Rightarrow> int" where
  "table_width cp = (if covers width_zero_ranges cp then 0 else if covers width_wide_ranges cp then 2 else 1)"

lemma covers_below:
  assumes "list_all (\<lambda>(lo, hi). 0x80 \<le> lo) rows" "cp < 0x80"
  shows "\<not> covers rows cp"
  using assms by (induction rows) (auto simp: covers_def)

lemma covers_append: "covers (t @ u) cp \<longleftrightarrow> covers t cp \<or> covers u cp"
  by (simp add: covers_def)

lemma ascii_zero: "cp < 0x80 \<Longrightarrow> covers width_zero_ranges cp \<longleftrightarrow> cp < 0x20 \<or> cp = 0x7F"
proof -
  assume cp: "cp < 0x80"
  have "width_zero_ranges = [(0x0, 0x1F), (0x7F, 0x9F)] @ drop 2 width_zero_ranges"
    by (simp add: width_zero_ranges_def)
  moreover have "\<not> covers (drop 2 width_zero_ranges) cp"
    by (rule covers_below [OF _ cp]) (simp add: width_zero_ranges_def)
  ultimately have "covers width_zero_ranges cp \<longleftrightarrow> covers [(0x0, 0x1F), (0x7F, 0x9F)] cp"
    by (metis covers_append)
  with cp show ?thesis by (auto simp: covers_def word_le_nat_alt word_less_nat_alt word_unat_eq_iff)
qed

lemma ascii_not_wide: "cp < 0x80 \<Longrightarrow> \<not> covers width_wide_ranges cp"
  by (rule covers_below) (simp_all add: width_wide_ranges_def)

lemma width_of_scalar_table: "width_of_scalar cp = Ok (table_width cp)"
  by (auto simp: width_of_scalar_def table_width_def table_search ascii_zero ascii_not_wide)

lemma table_width_range: "table_width cp \<in> {0, 1, 2}"
  by (simp add: table_width_def)

text \<open>
  What the walk keeps: the columns are not negative and at most the bytes read, and a pictograph that a
  variation selector may still resize has been charged its one or two columns.
\<close>

definition width_ok :: "nat \<Rightarrow> width_state \<Rightarrow> bool" where
  "width_ok i st \<longleftrightarrow> 0 \<le> w_total st \<and> w_total st \<le> int i \<and>
     (w_prev_pict st \<longrightarrow> w_prev_width st \<in> {1, 2} \<and> w_prev_width st \<le> w_total st)"

lemma width_step_ok:
  assumes "width_ok i st" "0 < k" "bad \<or> table_width cp \<le> int k"
  shows "\<exists>st'. width_step st cp bad = Ok st' \<and> width_ok (i + k) st'"
proof -
  have "0 \<le> table_width cp" "table_width cp \<le> 2" using table_width_range [of cp] by auto
  then show ?thesis using assms table_width_range [of cp]
    by (auto simp: width_step_def width_ok_def width_of_scalar_table table_search Let_def)
qed

lemma table_width_encoded: "scalar_value cp \<Longrightarrow> table_width cp \<le> int (length (utf8_encode cp))"
proof (cases "cp < 0x80")
  case True
  then have "table_width cp \<le> 1" by (simp add: table_width_def ascii_not_wide)
  then show ?thesis using utf8_encode_nonempty [of cp] by (cases "utf8_encode cp") auto
next
  case False
  then have "2 \<le> length (utf8_encode cp)" by (simp add: utf8_encode_def Let_def word_less_nat_alt)
  then show ?thesis using table_width_range [of cp] by auto
qed

lemma width_loop_ok: "width_ok i st \<Longrightarrow> i \<le> length p \<Longrightarrow> \<exists>w. width_loop p i st = Ok w \<and> 0 \<le> w \<and> w \<le> int (length p)"
proof (induction p i st rule: width_loop.induct)
  case (1 p i st)
  show ?case
  proof (cases "i < length p")
    case True
    then have "drop i p \<noteq> []" by simp
    then obtain k cp bad where d: "width_decode (drop i p) (int (length (drop i p))) = Ok (k, cp, bad)"
      and k: "0 < k" "i + k \<le> length p" "bad \<or> table_width cp \<le> int k"
    proof (cases rule: decode_outcome)
      case bad
      with that [OF bad] True show ?thesis by simp
    next
      case (good cp q)
      from good(2) have "length (utf8_encode cp) \<le> length (drop i p)" by simp
      with that [OF good(3)] utf8_encode_nonempty [of cp] table_width_encoded [OF good(1)] True show ?thesis by simp
    qed
    from width_step_ok [OF "1.prems"(1) k(1,3)] obtain st' where
      st': "width_step st cp bad = Ok st'" "width_ok (i + k) st'" by blast
    note d' = d [unfolded length_drop]
    from "1.IH" [OF True d' _ _ _ st'(1) st'(2) k(2)] k(1) show ?thesis using True d' st'
      by (subst width_loop.simps) simp
  next
    case False
    with "1.prems" show ?thesis by (subst width_loop.simps) (auto simp: width_ok_def)
  qed
qed

text \<open>A scalar that neither joins, nor selects a presentation, nor pairs into a flag.\<close>

definition plain_scalar :: "u32 \<Rightarrow> bool" where
  "plain_scalar cp \<longleftrightarrow> scalar_value cp \<and> cp \<noteq> 0x200D \<and> cp \<noteq> 0xFE0F \<and> cp \<noteq> 0xFE0E \<and>
     \<not> (0x1F1E6 \<le> cp \<and> cp \<le> 0x1F1FF)"

lemma width_step_plain:
  assumes "plain_scalar cp" "\<not> w_joined st"
  shows "\<exists>st'. width_step st cp False = Ok st' \<and> \<not> w_joined st' \<and> w_total st' = w_total st + table_width cp"
  using assms by (auto simp: plain_scalar_def width_step_def width_of_scalar_table table_search Let_def)

lemma width_loop_plain:
  "list_all plain_scalar cps \<Longrightarrow> drop i p = concat (map utf8_encode cps) \<Longrightarrow> \<not> w_joined st \<Longrightarrow>
   width_loop p i st = Ok (w_total st + sum_list (map table_width cps))"
proof (induction cps arbitrary: i st)
  case Nil
  then show ?case by (subst width_loop.simps) simp
next
  case (Cons cp cps)
  define k where "k = length (utf8_encode cp)"
  have cp: "plain_scalar cp" "scalar_value cp" using Cons.prems(1) by (auto simp: plain_scalar_def)
  have p: "drop i p = utf8_encode cp @ concat (map utf8_encode cps)" using Cons.prems(2) by simp
  have k: "0 < k" using utf8_encode_nonempty by (simp add: k_def)
  with p have "drop i p \<noteq> []" by (auto simp: k_def)
  then have i: "i < length p" by simp
  have d: "width_decode (drop i p) (int (length p - i)) = Ok (k, cp, False)"
    using decode_encoded [OF cp(2), of "concat (map utf8_encode cps)"] unfolding k_def p [symmetric] length_drop .
  obtain st' where st': "width_step st cp False = Ok st'" "\<not> w_joined st'" "w_total st' = w_total st + table_width cp"
    using width_step_plain [OF cp(1) Cons.prems(3)] by blast
  have "drop (i + k) p = drop k (drop i p)" by (simp add: add.commute)
  then have "drop (i + k) p = concat (map utf8_encode cps)" by (simp add: p k_def)
  from Cons.IH [OF _ this st'(2)] Cons.prems(1) i k d st' show ?case
    by (subst width_loop.simps) simp
qed

text \<open>C38. The width of any string is a number of columns between zero and its byte length: the walk
  never faults, reads past the end or counts below zero. A scalar takes the columns its tables say,
  the shortcut for ASCII included, and text without joiners, variation selectors and flags takes the
  sum of the widths of its scalars.\<close>

theorem width_bounded_and_additive:
  assumes "list_all plain_scalar cps"
  shows "(\<exists>w. beans_str_width s = Ok w \<and> 0 \<le> w \<and> w \<le> int (length s)) \<and>
    width_of_scalar cp = Ok (table_width cp) \<and>
    beans_str_width (concat (map utf8_encode cps)) = Ok (sum_list (map table_width cps))"
  using width_loop_ok [of 0 _ s] width_loop_plain [OF assms, of 0 "concat (map utf8_encode cps)"]
  by (simp add: beans_str_width_def beans_width_utf8_def width_ok_def width_of_scalar_table)

theorem width_bounded_and_additive_witness:
  "beans_str_width (utf8_encode 0x4F60 @ utf8_encode 0x41) = Ok (table_width 0x4F60 + table_width 0x41)"
proof -
  have "list_all plain_scalar [0x4F60, 0x41]" by (simp add: plain_scalar_def scalar_value_def)
  from width_bounded_and_additive [OF this] show ?thesis by simp
qed

end
