(* ===== verification/Rt_Show.thy ===== *)
theory Rt_Show
  imports Rt_Maps
begin

text \<open>
  Turning values into text (\<^verbatim>\<open>src/runtime/beans_rt.c\<close>): joining a list (\<^verbatim>\<open>beans_list_join\<close>,
  \<^verbatim>\<open>show_join\<close>) and the iterative show driver, a stack of work items that renders nested data without
  recursion on the C stack. The step functions the driver calls are emitted by the compiler
  (\<^verbatim>\<open>src/src/llvm_requests.b\<close>); \<open>shape_step\<close> is what the emitted body of each kind of type does.

  State: \<open>show_ctx\<close> holds the work stack with its top first, the bytes written so far, the objects being
  rendered with the latest first, and the three capacities. The stack, the output and the path are
  only ever touched at their ends, so the live part and the capacity are the whole buffer. \<open>alloc\<close>
  says which request of so many bytes the allocator grants; an unchecked refusal is a write through a
  null pointer, \<open>Fault\<close>. A request whose size does not fit a machine integer counts as refused.

  The driver's loop ends only when the steps stop pushing, so it is a partial function: \<open>None\<close> would be
  a run that never returns. The theorems show that it returns and that its text is the recursive
  rendering, also of cyclic object graphs.
\<close>

section \<open>Joining a list\<close>

text \<open>
  The text of a slot by its kind code. The texts of a float and of a decimal come from their own
  formatters, which are arguments here.
\<close>

definition join_part :: "slot_env \<Rightarrow> (slot \<Rightarrow> bstr) \<Rightarrow> (slot \<Rightarrow> bstr) \<Rightarrow> int \<Rightarrow> slot \<Rightarrow> bstr" where
  "join_part env from_float dec_str kind v =
     (if kind = 2 then str_at env v
      else if kind = 0 then beans_from_int (sint v)
      else if kind = 1 then from_float v
      else if kind = 3 then dec_str v
      else beans_from_bool ((ucast v :: u32) \<noteq> 0))"

text \<open>The first loop: the part of every slot and the bytes of the result.\<close>

function join_measure ::
    "(slot \<Rightarrow> bstr) \<Rightarrow> blist \<Rightarrow> nat \<Rightarrow> nat \<Rightarrow> bstr list \<Rightarrow> nat \<Rightarrow> (bstr list \<times> nat) rt" where
  "join_measure part l sl i parts bytes =
     (if i < l_len l then
        rt_bind (list_slot_at l i) (\<lambda>v.
          let s = part v in
          join_measure part l sl (i + 1) (parts @ [s]) (bytes + length s + (if i \<noteq> 0 then sl else 0)))
      else Ok (parts, bytes))"
  by auto
termination
  by (relation "measure (\<lambda>(part, l, sl, i, parts, size). l_len l - i)") auto

declare join_measure.simps [simp del]

text \<open>The second loop: a separator before every part but the first.\<close>

fun join_fill :: "bstr \<Rightarrow> nat \<Rightarrow> bstr \<Rightarrow> bool \<Rightarrow> bstr list \<Rightarrow> bstr rt" where
  "join_fill buf w sep first [] = Ok buf"
| "join_fill buf w sep first (s # parts) =
     rt_bind (if first then Ok buf else mem_write buf w sep) (\<lambda>b.
       let w' = (if first then w else w + length sep) in
       rt_bind (mem_write b w' s) (\<lambda>b'. join_fill b' (w' + length s) sep False parts))"

definition beans_list_join ::
    "(int \<Rightarrow> bool) \<Rightarrow> slot_env \<Rightarrow> (slot \<Rightarrow> bstr) \<Rightarrow> (slot \<Rightarrow> bstr) \<Rightarrow> blist \<Rightarrow> bstr \<Rightarrow> int \<Rightarrow> bstr rt" where
  "beans_list_join alloc env from_float dec_str l sep kind =
     (if l_len l \<noteq> 0 \<and> \<not> alloc (int (l_len l) * 8) then Fault
      else rt_bind (join_measure (join_part env from_float dec_str kind) l (length sep) 0 [] 0)
        (\<lambda>(parts, bytes). rt_bind (join_fill (str_alloc bytes) 0 sep True parts)
          (\<lambda>buf. Ok (str_of_buf bytes buf))))"

text \<open>The doubling of \<open>show_join\<close>'s buffer, which starts at 16.\<close>

function join_cap :: "int \<Rightarrow> int \<Rightarrow> int" where
  "join_cap cap need = (if 0 < cap \<and> cap < need then join_cap (cap * 2) need else cap)"
  by auto
termination
  by (relation "measure (\<lambda>(cap, need). nat (need - cap))") auto

declare join_cap.simps [simp del]

text \<open>A write at the end of the buffer; \<open>Fault\<close> when it does not fit the capacity.\<close>

definition end_write :: "int \<Rightarrow> bstr \<Rightarrow> bstr \<Rightarrow> bstr rt" where
  "end_write cap buf p = (if int (length buf) + int (length p) \<le> cap then Ok (buf @ p) else Fault)"

function show_join_loop ::
    "(int \<Rightarrow> bool) \<Rightarrow> (slot \<Rightarrow> bstr) \<Rightarrow> blist \<Rightarrow> bstr \<Rightarrow> nat \<Rightarrow> int \<Rightarrow> bstr \<Rightarrow> (int \<times> bstr) rt" where
  "show_join_loop alloc show l sep i cap buf =
     (if i < l_len l then
        rt_bind (list_slot_at l i) (\<lambda>v.
          let s = show v;
              need = int (length buf) + int (length s) + int (length sep) + 2;
              cap' = (if need > cap then join_cap cap need else cap) in
          if need > cap \<and> \<not> alloc cap' then Fault
          else rt_bind (if i \<noteq> 0 then end_write cap' buf sep else Ok buf) (\<lambda>b.
            rt_bind (end_write cap' b s) (\<lambda>b'. show_join_loop alloc show l sep (i + 1) cap' b')))
      else Ok (cap, buf))"
  by auto
termination
  by (relation "measure (\<lambda>(alloc, show, l, sep, i, cap, buf). l_len l - i)") auto

declare show_join_loop.simps [simp del]

definition show_join :: "(int \<Rightarrow> bool) \<Rightarrow> blist \<Rightarrow> bstr \<Rightarrow> (slot \<Rightarrow> bstr) \<Rightarrow> bool \<Rightarrow> bstr rt" where
  "show_join alloc l sep show brackets =
     (if \<not> alloc 16 then Fault
      else rt_bind (if brackets then end_write 16 [] (asc ''['') else Ok []) (\<lambda>b.
        rt_bind (show_join_loop alloc show l sep 0 16 b) (\<lambda>(cap, b').
          if brackets then end_write cap b' (asc '']'') else Ok b')))"

definition beans_show_list :: "(int \<Rightarrow> bool) \<Rightarrow> blist \<Rightarrow> (slot \<Rightarrow> bstr) \<Rightarrow> bstr rt" where
  "beans_show_list alloc l show = show_join alloc l (asc '', '') show True"

definition beans_list_join_show :: "(int \<Rightarrow> bool) \<Rightarrow> blist \<Rightarrow> bstr \<Rightarrow> (slot \<Rightarrow> bstr) \<Rightarrow> bstr rt" where
  "beans_list_join_show alloc l sep show = show_join alloc l sep show False"

section \<open>The work stack\<close>

text \<open>
  An item is a borrowed text, a step to run on a value, or the step \<open>show_leave_step\<close>, the one step the
  runtime itself provides. \<open>'f\<close> names the emitted step functions.
\<close>

datatype 'f show_item = ShowText bstr | ShowStep 'f slot | ShowLeave slot

record 'f show_ctx =
  sc_items :: "'f show_item list"
  sc_cap :: int
  sc_out :: bstr
  sc_ocap :: int
  sc_path :: "slot list"
  sc_pcap :: int

definition show_out :: "(int \<Rightarrow> bool) \<Rightarrow> 'f show_ctx \<Rightarrow> bstr \<Rightarrow> 'f show_ctx rt" where
  "show_out alloc c p =
     (let want = int (length (sc_out c)) + int (length p) + 1;
          grown = want > sc_ocap c;
          ocap = (if grown then want * 2 + 16 else sc_ocap c) in
      if grown \<and> \<not> alloc ocap then Fault
      else rt_bind (end_write ocap (sc_out c) p) (\<lambda>b. Ok (c\<lparr>sc_out := b, sc_ocap := ocap\<rparr>)))"

definition beans_show_append :: "(int \<Rightarrow> bool) \<Rightarrow> 'f show_ctx \<Rightarrow> bstr \<Rightarrow> 'f show_ctx rt" where
  "beans_show_append alloc c s = show_out alloc c s"

text \<open>An item takes 32 bytes; a write behind the capacity is \<open>Fault\<close>.\<close>

definition show_push :: "(int \<Rightarrow> bool) \<Rightarrow> 'f show_ctx \<Rightarrow> 'f show_item \<Rightarrow> 'f show_ctx rt" where
  "show_push alloc c it =
     (let full = (int (length (sc_items c)) = sc_cap c);
          cap = (if full then (if sc_cap c \<noteq> 0 then sc_cap c * 2 else 32) else sc_cap c) in
      if full \<and> \<not> alloc (cap * 32) \<or> cap \<le> int (length (sc_items c)) then Fault
      else Ok (c\<lparr>sc_items := it # sc_items c, sc_cap := cap\<rparr>))"

definition beans_show_push_val :: "(int \<Rightarrow> bool) \<Rightarrow> 'f show_ctx \<Rightarrow> 'f \<Rightarrow> slot \<Rightarrow> 'f show_ctx rt" where
  "beans_show_push_val alloc c f v = show_push alloc c (ShowStep f v)"

definition beans_show_push_lit :: "(int \<Rightarrow> bool) \<Rightarrow> 'f show_ctx \<Rightarrow> bstr \<Rightarrow> 'f show_ctx rt" where
  "beans_show_push_lit alloc c s = show_push alloc c (ShowText s)"

definition show_leave_step :: "'f show_ctx \<Rightarrow> slot \<Rightarrow> 'f show_ctx" where
  "show_leave_step c v = (case sc_path c of [] \<Rightarrow> c | _ # path \<Rightarrow> c\<lparr>sc_path := path\<rparr>)"

definition beans_show_enter :: "(int \<Rightarrow> bool) \<Rightarrow> 'f show_ctx \<Rightarrow> slot \<Rightarrow> (bool \<times> 'f show_ctx) rt" where
  "beans_show_enter alloc c v =
     (if v \<in> set (sc_path c) then Ok (True, c)
      else
        let full = (int (length (sc_path c)) = sc_pcap c);
            pcap = (if full then (if sc_pcap c \<noteq> 0 then sc_pcap c * 2 else 16) else sc_pcap c) in
        if full \<and> \<not> alloc (pcap * 8) then Panic (asc ''out of memory'') 0 0
        else if pcap \<le> int (length (sc_path c)) then Fault
        else Ok (False, c\<lparr>sc_path := v # sc_path c, sc_pcap := pcap\<rparr>))"

definition beans_show_push_leave :: "(int \<Rightarrow> bool) \<Rightarrow> 'f show_ctx \<Rightarrow> slot \<Rightarrow> 'f show_ctx rt" where
  "beans_show_push_leave alloc c v = show_push alloc c (ShowLeave v)"

section \<open>Maps and lists\<close>

text \<open>
  A one-word value is its word; a wide value crosses by its address, \<open>base\<close> being the address of the
  parallel buffer.
\<close>

definition map_show_value :: "slot \<Rightarrow> bmap \<Rightarrow> nat \<Rightarrow> bool \<Rightarrow> slot rt" where
  "map_show_value base m i wide =
     (if wide then Ok (base + of_nat i * of_int (m_vstride m))
      else rt_bind (entry_at m i) (\<lambda>(k, e). case e of [] \<Rightarrow> Fault | w # _ \<Rightarrow> Ok w))"

fun push_all :: "(int \<Rightarrow> bool) \<Rightarrow> 'f show_ctx \<Rightarrow> 'f show_item list \<Rightarrow> 'f show_ctx rt" where
  "push_all alloc c [] = Ok c"
| "push_all alloc c (it # its) = rt_bind (show_push alloc c it) (\<lambda>c'. push_all alloc c' its)"

text \<open>The first live entry, if there is one.\<close>

definition first_live :: "bmap \<Rightarrow> nat option" where
  "first_live m = List.find (\<lambda>i. \<not> map_dead m i) [0..<m_used m]"

definition push_map_entry ::
    "(int \<Rightarrow> bool) \<Rightarrow> 'f show_ctx \<Rightarrow> slot \<Rightarrow> bmap \<Rightarrow> 'f \<Rightarrow> 'f \<Rightarrow> bool \<Rightarrow> nat \<Rightarrow> 'f show_ctx rt" where
  "push_map_entry alloc c base m key_step val_step wide i =
     rt_bind (map_show_value base m i wide) (\<lambda>v.
     rt_bind (entry_at m i) (\<lambda>(k, e).
       push_all alloc c [ShowStep val_step v, ShowText (asc '': ''), ShowStep key_step k]))"

text \<open>The backward walk: \<open>i\<close> entries are left and those up to \<open>first\<close> stay behind.\<close>

fun push_map_rest ::
    "(int \<Rightarrow> bool) \<Rightarrow> 'f show_ctx \<Rightarrow> slot \<Rightarrow> bmap \<Rightarrow> 'f \<Rightarrow> 'f \<Rightarrow> bool \<Rightarrow> nat \<Rightarrow> nat \<Rightarrow> 'f show_ctx rt" where
  "push_map_rest alloc c base m key_step val_step wide first 0 = Ok c"
| "push_map_rest alloc c base m key_step val_step wide first (Suc i) =
     (if Suc i > first + 1 then
        if map_dead m i then push_map_rest alloc c base m key_step val_step wide first i
        else rt_bind (push_map_entry alloc c base m key_step val_step wide i) (\<lambda>c1.
          rt_bind (show_push alloc c1 (ShowText (asc '', ''))) (\<lambda>c2.
            push_map_rest alloc c2 base m key_step val_step wide first i))
      else Ok c)"

definition beans_show_map_iter ::
    "(int \<Rightarrow> bool) \<Rightarrow> 'f show_ctx \<Rightarrow> slot \<Rightarrow> bmap \<Rightarrow> 'f \<Rightarrow> 'f \<Rightarrow> bool \<Rightarrow> 'f show_ctx rt" where
  "beans_show_map_iter alloc c base m key_step val_step wide =
     rt_bind (show_out alloc c (asc ''{'')) (\<lambda>c1.
     rt_bind (show_push alloc c1 (ShowText (asc ''}''))) (\<lambda>c2.
       case first_live m of None \<Rightarrow> Ok c2
       | Some first \<Rightarrow>
           rt_bind (push_map_rest alloc c2 base m key_step val_step wide first (m_used m)) (\<lambda>c3.
             push_map_entry alloc c3 base m key_step val_step wide first)))"

fun push_list_rest :: "(int \<Rightarrow> bool) \<Rightarrow> 'f show_ctx \<Rightarrow> blist \<Rightarrow> 'f \<Rightarrow> nat \<Rightarrow> 'f show_ctx rt" where
  "push_list_rest alloc c l elem_step (Suc (Suc i)) =
     rt_bind (list_slot_at l (Suc i)) (\<lambda>v.
     rt_bind (push_all alloc c [ShowStep elem_step v, ShowText (asc '', '')]) (\<lambda>c'.
       push_list_rest alloc c' l elem_step (Suc i)))"
| "push_list_rest alloc c l elem_step _ = Ok c"

definition beans_show_list_iter :: "(int \<Rightarrow> bool) \<Rightarrow> 'f show_ctx \<Rightarrow> blist \<Rightarrow> 'f \<Rightarrow> 'f show_ctx rt" where
  "beans_show_list_iter alloc c l elem_step =
     rt_bind (show_out alloc c (asc ''['')) (\<lambda>c1.
     rt_bind (show_push alloc c1 (ShowText (asc '']''))) (\<lambda>c2.
     rt_bind (push_list_rest alloc c2 l elem_step (l_len l)) (\<lambda>c3.
       if l_len l > 0
       then rt_bind (list_slot_at l 0) (\<lambda>v. show_push alloc c3 (ShowStep elem_step v))
       else Ok c3)))"

section \<open>Draining the stack\<close>

definition run_item ::
    "(int \<Rightarrow> bool) \<Rightarrow> ('f \<Rightarrow> 'f show_ctx \<Rightarrow> slot \<Rightarrow> 'f show_ctx rt) \<Rightarrow> 'f show_ctx \<Rightarrow> 'f show_item \<Rightarrow> 'f show_ctx rt" where
  "run_item alloc steps c it =
     (case it of ShowText t \<Rightarrow> show_out alloc c t
      | ShowStep f v \<Rightarrow> steps f c v
      | ShowLeave v \<Rightarrow> Ok (show_leave_step c v))"

partial_function (option) show_drain ::
    "(int \<Rightarrow> bool) \<Rightarrow> ('f \<Rightarrow> 'f show_ctx \<Rightarrow> slot \<Rightarrow> 'f show_ctx rt) \<Rightarrow> 'f show_ctx \<Rightarrow> 'f show_ctx rt option" where
  "show_drain alloc steps c =
     (case sc_items c of [] \<Rightarrow> Some (Ok c)
      | it # items \<Rightarrow>
          (case run_item alloc steps (c\<lparr>sc_items := items\<rparr>) it of
             Ok c' \<Rightarrow> show_drain alloc steps c'
           | Panic m line col \<Rightarrow> Some (Panic m line col)
           | Fault \<Rightarrow> Some Fault))"

definition show_finish ::
    "(int \<Rightarrow> bool) \<Rightarrow> ('f \<Rightarrow> 'f show_ctx \<Rightarrow> slot \<Rightarrow> 'f show_ctx rt) \<Rightarrow> 'f show_ctx \<Rightarrow> bstr rt option" where
  "show_finish alloc steps c = map_option (\<lambda>r. rt_bind r (\<lambda>c'. Ok (sc_out c'))) (show_drain alloc steps c)"

definition empty_ctx :: "'f show_ctx" where
  "empty_ctx = \<lparr>sc_items = [], sc_cap = 0, sc_out = [], sc_ocap = 0, sc_path = [], sc_pcap = 0\<rparr>"

text \<open>The outcome of a prefix that cannot fail to return, followed by the drain.\<close>

definition then_finish ::
    "(int \<Rightarrow> bool) \<Rightarrow> ('f \<Rightarrow> 'f show_ctx \<Rightarrow> slot \<Rightarrow> 'f show_ctx rt) \<Rightarrow> 'f show_ctx rt \<Rightarrow> bstr rt option" where
  "then_finish alloc steps r =
     (case r of Ok c \<Rightarrow> show_finish alloc steps c
      | Panic m line col \<Rightarrow> Some (Panic m line col) | Fault \<Rightarrow> Some Fault)"

definition beans_show_run ::
    "(int \<Rightarrow> bool) \<Rightarrow> ('f \<Rightarrow> 'f show_ctx \<Rightarrow> slot \<Rightarrow> 'f show_ctx rt) \<Rightarrow> 'f \<Rightarrow> slot \<Rightarrow> bstr rt option" where
  "beans_show_run alloc steps f v = then_finish alloc steps (show_push alloc empty_ctx (ShowStep f v))"

text \<open>\<open>base\<close> is the address of the list's storage; the walk goes backward, a separator over every element but the first.\<close>

fun push_wide :: "(int \<Rightarrow> bool) \<Rightarrow> 'f show_ctx \<Rightarrow> slot \<Rightarrow> int \<Rightarrow> bstr \<Rightarrow> 'f \<Rightarrow> nat \<Rightarrow> 'f show_ctx rt" where
  "push_wide alloc c base stride sep elem_step 0 = Ok c"
| "push_wide alloc c base stride sep elem_step (Suc i) =
     rt_bind (show_push alloc c (ShowStep elem_step (base + of_nat i * of_int stride))) (\<lambda>c1.
     rt_bind (if i > 0 then show_push alloc c1 (ShowText sep) else Ok c1) (\<lambda>c2.
       push_wide alloc c2 base stride sep elem_step i))"

definition beans_list_join_wide ::
    "(int \<Rightarrow> bool) \<Rightarrow> ('f \<Rightarrow> 'f show_ctx \<Rightarrow> slot \<Rightarrow> 'f show_ctx rt) \<Rightarrow> slot \<Rightarrow> blist \<Rightarrow> bstr \<Rightarrow> 'f \<Rightarrow> bstr rt option" where
  "beans_list_join_wide alloc steps base l sep elem_step =
     (let stride = (if l_stride l < 0 then - l_stride l else l_stride l) in
      then_finish alloc steps (push_wide alloc empty_ctx base stride sep elem_step (l_len l)))"

section \<open>The emitted steps\<close>

text \<open>
  What a step function finds at its value. A leaf is a text (a scalar, a string, an empty variant); a
  group is an opening text, children and a closing text (\<^verbatim>\<open>some(x)\<close>, \<^verbatim>\<open>ok(x)\<close>, an enum variant with
  payloads, a list of wide values); a struct and a class instance have a name and labelled fields, of
  which a weak one is never loaded; lists and maps go through the two runtime walks.
\<close>

datatype 'f content = Weak | Child 'f slot

type_synonym 'f entry = "bstr option \<times> 'f content"

datatype 'f shape =
    ShLeaf bstr
  | ShGroup bstr bstr "'f entry list"
  | ShStruct bstr "'f entry list"
  | ShClass bstr "'f entry list"
  | ShList blist 'f
  | ShMap slot bmap 'f 'f bool

fun entry_items :: "'f entry \<Rightarrow> 'f show_item list" where
  "entry_items (label, item) =
     (case item of Weak \<Rightarrow> ShowText (asc ''<weak>'') | Child f v \<Rightarrow> ShowStep f v) #
     (case label of None \<Rightarrow> [] | Some t \<Rightarrow> [ShowText t])"

text \<open>The pushes for the fields, last field first, a comma over every field but the first.\<close>

fun entries_pushed :: "'f entry list \<Rightarrow> 'f show_item list" where
  "entries_pushed [] = []"
| "entries_pushed (e # es) =
     entry_items e @ (if es \<noteq> [] then [ShowText (asc '', '')] else []) @ entries_pushed es"

definition group_body ::
    "(int \<Rightarrow> bool) \<Rightarrow> 'f show_ctx \<Rightarrow> bstr \<Rightarrow> bstr \<Rightarrow> 'f entry list \<Rightarrow> 'f show_ctx rt" where
  "group_body alloc c opening closing es =
     rt_bind (beans_show_append alloc c opening) (\<lambda>c1.
     rt_bind (beans_show_push_lit alloc c1 closing) (\<lambda>c2.
       push_all alloc c2 (entries_pushed (rev es))))"

definition request_record_fields ::
    "(int \<Rightarrow> bool) \<Rightarrow> 'f show_ctx \<Rightarrow> bstr \<Rightarrow> 'f entry list \<Rightarrow> 'f show_ctx rt" where
  "request_record_fields alloc c tag es =
     (if es = [] then beans_show_append alloc c (tag @ asc '' {}'')
      else group_body alloc c (tag @ asc '' { '') (asc '' }'') es)"

definition request_class_show_body ::
    "(int \<Rightarrow> bool) \<Rightarrow> 'f show_ctx \<Rightarrow> slot \<Rightarrow> bstr \<Rightarrow> 'f entry list \<Rightarrow> 'f show_ctx rt" where
  "request_class_show_body alloc c v tag es =
     rt_bind (beans_show_enter alloc c v) (\<lambda>(onpath, c1).
       if onpath then beans_show_append alloc c1 (asc ''<cycle>'')
       else rt_bind (beans_show_push_leave alloc c1 v) (\<lambda>c2. request_record_fields alloc c2 tag es))"

definition shape_step ::
    "(int \<Rightarrow> bool) \<Rightarrow> ('f \<Rightarrow> slot \<Rightarrow> 'f shape) \<Rightarrow> 'f \<Rightarrow> 'f show_ctx \<Rightarrow> slot \<Rightarrow> 'f show_ctx rt" where
  "shape_step alloc shape f c v =
     (case shape f v of
        ShLeaf t \<Rightarrow> beans_show_append alloc c t
      | ShGroup opening closing es \<Rightarrow> group_body alloc c opening closing es
      | ShStruct tag es \<Rightarrow> request_record_fields alloc c tag es
      | ShClass tag es \<Rightarrow> request_class_show_body alloc c v tag es
      | ShList l g \<Rightarrow> beans_show_list_iter alloc c l g
      | ShMap base m key_step val_step wide \<Rightarrow> beans_show_map_iter alloc c base m key_step val_step wide)"

section \<open>The recursive rendering\<close>

text \<open>
  The specification: the parts a shape displays, in reading order, each a text or a nested value, and
  their texts put together. The nesting depth \<open>d\<close> bounds the recursion; \<open>path\<close> are the instances being
  displayed.
\<close>

fun commas :: "'f show_item list list \<Rightarrow> 'f show_item list" where
  "commas [] = []"
| "commas [x] = x"
| "commas (x # y # xs) = x @ ShowText (asc '', '') # commas (y # xs)"

definition live_positions :: "bmap \<Rightarrow> nat list" where
  "live_positions m = [i \<leftarrow> [0..<m_used m]. \<not> map_dead m i]"

definition shown_value :: "slot \<Rightarrow> bmap \<Rightarrow> bool \<Rightarrow> nat \<Rightarrow> slot" where
  "shown_value base m wide i =
     (if wide then base + of_nat i * of_int (m_vstride m) else hd (snd (m_data m ! i)))"

definition entry_parts :: "slot \<Rightarrow> bmap \<Rightarrow> 'f \<Rightarrow> 'f \<Rightarrow> bool \<Rightarrow> nat \<Rightarrow> 'f show_item list" where
  "entry_parts base m kf vf wide i =
     [ShowStep kf (fst (m_data m ! i)), ShowText (asc '': ''), ShowStep vf (shown_value base m wide i)]"

definition record_parts :: "bstr \<Rightarrow> 'f entry list \<Rightarrow> 'f show_item list" where
  "record_parts tag es =
     (if es = [] then [ShowText (tag @ asc '' {}'')]
      else ShowText (tag @ asc '' { '') # commas (map (rev \<circ> entry_items) es) @ [ShowText (asc '' }'')])"

fun shape_parts :: "'f shape \<Rightarrow> 'f show_item list" where
  "shape_parts (ShLeaf t) = [ShowText t]"
| "shape_parts (ShGroup opening closing es) =
     ShowText opening # commas (map (rev \<circ> entry_items) es) @ [ShowText closing]"
| "shape_parts (ShStruct tag es) = record_parts tag es"
| "shape_parts (ShClass tag es) = record_parts tag es"
| "shape_parts (ShList l g) =
     ShowText (asc ''['') # commas (map (\<lambda>v. [ShowStep g v]) (slots l)) @ [ShowText (asc '']'')]"
| "shape_parts (ShMap base m kf vf wide) =
     ShowText (asc ''{'') # commas (map (entry_parts base m kf vf wide) (live_positions m)) @
       [ShowText (asc ''}'')]"

fun is_class :: "'f shape \<Rightarrow> bool" where
  "is_class (ShClass tag es) = True"
| "is_class _ = False"

primrec render :: "('f \<Rightarrow> slot \<Rightarrow> 'f shape) \<Rightarrow> nat \<Rightarrow> slot list \<Rightarrow> 'f show_item \<Rightarrow> bstr option" where
  "render shape 0 path it = (case it of ShowText t \<Rightarrow> Some t | _ \<Rightarrow> None)"
| "render shape (Suc d) path it =
     (case it of ShowText t \<Rightarrow> Some t
      | ShowLeave v \<Rightarrow> None
      | ShowStep f v \<Rightarrow>
          let s = shape f v in
          if is_class s \<and> v \<in> set path then Some (asc ''<cycle>'')
          else map_option concat
            (those (map (render shape d (if is_class s then v # path else path)) (shape_parts s))))"

text \<open>A list or map whose storage holds what its header says.\<close>

fun shape_ok :: "'f shape \<Rightarrow> bool" where
  "shape_ok (ShList l g) \<longleftrightarrow> readable l"
| "shape_ok (ShMap base m kf vf wide) \<longleftrightarrow>
     m_used m \<le> length (m_data m) \<and> (wide \<or> list_all (\<lambda>(k, e). e \<noteq> []) (take (m_used m) (m_data m)))"
| "shape_ok _ \<longleftrightarrow> True"

section \<open>One step of the driver\<close>

text \<open>
  \<open>pushed alloc c r text items path\<close>: the outcome \<open>r\<close> of a run from \<open>c\<close> that wrote \<open>text\<close>, left
  \<open>items\<close> as the stack and \<open>path\<close> as the path; the only other outcomes are those of a refused request.
\<close>

definition ctx_ok :: "'f show_ctx \<Rightarrow> bool" where
  "ctx_ok c \<longleftrightarrow> int (length (sc_items c)) \<le> sc_cap c \<and> int (length (sc_path c)) \<le> sc_pcap c"

definition starved :: "(int \<Rightarrow> bool) \<Rightarrow> 'a rt \<Rightarrow> bool" where
  "starved alloc r \<longleftrightarrow> (r = Fault \<or> r = Panic (asc ''out of memory'') 0 0) \<and> (\<exists>n. \<not> alloc n)"

definition pushed ::
    "(int \<Rightarrow> bool) \<Rightarrow> 'f show_ctx \<Rightarrow> 'f show_ctx rt \<Rightarrow> bstr \<Rightarrow> 'f show_item list \<Rightarrow> slot list \<Rightarrow> bool" where
  "pushed alloc c r t items path \<longleftrightarrow>
     starved alloc r \<or>
     (\<exists>c'. r = Ok c' \<and> ctx_ok c' \<and> sc_out c' = sc_out c @ t \<and> sc_items c' = items \<and> sc_path c' = path)"

lemma starved_bind: "starved alloc r \<Longrightarrow> starved alloc (rt_bind r f)"
  by (auto simp: starved_def)

lemma pushed_bind:
  assumes "pushed alloc c r t items path"
    and "\<And>c'. ctx_ok c' \<Longrightarrow> sc_out c' = sc_out c @ t \<Longrightarrow> sc_items c' = items \<Longrightarrow> sc_path c' = path \<Longrightarrow>
      pushed alloc c' (f c') u items' path'"
  shows "pushed alloc c (rt_bind r f) (t @ u) items' path'"
  using assms by (fastforce simp: pushed_def starved_bind)

lemma show_out_pushed: "ctx_ok c \<Longrightarrow> pushed alloc c (show_out alloc c t) t (sc_items c) (sc_path c)"
  by (auto simp: pushed_def show_out_def end_write_def starved_def ctx_ok_def Let_def)

lemma show_push_pushed: "ctx_ok c \<Longrightarrow> pushed alloc c (show_push alloc c it) [] (it # sc_items c) (sc_path c)"
  by (auto simp: pushed_def show_push_def starved_def ctx_ok_def Let_def)

lemma push_all_pushed: "ctx_ok c \<Longrightarrow> pushed alloc c (push_all alloc c its) [] (rev its @ sc_items c) (sc_path c)"
proof (induction its arbitrary: c)
  case Nil
  then show ?case by (simp add: pushed_def)
next
  case (Cons it its)
  have "pushed alloc c (rt_bind (show_push alloc c it) (\<lambda>c'. push_all alloc c' its)) ([] @ [])
      (rev its @ it # sc_items c) (sc_path c)"
  proof (rule pushed_bind [OF show_push_pushed [OF Cons.prems]])
    fix c' :: "'a show_ctx"
    assume "ctx_ok c'" "sc_items c' = it # sc_items c" "sc_path c' = sc_path c"
    then show "pushed alloc c' (push_all alloc c' its) [] (rev its @ it # sc_items c) (sc_path c)"
      using Cons.IH [of c'] by simp
  qed
  then show ?case by simp
qed

text \<open>Pushing in reverse is listing in reading order.\<close>

lemma commas_snoc: "xs \<noteq> [] \<Longrightarrow> commas (xs @ [x]) = commas xs @ ShowText (asc '', '') # x"
  by (induction xs rule: commas.induct) auto

lemma rev_entries_pushed: "rev (entries_pushed (rev es)) = commas (map (rev \<circ> entry_items) es)"
  by (induction es rule: rev_induct) (auto simp: commas_snoc)

lemma group_body_pushed:
  assumes "ctx_ok c"
  shows "pushed alloc c (group_body alloc c opening closing es) opening
    (commas (map (rev \<circ> entry_items) es) @ ShowText closing # sc_items c) (sc_path c)"
proof -
  have "pushed alloc c (group_body alloc c opening closing es) (opening @ [] @ [])
    (rev (entries_pushed (rev es)) @ ShowText closing # sc_items c) (sc_path c)"
    unfolding group_body_def beans_show_append_def beans_show_push_lit_def
    by (intro pushed_bind [OF show_out_pushed [OF assms]], rule pushed_bind [OF show_push_pushed], assumption)
      (metis push_all_pushed)
  then show ?thesis by (simp add: rev_entries_pushed)
qed

lemma push_list_rest_pushed:
  assumes "readable l" "ctx_ok c" "n \<le> l_len l"
  shows "pushed alloc c (push_list_rest alloc c l g n) []
    (concat (map (\<lambda>v. [ShowText (asc '', ''), ShowStep g v]) (drop 1 (take n (slots l)))) @ sc_items c) (sc_path c)"
  using assms(2,3)
proof (induction n arbitrary: c)
  case 0
  then show ?case by (simp add: pushed_def)
next
  case (Suc n)
  show ?case
  proof (cases n)
    case 0
    then show ?thesis using Suc.prems by (simp add: pushed_def take_Suc)
  next
    case (Suc k)
    have k: "Suc k < l_len l" using Suc Suc.prems by simp
    let ?v = "slots l ! Suc k"
    have "pushed alloc c (rt_bind (push_all alloc c [ShowStep g ?v, ShowText (asc '', '')])
        (\<lambda>c'. push_list_rest alloc c' l g (Suc k))) ([] @ [])
      (concat (map (\<lambda>v. [ShowText (asc '', ''), ShowStep g v]) (drop 1 (take (Suc k) (slots l)))) @
        [ShowText (asc '', ''), ShowStep g ?v] @ sc_items c) (sc_path c)"
    proof (rule pushed_bind [OF push_all_pushed [OF Suc.prems(1)]])
      fix c' :: "'a show_ctx"
      assume "ctx_ok c'" "sc_items c' = rev [ShowStep g ?v, ShowText (asc '', '')] @ sc_items c" "sc_path c' = sc_path c"
      then show "pushed alloc c' (push_list_rest alloc c' l g (Suc k)) []
          (concat (map (\<lambda>v. [ShowText (asc '', ''), ShowStep g v]) (drop 1 (take (Suc k) (slots l)))) @
            [ShowText (asc '', ''), ShowStep g ?v] @ sc_items c) (sc_path c)"
        using Suc.IH [of c'] Suc Suc.prems by simp
    qed
    moreover have "take (Suc (Suc k)) (slots l) = take (Suc k) (slots l) @ [?v]"
      using k by (simp add: take_Suc_conv_app_nth length_slots [OF assms(1)])
    moreover have "length (take (Suc k) (slots l)) = Suc k" using k by (simp add: length_slots [OF assms(1)])
    ultimately show ?thesis using Suc list_slot_at_slots [OF assms(1) k] by simp
  qed
qed

lemma commas_singletons:
  "commas (map (\<lambda>v. [ShowStep g v]) (x # xs)) =
   ShowStep g x # concat (map (\<lambda>v. [ShowText (asc '', ''), ShowStep g v]) xs)"
  by (induction xs arbitrary: x) auto

lemma list_iter_pushed:
  assumes "readable l" "ctx_ok c"
  shows "pushed alloc c (beans_show_list_iter alloc c l g) (asc ''['')
    (commas (map (\<lambda>v. [ShowStep g v]) (slots l)) @ ShowText (asc '']'') # sc_items c) (sc_path c)"
proof -
  let ?rest = "concat (map (\<lambda>v. [ShowText (asc '', ''), ShowStep g v]) (drop 1 (slots l)))"
  have len: "length (slots l) = l_len l" by (rule length_slots [OF assms(1)])
  have last: "pushed alloc c' (if l_len l > 0
      then rt_bind (list_slot_at l 0) (\<lambda>v. show_push alloc c' (ShowStep g v)) else Ok c') []
    (commas (map (\<lambda>v. [ShowStep g v]) (slots l)) @ its) path"
    if "ctx_ok c'" "sc_items c' = ?rest @ its" "sc_path c' = path" for c' its path
  proof (cases "slots l")
    case Nil
    then show ?thesis using that len by (simp add: pushed_def)
  next
    case (Cons x xs)
    then have "l_len l > 0" "list_slot_at l 0 = Ok x" using len list_slot_at_slots [OF assms(1), of 0] by auto
    then show ?thesis using that Cons show_push_pushed [OF that(1), of alloc "ShowStep g x"]
      by (simp add: commas_singletons del: list.map)
  qed
  have "pushed alloc c (beans_show_list_iter alloc c l g) (asc ''['' @ [] @ [] @ [])
    (commas (map (\<lambda>v. [ShowStep g v]) (slots l)) @ ShowText (asc '']'') # sc_items c) (sc_path c)"
    unfolding beans_show_list_iter_def
  proof (intro pushed_bind [OF show_out_pushed [OF assms(2)]], rule pushed_bind [OF show_push_pushed], assumption,
      rule pushed_bind [OF push_list_rest_pushed [OF assms(1)]], assumption, rule order_refl)
  qed (simp add: last len)
  then show ?thesis by simp
qed

lemma commas_map:
  "commas (map g (x # xs)) = g x @ concat (map (\<lambda>v. ShowText (asc '', '') # g v) xs)"
  by (induction xs arbitrary: x) auto

definition map_readable :: "bmap \<Rightarrow> bool \<Rightarrow> bool" where
  "map_readable m wide \<longleftrightarrow> m_used m \<le> length (m_data m) \<and>
     (wide \<or> list_all (\<lambda>(k, e). e \<noteq> []) (take (m_used m) (m_data m)))"

lemma map_show_value_ok:
  assumes "map_readable m wide" "i < m_used m"
  shows "map_show_value base m i wide = Ok (shown_value base m wide i)"
    and "\<exists>e. entry_at m i = Ok (fst (m_data m ! i), e)"
proof -
  have i: "i < length (m_data m)" using assms by (simp add: map_readable_def)
  show "\<exists>e. entry_at m i = Ok (fst (m_data m ! i), e)" using i by (cases "m_data m ! i") (simp add: entry_at_def)
  show "map_show_value base m i wide = Ok (shown_value base m wide i)"
  proof (cases wide)
    case False
    with assms i have "snd (m_data m ! i) \<noteq> []"
      by (auto simp: map_readable_def list_all_length case_prod_beta)
    with False i show ?thesis
      by (cases "m_data m ! i") (auto simp: map_show_value_def shown_value_def entry_at_def split: list.splits)
  qed (simp add: map_show_value_def shown_value_def)
qed

lemma push_map_entry_pushed:
  assumes "map_readable m wide" "i < m_used m" "ctx_ok c"
  shows "pushed alloc c (push_map_entry alloc c base m kf vf wide i) []
    (entry_parts base m kf vf wide i @ sc_items c) (sc_path c)"
proof -
  obtain e where "entry_at m i = Ok (fst (m_data m ! i), e)" using map_show_value_ok(2) [OF assms(1,2)] by blast
  then show ?thesis
    using push_all_pushed [OF assms(3), of alloc "[ShowStep vf (shown_value base m wide i), ShowText (asc '': ''),
      ShowStep kf (fst (m_data m ! i))]"]
    by (simp add: push_map_entry_def map_show_value_ok(1) [OF assms(1,2)] entry_parts_def del: push_all.simps)
qed

abbreviation (input) comma_entry :: "slot \<Rightarrow> bmap \<Rightarrow> 'f \<Rightarrow> 'f \<Rightarrow> bool \<Rightarrow> nat \<Rightarrow> 'f show_item list" where
  "comma_entry base m kf vf wide i \<equiv> ShowText (asc '', '') # entry_parts base m kf vf wide i"

lemma push_map_rest_pushed:
  assumes "map_readable m wide"
  shows "ctx_ok c \<Longrightarrow> n \<le> m_used m \<Longrightarrow>
    pushed alloc c (push_map_rest alloc c base m kf vf wide first n) []
      (concat (map (comma_entry base m kf vf wide) [i \<leftarrow> [Suc first..<n]. \<not> map_dead m i]) @ sc_items c) (sc_path c)"
proof (induction n arbitrary: c)
  case (Suc n)
  show ?case
  proof (cases "Suc n > first + 1 \<and> \<not> map_dead m n")
    case True
    let ?E = "entry_parts base m kf vf wide n"
    have "pushed alloc c (rt_bind (push_map_entry alloc c base m kf vf wide n) (\<lambda>c1.
          rt_bind (show_push alloc c1 (ShowText (asc '', ''))) (\<lambda>c2.
            push_map_rest alloc c2 base m kf vf wide first n))) ([] @ [] @ [])
      (concat (map (comma_entry base m kf vf wide) [i \<leftarrow> [Suc first..<n]. \<not> map_dead m i]) @
        ShowText (asc '', '') # ?E @ sc_items c) (sc_path c)"
    proof (rule pushed_bind [OF push_map_entry_pushed [OF assms _ Suc.prems(1)]],
        use Suc.prems in simp, rule pushed_bind [OF show_push_pushed], assumption)
      fix c1 c2 :: "'a show_ctx"
      assume "sc_items c1 = ?E @ sc_items c" "sc_path c1 = sc_path c" "ctx_ok c2"
        "sc_items c2 = ShowText (asc '', '') # sc_items c1" "sc_path c2 = sc_path c1"
      then show "pushed alloc c2 (push_map_rest alloc c2 base m kf vf wide first n) []
        (concat (map (comma_entry base m kf vf wide) [i \<leftarrow> [Suc first..<n]. \<not> map_dead m i]) @
          ShowText (asc '', '') # ?E @ sc_items c) (sc_path c)"
        using Suc.IH [of c2] Suc.prems by simp
    qed
    with True show ?thesis by (simp del: upt_Suc add: upt_Suc_append)
  next
    case False
    then show ?thesis using Suc by (auto simp: pushed_def)
  qed
qed (simp add: pushed_def)

lemma find_upt:
  "List.find P [0..<n] = None \<Longrightarrow> filter P [0..<n] = []"
  "List.find P [0..<n] = Some k \<Longrightarrow> k < n \<and> filter P [0..<n] = k # filter P [Suc k..<n]"
proof -
  show "List.find P [0..<n] = None \<Longrightarrow> filter P [0..<n] = []"
    by (simp add: find_None_iff filter_empty_conv)
  assume "List.find P [0..<n] = Some k"
  then have k: "k < n" "P k" "\<forall>j<k. \<not> P j" by (auto simp: find_Some_iff)
  have "[0..<n] = [0..<k] @ k # [Suc k..<n]"
    using k(1) by (metis le0 less_imp_le_nat upt_add_eq_append upt_conv_Cons le_add_diff_inverse)
  moreover have "filter P [0..<k] = []" using k(3) by (simp add: filter_empty_conv)
  ultimately show "k < n \<and> filter P [0..<n] = k # filter P [Suc k..<n]" using k by (metis append_Nil filter.simps(2) filter_append)
qed

lemma map_iter_pushed:
  assumes "map_readable m wide" "ctx_ok c"
  shows "pushed alloc c (beans_show_map_iter alloc c base m kf vf wide) (asc ''{'')
    (commas (map (entry_parts base m kf vf wide) (live_positions m)) @ ShowText (asc ''}'') # sc_items c) (sc_path c)"
proof -
  let ?all = "commas (map (entry_parts base m kf vf wide) (live_positions m))"
  have rest: "pushed alloc c' (case first_live m of None \<Rightarrow> Ok c'
       | Some first \<Rightarrow> rt_bind (push_map_rest alloc c' base m kf vf wide first (m_used m)) (\<lambda>c3.
             push_map_entry alloc c3 base m kf vf wide first)) ([] @ []) (?all @ sc_items c') (sc_path c')"
    if ok: "ctx_ok c'" for c'
  proof (cases "first_live m")
    case None
    then have "live_positions m = []" by (simp add: first_live_def live_positions_def find_upt(1))
    with None ok show ?thesis by (simp add: pushed_def)
  next
    case (Some first)
    then have first: "first < m_used m" "live_positions m = first # [i \<leftarrow> [Suc first..<m_used m]. \<not> map_dead m i]"
      using find_upt(2) [of "\<lambda>i. \<not> map_dead m i" "m_used m" first] by (auto simp: first_live_def live_positions_def)
    have "pushed alloc c' (rt_bind (push_map_rest alloc c' base m kf vf wide first (m_used m)) (\<lambda>c3.
             push_map_entry alloc c3 base m kf vf wide first)) ([] @ []) (?all @ sc_items c') (sc_path c')"
    proof (rule pushed_bind [OF push_map_rest_pushed [OF assms(1) ok order_refl]])
      fix c3 :: "'a show_ctx"
      assume "ctx_ok c3" "sc_items c3 =
          concat (map (comma_entry base m kf vf wide) [i \<leftarrow> [Suc first..<m_used m]. \<not> map_dead m i]) @ sc_items c'"
        "sc_path c3 = sc_path c'"
      then show "pushed alloc c3 (push_map_entry alloc c3 base m kf vf wide first) [] (?all @ sc_items c') (sc_path c')"
        using push_map_entry_pushed [OF assms(1) first(1), of c3 alloc base kf vf] by (simp add: first(2) commas_map del: list.map)
    qed
    with Some show ?thesis by simp
  qed
  have "pushed alloc c (beans_show_map_iter alloc c base m kf vf wide) (asc ''{'' @ [] @ [] @ [])
    (?all @ ShowText (asc ''}'') # sc_items c) (sc_path c)"
    unfolding beans_show_map_iter_def
  proof (intro pushed_bind [OF show_out_pushed [OF assms(2)]], rule pushed_bind [OF show_push_pushed], assumption)
    fix c1 c2 :: "'a show_ctx"
    assume "sc_items c1 = sc_items c" "sc_path c1 = sc_path c" "ctx_ok c2"
      "sc_items c2 = ShowText (asc ''}'') # sc_items c1" "sc_path c2 = sc_path c1"
    with rest [of c2] show "pushed alloc c2 (case first_live m of None \<Rightarrow> Ok c2
       | Some first \<Rightarrow> rt_bind (push_map_rest alloc c2 base m kf vf wide first (m_used m)) (\<lambda>c3.
             push_map_entry alloc c3 base m kf vf wide first)) ([] @ [])
        (?all @ ShowText (asc ''}'') # sc_items c) (sc_path c)"
      by (simp only:)
  qed
  then show ?thesis by simp
qed

lemma record_fields_pushed:
  assumes "ctx_ok c"
  shows "\<exists>t its. record_parts tag es = ShowText t # its \<and>
    pushed alloc c (request_record_fields alloc c tag es) t (its @ sc_items c) (sc_path c)"
  using group_body_pushed [OF assms, of alloc "tag @ asc '' { ''" "asc '' }''" es]
    show_out_pushed [OF assms, of alloc "tag @ asc '' {}''"]
  by (auto simp: record_parts_def request_record_fields_def beans_show_append_def)

lemma plain_step_pushed:
  assumes "ctx_ok c" "shape_ok (shape f v)" "\<not> is_class (shape f v)"
  shows "\<exists>t its. shape_parts (shape f v) = ShowText t # its \<and>
    pushed alloc c (shape_step alloc shape f c v) t (its @ sc_items c) (sc_path c)"
proof (cases "shape f v")
  case (ShLeaf t)
  then show ?thesis using show_out_pushed [OF assms(1)] by (simp add: shape_step_def beans_show_append_def)
next
  case (ShGroup op cl es)
  then show ?thesis using group_body_pushed [OF assms(1)] by (simp add: shape_step_def)
next
  case (ShStruct tag es)
  then show ?thesis using record_fields_pushed [OF assms(1)] by (simp add: shape_step_def)
next
  case (ShList l g)
  then show ?thesis using list_iter_pushed [OF _ assms(1)] assms(2) by (simp add: shape_step_def)
next
  case (ShMap base m kf vf wide)
  with assms(2) have "map_readable m wide" by (simp add: map_readable_def)
  with ShMap show ?thesis using map_iter_pushed [OF _ assms(1)] by (simp add: shape_step_def)
qed (use assms(3) in simp)

lemma cycle_step_pushed:
  assumes "ctx_ok c" "is_class (shape f v)" "v \<in> set (sc_path c)"
  shows "pushed alloc c (shape_step alloc shape f c v) (asc ''<cycle>'') (sc_items c) (sc_path c)"
  using assms show_out_pushed [OF assms(1), of alloc "asc ''<cycle>''"]
  by (cases "shape f v")
    (simp_all add: shape_step_def request_class_show_body_def beans_show_enter_def beans_show_append_def)

lemma class_step_pushed:
  assumes "ctx_ok c" "is_class (shape f v)" "v \<notin> set (sc_path c)"
  shows "\<exists>t its. shape_parts (shape f v) = ShowText t # its \<and>
    pushed alloc c (shape_step alloc shape f c v) t (its @ ShowLeave v # sc_items c) (v # sc_path c)"
proof (cases "shape f v")
  case (ShClass tag es)
  obtain t its where parts: "record_parts tag es = ShowText t # its"
    using record_fields_pushed [OF assms(1), of tag es alloc] by blast
  have body: "pushed alloc c2 (request_record_fields alloc c2 tag es) t (its @ sc_items c2) (sc_path c2)"
    if "ctx_ok c2" for c2 :: "'a show_ctx"
    using record_fields_pushed [OF that, of tag es alloc] parts by auto
  have enter: "starved alloc (beans_show_enter alloc c v) \<or> (\<exists>c1. beans_show_enter alloc c v = Ok (False, c1) \<and>
      ctx_ok c1 \<and> sc_out c1 = sc_out c \<and> sc_items c1 = sc_items c \<and> sc_path c1 = v # sc_path c)"
    using assms by (auto simp: beans_show_enter_def starved_def ctx_ok_def Let_def)
  then have "pushed alloc c (request_class_show_body alloc c v tag es) t (its @ ShowLeave v # sc_items c) (v # sc_path c)"
  proof
    assume "starved alloc (beans_show_enter alloc c v)"
    then show ?thesis by (simp add: request_class_show_body_def pushed_def starved_bind)
  next
    assume "\<exists>c1. beans_show_enter alloc c v = Ok (False, c1) \<and>
      ctx_ok c1 \<and> sc_out c1 = sc_out c \<and> sc_items c1 = sc_items c \<and> sc_path c1 = v # sc_path c"
    then obtain c1 where c1: "beans_show_enter alloc c v = Ok (False, c1)" "ctx_ok c1" "sc_out c1 = sc_out c"
      "sc_items c1 = sc_items c" "sc_path c1 = v # sc_path c" by blast
    have "pushed alloc c1 (rt_bind (show_push alloc c1 (ShowLeave v)) (\<lambda>c2. request_record_fields alloc c2 tag es))
        ([] @ t) (its @ ShowLeave v # sc_items c1) (sc_path c1)"
      by (rule pushed_bind [OF show_push_pushed [OF c1(2)]]) (metis body)
    with c1 show ?thesis by (simp add: request_class_show_body_def beans_show_push_leave_def pushed_def)
  qed
  with ShClass parts show ?thesis by (simp add: shape_step_def)
qed (use assms(2) in simp_all)

section \<open>The drained stack is the rendering\<close>

definition drains ::
    "(int \<Rightarrow> bool) \<Rightarrow> ('f \<Rightarrow> 'f show_ctx \<Rightarrow> slot \<Rightarrow> 'f show_ctx rt) \<Rightarrow> 'f show_ctx \<Rightarrow> bstr \<Rightarrow>
     'f show_item list \<Rightarrow> slot list \<Rightarrow> bool" where
  "drains alloc steps c t items path \<longleftrightarrow>
     (\<exists>r. show_drain alloc steps c = Some r \<and> starved alloc r) \<or>
     (\<exists>c'. show_drain alloc steps c = show_drain alloc steps c' \<and> ctx_ok c' \<and>
        sc_out c' = sc_out c @ t \<and> sc_items c' = items \<and> sc_path c' = path)"

lemma drains_refl: "ctx_ok c \<Longrightarrow> sc_items c = items \<Longrightarrow> sc_path c = path \<Longrightarrow> drains alloc steps c [] items path"
  unfolding drains_def by auto

lemma drains_trans:
  assumes "drains alloc steps c t items path"
    and "\<And>c'. ctx_ok c' \<Longrightarrow> sc_items c' = items \<Longrightarrow> sc_path c' = path \<Longrightarrow> drains alloc steps c' u items' path'"
  shows "drains alloc steps c (t @ u) items' path'"
  using assms by (fastforce simp: drains_def)

lemma drains_item:
  assumes "sc_items c = it # items"
    and "pushed alloc (c\<lparr>sc_items := items\<rparr>) (run_item alloc steps (c\<lparr>sc_items := items\<rparr>) it) t items' path'"
  shows "drains alloc steps c t items' path'"
  using assms
  by (auto simp: drains_def pushed_def show_drain.simps [of alloc steps c] starved_def)

lemma ctx_ok_pop: "ctx_ok c \<Longrightarrow> sc_items c = it # items \<Longrightarrow> ctx_ok (c\<lparr>sc_items := items\<rparr>)"
  by (simp add: ctx_ok_def)

lemma drains_text:
  "ctx_ok c \<Longrightarrow> sc_items c = ShowText t # items \<Longrightarrow> drains alloc steps c t items (sc_path c)"
  using show_out_pushed [OF ctx_ok_pop, of c "ShowText t" items alloc t]
  by (intro drains_item [of c "ShowText t" items]) (simp_all add: run_item_def)

lemma drains_leave:
  "ctx_ok c \<Longrightarrow> sc_items c = ShowLeave v # items \<Longrightarrow> sc_path c = w # path \<Longrightarrow> drains alloc steps c [] items path"
  by (intro drains_item [of c "ShowLeave v" items])
    (auto simp: run_item_def pushed_def show_leave_step_def ctx_ok_def)

definition items_render :: "('f \<Rightarrow> slot \<Rightarrow> 'f shape) \<Rightarrow> nat \<Rightarrow> slot list \<Rightarrow> 'f show_item list \<Rightarrow> bstr option" where
  "items_render shape d path its = map_option concat (those (map (render shape d path) its))"

lemma items_render_simps [simp]:
  "items_render shape d path [] = Some []"
  "items_render shape d path (it # its) =
     Option.bind (render shape d path it) (\<lambda>t. map_option (\<lambda>u. t @ u) (items_render shape d path its))"
  by (auto simp: items_render_def map_option_case split: option.splits)

lemma render_ShowText [simp]: "render shape d path (ShowText t) = Some t"
  by (cases d) simp_all

lemma render_ShowStep:
  "render shape (Suc d) path (ShowStep f v) =
     (if is_class (shape f v) \<and> v \<in> set path then Some (asc ''<cycle>'')
      else items_render shape d (if is_class (shape f v) then v # path else path) (shape_parts (shape f v)))"
  by (simp add: items_render_def Let_def)

text \<open>One nested value, given that the items of a smaller depth drain to their rendering.\<close>

lemma drains_value:
  assumes ok: "ctx_ok c" "shape_ok (shape f v)"
    and items: "sc_items c = ShowStep f v # items" "sc_path c = path"
    and render: "render shape (Suc d) path (ShowStep f v) = Some t"
    and nested: "\<And>its path u c items. items_render shape d path its = Some u \<Longrightarrow> ctx_ok c \<Longrightarrow>
      sc_items c = its @ items \<Longrightarrow> sc_path c = path \<Longrightarrow>
      drains alloc (shape_step alloc shape) c u items path"
  shows "drains alloc (shape_step alloc shape) c t items path"
proof -
  let ?c = "c\<lparr>sc_items := items\<rparr>" and ?steps = "shape_step alloc shape"
  have pop: "ctx_ok ?c" by (rule ctx_ok_pop [OF ok(1) items(1)])
  have step: "drains alloc ?steps c h items' path'" if "pushed alloc ?c (shape_step alloc shape f ?c v) h items' path'"
    for h items' path' using drains_item [OF items(1)] that by (simp add: run_item_def)
  consider (cycle) "is_class (shape f v)" "v \<in> set path" | (fresh) "is_class (shape f v)" "v \<notin> set path"
    | (plain) "\<not> is_class (shape f v)" by blast
  then show ?thesis
  proof cases
    case cycle
    with cycle_step_pushed [OF pop, of shape f v alloc] items(2) have "drains alloc ?steps c (asc ''<cycle>'') items path"
      by (intro step) simp
    with cycle render show ?thesis by (simp add: render_ShowStep del: render.simps)
  next
    case fresh
    then obtain h its where parts: "shape_parts (shape f v) = ShowText h # its"
      and first: "drains alloc ?steps c h (its @ ShowLeave v # items) (v # path)"
      using class_step_pushed [OF pop, of shape f v alloc] items(2) step by auto
    from render fresh parts obtain u where u: "items_render shape d (v # path) its = Some u" "t = h @ u @ []"
      by (auto simp: render_ShowStep simp del: render.simps)
    show ?thesis unfolding u(2)
      by (rule drains_trans [OF first], rule drains_trans [OF nested [OF u(1)]]) (auto intro: drains_leave)
  next
    case plain
    with ok(2) obtain h its where parts: "shape_parts (shape f v) = ShowText h # its"
      and first: "drains alloc ?steps c h (its @ items) path"
      using plain_step_pushed [OF pop, of shape f v alloc] ok(2) items(2) step by auto
    from render plain parts obtain u where u: "items_render shape d path its = Some u" "t = h @ u"
      by (auto simp: render_ShowStep simp del: render.simps)
    show ?thesis unfolding u(2) by (rule drains_trans [OF first]) (rule nested [OF u(1)])
  qed
qed

lemma drains_items:
  assumes "\<And>f v. shape_ok (shape f v)"
  shows "items_render shape d path its = Some t \<Longrightarrow> ctx_ok c \<Longrightarrow> sc_items c = its @ items \<Longrightarrow>
    sc_path c = path \<Longrightarrow> drains alloc (shape_step alloc shape) c t items path"
proof (induction d arbitrary: path its t c items)
  case 0
  then show ?case
  proof (induction its arbitrary: t c)
    case (Cons it its)
    from Cons.prems(1) obtain h u where it: "it = ShowText h" "items_render shape 0 path its = Some u" "t = h @ u"
      by (cases it) (auto simp: bind_eq_Some_conv)
    show ?case unfolding it(3)
      by (rule drains_trans [OF drains_text]) (use Cons it in auto)
  qed (simp add: drains_refl)
next
  case (Suc d)
  from Suc.prems show ?case
  proof (induction its arbitrary: t c)
    case (Cons it its)
    from Cons.prems(1) obtain h u where it: "render shape (Suc d) path it = Some h"
      "items_render shape (Suc d) path its = Some u" "t = h @ u" by (auto simp: bind_eq_Some_conv)
    have "drains alloc (shape_step alloc shape) c h (its @ items) path"
    proof (cases it)
      case (ShowText x)
      with it Cons.prems show ?thesis using drains_text [of c x "its @ items"] by auto
    next
      case (ShowStep f v)
      show ?thesis
        by (rule drains_value [OF Cons.prems(2) assms _ Cons.prems(4) it(1) [unfolded ShowStep] Suc.IH])
          (use Cons.prems ShowStep in simp_all)
    qed (use it in simp)
    then show ?case unfolding it(3) by (rule drains_trans) (use Cons.IH [OF it(2)] in simp)
  qed (simp add: drains_refl)
qed

section \<open>Every printable value has a rendering\<close>

declare render.simps [simp del]

lemma items_render_mono:
  assumes "\<And>it t. render shape d path it = Some t \<Longrightarrow> render shape e path it = Some t"
  shows "items_render shape d path its = Some u \<Longrightarrow> items_render shape e path its = Some u"
  by (induction its arbitrary: u) (auto simp: bind_eq_Some_conv dest: assms)

lemma render_deeper: "render shape d path it = Some t \<Longrightarrow> render shape (Suc d) path it = Some t"
proof (induction d arbitrary: path it t)
  case 0
  then show ?case by (cases it) (simp_all add: render.simps)
next
  case (Suc d)
  have deeper: "items_render shape d p its = Some u \<Longrightarrow> items_render shape (Suc d) p its = Some u" for p its u
    by (rule items_render_mono [OF Suc.IH])
  show ?case
  proof (cases it)
    case (ShowStep f v)
    with Suc.prems show ?thesis by (auto simp: render_ShowStep deeper split: if_splits)
  qed (use Suc.prems in \<open>simp_all add: render.simps\<close>)
qed

lemma render_mono: "d \<le> e \<Longrightarrow> render shape d path it = Some t \<Longrightarrow> render shape e path it = Some t"
  by (induction rule: dec_induct) (auto intro: render_deeper)

lemma render_unique: "render shape d path it = Some t \<Longrightarrow> render shape e path it = Some u \<Longrightarrow> t = u"
  using render_mono [of d "max d e" shape path it t] render_mono [of e "max d e" shape path it u] by simp

lemma items_render_exists:
  "(\<And>it. it \<in> set its \<Longrightarrow> \<exists>d t. render shape d path it = Some t) \<Longrightarrow> \<exists>d t. items_render shape d path its = Some t"
proof (induction its)
  case (Cons it its)
  obtain d t where "render shape d path it = Some t" using Cons.prems [of it] by auto
  moreover obtain e u where "items_render shape e path its = Some u" using Cons by auto
  ultimately have "render shape (max d e) path it = Some t" "items_render shape (max d e) path its = Some u"
    using items_render_mono [of shape e path "max d e" its u] render_mono [of e "max d e" shape path]
      render_mono [of d "max d e" shape path it t] by simp_all
  then have "items_render shape (max d e) path (it # its) = Some (t @ u)" by simp
  then show ?case by blast
qed (auto simp: items_render_def)

text \<open>No leave item is among the parts of a shape.\<close>

lemma set_commas: "set (commas xs) \<subseteq> insert (ShowText (asc '', '')) (\<Union>x\<in>set xs. set x)"
  by (induction xs rule: commas.induct) auto

lemma entry_items_no_leave: "ShowLeave w \<notin> set (entry_items e)"
  by (cases e) (auto split: content.splits option.splits)

lemma commas_no_leave: "\<forall>x\<in>set xs. ShowLeave w \<notin> set x \<Longrightarrow> ShowLeave w \<notin> set (commas xs)"
  using set_commas [of xs] by auto

lemma shape_parts_no_leave: "ShowLeave w \<notin> set (shape_parts s)"
proof -
  have entries: "ShowLeave w \<notin> set (commas (map (rev \<circ> entry_items) es))" for es :: "'a entry list"
    by (rule commas_no_leave) (auto simp: entry_items_no_leave simp del: entry_items.simps)
  have "ShowLeave w \<notin> set (record_parts tag es)" for tag and es :: "'a entry list"
    using entries [of es] by (simp add: record_parts_def)
  moreover have "ShowLeave w \<notin> set (commas (map (\<lambda>v. [ShowStep g v]) vs))" for g :: 'a and vs
    by (rule commas_no_leave) auto
  moreover have "ShowLeave w \<notin> set (commas (map (entry_parts base m kf vf wide) ps))" for base m wide ps and kf vf :: 'a
    by (rule commas_no_leave) (auto simp: entry_parts_def)
  ultimately show ?thesis using entries by (cases s) auto
qed

text \<open>
  What the emitted steps guarantee: storage is as its header says; the instances are finitely many;
  and outside of classes, values are nested to a finite depth, which \<open>rank\<close> measures (a struct, an
  option or a list does not contain itself other than through a class instance).
\<close>

definition printable :: "('f \<Rightarrow> slot \<Rightarrow> 'f shape) \<Rightarrow> ('f \<Rightarrow> slot \<Rightarrow> nat) \<Rightarrow> slot set \<Rightarrow> bool" where
  "printable shape rank objs \<longleftrightarrow> finite objs \<and> (\<forall>f v. shape_ok (shape f v)) \<and>
     (\<forall>f v. is_class (shape f v) \<longrightarrow> v \<in> objs) \<and>
     (\<forall>f v g w. \<not> is_class (shape f v) \<longrightarrow> ShowStep g w \<in> set (shape_parts (shape f v)) \<longrightarrow> rank g w < rank f v)"

lemma render_exists:
  assumes "printable shape rank objs"
  shows "\<exists>d t. render shape d path (ShowStep f v) = Some t"
proof (induction "card (objs - set path)" arbitrary: path f v rule: less_induct)
  case outer: less
  show ?case
  proof (induction "rank f v" arbitrary: f v rule: less_induct)
    case inner: less
    let ?s = "shape f v" and ?path = "if is_class (shape f v) then v # path else path"
    show ?case
    proof (cases "is_class ?s \<and> v \<in> set path")
      case True
      then have "render shape (Suc 0) path (ShowStep f v) = Some (asc ''<cycle>'')"
        by (simp add: render_ShowStep)
      then show ?thesis by blast
    next
      case False
      have "\<exists>d t. items_render shape d ?path (shape_parts ?s) = Some t"
      proof (rule items_render_exists)
        fix it assume it: "it \<in> set (shape_parts ?s)"
        show "\<exists>d t. render shape d ?path it = Some t"
        proof (cases it)
          case (ShowStep g w)
          show ?thesis
          proof (cases "is_class ?s")
            case True
            with False assms have "v \<in> objs" "v \<notin> set path" "finite objs" by (auto simp: printable_def)
            then have "card (objs - set (v # path)) < card (objs - set path)"
              by (intro psubset_card_mono) auto
            from outer.hyps [OF this] True ShowStep show ?thesis by simp
          next
            case plain: False
            with assms it ShowStep have "rank g w < rank f v" by (auto simp: printable_def)
            from inner.hyps [OF this] plain ShowStep show ?thesis by simp
          qed
        qed (use it shape_parts_no_leave in auto)
      qed
      then obtain d t where "items_render shape d ?path (shape_parts ?s) = Some t" by blast
      with False have "render shape (Suc d) path (ShowStep f v) = Some t"
        by (simp only: render_ShowStep if_False)
      then show ?thesis by blast
    qed
  qed
qed

text \<open>A run of the driver from a stack that holds one value.\<close>

lemma show_finish_renders:
  assumes "\<And>f v. shape_ok (shape f v)" "items_render shape d [] its = Some t"
    and "ctx_ok c" "sc_items c = its" "sc_path c = []" "sc_out c = []"
  shows "\<exists>r. show_finish alloc (shape_step alloc shape) c = Some r \<and> (r = Ok t \<or> starved alloc r)"
proof -
  have "drains alloc (shape_step alloc shape) c t [] []"
    using drains_items [OF assms(1,2,3), of "[]" alloc] assms(4,5) by simp
  then show ?thesis using assms(6)
    by (auto simp: drains_def show_finish_def show_drain.simps starved_def)
qed


text \<open>Two instances that refer to each other.\<close>

definition demo_shape :: "unit \<Rightarrow> slot \<Rightarrow> unit shape" where
  "demo_shape f v =
     (if v = 1 then ShClass (asc ''Node'') [(Some (asc ''next: ''), Child () 2), (Some (asc ''up: ''), Weak)]
      else if v = 2 then ShClass (asc ''Node'') [(Some (asc ''next: ''), Child () 1)]
      else ShLeaf [])"


section \<open>Joined text\<close>

lemma join_with_snoc: "ps \<noteq> [] \<Longrightarrow> join_with sep (ps @ [p]) = join_with sep ps @ sep @ p"
  by (induction sep ps rule: join_with.induct) auto

lemma join_measure_ok:
  assumes "readable l"
  shows "i \<le> l_len l \<Longrightarrow> parts = map part (take i (slots l)) \<Longrightarrow> bytes = length (join_with sep parts) \<Longrightarrow>
    join_measure part l (length sep) i parts bytes =
      Ok (map part (slots l), length (join_with sep (map part (slots l))))"
proof (induction "l_len l - i" arbitrary: i parts bytes)
  case 0
  then have "take i (slots l) = slots l" using length_slots [OF assms] by simp
  with 0 show ?case by (subst join_measure.simps) simp
next
  case (Suc n)
  then have i: "i < l_len l" by simp
  have next_parts: "map part (take (i + 1) (slots l)) = parts @ [part (slots l ! i)]"
    using i Suc.prems(2) by (simp add: take_Suc_conv_app_nth length_slots [OF assms])
  have "bytes + length (part (slots l ! i)) + (if i \<noteq> 0 then length sep else 0) =
      length (join_with sep (parts @ [part (slots l ! i)]))"
  proof (cases "i = 0")
    case False
    then have "parts \<noteq> []" using Suc.prems(2) i length_slots [OF assms] by auto
    with False show ?thesis by (simp add: join_with_snoc Suc.prems(3))
  qed (simp add: Suc.prems)
  then have "join_measure part l (length sep) (i + 1) (parts @ [part (slots l ! i)])
      (bytes + length (part (slots l ! i)) + (if i \<noteq> 0 then length sep else 0)) =
    Ok (map part (slots l), length (join_with sep (map part (slots l))))"
    using Suc i next_parts by (intro Suc.hyps(1)) simp_all
  with i show ?case
    by (subst join_measure.simps) (simp add: list_slot_at_slots [OF assms i] Let_def)
qed

lemma join_fill_ok:
  "length (concat (map (\<lambda>p. sep @ p) parts)) \<le> n \<Longrightarrow>
   join_fill (done @ replicate n z) (length done) sep False parts =
     Ok (done @ concat (map (\<lambda>p. sep @ p) parts) @ replicate (n - length (concat (map (\<lambda>p. sep @ p) parts))) z)"
proof (induction parts arbitrary: "done" n)
  case (Cons p parts)
  have "mem_write (done @ replicate n z) (length done) sep = Ok ((done @ sep) @ replicate (n - length sep) z)"
    using Cons.prems by (intro mem_write_fill) simp_all
  moreover have "mem_write ((done @ sep) @ replicate (n - length sep) z) (length done + length sep) p =
      Ok (((done @ sep) @ p) @ replicate (n - length sep - length p) z)"
    using Cons.prems by (intro mem_write_fill) simp_all
  ultimately show ?case
    using Cons.IH [of "n - length sep - length p" "(done @ sep) @ p"] Cons.prems by (simp add: add.assoc)
qed simp

lemma join_with_concat: "join_with sep (p # ps) = p @ concat (map (\<lambda>p. sep @ p) ps)"
  by (induction ps arbitrary: p) auto

lemma beans_list_join_text:
  assumes "readable l" "l_len l = 0 \<or> alloc (int (l_len l) * 8)"
  shows "beans_list_join alloc env ff ds l sep kind = Ok (join_with sep (map (join_part env ff ds kind) (slots l)))"
proof -
  define ps where "ps = map (join_part env ff ds kind) (slots l)"
  have measure: "join_measure (join_part env ff ds kind) l (length sep) 0 [] 0 = Ok (ps, length (join_with sep ps))"
    using join_measure_ok [OF assms(1), of 0 "[]"] by (simp add: ps_def)
  have "join_fill (str_alloc (length (join_with sep ps))) 0 sep True ps = Ok (join_with sep ps @ [0])"
  proof (cases ps)
    case (Cons p qs)
    define rest where "rest = concat (map (\<lambda>p. sep @ p) qs)"
    have all: "join_with sep ps = p @ rest" by (simp add: Cons rest_def join_with_concat)
    have "mem_write (str_alloc (length (p @ rest))) 0 p = Ok (p @ replicate (length rest + 1) 0)"
      using mem_write_fill [of 0 "[]" p "length (p @ rest) + 1" 0] by (simp add: str_alloc_def)
    then show ?thesis unfolding all using Cons join_fill_ok [of sep qs "length rest + 1" p 0]
      by (simp add: rest_def [symmetric])
  qed (simp add: str_alloc_def)
  with assms(2) measure show ?thesis by (auto simp: beans_list_join_def str_of_buf_def ps_def [symmetric])
qed

text \<open>The buffer of \<open>show_join\<close> always has room for one more bracket.\<close>

lemma join_cap_reaches: "0 < cap \<Longrightarrow> need \<le> join_cap cap need"
  by (induction cap need rule: join_cap.induct) (subst join_cap.simps, auto)

lemma show_join_loop_ok:
  assumes "readable l" "\<forall>n. alloc n"
  shows "i \<le> l_len l \<Longrightarrow> 0 < cap \<Longrightarrow> int (length buf) + 1 \<le> cap \<Longrightarrow>
    \<exists>cap'. show_join_loop alloc disp l sep i cap buf =
      Ok (cap', buf @ (if i = 0 then join_with sep (map disp (slots l))
                       else concat (map (\<lambda>v. sep @ disp v) (drop i (slots l))))) \<and>
      int (length buf + length (if i = 0 then join_with sep (map disp (slots l))
                       else concat (map (\<lambda>v. sep @ disp v) (drop i (slots l))))) + 1 \<le> cap'"
proof (induction "l_len l - i" arbitrary: i cap buf)
  case 0
  then have "drop i (slots l) = []" "i = 0 \<longrightarrow> slots l = []" using length_slots [OF assms(1)] by auto
  with 0 show ?case by (subst show_join_loop.simps) auto
next
  case (Suc n)
  then have i: "i < l_len l" by simp
  let ?s = "disp (slots l ! i)"
  define pre where "pre = (if i \<noteq> 0 then sep else [])"
  have pre_len: "int (length pre) \<le> int (length sep)" by (simp add: pre_def)
  define need where "need = int (length buf) + int (length ?s) + int (length sep) + 2"
  define cap' where "cap' = (if need > cap then join_cap cap need else cap)"
  have cap': "need \<le> cap'" "0 < cap'" using join_cap_reaches [OF Suc.prems(2), of need] Suc.prems(2)
    by (auto simp: cap'_def need_def)
  let ?rest = "concat (map (\<lambda>v. sep @ disp v) (drop (i + 1) (slots l)))"
  have looped: "\<exists>cap2. show_join_loop alloc disp l sep (i + 1) cap' (buf @ pre @ ?s) =
      Ok (cap2, (buf @ pre @ ?s) @ concat (map (\<lambda>v. sep @ disp v) (drop (i + 1) (slots l)))) \<and>
      int (length (buf @ pre @ ?s) + length (concat (map (\<lambda>v. sep @ disp v) (drop (i + 1) (slots l))))) + 1 \<le> cap2"
    using Suc.hyps(1) [of "i + 1" cap' "buf @ pre @ ?s"] Suc.hyps(2) i cap' pre_len by (simp add: need_def)
  have tail: "pre @ ?s @ ?rest =
      (if i = 0 then join_with sep (map disp (slots l)) else concat (map (\<lambda>v. sep @ disp v) (drop i (slots l))))"
  proof -
    have d: "drop i (slots l) = slots l ! i # drop (i + 1) (slots l)"
      using i length_slots [OF assms(1)] by (simp add: Cons_nth_drop_Suc)
    show ?thesis
    proof (cases "i = 0")
      case True
      with d have "slots l = slots l ! 0 # drop 1 (slots l)" by simp
      then have "map disp (slots l) = disp (slots l ! 0) # map disp (drop 1 (slots l))" by (metis list.simps(9))
      with True show ?thesis by (simp add: join_with_concat comp_def pre_def)
    qed (simp add: d pre_def)
  qed
  have "show_join_loop alloc disp l sep i cap buf = show_join_loop alloc disp l sep (i + 1) cap' (buf @ pre @ ?s)"
  proof -
    have "int (length buf) + int (length pre) + int (length ?s) \<le> cap'" using cap'(1) pre_len by (simp add: need_def)
    then have writes: "(if i \<noteq> 0 then end_write cap' buf sep else Ok buf) = Ok (buf @ pre)"
      "end_write cap' (buf @ pre) ?s = Ok (buf @ pre @ ?s)" by (auto simp: end_write_def pre_def split: if_splits)
    show ?thesis using i assms(2)
      unfolding show_join_loop.simps [of alloc disp l sep i] list_slot_at_slots [OF assms(1) i] rt_bind.simps
        Let_def need_def [symmetric] cap'_def [symmetric] writes by simp
  qed
  with looped show ?case unfolding tail [symmetric] by (simp add: add.assoc)
qed


definition demo_numbers :: blist where
  "demo_numbers = \<lparr>l_buf = [[3], [-4], [0], [0]], l_inline = True, l_len = 2, l_cap = 4, l_stride = -8,
     l_mask = 0, l_count = 2, l_kind = 0\<rparr>"


end
