(* ===== verification/Rt_Wide.thy ===== *)
theory Rt_Wide
  imports Rt_Strings
begin

unbundle bit_operations_syntax

text \<open>
  The integers behind the decimal type (\<^verbatim>\<open>src/runtime/beans_rt.c\<close>): unsigned 128-bit numbers in two
  64-bit words (\<^verbatim>\<open>BU128\<close>) and unsigned 512-bit numbers in eight limbs (\<^verbatim>\<open>BDecWide\<close>), written without
  any machine type wider than 64 bits.

  \<open>bu_val\<close> and \<open>wide_val\<close> are the numbers the words stand for. Every operation is proved exact: it
  computes the sum, difference, product or quotient of those numbers, and its flag or panic says
  precisely when the result does not fit.
\<close>

section \<open>Two words\<close>

record bu128 =
  bu_lo :: u64
  bu_hi :: u64

definition bu_zero :: "bu128 \<Rightarrow> bool" where
  "bu_zero v \<longleftrightarrow> bu_lo v = 0 \<and> bu_hi v = 0"

definition bu_cmp :: "bu128 \<Rightarrow> bu128 \<Rightarrow> int" where
  "bu_cmp a b =
     (if bu_hi a \<noteq> bu_hi b then (if bu_hi a < bu_hi b then -1 else 1)
      else if bu_lo a \<noteq> bu_lo b then (if bu_lo a < bu_lo b then -1 else 1)
      else 0)"

definition bu_sub :: "bu128 \<Rightarrow> bu128 \<Rightarrow> bu128" where
  "bu_sub a b = \<lparr>bu_lo = bu_lo a - bu_lo b,
                 bu_hi = bu_hi a - bu_hi b - (if bu_lo a < bu_lo b then 1 else 0)\<rparr>"

definition bu_twos :: "bu128 \<Rightarrow> bu128" where
  "bu_twos v =
     (let lo = NOT (bu_lo v) + 1; hi = NOT (bu_hi v) in
      \<lparr>bu_lo = lo, bu_hi = (if lo = 0 then hi + 1 else hi)\<rparr>)"

text \<open>The product of two words by their halves.\<close>

definition bu_mul64 :: "u64 \<Rightarrow> u64 \<Rightarrow> bu128" where
  "bu_mul64 a b =
     (let m = 0xffffffff;
          a0 = a AND m; a1 = drop_bit 32 a; b0 = b AND m; b1 = drop_bit 32 b;
          p00 = a0 * b0; p01 = a0 * b1; p10 = a1 * b0; p11 = a1 * b1;
          middle = drop_bit 32 p00 + (p01 AND m) + (p10 AND m) in
      \<lparr>bu_lo = (p00 AND m) OR push_bit 32 middle,
       bu_hi = p11 + drop_bit 32 p01 + drop_bit 32 p10 + drop_bit 32 middle\<rparr>)"

text \<open>The second component is the flag the C function returns.\<close>

definition bu_mul_small :: "bu128 \<Rightarrow> u32 \<Rightarrow> bu128 \<times> bool" where
  "bu_mul_small v factor =
     (let low = bu_mul64 (bu_lo v) (ucast factor); high = bu_mul64 (bu_hi v) (ucast factor);
          hi = bu_lo high + bu_hi low in
      (\<lparr>bu_lo = bu_lo low, bu_hi = hi\<rparr>, bu_hi high = 0 \<and> hi \<ge> bu_lo high))"

definition bu_add_small :: "bu128 \<Rightarrow> u32 \<Rightarrow> bu128 \<times> bool" where
  "bu_add_small v addend =
     (let lo = bu_lo v + ucast addend; carry = (lo < bu_lo v);
          hi = bu_hi v + (if carry then 1 else 0) in
      (\<lparr>bu_lo = lo, bu_hi = hi\<rparr>, \<not> carry \<or> hi \<noteq> 0))"

text \<open>Long division by a 32-bit divisor, one 32-bit word of the dividend at a time.\<close>

fun div_words :: "u64 \<Rightarrow> u32 list \<Rightarrow> u64 \<Rightarrow> u32 list \<times> u64" where
  "div_words d [] rem = ([], rem)"
| "div_words d (w # ws) rem =
     (let current = push_bit 32 rem OR ucast w; (qs, r) = div_words d ws (current mod d) in
      (ucast (current div d) # qs, r))"

definition bu_div_small :: "bu128 \<Rightarrow> u32 \<Rightarrow> (bu128 \<times> u32) option" where
  "bu_div_small v divisor =
     (if divisor = 0 then None
      else
        let ws = [ucast (drop_bit 32 (bu_hi v)), ucast (bu_hi v), ucast (drop_bit 32 (bu_lo v)), ucast (bu_lo v)] in
        case div_words (ucast divisor) ws 0 of
          ([q0, q1, q2, q3], r) \<Rightarrow>
            Some (\<lparr>bu_lo = push_bit 32 (ucast q2) OR ucast q3,
                   bu_hi = push_bit 32 (ucast q0) OR ucast q1\<rparr>, ucast r)
        | _ \<Rightarrow> None)"

definition bu_bit :: "bu128 \<Rightarrow> nat \<Rightarrow> bool" where
  "bu_bit v n = (if n < 64 then drop_bit n (bu_lo v) AND 1 = 1 else drop_bit (n - 64) (bu_hi v) AND 1 = 1)"

definition bu_set_bit :: "bu128 \<Rightarrow> nat \<Rightarrow> bu128" where
  "bu_set_bit v n =
     (if n < 64 then v\<lparr>bu_lo := bu_lo v OR push_bit n 1\<rparr>
      else v\<lparr>bu_hi := bu_hi v OR push_bit (n - 64) 1\<rparr>)"

definition bu_shift_left_one :: "bu128 \<Rightarrow> bu128 \<times> bool" where
  "bu_shift_left_one v =
     (\<lparr>bu_lo = push_bit 1 (bu_lo v), bu_hi = push_bit 1 (bu_hi v) OR drop_bit 63 (bu_lo v)\<rparr>,
      drop_bit 63 (bu_hi v) = 0)"

text \<open>The shift-and-subtract loop; \<open>n\<close> bits of the dividend are left.\<close>

fun divmod_loop :: "bu128 \<Rightarrow> bu128 \<Rightarrow> nat \<Rightarrow> bu128 \<Rightarrow> bu128 \<Rightarrow> (bu128 \<times> bu128) option" where
  "divmod_loop v d 0 q r = Some (q, r)"
| "divmod_loop v d (Suc n) q r =
     (let (r1, fits) = bu_shift_left_one r in
      if \<not> fits then None
      else
        let r2 = (if bu_bit v n then r1\<lparr>bu_lo := bu_lo r1 OR 1\<rparr> else r1) in
        if bu_cmp r2 d \<ge> 0 then divmod_loop v d n (bu_set_bit q n) (bu_sub r2 d)
        else divmod_loop v d n q r2)"

definition bu_divmod :: "bu128 \<Rightarrow> bu128 \<Rightarrow> (bu128 \<times> bu128) option" where
  "bu_divmod v d =
     (let zero = \<lparr>bu_lo = 0, bu_hi = 0\<rparr> in
      if bu_zero d then None
      else if bu_cmp v d < 0 then Some (zero, v)
      else if drop_bit 63 (bu_hi d) \<noteq> 0 then Some (zero\<lparr>bu_lo := 1\<rparr>, bu_sub v d)
      else divmod_loop v d 128 zero zero)"

section \<open>Eight limbs\<close>

abbreviation (input) BDEC_WIDE_LIMBS :: nat where "BDEC_WIDE_LIMBS \<equiv> 8"

type_synonym decw = "u64 list"

definition decw_from128 :: "bu128 \<Rightarrow> decw" where
  "decw_from128 v = (replicate BDEC_WIDE_LIMBS 0)[0 := bu_lo v, 1 := bu_hi v]"

definition decw_zero :: "decw \<Rightarrow> bool" where
  "decw_zero v \<longleftrightarrow> list_all (\<lambda>x. x = 0) v"

text \<open>The scan from the top limb down.\<close>

fun cmp_limbs :: "u64 list \<Rightarrow> u64 list \<Rightarrow> int" where
  "cmp_limbs (a # as) (b # bs) = (if a \<noteq> b then (if a < b then -1 else 1) else cmp_limbs as bs)"
| "cmp_limbs _ _ = 0"

definition decw_cmp :: "decw \<Rightarrow> decw \<Rightarrow> int" where
  "decw_cmp a b = cmp_limbs (rev a) (rev b)"

definition dec_overflow :: "int \<Rightarrow> int \<Rightarrow> 'a rt" where
  "dec_overflow line col = Panic (asc ''decimal overflow'') line col"

fun add_limbs :: "u64 list \<Rightarrow> u64 list \<Rightarrow> u64 \<Rightarrow> u64 list \<times> u64" where
  "add_limbs (a # as) (b # bs) carry =
     (let first = a + b; second = first + carry;
          carry' = (if first < a \<or> second < first then 1 else 0);
          (rest, c) = add_limbs as bs carry' in
      (second # rest, c))"
| "add_limbs _ _ carry = ([], carry)"

definition decw_add :: "decw \<Rightarrow> decw \<Rightarrow> int \<Rightarrow> int \<Rightarrow> decw rt" where
  "decw_add a b line col =
     (let (r, carry) = add_limbs a b 0 in if carry \<noteq> 0 then dec_overflow line col else Ok r)"

fun sub_limbs :: "u64 list \<Rightarrow> u64 list \<Rightarrow> u64 \<Rightarrow> u64 list" where
  "sub_limbs (a # as) (b # bs) borrow =
     (let rhs = b + borrow; wrapped = (rhs < b) in
      (a - rhs) # sub_limbs as bs (if wrapped \<or> a < rhs then 1 else 0))"
| "sub_limbs _ _ borrow = []"

definition decw_sub :: "decw \<Rightarrow> decw \<Rightarrow> decw" where
  "decw_sub a b = sub_limbs a b 0"

fun decw_increment :: "decw \<Rightarrow> int \<Rightarrow> int \<Rightarrow> decw rt" where
  "decw_increment [] line col = dec_overflow line col"
| "decw_increment (a # as) line col =
     (if a + 1 \<noteq> 0 then Ok ((a + 1) # as)
      else rt_bind (decw_increment as line col) (\<lambda>r. Ok ((a + 1) # r)))"

fun mul10_limbs :: "u64 list \<Rightarrow> u64 \<Rightarrow> u64 list \<times> u64" where
  "mul10_limbs [] carry = ([], carry)"
| "mul10_limbs (a # as) carry =
     (let product = bu_mul64 a 10; low = bu_lo product + carry;
          hi = bu_hi product + (if low < bu_lo product then 1 else 0);
          (rest, c) = mul10_limbs as hi in
      (low # rest, c))"

definition decw_mul10 :: "decw \<Rightarrow> int \<Rightarrow> int \<Rightarrow> decw rt" where
  "decw_mul10 v line col =
     (let (r, carry) = mul10_limbs v 0 in if carry \<noteq> 0 then dec_overflow line col else Ok r)"

fun mul10_times :: "nat \<Rightarrow> decw \<Rightarrow> int \<Rightarrow> int \<Rightarrow> decw rt" where
  "mul10_times 0 v line col = Ok v"
| "mul10_times (Suc n) v line col = rt_bind (decw_mul10 v line col) (\<lambda>r. mul10_times n r line col)"

definition decw_mul_pow10 :: "decw \<Rightarrow> int \<Rightarrow> int \<Rightarrow> int \<Rightarrow> decw rt" where
  "decw_mul_pow10 v e line col =
     (if e < 0 \<or> e > 150 then dec_overflow line col else mul10_times (nat e) v line col)"

text \<open>Division by ten from the top limb down, each limb in two halves; limbs are listed from the top.\<close>

fun div10_limbs :: "u64 list \<Rightarrow> u64 \<Rightarrow> u64 list \<times> u64" where
  "div10_limbs [] rem = ([], rem)"
| "div10_limbs (a # as) rem =
     (let high = push_bit 32 rem OR drop_bit 32 a;
          qh = ucast (high div 10) :: u32; r1 = high mod 10;
          low = push_bit 32 r1 OR ucast (ucast a :: u32);
          ql = ucast (low div 10) :: u32; r2 = low mod 10;
          (rest, r) = div10_limbs as r2 in
      ((push_bit 32 (ucast qh) OR ucast ql) # rest, r))"

definition decw_div10 :: "decw \<Rightarrow> decw \<times> u32" where
  "decw_div10 v = (let (r, rem) = div10_limbs (rev v) 0 in (rev r, ucast rem))"

definition decw_mod10 :: "decw \<Rightarrow> u32" where
  "decw_mod10 v = snd (decw_div10 v)"

definition decw_to128 :: "decw \<Rightarrow> int \<Rightarrow> int \<Rightarrow> bu128 rt" where
  "decw_to128 v line col =
     (if list_ex (\<lambda>x. x \<noteq> 0) (drop 2 v) then dec_overflow line col
      else Ok \<lparr>bu_lo = v ! 0, bu_hi = v ! 1\<rparr>)"

text \<open>Adding a word at a limb, with the carry running upward.\<close>

function decw_add_at :: "decw \<Rightarrow> nat \<Rightarrow> u64 \<Rightarrow> int \<Rightarrow> int \<Rightarrow> decw rt" where
  "decw_add_at out at w line col =
     (if w \<noteq> 0 then
        if at \<ge> length out then dec_overflow line col
        else
          let before = out ! at; after = before + w in
          decw_add_at (out[at := after]) (at + 1) (if after < before then 1 else 0) line col
      else Ok out)"
  by auto
termination
  by (relation "measure (\<lambda>(out, at, w, line, col). length out - at)") auto

declare decw_add_at.simps [simp del]

definition mul_cell :: "decw \<Rightarrow> nat \<Rightarrow> u64 \<Rightarrow> u64 \<Rightarrow> int \<Rightarrow> int \<Rightarrow> decw rt" where
  "mul_cell out at a b line col =
     (let product = bu_mul64 a b in
      rt_bind (decw_add_at out at (bu_lo product) line col) (\<lambda>out'.
        decw_add_at out' (at + 1) (bu_hi product) line col))"

definition decw_multiply :: "bu128 \<Rightarrow> bu128 \<Rightarrow> int \<Rightarrow> int \<Rightarrow> decw rt" where
  "decw_multiply l r line col =
     rt_bind (mul_cell (replicate BDEC_WIDE_LIMBS 0) 0 (bu_lo l) (bu_lo r) line col) (\<lambda>w0.
     rt_bind (mul_cell w0 1 (bu_lo l) (bu_hi r) line col) (\<lambda>w1.
     rt_bind (mul_cell w1 1 (bu_hi l) (bu_lo r) line col) (\<lambda>w2.
       mul_cell w2 2 (bu_hi l) (bu_hi r) line col)))"

section \<open>Words as numbers\<close>

definition bu_val :: "bu128 \<Rightarrow> nat" where
  "bu_val v = unat (bu_lo v) + 2 ^ 64 * unat (bu_hi v)"

lemma unat_low_half: "unat ((a :: u64) AND 0xffffffff) = unat a mod 2 ^ 32"
proof -
  have "(0xffffffff :: u64) = mask 32" by (simp add: mask_eq_exp_minus_1)
  then show ?thesis by (simp only: take_bit_eq_mask [symmetric] unsigned_take_bit_eq) (simp add: take_bit_eq_mod)
qed

lemma unat_high_half: "unat (drop_bit n (a :: u64)) = unat a div 2 ^ n"
  unfolding unsigned_drop_bit_eq using unat_u64_bound [of a] by (simp add: drop_bit_eq_div take_bit_nat_eq_self)

lemma unat_halves:
  assumes "unat (l :: u64) < 2 ^ 32"
  shows "unat (push_bit 32 h OR l) = unat h mod 2 ^ 32 * 2 ^ 32 + unat l"
    and "unat (l OR push_bit 32 h) = unat h mod 2 ^ 32 * 2 ^ 32 + unat l"
proof -
  have l: "l = take_bit 32 l"
    by (rule unsigned_word_eqI [where 'a = nat]) (use assms in \<open>simp add: unsigned_take_bit_eq take_bit_nat_eq_self\<close>)
  have "push_bit 32 h AND l = 0"
    by (subst l) (rule bit_eqI, auto simp: bit_simps)
  then have "push_bit 32 h OR l = push_bit 32 h + l" by (simp add: disjunctive_add_eq_or)
  moreover have high: "unat (push_bit 32 h) = unat h mod 2 ^ 32 * 2 ^ 32"
    unfolding unsigned_push_bit_eq using mod_mult_mult2 [of "unat h" "2 ^ 32" "2 ^ 32"]
    by (simp add: push_bit_eq_mult take_bit_eq_mod)
  moreover have "unat h mod 2 ^ 32 * 2 ^ 32 + unat l < 2 ^ 64"
    using mod_less_divisor [of "2 ^ 32" "unat h"] assms by simp
  ultimately show "unat (push_bit 32 h OR l) = unat h mod 2 ^ 32 * 2 ^ 32 + unat l"
    by (simp only: unat_word_ariths high) (simp add: high)
  then show "unat (l OR push_bit 32 h) = unat h mod 2 ^ 32 * 2 ^ 32 + unat l" by (simp add: or.commute)
qed

lemma word_split: "unat (a :: u64) = unat a div 2 ^ 32 * 2 ^ 32 + unat a mod 2 ^ 32"
  by simp

lemma unat_add_small: "unat (a :: u64) + unat b < 2 ^ 64 \<Longrightarrow> unat (a + b) = unat a + unat b"
  by (simp add: unat_word_ariths)

lemma unat_mult_small: "unat (a :: u64) * unat b < 2 ^ 64 \<Longrightarrow> unat (a * b) = unat a * unat b"
  by (simp add: unat_word_ariths)

lemma half_product: "x < 2 ^ 32 \<Longrightarrow> y < 2 ^ 32 \<Longrightarrow> x * y \<le> (2 ^ 32 - 1) * (2 ^ 32 - (1::nat))"
  by (intro mult_mono) auto

lemma square_split: "x mod k * k + x div k * (k * k) = x * (k :: nat)"
proof -
  have "x * k = (x div k * k + x mod k) * k" by simp
  also have "\<dots> = x mod k * k + x div k * (k * k)" by (simp only: distrib_right mult.assoc add.commute)
  finally show ?thesis by simp
qed

lemma columns:
  fixes k :: nat
  assumes "m = p00 div k + p01 mod k + p10 mod k"
    and "p01 mod k * k + p01 div k * (k * k) = p01 * k" "p10 mod k * k + p10 div k * (k * k) = p10 * k"
    and "m mod k * k + m div k * (k * k) = m * k"
  shows "m mod k * k + p00 mod k + (k * k) * (p11 + p01 div k + p10 div k + m div k) =
    p11 * (k * k) + (p01 + p10) * k + p00"
proof -
  have "m * k = p00 div k * k + p01 mod k * k + p10 mod k * k" by (simp only: assms(1) distrib_right)
  moreover have "p00 = p00 div k * k + p00 mod k" by simp
  moreover have "(k * k) * (p11 + p01 div k + p10 div k + m div k) =
      p11 * (k * k) + p01 div k * (k * k) + p10 div k * (k * k) + m div k * (k * k)" by (simp only: algebra_simps)
  moreover have "(p01 + p10) * k = p01 * k + p10 * k" by (simp only: distrib_right)
  ultimately show ?thesis using assms(2-4) by linarith
qed

lemma bu_mul64_val: "bu_val (bu_mul64 a b) = unat a * unat b"
proof -
  define A0 where "A0 = unat a mod 2 ^ 32" define A1 where "A1 = unat a div 2 ^ 32"
  define B0 where "B0 = unat b mod 2 ^ 32" define B1 where "B1 = unat b div 2 ^ 32"
  have bounds: "A0 < 2 ^ 32" "A1 < 2 ^ 32" "B0 < 2 ^ 32" "B1 < 2 ^ 32"
    using unat_u64_bound [of a] unat_u64_bound [of b]
    by (auto simp: A0_def A1_def B0_def B1_def less_mult_imp_div_less)
  have ab: "unat a = A1 * 2 ^ 32 + A0" "unat b = B1 * 2 ^ 32 + B0"
    by (simp_all add: A0_def A1_def B0_def B1_def)
  define P00 where "P00 = A0 * B0" define P01 where "P01 = A0 * B1"
  define P10 where "P10 = A1 * B0" define P11 where "P11 = A1 * B1"
  have prods: "P00 \<le> (2 ^ 32 - 1) * (2 ^ 32 - 1)" "P01 \<le> (2 ^ 32 - 1) * (2 ^ 32 - 1)"
    "P10 \<le> (2 ^ 32 - 1) * (2 ^ 32 - 1)" "P11 \<le> (2 ^ 32 - 1) * (2 ^ 32 - 1)"
    using half_product bounds by (auto simp: P00_def P01_def P10_def P11_def)
  define p00 where "p00 = (a AND 0xffffffff) * (b AND 0xffffffff)"
  define p01 where "p01 = (a AND 0xffffffff) * drop_bit 32 b"
  define p10 where "p10 = drop_bit 32 a * (b AND 0xffffffff)"
  define p11 where "p11 = drop_bit 32 a * drop_bit 32 b"
  have p: "unat p00 = P00" "unat p01 = P01" "unat p10 = P10" "unat p11 = P11"
    unfolding p00_def p01_def p10_def p11_def
    using prods by (subst unat_mult_small; simp add: unat_low_half unat_high_half P00_def P01_def P10_def P11_def
        A0_def A1_def B0_def B1_def)+
  define M where "M = P00 div 2 ^ 32 + P01 mod 2 ^ 32 + P10 mod 2 ^ 32"
  define middle where "middle = drop_bit 32 p00 + (p01 AND 0xffffffff) + (p10 AND 0xffffffff)"
  have M: "unat middle = M"
  proof -
    have "P00 div 2 ^ 32 < 2 ^ 32" "P01 mod 2 ^ 32 < 2 ^ 32" "P10 mod 2 ^ 32 < 2 ^ 32"
      using prods(1) by (simp_all add: less_mult_imp_div_less)
    then show ?thesis unfolding middle_def M_def
      by (simp add: unat_add_small unat_low_half unat_high_half p)
  qed
  have lo: "unat ((p00 AND 0xffffffff) OR push_bit 32 middle) = M mod 2 ^ 32 * 2 ^ 32 + P00 mod 2 ^ 32"
    by (subst unat_halves(2)) (simp_all add: unat_low_half p M)
  define H where "H = P11 + P01 div 2 ^ 32 + P10 div 2 ^ 32 + M div 2 ^ 32"
  have total: "M mod 2 ^ 32 * 2 ^ 32 + P00 mod 2 ^ 32 + 2 ^ 64 * H = unat a * unat b"
  proof -
    have "unat a * unat b = P11 * 2 ^ 64 + (P01 + P10) * 2 ^ 32 + P00"
      unfolding ab P00_def P01_def P10_def P11_def by (simp add: algebra_simps)
    then show ?thesis unfolding H_def
      using columns [OF M_def square_split square_split square_split, of P11] by simp
  qed
  have "unat a * unat b < 2 ^ 128"
  proof -
    have "unat a \<le> 2 ^ 64 - 1" "unat b \<le> 2 ^ 64 - 1" using unat_u64_bound [of a] unat_u64_bound [of b] by simp_all
    then have "unat a * unat b \<le> (2 ^ 64 - 1) * (2 ^ 64 - 1)" by (intro mult_mono) auto
    then show ?thesis by simp
  qed
  then have "H < 2 ^ 64" using total by simp
  then have hi: "unat (p11 + drop_bit 32 p01 + drop_bit 32 p10 + drop_bit 32 middle) = H"
    by (simp add: unat_add_small unat_high_half p M H_def)
  show ?thesis
    unfolding bu_val_def bu_mul64_def Let_def bu128.select_convs
      p00_def [symmetric] p01_def [symmetric] p10_def [symmetric] p11_def [symmetric] middle_def [symmetric] lo hi
    by (rule total)
qed

lemma bu_val_less: "bu_val v < 2 ^ 128"
  using unat_u64_bound [of "bu_lo v"] unat_u64_bound [of "bu_hi v"] by (simp add: bu_val_def)

lemma bu_val_inject: "bu_val a = bu_val b \<longleftrightarrow> a = b"
proof
  assume "bu_val a = bu_val b"
  then have "bu_val a mod 2 ^ 64 = bu_val b mod 2 ^ 64" "bu_val a div 2 ^ 64 = bu_val b div 2 ^ 64" by simp_all
  then have "bu_lo a = bu_lo b" "bu_hi a = bu_hi b"
    using unat_u64_bound [of "bu_lo a"] unat_u64_bound [of "bu_lo b"]
    by (simp_all add: bu_val_def unsigned_word_eqI)
  then show "a = b" by (cases a, cases b) simp
qed simp

lemma bu_zero_val: "bu_zero v \<longleftrightarrow> bu_val v = 0"
  by (simp add: bu_zero_def bu_val_def unat_eq_0)

text \<open>A number below \<open>2 ^ 128\<close> is compared by its high word first.\<close>

lemma two_words_less:
  assumes "l < (k :: nat)" "m < k"
  shows "l + k * h < m + k * j \<longleftrightarrow> h < j \<or> h = j \<and> l < m"
proof -
  have "h < j \<Longrightarrow> k * h + k \<le> k * j" by (metis Suc_leI mult_Suc_right mult_le_mono2 add.commute)
  moreover have "j < h \<Longrightarrow> k * j + k \<le> k * h" by (metis Suc_leI mult_Suc_right mult_le_mono2 add.commute)
  ultimately show ?thesis using assms by (cases h j rule: linorder_cases) auto
qed

lemma bu_less_val: "bu_val a < bu_val b \<longleftrightarrow> bu_hi a < bu_hi b \<or> bu_hi a = bu_hi b \<and> bu_lo a < bu_lo b"
  unfolding bu_val_def using two_words_less [OF unat_u64_bound unat_u64_bound]
  by (simp add: word_less_nat_alt word_unat_eq_iff)

lemma bu_cmp_val: "bu_cmp a b = (if bu_val a < bu_val b then -1 else if bu_val a = bu_val b then 0 else 1)"
  unfolding bu_less_val bu_val_inject by (cases a, cases b) (auto simp: bu_cmp_def)

text \<open>Subtraction with a borrow, word by word.\<close>

lemma unat_sub_borrow:
  "int (unat ((a :: u64) - b)) = int (unat a) - int (unat b) + (if a < b then 2 ^ 64 else 0)"
proof (cases "a < b")
  case True
  then have "unat a < unat b" by (simp add: word_less_nat_alt)
  then show ?thesis using True unat_u64_bound [of b]
    by (simp add: unat_sub_if' word_le_nat_alt)
qed (simp add: unat_sub not_less word_le_nat_alt)

lemma bu_sub_val:
  assumes "bu_val b \<le> bu_val a"
  shows "bu_val (bu_sub a b) = bu_val a - bu_val b"
proof -
  define c :: u64 where "c = (if bu_lo a < bu_lo b then 1 else 0)"
  have lo: "int (unat (bu_lo a - bu_lo b)) = int (unat (bu_lo a)) - int (unat (bu_lo b)) + 2 ^ 64 * int (unat c)"
    unfolding unat_sub_borrow c_def by simp
  have "unat (bu_hi b) + unat c \<le> unat (bu_hi a)"
  proof -
    have "\<not> bu_val a < bu_val b" using assms by simp
    then show ?thesis by (auto simp: bu_less_val c_def word_less_nat_alt word_unat_eq_iff split: if_splits)
  qed
  then have "unat (bu_hi a - bu_hi b) = unat (bu_hi a) - unat (bu_hi b)"
    "unat (bu_hi a - bu_hi b - c) = unat (bu_hi a) - unat (bu_hi b) - unat c"
    by (simp_all add: unat_sub word_le_nat_alt)
  with \<open>unat (bu_hi b) + unat c \<le> _\<close>
  have hi: "int (unat (bu_hi a - bu_hi b - c)) = int (unat (bu_hi a)) - int (unat (bu_hi b)) - int (unat c)" by simp
  have "int (bu_val (bu_sub a b)) = int (bu_val a) - int (bu_val b)"
    unfolding bu_val_def bu_sub_def c_def [symmetric] using lo hi by (simp add: algebra_simps)
  with assms show ?thesis by linarith
qed

lemma bu_twos_val: "bu_val (bu_twos v) = (if bu_val v = 0 then 0 else 2 ^ 128 - bu_val v)"
proof -
  have neg: "NOT w + 1 = - w" for w :: u64 by (simp add: minus_eq_not_plus_1)
  have minus: "unat (- w) = (if w = 0 then 0 else 2 ^ 64 - unat w)" for w :: u64
    using unat_sub_borrow [of 0 w] unat_u64_bound [of w] by (auto simp: word_neq_0_conv simp del: of_nat_unat)
  have not: "unat (NOT w) = 2 ^ 64 - 1 - unat w" for w :: u64
  proof -
    have "NOT w = - 1 - w" by (simp add: not_eq_complement)
    moreover have "unat (- 1 :: u64) = 2 ^ 64 - 1" by (simp add: unsigned_minus_1_eq_mask mask_eq_exp_minus_1)
    ultimately show ?thesis using unat_sub [of w "- 1"] unat_u64_bound [of w] by (simp add: word_le_nat_alt)
  qed
  show ?thesis
  proof (cases "bu_lo v = 0")
    case True
    then show ?thesis using unat_u64_bound [of "bu_hi v"]
      by (simp add: bu_val_def bu_twos_def Let_def neg minus unat_eq_0 diff_mult_distrib2)
  next
    case False
    then show ?thesis using unat_u64_bound [of "bu_lo v"] unat_u64_bound [of "bu_hi v"]
      by (simp add: bu_val_def bu_twos_def Let_def neg minus not unat_eq_0 diff_mult_distrib2)
  qed
qed

text \<open>Addition with its carry: the sum wrapped exactly when it is below an operand.\<close>

lemma add_carry: "unat ((a :: u64) + b) + (if a + b < a then 2 ^ 64 else 0) = unat a + unat b"
proof -
  have sum: "unat (a + b) = (unat a + unat b) mod 2 ^ 64" by (simp add: unat_word_ariths)
  show ?thesis
  proof (cases "unat a + unat b < 2 ^ 64")
    case True
    with sum show ?thesis by (simp add: word_less_nat_alt)
  next
    case False
    then have "(unat a + unat b) mod 2 ^ 64 = unat a + unat b - 2 ^ 64"
      using unat_u64_bound [of a] unat_u64_bound [of b] by (simp add: mod_if)
    with sum False show ?thesis using unat_u64_bound [of b] by (simp add: word_less_nat_alt)
  qed
qed

lemma unat_carry: "unat (if P then 1 else 0 :: u64) = (if P then 1 else 0)"
  by simp

lemma unat_u32_bound: "unat (w :: u32) < 2 ^ 32"
  using unsigned_less [of w] by simp

lemma unat_ucast_factor: "unat (ucast (f :: u32) :: u64) = unat f"
  using unat_u32_bound [of f] by (simp add: unsigned_ucast_eq take_bit_nat_eq_self)

lemma bu_mul_small_val:
  assumes "bu_mul_small v f = (r, ok)"
  shows "ok \<longleftrightarrow> bu_val v * unat f < 2 ^ 128" and "ok \<Longrightarrow> bu_val r = bu_val v * unat f"
proof -
  define low where "low = bu_mul64 (bu_lo v) (ucast f)"
  define high where "high = bu_mul64 (bu_hi v) (ucast f)"
  define hi where "hi = bu_lo high + bu_hi low"
  have low: "unat (bu_lo low) + 2 ^ 64 * unat (bu_hi low) = unat (bu_lo v) * unat f"
    using bu_mul64_val [of "bu_lo v" "ucast f"] by (simp add: low_def bu_val_def unat_ucast_factor)
  have high: "unat (bu_lo high) + 2 ^ 64 * unat (bu_hi high) = unat (bu_hi v) * unat f"
    using bu_mul64_val [of "bu_hi v" "ucast f"] by (simp add: high_def bu_val_def unat_ucast_factor)
  have r: "r = \<lparr>bu_lo = bu_lo low, bu_hi = hi\<rparr>" and ok: "ok \<longleftrightarrow> bu_hi high = 0 \<and> \<not> hi < bu_lo high"
    using assms by (auto simp: bu_mul_small_def Let_def low_def high_def hi_def not_less)
  define carry :: nat where "carry = (if hi < bu_lo high then 1 else 0)"
  have sum: "unat hi + 2 ^ 64 * carry = unat (bu_lo high) + unat (bu_hi low)"
    using add_carry [of "bu_lo high" "bu_hi low"] by (auto simp: hi_def carry_def)
  have total: "bu_val v * unat f = bu_val r + 2 ^ 128 * (unat (bu_hi high) + carry)"
  proof -
    have "bu_val v * unat f = unat (bu_lo v) * unat f + 2 ^ 64 * (unat (bu_hi v) * unat f)"
      by (simp add: bu_val_def distrib_right)
    also have "\<dots> = bu_val r + 2 ^ 128 * (unat (bu_hi high) + carry)"
      unfolding low [symmetric] high [symmetric] using sum by (simp add: bu_val_def r)
    finally show ?thesis .
  qed
  have ok_iff: "ok \<longleftrightarrow> unat (bu_hi high) + carry = 0" by (auto simp: ok carry_def unat_eq_0)
  show "ok \<longleftrightarrow> bu_val v * unat f < 2 ^ 128"
    unfolding total ok_iff using bu_val_less [of r] by (cases "unat (bu_hi high) + carry") auto
  show "ok \<Longrightarrow> bu_val r = bu_val v * unat f" using total by (simp add: ok_iff)
qed

lemma bu_add_small_val:
  assumes "bu_add_small v d = (r, ok)"
  shows "ok \<longleftrightarrow> bu_val v + unat d < 2 ^ 128" and "ok \<Longrightarrow> bu_val r = bu_val v + unat d"
proof -
  define lo where "lo = bu_lo v + ucast d"
  define c :: nat where "c = (if lo < bu_lo v then 1 else 0)"
  define hi where "hi = bu_hi v + (if lo < bu_lo v then 1 else 0)"
  have r: "r = \<lparr>bu_lo = lo, bu_hi = hi\<rparr>" and ok: "ok \<longleftrightarrow> c = 0 \<or> hi \<noteq> 0"
    using assms by (auto simp: bu_add_small_def Let_def lo_def hi_def c_def)
  have low: "unat lo + 2 ^ 64 * c = unat (bu_lo v) + unat d"
    using add_carry [of "bu_lo v" "ucast d"] by (auto simp: lo_def c_def unat_ucast_factor)
  define e :: nat where "e = (if hi < bu_hi v then 1 else 0)"
  have "unat hi + 2 ^ 64 * e = unat (bu_hi v) + c"
    using add_carry [of "bu_hi v" "if lo < bu_lo v then 1 else 0"] by (auto simp: hi_def c_def e_def split: if_splits)
  then have total: "bu_val v + unat d = bu_val r + 2 ^ 128 * e"
    using low by (simp add: bu_val_def r)
  have ok_iff: "ok \<longleftrightarrow> e = 0"
  proof (cases "c = 0")
    case True
    then show ?thesis by (auto simp: ok e_def hi_def c_def split: if_splits)
  next
    case False
    then have "hi = bu_hi v + 1" by (auto simp: hi_def c_def split: if_splits)
    then show ?thesis using False \<open>unat hi + 2 ^ 64 * e = unat (bu_hi v) + c\<close> unat_u64_bound [of "bu_hi v"]
      by (auto simp: ok e_def c_def word_less_nat_alt unat_eq_0 [symmetric] split: if_splits)
  qed
  show "ok \<longleftrightarrow> bu_val v + unat d < 2 ^ 128"
    unfolding total ok_iff using bu_val_less [of r] by (auto simp: e_def)
  show "ok \<Longrightarrow> bu_val r = bu_val v + unat d" using total by (simp add: ok_iff)
qed

text \<open>Long division: the words of the dividend, most significant first.\<close>

fun be_val :: "u32 list \<Rightarrow> nat" where
  "be_val [] = 0"
| "be_val (w # ws) = unat w * 2 ^ (32 * length ws) + be_val ws"

lemma unat_ucast_down: "unat (w :: u64) < 2 ^ 32 \<Longrightarrow> unat (ucast w :: u32) = unat w"
  by (simp add: unsigned_ucast_eq take_bit_nat_eq_self)

lemma unat_join_words: "unat (r :: u64) < 2 ^ 32 \<Longrightarrow> unat (push_bit 32 r OR ucast (w :: u32)) = unat r * 2 ^ 32 + unat w"
  using unat_halves(1) [of "ucast w" r] unat_u32_bound [of w] by (simp add: unat_ucast_factor)

lemma div_words_val:
  assumes "0 < unat d" "unat d < 2 ^ 32"
  shows "unat rem < unat d \<Longrightarrow> div_words d ws rem = (qs, r) \<Longrightarrow>
    length qs = length ws \<and> unat r < unat d \<and>
    unat rem * 2 ^ (32 * length ws) + be_val ws = be_val qs * unat d + unat r"
proof (induction ws arbitrary: rem qs r)
  case (Cons w ws)
  define cur where "cur = push_bit 32 rem OR ucast w"
  obtain qs' r' where rec: "div_words d ws (cur mod d) = (qs', r')" by fastforce
  have q: "qs = ucast (cur div d) # qs'" "r = r'" using Cons.prems(2) rec by (auto simp: cur_def Let_def)
  have cur: "unat cur = unat rem * 2 ^ 32 + unat w"
    using Cons.prems(1) assms(2) by (simp add: cur_def unat_join_words)
  have mod: "unat (cur mod d) = unat cur mod unat d" and div: "unat (cur div d) = unat cur div unat d"
    by (simp_all add: unat_mod unat_div)
  have "unat (cur mod d) < unat d" using assms(1) by (simp add: mod)
  from Cons.IH [OF this rec] have IH: "length qs' = length ws" "unat r' < unat d"
    "unat cur mod unat d * 2 ^ (32 * length ws) + be_val ws = be_val qs' * unat d + unat r'" by (auto simp: mod)
  have "unat cur < unat d * 2 ^ 32"
  proof -
    have "Suc (unat rem) * 2 ^ 32 \<le> unat d * 2 ^ 32" using Cons.prems(1) by (intro mult_right_mono) auto
    then show ?thesis using unat_u32_bound [of w] by (simp add: cur)
  qed
  then have small: "unat (cur div d) < 2 ^ 32" by (simp add: div less_mult_imp_div_less mult.commute)
  have "unat rem * 2 ^ (32 * length (w # ws)) + be_val (w # ws) = unat cur * 2 ^ (32 * length ws) + be_val ws"
    by (simp add: cur power_add distrib_right)
  also have "\<dots> = (unat cur div unat d * unat d + unat cur mod unat d) * 2 ^ (32 * length ws) + be_val ws"
    by simp
  also have "\<dots> = unat cur div unat d * 2 ^ (32 * length ws) * unat d + (be_val qs' * unat d + unat r')"
    unfolding IH(3) [symmetric] by (simp only: distrib_right mult.assoc mult.commute mult.left_commute add.assoc)
  finally show ?case using IH(1,2) small by (simp add: q div unat_ucast_down distrib_right)
qed simp

lemma ucast_halves:
  "unat (ucast (drop_bit 32 (w :: u64)) :: u32) = unat w div 2 ^ 32" "unat (ucast w :: u32) = unat w mod 2 ^ 32"
proof -
  have "unat w div 2 ^ 32 < 2 ^ 32" using unat_u64_bound [of w] by (simp add: less_mult_imp_div_less)
  then show "unat (ucast (drop_bit 32 w) :: u32) = unat w div 2 ^ 32"
    by (simp add: unat_ucast_down unat_high_half)
  show "unat (ucast w :: u32) = unat w mod 2 ^ 32" by (simp add: unsigned_ucast_eq take_bit_eq_mod)
qed

lemma be_val_four: "be_val [a, b, c, d] = unat a * 2 ^ 96 + unat b * 2 ^ 64 + unat c * 2 ^ 32 + unat d"
  by simp

lemma bu_div_small_val:
  assumes "d \<noteq> 0"
  shows "\<exists>q r. bu_div_small v d = Some (q, r) \<and> bu_val q = bu_val v div unat d \<and> unat r = bu_val v mod unat d"
proof -
  let ?ws = "[ucast (drop_bit 32 (bu_hi v)), ucast (bu_hi v), ucast (drop_bit 32 (bu_lo v)), ucast (bu_lo v)] :: u32 list"
  obtain qs r where dw: "div_words (ucast d) ?ws 0 = (qs, r)" by fastforce
  have d: "0 < unat (ucast d :: u64)" "unat (ucast d :: u64) < 2 ^ 32"
    using assms unat_u32_bound [of d] by (auto simp: unat_ucast_factor unat_gt_0)
  have "unat (0 :: u64) < unat (ucast d :: u64)" using d by simp
  from div_words_val [OF d this dw] have len: "length qs = 4" and r: "unat r < unat d"
    and eq: "be_val ?ws = be_val qs * unat d + unat r" by (auto simp: unat_ucast_factor)
  obtain q0 q1 q2 q3 where qs: "qs = [q0, q1, q2, q3]"
    using len by (auto simp: numeral_eq_Suc length_Suc_conv)
  have high: "x div 2 ^ 32 * 2 ^ 96 + x mod 2 ^ 32 * 2 ^ 64 = x * 2 ^ 64" for x :: nat
  proof -
    have "x * 2 ^ 64 = (x div 2 ^ 32 * 2 ^ 32 + x mod 2 ^ 32) * 2 ^ 64" by simp
    also have "\<dots> = x div 2 ^ 32 * (2 ^ 32 * 2 ^ 64) + x mod 2 ^ 32 * 2 ^ 64" by (simp only: distrib_right mult.assoc)
    finally show ?thesis by simp
  qed
  have "be_val ?ws = bu_val v"
    unfolding be_val_four ucast_halves(1) unfolding ucast_halves(2) bu_val_def high add.assoc div_mult_mod_eq
    by (simp only: add.commute mult.commute)
  with eq have v: "bu_val v = be_val qs * unat d + unat r" by simp
  let ?q = "\<lparr>bu_lo = push_bit 32 (ucast q2) OR ucast q3, bu_hi = push_bit 32 (ucast q0) OR ucast q1\<rparr>"
  have "bu_val ?q = be_val qs"
    using unat_u32_bound [of q0] unat_u32_bound [of q2]
    by (simp add: bu_val_def qs unat_join_words unat_ucast_factor)
  moreover have "bu_val v div unat d = be_val qs" "bu_val v mod unat d = unat r" using v r by simp_all
  moreover have "unat (ucast r :: u32) = unat r" using r unat_u32_bound [of d] by (simp add: unat_ucast_down)
  moreover have "bu_div_small v d = Some (?q, ucast r)" using assms dw by (simp add: bu_div_small_def qs)
  ultimately show ?thesis by simp
qed

section \<open>Shift and subtract\<close>

lemma bu_bit_val: "n < 128 \<Longrightarrow> bu_bit v n \<longleftrightarrow> odd (bu_val v div 2 ^ n)"
proof -
  assume n: "n < 128"
  have word: "(drop_bit m w AND 1 = 1) \<longleftrightarrow> odd (unat w div 2 ^ m)" for m and w :: u64
  proof -
    have "drop_bit m w AND 1 = 1 \<longleftrightarrow> bit w m"
      by (simp add: and_one_eq odd_iff_mod_2_eq_one bit_iff_odd_drop_bit)
    also have "\<dots> \<longleftrightarrow> bit (unat w) m" by (simp add: bit_unsigned_iff)
    finally show ?thesis by (simp only: bit_iff_odd)
  qed
  show ?thesis
  proof (cases "n < 64")
    case True
    then obtain k where k: "64 = n + Suc k" by (metis less_iff_Suc_add add_Suc_right)
    have "bu_val v = unat (bu_lo v) + 2 ^ n * (2 ^ Suc k * unat (bu_hi v))"
      unfolding bu_val_def k power_add by (simp only: mult.assoc)
    then have "bu_val v div 2 ^ n = unat (bu_lo v) div 2 ^ n + 2 ^ Suc k * unat (bu_hi v)" by simp
    with True show ?thesis by (simp add: bu_bit_def word)
  next
    case False
    then have "2 ^ n = (2 ^ 64 :: nat) * 2 ^ (n - 64)" by (metis le_add_diff_inverse not_less power_add)
    then have "bu_val v div 2 ^ n = bu_val v div 2 ^ 64 div 2 ^ (n - 64)" by (simp add: div_mult2_eq)
    also have "bu_val v div 2 ^ 64 = unat (bu_hi v)" using unat_u64_bound [of "bu_lo v"] by (simp add: bu_val_def)
    finally show ?thesis using False by (simp add: bu_bit_def word)
  qed
qed

lemma or_single_bit:
  assumes "unat w mod 2 ^ Suc n = 0" "n < 64"
  shows "unat ((w :: u64) OR push_bit n 1) = unat w + 2 ^ n"
proof -
  have "take_bit (Suc n) w = 0"
    using assms(1) by (metis take_bit_eq_mod unsigned_take_bit_eq unsigned_0 unsigned_word_eqI)
  then have "\<not> bit w n" by (metis bit_0_eq bit_take_bit_iff bot_apply bot_bool_def lessI)
  then have "w AND push_bit n 1 = 0" by (auto intro: bit_eqI simp: bit_simps)
  then have "w OR push_bit n 1 = w + push_bit n 1" by (simp add: disjunctive_add_eq_or)
  moreover have p: "unat (push_bit n 1 :: u64) = 2 ^ n"
    unfolding unsigned_push_bit_eq using assms(2)
    by (simp add: push_bit_eq_mult take_bit_nat_eq_self power_strict_increasing)
  moreover have "unat w + 2 ^ n < 2 ^ 64"
  proof -
    obtain m where m: "unat w = 2 ^ Suc n * m" using assms(1) by (metis mod_0_imp_dvd dvdE)
    obtain k where k: "64 = Suc n + k" using assms(2) by (metis Suc_leI le_Suc_ex)
    have "2 ^ Suc n * m < 2 ^ Suc n * 2 ^ k" using unat_u64_bound [of w] unfolding m k power_add .
    then have "Suc m \<le> 2 ^ k" by simp
    then have "2 ^ Suc n * Suc m \<le> 2 ^ Suc n * 2 ^ k" by (rule mult_le_mono2)
    then have "unat w + 2 ^ Suc n \<le> 2 ^ 64" unfolding m k power_add by simp
    moreover have "(0 :: nat) < 2 ^ n" by simp
    ultimately show ?thesis unfolding power_Suc by linarith
  qed
  ultimately show ?thesis by (simp add: unat_add_small)
qed

lemma bu_val_mod: "n \<le> 64 \<Longrightarrow> bu_val v mod 2 ^ n = unat (bu_lo v) mod 2 ^ n"
proof -
  assume "n \<le> 64"
  then obtain k where "64 = n + k" by (metis le_Suc_ex)
  then have "bu_val v = unat (bu_lo v) + 2 ^ n * (2 ^ k * unat (bu_hi v))"
    unfolding bu_val_def by (simp only: power_add mult.assoc)
  then show ?thesis by simp
qed

lemma bu_set_bit_val:
  assumes "bu_val v mod 2 ^ Suc n = 0" "n < 128"
  shows "bu_val (bu_set_bit v n) = bu_val v + 2 ^ n"
proof (cases "n < 64")
  case True
  then have "unat (bu_lo v) mod 2 ^ Suc n = 0" using assms(1) bu_val_mod [of "Suc n" v] by simp
  from or_single_bit [OF this True] True show ?thesis
    by (simp add: bu_set_bit_def bu_val_def del: push_bit_of_1)
next
  case False
  then have exp: "2 ^ Suc n = (2 ^ 64 :: nat) * 2 ^ Suc (n - 64)" "2 ^ n = (2 ^ 64 :: nat) * 2 ^ (n - 64)"
    by (metis Suc_diff_le le_SucI le_add_diff_inverse not_less power_add, metis le_add_diff_inverse not_less power_add)
  obtain m where "bu_val v = 2 ^ 64 * (2 ^ Suc (n - 64) * m)"
    using assms(1) unfolding exp(1) by (metis mod_0_imp_dvd dvdE mult.assoc)
  then have "bu_val v div 2 ^ 64 = 2 ^ Suc (n - 64) * m" by simp
  moreover have "bu_val v div 2 ^ 64 = unat (bu_hi v)" using unat_u64_bound [of "bu_lo v"] by (simp add: bu_val_def)
  ultimately have "unat (bu_hi v) mod 2 ^ Suc (n - 64) = 0" by (metis mod_mult_self1_is_0)
  from or_single_bit [OF this] assms(2) False have "unat (bu_hi v OR push_bit (n - 64) 1) = unat (bu_hi v) + 2 ^ (n - 64)"
    by simp
  then show ?thesis using False unfolding exp(2)
    by (simp add: bu_set_bit_def bu_val_def distrib_left del: push_bit_of_1)
qed

lemma bu_shift_left_one_val:
  "snd (bu_shift_left_one v) \<longleftrightarrow> bu_val v < 2 ^ 127"
  "bu_val v < 2 ^ 127 \<Longrightarrow> bu_val (fst (bu_shift_left_one v)) = 2 * bu_val v"
proof -
  have top: "drop_bit 63 w = 0 \<longleftrightarrow> unat w < 2 ^ 63" for w :: u64
    by (simp only: unat_eq_0 [symmetric] unat_high_half div_eq_0_iff) simp
  have iff: "unat (bu_hi v) < 2 ^ 63 \<longleftrightarrow> bu_val v < 2 ^ 127"
    using unat_u64_bound [of "bu_lo v"] by (simp add: bu_val_def) linarith
  show "snd (bu_shift_left_one v) \<longleftrightarrow> bu_val v < 2 ^ 127"
    by (simp only: bu_shift_left_one_def snd_conv top iff)
  assume "bu_val v < 2 ^ 127"
  then have hi: "unat (bu_hi v) < 2 ^ 63" by (simp only: iff)
  have double: "unat (push_bit 1 w) = 2 * unat w mod 2 ^ 64" for w :: u64
    unfolding unsigned_push_bit_eq by (simp add: push_bit_eq_mult take_bit_eq_mod mult.commute)
  define b where "b = unat (bu_lo v) div 2 ^ 63"
  have "b < 2" using unat_u64_bound [of "bu_lo v"] by (simp add: b_def less_mult_imp_div_less)
  have lo: "2 * unat (bu_lo v) mod 2 ^ 64 + 2 ^ 64 * b = 2 * unat (bu_lo v)"
  proof -
    have "2 * unat (bu_lo v) mod (2 * 2 ^ 63) = 2 * (unat (bu_lo v) mod 2 ^ 63)" by (rule mult_mod_right [symmetric])
    moreover have "unat (bu_lo v) = b * 2 ^ 63 + unat (bu_lo v) mod 2 ^ 63" unfolding b_def by simp
    ultimately show ?thesis by simp
  qed
  have "unat (push_bit 1 (bu_hi v)) = 2 * unat (bu_hi v)" using hi by (simp only: double) simp
  moreover have "push_bit 1 (bu_hi v) OR drop_bit 63 (bu_lo v) = push_bit 1 (bu_hi v) + drop_bit 63 (bu_lo v)"
  proof -
    have "push_bit 1 (bu_hi v) AND drop_bit 63 (bu_lo v) = 0"
    proof (rule bit_eqI)
      fix n
      have "bit (drop_bit 63 (bu_lo v)) n \<Longrightarrow> n = 0" by (cases n) (auto simp: bit_simps dest: bit_imp_le_length)
      then show "bit (push_bit 1 (bu_hi v) AND drop_bit 63 (bu_lo v)) n \<longleftrightarrow> bit (0 :: u64) n"
        unfolding bit_and_iff bit_push_bit_iff by auto
    qed
    then show ?thesis by (simp only: disjunctive_add_eq_or)
  qed
  moreover have "unat (drop_bit 63 (bu_lo v)) = b" by (simp only: unat_high_half b_def)
  ultimately have "unat (push_bit 1 (bu_hi v) OR drop_bit 63 (bu_lo v)) = 2 * unat (bu_hi v) + b"
    using hi \<open>b < 2\<close> by (simp only:) (subst unat_add_small; simp)
  then show "bu_val (fst (bu_shift_left_one v)) = 2 * bu_val v"
    unfolding bu_val_def bu_shift_left_one_def fst_conv bu128.select_convs double using lo by simp
qed

lemma divmod_step:
  fixes V d b :: nat
  assumes "b < 2" "0 < d"
  shows "(2 * V + b) div d = 2 * (V div d) + (if d \<le> 2 * (V mod d) + b then 1 else 0)"
    and "(2 * V + b) mod d = 2 * (V mod d) + b - (if d \<le> 2 * (V mod d) + b then d else 0)"
proof -
  have r: "V mod d < d" using assms(2) by simp
  have "2 * V = 2 * (d * (V div d) + V mod d)" by simp
  then have V: "2 * V + b = d * (2 * (V div d)) + (2 * (V mod d) + b)" by (simp only: distrib_left mult.left_commute)
  define X where "X = 2 * (V mod d) + b"
  have X: "X < 2 * d" using r assms(1) by (simp add: X_def)
  have "X div d = (if d \<le> X then 1 else 0)" "X mod d = X - (if d \<le> X then d else 0)"
    using X assms(2) by (auto simp: le_div_geq le_mod_geq)
  then show "(2 * V + b) div d = 2 * (V div d) + (if d \<le> 2 * (V mod d) + b then 1 else 0)"
    and "(2 * V + b) mod d = 2 * (V mod d) + b - (if d \<le> 2 * (V mod d) + b then d else 0)"
    unfolding V X_def [symmetric] using assms(2) by (simp_all only: div_mult_self4 mod_mult_self4)
qed

lemma or_low_bit:
  assumes "even (bu_val v)"
  shows "bu_val (v\<lparr>bu_lo := bu_lo v OR 1\<rparr>) = bu_val v + 1"
proof -
  have "unat (bu_lo v) mod 2 ^ Suc 0 = 0" using assms bu_val_mod [of 1 v] by (simp add: even_iff_mod_2_eq_zero)
  from or_single_bit [OF this] show ?thesis by (simp add: bu_val_def)
qed

lemma divmod_loop_val:
  assumes "0 < bu_val d" "bu_val d < 2 ^ 127"
  shows "n \<le> 128 \<Longrightarrow> bu_val q = bu_val v div 2 ^ n div bu_val d * 2 ^ n \<Longrightarrow>
    bu_val r = bu_val v div 2 ^ n mod bu_val d \<Longrightarrow>
    \<exists>q' r'. divmod_loop v d n q r = Some (q', r') \<and> bu_val q' = bu_val v div bu_val d \<and> bu_val r' = bu_val v mod bu_val d"
proof (induction n arbitrary: q r)
  case (Suc n)
  define V where "V = bu_val v div 2 ^ Suc n"
  define b :: nat where "b = bu_val v div 2 ^ n mod 2"
  have step: "bu_val v div 2 ^ n = 2 * V + b"
    by (simp add: V_def b_def div_mult2_eq [of _ "2 ^ n" 2, simplified mult.commute [of "2 ^ n" 2]])
  have b2: "b < 2" by (simp add: b_def)
  obtain r1 fits where shift: "bu_shift_left_one r = (r1, fits)" by fastforce
  have "bu_val r < bu_val d" using Suc.prems(3) assms(1) by simp
  then have small: "bu_val r < 2 ^ 127" using assms(2) by simp
  then have fits: fits and r1: "bu_val r1 = 2 * bu_val r" using bu_shift_left_one_val [of r] shift by simp_all
  define r2 where "r2 = (if bu_bit v n then r1\<lparr>bu_lo := bu_lo r1 OR 1\<rparr> else r1)"
  have "bu_bit v n \<longleftrightarrow> b = 1" using bu_bit_val [of n v] Suc.prems(1) by (simp add: b_def odd_iff_mod_2_eq_one)
  then have r2: "bu_val r2 = 2 * (V mod bu_val d) + b"
    using or_low_bit [of r1] r1 b2 Suc.prems(3) by (auto simp: r2_def V_def)
  have loop: "divmod_loop v d (Suc n) q r =
      (if bu_cmp r2 d \<ge> 0 then divmod_loop v d n (bu_set_bit q n) (bu_sub r2 d) else divmod_loop v d n q r2)"
    using shift fits by (simp add: r2_def)
  note digit = divmod_step [OF b2 assms(1), of V, folded step r2]
  show ?case
  proof (cases "bu_val d \<le> bu_val r2")
    case True
    have "bu_val q mod 2 ^ Suc n = 0" using Suc.prems(2) by simp
    then have "bu_val (bu_set_bit q n) = bu_val q + 2 ^ n" using Suc.prems(1) by (simp add: bu_set_bit_val)
    also have "\<dots> = bu_val v div 2 ^ n div bu_val d * 2 ^ n"
      using True by (simp add: digit(1) Suc.prems(2) V_def [symmetric] del: power_Suc) (simp add: algebra_simps)
    finally have q': "bu_val (bu_set_bit q n) = bu_val v div 2 ^ n div bu_val d * 2 ^ n" .
    have r': "bu_val (bu_sub r2 d) = bu_val v div 2 ^ n mod bu_val d" using True by (simp add: bu_sub_val digit(2))
    from Suc.IH [OF _ q' r'] Suc.prems(1) True show ?thesis unfolding loop by (simp add: bu_cmp_val)
  next
    case False
    have q': "bu_val q = bu_val v div 2 ^ n div bu_val d * 2 ^ n"
      using False by (simp add: digit(1) Suc.prems(2) V_def [symmetric] del: power_Suc) simp
    have r': "bu_val r2 = bu_val v div 2 ^ n mod bu_val d" using False by (simp add: digit(2))
    from Suc.IH [OF _ q' r'] Suc.prems(1) False show ?thesis unfolding loop by (simp add: bu_cmp_val)
  qed
qed simp

lemma bu_divmod_val:
  assumes "0 < bu_val d"
  shows "\<exists>q r. bu_divmod v d = Some (q, r) \<and> bu_val q = bu_val v div bu_val d \<and> bu_val r = bu_val v mod bu_val d"
proof -
  have zero: "bu_val \<lparr>bu_lo = 0, bu_hi = 0\<rparr> = 0" by (simp add: bu_val_def)
  have nz: "\<not> bu_zero d" using assms by (simp add: bu_zero_val)
  consider (less) "bu_val v < bu_val d" | (top) "bu_val d \<le> bu_val v" "drop_bit 63 (bu_hi d) \<noteq> 0"
    | (loop) "bu_val d \<le> bu_val v" "drop_bit 63 (bu_hi d) = 0" by linarith
  then show ?thesis
  proof cases
    case less
    then show ?thesis using nz zero by (simp add: bu_divmod_def bu_cmp_val)
  next
    case top
    then have "2 ^ 127 \<le> bu_val d" using bu_shift_left_one_val(1) [of d] by (simp add: bu_shift_left_one_def)
    then have "bu_val v < 2 * bu_val d" using bu_val_less [of v] by simp
    then have "bu_val v div bu_val d = 1" "bu_val v mod bu_val d = bu_val v - bu_val d"
      using top(1) assms by (auto simp: le_div_geq le_mod_geq)
    then show ?thesis using nz top by (simp add: bu_divmod_def bu_cmp_val bu_sub_val) (simp add: bu_val_def)
  next
    case loop
    then have "bu_val d < 2 ^ 127" using bu_shift_left_one_val(1) [of d] by (simp add: bu_shift_left_one_def)
    moreover have "bu_val v div 2 ^ 128 = 0" using bu_val_less [of v] by simp
    ultimately show ?thesis using divmod_loop_val [OF assms, of 128 "\<lparr>bu_lo = 0, bu_hi = 0\<rparr>" v "\<lparr>bu_lo = 0, bu_hi = 0\<rparr>"]
      nz loop zero by (auto simp: bu_divmod_def bu_cmp_val Let_def)
  qed
qed


section \<open>Limbs as numbers\<close>

fun wide_val :: "u64 list \<Rightarrow> nat" where
  "wide_val [] = 0"
| "wide_val (a # as) = unat a + 2 ^ 64 * wide_val as"

definition wide_ok :: "decw \<Rightarrow> bool" where
  "wide_ok v \<longleftrightarrow> length v = BDEC_WIDE_LIMBS"

lemma wide_val_less: "wide_val as < 2 ^ (64 * length as)"
proof (induction as)
  case (Cons a as)
  then have "wide_val as + 1 \<le> 2 ^ (64 * length as)" by simp
  then have "2 ^ 64 * (wide_val as + 1) \<le> 2 ^ 64 * 2 ^ (64 * length as)" by (rule mult_le_mono2)
  then show ?case using unat_u64_bound [of a] by (simp add: power_add)
qed simp

lemma wide_val_append: "wide_val (as @ bs) = wide_val as + 2 ^ (64 * length as) * wide_val bs"
  by (induction as) (simp_all add: power_add algebra_simps)

lemma wide_val_replicate [simp]: "wide_val (replicate n 0) = 0"
  by (induction n) simp_all

lemma wide_val_eq_0: "wide_val as = 0 \<longleftrightarrow> list_all (\<lambda>x. x = 0) as"
  by (induction as) (auto simp: unat_eq_0)

lemma decw_zero_val: "decw_zero v \<longleftrightarrow> wide_val v = 0"
  by (simp add: decw_zero_def wide_val_eq_0)

lemma eight_limbs: "replicate 8 x = [x, x, x, x, x, x, x, x]"
  by (simp add: numeral_eq_Suc)

lemma decw_from128_val: "wide_val (decw_from128 v) = bu_val v" "wide_ok (decw_from128 v)"
  by (simp_all add: decw_from128_def bu_val_def wide_ok_def eight_limbs)

lemma cmp_limbs_val:
  "length as = length bs \<Longrightarrow> cmp_limbs as bs =
     (if wide_val (rev as) < wide_val (rev bs) then -1 else if wide_val (rev as) = wide_val (rev bs) then 0 else 1)"
proof (induction as bs rule: list_induct2)
  case (Cons a as b bs)
  have less: "x + 2 ^ (64 * length bs) * unat a < y + 2 ^ (64 * length bs) * unat b \<longleftrightarrow>
      unat a < unat b \<or> unat a = unat b \<and> x < y" if "x < 2 ^ (64 * length bs)" "y < 2 ^ (64 * length bs)" for x y a b
    by (rule two_words_less [OF that])
  have bounds: "wide_val (rev as) < 2 ^ (64 * length bs)" "wide_val (rev bs) < 2 ^ (64 * length bs)"
    using wide_val_less [of "rev as"] wide_val_less [of "rev bs"] Cons.hyps by simp_all
  show ?case using Cons less [OF bounds, of a b] less [OF bounds(2,1), of b a]
    by (auto simp: wide_val_append word_less_nat_alt word_unat_eq_iff not_less_iff_gr_or_eq)
qed simp

lemma decw_cmp_val:
  "wide_ok a \<Longrightarrow> wide_ok b \<Longrightarrow> decw_cmp a b =
     (if wide_val a < wide_val b then -1 else if wide_val a = wide_val b then 0 else 1)"
  using cmp_limbs_val [of "rev a" "rev b"] by (simp add: decw_cmp_def wide_ok_def)

text \<open>One limb of an addition: both carries are the one carry of the three-way sum.\<close>

lemma add3_carry:
  assumes "unat c \<le> 1"
  shows "unat (a + b + c) + 2 ^ 64 * (if a + b < a \<or> a + b + c < a + b then 1 else 0) = unat (a :: u64) + unat b + unat c"
    and "(if a + b < a \<or> a + b + c < a + b then 1 else 0) \<le> (1 :: nat)"
proof -
  have first: "unat (a + b) + (if a + b < a then 2 ^ 64 else 0) = unat a + unat b" by (rule add_carry)
  have second: "unat (a + b + c) + (if a + b + c < a + b then 2 ^ 64 else 0) = unat (a + b) + unat c" by (rule add_carry)
  have "\<not> (a + b < a \<and> a + b + c < a + b)"
  proof
    assume both: "a + b < a \<and> a + b + c < a + b"
    then have "unat (a + b + c) + 2 ^ 64 + 2 ^ 64 = unat a + unat b + unat c" using first second by simp
    then show False using assms unat_u64_bound [of a] unat_u64_bound [of b] by linarith
  qed
  then show "unat (a + b + c) + 2 ^ 64 * (if a + b < a \<or> a + b + c < a + b then 1 else 0) = unat a + unat b + unat c"
    using first second by (auto split: if_splits)
qed simp

lemma add_limbs_val:
  "length as = length bs \<Longrightarrow> unat c \<le> 1 \<Longrightarrow> add_limbs as bs c = (r, c') \<Longrightarrow>
   length r = length as \<and> unat c' \<le> 1 \<and>
   wide_val r + 2 ^ (64 * length as) * unat c' = wide_val as + wide_val bs + unat c"
proof (induction as bs arbitrary: c r c' rule: list_induct2)
  case (Cons a as b bs)
  define d :: u64 where "d = (if a + b < a \<or> a + b + c < a + b then 1 else 0)"
  obtain rest c2 where rest: "add_limbs as bs d = (rest, c2)" by fastforce
  have r: "r = (a + b + c) # rest" "c' = c2" using Cons.prems(2) rest by (auto simp: d_def Let_def)
  have d: "unat d \<le> 1" "unat (a + b + c) + 2 ^ 64 * unat d = unat a + unat b + unat c"
    using add3_carry [OF Cons.prems(1), of a b] by (auto simp: d_def)
  from Cons.IH [OF d(1) rest] have IH: "length rest = length as" "unat c2 \<le> 1"
    "wide_val rest + 2 ^ (64 * length as) * unat c2 = wide_val as + wide_val bs + unat d" by auto
  have "wide_val r + 2 ^ (64 * length (a # as)) * unat c' =
      unat (a + b + c) + 2 ^ 64 * (wide_val rest + 2 ^ (64 * length as) * unat c2)"
    by (simp add: r power_add distrib_left)
  also have "\<dots> = wide_val (a # as) + wide_val (b # bs) + unat c"
    unfolding IH(3) using d(2) by (simp add: distrib_left)
  finally show ?case using IH(1,2) r by simp
qed simp

lemma decw_add_val:
  assumes "wide_ok a" "wide_ok b"
  shows "if wide_val a + wide_val b < 2 ^ 512
    then \<exists>r. decw_add a b line col = Ok r \<and> wide_ok r \<and> wide_val r = wide_val a + wide_val b
    else decw_add a b line col = dec_overflow line col"
proof -
  obtain r c where add: "add_limbs a b 0 = (r, c)" by fastforce
  from add_limbs_val [OF _ _ add] assms have len: "length r = 8"
    and val: "wide_val r + 2 ^ 512 * unat c = wide_val a + wide_val b" by (auto simp: wide_ok_def)
  have "wide_val r < 2 ^ 512" using wide_val_less [of r] len by simp
  show ?thesis
  proof (cases "c = 0")
    case True
    then show ?thesis using val \<open>wide_val r < 2 ^ 512\<close> len add by (simp add: decw_add_def wide_ok_def)
  next
    case False
    then have "2 ^ 512 \<le> 2 ^ 512 * unat c" by (simp add: unat_gt_0 Suc_leI)
    then have "\<not> wide_val a + wide_val b < 2 ^ 512" using val by linarith
    then show ?thesis using False add by (simp add: decw_add_def)
  qed
qed

lemma sub_limbs_val:
  "length as = length bs \<Longrightarrow> unat c \<le> 1 \<Longrightarrow>
   length (sub_limbs as bs c) = length as \<and>
   (\<exists>e. int (wide_val (sub_limbs as bs c)) = int (wide_val as) - int (wide_val bs) - int (unat c) + 2 ^ (64 * length as) * e)"
proof (induction as bs arbitrary: c rule: list_induct2)
  case (Cons a as b bs)
  define rhs where "rhs = b + c"
  define d :: u64 where "d = (if rhs < b \<or> a < rhs then 1 else 0)"
  have d: "unat d \<le> 1" by (simp add: d_def)
  from Cons.IH [OF d] obtain e where len: "length (sub_limbs as bs d) = length as"
    and e: "int (wide_val (sub_limbs as bs d)) = int (wide_val as) - int (wide_val bs) - int (unat d) + 2 ^ (64 * length as) * e"
    by auto
  have limb: "int (unat (a - rhs)) = int (unat a) - int (unat b) - int (unat c) + 2 ^ 64 * int (unat d)"
  proof -
    have sum: "unat rhs + (if rhs < b then 2 ^ 64 else 0) = unat b + unat c" unfolding rhs_def by (rule add_carry)
    have diff: "int (unat (a - rhs)) = int (unat a) - int (unat rhs) + (if a < rhs then 2 ^ 64 else 0)"
      by (rule unat_sub_borrow)
    show ?thesis
    proof (cases "rhs < b")
      case True
      then have "unat rhs = 0" using sum Cons.prems unat_u64_bound [of b] by simp
      then have "\<not> a < rhs" by (simp add: word_less_nat_alt)
      with True sum diff \<open>unat rhs = 0\<close> show ?thesis by (simp add: d_def del: of_nat_unat)
    next
      case False
      with sum diff show ?thesis by (simp add: d_def del: of_nat_unat)
    qed
  qed
  have "int (wide_val (sub_limbs (a # as) (b # bs) c)) =
      int (unat (a - rhs)) + 2 ^ 64 * int (wide_val (sub_limbs as bs d))"
    by (simp add: Let_def rhs_def d_def del: of_nat_unat)
  also have "\<dots> = int (wide_val (a # as)) - int (wide_val (b # bs)) - int (unat c) + 2 ^ (64 * length (a # as)) * e"
    unfolding limb e by (simp add: power_add algebra_simps del: of_nat_unat)
  finally show ?case using len by (auto simp: Let_def rhs_def d_def simp del: of_nat_unat)
qed auto

lemma decw_sub_val:
  assumes "wide_ok a" "wide_ok b" "wide_val b \<le> wide_val a"
  shows "wide_ok (decw_sub a b)" "wide_val (decw_sub a b) = wide_val a - wide_val b"
proof -
  from sub_limbs_val [of a b 0] assms obtain e where len: "length (decw_sub a b) = 8"
    and e: "int (wide_val (decw_sub a b)) = int (wide_val a) - int (wide_val b) + 2 ^ 512 * e"
    by (auto simp: wide_ok_def decw_sub_def)
  have bound: "wide_val (decw_sub a b) < 2 ^ 512" using wide_val_less [of "decw_sub a b"] len by simp
  have "wide_val a < 2 ^ 512" using wide_val_less [of a] assms(1) by (simp add: wide_ok_def)
  then have "e = 0" using e bound assms(3) by simp
  with e assms(3) show "wide_val (decw_sub a b) = wide_val a - wide_val b" by simp
  show "wide_ok (decw_sub a b)" using len by (simp add: wide_ok_def)
qed

lemma decw_increment_val:
  "if wide_val v + 1 < 2 ^ (64 * length v)
   then \<exists>r. decw_increment v line col = Ok r \<and> length r = length v \<and> wide_val r = wide_val v + 1
   else decw_increment v line col = dec_overflow line col"
proof (induction v)
  case (Cons a as)
  have wrap: "a + 1 = 0 \<longleftrightarrow> unat a = 2 ^ 64 - 1"
    using add_carry [of a 1] unat_u64_bound [of a] unat_u64_bound [of "a + 1"] by (auto simp: unat_eq_0 [symmetric] word_less_nat_alt split: if_splits)
  show ?case
  proof (cases "a + 1 = 0")
    case False
    then have val: "unat (a + 1) = unat a + 1" using wrap unat_u64_bound [of a] by (simp add: unat_add_small)
    have "2 ^ 64 * (wide_val as + 1) \<le> 2 ^ 64 * 2 ^ (64 * length as)"
      using wide_val_less [of as] by (intro mult_le_mono2) simp
    moreover have "unat a + 1 < 2 ^ 64" using unat_u64_bound [of "a + 1"] val by simp
    ultimately have "wide_val (a # as) + 1 < 2 ^ (64 * length (a # as))" by (simp add: power_add)
    with False val show ?thesis by simp
  next
    case True
    then have a: "unat a = 2 ^ 64 - 1" using wrap by simp
    have "wide_val (a # as) + 1 = 2 ^ 64 * (wide_val as + 1)" by (simp add: a)
    then have "wide_val (a # as) + 1 < 2 ^ (64 * length (a # as)) \<longleftrightarrow> wide_val as + 1 < 2 ^ (64 * length as)"
      by (simp only: length_Cons mult_Suc_right power_add mult_less_cancel1) simp
    with Cons True \<open>wide_val (a # as) + 1 = _\<close> show ?thesis by (auto simp: dec_overflow_def split: if_splits)
  qed
qed (simp add: dec_overflow_def)

lemma mul10_limbs_val:
  "unat c \<le> 10 \<Longrightarrow> mul10_limbs as c = (r, c') \<Longrightarrow>
   length r = length as \<and> unat c' \<le> 10 \<and> wide_val r + 2 ^ (64 * length as) * unat c' = 10 * wide_val as + unat c"
proof (induction as arbitrary: c r c')
  case (Cons a as)
  define p where "p = bu_mul64 a 10"
  define low where "low = bu_lo p + c"
  define hi where "hi = bu_hi p + (if low < bu_lo p then 1 else 0)"
  have p: "unat (bu_lo p) + 2 ^ 64 * unat (bu_hi p) = unat a * 10"
    using bu_mul64_val [of a 10] by (simp add: p_def bu_val_def)
  have hi9: "unat (bu_hi p) \<le> 9" using p unat_u64_bound [of a] by simp
  have sum: "unat low + (if low < bu_lo p then 2 ^ 64 else 0) = unat (bu_lo p) + unat c"
    unfolding low_def by (rule add_carry)
  have hi: "unat hi = unat (bu_hi p) + (if low < bu_lo p then 1 else 0)"
    using hi9 by (simp add: hi_def unat_add_small)
  then have small: "unat hi \<le> 10" using hi9 by simp
  have limb: "unat low + 2 ^ 64 * unat hi = 10 * unat a + unat c" using p sum hi by (auto split: if_splits)
  obtain rest c2 where rest: "mul10_limbs as hi = (rest, c2)" by fastforce
  have r: "r = low # rest" "c' = c2" using Cons.prems(2) rest by (auto simp: Let_def p_def low_def hi_def)
  from Cons.IH [OF small rest] have IH: "length rest = length as" "unat c2 \<le> 10"
    "wide_val rest + 2 ^ (64 * length as) * unat c2 = 10 * wide_val as + unat hi" by auto
  have "wide_val r + 2 ^ (64 * length (a # as)) * unat c' =
      unat low + 2 ^ 64 * (wide_val rest + 2 ^ (64 * length as) * unat c2)"
    by (simp add: r power_add distrib_left)
  also have "\<dots> = 10 * wide_val (a # as) + unat c" unfolding IH(3) using limb by (simp add: distrib_left)
  finally show ?case using IH(1,2) r by simp
qed simp

lemma decw_mul10_val:
  assumes "wide_ok v"
  shows "if 10 * wide_val v < 2 ^ 512
    then \<exists>r. decw_mul10 v line col = Ok r \<and> wide_ok r \<and> wide_val r = 10 * wide_val v
    else decw_mul10 v line col = dec_overflow line col"
proof -
  obtain r c where mul: "mul10_limbs v 0 = (r, c)" by fastforce
  from mul10_limbs_val [OF _ mul] assms have len: "length r = 8"
    and val: "wide_val r + 2 ^ 512 * unat c = 10 * wide_val v" by (auto simp: wide_ok_def)
  have "wide_val r < 2 ^ 512" using wide_val_less [of r] len by simp
  show ?thesis
  proof (cases "c = 0")
    case True
    then show ?thesis using val \<open>wide_val r < 2 ^ 512\<close> len mul by (simp add: decw_mul10_def wide_ok_def)
  next
    case False
    then have "2 ^ 512 \<le> 2 ^ 512 * unat c" by (simp add: unat_gt_0 Suc_leI)
    then have "\<not> 10 * wide_val v < 2 ^ 512" using val by linarith
    then show ?thesis using False mul by (simp add: decw_mul10_def)
  qed
qed

lemma mul10_times_val:
  "wide_ok v \<Longrightarrow> 10 ^ n * wide_val v < 2 ^ 512 \<Longrightarrow>
   \<exists>r. mul10_times n v line col = Ok r \<and> wide_ok r \<and> wide_val r = 10 ^ n * wide_val v"
proof (induction n arbitrary: v)
  case (Suc n)
  have "10 * wide_val v \<le> 10 ^ Suc n * wide_val v" by (intro mult_right_mono) simp_all
  then have "10 * wide_val v < 2 ^ 512" using Suc.prems(2) by linarith
  then obtain r where r: "decw_mul10 v line col = Ok r" "wide_ok r" "wide_val r = 10 * wide_val v"
    using decw_mul10_val [OF Suc.prems(1), of line col] by auto
  from Suc.IH [OF r(2)] Suc.prems(2) r show ?case by (auto simp: mult.assoc mult.left_commute)
qed simp

lemma decw_mul_pow10_val:
  assumes "wide_ok v" "0 \<le> e" "e \<le> 150" "10 ^ nat e * wide_val v < 2 ^ 512"
  shows "\<exists>r. decw_mul_pow10 v e line col = Ok r \<and> wide_ok r \<and> wide_val r = 10 ^ nat e * wide_val v"
  using mul10_times_val [OF assms(1,4)] assms(2,3) by (simp add: decw_mul_pow10_def)

text \<open>One limb of a division by ten, in its two halves.\<close>

lemma div10_half:
  fixes r h :: u64
  assumes "unat r < 10" "unat h < 2 ^ 32"
  defines "cur \<equiv> push_bit 32 r OR h"
  shows "unat (ucast (cur div 10) :: u32) = (unat r * 2 ^ 32 + unat h) div 10"
    and "unat (cur mod 10) = (unat r * 2 ^ 32 + unat h) mod 10"
proof -
  have cur: "unat cur = unat r * 2 ^ 32 + unat h"
    using unat_halves(1) [OF assms(2), of r] assms(1) by (simp add: cur_def)
  have "unat cur < 10 * 2 ^ 32" using assms(1,2) by (simp add: cur)
  then have "unat (cur div 10) < 2 ^ 32" by (simp add: unat_div less_mult_imp_div_less)
  then show "unat (ucast (cur div 10) :: u32) = (unat r * 2 ^ 32 + unat h) div 10"
    by (simp add: unat_ucast_down unat_div cur)
  show "unat (cur mod 10) = (unat r * 2 ^ 32 + unat h) mod 10" by (simp add: unat_mod cur)
qed

lemma div10_limbs_val:
  "unat rem < 10 \<Longrightarrow> div10_limbs as rem = (qs, r) \<Longrightarrow>
   length qs = length as \<and> unat r < 10 \<and>
   unat rem * 2 ^ (64 * length as) + wide_val (rev as) = 10 * wide_val (rev qs) + unat r"
proof (induction as arbitrary: rem qs r)
  case (Cons a as)
  define high where "high = push_bit 32 rem OR drop_bit 32 a"
  define qh :: u32 where "qh = ucast (high div 10)"
  define r1 where "r1 = high mod 10"
  define low where "low = push_bit 32 r1 OR ucast (ucast a :: u32)"
  define ql :: u32 where "ql = ucast (low div 10)"
  define r2 where "r2 = low mod 10"
  define H where "H = unat rem * 2 ^ 32 + unat a div 2 ^ 32"
  have "unat (drop_bit 32 a) < 2 ^ 32" using unat_u64_bound [of a] by (simp add: unat_high_half less_mult_imp_div_less)
  from div10_half [OF Cons.prems(1) this]
  have h: "unat qh = H div 10" "unat r1 = H mod 10"
    unfolding qh_def r1_def high_def by (simp_all add: unat_high_half H_def)
  define L where "L = unat r1 * 2 ^ 32 + unat a mod 2 ^ 32"
  have "unat r1 < 10" "unat (ucast (ucast a :: u32) :: u64) < 2 ^ 32"
    using unat_u32_bound [of "ucast a"] by (simp_all add: h unat_ucast_factor)
  from div10_half [OF this]
  have l: "unat ql = L div 10" "unat r2 = L mod 10"
    unfolding ql_def r2_def low_def by (simp_all add: unat_ucast_factor ucast_halves(2) L_def)
  have limb: "unat (push_bit 32 (ucast qh) OR ucast ql :: u64) = H div 10 * 2 ^ 32 + L div 10"
    using unat_u32_bound [of qh] by (simp add: unat_join_words unat_ucast_factor h l)
  have split: "unat rem * 2 ^ 64 + unat a = 10 * (H div 10 * 2 ^ 32 + L div 10) + unat r2"
  proof -
    have "10 * (L div 10) + unat r2 = H mod 10 * 2 ^ 32 + unat a mod 2 ^ 32" unfolding l by (simp add: L_def h)
    moreover have "10 * (H div 10 * 2 ^ 32) + H mod 10 * 2 ^ 32 = H * 2 ^ 32"
      by (simp only: mult.assoc [symmetric] distrib_right [symmetric] mult_div_mod_eq)
    moreover have "H * 2 ^ 32 + unat a mod 2 ^ 32 = unat rem * 2 ^ 64 + unat a"
    proof -
      have "H * 2 ^ 32 + unat a mod 2 ^ 32 = unat rem * 2 ^ 64 + (unat a div 2 ^ 32 * 2 ^ 32 + unat a mod 2 ^ 32)"
        by (simp only: H_def distrib_right) simp
      then show ?thesis by (simp only: div_mult_mod_eq)
    qed
    ultimately show ?thesis by (simp only: distrib_left)
  qed
  obtain rest r' where rest: "div10_limbs as r2 = (rest, r')" by fastforce
  have q: "qs = (push_bit 32 (ucast qh) OR ucast ql) # rest" "r = r'"
    using Cons.prems(2) rest by (auto simp: Let_def high_def qh_def r1_def low_def ql_def r2_def)
  have "unat r2 < 10" by (simp add: l)
  from Cons.IH [OF this rest] have IH: "length rest = length as" "unat r' < 10"
    "unat r2 * 2 ^ (64 * length as) + wide_val (rev as) = 10 * wide_val (rev rest) + unat r'" by auto
  have "unat rem * 2 ^ (64 * length (a # as)) + wide_val (rev (a # as)) =
      (unat rem * 2 ^ 64 + unat a) * 2 ^ (64 * length as) + wide_val (rev as)"
    by (simp add: wide_val_append power_add algebra_simps)
  also have "\<dots> = 10 * (H div 10 * 2 ^ 32 + L div 10) * 2 ^ (64 * length as) +
      (unat r2 * 2 ^ (64 * length as) + wide_val (rev as))"
    unfolding split by (simp only: distrib_right add.assoc)
  also have "\<dots> = 10 * wide_val (rev qs) + unat r"
    unfolding IH(3) by (simp add: q limb wide_val_append IH(1) algebra_simps)
  finally show ?case using IH(1,2) q by simp
qed simp

lemma decw_div10_val:
  assumes "wide_ok v" "decw_div10 v = (q, r)"
  shows "wide_ok q" "wide_val q = wide_val v div 10" "unat r = wide_val v mod 10"
proof -
  obtain qs rem where d: "div10_limbs (rev v) 0 = (qs, rem)" by fastforce
  have q: "q = rev qs" "r = ucast rem" using assms(2) d by (auto simp: decw_div10_def)
  from div10_limbs_val [OF _ d] have len: "length qs = length v" and rem: "unat rem < 10"
    and eq: "wide_val v = 10 * wide_val q + unat rem" by (auto simp: q)
  show "wide_ok q" using assms(1) len q by (simp add: wide_ok_def)
  show "wide_val q = wide_val v div 10" using eq rem by simp
  have "unat r = unat rem" using rem by (simp add: q unat_ucast_down)
  then show "unat r = wide_val v mod 10" using eq rem by simp
qed

lemma decw_mod10_val: "wide_ok v \<Longrightarrow> unat (decw_mod10 v) = wide_val v mod 10"
  using decw_div10_val(3) [of v "fst (decw_div10 v)" "snd (decw_div10 v)"] by (simp add: decw_mod10_def)

lemma wide_val_update:
  "i < length v \<Longrightarrow> wide_val (v[i := x]) + 2 ^ (64 * i) * unat (v ! i) = wide_val v + 2 ^ (64 * i) * unat x"
proof (induction v arbitrary: i)
  case (Cons a as)
  show ?case
  proof (cases i)
    case (Suc j)
    with Cons have "wide_val (as[j := x]) + 2 ^ (64 * j) * unat (as ! j) = wide_val as + 2 ^ (64 * j) * unat x" by simp
    then have "2 ^ 64 * (wide_val (as[j := x]) + 2 ^ (64 * j) * unat (as ! j)) = 2 ^ 64 * (wide_val as + 2 ^ (64 * j) * unat x)"
      by simp
    with Suc show ?thesis by (simp add: power_add distrib_left)
  qed simp
qed simp

lemma decw_add_at_val:
  "at \<le> length v \<Longrightarrow> wide_val v + 2 ^ (64 * at) * unat w < 2 ^ (64 * length v) \<Longrightarrow>
   \<exists>r. decw_add_at v at w line col = Ok r \<and> length r = length v \<and> wide_val r = wide_val v + 2 ^ (64 * at) * unat w"
proof (induction v at w line col rule: decw_add_at.induct)
  case (1 v at w line col)
  show ?case
  proof (cases "w = 0")
    case True
    then show ?thesis by (subst decw_add_at.simps) simp
  next
    case False
    then have "1 \<le> unat w" by (simp add: unat_gt_0 Suc_leI)
    have at: "at < length v"
    proof (rule ccontr)
      assume "\<not> at < length v"
      with "1.prems"(1) have "at = length v" by simp
      moreover have "2 ^ (64 * at) * 1 \<le> 2 ^ (64 * at) * unat w" using \<open>1 \<le> unat w\<close> by (rule mult_le_mono2)
      ultimately show False using "1.prems"(2) by (simp only: mult_1_right)
    qed
    define before where "before = v ! at"
    define after where "after = before + w"
    define c :: u64 where "c = (if after < before then 1 else 0)"
    have sum: "unat after + 2 ^ 64 * unat c = unat before + unat w"
      using add_carry [of before w] by (auto simp: after_def c_def)
    have "wide_val (v[at := after]) + 2 ^ (64 * at) * unat before = wide_val v + 2 ^ (64 * at) * unat after"
      unfolding before_def by (rule wide_val_update [OF at])
    moreover have "2 ^ (64 * (at + 1)) * unat c = 2 ^ (64 * at) * (2 ^ 64 * unat c)" by (simp add: power_add)
    moreover have "2 ^ (64 * at) * unat after + 2 ^ (64 * at) * (2 ^ 64 * unat c) =
        2 ^ (64 * at) * unat before + 2 ^ (64 * at) * unat w"
      using sum by (simp only: distrib_left [symmetric])
    ultimately have step: "wide_val (v[at := after]) + 2 ^ (64 * (at + 1)) * unat c = wide_val v + 2 ^ (64 * at) * unat w"
      by linarith
    have "\<exists>r. decw_add_at (v[at := after]) (at + 1) c line col = Ok r \<and> length r = length (v[at := after]) \<and>
        wide_val r = wide_val (v[at := after]) + 2 ^ (64 * (at + 1)) * unat c"
      unfolding c_def after_def before_def
      by (rule "1.IH" [OF False]) (use at step "1.prems"(2) in \<open>simp_all add: c_def after_def before_def\<close>)
    then show ?thesis using False at step
      by (subst decw_add_at.simps) (simp add: before_def [symmetric] after_def [symmetric] c_def [symmetric])
  qed
qed

lemma mul_cell_val:
  assumes "at + 1 \<le> length v" "wide_val v + 2 ^ (64 * at) * (unat a * unat b) < 2 ^ (64 * length v)"
  shows "\<exists>r. mul_cell v at a b line col = Ok r \<and> length r = length v \<and>
    wide_val r = wide_val v + 2 ^ (64 * at) * (unat a * unat b)"
proof -
  define p where "p = bu_mul64 a b"
  have p: "unat a * unat b = unat (bu_lo p) + 2 ^ 64 * unat (bu_hi p)"
    using bu_mul64_val [of a b] by (simp add: p_def bu_val_def)
  then have prod: "2 ^ (64 * at) * (unat a * unat b) =
      2 ^ (64 * at) * unat (bu_lo p) + 2 ^ (64 * (at + 1)) * unat (bu_hi p)"
    by (simp add: power_add distrib_left)
  obtain v1 where v1: "decw_add_at v at (bu_lo p) line col = Ok v1" "length v1 = length v"
    "wide_val v1 = wide_val v + 2 ^ (64 * at) * unat (bu_lo p)"
    using decw_add_at_val [of at v "bu_lo p" line col] assms prod by auto
  obtain v2 where "decw_add_at v1 (at + 1) (bu_hi p) line col = Ok v2" "length v2 = length v"
    "wide_val v2 = wide_val v1 + 2 ^ (64 * (at + 1)) * unat (bu_hi p)"
    using decw_add_at_val [of "at + 1" v1 "bu_hi p" line col] assms prod v1 by auto
  with v1 prod show ?thesis by (simp add: mul_cell_def p_def [symmetric] Let_def)
qed

lemma decw_multiply_val:
  "\<exists>w. decw_multiply l r line col = Ok w \<and> wide_ok w \<and> wide_val w = bu_val l * bu_val r"
proof -
  let ?zero = "replicate 8 0 :: u64 list"
  define A where "A = unat (bu_lo l)" define B where "B = unat (bu_hi l)"
  define C where "C = unat (bu_lo r)" define D where "D = unat (bu_hi r)"
  have total: "A * C + 2 ^ 64 * (A * D) + 2 ^ 64 * (B * C) + 2 ^ 128 * (B * D) = bu_val l * bu_val r"
    by (simp add: A_def B_def C_def D_def bu_val_def algebra_simps)
  have "bu_val l * bu_val r < 2 ^ 128 * 2 ^ 128" by (intro mult_strict_mono bu_val_less) simp_all
  then have fits: "bu_val l * bu_val r < 2 ^ 512" by simp
  obtain w0 where w0: "mul_cell ?zero 0 (bu_lo l) (bu_lo r) line col = Ok w0" "length w0 = 8" "wide_val w0 = A * C"
    using mul_cell_val [of 0 ?zero "bu_lo l" "bu_lo r" line col] fits total by (auto simp: A_def C_def)
  obtain w1 where w1: "mul_cell w0 1 (bu_lo l) (bu_hi r) line col = Ok w1" "length w1 = 8"
    "wide_val w1 = A * C + 2 ^ 64 * (A * D)"
    using mul_cell_val [of 1 w0 "bu_lo l" "bu_hi r" line col] fits total w0 by (auto simp: A_def D_def)
  obtain w2 where w2: "mul_cell w1 1 (bu_hi l) (bu_lo r) line col = Ok w2" "length w2 = 8"
    "wide_val w2 = A * C + 2 ^ 64 * (A * D) + 2 ^ 64 * (B * C)"
    using mul_cell_val [of 1 w1 "bu_hi l" "bu_lo r" line col] fits total w1 by (auto simp: B_def C_def)
  obtain w3 where w3: "mul_cell w2 2 (bu_hi l) (bu_hi r) line col = Ok w3" "length w3 = 8"
    "wide_val w3 = A * C + 2 ^ 64 * (A * D) + 2 ^ 64 * (B * C) + 2 ^ 128 * (B * D)"
    using mul_cell_val [of 2 w2 "bu_hi l" "bu_hi r" line col] fits total w2 by (auto simp: B_def D_def)
  show ?thesis using w0 w1 w2 w3 total by (simp add: decw_multiply_def wide_ok_def)
qed

lemma decw_to128_val:
  assumes "wide_ok v"
  shows "if wide_val v < 2 ^ 128 then \<exists>r. decw_to128 v line col = Ok r \<and> bu_val r = wide_val v
    else decw_to128 v line col = dec_overflow line col"
proof -
  obtain a b rest where v: "v = a # b # rest" using assms by (auto simp: wide_ok_def numeral_eq_Suc length_Suc_conv)
  have val: "wide_val v = unat a + 2 ^ 64 * unat b + 2 ^ 128 * wide_val rest" by (simp add: v)
  have small: "unat a + 2 ^ 64 * unat b < 2 ^ 128" using unat_u64_bound [of a] unat_u64_bound [of b] by simp
  have zero: "\<not> list_ex (\<lambda>x. x \<noteq> 0) rest \<longleftrightarrow> wide_val rest = 0"
    by (auto simp: wide_val_eq_0 list_all_iff list_ex_iff)
  show ?thesis
  proof (cases "wide_val rest = 0")
    case True
    then show ?thesis using zero val small by (simp add: decw_to128_def v bu_val_def)
  next
    case False
    then have "2 ^ 128 \<le> 2 ^ 128 * wide_val rest" by simp
    then have "\<not> wide_val v < 2 ^ 128" using val by linarith
    then show ?thesis using False zero by (simp add: decw_to128_def v)
  qed
qed

end
