(* ===== verification/Rt_Decimal.thy ===== *)
theory Rt_Decimal
  imports Rt_Wide Rt_Slots
begin

unbundle bit_operations_syntax

text \<open>
  The decimal type (\<^verbatim>\<open>src/runtime/beans_rt.c\<close>): a signed coefficient of at most 38 digits and a scale
  from 0 to 65535. Arithmetic works on the magnitudes as 512-bit integers and ends in \<^verbatim>\<open>dec_finish\<close>,
  which brings a result back to 38 digits by rounding.

  A \<^verbatim>\<open>BDec\<close> is a record of its two coefficient words and its scale; the spare word is always zero and
  left out. A boxed result is the value itself. Panics carry the position; the conversion to \<^verbatim>\<open>double\<close> is not modelled.
\<close>

section \<open>Coefficient and scale\<close>

record bdec =
  d_lo :: u64
  d_hi :: u64
  d_s :: int

abbreviation (input) BDEC_PRECISION :: int where "BDEC_PRECISION \<equiv> 38"
abbreviation (input) BDEC_MAX_SCALE :: int where "BDEC_MAX_SCALE \<equiv> 65535"
abbreviation (input) BROUND_HALF_EVEN :: int where "BROUND_HALF_EVEN \<equiv> 0"
abbreviation (input) BROUND_HALF_AWAY :: int where "BROUND_HALF_AWAY \<equiv> 1"
abbreviation (input) BROUND_TOWARD_ZERO :: int where "BROUND_TOWARD_ZERO \<equiv> 2"
abbreviation (input) BROUND_FLOOR :: int where "BROUND_FLOOR \<equiv> 3"
abbreviation (input) BROUND_CEIL :: int where "BROUND_CEIL \<equiv> 4"

abbreviation (input) bu_0 :: bu128 where "bu_0 \<equiv> \<lparr>bu_lo = 0, bu_hi = 0\<rparr>"
abbreviation (input) bu_1 :: bu128 where "bu_1 \<equiv> \<lparr>bu_lo = 1, bu_hi = 0\<rparr>"

definition dec_negative :: "bdec \<Rightarrow> bool" where
  "dec_negative v \<longleftrightarrow> drop_bit 63 (d_hi v) \<noteq> 0"

definition dec_zero :: "bdec \<Rightarrow> bool" where
  "dec_zero v \<longleftrightarrow> d_lo v = 0 \<and> d_hi v = 0"

definition dec_mag :: "bdec \<Rightarrow> bu128" where
  "dec_mag v = (let bits = \<lparr>bu_lo = d_lo v, bu_hi = d_hi v\<rparr> in if dec_negative v then bu_twos bits else bits)"

definition dec_set :: "bu128 \<Rightarrow> bool \<Rightarrow> int \<Rightarrow> bdec" where
  "dec_set m negative scale =
     (let bits = (if negative \<and> \<not> bu_zero m then bu_twos m else m) in
      \<lparr>d_lo = bu_lo bits, d_hi = bu_hi bits, d_s = scale\<rparr>)"

fun coeff_limit_loop :: "nat \<Rightarrow> bu128 \<Rightarrow> bu128 option" where
  "coeff_limit_loop 0 v = Some v"
| "coeff_limit_loop (Suc n) v = (let (r, fits) = bu_mul_small v 10 in if fits then coeff_limit_loop n r else None)"

definition dec_coeff_limit :: bu128 where
  "dec_coeff_limit = (case coeff_limit_loop (nat BDEC_PRECISION) bu_1 of None \<Rightarrow> bu_0 | Some v \<Rightarrow> bu_sub v bu_1)"

lemma bu_div10_less:
  assumes "bu_div_small v 10 = Some (q, r)" "0 < bu_val v"
  shows "bu_val q < bu_val v"
proof -
  have "bu_val q = bu_val v div 10" using bu_div_small_val [of 10 v] assms(1) by auto
  with assms(2) show ?thesis by simp
qed

function dec_digits_loop :: "bu128 \<Rightarrow> int \<Rightarrow> int" where
  "dec_digits_loop v digits =
     (if bu_hi v \<noteq> 0 \<or> bu_lo v \<ge> 10
      then case bu_div_small v 10 of Some (q, _) \<Rightarrow> dec_digits_loop q (digits + 1) | None \<Rightarrow> digits
      else digits)"
  by auto
termination
proof (relation "measure (\<lambda>(v, digits). bu_val v)")
  fix v :: bu128 and digits p q r
  assume "bu_hi v \<noteq> 0 \<or> 10 \<le> bu_lo v" "bu_div_small v 10 = Some p" "(q, r) = p"
  moreover from this(1) have "0 < bu_val v" by (auto simp: bu_val_def unat_gt_0 word_le_nat_alt)
  ultimately show "((q, digits + 1), v, digits) \<in> measure (\<lambda>(v, digits). bu_val v)"
    using bu_div10_less by fastforce
qed simp

declare dec_digits_loop.simps [simp del]

definition dec_digits128 :: "bu128 \<Rightarrow> int" where
  "dec_digits128 v = dec_digits_loop v 1"

lemma decw_div10_quotient: "wide_val (fst (decw_div10 v)) = wide_val v div 10"
proof -
  obtain qs r where d: "div10_limbs (rev v) 0 = (qs, r)" by fastforce
  from div10_limbs_val [OF _ d] show ?thesis by (auto simp: decw_div10_def d)
qed

function decw_digits_loop :: "decw \<Rightarrow> int \<Rightarrow> int" where
  "decw_digits_loop v digits =
     (if \<not> decw_zero v then decw_digits_loop (fst (decw_div10 v)) (digits + 1) else digits)"
  by auto
termination
  by (relation "measure (\<lambda>(v, digits). wide_val v)") (auto simp: decw_div10_quotient decw_zero_val)

declare decw_digits_loop.simps [simp del]

definition decw_digits :: "decw \<Rightarrow> int" where
  "decw_digits v = (if decw_zero v then 1 else decw_digits_loop v 0)"

section \<open>Rounding\<close>

definition dec_should_increment :: "u32 \<Rightarrow> bool \<Rightarrow> decw \<Rightarrow> bool \<Rightarrow> int \<Rightarrow> bool rt" where
  "dec_should_increment guard sticky kept negative mode =
     (if mode = BROUND_HALF_EVEN then
        Ok (guard > 5 \<or> (guard = 5 \<and> (sticky \<or> decw_mod10 kept mod 2 \<noteq> 0)))
      else if mode = BROUND_HALF_AWAY then Ok (guard \<ge> 5)
      else if mode = BROUND_TOWARD_ZERO then Ok False
      else if mode = BROUND_FLOOR then Ok (negative \<and> (guard \<noteq> 0 \<or> sticky))
      else if mode = BROUND_CEIL then Ok (\<not> negative \<and> (guard \<noteq> 0 \<or> sticky))
      else Panic (asc ''unknown decimal rounding mode'') 0 0)"

text \<open>Dropping \<open>n\<close> digits: the last one is the guard, the others are sticky.\<close>

fun drop_digits :: "nat \<Rightarrow> decw \<Rightarrow> bool \<Rightarrow> u32 \<Rightarrow> decw \<times> bool \<times> u32" where
  "drop_digits 0 v sticky guard = (v, sticky, guard)"
| "drop_digits (Suc n) v sticky guard =
     (let (q, removed) = decw_div10 v in
      if n = 0 then drop_digits n q sticky removed
      else drop_digits n q (sticky \<or> removed \<noteq> 0) guard)"

text \<open>Trailing zeros go while the scale is above the limit.\<close>

function strip_scale :: "decw \<Rightarrow> int \<Rightarrow> decw \<times> int" where
  "strip_scale v scale =
     (if scale > BDEC_MAX_SCALE \<and> decw_mod10 v = 0 then strip_scale (fst (decw_div10 v)) (scale - 1) else (v, scale))"
  by auto
termination
  by (relation "measure (\<lambda>(v, scale). nat scale)") auto

declare strip_scale.simps [simp del]

definition round_to_precision :: "decw \<Rightarrow> bool \<Rightarrow> int \<Rightarrow> int \<Rightarrow> int \<Rightarrow> int \<Rightarrow> (decw \<times> int) rt" where
  "round_to_precision v negative scale mode line col =
     (let digits = decw_digits v in
      if digits > BDEC_PRECISION then
        let drop = digits - BDEC_PRECISION in
        if drop > scale then dec_overflow line col
        else
          let (v1, sticky, guard) = drop_digits (nat drop) v False 0; scale1 = scale - drop in
          rt_bind (dec_should_increment guard sticky v1 negative mode) (\<lambda>up.
          rt_bind (if up then decw_increment v1 line col else Ok v1) (\<lambda>v2.
            if decw_digits v2 > BDEC_PRECISION then
              if scale1 = 0 \<or> decw_mod10 v2 \<noteq> 0 then dec_overflow line col
              else Ok (fst (decw_div10 v2), scale1 - 1)
            else Ok (v2, scale1)))
      else Ok (v, scale))"

definition dec_finish :: "decw \<Rightarrow> bool \<Rightarrow> int \<Rightarrow> int \<Rightarrow> int \<Rightarrow> int \<Rightarrow> bdec rt" where
  "dec_finish v negative scale mode line col =
     (if decw_zero v then
        let scale = (if scale < 0 then 0 else scale) in
        if scale > BDEC_MAX_SCALE then dec_overflow line col else Ok (dec_set bu_0 False scale)
      else
        rt_bind
          (if scale < 0 then
             let expand = - scale in
             if expand > BDEC_PRECISION \<or> decw_digits v + expand > BDEC_PRECISION then dec_overflow line col
             else rt_bind (decw_mul_pow10 v expand line col) (\<lambda>v'. Ok (v', 0))
           else Ok (v, scale)) (\<lambda>(v1, scale1).
          let (v2, scale2) = strip_scale v1 scale1 in
          if scale2 > BDEC_MAX_SCALE then dec_overflow line col
          else rt_bind (round_to_precision v2 negative scale2 mode line col) (\<lambda>(v3, scale3).
            rt_bind (decw_to128 v3 line col) (\<lambda>coefficient.
              if bu_cmp coefficient dec_coeff_limit > 0 then dec_overflow line col
              else Ok (dec_set coefficient negative scale3)))))"

section \<open>Construction and sign\<close>

definition beans_dec_new :: "u64 \<Rightarrow> u64 \<Rightarrow> int \<Rightarrow> bdec rt" where
  "beans_dec_new lo hi s =
     (let v = \<lparr>d_lo = lo, d_hi = hi, d_s = s\<rparr> in
      dec_finish (decw_from128 (dec_mag v)) (dec_negative v) s BROUND_HALF_EVEN 0 0)"

definition beans_decv_from_int :: "int \<Rightarrow> bdec" where
  "beans_decv_from_int x =
     (let bits = u64_of x in dec_set \<lparr>bu_lo = (if x < 0 then 0 - bits else bits), bu_hi = 0\<rparr> (x < 0) 0)"

definition beans_dec_from_int :: "int \<Rightarrow> bdec" where
  "beans_dec_from_int x =
     (let bits = u64_of x in dec_set \<lparr>bu_lo = (if x < 0 then 0 - bits else bits), bu_hi = 0\<rparr> (x < 0) 0)"

definition beans_decv_neg :: "bdec \<Rightarrow> bdec" where
  "beans_decv_neg v = dec_set (dec_mag v) (\<not> dec_negative v) (d_s v)"

definition beans_decv_abs :: "bdec \<Rightarrow> bdec" where
  "beans_decv_abs v = dec_set (dec_mag v) False (d_s v)"

text \<open>Widening to a larger scale as far as 38 digits allow.\<close>

definition dec_widen :: "bdec \<Rightarrow> int \<Rightarrow> int \<Rightarrow> int \<Rightarrow> bdec rt" where
  "dec_widen v scale line col =
     (if scale \<le> d_s v then Ok v
      else if dec_zero v then
        if scale > BDEC_MAX_SCALE then dec_overflow line col else Ok (dec_set bu_0 False scale)
      else
        let room = BDEC_PRECISION - dec_digits128 (dec_mag v);
            step = min (scale - d_s v) room in
        if step \<le> 0 then Ok v
        else rt_bind (decw_mul_pow10 (decw_from128 (dec_mag v)) step line col) (\<lambda>w.
          dec_finish w (dec_negative v) (d_s v + step) BROUND_HALF_EVEN line col))"

section \<open>The four operations\<close>

text \<open>A scale as a C \<^verbatim>\<open>int\<close>.\<close>

definition as_int :: "int \<Rightarrow> int" where
  "as_int x = sint (word_of_int x :: u32)"

definition dec_exponent :: "bdec \<Rightarrow> int" where
  "dec_exponent v = dec_digits128 (dec_mag v) - 1 - as_int (d_s v)"

definition beans_decv_add :: "bdec \<Rightarrow> bdec \<Rightarrow> int \<Rightarrow> int \<Rightarrow> bdec rt" where
  "beans_decv_add a b line col =
     (let scale = (if d_s a > d_s b then d_s a else d_s b) in
      if dec_zero a \<or> dec_zero b then dec_widen (if dec_zero a then b else a) scale line col
      else
        let ae = dec_exponent a; be = dec_exponent b in
        if ae - be > BDEC_PRECISION + 1 then dec_widen a scale line col
        else if be - ae > BDEC_PRECISION + 1 then dec_widen b scale line col
        else
          rt_bind (decw_mul_pow10 (decw_from128 (dec_mag a)) (scale - d_s a) line col) (\<lambda>aw.
          rt_bind (decw_mul_pow10 (decw_from128 (dec_mag b)) (scale - d_s b) line col) (\<lambda>bw.
            let an = dec_negative a; bn = dec_negative b in
            if an = bn then
              rt_bind (decw_add aw bw line col) (\<lambda>sum. dec_finish sum an scale BROUND_HALF_EVEN line col)
            else
              let order = decw_cmp aw bw in
              if order = 0 then Ok (dec_set bu_0 False scale)
              else if order > 0 then dec_finish (decw_sub aw bw) an scale BROUND_HALF_EVEN line col
              else dec_finish (decw_sub bw aw) bn scale BROUND_HALF_EVEN line col)))"

definition beans_decv_sub :: "bdec \<Rightarrow> bdec \<Rightarrow> int \<Rightarrow> int \<Rightarrow> bdec rt" where
  "beans_decv_sub a b line col = beans_decv_add a (beans_decv_neg b) line col"

definition beans_decv_mul :: "bdec \<Rightarrow> bdec \<Rightarrow> int \<Rightarrow> int \<Rightarrow> bdec rt" where
  "beans_decv_mul a b line col =
     rt_bind (decw_multiply (dec_mag a) (dec_mag b) line col) (\<lambda>product.
       dec_finish product (dec_negative a \<noteq> dec_negative b) (d_s a + d_s b) BROUND_HALF_EVEN line col)"

text \<open>The digits of an integer quotient, most significant first, as numbers.\<close>

function quotient_digits :: "bu128 \<Rightarrow> u32 list" where
  "quotient_digits v =
     (if bu_zero v then []
      else case bu_div_small v 10 of Some (q, digit) \<Rightarrow> quotient_digits q @ [digit] | None \<Rightarrow> [])"
  by auto
termination
proof (relation "measure bu_val")
  fix v :: bu128 and p q r
  assume "\<not> bu_zero v" "bu_div_small v 10 = Some p" "(q, r) = p"
  then show "(q, v) \<in> measure bu_val" using bu_div10_less [of v q r] by (simp add: bu_zero_val)
qed simp

declare quotient_digits.simps [simp del]

text \<open>
  One more digit: how often the divisor goes into ten times the remainder. A zero divisor, for which
  the C loop would not end, is \<open>Fault\<close>; the division panics before it gets here.
\<close>

function count_sub :: "decw \<Rightarrow> decw \<Rightarrow> u32 \<Rightarrow> (decw \<times> u32) rt" where
  "count_sub next divisor digit =
     (if decw_zero divisor \<or> length next \<noteq> length divisor then Fault
      else if decw_cmp next divisor \<ge> 0 then count_sub (decw_sub next divisor) divisor (digit + 1)
      else Ok (next, digit))"
  by auto
termination
proof (relation "measure (\<lambda>(next, divisor, digit). wide_val next)")
  fix "next" divisor :: decw and digit :: u32
  assume "\<not> (decw_zero divisor \<or> length next \<noteq> length divisor)" "0 \<le> decw_cmp next divisor"
  then have d: "0 < wide_val divisor" "length next = length divisor" "wide_val divisor \<le> wide_val next"
    using cmp_limbs_val [of "rev next" "rev divisor"]
    by (auto simp: decw_zero_val decw_cmp_def split: if_splits)
  have "wide_val (decw_sub next divisor) = wide_val next - wide_val divisor"
  proof -
    from sub_limbs_val [of "next" divisor 0] d obtain e where len: "length (decw_sub next divisor) = length next"
      and e: "int (wide_val (decw_sub next divisor)) =
        int (wide_val next) - int (wide_val divisor) + 2 ^ (64 * length next) * e" by (auto simp: decw_sub_def)
    let ?B = "2 ^ (64 * length next) :: int"
    have b: "int (wide_val (decw_sub next divisor)) < ?B" "int (wide_val next) < ?B"
      using wide_val_less [of "decw_sub next divisor"] wide_val_less [of "next"] len
      by (metis of_nat_less_iff of_nat_numeral of_nat_power)+
    have "e = 0"
    proof (rule ccontr)
      assume "e \<noteq> 0"
      then consider "e \<le> -1" | "1 \<le> e" by linarith
      then show False
      proof cases
        case 1
        then have "?B * e \<le> ?B * (-1)" by (intro mult_left_mono) auto
        then show False using e b d(3) by linarith
      next
        case 2
        then have "?B * 1 \<le> ?B * e" by (intro mult_left_mono) auto
        then show False using e b d(3) by linarith
      qed
    qed
    with e d(3) show ?thesis by simp
  qed
  with d show "((decw_sub next divisor, divisor, digit + 1), next, divisor, digit)
      \<in> measure (\<lambda>(next, divisor, digit). wide_val next)" by simp
qed simp

declare count_sub.simps [simp del]

declare rt_bind_cong [fundef_cong]

lemma count_sub_val:
  assumes "wide_ok divisor" "wide_ok next" "count_sub next divisor digit = Ok (rest, digit')"
  shows "wide_ok rest \<and> wide_val rest < wide_val divisor \<and>
    (\<exists>k. wide_val next = k * wide_val divisor + wide_val rest \<and> digit' = digit + of_nat k)"
  using assms
proof (induction "next" divisor digit rule: count_sub.induct)
  case (1 "next" divisor digit)
  note simps = count_sub.simps [of "next" divisor digit]
  from "1.prems" have nz: "\<not> decw_zero divisor" "length next = length divisor"
    by (auto simp: simps split: if_splits)
  show ?case
  proof (cases "0 \<le> decw_cmp next divisor")
    case True
    then have le: "wide_val divisor \<le> wide_val next"
      using decw_cmp_val [OF "1.prems"(2,1)] by (auto split: if_splits)
    note s = decw_sub_val [OF "1.prems"(2,1) le]
    from "1.prems"(3) nz True have run: "count_sub (decw_sub next divisor) divisor (digit + 1) = Ok (rest, digit')"
      by (simp add: simps)
    from "1.IH" [OF _ True "1.prems"(1) s(1) run] nz obtain k where
      "wide_ok rest" "wide_val rest < wide_val divisor"
      "wide_val (decw_sub next divisor) = k * wide_val divisor + wide_val rest" "digit' = digit + 1 + of_nat k" by auto
    moreover from this(3) le s(2) have "wide_val next = Suc k * wide_val divisor + wide_val rest" by simp
    ultimately show ?thesis by (auto intro!: exI [of _ "Suc k"])
  next
    case False
    then have "rest = next" "digit' = digit" "wide_val next < wide_val divisor"
      using "1.prems"(3) nz decw_cmp_val [OF "1.prems"(2,1)] by (auto simp: simps split: if_splits)
    with "1.prems"(2) show ?thesis by (auto intro!: exI [of _ 0])
  qed
qed

lemma count_sub_total:
  assumes "wide_ok divisor" "wide_ok next" "0 < wide_val divisor"
  shows "\<exists>rest digit'. count_sub next divisor digit = Ok (rest, digit')"
  using assms
proof (induction "next" divisor digit rule: count_sub.induct)
  case (1 "next" divisor digit)
  have pre: "\<not> (decw_zero divisor \<or> length next \<noteq> length divisor)"
    using "1.prems" by (auto simp: decw_zero_val wide_ok_def)
  show ?case
  proof (cases "0 \<le> decw_cmp next divisor")
    case True
    then have le: "wide_val divisor \<le> wide_val next"
      using decw_cmp_val [OF "1.prems"(2,1)] by (auto split: if_splits)
    from "1.IH" [OF pre True "1.prems"(1) decw_sub_val(1) [OF "1.prems"(2,1) le] "1.prems"(3)]
    show ?thesis using pre True by (simp add: count_sub.simps [of "next"])
  next
    case False
    then show ?thesis using pre by (simp add: count_sub.simps [of "next"])
  qed
qed

text \<open>
  The long division: while fewer than 39 significant digits are known and a remainder is left, bring
  down a zero and subtract. Leading zeros lower the exponent instead of being stored.
\<close>

function div_loop :: "bu128 \<Rightarrow> bu128 \<Rightarrow> u32 list \<Rightarrow> int \<Rightarrow> int \<Rightarrow> int \<Rightarrow> (u32 list \<times> bu128 \<times> int) rt" where
  "div_loop denominator remainder significant ratio_exp line col =
     (if int (length significant) < BDEC_PRECISION + 1 \<and> \<not> bu_zero remainder then
        rt_bind (decw_mul10 (decw_from128 remainder) line col) (\<lambda>next.
        rt_bind (count_sub next (decw_from128 denominator) 0) (\<lambda>(next, digit).
        rt_bind (decw_to128 next line col) (\<lambda>remainder'.
          if significant = [] \<and> digit = 0 then div_loop denominator remainder' significant (ratio_exp - 1) line col
          else div_loop denominator remainder' (significant @ [digit]) ratio_exp line col)))
      else Ok (significant, remainder, ratio_exp))"
  by auto

lemma div_step_shrinks:
  assumes "decw_mul10 (decw_from128 remainder) line col = Ok next"
    and "count_sub next (decw_from128 denominator) 0 = Ok (next', digit)"
    and "decw_to128 next' line col = Ok remainder'"
  shows "bu_val remainder' < bu_val denominator"
    and "\<exists>k. 10 * bu_val remainder = k * bu_val denominator + bu_val remainder' \<and> digit = of_nat k"
proof -
  have n: "wide_ok next" "wide_val next = 10 * bu_val remainder"
    using decw_mul10_val [OF decw_from128_val(2), of remainder line col] assms(1) bu_val_less [of remainder]
    by (auto simp: decw_from128_val split: if_splits)
  from count_sub_val [OF decw_from128_val(2) n(1) assms(2)] n(2) obtain k where
    "wide_ok next'" "wide_val next' < bu_val denominator"
    "10 * bu_val remainder = k * bu_val denominator + wide_val next'" "digit = of_nat k"
    by (auto simp: decw_from128_val)
  moreover have "bu_val remainder' = wide_val next'"
    using decw_to128_val [OF calculation(1), of line col] assms(3) by (auto simp: dec_overflow_def split: if_splits)
  ultimately show "bu_val remainder' < bu_val denominator"
    "\<exists>k. 10 * bu_val remainder = k * bu_val denominator + bu_val remainder' \<and> digit = of_nat k" by auto
qed

termination div_loop
proof (relation "measures [\<lambda>(denominator, remainder, significant, ratio_exp, line, col). 39 - length significant,
    \<lambda>(denominator, remainder, significant, ratio_exp, line, col).
      if bu_val remainder < bu_val denominator then bu_val denominator - bu_val remainder else bu_val denominator + 1]",
    goal_cases)
  case (2 d r sig e line col n p m digit r')
  have p: "p = (m, digit)" using 2 by simp
  note s = div_step_shrinks [OF 2(2) 2(3) [unfolded p] 2(5)]
  from s(2) obtain k where k: "10 * bu_val r = k * bu_val d + bu_val r'" "digit = of_nat k" by auto
  have pos: "0 < bu_val r" using 2(1) by (simp add: bu_zero_val)
  have "bu_val r < bu_val r'" if "bu_val r < bu_val d"
  proof -
    have "k * bu_val d < 10 * bu_val d" using k(1) that by linarith
    then have "k < 10" by simp
    moreover have "2 ^ 32 dvd k" using k(2) 2(6) by (simp add: word_of_nat_eq_0_iff)
    ultimately have "k = 0" by (auto dest: dvd_imp_le)
    with k(1) pos show ?thesis by simp
  qed
  with s(1) 2(6) show ?case by auto
qed auto


declare div_loop.simps [simp del]

text \<open>The kept digits as a number.\<close>

fun kept_digits :: "u32 list \<Rightarrow> decw \<Rightarrow> int \<Rightarrow> int \<Rightarrow> decw rt" where
  "kept_digits [] kept line col = Ok kept"
| "kept_digits (d # ds) kept line col =
     rt_bind (decw_mul10 kept line col) (\<lambda>kept.
     rt_bind (decw_add kept (decw_from128 \<lparr>bu_lo = ucast d, bu_hi = 0\<rparr>) line col) (\<lambda>kept.
       kept_digits ds kept line col))"

text \<open>The buffers hold 40 and 39 digits; more would be a write outside them.\<close>

definition beans_decv_div :: "bdec \<Rightarrow> bdec \<Rightarrow> int \<Rightarrow> int \<Rightarrow> bdec rt" where
  "beans_decv_div a b line col =
     (if dec_zero b then Panic (asc ''divide by zero'') line col
      else if dec_zero a then
        let quotient_scale = d_s a - d_s b in
        Ok (dec_set bu_0 False (if quotient_scale < 0 then 0 else quotient_scale))
      else case bu_divmod (dec_mag a) (dec_mag b) of
        None \<Rightarrow> Fault
      | Some (integer, remainder) \<Rightarrow>
          let reversed = rev (quotient_digits integer);
              ratio_exp = (if \<not> bu_zero integer then int (length reversed) - 1 else -1) in
          if length reversed > 39 then Fault
          else rt_bind (div_loop (dec_mag b) remainder (rev reversed) ratio_exp line col)
            (\<lambda>(significant, remainder, ratio_exp).
              if significant = [] then Ok (dec_set bu_0 False 0)
              else
                let kept_count = (if int (length significant) < BDEC_PRECISION then int (length significant) else BDEC_PRECISION);
                    negative = (dec_negative a \<noteq> dec_negative b) in
                rt_bind (kept_digits (take (nat kept_count) significant) (replicate BDEC_WIDE_LIMBS 0) line col) (\<lambda>kept.
                rt_bind
                  (if int (length significant) > BDEC_PRECISION then
                     rt_bind (dec_should_increment (significant ! nat BDEC_PRECISION) (\<not> bu_zero remainder) kept negative
                        BROUND_HALF_EVEN) (\<lambda>up. if up then decw_increment kept line col else Ok kept)
                   else Ok kept) (\<lambda>kept.
                  let result_exp = ratio_exp + d_s b - d_s a;
                      result_scale = kept_count - 1 - result_exp in
                  dec_finish kept negative result_scale BROUND_HALF_EVEN line col))))"

definition beans_decv_round :: "bdec \<Rightarrow> int \<Rightarrow> int \<Rightarrow> int \<Rightarrow> int \<Rightarrow> bdec rt" where
  "beans_decv_round v places mode line col =
     (if places \<ge> d_s v then Ok v
      else if places < - BDEC_PRECISION then
        let away = (mode = BROUND_FLOOR \<and> dec_negative v \<or>
              mode = BROUND_CEIL \<and> \<not> dec_negative v \<and> \<not> dec_zero v) in
        if away then dec_overflow line col else Ok (dec_set bu_0 False 0)
      else
        let wide = decw_from128 (dec_mag v); drop = d_s v - places;
            digits = decw_digits wide; negative = dec_negative v;
            away = (mode = BROUND_FLOOR \<and> negative \<or> mode = BROUND_CEIL \<and> \<not> negative) in
        if drop > digits \<and> \<not> away then Ok (dec_set bu_0 False (if places < 0 then 0 else places))
        else
          rt_bind
            (if drop > digits then Ok (decw_from128 bu_1)
             else
               let (kept, sticky, guard) = drop_digits (nat drop) wide False 0 in
               rt_bind (dec_should_increment guard sticky kept negative mode) (\<lambda>up.
                 if up then decw_increment kept line col else Ok kept)) (\<lambda>wide.
            if places < 0 then
              rt_bind (decw_mul_pow10 wide (- places) line col) (\<lambda>wide.
                dec_finish wide negative 0 mode line col)
            else dec_finish wide negative places mode line col))"

section \<open>Order and hash\<close>

definition beans_dec_cmp :: "bdec \<Rightarrow> bdec \<Rightarrow> int rt" where
  "beans_dec_cmp a b =
     (if dec_negative a \<and> \<not> dec_negative b then Ok (-1)
      else if \<not> dec_negative a \<and> dec_negative b then Ok 1
      else if dec_zero a then Ok (if dec_zero b then 0 else -1)
      else if dec_zero b then Ok 1
      else
        let negative = dec_negative a; ae = dec_exponent a; be = dec_exponent b in
        rt_bind
          (if ae \<noteq> be then Ok (if ae < be then -1 else 1)
           else
             let scale = (if d_s a > d_s b then d_s a else d_s b) in
             rt_bind (decw_mul_pow10 (decw_from128 (dec_mag a)) (scale - d_s a) 0 0) (\<lambda>aw.
             rt_bind (decw_mul_pow10 (decw_from128 (dec_mag b)) (scale - d_s b) 0 0) (\<lambda>bw.
               Ok (decw_cmp aw bw)))) (\<lambda>order.
          Ok (if negative then - order else order)))"

text \<open>Trailing zeros of the fraction go before hashing.\<close>

function canonical :: "bu128 \<Rightarrow> int \<Rightarrow> bu128 \<times> int" where
  "canonical magnitude s =
     (if s > 0 then
        case bu_div_small magnitude 10 of
          None \<Rightarrow> (magnitude, s)
        | Some (q, remainder) \<Rightarrow>
            if remainder \<noteq> 0 then (magnitude, s) else canonical q (s - 1)
      else (magnitude, s))"
  by auto
termination
  by (relation "measure (\<lambda>(magnitude, s). nat s)") auto

declare canonical.simps [simp del]

definition beans_dec_hash :: "bdec \<Rightarrow> u64" where
  "beans_dec_hash d =
     (let (magnitude, s) = canonical (dec_mag d) (d_s d);
          bits = (if dec_negative d then bu_twos magnitude else magnitude) in
      beans_mix64 (bu_lo bits XOR beans_mix64 (bu_hi bits XOR u64_of s)))"

section \<open>Boxed operations\<close>

definition beans_dec_add :: "bdec \<Rightarrow> bdec \<Rightarrow> bdec rt" where "beans_dec_add a b = beans_decv_add a b 0 0"
definition beans_dec_sub :: "bdec \<Rightarrow> bdec \<Rightarrow> bdec rt" where "beans_dec_sub a b = beans_decv_sub a b 0 0"
definition beans_dec_mul :: "bdec \<Rightarrow> bdec \<Rightarrow> bdec rt" where "beans_dec_mul a b = beans_decv_mul a b 0 0"
definition beans_dec_div :: "bdec \<Rightarrow> bdec \<Rightarrow> int \<Rightarrow> int \<Rightarrow> bdec rt" where
  "beans_dec_div a b line col = beans_decv_div a b line col"
definition beans_dec_neg :: "bdec \<Rightarrow> bdec" where "beans_dec_neg v = beans_decv_neg v"
definition beans_dec_abs :: "bdec \<Rightarrow> bdec" where "beans_dec_abs v = beans_decv_abs v"
definition beans_dec_round :: "bdec \<Rightarrow> int \<Rightarrow> int \<Rightarrow> bdec rt" where
  "beans_dec_round v places mode = beans_decv_round v places mode 0 0"

section \<open>Reading and printing\<close>

text \<open>The exponent of a number in text: digits up to 4096, then the end.\<close>

fun valid_exponent :: "int \<Rightarrow> bstr \<Rightarrow> bool" where
  "valid_exponent ev [] \<longleftrightarrow> True"
| "valid_exponent ev (c # s) \<longleftrightarrow>
     (if is_digit c then let ev = ev * 10 + (uint c - 48) in ev \<le> 4096 \<and> valid_exponent ev s else c = 0)"

fun valid_body :: "int \<Rightarrow> bool \<Rightarrow> bstr \<Rightarrow> bool" where
  "valid_body digits dot [] \<longleftrightarrow> digits > 0"
| "valid_body digits dot (c # s) \<longleftrightarrow>
     (if c = 0 then digits > 0
      else if is_digit c then valid_body (digits + 1) dot s
      else if c = 95 then valid_body digits dot s
      else if c = 46 \<and> \<not> dot then valid_body digits True s
      else if (c = 101 \<or> c = 69) \<and> digits \<noteq> 0 then
        let s = (if peek s = 43 \<or> peek s = 45 then drop 1 s else s) in
        is_digit (peek s) \<and> valid_exponent 0 s
      else False)"

definition dec_valid_c :: "bstr \<Rightarrow> bool" where
  "dec_valid_c s = valid_body 0 False (if peek s = 43 \<or> peek s = 45 then drop 1 s else s)"

text \<open>
  The scan of the digits: coefficient, digits after the point, exponent, whether a digit other than a
  leading zero was seen, and how many significant digits there are. \<open>None\<close> is the return value 0.
\<close>

fun parse_body ::
    "bstr \<Rightarrow> bu128 \<Rightarrow> int \<Rightarrow> bool \<Rightarrow> bool \<Rightarrow> int \<Rightarrow> (bu128 \<times> int \<times> int \<times> bool \<times> int) option rt" where
  "parse_body [] coeff fractional after_dot seen_nonzero significant =
     Ok (Some (coeff, fractional, 0, seen_nonzero, significant))"
| "parse_body (c # s) coeff fractional after_dot seen_nonzero significant =
     (if c = 0 then Ok (Some (coeff, fractional, 0, seen_nonzero, significant))
      else if c = 95 then parse_body s coeff fractional after_dot seen_nonzero significant
      else if c = 46 then parse_body s coeff fractional True seen_nonzero significant
      else if c = 101 \<or> c = 69 then
        rt_bind (rt_parse_i64 s) (\<lambda>r.
          Ok (case r of None \<Rightarrow> None | Some (e, _) \<Rightarrow> Some (coeff, fractional, e, seen_nonzero, significant)))
      else
        let fractional = (if after_dot then fractional + 1 else fractional) in
        if \<not> seen_nonzero \<and> c = 48 then parse_body s coeff fractional after_dot seen_nonzero significant
        else
          let significant = significant + 1 in
          if significant > BDEC_PRECISION then Ok None
          else
            let (multiplied, fits) = bu_mul_small coeff 10 in
            if \<not> fits then Ok None
            else
              let (coeff, fits) = bu_add_small multiplied (ucast c - 48) in
              if \<not> fits then Ok None else parse_body s coeff fractional after_dot True significant)"

definition dec_parse_text :: "bstr \<Rightarrow> bdec option rt" where
  "dec_parse_text s =
     (if \<not> dec_valid_c s then Ok None
      else
        let neg = (peek s = 45);
            s = (if peek s = 45 \<or> peek s = 43 then drop 1 s else s) in
        rt_bind (parse_body s bu_0 0 False False 0) (\<lambda>r.
          case r of
            None \<Rightarrow> Ok None
          | Some (coeff, fractional, e, seen_nonzero, significant) \<Rightarrow>
              let scale = fractional - e in
              if \<not> seen_nonzero then
                let scale = (if scale < 0 then 0 else scale) in
                Ok (if scale > BDEC_MAX_SCALE then None else Some (dec_set bu_0 False scale))
              else
                let grown =
                  (if scale < 0 then
                     let append = - scale in
                     if append > BDEC_PRECISION \<or> significant + append > BDEC_PRECISION then None
                     else coeff_limit_loop (nat append) coeff
                   else Some coeff);
                  scale = (if scale < 0 then 0 else scale) in
                Ok (case grown of
                      None \<Rightarrow> None
                    | Some coeff \<Rightarrow>
                        if scale > BDEC_MAX_SCALE \<or> bu_cmp coeff dec_coeff_limit > 0 then None
                        else Some (dec_set coeff neg scale))))"

definition beans_str_to_decimal :: "bstr \<Rightarrow> (berror + bdec) rt" where
  "beans_str_to_decimal s =
     rt_bind (dec_parse_text s) (\<lambda>r.
       case r of
         None \<Rightarrow> rt_bind (parse_fail s ''decimal'') (\<lambda>e. Ok (Inl e))
       | Some v \<Rightarrow> Ok (Inr v))"

fun drop_fraction :: "nat \<Rightarrow> bu128 \<Rightarrow> bu128" where
  "drop_fraction 0 magnitude = magnitude"
| "drop_fraction (Suc n) magnitude =
     (if bu_zero magnitude then magnitude
      else case bu_div_small magnitude 10 of None \<Rightarrow> magnitude | Some (q, _) \<Rightarrow> drop_fraction n q)"

definition beans_dec_to_int :: "bdec \<Rightarrow> int" where
  "beans_dec_to_int v =
     (let bits = bu_lo (drop_fraction (nat (d_s v)) (dec_mag v)) in
      sint (if dec_negative v then 0 - bits else bits))"

text \<open>
  From a \<^verbatim>\<open>double\<close>: through the text the host's formatter gives for it (seventeen digits, format
  \<^verbatim>\<open>g\<close>), a parameter here.
\<close>

definition beans_decv_from_f64 :: "(slot \<Rightarrow> int \<Rightarrow> char \<Rightarrow> bstr) \<Rightarrow> slot \<Rightarrow> int \<Rightarrow> int \<Rightarrow> bdec rt" where
  "beans_decv_from_f64 format_f64 x line col =
     rt_bind (dec_parse_text (format_f64 x 17 (CHR ''g''))) (\<lambda>r.
       case r of None \<Rightarrow> dec_overflow line col | Some v \<Rightarrow> Ok v)"

text \<open>The digits of the output, most significant first, with the point after the one at the scale.\<close>

fun point_digits :: "bstr \<Rightarrow> int \<Rightarrow> bstr" where
  "point_digits [] s = []"
| "point_digits (d # ds) s =
     (if int (length ds) = s \<and> length ds \<noteq> 0 then d # 46 # point_digits ds s else d # point_digits ds s)"

text \<open>
  \<open>alloc\<close> says which sizes the allocator grants. A digit or a byte of the output past the end of its
  buffer is a \<open>Fault\<close>.
\<close>

definition beans_dec_str :: "(u64 \<Rightarrow> bool) \<Rightarrow> bdec \<Rightarrow> bstr rt" where
  "beans_dec_str alloc a =
     (let magnitude = dec_mag a; neg = dec_negative a;
          cap = (if d_s a > 38 then d_s a else 38) + 2;
          digits_room = (if cap \<le> 63 then 64 else cap + 1);
          out_room = (if cap + 2 \<le> 79 then 80 else cap + 3) in
      if \<not> (cap \<le> 63 \<or> alloc (u64_of (cap + 1))) \<or> \<not> (cap + 2 \<le> 79 \<or> alloc (u64_of (cap + 3)))
      then Panic (asc ''decimal too large to print'') 0 0
      else
        let ds = map (\<lambda>d. 48 + ucast d) (quotient_digits magnitude);
            ds = (if bu_zero magnitude then [48] else ds);
            digits = replicate (nat (d_s a + 1 - int (length ds))) 48 @ ds;
            out = (if neg then [45] else []) @ point_digits digits (d_s a) in
        if int (length digits) > digits_room \<or> int (length out) + 1 > out_room then Fault else Ok out)"

end
