(* ===== verification/Rt_Decimal_Spec.thy ===== *)
theory Rt_Decimal_Spec
  imports Rt_Decimal Complex_Main
begin

unbundle bit_operations_syntax

text \<open>
  What the decimal operations mean: a decimal is the rational number \<open>dec_val\<close>, and an operation answers
  the decimal nearest to the exact rational result, the even one of two equally near ones, or panics
  because every nearest candidate needs more than 38 digits before the point. Comparison and hash
  agree with the rational value.
\<close>

section \<open>Decimals as numbers\<close>

definition dec_int :: "bdec \<Rightarrow> int" where
  "dec_int v = (if dec_negative v then - int (bu_val (dec_mag v)) else int (bu_val (dec_mag v)))"

definition dec_val :: "bdec \<Rightarrow> rat" where
  "dec_val v = of_int (dec_int v) / 10 ^ nat (d_s v)"

text \<open>What every operation is given and answers: at most 38 digits, a scale within the limit.\<close>

definition dec_ok :: "bdec \<Rightarrow> bool" where
  "dec_ok v \<longleftrightarrow> bu_val (dec_mag v) < 10 ^ 38 \<and> 0 \<le> d_s v \<and> d_s v \<le> BDEC_MAX_SCALE"

lemma dec_bits_val: "bu_val \<lparr>bu_lo = d_lo v, bu_hi = d_hi v\<rparr> = unat (d_lo v) + 2 ^ 64 * unat (d_hi v)"
  by (simp add: bu_val_def)

lemma dec_negative_val: "dec_negative v \<longleftrightarrow> 2 ^ 127 \<le> bu_val \<lparr>bu_lo = d_lo v, bu_hi = d_hi v\<rparr>"
proof -
  have "dec_negative v \<longleftrightarrow> unat (drop_bit 63 (d_hi v)) \<noteq> 0" by (simp add: dec_negative_def unat_eq_0)
  also have "\<dots> \<longleftrightarrow> 2 ^ 63 \<le> unat (d_hi v)" by (simp add: unat_high_half div_eq_0_iff not_less)
  also have "\<dots> \<longleftrightarrow> 2 ^ 127 \<le> unat (d_lo v) + 2 ^ 64 * unat (d_hi v)"
    using unat_u64_bound [of "d_lo v"] by auto
  finally show ?thesis by (simp add: dec_bits_val)
qed

lemma dec_mag_val:
  "bu_val (dec_mag v) = (let n = bu_val \<lparr>bu_lo = d_lo v, bu_hi = d_hi v\<rparr> in if 2 ^ 127 \<le> n then 2 ^ 128 - n else n)"
  by (auto simp: dec_mag_def dec_negative_val bu_twos_val Let_def)

lemma dec_mag_bound: "bu_val (dec_mag v) \<le> 2 ^ 127"
  using bu_val_less [of "\<lparr>bu_lo = d_lo v, bu_hi = d_hi v\<rparr>"] by (auto simp: dec_mag_val Let_def)

lemma dec_zero_val: "dec_zero v \<longleftrightarrow> bu_val (dec_mag v) = 0"
  using bu_val_less [of "\<lparr>bu_lo = d_lo v, bu_hi = d_hi v\<rparr>"] bu_zero_val [of "\<lparr>bu_lo = d_lo v, bu_hi = d_hi v\<rparr>"]
  by (auto simp: dec_zero_def dec_mag_val bu_zero_def Let_def)

lemma dec_negative_nonzero: "dec_negative v \<Longrightarrow> 0 < bu_val (dec_mag v)"
  using bu_val_less [of "\<lparr>bu_lo = d_lo v, bu_hi = d_hi v\<rparr>"] by (auto simp: dec_mag_val dec_negative_val Let_def)

lemma dec_int_nat: "nat \<bar>dec_int v\<bar> = bu_val (dec_mag v)"
  by (simp add: dec_int_def)

lemma dec_negative_int: "dec_negative v \<longleftrightarrow> dec_int v < 0"
  using dec_negative_nonzero [of v] by (auto simp: dec_int_def)

lemma dec_zero_int: "dec_zero v \<longleftrightarrow> dec_int v = 0"
  by (simp add: dec_zero_val dec_int_def)

lemma abs_dec_int: "\<bar>dec_int v\<bar> = int (bu_val (dec_mag v))"
  by (simp add: dec_int_def)

lemma bu_surjective: "\<lparr>bu_lo = bu_lo m, bu_hi = bu_hi m\<rparr> = m"
  by simp

lemma dec_set_bits:
  "bu_val \<lparr>bu_lo = d_lo (dec_set m n s), bu_hi = d_hi (dec_set m n s)\<rparr> =
     (if n \<and> bu_val m \<noteq> 0 then 2 ^ 128 - bu_val m else bu_val m)"
proof -
  have "\<lparr>bu_lo = d_lo (dec_set m n s), bu_hi = d_hi (dec_set m n s)\<rparr> = (if n \<and> bu_val m \<noteq> 0 then bu_twos m else m)"
    by (simp add: dec_set_def bu_zero_val Let_def)
  then show ?thesis by (simp add: bu_twos_val)
qed

lemma dec_set_scale [simp]: "d_s (dec_set m n s) = s"
  by (simp add: dec_set_def Let_def)

lemma dec_set_val:
  assumes "bu_val m < 2 ^ 127"
  shows "dec_negative (dec_set m n s) \<longleftrightarrow> n \<and> bu_val m \<noteq> 0" "dec_mag (dec_set m n s) = m"
    and "dec_int (dec_set m n s) = (if n then - int (bu_val m) else int (bu_val m))"
proof -
  show neg: "dec_negative (dec_set m n s) \<longleftrightarrow> n \<and> bu_val m \<noteq> 0"
    using assms by (auto simp: dec_negative_val dec_set_bits)
  have "bu_val (dec_mag (dec_set m n s)) = bu_val m"
    using assms by (auto simp: dec_mag_val dec_set_bits Let_def)
  then show "dec_mag (dec_set m n s) = m" by (simp add: bu_val_inject)
  with neg show "dec_int (dec_set m n s) = (if n then - int (bu_val m) else int (bu_val m))"
    unfolding dec_int_def by (cases n) simp_all
qed

lemma bu_val_small [simp]: "bu_val bu_0 = 0" "bu_val bu_1 = 1"
  by (simp_all add: bu_val_def)

lemma dec_set_zero [simp]: "dec_int (dec_set bu_0 n s) = 0"
  using dec_set_val(3) [of bu_0 n s] by simp

lemma bdec_eqI:
  assumes "dec_int a = dec_int b" "d_s a = d_s b"
  shows "a = b"
proof -
  let ?n = "\<lambda>v. bu_val \<lparr>bu_lo = d_lo v, bu_hi = d_hi v\<rparr>"
  have n: "?n v = nat (if dec_int v < 0 then 2 ^ 128 + dec_int v else dec_int v)" for v
    using bu_val_less [of "\<lparr>bu_lo = d_lo v, bu_hi = d_hi v\<rparr>"]
    by (auto simp: dec_int_def dec_negative_val dec_mag_val Let_def nat_add_distrib nat_diff_distrib)
  from assms(1) have "?n a = ?n b" by (simp add: n)
  then have "d_lo a = d_lo b" "d_hi a = d_hi b" by (simp_all add: bu_val_inject)
  with assms(2) show ?thesis by simp
qed

lemma dec_set_same: "dec_set (dec_mag v) (dec_negative v) (d_s v) = v"
proof (cases "dec_negative v")
  case True
  have "bu_val (bu_twos (dec_mag v)) = bu_val \<lparr>bu_lo = d_lo v, bu_hi = d_hi v\<rparr>"
    using True bu_val_less [of "\<lparr>bu_lo = d_lo v, bu_hi = d_hi v\<rparr>"]
    by (auto simp: bu_twos_val dec_mag_val dec_negative_val Let_def)
  with True dec_negative_nonzero [OF True] show ?thesis
    by (simp add: dec_set_def bu_val_inject bu_zero_val)
next
  case False
  then show ?thesis by (simp add: dec_set_def dec_mag_def Let_def)
qed

lemma pow38_less: "(10 :: nat) ^ 38 < 2 ^ 127"
  by simp

lemma dec_ok_set: "dec_ok (dec_set m n s) \<longleftrightarrow> bu_val m < 10 ^ 38 \<and> 0 \<le> s \<and> s \<le> BDEC_MAX_SCALE" if "bu_val m < 2 ^ 127"
  using dec_set_val(2) [OF that] by (simp add: dec_ok_def)

lemma dec_ok_int: "dec_ok v \<longleftrightarrow> \<bar>dec_int v\<bar> < 10 ^ 38 \<and> 0 \<le> d_s v \<and> d_s v \<le> BDEC_MAX_SCALE"
proof -
  have "int (bu_val (dec_mag v)) < 10 ^ 38 \<longleftrightarrow> bu_val (dec_mag v) < 10 ^ 38"
    using of_nat_less_iff [of "bu_val (dec_mag v)" "10 ^ 38", where 'a = int] by simp
  then show ?thesis unfolding dec_ok_def abs_dec_int by simp
qed

section \<open>Counting digits\<close>

text \<open>A number has \<open>n\<close> digits when it lies between two powers of ten.\<close>

definition has_digits :: "nat \<Rightarrow> nat \<Rightarrow> bool" where
  "has_digits n v \<longleftrightarrow> 0 < n \<and> v < 10 ^ n \<and> (n = 1 \<or> 10 ^ (n - 1) \<le> v)"

lemma has_digits_Suc: "10 \<le> v \<Longrightarrow> has_digits n (v div 10) \<Longrightarrow> has_digits (Suc n) v"
  by (cases n) (auto simp: has_digits_def div_less_iff_less_mult less_eq_div_iff_mult_less_eq mult.commute split: if_splits)

lemma has_digits_unique:
  assumes "has_digits m v" "has_digits n v"
  shows "m = n"
proof -
  have False if "a < b" "has_digits a v" "has_digits b v" for a b
  proof -
    from that have "10 ^ (b - 1) \<le> v" "v < 10 ^ a" by (auto simp: has_digits_def)
    moreover from that(1) have "(10 :: nat) ^ a \<le> 10 ^ (b - 1)" by (intro power_increasing) auto
    ultimately show False by linarith
  qed
  with assms show ?thesis by (metis nat_neq_iff)
qed

lemma dec_digits_loop_val:
  "\<exists>n. dec_digits_loop v digits = digits + int n \<and> has_digits (Suc n) (bu_val v)"
proof (induction v digits rule: dec_digits_loop.induct)
  case (1 v digits)
  have big: "bu_hi v \<noteq> 0 \<or> bu_lo v \<ge> 10 \<longleftrightarrow> 10 \<le> bu_val v"
  proof (cases "bu_hi v = 0")
    case True
    then show ?thesis by (simp add: bu_val_def word_le_nat_alt)
  next
    case False
    then have "0 < unat (bu_hi v)" by (simp add: unat_gt_0)
    then have "2 ^ 64 * 1 \<le> 2 ^ 64 * unat (bu_hi v)" by (intro mult_le_mono2) simp
    then show ?thesis using False by (simp add: bu_val_def)
  qed
  obtain q r where d: "bu_div_small v 10 = Some (q, r)" "bu_val q = bu_val v div 10"
    using bu_div_small_val [of 10 v] by auto
  show ?case
  proof (cases "10 \<le> bu_val v")
    case True
    with big have c: "bu_hi v \<noteq> 0 \<or> bu_lo v \<ge> 10" by blast
    from "1.IH" [OF c d(1) refl] obtain n where
      "dec_digits_loop q (digits + 1) = digits + 1 + int n" "has_digits (Suc n) (bu_val q)" by auto
    with True d c show ?thesis
      by (auto simp: dec_digits_loop.simps [of v] intro!: exI [of _ "Suc n"] has_digits_Suc)
  next
    case False
    with big show ?thesis by (auto simp: dec_digits_loop.simps [of v] has_digits_def intro!: exI [of _ 0])
  qed
qed

lemma dec_digits128_val: "\<exists>n. dec_digits128 v = int n \<and> has_digits n (bu_val v)"
  using dec_digits_loop_val [of v 1] by (auto simp: dec_digits128_def intro: exI [of _ "Suc n" for n])

lemma decw_digits_loop_val:
  "wide_ok v \<Longrightarrow> 0 < wide_val v \<Longrightarrow>
   \<exists>n. decw_digits_loop v digits = digits + int n \<and> has_digits n (wide_val v)"
proof (induction v digits rule: decw_digits_loop.induct)
  case (1 v digits)
  from "1.prems" have nz: "\<not> decw_zero v" by (simp add: decw_zero_val)
  obtain q r where d: "decw_div10 v = (q, r)" by fastforce
  note q = decw_div10_val [OF "1.prems"(1) d]
  show ?case
  proof (cases "10 \<le> wide_val v")
    case True
    then have "0 < wide_val (fst (decw_div10 v))" using d q by (simp add: div_greater_zero_iff)
    from "1.IH" [OF nz _ this] d q obtain n where
      "decw_digits_loop q (digits + 1) = digits + 1 + int n" "has_digits n (wide_val q)" by auto
    with True nz d q show ?thesis
      by (auto simp: decw_digits_loop.simps [of v] intro!: exI [of _ "Suc n"] has_digits_Suc)
  next
    case False
    then have "decw_zero q" using q by (simp add: decw_zero_val)
    with False "1.prems" nz d show ?thesis
      by (auto simp: decw_digits_loop.simps [of v] decw_digits_loop.simps [of q] has_digits_def intro!: exI [of _ 1])
  qed
qed

lemma decw_digits_val: "wide_ok v \<Longrightarrow> \<exists>n. decw_digits v = int n \<and> has_digits n (wide_val v)"
  using decw_digits_loop_val [of v 0]
  by (cases "wide_val v = 0") (auto simp: decw_digits_def decw_zero_val has_digits_def intro: exI [of _ 1])

lemma decw_digits_le: "wide_ok v \<Longrightarrow> 0 < n \<Longrightarrow> decw_digits v \<le> int n \<longleftrightarrow> wide_val v < 10 ^ n"
proof -
  assume "wide_ok v" "0 < n"
  then obtain m where m: "decw_digits v = int m" "has_digits m (wide_val v)" using decw_digits_val by blast
  have "wide_val v < 10 ^ n" if "m \<le> n"
  proof -
    have "wide_val v < 10 ^ m" using m(2) by (simp add: has_digits_def)
    also have "(10 :: nat) ^ m \<le> 10 ^ n" using that by (intro power_increasing) auto
    finally show ?thesis .
  qed
  moreover have "\<not> wide_val v < 10 ^ n" if "n < m"
  proof -
    have "(10 :: nat) ^ n \<le> 10 ^ (m - 1)" using that by (intro power_increasing) auto
    moreover have "10 ^ (m - 1) \<le> wide_val v" using m(2) that \<open>0 < n\<close> unfolding has_digits_def by linarith
    ultimately show ?thesis by linarith
  qed
  ultimately show ?thesis unfolding m(1) of_nat_le_iff by (cases "m \<le> n") auto
qed

lemma coeff_limit_loop_Some:
  "bu_val v * 10 ^ n < 2 ^ 128 \<Longrightarrow> \<exists>r. coeff_limit_loop n v = Some r \<and> bu_val r = bu_val v * 10 ^ n"
proof (induction n arbitrary: v)
  case (Suc n)
  obtain r fits where m: "bu_mul_small v 10 = (r, fits)" by fastforce
  have "bu_val v * 10 \<le> bu_val v * 10 ^ Suc n" by simp
  with Suc.prems have "bu_val v * 10 < 2 ^ 128" by (rule le_less_trans [rotated])
  with bu_mul_small_val [OF m] have r: fits "bu_val r = bu_val v * 10" by simp_all
  then have "bu_val r * 10 ^ n = bu_val v * 10 ^ Suc n" by simp
  with Suc.IH [of r] Suc.prems m r(1) show ?case by simp
qed simp

lemma dec_coeff_limit_val: "bu_val dec_coeff_limit = 10 ^ 38 - 1"
proof -
  have "bu_val bu_1 * 10 ^ 38 < 2 ^ 128" by simp
  then obtain r where "coeff_limit_loop 38 bu_1 = Some r" "bu_val r = 10 ^ 38"
    using coeff_limit_loop_Some [of bu_1 38] by auto
  then show ?thesis by (simp add: dec_coeff_limit_def bu_sub_val)
qed

section \<open>Nearest decimal\<close>

text \<open>
  \<open>rounds_to x r\<close>: no decimal is nearer to \<open>x\<close> than \<open>r\<close>, and when another is as near the coefficient of
  \<open>r\<close> is even.
\<close>

definition rounds_to :: "rat \<Rightarrow> bdec \<Rightarrow> bool" where
  "rounds_to x r \<longleftrightarrow> dec_ok r \<and>
     (\<forall>d. dec_ok d \<longrightarrow> \<bar>dec_val r - x\<bar> \<le> \<bar>dec_val d - x\<bar>) \<and>
     (\<forall>d. dec_ok d \<longrightarrow> dec_val d \<noteq> dec_val r \<longrightarrow> \<bar>dec_val r - x\<bar> = \<bar>dec_val d - x\<bar> \<longrightarrow> even (dec_int r))"

lemma rounds_to_exact: "dec_ok r \<Longrightarrow> dec_val r = x \<Longrightarrow> rounds_to x r"
  by (auto simp: rounds_to_def)

lemma nearest_int:
  fixes y :: rat
  assumes "\<bar>of_int c - y\<bar> \<le> 1 / 2"
  shows "\<bar>of_int c - y\<bar> \<le> \<bar>of_int j - y\<bar>"
    and "j \<noteq> c \<Longrightarrow> \<bar>of_int c - y\<bar> = \<bar>of_int j - y\<bar> \<Longrightarrow> \<bar>of_int c - y\<bar> = 1 / 2"
proof -
  have far: "1 \<le> \<bar>of_int j - of_int c :: rat\<bar>" if "j \<noteq> c"
  proof -
    from that have "1 \<le> \<bar>j - c\<bar>" by linarith
    then have "(1 :: rat) \<le> of_int \<bar>j - c\<bar>" by (metis of_int_1 of_int_le_iff)
    then show ?thesis by simp
  qed
  show "\<bar>of_int c - y\<bar> \<le> \<bar>of_int j - y\<bar>"
  proof (cases "j = c")
    case False
    from far [OF this] assms show ?thesis by linarith
  qed simp
  show "j \<noteq> c \<Longrightarrow> \<bar>of_int c - y\<bar> = \<bar>of_int j - y\<bar> \<Longrightarrow> \<bar>of_int c - y\<bar> = 1 / 2"
    using far assms by linarith
qed

text \<open>Every decimal, measured in units of the last place of \<open>r\<close>, is an integer or small.\<close>

lemma decimal_in_units:
  assumes "dec_ok d" "0 \<le> s"
  shows "(\<exists>j. dec_val d * 10 ^ nat s = of_int j) \<or>
    s < d_s d \<and> \<bar>dec_val d * 10 ^ nat s\<bar> \<le> 10 ^ 37 - 1 / 10"
proof (cases "d_s d \<le> s")
  case True
  define k where "k = nat s - nat (d_s d)"
  have k: "nat s = nat (d_s d) + k" using True assms by (simp add: k_def nat_mono dec_ok_def)
  have "dec_val d * 10 ^ nat s = of_int (dec_int d * 10 ^ k)"
    by (simp add: dec_val_def k power_add)
  then show ?thesis by blast
next
  case False
  define k where "k = nat (d_s d) - nat s"
  from False assms have k: "nat (d_s d) = nat s + k" "1 \<le> k" by (auto simp: k_def dec_ok_def)
  have "dec_val d * 10 ^ nat s = of_int (dec_int d) / 10 ^ k"
    by (simp add: dec_val_def k(1) power_add)
  then have "\<bar>dec_val d * 10 ^ nat s\<bar> = of_int \<bar>dec_int d\<bar> / 10 ^ k" by simp
  also have "\<dots> \<le> of_int \<bar>dec_int d\<bar> / 10 ^ 1"
    using k(2) by (intro divide_left_mono power_increasing) auto
  also have "\<dots> \<le> of_int (10 ^ 38 - 1) / 10"
  proof -
    have "\<bar>dec_int d\<bar> \<le> 10 ^ 38 - 1" using assms(1) by (simp add: dec_ok_int)
    then have "(of_int \<bar>dec_int d\<bar> :: rat) \<le> of_int (10 ^ 38 - 1)" by (simp only: of_int_le_iff)
    then show ?thesis by (simp only: power_one_right divide_right_mono zero_le_numeral)
  qed
  finally show ?thesis using False by simp
qed

lemma rounds_toI:
  fixes x :: rat
  assumes ok: "dec_ok r"
    and y: "y = x * 10 ^ nat (d_s r)"
    and half: "\<bar>of_int (dec_int r) - y\<bar> \<le> 1 / 2" "\<bar>of_int (dec_int r) - y\<bar> = 1 / 2 \<Longrightarrow> even (dec_int r)"
    and full: "d_s r = BDEC_MAX_SCALE \<or>
      (\<bar>of_int (dec_int r) - y\<bar> \<le> \<bar>y\<bar> - 10 ^ 37 + 1 / 10 \<and>
       (\<bar>of_int (dec_int r) - y\<bar> = \<bar>y\<bar> - 10 ^ 37 + 1 / 10 \<longrightarrow> even (dec_int r)))"
  shows "rounds_to x r"
proof -
  let ?u = "10 ^ nat (d_s r) :: rat"
  let ?e = "\<bar>of_int (dec_int r) - y\<bar>"
  have r: "dec_val r * ?u = of_int (dec_int r)" by (simp add: dec_val_def)
  have scaled: "\<bar>v - x\<bar> * ?u = \<bar>v * ?u - y\<bar>" for v
  proof -
    have "\<bar>v - x\<bar> * ?u = \<bar>(v - x) * ?u\<bar>" by (simp add: abs_mult)
    also have "(v - x) * ?u = v * ?u - y" by (simp add: y algebra_simps)
    finally show ?thesis .
  qed
  have both: "?e \<le> \<bar>dec_val d * ?u - y\<bar> \<and> (dec_val d \<noteq> dec_val r \<longrightarrow> ?e = \<bar>dec_val d * ?u - y\<bar> \<longrightarrow> even (dec_int r))"
    if "dec_ok d" for d
  proof -
    from decimal_in_units [OF that, of "d_s r"] ok consider (int) j where "dec_val d * ?u = of_int j"
      | (small) "d_s r < d_s d" "\<bar>dec_val d * ?u\<bar> \<le> 10 ^ 37 - 1 / 10" by (auto simp: dec_ok_def)
    then show ?thesis
    proof cases
      case int
      have "j \<noteq> dec_int r" if "dec_val d \<noteq> dec_val r"
      proof
        assume "j = dec_int r"
        with int r have "dec_val d * ?u = dec_val r * ?u" by simp
        with that show False by simp
      qed
      with nearest_int [OF half(1), of j] half(2) int show ?thesis by auto
    next
      case small
      then have "d_s r \<noteq> BDEC_MAX_SCALE" using that by (auto simp: dec_ok_def)
      moreover have "\<bar>y\<bar> - 10 ^ 37 + 1 / 10 \<le> \<bar>dec_val d * ?u - y\<bar>" using small by linarith
      ultimately show ?thesis using full by linarith
    qed
  qed
  have pos: "0 < ?u" by simp
  have "\<bar>dec_val r - x\<bar> \<le> \<bar>dec_val d - x\<bar>" if "dec_ok d" for d
  proof -
    have "\<bar>dec_val r - x\<bar> * ?u \<le> \<bar>dec_val d - x\<bar> * ?u" using both [OF that] scaled r by simp
    then show ?thesis using pos by simp
  qed
  moreover have "even (dec_int r)"
    if "dec_ok d" "dec_val d \<noteq> dec_val r" "\<bar>dec_val r - x\<bar> = \<bar>dec_val d - x\<bar>" for d
  proof -
    have "?e = \<bar>dec_val d * ?u - y\<bar>" using that(3) scaled [of "dec_val r"] scaled [of "dec_val d"] r by simp
    with both [OF that(1)] that(2) show ?thesis by blast
  qed
  ultimately show ?thesis using ok by (simp add: rounds_to_def)
qed

section \<open>Rounding to 38 digits\<close>

lemma drop_digits_val:
  assumes "wide_ok v" "drop_digits (Suc n) v sticky guard = (q, sticky', guard')"
  shows "wide_ok q" "wide_val q = wide_val v div 10 ^ Suc n"
    "unat guard' = wide_val v div 10 ^ n mod 10" "sticky' \<longleftrightarrow> sticky \<or> wide_val v mod 10 ^ n \<noteq> 0"
proof -
  have "wide_ok q \<and> wide_val q = wide_val v div 10 ^ Suc n \<and>
    unat guard' = wide_val v div 10 ^ n mod 10 \<and> (sticky' \<longleftrightarrow> sticky \<or> wide_val v mod 10 ^ n \<noteq> 0)"
    using assms
  proof (induction n arbitrary: v sticky guard)
    case 0
    obtain q' r where d: "decw_div10 v = (q', r)" by fastforce
    with "0.prems"(2) decw_div10_val [OF "0.prems"(1) d] show ?case by auto
  next
    case (Suc n)
    obtain q' r where d: "decw_div10 v = (q', r)" by fastforce
    note v = decw_div10_val [OF Suc.prems(1) d]
    from Suc.prems(2) have "drop_digits (Suc n) q' (sticky \<or> r \<noteq> 0) guard = (q, sticky', guard')"
      by (subst (asm) drop_digits.simps(2)) (simp del: drop_digits.simps add: d)
    from Suc.IH [OF v(1) this] have IH: "wide_ok q" "wide_val q = wide_val v div 10 div 10 ^ Suc n"
      "unat guard' = wide_val v div 10 div 10 ^ n mod 10"
      "sticky' \<longleftrightarrow> (sticky \<or> r \<noteq> 0) \<or> wide_val v div 10 mod 10 ^ n \<noteq> 0" using v(2) by auto
    have "wide_val v mod 10 ^ Suc n = 10 * (wide_val v div 10 mod 10 ^ n) + wide_val v mod 10"
      by (simp add: mod_mult2_eq)
    moreover have "r \<noteq> 0 \<longleftrightarrow> wide_val v mod 10 \<noteq> 0" using v(3) by (metis unat_eq_0)
    moreover have down: "wide_val v div 10 div 10 ^ k = wide_val v div 10 ^ Suc k" for k
      by (simp add: div_mult2_eq)
    ultimately show ?case using IH(1,4) IH(2,3) [unfolded down] by auto
  qed
  then show "wide_ok q" "wide_val q = wide_val v div 10 ^ Suc n"
    "unat guard' = wide_val v div 10 ^ n mod 10" "sticky' \<longleftrightarrow> sticky \<or> wide_val v mod 10 ^ n \<noteq> 0" by auto
qed

text \<open>Half to even, as arithmetic: \<open>P\<close> is the power of ten dropped.\<close>

definition half_even :: "nat \<Rightarrow> nat \<Rightarrow> nat" where
  "half_even v P = v div P + (if P < 2 * (v mod P) \<or> 2 * (v mod P) = P \<and> odd (v div P) then 1 else 0)"

lemma guard_column:
  fixes p g low :: nat
  assumes "low < p"
  shows "10 * p < 2 * (p * g + low) \<longleftrightarrow> 5 < g \<or> g = 5 \<and> low \<noteq> 0"
    and "2 * (p * g + low) = 10 * p \<longleftrightarrow> g = 5 \<and> low = 0"
proof -
  have "(10 * p < 2 * (p * g + low) \<longleftrightarrow> 5 < g \<or> g = 5 \<and> low \<noteq> 0) \<and> (2 * (p * g + low) = 10 * p \<longleftrightarrow> g = 5 \<and> low = 0)"
  proof (cases g "5 :: nat" rule: linorder_cases)
    case less
    then have "p * g \<le> p * 4" by (intro mult_le_mono2) simp
    then have "p * g \<le> 4 * p" by (simp only: mult.commute)
    then have "2 * (p * g) + 2 * low < 10 * p" using assms by linarith
    then have "2 * (p * g + low) < 10 * p" by (simp only: distrib_left)
    with less show ?thesis by linarith
  next
    case greater
    then have "p * 6 \<le> p * g" by (intro mult_le_mono2) simp
    then have "6 * p \<le> p * g" by (simp only: mult.commute)
    then have "10 * p < 2 * (p * g) + 2 * low" using assms by linarith
    then have "10 * p < 2 * (p * g + low)" by (simp only: distrib_left)
    with greater show ?thesis by linarith
  qed auto
  then show "10 * p < 2 * (p * g + low) \<longleftrightarrow> 5 < g \<or> g = 5 \<and> low \<noteq> 0"
    "2 * (p * g + low) = 10 * p \<longleftrightarrow> g = 5 \<and> low = 0" by blast+
qed

lemma guard_sticky:
  fixes v :: nat
  assumes "g = v div 10 ^ n mod 10"
  shows "10 ^ Suc n < 2 * (v mod 10 ^ Suc n) \<longleftrightarrow> 5 < g \<or> g = 5 \<and> v mod 10 ^ n \<noteq> 0"
    and "2 * (v mod 10 ^ Suc n) = 10 ^ Suc n \<longleftrightarrow> g = 5 \<and> v mod 10 ^ n = 0"
proof -
  have m: "v mod 10 ^ Suc n = 10 ^ n * g + v mod 10 ^ n"
    using mod_mult2_eq [of v "10 ^ n" 10] by (simp add: assms mult.commute)
  have "v mod 10 ^ n < 10 ^ n" by simp
  from guard_column [OF this, of g]
  show "10 ^ Suc n < 2 * (v mod 10 ^ Suc n) \<longleftrightarrow> 5 < g \<or> g = 5 \<and> v mod 10 ^ n \<noteq> 0"
    "2 * (v mod 10 ^ Suc n) = 10 ^ Suc n \<longleftrightarrow> g = 5 \<and> v mod 10 ^ n = 0"
    unfolding m by (simp_all only: power_Suc)
qed

lemma half_even_error:
  assumes "0 < P"
  shows "\<bar>of_nat (half_even v P) - of_nat v / of_nat P\<bar> \<le> (1 / 2 :: rat)"
    and "\<bar>of_nat (half_even v P) - of_nat v / of_nat P\<bar> = (1 / 2 :: rat) \<Longrightarrow> even (half_even v P)"
proof -
  let ?q = "v div P" and ?r = "v mod P" and ?f = "of_nat (v mod P) / of_nat P :: rat"
  have "of_nat v = (of_nat ?q * of_nat P + of_nat ?r :: rat)"
    by (metis div_mult_mod_eq of_nat_add of_nat_mult)
  then have y: "of_nat v / of_nat P = of_nat ?q + ?f" using assms by (simp add: field_simps)
  have f: "0 \<le> ?f" "?f < 1" using assms by (simp_all add: field_simps)
  have p: "(0 :: rat) < of_nat P" using assms by simp
  have up: "P < 2 * ?r \<longleftrightarrow> 1 / 2 < ?f"
  proof -
    have "1 / 2 < ?f \<longleftrightarrow> of_nat P < 2 * (of_nat ?r :: rat)" using p by (simp add: field_simps)
    also have "\<dots> \<longleftrightarrow> (of_nat P :: rat) < of_nat (2 * ?r)" by simp
    finally show ?thesis by (simp only: of_nat_less_iff)
  qed
  have tie: "2 * ?r = P \<longleftrightarrow> ?f = 1 / 2"
  proof -
    have "?f = 1 / 2 \<longleftrightarrow> 2 * (of_nat ?r :: rat) = of_nat P" using p by (auto simp: field_simps)
    also have "\<dots> \<longleftrightarrow> (of_nat (2 * ?r) :: rat) = of_nat P" by simp
    finally show ?thesis by (simp only: of_nat_eq_iff)
  qed
  show "\<bar>of_nat (half_even v P) - of_nat v / of_nat P\<bar> \<le> (1 / 2 :: rat)"
    using f up tie unfolding half_even_def y by (auto split: if_splits)
  show "\<bar>of_nat (half_even v P) - of_nat v / of_nat P\<bar> = (1 / 2 :: rat) \<Longrightarrow> even (half_even v P)"
    using f up tie unfolding half_even_def y by (auto split: if_splits)
qed

lemma half_even_bounds:
  assumes "10 ^ (37 + k) \<le> v" "v < 10 ^ (38 + k)"
  shows "10 ^ 37 \<le> half_even v (10 ^ k)" "half_even v (10 ^ k) \<le> 10 ^ 38" "v div 10 ^ k < 10 ^ 38"
proof -
  have "10 ^ 37 \<le> v div 10 ^ k" using assms(1) by (simp add: less_eq_div_iff_mult_less_eq power_add)
  moreover show "v div 10 ^ k < 10 ^ 38" using assms(2) by (simp add: div_less_iff_less_mult power_add)
  ultimately show "10 ^ 37 \<le> half_even v (10 ^ k)" "half_even v (10 ^ k) \<le> 10 ^ 38"
    by (simp_all add: half_even_def)
qed

text \<open>What the guard and sticky digits decide is rounding half to even.\<close>

lemma round_step_val:
  assumes "wide_ok v" "0 < k" "drop_digits k v False 0 = (q, sticky, guard)"
  shows "wide_ok q" "wide_val q = wide_val v div 10 ^ k"
    and "\<exists>up. dec_should_increment guard sticky q negative BROUND_HALF_EVEN = Ok up \<and>
      half_even (wide_val v) (10 ^ k) = wide_val q + (if up then 1 else 0)"
proof -
  obtain n where k: "k = Suc n" using assms(2) by (cases k) auto
  note d = drop_digits_val [OF assms(1) assms(3) [unfolded k]]
  show q: "wide_ok q" "wide_val q = wide_val v div 10 ^ k" using d(1,2) k by simp_all
  have odd: "decw_mod10 q mod 2 \<noteq> 0 \<longleftrightarrow> odd (wide_val q)"
  proof -
    have "unat (decw_mod10 q mod 2) = wide_val q mod 10 mod 2" by (simp add: unat_mod decw_mod10_val [OF q(1)])
    also have "\<dots> = wide_val q mod 2" by (simp add: mod_mod_cancel)
    finally show ?thesis by (metis odd_iff_mod_2_eq_one even_iff_mod_2_eq_zero unat_eq_0)
  qed
  have g: "guard > 5 \<longleftrightarrow> 5 < unat guard" "guard = 5 \<longleftrightarrow> unat guard = 5"
    by (simp_all add: word_less_nat_alt word_unat_eq_iff)
  note gs = guard_sticky [OF d(3)]
  have "half_even (wide_val v) (10 ^ k) = wide_val q +
      (if guard > 5 \<or> guard = 5 \<and> (sticky \<or> decw_mod10 q mod 2 \<noteq> 0) then 1 else 0)"
    unfolding half_even_def k d(2) [symmetric] odd g gs d(4) by auto
  then show "\<exists>up. dec_should_increment guard sticky q negative BROUND_HALF_EVEN = Ok up \<and>
      half_even (wide_val v) (10 ^ k) = wide_val q + (if up then 1 else 0)"
    by (auto simp: dec_should_increment_def)
qed

lemma increment_small:
  "wide_ok v \<Longrightarrow> wide_val v < 10 ^ 38 \<Longrightarrow>
   \<exists>w. (if up then decw_increment v line col else Ok v) = Ok w \<and> wide_ok w \<and> wide_val w = wide_val v + (if up then 1 else 0)"
  using decw_increment_val [of v line col] by (auto simp: wide_ok_def split: if_splits)

lemma decw_mod10_zero: "wide_ok v \<Longrightarrow> decw_mod10 v = 0 \<longleftrightarrow> wide_val v mod 10 = 0"
  using decw_mod10_val [of v] by (metis unat_eq_0)

lemma round_to_precision_small:
  "wide_ok v \<Longrightarrow> wide_val v < 10 ^ 38 \<Longrightarrow> round_to_precision v negative scale mode line col = Ok (v, scale)"
  using decw_digits_le [of v 38] by (simp add: round_to_precision_def)

lemma round_to_precision_big:
  assumes v: "wide_ok v" and k: "0 < k" "10 ^ (37 + k) \<le> wide_val v" "wide_val v < 10 ^ (38 + k)"
  defines "c \<equiv> half_even (wide_val v) (10 ^ k)"
  shows "if scale < int k \<or> scale = int k \<and> c = 10 ^ 38
    then round_to_precision v negative scale BROUND_HALF_EVEN line col = dec_overflow line col
    else \<exists>w. wide_ok w \<and> round_to_precision v negative scale BROUND_HALF_EVEN line col =
        Ok (w, scale - int k - (if c = 10 ^ 38 then 1 else 0)) \<and> wide_val w = (if c = 10 ^ 38 then 10 ^ 37 else c)"
proof -
  obtain n where n: "decw_digits v = int n" "has_digits n (wide_val v)" using decw_digits_val [OF v] by blast
  have "38 + k - 1 = 37 + k" "0 < 38 + k" by simp_all
  then have "has_digits (38 + k) (wide_val v)" using k unfolding has_digits_def by metis
  from has_digits_unique [OF n(2) this] n(1) have digits: "decw_digits v = 38 + int k" by simp
  obtain q sticky guard where d: "drop_digits k v False 0 = (q, sticky, guard)" by (cases "drop_digits k v False 0") auto
  note q = round_step_val [OF v k(1) d]
  from q(3) [of negative] obtain up where up: "dec_should_increment guard sticky q negative BROUND_HALF_EVEN = Ok up"
    and c: "c = wide_val q + (if up then 1 else 0)" by (auto simp: c_def)
  note b = half_even_bounds [OF k(2,3), folded c_def q(2)]
  from increment_small [OF q(1) b(3), of up line col] obtain w where
    w: "(if up then decw_increment q line col else Ok q) = Ok w" "wide_ok w" "wide_val w = c" using c by auto
  have unfold: "round_to_precision v negative scale BROUND_HALF_EVEN line col =
      (if scale < int k then dec_overflow line col
       else if decw_digits w > 38 then
         if scale - int k = 0 \<or> decw_mod10 w \<noteq> 0 then dec_overflow line col
         else Ok (fst (decw_div10 w), scale - int k - 1)
       else Ok (w, scale - int k))"
    using k(1) up w(1) by (simp add: round_to_precision_def digits d Let_def)
  have big: "decw_digits w > 38 \<longleftrightarrow> c = 10 ^ 38"
    using decw_digits_le [OF w(2), of 38] w(3) b(2) by (auto simp: not_le)
  have ten: "decw_mod10 w = 0" if "c = 10 ^ 38"
    using that w by (simp add: decw_mod10_zero)
  obtain h r where h: "decw_div10 w = (h, r)" by fastforce
  note h' = decw_div10_val [OF w(2) h]
  show ?thesis unfolding unfold big using ten w h h' by auto
qed

lemma strip_scale_val:
  assumes "wide_ok v" "0 \<le> scale" "strip_scale v scale = (w, s)"
  shows "wide_ok w \<and> 0 \<le> s \<and> (\<exists>j. wide_val v = wide_val w * 10 ^ j \<and> scale = s + int j) \<and>
    (scale \<le> BDEC_MAX_SCALE \<longrightarrow> w = v \<and> s = scale)"
  using assms
proof (induction v scale rule: strip_scale.induct)
  case (1 v scale)
  obtain q r where d: "decw_div10 v = (q, r)" by fastforce
  note q = decw_div10_val [OF "1.prems"(1) d]
  show ?case
  proof (cases "scale > BDEC_MAX_SCALE \<and> decw_mod10 v = 0")
    case True
    then have run: "strip_scale q (scale - 1) = (w, s)" using "1.prems"(3) d by (simp add: strip_scale.simps [of v])
    from "1.IH" [OF True] d q(1) run True obtain j where j: "wide_ok w" "0 \<le> s" "wide_val q = wide_val w * 10 ^ j" "scale - 1 = s + int j"
      by auto
    from True have "wide_val v mod 10 = 0" using decw_mod10_zero [OF "1.prems"(1)] by simp
    then have "wide_val v = 10 * wide_val q" using q(2) by (metis add.right_neutral mult_div_mod_eq)
    with j True show ?thesis by (auto intro!: exI [of _ "Suc j"])
  next
    case False
    with "1.prems" show ?thesis by (auto simp: strip_scale.simps [of v] intro!: exI [of _ 0])
  qed
qed

text \<open>The intended results of an operation with exact value \<open>x\<close>: the nearest decimal, or the overflow
  panic when the value is too large or the operation is excused.\<close>

definition dec_outcome :: "bool \<Rightarrow> rat \<Rightarrow> int \<Rightarrow> int \<Rightarrow> bdec rt \<Rightarrow> bool" where
  "dec_outcome excused x line col res \<longleftrightarrow>
     (case res of
        Ok r \<Rightarrow> rounds_to x r
      | Panic m l c \<Rightarrow> m = asc ''decimal overflow'' \<and> l = line \<and> c = col \<and> (10 ^ 38 - 1 / 2 \<le> \<bar>x\<bar> \<or> excused)
      | Fault \<Rightarrow> False)"

definition with_sign :: "bool \<Rightarrow> rat \<Rightarrow> rat" where
  "with_sign negative y = (if negative then - y else y)"

lemma with_sign_simps [simp]: "\<bar>with_sign n y\<bar> = \<bar>y\<bar>" "with_sign n y / z = with_sign n (y / z)" "with_sign n y * z = with_sign n (y * z)" "with_sign n 0 = 0"
  by (simp_all add: with_sign_def)

lemma dec_outcome_overflow:
  "10 ^ 38 - 1 / 2 \<le> \<bar>x\<bar> \<or> excused \<Longrightarrow> dec_outcome excused x line col (dec_overflow line col)"
  by (simp add: dec_outcome_def dec_overflow_def)

lemma dec_set_small:
  assumes "bu_val m < 10 ^ 38"
  shows "dec_int (dec_set m n s) = (if n then - int (bu_val m) else int (bu_val m))"
    and "of_int (dec_int (dec_set m n s)) = with_sign n (of_nat (bu_val m))"
    and "dec_ok (dec_set m n s) \<longleftrightarrow> 0 \<le> s \<and> s \<le> BDEC_MAX_SCALE"
proof -
  from assms have b: "bu_val m < 2 ^ 127" using pow38_less by linarith
  show "dec_int (dec_set m n s) = (if n then - int (bu_val m) else int (bu_val m))" by (rule dec_set_val(3) [OF b])
  then show "of_int (dec_int (dec_set m n s)) = with_sign n (of_nat (bu_val m))" by (simp add: with_sign_def)
  show "dec_ok (dec_set m n s) \<longleftrightarrow> 0 \<le> s \<and> s \<le> BDEC_MAX_SCALE" using dec_ok_set [OF b] assms by blast
qed

lemma rounds_to_dec_set:
  fixes Y :: rat
  assumes m: "bu_val m < 10 ^ 38" and s: "0 \<le> s" "s \<le> BDEC_MAX_SCALE" and Y: "0 \<le> Y"
    and half: "\<bar>of_nat (bu_val m) - Y\<bar> \<le> 1 / 2" "\<bar>of_nat (bu_val m) - Y\<bar> = 1 / 2 \<Longrightarrow> even (bu_val m)"
    and full: "s = BDEC_MAX_SCALE \<or> (\<bar>of_nat (bu_val m) - Y\<bar> \<le> Y - 10 ^ 37 + 1 / 10 \<and>
       (\<bar>of_nat (bu_val m) - Y\<bar> = Y - 10 ^ 37 + 1 / 10 \<longrightarrow> even (bu_val m)))"
  shows "rounds_to (with_sign n (Y / 10 ^ nat s)) (dec_set m n s)"
proof (rule rounds_toI [OF _ refl])
  show "dec_ok (dec_set m n s)" using dec_set_small(3) [OF m] s by blast
  have e: "\<bar>of_int (dec_int (dec_set m n s)) - with_sign n (Y / 10 ^ nat s) * 10 ^ nat (d_s (dec_set m n s))\<bar>
      = \<bar>of_nat (bu_val m) - Y\<bar>"
    unfolding dec_set_small(2) [OF m] dec_set_scale by (simp add: with_sign_def abs_minus_commute)
  have ev: "even (dec_int (dec_set m n s)) \<longleftrightarrow> even (bu_val m)" using dec_set_small(1) [OF m] by simp
  have y: "\<bar>with_sign n (Y / 10 ^ nat s) * 10 ^ nat (d_s (dec_set m n s))\<bar> = Y" using Y by (simp add: dec_set_scale)
  from half show "\<bar>of_int (dec_int (dec_set m n s)) - with_sign n (Y / 10 ^ nat s) * 10 ^ nat (d_s (dec_set m n s))\<bar> \<le> 1 / 2"
    "\<bar>of_int (dec_int (dec_set m n s)) - with_sign n (Y / 10 ^ nat s) * 10 ^ nat (d_s (dec_set m n s))\<bar> = 1 / 2 \<Longrightarrow>
      even (dec_int (dec_set m n s))" unfolding e ev by blast+
  from full show "d_s (dec_set m n s) = BDEC_MAX_SCALE \<or>
    (\<bar>of_int (dec_int (dec_set m n s)) - with_sign n (Y / 10 ^ nat s) * 10 ^ nat (d_s (dec_set m n s))\<bar>
      \<le> \<bar>with_sign n (Y / 10 ^ nat s) * 10 ^ nat (d_s (dec_set m n s))\<bar> - 10 ^ 37 + 1 / 10 \<and>
     (\<bar>of_int (dec_int (dec_set m n s)) - with_sign n (Y / 10 ^ nat s) * 10 ^ nat (d_s (dec_set m n s))\<bar>
      = \<bar>with_sign n (Y / 10 ^ nat s) * 10 ^ nat (d_s (dec_set m n s))\<bar> - 10 ^ 37 + 1 / 10 \<longrightarrow>
      even (dec_int (dec_set m n s))))" unfolding e ev y by (simp only: dec_set_scale)
qed

text \<open>A coefficient obtained by rounding half to even, directly and after the carry to 39 digits.\<close>

lemma rounds_to_half_even:
  assumes k: "10 ^ (37 + k) \<le> V" and m: "bu_val m = half_even V (10 ^ k)" "bu_val m < 10 ^ 38"
    and s: "0 \<le> s" "s \<le> BDEC_MAX_SCALE"
  shows "rounds_to (with_sign n (of_nat V / 10 ^ k / 10 ^ nat s)) (dec_set m n s)"
proof (rule rounds_to_dec_set [OF m(2) s])
  let ?Y = "of_nat V / 10 ^ k :: rat"
  note e = half_even_error [of "10 ^ k" V, folded m(1)]
  show "0 \<le> ?Y" by simp
  show half: "\<bar>of_nat (bu_val m) - ?Y\<bar> \<le> 1 / 2" "\<bar>of_nat (bu_val m) - ?Y\<bar> = 1 / 2 \<Longrightarrow> even (bu_val m)"
    using e by simp_all
  have "of_nat (10 ^ (37 + k)) \<le> (of_nat V :: rat)" using k by (simp only: of_nat_le_iff)
  then have Y: "10 ^ 37 \<le> ?Y" by (simp add: power_add field_simps)
  have "\<bar>of_nat (bu_val m) - ?Y\<bar> \<le> \<bar>10 ^ 37 - ?Y\<bar>"
    using nearest_int(1) [of "int (bu_val m)" ?Y "10 ^ 37"] half(1) by simp
  with Y have "\<bar>of_nat (bu_val m) - ?Y\<bar> < ?Y - 10 ^ 37 + 1 / 10" by linarith
  then show "s = BDEC_MAX_SCALE \<or> (\<bar>of_nat (bu_val m) - ?Y\<bar> \<le> ?Y - 10 ^ 37 + 1 / 10 \<and>
       (\<bar>of_nat (bu_val m) - ?Y\<bar> = ?Y - 10 ^ 37 + 1 / 10 \<longrightarrow> even (bu_val m)))" by simp
qed

lemma carry_tenth: "\<bar>10 ^ 38 - W\<bar> \<le> 1 / 2 \<Longrightarrow> \<bar>10 ^ 37 - W / 10\<bar> \<le> (1 / 20 :: rat)"
  by (simp add: abs_if field_simps split: if_splits)

lemma rounds_to_carry:
  assumes c: "half_even V (10 ^ k) = 10 ^ 38" and m: "bu_val m = 10 ^ 37"
    and s: "0 \<le> s" "s \<le> BDEC_MAX_SCALE"
  shows "rounds_to (with_sign n (of_nat V / 10 ^ k / 10 / 10 ^ nat s)) (dec_set m n s)"
proof (rule rounds_to_dec_set [OF _ s])
  let ?Y = "of_nat V / 10 ^ k / 10 :: rat"
  show "bu_val m < 10 ^ 38" "0 \<le> ?Y" by (simp_all add: m)
  have "\<bar>10 ^ 38 - of_nat V / 10 ^ k\<bar> \<le> (1 / 2 :: rat)" using half_even_error(1) [of "10 ^ k" V] c by simp
  then have near: "\<bar>10 ^ 37 - ?Y\<bar> \<le> 1 / 20" by (rule carry_tenth)
  then show "\<bar>of_nat (bu_val m) - ?Y\<bar> \<le> 1 / 2" by (simp add: m)
  show "even (bu_val m)" by (simp add: m)
  show "s = BDEC_MAX_SCALE \<or> (\<bar>of_nat (bu_val m) - ?Y\<bar> \<le> ?Y - 10 ^ 37 + 1 / 10 \<and>
       (\<bar>of_nat (bu_val m) - ?Y\<bar> = ?Y - 10 ^ 37 + 1 / 10 \<longrightarrow> even (bu_val m)))"
    using near by (auto simp: m)
qed

lemma dec_outcome_Ok: "rounds_to x r \<Longrightarrow> dec_outcome excused x line col (Ok r)"
  by (simp add: dec_outcome_def)

lemma finish_store:
  assumes "wide_ok w" "wide_val w < 10 ^ 38"
  shows "\<exists>m. bu_val m = wide_val w \<and> rt_bind (decw_to128 w line col) (\<lambda>coefficient.
      if bu_cmp coefficient dec_coeff_limit > 0 then dec_overflow line col
      else Ok (dec_set coefficient n s)) = Ok (dec_set m n s)"
proof -
  have "wide_val w < 2 ^ 128" using assms(2) by simp
  then obtain m where m: "decw_to128 w line col = Ok m" "bu_val m = wide_val w"
    using decw_to128_val [OF assms(1), of line col] by auto
  have "\<not> bu_cmp m dec_coeff_limit > 0" using assms(2) m(2) by (simp add: bu_cmp_val dec_coeff_limit_val)
  with m show ?thesis by auto
qed

lemma dec_finish_unfold:
  assumes "0 \<le> scale" "wide_val v \<noteq> 0"
  shows "dec_finish v n scale mode line col =
    (let (v2, scale2) = strip_scale v scale in
     if scale2 > BDEC_MAX_SCALE then dec_overflow line col
     else rt_bind (round_to_precision v2 n scale2 mode line col) (\<lambda>(v3, scale3).
       rt_bind (decw_to128 v3 line col) (\<lambda>coefficient.
         if bu_cmp coefficient dec_coeff_limit > 0 then dec_overflow line col
         else Ok (dec_set coefficient n scale3))))"
  using assms by (simp add: dec_finish_def decw_zero_val)

lemma dec_set_zero_sign: "dec_set bu_0 n s = dec_set bu_0 False s"
  by (simp add: dec_set_def bu_zero_def)

lemma dec_finish_exact:
  assumes "wide_ok v" "wide_val v < 10 ^ 38" "0 \<le> scale" "scale \<le> BDEC_MAX_SCALE"
  shows "\<exists>m. dec_finish v n scale mode line col = Ok (dec_set m n scale) \<and> bu_val m = wide_val v"
proof (cases "wide_val v = 0")
  case True
  with assms show ?thesis
    by (auto simp: dec_finish_def decw_zero_val dec_set_zero_sign [of n] intro!: exI [of _ bu_0])
next
  case False
  have "strip_scale v scale = (v, scale)" using assms(4) by (simp add: strip_scale.simps)
  with assms False round_to_precision_small [OF assms(1,2)] finish_store [OF assms(1,2), of line col n scale]
  show ?thesis by (auto simp: dec_finish_unfold)
qed

lemma has_some_digits: "\<exists>n. has_digits n v"
proof (induction v rule: less_induct)
  case (less v)
  show ?case
  proof (cases "v < 10")
    case True
    then show ?thesis by (auto simp: has_digits_def intro: exI [of _ 1])
  next
    case False
    with less.IH [of "v div 10"] has_digits_Suc [of v] show ?thesis by auto
  qed
qed

lemma digits_over_38:
  assumes "10 ^ 38 \<le> (v :: nat)"
  shows "\<exists>k. 0 < k \<and> 10 ^ (37 + k) \<le> v \<and> v < 10 ^ (38 + k)"
proof -
  obtain n where n: "has_digits n v" using has_some_digits by blast
  have "38 < n"
  proof (rule ccontr)
    assume "\<not> 38 < n"
    then have "(10 :: nat) ^ n \<le> 10 ^ 38" by (intro power_increasing) auto
    moreover have "v < 10 ^ n" using n by (simp add: has_digits_def)
    ultimately show False using assms by linarith
  qed
  then obtain k where k: "n = 38 + k" "0 < k" by (metis less_imp_add_positive)
  from n \<open>38 < n\<close> have "10 ^ (n - 1) \<le> v" "v < 10 ^ n" by (auto simp: has_digits_def)
  moreover have "n - 1 = 37 + k" using k(1) by simp
  ultimately show ?thesis using k by metis
qed

lemma round_big_outcome:
  assumes v: "wide_ok v" "10 ^ 38 \<le> wide_val v" and s: "0 \<le> scale" "scale \<le> BDEC_MAX_SCALE"
  shows "dec_outcome False (with_sign n (of_nat (wide_val v) / 10 ^ nat scale)) line col
    (rt_bind (round_to_precision v n scale BROUND_HALF_EVEN line col) (\<lambda>(v3, scale3).
       rt_bind (decw_to128 v3 line col) (\<lambda>coefficient.
         if bu_cmp coefficient dec_coeff_limit > 0 then dec_overflow line col
         else Ok (dec_set coefficient n scale3))))"
proof -
  let ?V = "of_nat (wide_val v) :: rat"
  obtain k where k: "0 < k" "10 ^ (37 + k) \<le> wide_val v" "wide_val v < 10 ^ (38 + k)"
    using digits_over_38 [OF v(2)] by blast
  let ?c = "half_even (wide_val v) (10 ^ k)"
  note big = round_to_precision_big [OF v(1) k, of scale n line col]
  have c: "?c \<le> 10 ^ 38" using half_even_bounds(2) [OF k(2,3)] .
  show ?thesis
  proof (cases "scale < int k \<or> scale = int k \<and> ?c = 10 ^ 38")
    case True
    have "10 ^ 38 - 1 / 2 \<le> ?V / 10 ^ nat scale"
    proof (cases "scale < int k")
      case True
      have "of_nat (10 ^ 38 * 10 ^ nat scale) \<le> ?V"
      proof -
        have "38 + nat scale \<le> 37 + k" using True s by simp
        then have "(10 :: nat) ^ (38 + nat scale) \<le> 10 ^ (37 + k)" by (intro power_increasing) auto
        then have "10 ^ 38 * 10 ^ nat scale \<le> wide_val v" using k(2) by (simp only: power_add)
        then show ?thesis by (simp only: of_nat_le_iff)
      qed
      then have "10 ^ 38 \<le> ?V / 10 ^ nat scale" by (simp add: field_simps)
      moreover have "10 ^ 38 - 1 / 2 \<le> (10 ^ 38 :: rat)" by simp
      ultimately show ?thesis by (rule order_trans [rotated])
    next
      case False
      with True have e: "nat scale = k" "?c = 10 ^ 38" by auto
      from half_even_error(1) [of "10 ^ k" "wide_val v"] zero_less_power [of "10 :: nat" k] have "of_nat ?c - 1 / 2 \<le> ?V / of_nat (10 ^ k)"
        unfolding abs_le_iff by linarith
      then show ?thesis unfolding e of_nat_power of_nat_numeral .
    qed
    with True big show ?thesis
      by (simp add: dec_outcome_overflow dec_overflow_def [symmetric]) (simp add: dec_outcome_def dec_overflow_def)
  next
    case False
    with big obtain w where w: "wide_ok w" "wide_val w = (if ?c = 10 ^ 38 then 10 ^ 37 else ?c)"
      and run: "round_to_precision v n scale BROUND_HALF_EVEN line col = Ok (w, scale - int k - (if ?c = 10 ^ 38 then 1 else 0))"
      by auto
    have "wide_val w < 10 ^ 38" using w(2) c by auto
    from finish_store [OF w(1) this] obtain m where m: "bu_val m = wide_val w"
      and store: "rt_bind (decw_to128 w line col) (\<lambda>coefficient.
        if bu_cmp coefficient dec_coeff_limit > 0 then dec_overflow line col
        else Ok (dec_set coefficient n (scale - int k - (if ?c = 10 ^ 38 then 1 else 0)))) =
        Ok (dec_set m n (scale - int k - (if ?c = 10 ^ 38 then 1 else 0)))" by blast
    have "rounds_to (with_sign n (?V / 10 ^ nat scale)) (dec_set m n (scale - int k - (if ?c = 10 ^ 38 then 1 else 0)))"
    proof (cases "?c = 10 ^ 38")
      case True
      define t where "t = scale - int k - 1"
      have t: "0 \<le> t" "t \<le> BDEC_MAX_SCALE" "nat scale = k + 1 + nat t" using False True s by (auto simp: t_def)
      have "?V / 10 ^ nat scale = ?V / 10 ^ k / 10 / 10 ^ nat t" unfolding t(3) by (simp add: power_add)
      moreover have "rounds_to (with_sign n (?V / 10 ^ k / 10 / 10 ^ nat t)) (dec_set m n t)"
        using m w(2) True by (intro rounds_to_carry [OF True _ t(1,2)]) simp
      ultimately show ?thesis using True by (simp only: t_def if_True refl)
    next
      case c: False
      define t where "t = scale - int k"
      have t: "0 \<le> t" "t \<le> BDEC_MAX_SCALE" "nat scale = k + nat t" using False s by (auto simp: t_def)
      have "?V / 10 ^ nat scale = ?V / 10 ^ k / 10 ^ nat t" unfolding t(3) by (simp add: power_add)
      moreover have "rounds_to (with_sign n (?V / 10 ^ k / 10 ^ nat t)) (dec_set m n t)"
        using m w(2) c \<open>wide_val w < 10 ^ 38\<close> by (intro rounds_to_half_even [OF k(2) _ _ t(1,2)]) simp_all
      ultimately show ?thesis using c by (simp only: t_def if_False diff_zero)
    qed
    then show ?thesis unfolding run rt_bind.simps prod.case store by (rule dec_outcome_Ok)
  qed
qed

lemma dec_finish_outcome:
  assumes v: "wide_ok v" and s: "0 \<le> scale"
  shows "dec_outcome (BDEC_MAX_SCALE < scale) (with_sign n (of_nat (wide_val v) / 10 ^ nat scale)) line col
    (dec_finish v n scale BROUND_HALF_EVEN line col)"
proof (cases "wide_val v = 0")
  case True
  show ?thesis
  proof (cases "BDEC_MAX_SCALE < scale")
    case True
    with \<open>wide_val v = 0\<close> s have "dec_finish v n scale BROUND_HALF_EVEN line col = dec_overflow line col"
      by (simp add: dec_finish_def decw_zero_val)
    with True show ?thesis by (simp add: dec_outcome_overflow)
  next
    case False
    from dec_finish_exact [OF v _ s, of n BROUND_HALF_EVEN line col] False True obtain m where
      m: "dec_finish v n scale BROUND_HALF_EVEN line col = Ok (dec_set m n scale)" "bu_val m = 0" by auto
    have "rounds_to 0 (dec_set m n scale)"
      using m(2) s False dec_set_small [of m n scale] by (intro rounds_to_exact) (simp_all add: dec_val_def)
    with m True show ?thesis by (simp add: dec_outcome_def)
  qed
next
  case False
  obtain w t where strip: "strip_scale v scale = (w, t)" by fastforce
  from strip_scale_val [OF v s strip] obtain j where w: "wide_ok w" "0 \<le> t"
    and j: "wide_val v = wide_val w * 10 ^ j" "scale = t + int j" and same: "scale \<le> BDEC_MAX_SCALE \<Longrightarrow> t = scale" by blast
  have x: "(of_nat (wide_val v) :: rat) / 10 ^ nat scale = of_nat (wide_val w) / 10 ^ nat t"
    using j w(2) by (simp add: nat_add_distrib power_add)
  let ?tail = "rt_bind (round_to_precision w n t BROUND_HALF_EVEN line col) (\<lambda>(v3, scale3).
       rt_bind (decw_to128 v3 line col) (\<lambda>coefficient.
         if bu_cmp coefficient dec_coeff_limit > 0 then dec_overflow line col
         else Ok (dec_set coefficient n scale3)))"
  have unfold: "dec_finish v n scale BROUND_HALF_EVEN line col =
      (if t > BDEC_MAX_SCALE then dec_overflow line col else ?tail)"
    using dec_finish_unfold [OF s False] strip by simp
  have weaken: "dec_outcome False y line col r \<Longrightarrow> dec_outcome e y line col r" for e y r
    by (auto simp: dec_outcome_def split: rt.splits)
  consider "t > BDEC_MAX_SCALE" | "t \<le> BDEC_MAX_SCALE" "10 ^ 38 \<le> wide_val w" | "t \<le> BDEC_MAX_SCALE" "wide_val w < 10 ^ 38"
    by linarith
  then show ?thesis
  proof cases
    case 1
    with same have "BDEC_MAX_SCALE < scale" by linarith
    with 1 show ?thesis unfolding unfold by (simp add: dec_outcome_overflow)
  next
    case 2
    from weaken [OF round_big_outcome [OF w(1) 2(2) w(2) 2(1)]] 2(1) show ?thesis unfolding unfold x by simp
  next
    case 3
    from finish_store [OF w(1) 3(2), of line col n t] obtain m where m: "bu_val m = wide_val w" "?tail = Ok (dec_set m n t)"
      using round_to_precision_small [OF w(1) 3(2)] by auto
    have "rounds_to (with_sign n (of_nat (wide_val w) / 10 ^ nat t)) (dec_set m n t)"
      using m(1) w(2) 3 dec_set_small [of m n t] by (intro rounds_to_exact) (simp_all add: dec_val_def)
    with m 3(1) show ?thesis unfolding unfold x by (simp add: dec_outcome_def)
  qed
qed

end
