(* ===== verification/Rt_Decimal_Sums.thy ===== *)
theory Rt_Decimal_Sums
  imports Rt_Decimal_Spec
begin

unbundle bit_operations_syntax

text \<open>
  Addition and multiplication of decimals give the nearest decimal to the exact result; comparison
  and hash are those of the value, which makes decimals lawful keys.
\<close>

section \<open>Addition and multiplication\<close>

lemma dec_val_sign: "dec_val v = with_sign (dec_negative v) (of_nat (bu_val (dec_mag v)) / 10 ^ nat (d_s v))"
  by (simp add: dec_val_def dec_int_def with_sign_def)

lemma decv_mul_outcome:
  assumes "dec_ok a" "dec_ok b"
  shows "dec_outcome (BDEC_MAX_SCALE < d_s a + d_s b) (dec_val a * dec_val b) line col (beans_decv_mul a b line col)"
    and "\<bar>dec_int a * dec_int b\<bar> < 10 ^ 38 \<Longrightarrow> d_s a + d_s b \<le> BDEC_MAX_SCALE \<Longrightarrow>
      \<exists>r. beans_decv_mul a b line col = Ok r \<and> dec_int r = dec_int a * dec_int b \<and> d_s r = d_s a + d_s b"
proof -
  obtain w where w: "decw_multiply (dec_mag a) (dec_mag b) line col = Ok w" "wide_ok w"
      "wide_val w = bu_val (dec_mag a) * bu_val (dec_mag b)" using decw_multiply_val by blast
  from assms have s: "0 \<le> d_s a + d_s b" by (simp add: dec_ok_def)
  have x: "dec_val a * dec_val b = with_sign (dec_negative a \<noteq> dec_negative b) (of_nat (wide_val w) / 10 ^ nat (d_s a + d_s b))"
    using assms unfolding dec_val_sign w(3) by (simp add: with_sign_def dec_ok_def nat_add_distrib power_add)
  show "dec_outcome (BDEC_MAX_SCALE < d_s a + d_s b) (dec_val a * dec_val b) line col (beans_decv_mul a b line col)"
    unfolding beans_decv_mul_def w(1) rt_bind.simps x by (rule dec_finish_outcome [OF w(2) s])
  assume small: "\<bar>dec_int a * dec_int b\<bar> < 10 ^ 38" "d_s a + d_s b \<le> BDEC_MAX_SCALE"
  have "int (wide_val w) = \<bar>dec_int a * dec_int b\<bar>" by (simp add: w(3) abs_mult abs_dec_int)
  with small(1) have "int (wide_val w) < int (10 ^ 38)" by simp
  then have "wide_val w < 10 ^ 38" by (simp only: of_nat_less_iff)
  from dec_finish_exact [OF w(2) this s small(2)] obtain m where
    m: "dec_finish w (dec_negative a \<noteq> dec_negative b) (d_s a + d_s b) BROUND_HALF_EVEN line col =
      Ok (dec_set m (dec_negative a \<noteq> dec_negative b) (d_s a + d_s b))" "bu_val m = wide_val w" by blast
  have "dec_int (dec_set m (dec_negative a \<noteq> dec_negative b) (d_s a + d_s b)) = dec_int a * dec_int b"
    using dec_set_small(1) [of m] m(2) \<open>wide_val w < 10 ^ 38\<close> by (simp add: w(3) dec_int_def)
  with m(1) show "\<exists>r. beans_decv_mul a b line col = Ok r \<and> dec_int r = dec_int a * dec_int b \<and> d_s r = d_s a + d_s b"
    by (simp add: beans_decv_mul_def w(1))
qed

lemma as_int_small: "0 \<le> x \<Longrightarrow> x \<le> BDEC_MAX_SCALE \<Longrightarrow> as_int x = x"
  by (simp add: as_int_def sint_sbintrunc' signed_take_bit_int_eq_self)

lemma dec_exponent_val:
  assumes "dec_ok v"
  shows "\<exists>n. dec_exponent v = int n - 1 - d_s v \<and> has_digits n (bu_val (dec_mag v)) \<and> n \<le> 38"
proof -
  obtain n where n: "dec_digits128 (dec_mag v) = int n" "has_digits n (bu_val (dec_mag v))"
    using dec_digits128_val by blast
  have "n \<le> 38"
  proof (rule ccontr)
    assume "\<not> n \<le> 38"
    then have "10 ^ 38 \<le> (10 :: nat) ^ (n - 1)" by (intro power_increasing) auto
    moreover have "10 ^ (n - 1) \<le> bu_val (dec_mag v)" using n(2) \<open>\<not> n \<le> 38\<close> by (auto simp: has_digits_def)
    ultimately show False using assms by (simp add: dec_ok_def)
  qed
  with n assms show ?thesis by (auto simp: dec_exponent_def as_int_small dec_ok_def)
qed

lemma align_val:
  assumes "dec_ok v" "0 \<le> e" "e \<le> 76"
  shows "\<exists>w. decw_mul_pow10 (decw_from128 (dec_mag v)) e line col = Ok w \<and> wide_ok w \<and>
    wide_val w = 10 ^ nat e * bu_val (dec_mag v)"
proof -
  have "10 ^ nat e * bu_val (dec_mag v) \<le> 10 ^ 76 * 10 ^ 38"
    using assms by (intro mult_le_mono power_increasing) (auto simp: dec_ok_def)
  also have "\<dots> < (2 :: nat) ^ 512" by simp
  finally show ?thesis
    using decw_mul_pow10_val [OF decw_from128_val(2), of e "dec_mag v" line col] assms by (simp add: decw_from128_val(1))
qed

text \<open>The operand of larger exponent swallows the other: widened to 38 digits it is the sum, rounded.\<close>

lemma has_digits_times: "has_digits n v \<Longrightarrow> 0 < v \<Longrightarrow> has_digits (n + t) (v * 10 ^ t)"
  by (cases n) (auto simp: has_digits_def power_add)

lemma dec_widen_full:
  assumes ok: "dec_ok a" and n: "has_digits n (bu_val (dec_mag a))" "n \<le> 38" "0 < bu_val (dec_mag a)"
    and s: "d_s a + (38 - int n) < scale" "scale \<le> BDEC_MAX_SCALE"
  shows "\<exists>r. dec_widen a scale line col = Ok r \<and> dec_ok r \<and> dec_int r = dec_int a * 10 ^ (38 - n) \<and>
    d_s r = d_s a + int (38 - n) \<and> 10 ^ 37 \<le> \<bar>dec_int r\<bar>"
proof -
  obtain d where d: "dec_digits128 (dec_mag a) = int d" "has_digits d (bu_val (dec_mag a))"
    using dec_digits128_val by blast
  with has_digits_unique [OF n(1)] have d: "dec_digits128 (dec_mag a) = int n" by simp
  let ?M = "bu_val (dec_mag a) * 10 ^ (38 - n)"
  have "has_digits 38 ?M" using has_digits_times [OF n(1,3), of "38 - n"] n(2) by simp
  then have M: "?M < 10 ^ 38" "10 ^ 37 \<le> ?M" by (auto simp: has_digits_def)
  show ?thesis
  proof (cases "n = 38")
    case True
    with d s n(3) have "dec_widen a scale line col = Ok a" by (simp add: dec_widen_def dec_zero_val)
    moreover have "(10 :: int) ^ 37 \<le> \<bar>dec_int a\<bar>" using M(2) True by (simp add: abs_dec_int)
    ultimately show ?thesis using True ok by auto
  next
    case False
    define e where "e = 38 - int n"
    have e: "0 < e" "e \<le> 37" "nat e = 38 - n" "e = int (38 - n)" "min (scale - d_s a) e = e"
      using False n(1,2) s by (auto simp: e_def has_digits_def)
    obtain w where w: "decw_mul_pow10 (decw_from128 (dec_mag a)) e line col = Ok w" "wide_ok w" "wide_val w = ?M"
      using align_val [OF ok, of e line col] e by (auto simp: mult.commute)
    have sc: "0 \<le> d_s a + e" "d_s a + e \<le> BDEC_MAX_SCALE" using ok e s by (auto simp: dec_ok_def e_def)
    from dec_finish_exact [OF w(2) _ sc] M w(3) obtain m where
      m: "dec_finish w (dec_negative a) (d_s a + e) BROUND_HALF_EVEN line col = Ok (dec_set m (dec_negative a) (d_s a + e))"
        "bu_val m = ?M" by metis
    have "\<not> scale \<le> d_s a" "\<not> dec_zero a" using s e n(3) by (auto simp: e_def dec_zero_val)
    then have run: "dec_widen a scale line col = Ok (dec_set m (dec_negative a) (d_s a + e))"
      using e(1,5) w(1) m(1) by (simp add: dec_widen_def d e_def [symmetric] Let_def)
    have "bu_val m < 10 ^ 38" using M m(2) by simp
    note r = dec_set_small [OF this, of "dec_negative a" "d_s a + e"]
    have "\<bar>dec_int (dec_set m (dec_negative a) (d_s a + e))\<bar> = int ?M" using r(1) m(2) by simp
    moreover have "int (10 ^ 37) \<le> int ?M" using M(2) by (simp only: of_nat_le_iff)
    ultimately have "10 ^ 37 \<le> \<bar>dec_int (dec_set m (dec_negative a) (d_s a + e))\<bar>" by simp
    moreover have "dec_int (dec_set m (dec_negative a) (d_s a + e)) = dec_int a * 10 ^ (38 - n)"
      using r(1) m(2) by (simp add: dec_int_def)
    ultimately show ?thesis using run r(3) sc e(4) by simp
  qed
qed

lemma far_sum:
  assumes a: "dec_ok a" and b: "dec_ok b"
    and na: "has_digits n (bu_val (dec_mag a))" "n \<le> 38" "0 < bu_val (dec_mag a)" and nb: "has_digits m (bu_val (dec_mag b))"
    and far: "int n - 1 - d_s a - (int m - 1 - d_s b) > BDEC_PRECISION + 1"
  shows "\<exists>r. dec_widen a (max (d_s a) (d_s b)) line col = Ok r \<and> rounds_to (dec_val a + dec_val b) r"
proof -
  have m: "1 \<le> m" using nb by (simp add: has_digits_def)
  have gap: "d_s a + (38 - int n) + int m + 2 \<le> d_s b" using far na(2) m by linarith
  then have scale: "max (d_s a) (d_s b) = d_s b" "d_s a + (38 - int n) < d_s b" using na(2) by auto
  have "d_s b \<le> BDEC_MAX_SCALE" using b by (simp add: dec_ok_def)
  from dec_widen_full [OF a na scale(2) this] obtain r where r: "dec_widen a (d_s b) line col = Ok r" "dec_ok r"
    "dec_int r = dec_int a * 10 ^ (38 - n)" "d_s r = d_s a + int (38 - n)" "10 ^ 37 \<le> \<bar>dec_int r\<bar>" by blast
  define \<delta> where "\<delta> = dec_val b * 10 ^ nat (d_s r)"
  have sa: "nat (d_s r) = nat (d_s a) + (38 - n)" using a r(4) by (simp add: dec_ok_def nat_add_distrib)
  have y: "(dec_val a + dec_val b) * 10 ^ nat (d_s r) = of_int (dec_int r) + \<delta>"
    unfolding \<delta>_def distrib_right by (simp add: dec_val_def [of a] sa r(3) power_add)
  have small: "\<bar>\<delta>\<bar> \<le> 1 / 100"
  proof -
    have "nat (d_s r) + m + 2 \<le> nat (d_s b)" using gap na(2) r(2,4) by (auto simp: dec_ok_def)
    then obtain j where j: "nat (d_s b) = nat (d_s r) + m + 2 + j" by (metis le_Suc_ex)
    have "bu_val (dec_mag b) < 10 ^ m" using nb by (simp add: has_digits_def)
    then have "(of_nat (bu_val (dec_mag b)) :: rat) \<le> of_nat (10 ^ m)" by (simp only: of_nat_le_iff less_imp_le)
    then have le: "of_nat (bu_val (dec_mag b)) / 10 ^ m \<le> (1 :: rat)" by simp
    have "\<bar>\<delta>\<bar> = of_nat (bu_val (dec_mag b)) / 10 ^ m / 10 ^ j / 100"
      unfolding \<delta>_def dec_val_sign by (simp add: j power_add)
    also have "\<dots> \<le> 1 / 1 / 100" using le by (intro divide_right_mono frac_le) auto
    finally show ?thesis by simp
  qed
  have big: "10 ^ 37 \<le> (of_int \<bar>dec_int r\<bar> :: rat)" using r(5) by (metis of_int_le_iff of_int_numeral of_int_power)
  have "rounds_to (dec_val a + dec_val b) r"
  proof (rule rounds_toI [OF r(2) y [symmetric]])
    have e: "\<bar>of_int (dec_int r) - (of_int (dec_int r) + \<delta>)\<bar> = \<bar>\<delta>\<bar>" by simp
    have far: "\<bar>\<delta>\<bar> < \<bar>of_int (dec_int r) + \<delta>\<bar> - 10 ^ 37 + 1 / 10"
      using big small by (simp add: abs_if split: if_splits)
    show "\<bar>of_int (dec_int r) - (of_int (dec_int r) + \<delta>)\<bar> \<le> 1 / 2"
      "\<bar>of_int (dec_int r) - (of_int (dec_int r) + \<delta>)\<bar> = 1 / 2 \<Longrightarrow> even (dec_int r)"
      unfolding e using small by auto
    show "d_s r = BDEC_MAX_SCALE \<or>
      (\<bar>of_int (dec_int r) - (of_int (dec_int r) + \<delta>)\<bar> \<le> \<bar>of_int (dec_int r) + \<delta>\<bar> - 10 ^ 37 + 1 / 10 \<and>
       (\<bar>of_int (dec_int r) - (of_int (dec_int r) + \<delta>)\<bar> = \<bar>of_int (dec_int r) + \<delta>\<bar> - 10 ^ 37 + 1 / 10 \<longrightarrow> even (dec_int r)))"
      unfolding e using far by simp
  qed
  with r(1) scale(1) show ?thesis by auto
qed

text \<open>Widening never changes the value.\<close>

lemma dec_widen_val:
  assumes a: "dec_ok a" and s: "scale \<le> BDEC_MAX_SCALE"
  shows "\<exists>r. dec_widen a scale line col = Ok r \<and> dec_ok r \<and> dec_val r = dec_val a"
proof -
  obtain n where n: "dec_digits128 (dec_mag a) = int n" "has_digits n (bu_val (dec_mag a))"
    using dec_digits128_val by blast
  define e where "e = min (scale - d_s a) (38 - int n)"
  consider "scale \<le> d_s a" | "d_s a < scale" "dec_zero a" | "d_s a < scale" "\<not> dec_zero a" "e \<le> 0"
    | "d_s a < scale" "\<not> dec_zero a" "0 < e" by linarith
  then show ?thesis
  proof cases
    case 1
    with a show ?thesis by (simp add: dec_widen_def)
  next
    case 2
    have "dec_widen a scale line col = Ok (dec_set bu_0 False scale)" using 2 s by (simp add: dec_widen_def)
    moreover have "dec_ok (dec_set bu_0 False scale)" using a s 2(1) dec_set_small(3) [of bu_0 False scale] by (simp add: dec_ok_def [of a])
    moreover have "dec_val (dec_set bu_0 False scale) = dec_val a" using 2(2) by (simp add: dec_val_def dec_zero_int)
    ultimately show ?thesis by blast
  next
    case 3
    then have "dec_widen a scale line col = Ok a" by (simp add: dec_widen_def n(1) e_def [symmetric] Let_def)
    with a show ?thesis by blast
  next
    case 4
    let ?M = "bu_val (dec_mag a) * 10 ^ nat e"
    have pos: "0 < bu_val (dec_mag a)" using 4(2) by (simp add: dec_zero_val)
    have "e \<le> 37" "int n + e \<le> 38" using n(2) by (auto simp: e_def has_digits_def)
    then obtain w where w: "decw_mul_pow10 (decw_from128 (dec_mag a)) e line col = Ok w" "wide_ok w" "wide_val w = ?M"
      using align_val [OF a, of e line col] 4(3) by (auto simp: mult.commute)
    have "?M < 10 ^ (n + nat e)" using has_digits_times [OF n(2) pos] unfolding has_digits_def by blast
    also have "\<dots> \<le> 10 ^ 38" using \<open>int n + e \<le> 38\<close> 4(3) by (intro power_increasing) auto
    finally have M: "?M < 10 ^ 38" .
    have sc: "0 \<le> d_s a + e" "d_s a + e \<le> BDEC_MAX_SCALE" using a s 4(3) by (auto simp: dec_ok_def e_def)
    from dec_finish_exact [OF w(2) _ sc] M w(3) obtain m where
      m: "dec_finish w (dec_negative a) (d_s a + e) BROUND_HALF_EVEN line col = Ok (dec_set m (dec_negative a) (d_s a + e))"
        "bu_val m = ?M" by metis
    have "dec_widen a scale line col = Ok (dec_set m (dec_negative a) (d_s a + e))"
      using 4 w(1) m(1) by (simp add: dec_widen_def n(1) e_def [symmetric] Let_def)
    moreover have "bu_val m < 10 ^ 38" using M m(2) by simp
    note r = dec_set_small [OF this, of "dec_negative a" "d_s a + e"]
    have "dec_val (dec_set m (dec_negative a) (d_s a + e)) = dec_val a"
      using a 4(3) unfolding dec_val_def r(2) dec_set_scale m(2)
      by (simp add: dec_int_def with_sign_def dec_ok_def nat_add_distrib power_add)
    ultimately show ?thesis using r(3) sc by blast
  qed
qed

lemma wide_add_small:
  assumes "wide_ok a" "wide_ok b" "wide_val a < 10 ^ 120" "wide_val b < 10 ^ 120"
  shows "\<exists>w. decw_add a b line col = Ok w \<and> wide_ok w \<and> wide_val w = wide_val a + wide_val b"
proof -
  have "wide_val a + wide_val b < 10 ^ 120 + 10 ^ 120" using assms(3,4) by (rule add_strict_mono)
  also have "\<dots> < (2 :: nat) ^ 512" by simp
  finally show ?thesis using decw_add_val [OF assms(1,2), of line col] by auto
qed

text \<open>The sum of two aligned coefficients with signs.\<close>

lemma aligned_sum_outcome:
  assumes w: "wide_ok aw" "wide_ok bw" "wide_val aw < 10 ^ 120" "wide_val bw < 10 ^ 120"
    and s: "0 \<le> scale" "scale \<le> BDEC_MAX_SCALE"
  shows "dec_outcome False (with_sign an (of_nat (wide_val aw) / 10 ^ nat scale) + with_sign bn (of_nat (wide_val bw) / 10 ^ nat scale)) line col
    (if an = bn then
       rt_bind (decw_add aw bw line col) (\<lambda>sum. dec_finish sum an scale BROUND_HALF_EVEN line col)
     else
       let order = decw_cmp aw bw in
       if order = 0 then Ok (dec_set bu_0 False scale)
       else if order > 0 then dec_finish (decw_sub aw bw) an scale BROUND_HALF_EVEN line col
       else dec_finish (decw_sub bw aw) bn scale BROUND_HALF_EVEN line col)"
proof -
  have finish: "dec_outcome False (with_sign n (of_nat (wide_val v) / 10 ^ nat scale)) line col (dec_finish v n scale BROUND_HALF_EVEN line col)"
    if "wide_ok v" for v n using dec_finish_outcome [OF that s(1), of n line col] s(2) by simp
  consider "an = bn" | "an \<noteq> bn" "wide_val aw = wide_val bw" | "an \<noteq> bn" "wide_val bw < wide_val aw" | "an \<noteq> bn" "wide_val aw < wide_val bw"
    by linarith
  then show ?thesis
  proof cases
    case 1
    obtain v where v: "decw_add aw bw line col = Ok v" "wide_ok v" "wide_val v = wide_val aw + wide_val bw"
      using wide_add_small [OF w] by blast
    have "with_sign an (of_nat (wide_val aw) / 10 ^ nat scale) + with_sign bn (of_nat (wide_val bw) / 10 ^ nat scale) =
      with_sign an (of_nat (wide_val v) / 10 ^ nat scale)" using 1 by (simp add: with_sign_def v(3) add_divide_distrib)
    with 1 v finish [OF v(2), of an] show ?thesis by simp
  next
    case 2
    have "rounds_to 0 (dec_set bu_0 False scale)"
      using s dec_set_small [of bu_0 False scale] by (intro rounds_to_exact) (simp_all add: dec_val_def)
    moreover have "with_sign an (of_nat (wide_val aw) / 10 ^ nat scale) + with_sign bn (of_nat (wide_val bw) / 10 ^ nat scale) = 0"
      using 2 by (auto simp: with_sign_def)
    ultimately show ?thesis using 2 decw_cmp_val [OF w(1,2)] by (simp add: dec_outcome_Ok)
  next
    case 3
    note v = decw_sub_val [OF w(1,2) less_imp_le [OF 3(2)]]
    have "with_sign an (of_nat (wide_val aw) / 10 ^ nat scale) + with_sign bn (of_nat (wide_val bw) / 10 ^ nat scale) =
      with_sign an (of_nat (wide_val (decw_sub aw bw)) / 10 ^ nat scale)"
      using 3 by (auto simp: with_sign_def v(2) of_nat_diff diff_divide_distrib)
    with 3 finish [OF v(1), of an] decw_cmp_val [OF w(1,2)] show ?thesis by simp
  next
    case 4
    note v = decw_sub_val [OF w(2,1) less_imp_le [OF 4(2)]]
    have "with_sign an (of_nat (wide_val aw) / 10 ^ nat scale) + with_sign bn (of_nat (wide_val bw) / 10 ^ nat scale) =
      with_sign bn (of_nat (wide_val (decw_sub bw aw)) / 10 ^ nat scale)"
      using 4 by (auto simp: with_sign_def v(2) of_nat_diff diff_divide_distrib)
    with 4 finish [OF v(1), of bn] decw_cmp_val [OF w(1,2)] show ?thesis by simp
  qed
qed

lemma pow10_times_small: "e \<le> 76 \<Longrightarrow> v < 10 ^ 38 \<Longrightarrow> 10 ^ e * v < (10 :: nat) ^ 120"
proof -
  assume "e \<le> 76" "v < 10 ^ 38"
  then have "10 ^ e * v \<le> 10 ^ 76 * (10 :: nat) ^ 38" by (intro mult_le_mono power_increasing) auto
  also have "\<dots> < 10 ^ 120" by simp
  finally show ?thesis .
qed

lemma aligned_value:
  assumes "dec_ok v" "d_s v \<le> scale" "wide_val w = 10 ^ nat (scale - d_s v) * bu_val (dec_mag v)"
  shows "dec_val v = with_sign (dec_negative v) (of_nat (wide_val w) / 10 ^ nat scale)"
proof -
  have "nat scale = nat (d_s v) + nat (scale - d_s v)"
    using assms(1,2) nat_add_distrib [of "d_s v" "scale - d_s v"] by (simp add: dec_ok_def)
  then show ?thesis unfolding dec_val_sign assms(3) by (simp add: power_add)
qed

lemma near_sum:
  assumes a: "dec_ok a" and b: "dec_ok b"
    and e: "scale - d_s a \<le> 76" "scale - d_s b \<le> 76" and scale: "scale = (if d_s a > d_s b then d_s a else d_s b)"
  shows "dec_outcome False (dec_val a + dec_val b) line col
    (rt_bind (decw_mul_pow10 (decw_from128 (dec_mag a)) (scale - d_s a) line col) (\<lambda>aw.
     rt_bind (decw_mul_pow10 (decw_from128 (dec_mag b)) (scale - d_s b) line col) (\<lambda>bw.
       let an = dec_negative a; bn = dec_negative b in
       if an = bn then
         rt_bind (decw_add aw bw line col) (\<lambda>sum. dec_finish sum an scale BROUND_HALF_EVEN line col)
       else
         let order = decw_cmp aw bw in
         if order = 0 then Ok (dec_set bu_0 False scale)
         else if order > 0 then dec_finish (decw_sub aw bw) an scale BROUND_HALF_EVEN line col
         else dec_finish (decw_sub bw aw) bn scale BROUND_HALF_EVEN line col)))"
proof -
  have s: "d_s a \<le> scale" "d_s b \<le> scale" "0 \<le> scale" "scale \<le> BDEC_MAX_SCALE"
    using a b by (auto simp: scale dec_ok_def)
  from align_val [OF a, of "scale - d_s a" line col] e(1) s obtain aw where
    aw: "decw_mul_pow10 (decw_from128 (dec_mag a)) (scale - d_s a) line col = Ok aw" "wide_ok aw"
      "wide_val aw = 10 ^ nat (scale - d_s a) * bu_val (dec_mag a)" by auto
  from align_val [OF b, of "scale - d_s b" line col] e(2) s obtain bw where
    bw: "decw_mul_pow10 (decw_from128 (dec_mag b)) (scale - d_s b) line col = Ok bw" "wide_ok bw"
      "wide_val bw = 10 ^ nat (scale - d_s b) * bu_val (dec_mag b)" by auto
  have small: "wide_val aw < 10 ^ 120" "wide_val bw < 10 ^ 120"
    unfolding aw(3) bw(3) using a b e by (intro pow10_times_small; simp add: dec_ok_def)+
  show ?thesis
    unfolding aw(1) bw(1) rt_bind.simps Let_def [of "dec_negative a"] Let_def [of "dec_negative b"]
      aligned_value [OF a s(1) aw(3)] aligned_value [OF b s(2) bw(3)]
    by (rule aligned_sum_outcome [OF aw(2) bw(2) small s(3,4)])
qed

lemma decv_add_outcome:
  assumes a: "dec_ok a" and b: "dec_ok b"
  shows "dec_outcome False (dec_val a + dec_val b) line col (beans_decv_add a b line col)"
proof -
  define scale where "scale = (if d_s a > d_s b then d_s a else d_s b)"
  have s: "scale \<le> BDEC_MAX_SCALE" "scale = max (d_s a) (d_s b)" "scale = max (d_s b) (d_s a)"
    using a b by (auto simp: scale_def dec_ok_def)
  obtain n where n: "dec_exponent a = int n - 1 - d_s a" "has_digits n (bu_val (dec_mag a))" "n \<le> 38"
    using dec_exponent_val [OF a] by blast
  obtain m where m: "dec_exponent b = int m - 1 - d_s b" "has_digits m (bu_val (dec_mag b))" "m \<le> 38"
    using dec_exponent_val [OF b] by blast
  consider (zero) "dec_zero a \<or> dec_zero b" | (left) "\<not> (dec_zero a \<or> dec_zero b)" "dec_exponent a - dec_exponent b > 39"
    | (right) "\<not> (dec_zero a \<or> dec_zero b)" "dec_exponent b - dec_exponent a > 39"
    | (near) "\<not> (dec_zero a \<or> dec_zero b)" "\<not> dec_exponent a - dec_exponent b > 39" "\<not> dec_exponent b - dec_exponent a > 39"
    by blast
  then show ?thesis
  proof cases
    case zero
    then have "beans_decv_add a b line col = dec_widen (if dec_zero a then b else a) scale line col"
      by (simp add: beans_decv_add_def scale_def Let_def)
    moreover have "dec_val a + dec_val b = dec_val (if dec_zero a then b else a)"
      using zero by (auto simp: dec_val_def dec_zero_int)
    moreover have "dec_ok (if dec_zero a then b else a)" using a b by simp
    from dec_widen_val [OF this s(1)] obtain r where
      "dec_widen (if dec_zero a then b else a) scale line col = Ok r" "dec_ok r" "dec_val r = dec_val (if dec_zero a then b else a)"
      by blast
    ultimately show ?thesis by (simp only: dec_outcome_Ok rounds_to_exact)
  next
    case left
    then have "beans_decv_add a b line col = dec_widen a scale line col"
      by (simp add: beans_decv_add_def scale_def Let_def)
    moreover have "0 < bu_val (dec_mag a)" using left by (simp add: dec_zero_val)
    ultimately show ?thesis
      using far_sum [OF a b n(2,3) _ m(2), of line col] left n(1) m(1) s(2) by (auto simp: dec_outcome_Ok)
  next
    case right
    then have "beans_decv_add a b line col = dec_widen b scale line col"
      by (simp add: beans_decv_add_def scale_def Let_def)
    moreover have "0 < bu_val (dec_mag b)" using right by (simp add: dec_zero_val)
    ultimately show ?thesis
      using far_sum [OF b a m(2,3) _ n(2), of line col] right n(1) m(1) s(3) by (auto simp: dec_outcome_Ok add.commute)
  next
    case near
    have "1 \<le> n" "1 \<le> m" using n(2) m(2) by (auto simp: has_digits_def)
    then have e: "scale - d_s a \<le> 76" "scale - d_s b \<le> 76" using near n m unfolding scale_def by auto
    have run: "beans_decv_add a b line col = (let scale = scale in
       rt_bind (decw_mul_pow10 (decw_from128 (dec_mag a)) (scale - d_s a) line col) (\<lambda>aw.
       rt_bind (decw_mul_pow10 (decw_from128 (dec_mag b)) (scale - d_s b) line col) (\<lambda>bw.
       let an = dec_negative a; bn = dec_negative b in
       if an = bn then
         rt_bind (decw_add aw bw line col) (\<lambda>sum. dec_finish sum an scale BROUND_HALF_EVEN line col)
       else
         let order = decw_cmp aw bw in
         if order = 0 then Ok (dec_set bu_0 False scale)
         else if order > 0 then dec_finish (decw_sub aw bw) an scale BROUND_HALF_EVEN line col
         else dec_finish (decw_sub bw aw) bn scale BROUND_HALF_EVEN line col)))"
      using near unfolding beans_decv_add_def scale_def [symmetric] by (simp add: Let_def)
    show ?thesis unfolding run Let_def [of scale] by (rule near_sum [OF a b e scale_def])
  qed
qed

lemma decv_neg_val: "dec_ok v \<Longrightarrow> dec_int (beans_decv_neg v) = - dec_int v \<and> d_s (beans_decv_neg v) = d_s v"
  using dec_set_small(1) [of "dec_mag v"] by (simp add: beans_decv_neg_def dec_ok_def dec_int_def)

lemma decv_neg_ok: "dec_ok v \<Longrightarrow> dec_ok (beans_decv_neg v) \<and> dec_val (beans_decv_neg v) = - dec_val v"
  using decv_neg_val [of v] by (simp add: dec_ok_int dec_val_def)

lemma decv_abs_ok:
  "dec_ok v \<Longrightarrow> dec_ok (beans_decv_abs v) \<and> dec_int (beans_decv_abs v) = \<bar>dec_int v\<bar> \<and> d_s (beans_decv_abs v) = d_s v"
  using dec_set_small [of "dec_mag v" False] by (simp add: beans_decv_abs_def dec_ok_def [of v] abs_dec_int)

section \<open>Order and hash agree with the value\<close>

lemma value_less_cross:
  "of_nat x / 10 ^ s < (of_nat y / 10 ^ t :: rat) \<longleftrightarrow> x * 10 ^ t < y * 10 ^ s"
proof -
  have "of_nat x / 10 ^ s < (of_nat y / 10 ^ t :: rat) \<longleftrightarrow> of_nat x * 10 ^ t < (of_nat y * 10 ^ s :: rat)"
    by (simp add: field_simps)
  also have "\<dots> \<longleftrightarrow> (of_nat (x * 10 ^ t) :: rat) < of_nat (y * 10 ^ s)" by simp
  finally show ?thesis by (simp only: of_nat_less_iff)
qed

lemma exponent_less:
  assumes n: "has_digits n x" and m: "has_digits m y" "0 < y" and e: "int n - 1 - int s < int m - 1 - int t"
  shows "x * 10 ^ t < y * 10 ^ s"
proof -
  have y: "10 ^ (m - 1) \<le> y" using m by (auto simp: has_digits_def)
  have "x * 10 ^ t < 10 ^ n * 10 ^ t" using n by (simp add: has_digits_def)
  also have "\<dots> = 10 ^ (n + t)" by (simp add: power_add)
  also have "\<dots> \<le> 10 ^ (m - 1 + s)" using e m(1) by (intro power_increasing) (auto simp: has_digits_def)
  also have "\<dots> \<le> y * 10 ^ s" using y by (simp add: power_add)
  finally show ?thesis .
qed

text \<open>The three-way result of comparing two numbers.\<close>

definition order_of :: "rat \<Rightarrow> rat \<Rightarrow> int" where
  "order_of x y = (if x < y then -1 else if x = y then 0 else 1)"

lemma order_of_sign: "order_of (with_sign n x) (with_sign n y) = (if n then - order_of x y else order_of x y)"
  by (auto simp: order_of_def with_sign_def)

lemma mag_order:
  assumes a: "dec_ok a" and b: "dec_ok b" and nz: "\<not> dec_zero a" "\<not> dec_zero b"
  shows "(if dec_exponent a \<noteq> dec_exponent b then Ok (if dec_exponent a < dec_exponent b then -1 else 1)
     else
       let scale = (if d_s a > d_s b then d_s a else d_s b) in
       rt_bind (decw_mul_pow10 (decw_from128 (dec_mag a)) (scale - d_s a) 0 0) (\<lambda>aw.
       rt_bind (decw_mul_pow10 (decw_from128 (dec_mag b)) (scale - d_s b) 0 0) (\<lambda>bw.
         Ok (decw_cmp aw bw)))) =
    Ok (order_of (of_nat (bu_val (dec_mag a)) / 10 ^ nat (d_s a)) (of_nat (bu_val (dec_mag b)) / 10 ^ nat (d_s b)))"
    (is "?lhs = Ok (order_of ?x ?y)")
proof -
  obtain n where n: "dec_exponent a = int n - 1 - d_s a" "has_digits n (bu_val (dec_mag a))" "n \<le> 38"
    using dec_exponent_val [OF a] by blast
  obtain m where m: "dec_exponent b = int m - 1 - d_s b" "has_digits m (bu_val (dec_mag b))" "m \<le> 38"
    using dec_exponent_val [OF b] by blast
  have pos: "0 < bu_val (dec_mag a)" "0 < bu_val (dec_mag b)" using nz by (simp_all add: dec_zero_val)
  have nat: "int (nat (d_s a)) = d_s a" "int (nat (d_s b)) = d_s b" using a b by (simp_all add: dec_ok_def)
  consider "dec_exponent a < dec_exponent b" | "dec_exponent b < dec_exponent a" | "dec_exponent a = dec_exponent b" by linarith
  then show ?thesis
  proof cases
    case 1
    with exponent_less [OF n(2) m(2) pos(2), of "nat (d_s a)" "nat (d_s b)"] n(1) m(1) nat have "?x < ?y"
      by (simp add: value_less_cross)
    with 1 show ?thesis by (simp add: order_of_def)
  next
    case 2
    with exponent_less [OF m(2) n(2) pos(1), of "nat (d_s b)" "nat (d_s a)"] n(1) m(1) nat have "?y < ?x"
      by (simp add: value_less_cross)
    with 2 show ?thesis by (simp add: order_of_def)
  next
    case 3
    define scale where "scale = (if d_s a > d_s b then d_s a else d_s b)"
    have "1 \<le> n" "1 \<le> m" using n(2) m(2) by (auto simp: has_digits_def)
    then have e: "scale - d_s a \<le> 76" "scale - d_s b \<le> 76" "d_s a \<le> scale" "d_s b \<le> scale"
      using 3 n m unfolding scale_def by auto
    from align_val [OF a, of "scale - d_s a" 0 0] e obtain aw where
      aw: "decw_mul_pow10 (decw_from128 (dec_mag a)) (scale - d_s a) 0 0 = Ok aw" "wide_ok aw"
        "wide_val aw = 10 ^ nat (scale - d_s a) * bu_val (dec_mag a)" by auto
    from align_val [OF b, of "scale - d_s b" 0 0] e obtain bw where
      bw: "decw_mul_pow10 (decw_from128 (dec_mag b)) (scale - d_s b) 0 0 = Ok bw" "wide_ok bw"
        "wide_val bw = 10 ^ nat (scale - d_s b) * bu_val (dec_mag b)" by auto
    have p: "nat scale = nat (d_s a) + nat (scale - d_s a)" "nat scale = nat (d_s b) + nat (scale - d_s b)"
      using a b e nat_add_distrib [of "d_s a" "scale - d_s a"] nat_add_distrib [of "d_s b" "scale - d_s b"]
      by (simp_all add: dec_ok_def)
    have x: "?x = of_nat (wide_val aw) / 10 ^ nat scale" unfolding aw(3) p(1) by (simp add: power_add)
    have y: "?y = of_nat (wide_val bw) / 10 ^ nat scale" unfolding bw(3) p(2) by (simp add: power_add)
    have "decw_cmp aw bw = order_of ?x ?y"
      unfolding x y decw_cmp_val [OF aw(2) bw(2)] order_of_def value_less_cross by simp
    with 3 aw(1) bw(1) show ?thesis unfolding scale_def by (simp add: Let_def)
  qed
qed

lemma dec_cmp_val:
  assumes a: "dec_ok a" and b: "dec_ok b"
  shows "beans_dec_cmp a b = Ok (order_of (dec_val a) (dec_val b))"
proof -
  have sign: "dec_val v < 0 \<longleftrightarrow> dec_negative v" "dec_val v = 0 \<longleftrightarrow> dec_zero v" for v
    by (simp_all add: dec_val_def dec_negative_int dec_zero_int divide_less_0_iff)
  have neg0: "dec_negative v \<Longrightarrow> \<not> dec_zero v" for v by (simp add: dec_negative_int dec_zero_int)
  show ?thesis
  proof (cases "dec_negative a = dec_negative b \<and> \<not> dec_zero a \<and> \<not> dec_zero b")
    case True
    then have "beans_dec_cmp a b = Ok (order_of (with_sign (dec_negative a) (of_nat (bu_val (dec_mag a)) / 10 ^ nat (d_s a)))
        (with_sign (dec_negative a) (of_nat (bu_val (dec_mag b)) / 10 ^ nat (d_s b))))"
      unfolding beans_dec_cmp_def Let_def [of "dec_exponent a"] Let_def [of "dec_exponent b"] order_of_sign
      using mag_order [OF a b] by simp
    with True show ?thesis by (simp add: dec_val_sign [symmetric]) (simp add: dec_val_sign)
  next
    case False
    then show ?thesis using sign(1) [of a] sign(1) [of b] sign(2) [of a] sign(2) [of b] neg0
      by (auto simp: beans_dec_cmp_def order_of_def)
  qed
qed

lemma canonical_val:
  assumes "0 \<le> s" "canonical m s = (m', s')"
  shows "0 \<le> s' \<and> (s' = 0 \<or> bu_val m' mod 10 \<noteq> 0) \<and>
    (of_nat (bu_val m') / 10 ^ nat s' :: rat) = of_nat (bu_val m) / 10 ^ nat s"
  using assms
proof (induction m s rule: canonical.induct)
  case (1 m s)
  obtain q r where d: "bu_div_small m 10 = Some (q, r)" "bu_val q = bu_val m div 10" "unat r = bu_val m mod 10"
    using bu_div_small_val [of 10 m] by auto
  have r: "r = 0 \<longleftrightarrow> bu_val m mod 10 = 0" using d(3) by (metis unat_eq_0)
  show ?case
  proof (cases "0 < s \<and> r = 0")
    case True
    then have "canonical q (s - 1) = (m', s')" using "1.prems"(2) d(1) by (simp add: canonical.simps [of m])
    with "1.IH" [of "(q, r)" q r] True d(1) have IH: "0 \<le> s' \<and> (s' = 0 \<or> bu_val m' mod 10 \<noteq> 0) \<and>
      (of_nat (bu_val m') / 10 ^ nat s' :: rat) = of_nat (bu_val q) / 10 ^ nat (s - 1)" by auto
    have "bu_val m = 10 * bu_val q" using True r d(2) by (metis add.right_neutral mult_div_mod_eq)
    moreover have "nat s = Suc (nat (s - 1))" using True by linarith
    ultimately have "(of_nat (bu_val q) / 10 ^ nat (s - 1) :: rat) = of_nat (bu_val m) / 10 ^ nat s" by simp
    with IH show ?thesis by simp
  next
    case False
    with "1.prems" d(1) r show ?thesis by (auto simp: canonical.simps [of m] split: if_splits)
  qed
qed

lemma canonical_unique:
  assumes v: "(of_nat x / 10 ^ s :: rat) = of_nat y / 10 ^ t"
    and x: "s = 0 \<or> x mod 10 \<noteq> 0" and y: "t = 0 \<or> y mod 10 \<noteq> 0"
  shows "s = t \<and> x = y"
proof -
  have cross: "x * 10 ^ t = y * 10 ^ s"
    using v value_less_cross [of x s y t] value_less_cross [of y t x s] by linarith
  have *: False if "s < t" "x * 10 ^ t = y * 10 ^ s" "t = 0 \<or> y mod 10 \<noteq> 0" for s t x y :: nat
  proof -
    define k where "k = t - s - 1"
    have k: "t = s + Suc k" using that(1) by (simp add: k_def)
    with that(2) have "x * 10 ^ Suc k * 10 ^ s = y * 10 ^ s" by (simp only: power_add mult.assoc mult.commute mult.left_commute)
    then have "y = x * 10 ^ Suc k" by simp
    then have "y mod 10 = 0" by simp
    with that k show False by simp
  qed
  have "s = t" using * [OF _ cross y] * [OF _ cross [symmetric] x] by (metis linorder_neqE_nat)
  with cross show ?thesis by simp
qed

lemma dec_hash_val:
  assumes a: "dec_ok a" and b: "dec_ok b" and eq: "dec_val a = dec_val b"
  shows "beans_dec_hash a = beans_dec_hash b"
proof -
  obtain m s where ca: "canonical (dec_mag a) (d_s a) = (m, s)" by fastforce
  obtain n t where cb: "canonical (dec_mag b) (d_s b) = (n, t)" by fastforce
  have neg: "dec_negative a \<longleftrightarrow> dec_negative b"
    using eq by (metis dec_negative_int dec_val_def divide_less_0_iff of_int_less_0_iff zero_less_numeral zero_less_power not_less_iff_gr_or_eq)
  have abs: "of_nat (bu_val (dec_mag a)) / 10 ^ nat (d_s a) = (of_nat (bu_val (dec_mag b)) / 10 ^ nat (d_s b) :: rat)"
    using eq neg unfolding dec_val_sign by (auto simp: with_sign_def split: if_splits)
  have "0 \<le> d_s a" "0 \<le> d_s b" using a b by (simp_all add: dec_ok_def)
  note A = canonical_val [OF this(1) ca] and B = canonical_val [OF this(2) cb]
  have "nat s = nat t \<and> bu_val m = bu_val n" using A B abs by (intro canonical_unique) auto
  then have "s = t" "m = n" using A B by (auto simp: bu_val_inject)
  with ca cb neg show ?thesis by (simp add: beans_dec_hash_def)
qed

section \<open>Decimals as keys\<close>

text \<open>Slots that hold decimals: \<open>dat\<close> reads the decimal a slot points at.\<close>

definition decimal_env :: "(slot \<Rightarrow> bdec) \<Rightarrow> slot_env \<Rightarrow> slot_env" where
  "decimal_env dat env = env\<lparr>
     dec_cmp_at := \<lambda>a b. (case beans_dec_cmp (dat a) (dat b) of Ok c \<Rightarrow> c | _ \<Rightarrow> 0),
     dec_hash_at := \<lambda>a. beans_dec_hash (dat a)\<rparr>"

lemma decimal_slot_eq:
  assumes "\<And>a. dec_ok (dat a)"
  shows "slot_eq (decimal_env dat env) a b 3 \<longleftrightarrow> dec_val (dat a) = dec_val (dat b)"
  using dec_cmp_val [OF assms assms] by (simp add: slot_eq_def decimal_env_def order_of_def)

lemma decimal_slot_keys:
  assumes "\<And>a. dec_ok (dat a)"
  shows "slot_keys (decimal_env dat env) 3"
proof unfold_locales
  fix a b
  assume "slot_eq (decimal_env dat env) a b 3"
  then have "dec_val (dat a) = dec_val (dat b)" by (simp only: decimal_slot_eq [OF assms])
  from dec_hash_val [OF assms assms this]
  show "slot_hash (decimal_env dat env) a 3 = slot_hash (decimal_env dat env) b 3"
    by (simp add: slot_hash_def decimal_env_def)
qed (simp_all add: decimal_slot_eq [OF assms])

end
