(* ===== verification/Rt_Decimal_Text.thy ===== *)
theory Rt_Decimal_Text
  imports Rt_Decimal_Sums
begin

unbundle bit_operations_syntax

text \<open>
  The text of a decimal and its reader: what \<^verbatim>\<open>beans_dec_str\<close> prints, \<^verbatim>\<open>dec_parse_text\<close> accepts
  and reads back with the same coefficient and scale.
\<close>

section \<open>Printing and reading\<close>

lemma digit_char:
  assumes "unat (d :: u32) < 10"
  shows "unat (48 + ucast d :: byte) = 48 + unat d"
proof -
  have "unat (ucast d :: byte) = unat d" using assms by (simp add: unsigned_ucast_eq take_bit_nat_eq_self)
  then show ?thesis using assms by (simp add: unat_word_ariths)
qed

lemma is_digit_unat: "is_digit c \<longleftrightarrow> 48 \<le> unat c \<and> unat c \<le> 57"
  by (simp add: is_digit_def word_le_nat_alt)

lemma digits_val_append: "digits_val a (xs @ ys) = digits_val (digits_val a xs) ys"
  by (simp add: digits_val_def)

lemma digits_val_zeros: "digits_val 0 (replicate n 48 @ ds) = digits_val 0 ds"
  by (induction n) simp_all

definition digit_chars :: "bu128 \<Rightarrow> bstr" where
  "digit_chars v = map (\<lambda>d. 48 + ucast d) (quotient_digits v)"

text \<open>The number a list of digits stands for.\<close>

definition digits_nat :: "nat \<Rightarrow> u32 list \<Rightarrow> nat" where
  "digits_nat a ds = foldl (\<lambda>a d. a * 10 + unat d) a ds"

lemma digits_nat_simps [simp]:
  "digits_nat a [] = a" "digits_nat a (d # ds) = digits_nat (a * 10 + unat d) ds"
  "digits_nat a (ds @ es) = digits_nat (digits_nat a ds) es"
  by (simp_all add: digits_nat_def)

lemma quotient_digits_val:
  "list_all (\<lambda>d. unat d < 10) (quotient_digits v) \<and> digits_nat 0 (quotient_digits v) = bu_val v \<and>
   (0 < bu_val v \<longrightarrow> has_digits (length (quotient_digits v)) (bu_val v)) \<and> (bu_val v = 0 \<longrightarrow> quotient_digits v = [])"
proof (induction v rule: quotient_digits.induct)
  case (1 v)
  obtain q r where d: "bu_div_small v 10 = Some (q, r)" "bu_val q = bu_val v div 10" "unat r = bu_val v mod 10"
    using bu_div_small_val [of 10 v] by auto
  show ?case
  proof (cases "bu_val v = 0")
    case True
    then show ?thesis by (simp add: quotient_digits.simps [of v] bu_zero_val)
  next
    case False
    then have nz: "\<not> bu_zero v" by (simp add: bu_zero_val)
    have run: "quotient_digits v = quotient_digits q @ [r]"
      using nz d(1) by (simp add: quotient_digits.simps [of v])
    note IH = "1.IH" [OF nz d(1) refl]
    have r: "unat r < 10" using d(3) by simp
    have "has_digits (length (quotient_digits v)) (bu_val v)"
    proof (cases "bu_val v < 10")
      case True
      then have "quotient_digits q = []" using IH d(2) by simp
      with True run False show ?thesis by (simp add: has_digits_def)
    next
      case False
      then have "has_digits (length (quotient_digits q)) (bu_val v div 10)" using IH d(2) by simp
      with False run has_digits_Suc [of "bu_val v"] show ?thesis by simp
    qed
    with IH run r d(2,3) False show ?thesis by simp
  qed
qed

lemma chars_of_digits:
  "list_all (\<lambda>d. unat d < 10) ds \<Longrightarrow> list_all is_digit (map (\<lambda>d. 48 + ucast d) ds) \<and>
   digits_val a (map (\<lambda>d. 48 + ucast d) ds) = digits_nat a ds"
  by (induction ds arbitrary: a) (auto simp: is_digit_unat digit_char)

lemma digit_chars_val:
  "list_all is_digit (digit_chars v) \<and> digits_val 0 (digit_chars v) = bu_val v \<and>
   (0 < bu_val v \<longrightarrow> has_digits (length (digit_chars v)) (bu_val v)) \<and> (bu_val v = 0 \<longrightarrow> digit_chars v = [])"
  using quotient_digits_val [of v] chars_of_digits [of "quotient_digits v" 0] by (simp add: digit_chars_def)

text \<open>How far the scan of the digits has come: the number so far and how many digits it has.\<close>

definition scan_state :: "nat \<Rightarrow> bu128 \<Rightarrow> int \<Rightarrow> bool" where
  "scan_state n coeff significant \<longleftrightarrow> bu_val coeff = n \<and>
     (if n = 0 then significant = 0 else 0 \<le> significant \<and> has_digits (nat significant) n)"

lemma scan_step:
  assumes s: "scan_state n coeff significant" and d: "is_digit c" and small: "n * 10 + (unat c - 48) < 10 ^ 38"
  shows "\<exists>coeff' significant'. scan_state (n * 10 + (unat c - 48)) coeff' significant' \<and>
    parse_body (c # rest) coeff fractional after_dot (0 < n) significant =
      parse_body rest coeff' (if after_dot then fractional + 1 else fractional) after_dot (0 < n * 10 + (unat c - 48)) significant'"
proof -
  define x where "x = unat c - 48"
  have x: "unat c = 48 + x" "x < 10" using d by (auto simp: is_digit_unat x_def)
  have c: "c \<noteq> 0" "c \<noteq> 95" "c \<noteq> 46" "c \<noteq> 101" "c \<noteq> 69" "c = 48 \<longleftrightarrow> x = 0" using x by (auto simp: word_unat_eq_iff)
  show ?thesis
  proof (cases "n = 0 \<and> x = 0")
    case True
    with s c show ?thesis by (auto simp: x_def [symmetric] scan_state_def)
  next
    case False
    have has: "has_digits (nat (significant + 1)) (n * 10 + x)" and nonneg: "0 \<le> significant"
    proof -
      have "has_digits (Suc (nat significant)) (n * 10 + x)"
      proof (cases "n = 0")
        case True
        with False s x show ?thesis by (simp add: has_digits_def scan_state_def)
      next
        case nz: False
        with s have "has_digits (nat significant) ((n * 10 + x) div 10)" using x(2) by (simp add: scan_state_def)
        with nz show ?thesis by (intro has_digits_Suc) auto
      qed
      moreover show "0 \<le> significant" using s by (auto simp: scan_state_def split: if_splits)
      ultimately show "has_digits (nat (significant + 1)) (n * 10 + x)" by (simp add: nat_add_distrib)
    qed
    have few: "significant + 1 \<le> 38"
    proof (rule ccontr)
      assume "\<not> significant + 1 \<le> 38"
      then have "38 \<le> nat (significant + 1) - 1" "nat (significant + 1) \<noteq> 1" by auto
      then have "(10 :: nat) ^ 38 \<le> 10 ^ (nat (significant + 1) - 1)" by (intro power_increasing) auto
      also have "\<dots> \<le> n * 10 + x" using has \<open>nat (significant + 1) \<noteq> 1\<close> by (auto simp: has_digits_def)
      finally show False using small by (simp add: x_def)
    qed
    obtain m fits where m: "bu_mul_small coeff 10 = (m, fits)" by fastforce
    have "bu_val coeff = n" using s by (simp add: scan_state_def)
    with bu_mul_small_val [OF m] small have m': fits "bu_val m = n * 10" by auto
    obtain coeff' fits' where a: "bu_add_small m (ucast c - 48) = (coeff', fits')" by fastforce
    have u: "unat (ucast c - 48 :: u32) = x"
    proof -
      have "unat (ucast c :: u32) = 48 + x" using x by (simp add: unsigned_ucast_eq take_bit_nat_eq_self)
      then show ?thesis by (subst unat_sub) (simp_all add: word_le_nat_alt)
    qed
    have "n * 10 + x < 2 ^ 128" using small by (simp add: x_def)
    with bu_add_small_val [OF a] m' u have a': fits' "bu_val coeff' = n * 10 + x" by auto
    have "scan_state (n * 10 + x) coeff' (significant + 1)"
      using a'(2) has nonneg False by (auto simp: scan_state_def)
    moreover have "parse_body (c # rest) coeff fractional after_dot (0 < n) significant =
      parse_body rest coeff' (if after_dot then fractional + 1 else fractional) after_dot True (significant + 1)"
      using c False few m a m'(1) a'(1) by (auto simp: Let_def)
    moreover have "0 < n * 10 + x" using False by auto
    ultimately show ?thesis unfolding x_def [symmetric] by auto
  qed
qed

lemma scan_digits:
  "scan_state n coeff significant \<Longrightarrow> list_all is_digit ds \<Longrightarrow> digits_val n ds < 10 ^ 38 \<Longrightarrow>
   \<exists>coeff' significant'. scan_state (digits_val n ds) coeff' significant' \<and>
     parse_body (ds @ rest) coeff fractional after_dot (0 < n) significant =
       parse_body rest coeff' (fractional + (if after_dot then int (length ds) else 0)) after_dot (0 < digits_val n ds) significant'"
proof (induction ds arbitrary: n coeff significant fractional)
  case (Cons c ds)
  have "n * 10 + (unat c - 48) < 10 ^ 38"
    using Cons.prems(3) digits_val_ge [of "n * 10 + (unat c - 48)" ds] by simp
  from scan_step [OF Cons.prems(1) _ this, of "ds @ rest" fractional after_dot] Cons.prems(2) obtain c1 s1 where
    s1: "scan_state (n * 10 + (unat c - 48)) c1 s1"
    and step: "parse_body (c # ds @ rest) coeff fractional after_dot (0 < n) significant =
      parse_body (ds @ rest) c1 (if after_dot then fractional + 1 else fractional) after_dot (0 < n * 10 + (unat c - 48)) s1" by auto
  from Cons.IH [OF s1, of "if after_dot then fractional + 1 else fractional"] Cons.prems(2,3) obtain c2 s2 where
    "scan_state (digits_val n (c # ds)) c2 s2"
    "parse_body (ds @ rest) c1 (if after_dot then fractional + 1 else fractional) after_dot (0 < n * 10 + (unat c - 48)) s1 =
     parse_body rest c2 ((if after_dot then fractional + 1 else fractional) + (if after_dot then int (length ds) else 0))
       after_dot (0 < digits_val n (c # ds)) s2" by auto
  with step show ?case by (intro exI conjI; (assumption | auto simp: add.assoc simp del: parse_body.simps))
qed auto

lemma valid_digits: "list_all is_digit ds \<Longrightarrow> valid_body k dot (ds @ rest) = valid_body (k + int (length ds)) dot rest"
proof (induction ds arbitrary: k)
  case (Cons c ds)
  then have "is_digit c" "c \<noteq> 0" by (auto simp: is_digit_unat)
  with Cons.IH [of "k + 1"] Cons.prems show ?case by (simp add: add.assoc)
qed simp

lemma point_digits_short: "int (length ds) \<le> s \<Longrightarrow> point_digits ds s = ds"
  by (induction ds) auto

lemma point_digits_split:
  assumes "xs \<noteq> []" "0 \<le> s" "int (length ys) = s"
  shows "point_digits (xs @ ys) s = xs @ (if s = 0 then [] else 46 # ys)"
  using assms(1)
proof (induction xs)
  case (Cons x xs)
  show ?case
  proof (cases "xs = []")
    case True
    with assms(2,3) point_digits_short [of ys s] show ?thesis by auto
  next
    case False
    with Cons assms(2,3) show ?thesis by auto
  qed
qed simp

text \<open>The text of a decimal: sign, at least one digit, and the fraction's digits after a point.\<close>

definition dec_text :: "bool \<Rightarrow> bstr \<Rightarrow> bstr \<Rightarrow> bstr" where
  "dec_text neg xs ys = (if neg then [45] else []) @ xs @ (if ys = [] then [] else 46 # ys)"

lemma dec_str_text:
  assumes ok: "dec_ok v"
  shows "\<exists>xs ys. xs \<noteq> [] \<and> list_all is_digit (xs @ ys) \<and> digits_val 0 (xs @ ys) = bu_val (dec_mag v) \<and>
    int (length ys) = d_s v \<and>
    (beans_dec_str alloc v = Ok (dec_text (dec_negative v) xs ys) \<or>
     beans_dec_str alloc v = Panic (asc ''decimal too large to print'') 0 0 \<and> (\<exists>n. \<not> alloc n) \<and> 61 < d_s v)"
proof -
  define ds where "ds = (if bu_zero (dec_mag v) then [48] else digit_chars (dec_mag v))"
  have ds: "list_all is_digit ds" "digits_val 0 ds = bu_val (dec_mag v)" "ds \<noteq> []" "length ds \<le> 38"
  proof -
    show "list_all is_digit ds" "digits_val 0 ds = bu_val (dec_mag v)"
      using digit_chars_val [of "dec_mag v"] by (auto simp: ds_def bu_zero_val is_digit_unat)
    have "has_digits (length ds) (bu_val (dec_mag v))"
      using digit_chars_val [of "dec_mag v"] by (simp add: ds_def bu_zero_val has_digits_def)
    moreover obtain n where "has_digits n (bu_val (dec_mag v))" "n \<le> 38" using dec_exponent_val [OF ok] by blast
    ultimately have "length ds = n" "0 < n" using has_digits_unique has_digits_def by blast+
    then show "ds \<noteq> []" "length ds \<le> 38" using \<open>n \<le> 38\<close> by auto
  qed
  define digits where "digits = replicate (nat (d_s v + 1 - int (length ds))) 48 @ ds"
  define k where "k = length digits - nat (d_s v)"
  have s: "0 \<le> d_s v" using ok by (simp add: dec_ok_def)
  have len: "int (length digits) = max (int (length ds)) (d_s v + 1)" by (simp add: digits_def)
  have xs: "take k digits \<noteq> []" "int (length (drop k digits)) = d_s v"
    using len s by (auto simp: k_def)
  have digits: "list_all is_digit digits" "digits_val 0 digits = bu_val (dec_mag v)"
    using ds(1,2) by (auto simp: digits_def digits_val_zeros list_all_iff is_digit_unat)
  have out: "point_digits digits (d_s v) = take k digits @ (if d_s v = 0 then [] else 46 # drop k digits)"
    using point_digits_split [OF xs(1) s xs(2)] by simp
  have written: "(if dec_negative v then [45] else []) @ point_digits digits (d_s v) =
      dec_text (dec_negative v) (take k digits) (drop k digits)"
    unfolding out dec_text_def using xs(2) by auto
  have room: "int (length (dec_text n (take k digits) (drop k digits))) \<le> int (length digits) + 2" for n
    by (simp add: dec_text_def)
  have "beans_dec_str alloc v = Ok (dec_text (dec_negative v) (take k digits) (drop k digits)) \<or>
     beans_dec_str alloc v = Panic (asc ''decimal too large to print'') 0 0 \<and> (\<exists>n. \<not> alloc n) \<and> 61 < d_s v"
  proof -
    define cap where "cap = (if d_s v > 38 then d_s v else 38) + 2"
    define droom where "droom = (if cap \<le> 63 then 64 else cap + 1)"
    define oroom where "oroom = (if cap + 2 \<le> 79 then 80 else cap + 3)"
    have unfold: "beans_dec_str alloc v =
      (if \<not> (cap \<le> 63 \<or> alloc (u64_of (cap + 1))) \<or> \<not> (cap + 2 \<le> 79 \<or> alloc (u64_of (cap + 3)))
       then Panic (asc ''decimal too large to print'') 0 0
       else if int (length digits) > droom \<or>
           int (length (dec_text (dec_negative v) (take k digits) (drop k digits))) + 1 > oroom then Fault
       else Ok (dec_text (dec_negative v) (take k digits) (drop k digits)))"
      unfolding beans_dec_str_def Let_def cap_def droom_def oroom_def digit_chars_def [symmetric] ds_def [symmetric]
        digits_def [symmetric] written by (rule refl)
    have "int (length digits) \<le> droom" using len ds(4) s by (auto simp: droom_def cap_def)
    moreover have "int (length digits) + 3 \<le> oroom" using len ds(4) s by (auto simp: oroom_def cap_def)
    ultimately have fits: "\<not> (int (length digits) > droom \<or>
           int (length (dec_text (dec_negative v) (take k digits) (drop k digits))) + 1 > oroom)"
      using room [of "dec_negative v"] by linarith
    have "61 < d_s v" if "\<not> cap \<le> 63 \<or> \<not> cap + 2 \<le> 79" using that by (auto simp: cap_def split: if_splits)
    then show ?thesis unfolding unfold using fits by auto
  qed
  with xs digits show ?thesis by (intro exI [of _ "take k digits"] exI [of _ "drop k digits"]) simp
qed

lemma parse_dec_text:
  assumes ok: "dec_ok v" and d: "xs \<noteq> []" "list_all is_digit (xs @ ys)" "digits_val 0 (xs @ ys) = bu_val (dec_mag v)"
    and s: "int (length ys) = d_s v"
  shows "dec_parse_text (dec_text (dec_negative v) xs ys) = Ok (Some v)"
proof -
  let ?M = "bu_val (dec_mag v)"
  define body where "body = xs @ (if ys = [] then [] else 46 # ys)"
  obtain x xs' where x: "xs = x # xs'" "is_digit x" using d(1,2) by (cases xs) auto
  then have "peek body = x" "x \<noteq> 43" "x \<noteq> 45" by (auto simp: body_def peek_def is_digit_unat)
  then have sign: "peek (dec_text (dec_negative v) xs ys) = 45 \<longleftrightarrow> dec_negative v"
    "(if peek (dec_text (dec_negative v) xs ys) = 43 \<or> peek (dec_text (dec_negative v) xs ys) = 45
      then drop 1 (dec_text (dec_negative v) xs ys) else dec_text (dec_negative v) xs ys) = body"
    "(if peek (dec_text (dec_negative v) xs ys) = 45 \<or> peek (dec_text (dec_negative v) xs ys) = 43
      then drop 1 (dec_text (dec_negative v) xs ys) else dec_text (dec_negative v) xs ys) = body"
    by (auto simp: dec_text_def body_def peek_def)
  have digits: "list_all is_digit xs" "list_all is_digit ys" using d(2) by auto
  have "valid_body 0 False body"
  proof (cases "ys = []")
    case True
    with valid_digits [OF digits(1), of 0 False "[]"] d(1) show ?thesis by (simp add: body_def)
  next
    case False
    with valid_digits [OF digits(1), of 0 False "46 # ys"] valid_digits [OF digits(2), of "int (length xs)" True "[]"] d(1)
    show ?thesis by (simp add: body_def is_digit_unat add_pos_nonneg)
  qed
  then have valid: "dec_valid_c (dec_text (dec_negative v) xs ys)" unfolding dec_valid_c_def sign(2) .
  have M: "?M < 10 ^ 38" using ok by (simp add: dec_ok_def)
  have all: "digits_val (digits_val 0 xs) ys = ?M" using d(3) by (simp add: digits_val_append)
  then have "digits_val 0 xs < 10 ^ 38" using M digits_val_ge [of "digits_val 0 xs" ys] by linarith
  from scan_digits [OF _ digits(1) this, of bu_0 0 "if ys = [] then [] else 46 # ys" 0 False] obtain c1 s1 where
    s1: "scan_state (digits_val 0 xs) c1 s1"
    and first: "parse_body body bu_0 0 False False 0 =
      parse_body (if ys = [] then [] else 46 # ys) c1 0 False (0 < digits_val 0 xs) s1"
    by (auto simp: scan_state_def body_def)
  have "digits_val (digits_val 0 xs) ys < 10 ^ 38" using all M by simp
  from scan_digits [OF s1 digits(2) this, of "[]" 0 True] all obtain c2 s2 where
    s2: "scan_state ?M c2 s2"
    and second: "parse_body ys c1 0 True (0 < digits_val 0 xs) s1 = Ok (Some (c2, d_s v, 0, 0 < ?M, s2))"
    using s by auto
  have "\<exists>c s3. scan_state ?M c s3 \<and> parse_body body bu_0 0 False False 0 = Ok (Some (c, d_s v, 0, 0 < ?M, s3))"
  proof (cases "ys = []")
    case True
    with first s1 all s show ?thesis by auto
  next
    case False
    with first second s2 show ?thesis by auto
  qed
  then obtain c s3 where c: "scan_state ?M c s3"
    and parsed: "parse_body body bu_0 0 False False 0 = Ok (Some (c, d_s v, 0, 0 < ?M, s3))" by blast
  have cm: "c = dec_mag v" using c by (simp add: scan_state_def bu_val_inject)
  have range: "0 \<le> d_s v" "\<not> d_s v > BDEC_MAX_SCALE" using ok by (simp_all add: dec_ok_def)
  have limit: "\<not> bu_cmp c dec_coeff_limit > 0" using M cm by (simp add: bu_cmp_val dec_coeff_limit_val)
  have "dec_set bu_0 False (d_s v) = v" if "?M = 0"
    using that by (intro bdec_eqI) (simp_all add: dec_int_def [of v])
  then show ?thesis
    unfolding dec_parse_text_def Let_def unfolding sign(3) unfolding sign(1) using parsed valid limit range dec_set_same [of v] cm by simp
qed

end
