(* ===== verification/Rt_Decimal_Div.thy ===== *)
theory Rt_Decimal_Div
  imports Rt_Decimal_Text
begin

unbundle bit_operations_syntax

text \<open>
  The long division of decimals stops after 39 digits; with the remainder they decide the nearest
  38-digit quotient.
\<close>

section \<open>Division\<close>

lemma powi_scale: "0 \<le> s \<Longrightarrow> y * 10 powi (- s) = y / (10 ^ nat s :: rat)"
  by (simp add: power_int_def field_simps)

lemma powi_grow: "s < 0 \<Longrightarrow> (10 powi (- s) :: rat) = 10 ^ nat (- s)"
  by (simp add: power_int_def)

lemma with_sign_cong: "y = z \<Longrightarrow> with_sign n y = with_sign n z"
  by simp

text \<open>A result of negative scale is written out with zeros, or needs too many digits.\<close>

lemma dec_finish_grow:
  assumes v: "wide_ok v" "0 < wide_val v" and s: "scale < 0"
  shows "10 ^ 38 \<le> wide_val v * 10 ^ nat (- scale) \<and> dec_finish v n scale mode line col = dec_overflow line col \<or>
    (\<exists>w. wide_ok w \<and> wide_val w = wide_val v * 10 ^ nat (- scale) \<and> wide_val w < 10 ^ 38 \<and>
      dec_finish v n scale mode line col = dec_finish w n 0 mode line col)"
proof -
  obtain d where d: "decw_digits v = int d" "has_digits d (wide_val v)" using decw_digits_val [OF v(1)] by blast
  have low: "10 ^ (d - 1) \<le> wide_val v" using d(2) v(2) by (auto simp: has_digits_def)
  have run: "dec_finish v n scale mode line col =
    rt_bind (if - scale > BDEC_PRECISION \<or> decw_digits v + - scale > BDEC_PRECISION then dec_overflow line col
       else rt_bind (decw_mul_pow10 v (- scale) line col) (\<lambda>v'. Ok (v', 0)))
      (\<lambda>(v1, scale1).
          let (v2, scale2) = strip_scale v1 scale1 in
          if scale2 > BDEC_MAX_SCALE then dec_overflow line col
          else rt_bind (round_to_precision v2 n scale2 mode line col) (\<lambda>(v3, scale3).
            rt_bind (decw_to128 v3 line col) (\<lambda>coefficient.
              if bu_cmp coefficient dec_coeff_limit > 0 then dec_overflow line col
              else Ok (dec_set coefficient n scale3))))"
    using v(2) s by (simp add: dec_finish_def decw_zero_val Let_def)
  show ?thesis
  proof (cases "- scale > 38 \<or> decw_digits v + - scale > 38")
    case True
    have "38 \<le> (d - 1) + nat (- scale)" using True d s by (auto simp: has_digits_def)
    then have "(10 :: nat) ^ 38 \<le> 10 ^ (d - 1 + nat (- scale))" by (intro power_increasing) auto
    also have "\<dots> \<le> wide_val v * 10 ^ nat (- scale)" using low by (simp add: power_add)
    finally have "10 ^ 38 \<le> wide_val v * 10 ^ nat (- scale)" .
    moreover have "dec_finish v n scale mode line col = dec_overflow line col"
      unfolding run using True by (simp add: dec_overflow_def)
    ultimately show ?thesis by blast
  next
    case False
    have "has_digits (d + nat (- scale)) (wide_val v * 10 ^ nat (- scale))" by (rule has_digits_times [OF d(2) v(2)])
    then have "wide_val v * 10 ^ nat (- scale) < 10 ^ (d + nat (- scale))" unfolding has_digits_def by blast
    also have "\<dots> \<le> 10 ^ 38" using False d s by (intro power_increasing) auto
    finally have small: "wide_val v * 10 ^ nat (- scale) < 10 ^ 38" .
    then have "10 ^ nat (- scale) * wide_val v < 2 ^ 512" by (simp add: mult.commute)
    then obtain w where w: "decw_mul_pow10 v (- scale) line col = Ok w" "wide_ok w" "wide_val w = wide_val v * 10 ^ nat (- scale)"
      using decw_mul_pow10_val [OF v(1), of "- scale" line col] False s by (auto simp: mult.commute)
    have "wide_val w \<noteq> 0" using w(3) v(2) by simp
    then have "dec_finish v n scale mode line col = dec_finish w n 0 mode line col"
      unfolding run dec_finish_unfold [OF order_refl \<open>wide_val w \<noteq> 0\<close>] using False w(1) by simp
    with w small show ?thesis by auto
  qed
qed

lemma dec_finish_outcome_any:
  assumes v: "wide_ok v"
  shows "dec_outcome (BDEC_MAX_SCALE < scale) (with_sign n (of_nat (wide_val v) * 10 powi (- scale))) line col
    (dec_finish v n scale BROUND_HALF_EVEN line col)"
proof (cases "0 \<le> scale")
  case True
  show ?thesis unfolding powi_scale [OF True] by (rule dec_finish_outcome [OF v True])
next
  case False
  then have s: "scale < 0" by simp
  show ?thesis
  proof (cases "wide_val v = 0")
    case True
    have "rounds_to 0 (dec_set bu_0 False 0)"
      using dec_set_small [of bu_0 False 0] by (intro rounds_to_exact) (simp_all add: dec_val_def)
    moreover have "dec_finish v n scale BROUND_HALF_EVEN line col = Ok (dec_set bu_0 False 0)"
      using True s by (simp add: dec_finish_def decw_zero_val)
    ultimately show ?thesis using True by (simp add: dec_outcome_Ok)
  next
    case nz: False
    from dec_finish_grow [OF v _ s, of n BROUND_HALF_EVEN line col] nz consider
      "10 ^ 38 \<le> wide_val v * 10 ^ nat (- scale)" "dec_finish v n scale BROUND_HALF_EVEN line col = dec_overflow line col"
      | w where "wide_ok w" "wide_val w = wide_val v * 10 ^ nat (- scale)"
        "dec_finish v n scale BROUND_HALF_EVEN line col = dec_finish w n 0 BROUND_HALF_EVEN line col" by blast
    then show ?thesis
    proof cases
      case 1
      have "(of_nat (10 ^ 38) :: rat) \<le> of_nat (wide_val v * 10 ^ nat (- scale))" using 1(1) by (simp only: of_nat_le_iff)
      then have "10 ^ 38 \<le> \<bar>with_sign n (of_nat (wide_val v) * 10 powi (- scale))\<bar>" by (simp add: powi_grow [OF s])
      moreover have "10 ^ 38 - 1 / 2 \<le> (10 ^ 38 :: rat)" by simp
      ultimately have "10 ^ 38 - 1 / 2 \<le> \<bar>with_sign n (of_nat (wide_val v) * 10 powi (- scale))\<bar>" by (rule order_trans [rotated])
      then show ?thesis unfolding 1(2) by (intro dec_outcome_overflow disjI1)
    next
      case 2
      have "of_nat (wide_val v) * 10 powi (- scale) = (of_nat (wide_val w) / 10 ^ nat 0 :: rat)"
        by (simp add: powi_grow [OF s] 2(2))
      with dec_finish_outcome [OF 2(1), of 0 n line col] s show ?thesis unfolding 2(3) by simp
    qed
  qed
qed

text \<open>Finishing a coefficient that is already rounded to 38 digits.\<close>

lemma near_in_units:
  fixes Y :: rat
  assumes "\<bar>of_nat c - Y\<bar> \<le> 1 / 2" "10 ^ 37 \<le> Y"
  shows "\<bar>of_nat c - Y\<bar> < Y - 10 ^ 37 + 1 / 10"
proof -
  have "\<bar>of_nat c - Y\<bar> \<le> \<bar>10 ^ 37 - Y\<bar>" using nearest_int(1) [of "int c" Y "10 ^ 37"] assms(1) by simp
  with assms(2) show ?thesis by linarith
qed

lemma strip_scale_ge: "strip_scale v scale = (w, s) \<Longrightarrow> BDEC_MAX_SCALE \<le> scale \<Longrightarrow> BDEC_MAX_SCALE \<le> s"
proof (induction v scale rule: strip_scale.induct)
  case (1 v scale)
  then show ?case by (cases "scale > BDEC_MAX_SCALE \<and> decw_mod10 v = 0") (auto simp: strip_scale.simps [of v])
qed

lemma round_carry_back:
  assumes v: "wide_ok v" "wide_val v = 10 ^ 38"
  shows "if scale < 1 then round_to_precision v n scale BROUND_HALF_EVEN line col = dec_overflow line col
    else \<exists>w. wide_ok w \<and> round_to_precision v n scale BROUND_HALF_EVEN line col = Ok (w, scale - 1) \<and> wide_val w = 10 ^ 37"
proof -
  have "half_even (10 ^ 38) (10 ^ 1) = 10 ^ 37" by (simp add: half_even_def)
  moreover have "(10 :: nat) ^ (37 + 1) \<le> wide_val v" "wide_val v < 10 ^ (38 + 1)" unfolding v(2) by simp_all
  ultimately show ?thesis using round_to_precision_big [OF v(1), of 1 scale n line col] v(2) by (auto split: if_splits)
qed

lemma dec_finish_near:
  fixes Y :: rat
  assumes v: "wide_ok v" "10 ^ 37 \<le> wide_val v" "wide_val v \<le> 10 ^ 38"
    and near: "\<bar>of_nat (wide_val v) - Y\<bar> \<le> 1 / 2" "\<bar>of_nat (wide_val v) - Y\<bar> = 1 / 2 \<Longrightarrow> even (wide_val v)"
    and Y: "10 ^ 37 \<le> Y"
  shows "dec_outcome (BDEC_MAX_SCALE < scale) (with_sign n (Y * 10 powi (- scale))) line col
    (dec_finish v n scale BROUND_HALF_EVEN line col)"
proof -
  have Y0: "0 \<le> Y" by (rule order_trans [OF _ Y]) simp
  have pos: "0 < wide_val v" using v(2) by (rule less_le_trans [rotated]) simp
  consider (neg) "scale < 0" | (small) "0 \<le> scale" "scale \<le> BDEC_MAX_SCALE" "wide_val v < 10 ^ 38"
    | (carry) "0 \<le> scale" "scale \<le> BDEC_MAX_SCALE" "wide_val v = 10 ^ 38" | (deep) "BDEC_MAX_SCALE < scale"
    using v(3) by linarith
  then show ?thesis
  proof cases
    case neg
    have "10 ^ 38 \<le> wide_val v * 10 ^ nat (- scale)"
    proof -
      have "(10 :: nat) ^ 38 = 10 ^ 37 * 10 ^ 1" by simp
      also have "\<dots> \<le> wide_val v * 10 ^ nat (- scale)" using neg v(2) by (intro mult_le_mono power_increasing) auto
      finally show ?thesis .
    qed
    with dec_finish_grow [OF v(1) pos neg, of n BROUND_HALF_EVEN line col]
    have run: "dec_finish v n scale BROUND_HALF_EVEN line col = dec_overflow line col" by linarith
    have "10 ^ 37 * 10 ^ 1 \<le> Y * 10 ^ nat (- scale)" using neg Y by (intro mult_mono power_increasing) (auto simp: Y0)
    then have "10 ^ 38 \<le> \<bar>with_sign n (Y * 10 powi (- scale))\<bar>"
      using Y0 by (simp add: powi_grow [OF neg] abs_mult)
    moreover have "10 ^ 38 - 1 / 2 \<le> (10 ^ 38 :: rat)" by simp
    ultimately have "10 ^ 38 - 1 / 2 \<le> \<bar>with_sign n (Y * 10 powi (- scale))\<bar>" by (rule order_trans [rotated])
    then show ?thesis unfolding run by (intro dec_outcome_overflow disjI1)
  next
    case small
    from dec_finish_exact [OF v(1) small(3,1,2), of n BROUND_HALF_EVEN line col] obtain m where
      m: "dec_finish v n scale BROUND_HALF_EVEN line col = Ok (dec_set m n scale)" "bu_val m = wide_val v" by blast
    have "rounds_to (with_sign n (Y / 10 ^ nat scale)) (dec_set m n scale)"
      using near_in_units [OF near(1) Y] near small(3) Y0 unfolding m(2) [symmetric]
      by (intro rounds_to_dec_set [OF _ small(1,2)]) auto
    then show ?thesis unfolding m(1) powi_scale [OF small(1)] by (rule dec_outcome_Ok)
  next
    case carry
    have strip: "strip_scale v scale = (v, scale)" using carry(2) by (simp add: strip_scale.simps)
    have unfold: "dec_finish v n scale BROUND_HALF_EVEN line col =
      rt_bind (round_to_precision v n scale BROUND_HALF_EVEN line col) (\<lambda>(v3, scale3).
       rt_bind (decw_to128 v3 line col) (\<lambda>coefficient.
         if bu_cmp coefficient dec_coeff_limit > 0 then dec_overflow line col
         else Ok (dec_set coefficient n scale3)))"
      using dec_finish_unfold [OF carry(1), of v n BROUND_HALF_EVEN line col] pos strip carry(2) by simp
    note rounded = round_carry_back [OF v(1) carry(3), of scale n line col]
    show ?thesis
    proof (cases "scale < 1")
      case True
      with carry(1) have z: "scale = 0" by simp
      have "10 ^ 38 - 1 / 2 \<le> Y" using near(1) unfolding carry(3) of_nat_power of_nat_numeral by linarith
      then have "10 ^ 38 - 1 / 2 \<le> \<bar>with_sign n (Y * 10 powi (- scale))\<bar>" using Y0 by (simp add: z)
      moreover have "dec_finish v n scale BROUND_HALF_EVEN line col = dec_overflow line col"
        unfolding unfold using rounded True by (simp add: dec_overflow_def)
      ultimately show ?thesis by (simp only: dec_outcome_overflow disj_not1 simp_thms)
    next
      case False
      with rounded obtain w where w: "wide_ok w" "wide_val w = 10 ^ 37"
        "round_to_precision v n scale BROUND_HALF_EVEN line col = Ok (w, scale - 1)" by auto
      have "wide_val w < 10 ^ 38" unfolding w(2) by simp
      from finish_store [OF w(1) this, of line col n "scale - 1"] obtain m where m: "bu_val m = wide_val w"
        "dec_finish v n scale BROUND_HALF_EVEN line col = Ok (dec_set m n (scale - 1))" unfolding unfold w(3) by auto
      have tenth: "\<bar>10 ^ 37 - Y / 10\<bar> \<le> 1 / 20" using near(1) carry_tenth [of Y] by (simp add: carry(3))
      have s: "0 \<le> scale - 1" "scale - 1 \<le> BDEC_MAX_SCALE" "nat scale = Suc (nat (scale - 1))" using False carry(2) by auto
      have "rounds_to (with_sign n (Y / 10 / 10 ^ nat (scale - 1))) (dec_set m n (scale - 1))"
        using tenth Y0 by (intro rounds_to_dec_set [OF _ s(1,2)]) (auto simp: m(1) w(2))
      moreover have "Y / 10 ^ nat scale = Y / 10 / 10 ^ nat (scale - 1)" unfolding s(3) by simp
      ultimately show ?thesis unfolding m(2) powi_scale [OF carry(1)] by (simp only: dec_outcome_Ok)
    qed
  next
    case deep
    obtain w t where strip: "strip_scale v scale = (w, t)" by fastforce
    have s0: "0 \<le> scale" using deep by simp
    from strip_scale_val [OF v(1) s0 strip] obtain j where w: "wide_ok w" "0 \<le> t"
      and j: "wide_val v = wide_val w * 10 ^ j" "scale = t + int j" by blast
    have ge: "BDEC_MAX_SCALE \<le> t" using strip_scale_ge [OF strip] deep by simp
    note unfold = dec_finish_unfold [of scale v n BROUND_HALF_EVEN line col, unfolded strip Let_def prod.case]
    show ?thesis
    proof (cases "t = BDEC_MAX_SCALE")
      case False
      with ge deep pos have "dec_finish v n scale BROUND_HALF_EVEN line col = dec_overflow line col"
        by (subst unfold) auto
      with deep show ?thesis by (simp add: dec_outcome_overflow)
    next
      case True
      with j(2) deep have "1 \<le> j" by linarith
      then have "wide_val w * 10 ^ 1 \<le> wide_val w * 10 ^ j" by (intro mult_le_mono2 power_increasing) auto
      also have "\<dots> \<le> 10 ^ 38" using v(3) unfolding j(1) .
      finally have small: "wide_val w < 10 ^ 38" by simp
      from finish_store [OF w(1) small, of line col n t] obtain m where m: "bu_val m = wide_val w"
        "dec_finish v n scale BROUND_HALF_EVEN line col = Ok (dec_set m n t)"
        using True deep pos round_to_precision_small [OF w(1) small] by (auto simp: unfold)
      have "of_nat (wide_val w) - Y / 10 ^ j = (of_nat (wide_val v) - Y) / 10 ^ j"
        unfolding j(1) by (simp add: diff_divide_distrib)
      then have "\<bar>of_nat (wide_val w) - Y / 10 ^ j\<bar> = \<bar>of_nat (wide_val v) - Y\<bar> / 10 ^ j" by (simp add: abs_divide)
      also have "\<dots> \<le> (1 / 2) / 10 ^ 1" using near(1) \<open>1 \<le> j\<close> by (intro frac_le power_increasing) auto
      finally have e: "\<bar>of_nat (wide_val w) - Y / 10 ^ j\<bar> \<le> 1 / 20" by simp
      have "rounds_to (with_sign n (Y / 10 ^ j / 10 ^ nat t)) (dec_set m n t)"
        using e small Y0 True by (intro rounds_to_dec_set) (auto simp: m(1))
      moreover have "Y / 10 ^ nat scale = Y / 10 ^ j / 10 ^ nat t"
        using j(2) w(2) by (simp add: nat_add_distrib power_add)
      moreover have "0 \<le> scale" using deep by simp
      ultimately show ?thesis unfolding m(2) powi_scale [OF \<open>0 \<le> scale\<close>] by (simp only: dec_outcome_Ok)
    qed
  qed
qed

text \<open>
  The state of the long division of \<open>A\<close> by \<open>B\<close>: with \<open>p\<close> zeros brought down the digits so far are the
  quotient, and the exponent of the first digit follows from their number.
\<close>

definition div_state :: "nat \<Rightarrow> nat \<Rightarrow> u32 list \<Rightarrow> bu128 \<Rightarrow> int \<Rightarrow> bool" where
  "div_state A B significant remainder ratio_exp \<longleftrightarrow>
     (\<exists>p. A * 10 ^ p = digits_nat 0 significant * B + bu_val remainder \<and>
        ratio_exp = int (length significant) - 1 - int p) \<and>
     bu_val remainder < B \<and> length significant \<le> 39 \<and>
     (significant = [] \<or> has_digits (length significant) (digits_nat 0 significant) \<and> 0 < digits_nat 0 significant) \<and>
     list_all (\<lambda>d. unat d < 10) significant"

lemma has_digits_snoc: "has_digits n v \<Longrightarrow> 0 < v \<Longrightarrow> d < 10 \<Longrightarrow> has_digits (Suc n) (v * 10 + d)"
  using has_digits_Suc [of "v * 10 + d" n] by simp

lemma div_loop_val:
  "div_state A (bu_val denominator) significant remainder ratio_exp \<Longrightarrow>
   \<exists>sig r e. div_loop denominator remainder significant ratio_exp line col = Ok (sig, r, e) \<and>
     div_state A (bu_val denominator) sig r e \<and> (length sig = 39 \<or> bu_val r = 0)"
proof (induction denominator remainder significant ratio_exp line col rule: div_loop.induct)
  case (1 denominator remainder significant ratio_exp line col)
  let ?B = "bu_val denominator"
  from "1.prems" obtain p where p: "A * 10 ^ p = digits_nat 0 significant * ?B + bu_val remainder"
    "ratio_exp = int (length significant) - 1 - int p" and less: "bu_val remainder < ?B" and len: "length significant \<le> 39"
    and lead: "significant = [] \<or> has_digits (length significant) (digits_nat 0 significant) \<and> 0 < digits_nat 0 significant"
    and tens: "list_all (\<lambda>d. unat d < 10) significant"
    unfolding div_state_def by blast
  note unfold = div_loop.simps [of denominator remainder significant ratio_exp line col]
  show ?case
  proof (cases "int (length significant) < BDEC_PRECISION + 1 \<and> \<not> bu_zero remainder")
    case False
    then have "length significant = 39 \<or> bu_val remainder = 0" using len by (auto simp: bu_zero_val)
    with False "1.prems" show ?thesis unfolding unfold by auto
  next
    case True
    have "10 * bu_val remainder < 2 ^ 512" using bu_val_less [of remainder] by simp
    then obtain w where w: "decw_mul10 (decw_from128 remainder) line col = Ok w" "wide_ok w"
      using decw_mul10_val [OF decw_from128_val(2), of remainder line col] by (auto simp: decw_from128_val)
    have "0 < wide_val (decw_from128 denominator)" using less by (simp add: decw_from128_val)
    then obtain rest digit where sub: "count_sub w (decw_from128 denominator) 0 = Ok (rest, digit)"
      using count_sub_total [OF decw_from128_val(2) w(2)] by blast
    have rest: "wide_ok rest" "wide_val rest < ?B"
      using count_sub_val [OF decw_from128_val(2) w(2) sub] by (simp_all add: decw_from128_val)
    then have "wide_val rest < 2 ^ 128" using bu_val_less [of denominator] by linarith
    then obtain r where r: "decw_to128 rest line col = Ok r"
      using decw_to128_val [OF rest(1), of line col] by auto
    from div_step_shrinks [OF w(1) sub r] obtain k where
      k: "bu_val r < ?B" "10 * bu_val remainder = k * ?B + bu_val r" "digit = of_nat k" by blast
    have "k * ?B < 10 * ?B" using k(2) less by linarith
    then have "k < 10" by simp
    then have digit: "unat digit = k" using k(3) by (simp add: unat_of_nat)
    have grown: "A * 10 ^ Suc p = (digits_nat 0 significant * 10 + k) * ?B + bu_val r"
    proof -
      have "A * 10 ^ Suc p = 10 * (digits_nat 0 significant * ?B + bu_val remainder)" using p(1) by simp
      also have "\<dots> = digits_nat 0 significant * 10 * ?B + (k * ?B + bu_val r)" using k(2) by simp
      finally show ?thesis by (simp add: algebra_simps)
    qed
    show ?thesis
    proof (cases "significant = [] \<and> digit = 0")
      case zero: True
      then have "k = 0" using digit by simp
      with grown zero have "A * 10 ^ Suc p = digits_nat 0 significant * ?B + bu_val r" by simp
      moreover have "ratio_exp - 1 = int (length significant) - 1 - int (Suc p)" using p(2) by simp
      ultimately have "div_state A ?B significant r (ratio_exp - 1)"
        unfolding div_state_def using k(1) len lead tens by blast
      from "1.IH"(1) [OF True w(1) sub refl r zero this] show ?thesis unfolding unfold using True w(1) sub r zero by simp
    next
      case more: False
      have "has_digits (length (significant @ [digit])) (digits_nat 0 (significant @ [digit])) \<and> 0 < digits_nat 0 (significant @ [digit])"
      proof (cases "significant = []")
        case True
        with more have "0 < k" using digit k(3) by (cases k) auto
        with True \<open>k < 10\<close> digit show ?thesis by (simp add: has_digits_def)
      next
        case False
        with lead \<open>k < 10\<close> digit show ?thesis by (auto intro: has_digits_snoc)
      qed
      moreover have "A * 10 ^ Suc p = digits_nat 0 (significant @ [digit]) * ?B + bu_val r" using grown digit by simp
      moreover have "ratio_exp = int (length (significant @ [digit])) - 1 - int (Suc p)" using p(2) by simp
      moreover have "length (significant @ [digit]) \<le> 39" using True by simp
      moreover have "list_all (\<lambda>d. unat d < 10) (significant @ [digit])" using tens digit \<open>k < 10\<close> by simp
      ultimately have "div_state A ?B (significant @ [digit]) r ratio_exp"
        unfolding div_state_def using k(1) by blast
      from "1.IH"(2) [OF True w(1) sub refl r more this] show ?thesis unfolding unfold using True w(1) sub r more by auto
    qed
  qed
qed

lemma kept_digits_val:
  "wide_ok kept \<Longrightarrow> digits_nat (wide_val kept) ds < 10 ^ 40 \<Longrightarrow>
   \<exists>w. kept_digits ds kept line col = Ok w \<and> wide_ok w \<and> wide_val w = digits_nat (wide_val kept) ds"
proof (induction ds arbitrary: kept)
  case (Cons d ds)
  have mono: "n \<le> digits_nat n ds" for n
  proof (induction ds arbitrary: n)
    case (Cons e es)
    have "n \<le> n * 10 + unat e" by simp
    also have "\<dots> \<le> digits_nat (n * 10 + unat e) es" by (rule Cons.IH)
    finally show ?case by simp
  qed simp
  have small: "wide_val kept * 10 + unat d < 10 ^ 40"
    using Cons.prems(2) mono [of "wide_val kept * 10 + unat d"] by simp
  then obtain w where w: "decw_mul10 kept line col = Ok w" "wide_ok w" "wide_val w = 10 * wide_val kept"
    using decw_mul10_val [OF Cons.prems(1), of line col] by (auto split: if_splits)
  have dv: "wide_val (decw_from128 \<lparr>bu_lo = ucast d, bu_hi = 0\<rparr>) = unat d"
    by (simp add: decw_from128_val bu_val_def unat_ucast_factor)
  have "wide_val w + unat d < 2 ^ 512" using small w(3) by simp
  then obtain u where u: "decw_add w (decw_from128 \<lparr>bu_lo = ucast d, bu_hi = 0\<rparr>) line col = Ok u" "wide_ok u"
      "wide_val u = wide_val kept * 10 + unat d"
    using decw_add_val [OF w(2) decw_from128_val(2) [of "\<lparr>bu_lo = ucast d, bu_hi = 0\<rparr>"], of line col] dv w(3) by auto
  with Cons.IH [OF u(2)] Cons.prems(2) w(1) show ?case by simp
qed simp

text \<open>The 39th digit and the remainder decide the rounding of the first 38.\<close>

lemma guard_fraction:
  fixes f :: rat
  assumes f: "0 \<le> f" "f < 1" and g: "unat guard = g" "g < 10"
    and odd: "decw_mod10 q mod 2 \<noteq> 0 \<longleftrightarrow> odd K" and zero: "f = 0 \<longleftrightarrow> \<not> sticky"
    and Y: "Y = of_nat K + (of_nat g + f) / 10"
  shows "\<exists>up. dec_should_increment guard sticky q n BROUND_HALF_EVEN = Ok up \<and>
    \<bar>of_nat (K + (if up then 1 else 0)) - Y\<bar> \<le> 1 / 2 \<and>
    (\<bar>of_nat (K + (if up then 1 else 0)) - Y\<bar> = 1 / 2 \<longrightarrow> even (K + (if up then 1 else 0)))"
proof -
  define up where "up = (guard > 5 \<or> (guard = 5 \<and> (sticky \<or> decw_mod10 q mod 2 \<noteq> 0)))"
  have run: "dec_should_increment guard sticky q n BROUND_HALF_EVEN = Ok up"
    by (simp add: dec_should_increment_def up_def)
  have up: "up \<longleftrightarrow> 5 < g \<or> g = 5 \<and> (sticky \<or> odd K)"
    unfolding up_def odd g(1) [symmetric] by (simp add: word_less_nat_alt word_unat_eq_iff)
  define G where "G = (of_nat g :: rat)"
  have G: "0 \<le> G" "G \<le> 9" "g \<le> 4 \<Longrightarrow> G \<le> 4" "g = 5 \<Longrightarrow> G = 5" "6 \<le> g \<Longrightarrow> 6 \<le> G"
    using g(2) of_nat_le_iff [of g 9, where 'a = rat] of_nat_le_iff [of g 4, where 'a = rat]
      of_nat_le_iff [of 6 g, where 'a = rat] by (simp_all add: G_def)
  have Y: "Y = of_nat K + (G + f) / 10" by (simp add: Y G_def)
  consider "g \<le> 4" | "g = 5" | "6 \<le> g" by linarith
  then have "\<bar>of_nat (K + (if up then 1 else 0)) - Y\<bar> \<le> 1 / 2 \<and>
    (\<bar>of_nat (K + (if up then 1 else 0)) - Y\<bar> = 1 / 2 \<longrightarrow> even (K + (if up then 1 else 0)))"
  proof cases
    case 1
    with up G f show ?thesis unfolding Y by (auto simp: abs_if)
  next
    case 2
    with up have u: "up \<longleftrightarrow> sticky \<or> odd K" by simp
    show ?thesis
    proof (cases sticky)
      case True
      with zero f have "0 < f" by simp
      with True u f G(4) [OF 2] show ?thesis unfolding Y by (auto simp: abs_if)
    next
      case False
      with zero have "f = 0" by simp
      with False u G(4) [OF 2] show ?thesis unfolding Y by auto
    qed
  next
    case 3
    with up G f show ?thesis unfolding Y by (auto simp: abs_if)
  qed
  with run show ?thesis by blast
qed


text \<open>Below this a quotient of 38 digits may need a scale over the limit.\<close>

definition decimal_tiny :: rat where
  "decimal_tiny = 1 / 10 ^ nat (BDEC_MAX_SCALE - 37)"

lemma tiny_bound:
  fixes Y :: rat
  assumes "nat scale = N + (38 + k)" "0 \<le> scale" "0 \<le> Y" "Y \<le> 10 ^ 38"
  shows "\<bar>with_sign n (Y * 10 powi (- scale))\<bar> \<le> 1 / 10 ^ N"
proof -
  have one: "Y / 10 ^ 38 \<le> 1" using assms(4) by simp
  have "\<bar>with_sign n (Y * 10 powi (- scale))\<bar> = Y / 10 ^ 38 / 10 ^ k / 10 ^ N"
    using assms(3) unfolding powi_scale [OF assms(2)] assms(1) by (simp add: power_add)
  also have "\<dots> \<le> 1 / 1 / 10 ^ N" using one by (intro divide_right_mono frac_le) auto
  finally show ?thesis by simp
qed

lemma tiny_scale:
  fixes Y :: rat
  assumes "BDEC_MAX_SCALE < scale" "0 \<le> Y" "Y \<le> 10 ^ 38"
  shows "\<bar>with_sign n (Y * 10 powi (- scale))\<bar> \<le> decimal_tiny"
proof -
  have "nat scale = nat (BDEC_MAX_SCALE - 37) + (38 + nat (scale - 65536))" "0 \<le> scale" using assms(1) by simp_all
  from tiny_bound [OF this assms(2,3)] show ?thesis unfolding decimal_tiny_def .
qed

lemma div_finish_exact:
  assumes D: "0 < D" "D < 10 ^ 38" and w: "wide_ok w" "wide_val w = D"
    and x: "x = with_sign n (of_nat D * 10 powi (- scale))"
  shows "dec_outcome (\<bar>x\<bar> \<le> decimal_tiny) x line col (dec_finish w n scale BROUND_HALF_EVEN line col)"
proof -
  have "of_nat D \<le> (of_nat (10 ^ 38) :: rat)" using D(2) by (simp only: of_nat_le_iff less_imp_le)
  then have "BDEC_MAX_SCALE < scale \<Longrightarrow> \<bar>x\<bar> \<le> decimal_tiny"
    unfolding x by (intro tiny_scale) simp_all
  with dec_finish_outcome_any [OF w(1), of scale n line col] show ?thesis
    unfolding x w(2) by (auto simp: dec_outcome_def split: rt.splits)
qed

lemma div_finish_near:
  fixes Y :: rat
  assumes v: "wide_ok v" "10 ^ 37 \<le> wide_val v" "wide_val v \<le> 10 ^ 38"
    and near: "\<bar>of_nat (wide_val v) - Y\<bar> \<le> 1 / 2" "\<bar>of_nat (wide_val v) - Y\<bar> = 1 / 2 \<Longrightarrow> even (wide_val v)"
    and Y: "10 ^ 37 \<le> Y" "Y \<le> 10 ^ 38" and x: "x = with_sign n (Y * 10 powi (- scale))"
  shows "dec_outcome (\<bar>x\<bar> \<le> decimal_tiny) x line col (dec_finish v n scale BROUND_HALF_EVEN line col)"
proof -
  have "0 \<le> Y" by (rule order_trans [OF _ Y(1)]) simp
  then have "BDEC_MAX_SCALE < scale \<Longrightarrow> \<bar>x\<bar> \<le> decimal_tiny"
    unfolding x using Y(2) by (intro tiny_scale) simp_all
  with dec_finish_near [OF v near Y(1), of scale n line col] show ?thesis
    unfolding x by (auto simp: dec_outcome_def split: rt.splits)
qed

lemma powi_parts: "10 powi (int i - int p - int j) = (10 ^ i / 10 ^ p / 10 ^ j :: rat)"
  by (simp add: power_int_diff)

lemma quotient_value:
  assumes a: "dec_ok a" and b: "dec_ok b" and B: "0 < bu_val (dec_mag b)"
    and p: "of_nat (bu_val (dec_mag a)) * 10 ^ p = (Z :: rat) * of_nat (bu_val (dec_mag b))"
  shows "dec_val a / dec_val b = with_sign (dec_negative a \<noteq> dec_negative b) (Z * 10 powi (- (int p + d_s a - d_s b)))"
proof -
  have ratio: "of_nat (bu_val (dec_mag a)) / of_nat (bu_val (dec_mag b)) = Z / 10 ^ p"
    using p B by (simp add: field_simps)
  have "dec_val a / dec_val b = with_sign (dec_negative a \<noteq> dec_negative b)
      (of_nat (bu_val (dec_mag a)) / of_nat (bu_val (dec_mag b)) * (10 ^ nat (d_s b) / 10 ^ nat (d_s a)))"
    unfolding dec_val_sign by (simp add: with_sign_def)
  then have "dec_val a / dec_val b = with_sign (dec_negative a \<noteq> dec_negative b) (Z / 10 ^ p * (10 ^ nat (d_s b) / 10 ^ nat (d_s a)))"
    unfolding ratio .
  moreover have e: "10 powi (- (int p + d_s a - d_s b)) = (10 ^ nat (d_s b) / 10 ^ p / 10 ^ nat (d_s a) :: rat)"
  proof -
    have "- (int p + d_s a - d_s b) = int (nat (d_s b)) - int p - int (nat (d_s a))" using a b by (simp add: dec_ok_def)
    then show ?thesis by (simp only: powi_parts)
  qed
  have "Z / 10 ^ p * (10 ^ nat (d_s b) / 10 ^ nat (d_s a)) = Z * 10 powi (- (int p + d_s a - d_s b))"
    unfolding e by simp
  ultimately show ?thesis by (simp only:)
qed

lemma decw_mod10_odd: "wide_ok q \<Longrightarrow> decw_mod10 q mod 2 \<noteq> 0 \<longleftrightarrow> odd (wide_val q)"
proof -
  assume "wide_ok q"
  then have "unat (decw_mod10 q mod 2) = wide_val q mod 10 mod 2" by (simp add: unat_mod decw_mod10_val)
  also have "\<dots> = wide_val q mod 2" by (simp add: mod_mod_cancel)
  finally show ?thesis by (metis odd_iff_mod_2_eq_one even_iff_mod_2_eq_zero unat_eq_0)
qed

text \<open>What the division does after the long division.\<close>

definition div_tail :: "bdec \<Rightarrow> bdec \<Rightarrow> int \<Rightarrow> int \<Rightarrow> u32 list \<Rightarrow> bu128 \<Rightarrow> int \<Rightarrow> bdec rt" where
  "div_tail a b line col significant remainder ratio_exp =
     (if significant = [] then Ok (dec_set bu_0 False 0)
      else
        let kept_count = (if int (length significant) < BDEC_PRECISION then int (length significant) else BDEC_PRECISION);
            negative = (dec_negative a \<noteq> dec_negative b) in
        rt_bind (kept_digits (take (nat kept_count) significant) (replicate BDEC_WIDE_LIMBS 0) line col) (\<lambda>kept.
        rt_bind
          (if int (length significant) > BDEC_PRECISION then
             rt_bind (dec_should_increment (significant ! nat BDEC_PRECISION) (\<not> bu_zero remainder) kept negative
                BROUND_HALF_EVEN) (\<lambda>up. if up then decw_increment kept line col else Ok kept)
           else Ok kept) (\<lambda>kept.
          let result_exp = ratio_exp + d_s b - d_s a;
              result_scale = kept_count - 1 - result_exp in
          dec_finish kept negative result_scale BROUND_HALF_EVEN line col)))"

lemma decv_div_unfold:
  assumes "\<not> dec_zero a" "\<not> dec_zero b" "bu_divmod (dec_mag a) (dec_mag b) = Some (q, r)" "length (quotient_digits q) \<le> 39"
  shows "beans_decv_div a b line col =
    rt_bind (div_loop (dec_mag b) r (quotient_digits q) (int (length (quotient_digits q)) - 1) line col)
      (\<lambda>(significant, remainder, ratio_exp). div_tail a b line col significant remainder ratio_exp)"
proof (cases "bu_zero q")
  case True
  then have "quotient_digits q = []" using quotient_digits_val [of q] by (simp add: bu_zero_val)
  with True assms show ?thesis unfolding beans_decv_div_def div_tail_def by (simp add: Let_def)
next
  case False
  with assms show ?thesis unfolding beans_decv_div_def div_tail_def by (simp add: Let_def)
qed

lemma zero_wide: "wide_ok (replicate 8 0)" "wide_val (replicate 8 0) = 0"
  by (simp_all add: wide_ok_def)

text \<open>All significant digits known: the quotient is exact.\<close>

lemma div_tail_exact:
  assumes a: "dec_ok a" and b: "dec_ok b" and B: "0 < bu_val (dec_mag b)" and A: "0 < bu_val (dec_mag a)"
    and st: "div_state (bu_val (dec_mag a)) (bu_val (dec_mag b)) sig r e" and len: "length sig \<le> 38" and r: "bu_val r = 0"
  shows "dec_outcome (\<bar>dec_val a / dec_val b\<bar> \<le> decimal_tiny) (dec_val a / dec_val b) line col (div_tail a b line col sig r e)"
proof -
  let ?D = "digits_nat 0 sig"
  obtain p where p: "bu_val (dec_mag a) * 10 ^ p = ?D * bu_val (dec_mag b)" "e = int (length sig) - 1 - int p"
    using st r unfolding div_state_def by auto
  have D: "0 < ?D" using p(1) A by (cases "?D = 0") auto
  then have sig: "sig \<noteq> []" "has_digits (length sig) ?D" using st by (auto simp: div_state_def)
  have "?D < 10 ^ length sig" using sig(2) by (simp add: has_digits_def)
  also have "\<dots> \<le> 10 ^ 38" using len by (intro power_increasing) auto
  finally have small: "?D < 10 ^ 38" .
  also have "(10 :: nat) ^ 38 < 10 ^ 40" by simp
  finally have "digits_nat (wide_val (replicate 8 0)) sig < 10 ^ 40" by simp
  from kept_digits_val [OF zero_wide(1) this, of line col] obtain w where
    w: "kept_digits sig (replicate 8 0) line col = Ok w" "wide_ok w" "wide_val w = ?D" by auto
  have "(of_nat (bu_val (dec_mag a)) * 10 ^ p :: rat) = of_nat (bu_val (dec_mag a) * 10 ^ p)" by simp
  also have "\<dots> = of_nat ?D * of_nat (bu_val (dec_mag b))" unfolding p(1) by simp
  finally have x: "dec_val a / dec_val b = with_sign (dec_negative a \<noteq> dec_negative b) (of_nat ?D * 10 powi (- (int p + d_s a - d_s b)))"
    by (rule quotient_value [OF a b B])
  have scale: "int (length sig) - 1 - (e + d_s b - d_s a) = int p + d_s a - d_s b" by (simp add: p(2))
  have count: "(if int (length sig) < 38 then int (length sig) else 38) = int (length sig)" "\<not> int (length sig) > 38"
    using len by auto
  have "div_tail a b line col sig r e =
    dec_finish w (dec_negative a \<noteq> dec_negative b) (int p + d_s a - d_s b) BROUND_HALF_EVEN line col"
    unfolding div_tail_def Let_def count(1) scale using sig(1) count(2) w(1) by simp
  with div_finish_exact [OF D small w(2,3) x] show ?thesis by simp
qed

text \<open>39 digits: the last one and the remainder round the others.\<close>

lemma div_tail_near:
  assumes a: "dec_ok a" and b: "dec_ok b" and B: "0 < bu_val (dec_mag b)"
    and st: "div_state (bu_val (dec_mag a)) (bu_val (dec_mag b)) sig r e" and len: "length sig = 39"
  shows "dec_outcome (\<bar>dec_val a / dec_val b\<bar> \<le> decimal_tiny) (dec_val a / dec_val b) line col (div_tail a b line col sig r e)"
proof -
  let ?K = "digits_nat 0 (take 38 sig)" and ?B = "of_nat (bu_val (dec_mag b)) :: rat"
  define g where "g = unat (sig ! 38)"
  have split: "sig = take 38 sig @ [sig ! 38]"
    using take_Suc_conv_app_nth [of 38 sig] take_all [of sig 39] len by simp
  have D: "digits_nat 0 sig = ?K * 10 + g" by (subst split) (simp add: g_def)
  have sig: "sig \<noteq> []" using len by auto
  with st len have "has_digits 39 (digits_nat 0 sig)" unfolding div_state_def by simp
  then have "10 ^ 38 \<le> digits_nat 0 sig" "digits_nat 0 sig < 10 ^ 39" by (simp_all add: has_digits_def)
  obtain p where p: "bu_val (dec_mag a) * 10 ^ p = digits_nat 0 sig * bu_val (dec_mag b) + bu_val r"
      "e = int (length sig) - 1 - int p" and r: "bu_val r < bu_val (dec_mag b)"
    using st unfolding div_state_def by blast
  have "list_all (\<lambda>d. unat d < 10) sig" using st by (simp add: div_state_def)
  then have g: "g < 10" using len by (simp add: g_def list_all_length)
  have K: "10 ^ 37 \<le> ?K" "?K < 10 ^ 38"
    using \<open>10 ^ 38 \<le> digits_nat 0 sig\<close> \<open>digits_nat 0 sig < 10 ^ 39\<close> D g by simp_all
  define f where "f = of_nat (bu_val r) / ?B"
  define Y where "Y = of_nat ?K + (of_nat g + f) / 10"
  have f: "0 \<le> f" "f < 1" "f = 0 \<longleftrightarrow> bu_zero r" using r B by (simp_all add: f_def bu_zero_val)
  have "(10 ^ 37 :: rat) \<le> of_nat ?K" "of_nat ?K + 1 \<le> (10 ^ 38 :: rat)"
    using of_nat_le_iff [of "10 ^ 37" ?K, where 'a = rat] of_nat_le_iff [of "?K + 1" "10 ^ 38", where 'a = rat] K by simp_all
  moreover have "0 \<le> (of_nat g + f) / 10" "(of_nat g + f) / 10 \<le> 1"
    using f g of_nat_le_iff [of g 9, where 'a = rat] by simp_all
  ultimately have Y: "10 ^ 37 \<le> Y" "Y \<le> 10 ^ 38" unfolding Y_def by linarith+
  have "(of_nat (bu_val (dec_mag a)) * 10 ^ p :: rat) = of_nat (bu_val (dec_mag a) * 10 ^ p)" by simp
  also have "\<dots> = (of_nat ?K * 10 + of_nat g) * ?B + of_nat (bu_val r)" unfolding p(1) D by simp
  also have "\<dots> = 10 * Y * ?B" using B by (simp add: Y_def f_def field_simps)
  finally have "dec_val a / dec_val b =
      with_sign (dec_negative a \<noteq> dec_negative b) (10 * Y * 10 powi (- (int p + d_s a - d_s b)))"
    by (rule quotient_value [OF a b B])
  moreover have "10 * Y * 10 powi (- (int p + d_s a - d_s b)) = Y * 10 powi (- (int p - 1 + d_s a - d_s b))"
    using power_int_add_1 [of "10 :: rat" "- (int p + d_s a - d_s b)"] by (simp add: algebra_simps)
  ultimately have x: "dec_val a / dec_val b =
      with_sign (dec_negative a \<noteq> dec_negative b) (Y * 10 powi (- (int p - 1 + d_s a - d_s b)))" by (simp only:)
  have scale: "37 - (e + d_s b - d_s a) = int p - 1 + d_s a - d_s b" using len by (simp add: p(2))
  have "digits_nat (wide_val (replicate 8 0)) (take 38 sig) < 10 ^ 40" using K(2) by (simp add: zero_wide(2))
  from kept_digits_val [OF zero_wide(1) this, of line col] obtain w where
    w: "kept_digits (take 38 sig) (replicate 8 0) line col = Ok w" "wide_ok w" "wide_val w = ?K" by (auto simp: zero_wide(2))
  have "decw_mod10 w mod 2 \<noteq> 0 \<longleftrightarrow> odd ?K" using decw_mod10_odd [OF w(2)] w(3) by simp
  from guard_fraction [OF f(1,2) g_def [symmetric] g this _ Y_def, of "\<not> bu_zero r" "dec_negative a \<noteq> dec_negative b"] f(3)
  obtain up where up: "dec_should_increment (sig ! 38) (\<not> bu_zero r) w (dec_negative a \<noteq> dec_negative b) BROUND_HALF_EVEN = Ok up"
    and near: "\<bar>of_nat (?K + (if up then 1 else 0)) - Y\<bar> \<le> 1 / 2"
      "\<bar>of_nat (?K + (if up then 1 else 0)) - Y\<bar> = 1 / 2 \<Longrightarrow> even (?K + (if up then 1 else 0))" by blast
  from increment_small [OF w(2), of up line col] K(2) w(3) obtain v where
    v: "(if up then decw_increment w line col else Ok w) = Ok v" "wide_ok v" "wide_val v = ?K + (if up then 1 else 0)" by auto
  have "div_tail a b line col sig r e =
    dec_finish v (dec_negative a \<noteq> dec_negative b) (int p - 1 + d_s a - d_s b) BROUND_HALF_EVEN line col"
    using sig len w(1) up v(1) by (simp add: div_tail_def Let_def scale)
  moreover have "10 ^ 37 \<le> wide_val v" "wide_val v \<le> 10 ^ 38" using K v(3) by simp_all
  ultimately show ?thesis using div_finish_near [OF v(2) _ _ near [folded v(3)] Y x, of line col] by simp
qed


lemma decv_div_outcome:
  assumes a: "dec_ok a" and b: "dec_ok b" and nz: "\<not> dec_zero a" "\<not> dec_zero b"
  shows "dec_outcome (\<bar>dec_val a / dec_val b\<bar> \<le> decimal_tiny) (dec_val a / dec_val b) line col (beans_decv_div a b line col)"
proof -
  let ?A = "bu_val (dec_mag a)" and ?B = "bu_val (dec_mag b)"
  have pos: "0 < ?A" "0 < ?B" using nz by (simp_all add: dec_zero_val)
  obtain q r where d: "bu_divmod (dec_mag a) (dec_mag b) = Some (q, r)" "bu_val q = ?A div ?B" "bu_val r = ?A mod ?B"
    using bu_divmod_val [OF pos(2), of "dec_mag a"] by blast
  let ?ds = "quotient_digits q"
  note ds = quotient_digits_val [of q]
  have len: "length ?ds \<le> 38"
  proof (cases "bu_val q = 0")
    case False
    then have has: "has_digits (length ?ds) (bu_val q)" using ds by simp
    have "bu_val q \<le> ?A" using d(2) by simp
    then have q: "bu_val q < 10 ^ 38" using a by (simp add: dec_ok_def)
    show ?thesis
    proof (rule ccontr)
      assume more: "\<not> length ?ds \<le> 38"
      then have "(10 :: nat) ^ 38 \<le> 10 ^ (length ?ds - 1)" by (intro power_increasing) auto
      also have "\<dots> \<le> bu_val q" using has more by (auto simp: has_digits_def)
      finally show False using q by simp
    qed
  qed (use ds in simp)
  have "?A * 10 ^ 0 = digits_nat 0 ?ds * ?B + bu_val r" using ds d(2,3) by simp
  moreover have "int (length ?ds) - 1 = int (length ?ds) - 1 - int 0" by simp
  moreover have "?ds = [] \<or> has_digits (length ?ds) (digits_nat 0 ?ds) \<and> 0 < digits_nat 0 ?ds" using ds by auto
  moreover have "bu_val r < ?B" "length ?ds \<le> 39" using pos(2) d(3) len by auto
  ultimately have "div_state ?A ?B ?ds r (int (length ?ds) - 1)" unfolding div_state_def using ds by blast
  from div_loop_val [OF this, of line col] obtain sig r' e where
    run: "div_loop (dec_mag b) r ?ds (int (length ?ds) - 1) line col = Ok (sig, r', e)"
    and st: "div_state ?A ?B sig r' e" and stop: "length sig = 39 \<or> bu_val r' = 0" by blast
  have unfold: "beans_decv_div a b line col = div_tail a b line col sig r' e"
    using decv_div_unfold [OF nz d(1), of line col] len run by simp
  have "length sig \<le> 39" using st by (simp add: div_state_def)
  with stop consider "length sig = 39" | "length sig \<le> 38" "bu_val r' = 0" by linarith
  then show ?thesis
  proof cases
    case 1
    show ?thesis unfolding unfold by (rule div_tail_near [OF a b pos(2) st 1])
  next
    case 2
    show ?thesis unfolding unfold by (rule div_tail_exact [OF a b pos(2,1) st 2])
  qed
qed

lemma decv_div_zero:
  assumes "dec_ok a" "dec_ok b" "dec_zero a" "\<not> dec_zero b"
  shows "\<exists>r. beans_decv_div a b line col = Ok r \<and> dec_ok r \<and> dec_int r = 0 \<and> d_s r = max 0 (d_s a - d_s b)"
proof -
  have "beans_decv_div a b line col = Ok (dec_set bu_0 False (max 0 (d_s a - d_s b)))"
    using assms by (simp add: beans_decv_div_def max_def)
  moreover have "dec_ok (dec_set bu_0 False (max 0 (d_s a - d_s b)))"
    using dec_set_small(3) [of bu_0 False] assms(1,2) by (simp add: dec_ok_def [of a] dec_ok_def [of b])
  ultimately show ?thesis by simp
qed

end
