(* ===== verification/Rt_Decimal_Round.thy ===== *)
theory Rt_Decimal_Round
  imports Rt_Decimal_Div
begin

unbundle bit_operations_syntax

text \<open>
  Rounding to a number of places in the five modes, and the properties of the decimal type.
\<close>

section \<open>Rounding to a number of places\<close>

text \<open>The five modes on an exact value: the integer a value in units of the last place becomes.\<close>

definition half_even_int :: "rat \<Rightarrow> int" where
  "half_even_int y =
     (let f = \<lfloor>y\<rfloor> in if y - of_int f < 1 / 2 \<or> y - of_int f = 1 / 2 \<and> even f then f else f + 1)"

definition round_to_int :: "int \<Rightarrow> rat \<Rightarrow> int" where
  "round_to_int mode y =
     (if mode = BROUND_FLOOR then \<lfloor>y\<rfloor>
      else if mode = BROUND_CEIL then \<lceil>y\<rceil>
      else
        let m = (if mode = BROUND_HALF_EVEN then half_even_int \<bar>y\<bar>
                 else if mode = BROUND_HALF_AWAY then \<lfloor>\<bar>y\<bar> + 1 / 2\<rfloor> else \<lfloor>\<bar>y\<bar>\<rfloor>) in
        if y < 0 then - m else m)"

text \<open>The same on a magnitude given as a fraction of natural numbers.\<close>

definition round_mag :: "int \<Rightarrow> bool \<Rightarrow> nat \<Rightarrow> nat \<Rightarrow> nat" where
  "round_mag mode n V P =
     (if mode = BROUND_HALF_EVEN then half_even V P
      else if mode = BROUND_HALF_AWAY then V div P + (if P \<le> 2 * (V mod P) then 1 else 0)
      else if mode = BROUND_TOWARD_ZERO then V div P
      else V div P + (if (mode = BROUND_FLOOR \<longleftrightarrow> n) \<and> V mod P \<noteq> 0 then 1 else 0))"

lemma fraction_parts:
  assumes "0 < P"
  shows "\<lfloor>of_nat V / of_nat P :: rat\<rfloor> = int (V div P)"
    and "(of_nat V / of_nat P :: rat) - of_int (int (V div P)) = of_nat (V mod P) / of_nat P"
proof -
  show "\<lfloor>of_nat V / of_nat P :: rat\<rfloor> = int (V div P)" by (rule floor_divide_of_nat_eq)
  have "of_nat V = (of_nat (V div P) * of_nat P + of_nat (V mod P) :: rat)"
    by (metis div_mult_mod_eq of_nat_add of_nat_mult)
  then show "(of_nat V / of_nat P :: rat) - of_int (int (V div P)) = of_nat (V mod P) / of_nat P"
    using assms by (simp add: field_simps)
qed

lemma floor_half: "0 \<le> r \<Longrightarrow> r < 1 \<Longrightarrow> \<lfloor>of_int K + r + 1 / 2\<rfloor> = K + (if 1 / 2 \<le> r then 1 else 0)" for r :: rat
  by (auto simp: floor_eq_iff)

lemma round_mag_val:
  assumes P: "0 < P" and mode: "mode \<in> {0, 1, 2, 3, 4}" and n: "n \<longrightarrow> 0 < V"
  shows "round_to_int mode (with_sign n (of_nat V / of_nat P)) = (if n then - int (round_mag mode n V P) else int (round_mag mode n V P))"
proof -
  let ?y = "of_nat V / of_nat P :: rat" and ?r = "of_nat (V mod P) / of_nat P :: rat"
  have fl: "\<lfloor>?y\<rfloor> = int (V div P)" and fr: "?y - of_int (int (V div P)) = ?r" using fraction_parts [OF P] by auto
  have p: "(0 :: rat) < of_nat P" using P by simp
  have y: "?y = of_int (int (V div P)) + ?r" using fr by simp
  have r: "0 \<le> ?r" "?r < 1" using P by (simp_all add: field_simps)
  have half: "?r < 1 / 2 \<longleftrightarrow> 2 * (V mod P) < P" "?r = 1 / 2 \<longleftrightarrow> 2 * (V mod P) = P"
  proof -
    have "?r < 1 / 2 \<longleftrightarrow> (of_nat (2 * (V mod P)) :: rat) < of_nat P" using p by (simp add: field_simps)
    then show "?r < 1 / 2 \<longleftrightarrow> 2 * (V mod P) < P" by (simp only: of_nat_less_iff)
    have "?r = 1 / 2 \<longleftrightarrow> (of_nat (2 * (V mod P)) :: rat) = of_nat P" using p by (auto simp: field_simps)
    then show "?r = 1 / 2 \<longleftrightarrow> 2 * (V mod P) = P" by (simp only: of_nat_eq_iff)
  qed
  have zero: "?r = 0 \<longleftrightarrow> V mod P = 0" using P by (simp del: of_nat_mod)
  have neg: "with_sign n ?y < 0 \<longleftrightarrow> n" using n P by (auto simp: with_sign_def zero_less_divide_iff divide_less_0_iff)
  have even: "half_even_int ?y = int (half_even V P)"
    unfolding half_even_int_def Let_def fl fr half half_even_def by auto
  have away: "\<lfloor>?y + 1 / 2\<rfloor> = int (V div P) + (if P \<le> 2 * (V mod P) then 1 else 0)"
  proof -
    have "P \<le> 2 * (V mod P) \<longleftrightarrow> 1 / 2 \<le> ?r" using half(1) by linarith
    then show ?thesis using floor_half [OF r, of "int (V div P)"] unfolding y by simp
  qed
  have ceiling: "\<lceil>?y\<rceil> = int (V div P) + (if V mod P \<noteq> 0 then 1 else 0)"
    using r zero unfolding y by (auto simp: ceiling_eq_iff)
  have abs: "\<bar>with_sign n ?y\<bar> = ?y" by simp
  consider "mode = 0" | "mode = 1" | "mode = 2" | "mode = 3" | "mode = 4" using mode by auto
  then show ?thesis
  proof cases
    case 1
    then show ?thesis unfolding round_to_int_def Let_def abs neg by (simp add: even round_mag_def)
  next
    case 2
    then show ?thesis unfolding round_to_int_def Let_def abs neg away by (simp add: round_mag_def)
  next
    case 3
    then show ?thesis unfolding round_to_int_def Let_def abs neg fl by (simp add: round_mag_def)
  next
    case 4
    have "\<lfloor>- ?y\<rfloor> = - \<lceil>?y\<rceil>" by (simp add: ceiling_def)
    with 4 show ?thesis unfolding round_to_int_def round_mag_def with_sign_def by (simp add: fl ceiling)
  next
    case 5
    have "\<lceil>- ?y\<rceil> = - \<lfloor>?y\<rfloor>" by (simp add: ceiling_def)
    with 5 show ?thesis unfolding round_to_int_def round_mag_def with_sign_def by (simp add: fl ceiling)
  qed
qed

text \<open>The guard digit and the sticky bit decide every mode.\<close>

lemma round_step_modes:
  assumes "wide_ok v" "0 < k" "drop_digits k v False 0 = (q, sticky, guard)" and mode: "mode \<in> {0, 1, 2, 3, 4}"
  shows "wide_ok q" "wide_val q = wide_val v div 10 ^ k"
    and "\<exists>up. dec_should_increment guard sticky q n mode = Ok up \<and>
      round_mag mode n (wide_val v) (10 ^ k) = wide_val q + (if up then 1 else 0)"
proof -
  note half = round_step_val [OF assms(1-3)]
  show "wide_ok q" "wide_val q = wide_val v div 10 ^ k" using half(1,2) by simp_all
  obtain m where k: "k = Suc m" using assms(2) by (cases k) auto
  note d = drop_digits_val [OF assms(1) assms(3) [unfolded k]]
  note gs = guard_sticky [OF d(3)]
  have rest: "wide_val v mod 10 ^ Suc m = 0 \<longleftrightarrow> unat guard = 0 \<and> wide_val v mod 10 ^ m = 0"
  proof -
    have "wide_val v mod 10 ^ Suc m = 10 ^ m * unat guard + wide_val v mod 10 ^ m"
      using mod_mult2_eq [of "wide_val v" "10 ^ m" 10] by (simp add: d(3) mult.commute)
    then show ?thesis by simp
  qed
  have sticky: "sticky \<longleftrightarrow> wide_val v mod 10 ^ m \<noteq> 0" using d(4) by simp
  have g: "guard \<ge> 5 \<longleftrightarrow> 5 < unat guard \<or> unat guard = 5" "guard \<noteq> 0 \<longleftrightarrow> unat guard \<noteq> 0"
    by (auto simp: word_le_nat_alt word_unat_eq_iff)
  have away: "10 ^ Suc m \<le> 2 * (wide_val v mod 10 ^ Suc m) \<longleftrightarrow> guard \<ge> 5"
    unfolding g using gs by auto
  have some: "wide_val v mod 10 ^ Suc m \<noteq> 0 \<longleftrightarrow> guard \<noteq> 0 \<or> sticky" unfolding g(2) rest sticky by (simp only: de_Morgan_conj)
  consider "mode = 0" | "mode \<in> {1, 2, 3, 4}" using mode by auto
  then show "\<exists>up. dec_should_increment guard sticky q n mode = Ok up \<and>
      round_mag mode n (wide_val v) (10 ^ k) = wide_val q + (if up then 1 else 0)"
  proof cases
    case 1
    with half(3) [of n] show ?thesis by (auto simp: round_mag_def)
  next
    case 2
    then show ?thesis unfolding k round_mag_def half(2) [unfolded k, symmetric] away some dec_should_increment_def by auto
  qed
qed

text \<open>What rounding to \<open>places\<close> places answers: the rounded value with that scale, or overflow.\<close>

definition round_outcome :: "int \<Rightarrow> int \<Rightarrow> rat \<Rightarrow> int \<Rightarrow> int \<Rightarrow> bdec rt \<Rightarrow> bool" where
  "round_outcome mode places x line col res \<longleftrightarrow>
     (let y = of_int (round_to_int mode (x * 10 powi places)) * 10 powi (- places) in
      case res of
        Ok r \<Rightarrow> dec_ok r \<and> dec_val r = y \<and> d_s r = max 0 places
      | Panic m l c \<Rightarrow> m = asc ''decimal overflow'' \<and> l = line \<and> c = col \<and> 10 ^ 38 \<le> \<bar>y\<bar>
      | Fault \<Rightarrow> False)"

lemma dec_finish_too_big:
  assumes "wide_ok v" "10 ^ 38 \<le> wide_val v"
  shows "dec_finish v n 0 mode line col = dec_overflow line col"
proof -
  have pos: "wide_val v \<noteq> 0" using assms(2) by auto
  have "\<not> decw_digits v \<le> 38" using decw_digits_le [OF assms(1), of 38] assms(2) by simp
  then have "round_to_precision v n 0 mode line col = dec_overflow line col"
    by (simp add: round_to_precision_def Let_def)
  then show ?thesis using dec_finish_unfold [OF order_refl pos] by (simp add: strip_scale.simps dec_overflow_def)
qed

text \<open>Writing the rounded coefficient back.\<close>

definition round_tail :: "decw \<Rightarrow> bool \<Rightarrow> int \<Rightarrow> int \<Rightarrow> int \<Rightarrow> int \<Rightarrow> bdec rt" where
  "round_tail w n places mode line col =
     (if places < 0 then
        rt_bind (decw_mul_pow10 w (- places) line col) (\<lambda>wide. dec_finish wide n 0 mode line col)
      else dec_finish w n places mode line col)"

lemma round_tail_val:
  assumes w: "wide_ok w" "wide_val w < 10 ^ 38" and p: "- 38 \<le> places" "places \<le> BDEC_MAX_SCALE"
  shows "if wide_val w * 10 ^ nat (- places) < 10 ^ 38
    then \<exists>m. round_tail w n places mode line col = Ok (dec_set m n (max 0 places)) \<and> bu_val m = wide_val w * 10 ^ nat (- places)
    else round_tail w n places mode line col = dec_overflow line col"
proof (cases "places < 0")
  case True
  have "10 ^ nat (- places) * wide_val w \<le> 10 ^ 38 * 10 ^ 38" using p w(2) by (intro mult_le_mono power_increasing) auto
  also have "\<dots> < (2 :: nat) ^ 512" by simp
  finally obtain u where u: "decw_mul_pow10 w (- places) line col = Ok u" "wide_ok u"
    "wide_val u = wide_val w * 10 ^ nat (- places)"
    using decw_mul_pow10_val [OF w(1), of "- places" line col] True p by (auto simp: mult.commute)
  show ?thesis
  proof (cases "wide_val u < 10 ^ 38")
    case small: True
    from dec_finish_exact [OF u(2) small, of 0 n mode line col] u True small [unfolded u(3)] show ?thesis by (auto simp: round_tail_def)
  next
    case False
    with dec_finish_too_big [OF u(2), of n mode line col] u True show ?thesis by (simp add: round_tail_def)
  qed
next
  case False
  then have "max 0 places = places" "0 \<le> places" by simp_all
  with dec_finish_exact [OF w, of places n mode line col] p w(2) show ?thesis by (auto simp: round_tail_def)
qed

lemma round_tail_outcome:
  assumes w: "wide_ok w" "wide_val w < 10 ^ 38" and p: "- 38 \<le> places" "places \<le> BDEC_MAX_SCALE"
    and R: "round_to_int mode (x * 10 powi places) = (if n then - int (wide_val w) else int (wide_val w))"
  shows "round_outcome mode places x line col (round_tail w n places mode line col)"
proof -
  let ?W = "wide_val w * 10 ^ nat (- places)"
  have y: "of_int (round_to_int mode (x * 10 powi places)) * 10 powi (- places) =
      with_sign n (of_nat ?W / 10 ^ nat (max 0 places))"
  proof (cases "places < 0")
    case True
    then show ?thesis unfolding R powi_grow [OF True] by (simp add: with_sign_def max_def)
  next
    case False
    then show ?thesis unfolding R using powi_scale [of places "1 :: rat"] by (simp add: with_sign_def max_def)
  qed
  show ?thesis
  proof (cases "?W < 10 ^ 38")
    case True
    with round_tail_val [OF w p, of n mode line col] obtain m where
      m: "round_tail w n places mode line col = Ok (dec_set m n (max 0 places))" "bu_val m = ?W" by auto
    have "bu_val m < 10 ^ 38" using True m(2) by simp
    note r = dec_set_small [OF this, of n "max 0 places"]
    have "dec_val (dec_set m n (max 0 places)) = with_sign n (of_nat ?W / 10 ^ nat (max 0 places))"
      unfolding dec_val_def r(2) dec_set_scale m(2) by simp
    moreover have "dec_ok (dec_set m n (max 0 places))" using r(3) p by simp
    ultimately show ?thesis unfolding round_outcome_def y Let_def m(1) by simp
  next
    case False
    with round_tail_val [OF w p, of n mode line col]
    have run: "round_tail w n places mode line col = dec_overflow line col" by simp
    have neg: "max 0 places = 0"
    proof (rule ccontr)
      assume "max 0 places \<noteq> 0"
      then have "nat (- places) = 0" by simp
      with False w(2) show False by simp
    qed
    have "of_nat (10 ^ 38) \<le> (of_nat ?W :: rat)" using False by (simp only: of_nat_le_iff not_less)
    then have "10 ^ 38 \<le> \<bar>with_sign n (of_nat ?W / 10 ^ nat (max 0 places))\<bar>" unfolding neg by simp
    then show ?thesis unfolding round_outcome_def y Let_def run dec_overflow_def by simp
  qed
qed

lemma round_mag_small:
  assumes "2 * V < P" "mode \<in> {0, 1, 2, 3, 4}"
  shows "round_mag mode n V P = (if (mode = 3 \<and> n \<or> mode = 4 \<and> \<not> n) \<and> V \<noteq> 0 then 1 else 0)"
  using assms by (auto simp: round_mag_def half_even_def)

lemma value_at_places:
  assumes "dec_ok v" "places < d_s v"
  shows "dec_val v * 10 powi places = with_sign (dec_negative v) (of_nat (bu_val (dec_mag v)) / of_nat (10 ^ nat (d_s v - places)))"
proof -
  have "(10 :: rat) powi places = 10 powi (int (nat (d_s v)) - int (nat (d_s v - places)) - int 0)"
    using assms by (simp add: dec_ok_def)
  also have "\<dots> = 10 ^ nat (d_s v) / 10 ^ nat (d_s v - places) / 10 ^ 0" by (rule powi_parts)
  finally show ?thesis unfolding dec_val_sign by simp
qed


lemma decv_round_outcome:
  assumes v: "dec_ok v" and places: "places < d_s v" and mode: "mode \<in> {0, 1, 2, 3, 4}"
    and zero: "\<not> (mode = BROUND_CEIL \<and> dec_zero v)"
  shows "round_outcome mode places (dec_val v) line col (beans_decv_round v places mode line col)"
proof -
  let ?M = "bu_val (dec_mag v)" and ?n = "dec_negative v"
  define k where "k = nat (d_s v - places)"
  have k: "0 < k" "int k = d_s v - places" using places by (simp_all add: k_def)
  have M: "?M < 10 ^ 38" and s: "0 \<le> d_s v" "d_s v \<le> BDEC_MAX_SCALE" using v by (simp_all add: dec_ok_def)
  have n: "?n \<longrightarrow> 0 < ?M" using dec_negative_nonzero by blast
  have R: "round_to_int mode (dec_val v * 10 powi places) =
      (if ?n then - int (round_mag mode ?n ?M (10 ^ k)) else int (round_mag mode ?n ?M (10 ^ k)))"
    unfolding value_at_places [OF v places] k_def [symmetric] by (rule round_mag_val [OF _ mode n]) simp
  have small: "2 * ?M < 10 ^ k" if "has_digits d ?M" "d < k" for d
  proof -
    have "?M < 10 ^ d" using that(1) by (simp add: has_digits_def)
    also have "(10 :: nat) ^ d \<le> 10 ^ (k - 1)" using that(2) by (intro power_increasing) auto
    finally have "10 * ?M < 10 * 10 ^ (k - 1)" by simp
    also have "\<dots> = (10 :: nat) ^ k" using k(1) by (metis power_Suc Suc_diff_1)
    finally show ?thesis by simp
  qed
  obtain d where d: "decw_digits (decw_from128 (dec_mag v)) = int d" "has_digits d ?M"
    using decw_digits_val [OF decw_from128_val(2), of "dec_mag v"] by (auto simp: decw_from128_val)
  obtain d' where "has_digits d' ?M" "d' \<le> 38" using dec_exponent_val [OF v] by blast
  with d(2) has_digits_unique have "d \<le> 38" by blast
  have tail: "round_outcome mode places (dec_val v) line col (round_tail w ?n places mode line col)"
    if "wide_ok w" "wide_val w = round_mag mode ?n ?M (10 ^ k)" "wide_val w < 10 ^ 38" "- 38 \<le> places" for w
    using that places s(2) R by (intro round_tail_outcome) auto
  have none: "round_outcome mode places (dec_val v) line col (Ok (dec_set bu_0 False (max 0 places)))"
    if "round_mag mode ?n ?M (10 ^ k) = 0"
  proof -
    have "round_to_int mode (dec_val v * 10 powi places) = 0" unfolding R that by simp
    then show ?thesis using places s dec_set_small(3) [of bu_0 False "max 0 places"]
      by (simp add: round_outcome_def Let_def dec_val_def)
  qed
  have away: "round_mag mode ?n ?M (10 ^ k) = (if mode = 3 \<and> ?n \<or> mode = 4 \<and> \<not> ?n then 1 else 0)" if "2 * ?M < 10 ^ k"
    using round_mag_small [OF that mode, of ?n] zero n by (auto simp: dec_zero_val)
  consider (far) "places < - 38" | (over) "- 38 \<le> places" "d < k" | (near) "- 38 \<le> places" "k \<le> d" by linarith
  then show ?thesis
  proof cases
    case far
    then have "d < k" using k(2) s(1) \<open>d \<le> 38\<close> by linarith
    note one = away [OF small [OF d(2) this]]
    show ?thesis
    proof (cases "mode = 3 \<and> ?n \<or> mode = 4 \<and> \<not> ?n")
      case False
      then have "beans_decv_round v places mode line col = Ok (dec_set bu_0 False 0)"
        using places far by (auto simp: beans_decv_round_def)
      with none one False far show ?thesis by simp
    next
      case True
      then have run: "beans_decv_round v places mode line col = dec_overflow line col"
        using places far zero by (auto simp: beans_decv_round_def)
      have "\<bar>of_int (round_to_int mode (dec_val v * 10 powi places)) * 10 powi (- places)\<bar> = (10 ^ nat (- places) :: rat)"
        unfolding R one using True far powi_grow [of places] by auto
      moreover have "(10 :: rat) ^ 38 \<le> 10 ^ nat (- places)" using far by (intro power_increasing) auto
      ultimately show ?thesis unfolding run round_outcome_def Let_def dec_overflow_def by simp
    qed
  next
    case over
    note one = away [OF small [OF d(2) over(2)]]
    have gt: "d_s v - places > int d" using over(2) k(2) by linarith
    show ?thesis
    proof (cases "mode = 3 \<and> ?n \<or> mode = 4 \<and> \<not> ?n")
      case False
      then have "beans_decv_round v places mode line col = Ok (dec_set bu_0 False (max 0 places))"
        using places over(1) gt d(1) by (auto simp: beans_decv_round_def Let_def max_def)
      with none one False show ?thesis by simp
    next
      case True
      have "beans_decv_round v places mode line col = round_tail (decw_from128 bu_1) ?n places mode line col"
        using True places over(1) gt d(1) unfolding beans_decv_round_def round_tail_def Let_def by auto
      with tail [of "decw_from128 bu_1"] one True over(1) show ?thesis by (simp add: decw_from128_val)
    qed
  next
    case near
    have le: "\<not> d_s v - places > int d" using near(2) k(2) by linarith
    obtain q sticky guard where drop: "drop_digits k (decw_from128 (dec_mag v)) False 0 = (q, sticky, guard)"
      by (cases "drop_digits k (decw_from128 (dec_mag v)) False 0") auto
    note step = round_step_modes [OF decw_from128_val(2) k(1) drop mode, unfolded decw_from128_val(1)]
    from step(3) [of ?n] obtain up where up: "dec_should_increment guard sticky q ?n mode = Ok up"
      and mag: "round_mag mode ?n ?M (10 ^ k) = wide_val q + (if up then 1 else 0)" by blast
    have "?M div 10 ^ k \<le> ?M div 10 ^ 1" using k(1) by (intro div_le_mono2 power_increasing) auto
    then have q: "wide_val q + 1 < 10 ^ 38" using step(2) M by simp
    then have "wide_val q < 10 ^ 38" by simp
    from increment_small [OF step(1) this, of up line col] obtain w where
      w: "(if up then decw_increment q line col else Ok q) = Ok w" "wide_ok w" "wide_val w = wide_val q + (if up then 1 else 0)"
      by auto
    have "beans_decv_round v places mode line col = round_tail w ?n places mode line col"
      using places near(1) le d(1) drop up w(1) unfolding beans_decv_round_def round_tail_def Let_def k_def [symmetric] by simp
    moreover have "wide_val w < 10 ^ 38" using w(3) q by simp
    ultimately show ?thesis using tail [OF w(2) _ _ near(1)] w(3) mag by simp
  qed
qed

section \<open>Properties\<close>

text \<open>Small decimals, for concrete runs.\<close>

lemma small_decimal:
  assumes "unat n < 10 ^ 19" "0 \<le> s" "s \<le> BDEC_MAX_SCALE"
  shows "dec_int \<lparr>d_lo = n, d_hi = 0, d_s = s\<rparr> = int (unat n)" "dec_ok \<lparr>d_lo = n, d_hi = 0, d_s = s\<rparr>"
    "dec_val \<lparr>d_lo = n, d_hi = 0, d_s = s\<rparr> = of_nat (unat n) / 10 ^ nat s"
proof -
  show i: "dec_int \<lparr>d_lo = n, d_hi = 0, d_s = s\<rparr> = int (unat n)"
    by (simp add: dec_int_def dec_mag_def dec_negative_def bu_val_def)
  have "unat n < 10 ^ 38" using assms(1) by simp
  then have "int (unat n) < int (10 ^ 38)" by (simp only: of_nat_less_iff)
  with assms(2,3) show "dec_ok \<lparr>d_lo = n, d_hi = 0, d_s = s\<rparr>" by (simp add: dec_ok_int i)
  show "dec_val \<lparr>d_lo = n, d_hi = 0, d_s = s\<rparr> = of_nat (unat n) / 10 ^ nat s" by (simp add: dec_val_def i)
qed

lemma dec_outcome_exact:
  assumes "dec_outcome excused (dec_val d) line col res" "dec_ok d" "\<not> excused"
  shows "\<exists>r. res = Ok r \<and> dec_val r = dec_val d"
proof -
  have "\<bar>dec_int d\<bar> \<le> 10 ^ 38 - 1" using assms(2) by (simp add: dec_ok_int)
  then have int: "(of_int \<bar>dec_int d\<bar> :: rat) \<le> of_int (10 ^ 38 - 1)" by (simp only: of_int_le_iff)
  have "\<bar>dec_val d\<bar> = of_int \<bar>dec_int d\<bar> / 10 ^ nat (d_s d)" by (simp add: dec_val_def)
  also have "\<dots> \<le> of_int \<bar>dec_int d\<bar> / 1" by (intro divide_left_mono) auto
  finally have "\<not> 10 ^ 38 - 1 / 2 \<le> \<bar>dec_val d\<bar>" using int by simp
  with assms(1,3) obtain r where "res = Ok r" "rounds_to (dec_val d) r"
    by (cases res) (auto simp: dec_outcome_def)
  moreover from this(2) have "\<bar>dec_val r - dec_val d\<bar> \<le> \<bar>dec_val d - dec_val d\<bar>"
    using assms(2) unfolding rounds_to_def by blast
  ultimately show ?thesis by simp
qed

lemma decimal_tiny_small: "decimal_tiny \<le> 1 / 10"
proof -
  have "(1 :: rat) / 10 ^ N \<le> 1 / 10 ^ 1" if "1 \<le> N" for N using that by (intro frac_le power_increasing) auto
  moreover have "1 \<le> nat (BDEC_MAX_SCALE - 37)" by simp
  ultimately show ?thesis unfolding decimal_tiny_def power_one_right by blast
qed

text \<open>C12. Addition and subtraction are correctly rounded: the answer is the decimal nearest to the exact
  sum, the even one of two equally near ones, also when one operand is too small to matter and when
  the leading digits cancel; the only panic is overflow, and only for a sum whose rounding would need
  39 digits before the point.\<close>

theorem decimal_sums_are_nearest:
  assumes "dec_ok a" "dec_ok b"
  shows "dec_outcome False (dec_val a + dec_val b) line col (beans_decv_add a b line col) \<and>
    dec_outcome False (dec_val a - dec_val b) line col (beans_decv_sub a b line col)"
proof
  show "dec_outcome False (dec_val a + dec_val b) line col (beans_decv_add a b line col)"
    by (rule decv_add_outcome [OF assms])
  from decv_neg_ok [OF assms(2)] decv_add_outcome [OF assms(1), of "beans_decv_neg b" line col]
  show "dec_outcome False (dec_val a - dec_val b) line col (beans_decv_sub a b line col)"
    by (simp add: beans_decv_sub_def)
qed

theorem decimal_sums_are_nearest_witness:
  "(\<exists>r. beans_decv_add \<lparr>d_lo = 125, d_hi = 0, d_s = 2\<rparr> \<lparr>d_lo = 5, d_hi = 0, d_s = 1\<rparr> 3 4 = Ok r \<and> dec_val r = 7 / 4) \<and>
   (\<exists>r. beans_decv_sub \<lparr>d_lo = 125, d_hi = 0, d_s = 2\<rparr> \<lparr>d_lo = 5, d_hi = 0, d_s = 1\<rparr> 3 4 = Ok r \<and> dec_val r = 3 / 4)"
proof -
  note a = small_decimal [of 125 2] and b = small_decimal [of 5 1] and c = small_decimal [of 175 2] and d = small_decimal [of 75 2]
  have ok: "dec_ok \<lparr>d_lo = 125, d_hi = 0, d_s = 2\<rparr>" "dec_ok \<lparr>d_lo = 5, d_hi = 0, d_s = 1\<rparr>"
    "dec_ok \<lparr>d_lo = 175, d_hi = 0, d_s = 2\<rparr>" "dec_ok \<lparr>d_lo = 75, d_hi = 0, d_s = 2\<rparr>" using a b c d by simp_all
  have eq: "dec_val \<lparr>d_lo = 125, d_hi = 0, d_s = 2\<rparr> + dec_val \<lparr>d_lo = 5, d_hi = 0, d_s = 1\<rparr> = dec_val \<lparr>d_lo = 175, d_hi = 0, d_s = 2\<rparr>"
    "dec_val \<lparr>d_lo = 125, d_hi = 0, d_s = 2\<rparr> - dec_val \<lparr>d_lo = 5, d_hi = 0, d_s = 1\<rparr> = dec_val \<lparr>d_lo = 75, d_hi = 0, d_s = 2\<rparr>"
    "dec_val \<lparr>d_lo = 175, d_hi = 0, d_s = 2\<rparr> = 7 / 4" "dec_val \<lparr>d_lo = 75, d_hi = 0, d_s = 2\<rparr> = 3 / 4"
    using a b c d by simp_all
  note s = decimal_sums_are_nearest [OF ok(1,2), of 3 4, unfolded eq(1,2)]
  from dec_outcome_exact [OF conjunct1 [OF s] ok(3)] dec_outcome_exact [OF conjunct2 [OF s] ok(4)] eq(3,4)
  show ?thesis by simp
qed

text \<open>C26. Multiplication is correctly rounded while the scales add up to at most 65535: the nearest decimal,
  ties to even, and overflow only for a product that needs 39 digits before the point. A product that
  fits 38 digits is exact, and its scale is the sum of the scales. Beyond that scale the answer, if
  there is one, is still the nearest decimal.\<close>

theorem decimal_product_is_nearest:
  assumes "dec_ok a" "dec_ok b"
  shows "dec_outcome (BDEC_MAX_SCALE < d_s a + d_s b) (dec_val a * dec_val b) line col (beans_decv_mul a b line col) \<and>
    (\<bar>dec_int a * dec_int b\<bar> < 10 ^ 38 \<and> d_s a + d_s b \<le> BDEC_MAX_SCALE \<longrightarrow>
      (\<exists>r. beans_decv_mul a b line col = Ok r \<and> dec_int r = dec_int a * dec_int b \<and> d_s r = d_s a + d_s b))"
  using decv_mul_outcome [OF assms] by blast

theorem decimal_product_is_nearest_witness:
  "\<exists>r. beans_decv_mul \<lparr>d_lo = 125, d_hi = 0, d_s = 2\<rparr> \<lparr>d_lo = 4, d_hi = 0, d_s = 1\<rparr> 3 4 = Ok r \<and> dec_int r = 500 \<and> d_s r = 3"
proof -
  have "dec_ok \<lparr>d_lo = 125, d_hi = 0, d_s = 2\<rparr>" "dec_ok \<lparr>d_lo = 4, d_hi = 0, d_s = 1\<rparr>"
    "dec_int \<lparr>d_lo = 125, d_hi = 0, d_s = 2\<rparr> = 125" "dec_int \<lparr>d_lo = 4, d_hi = 0, d_s = 1\<rparr> = 4"
    using small_decimal [of 125 2] small_decimal [of 4 1] by simp_all
  with decimal_product_is_nearest [OF this(1,2), of 3 4] show ?thesis by simp
qed

text \<open>C13. Division is correctly rounded although it stops after 39 digits: the nearest decimal, ties to
  even. It panics for a zero divisor, for a quotient that needs 39 digits before the point, and may
  for one so small that its digits lie beyond the largest scale. A zero dividend gives zero with the
  difference of the scales.\<close>

theorem decimal_quotient_is_nearest:
  assumes "dec_ok a" "dec_ok b"
  shows "if dec_zero b then beans_decv_div a b line col = Panic (asc ''divide by zero'') line col
    else if dec_zero a then \<exists>r. beans_decv_div a b line col = Ok r \<and> dec_ok r \<and> dec_int r = 0 \<and> d_s r = max 0 (d_s a - d_s b)
    else dec_outcome (\<bar>dec_val a / dec_val b\<bar> \<le> decimal_tiny) (dec_val a / dec_val b) line col (beans_decv_div a b line col)"
proof -
  have "dec_zero b \<Longrightarrow> beans_decv_div a b line col = Panic (asc ''divide by zero'') line col" by (simp add: beans_decv_div_def)
  with decv_div_outcome [OF assms, of line col] decv_div_zero [OF assms, of line col] show ?thesis by simp
qed

theorem decimal_quotient_is_nearest_witness:
  "\<exists>r. beans_decv_div \<lparr>d_lo = 1, d_hi = 0, d_s = 0\<rparr> \<lparr>d_lo = 8, d_hi = 0, d_s = 0\<rparr> 3 4 = Ok r \<and> dec_val r = 1 / 8"
proof -
  let ?one = "\<lparr>d_lo = 1, d_hi = 0, d_s = 0\<rparr>" and ?eight = "\<lparr>d_lo = 8, d_hi = 0, d_s = 0\<rparr>" and ?d = "\<lparr>d_lo = 125, d_hi = 0, d_s = 3\<rparr>"
  have ok: "dec_ok ?one" "dec_ok ?eight" "dec_ok ?d" and v: "dec_val ?one / dec_val ?eight = dec_val ?d" "dec_val ?d = 1 / 8"
    and nz: "\<not> dec_zero ?one" "\<not> dec_zero ?eight"
    using small_decimal [of 1 0] small_decimal [of 8 0] small_decimal [of 125 3] by (simp_all add: dec_zero_def)
  have "\<not> \<bar>dec_val ?d\<bar> \<le> decimal_tiny" using decimal_tiny_small unfolding v(2) by simp
  with decimal_quotient_is_nearest [OF ok(1,2), of 3 4, unfolded v(1)] nz
  have "dec_outcome False (dec_val ?d) 3 4 (beans_decv_div ?one ?eight 3 4)" by simp
  from dec_outcome_exact [OF this ok(3)] v(2) show ?thesis by simp
qed



text \<open>Rounding a zero up to fewer places than its scale answers one unit of the last place: the
  branch for more digits than the coefficient has treats every non-negative value as positive, where
  the branch for very negative places excludes zero. So \<^verbatim>\<open>0.000\<close> rounded up to one place is \<^verbatim>\<open>0.1\<close>.\<close>

theorem ceil_of_zero_is_one_unit:
  assumes "dec_ok v" "dec_zero v" "0 \<le> places" "places + 1 < d_s v"
  shows "\<exists>r. beans_decv_round v places BROUND_CEIL line col = Ok r \<and> dec_int r = 1 \<and> d_s r = places"
proof -
  have zero: "wide_val (decw_from128 (dec_mag v)) = 0" "\<not> dec_negative v"
    using assms(2) dec_negative_nonzero [of v] by (auto simp: decw_from128_val dec_zero_val)
  then have "decw_digits (decw_from128 (dec_mag v)) = 1" by (simp add: decw_digits_def decw_zero_val)
  then have run: "beans_decv_round v places BROUND_CEIL line col =
      dec_finish (decw_from128 bu_1) False places BROUND_CEIL line col"
    using assms(3,4) zero(2) by (simp add: beans_decv_round_def Let_def)
  have "places \<le> BDEC_MAX_SCALE" using assms(1,4) by (simp add: dec_ok_def)
  with dec_finish_exact [OF decw_from128_val(2) _ assms(3), of bu_1 False BROUND_CEIL line col] obtain m where
    m: "dec_finish (decw_from128 bu_1) False places BROUND_CEIL line col = Ok (dec_set m False places)" "bu_val m = 1"
    by (auto simp: decw_from128_val)
  with dec_set_small(1) [of m False places] run show ?thesis by simp
qed

theorem ceil_of_zero_is_one_unit_witness:
  "\<exists>r. beans_decv_round \<lparr>d_lo = 0, d_hi = 0, d_s = 3\<rparr> 1 BROUND_CEIL 3 4 = Ok r \<and> dec_val r = 1 / 10"
  using ceil_of_zero_is_one_unit [of "\<lparr>d_lo = 0, d_hi = 0, d_s = 3\<rparr>" 1 3 4] small_decimal [of 0 3]
  by (auto simp: dec_zero_def dec_val_def)

text \<open>C15. Comparison is the order of the values whatever the scales, it never panics, and decimals that
  compare equal hash equal.\<close>

theorem decimal_order_follows_value:
  assumes "dec_ok a" "dec_ok b"
  shows "beans_dec_cmp a b = Ok (if dec_val a < dec_val b then -1 else if dec_val a = dec_val b then 0 else 1) \<and>
    (beans_dec_cmp a b = Ok 0 \<longrightarrow> beans_dec_hash a = beans_dec_hash b)"
  using dec_cmp_val [OF assms] dec_hash_val [OF assms] by (auto simp: order_of_def)

theorem decimal_order_follows_value_witness:
  "beans_dec_cmp \<lparr>d_lo = 250, d_hi = 0, d_s = 2\<rparr> \<lparr>d_lo = 25, d_hi = 0, d_s = 1\<rparr> = Ok 0 \<and>
   beans_dec_hash \<lparr>d_lo = 250, d_hi = 0, d_s = 2\<rparr> = beans_dec_hash \<lparr>d_lo = 25, d_hi = 0, d_s = 1\<rparr>"
  using decimal_order_follows_value [of "\<lparr>d_lo = 250, d_hi = 0, d_s = 2\<rparr>" "\<lparr>d_lo = 25, d_hi = 0, d_s = 1\<rparr>"]
    small_decimal [of 250 2] small_decimal [of 25 1] by simp

text \<open>C16. Printing and reading a decimal gives it back with its scale, for every scale; the writes stay
  inside the digit and output buffers, and the only other outcome is the panic for a refused
  allocation, which needs a scale above 61.\<close>

theorem decimal_text_roundtrip:
  assumes "dec_ok v"
  shows "case beans_dec_str alloc v of
      Ok t \<Rightarrow> beans_str_to_decimal t = Ok (Inr v)
    | Panic m _ _ \<Rightarrow> m = asc ''decimal too large to print'' \<and> (\<exists>n. \<not> alloc n) \<and> 61 < d_s v
    | Fault \<Rightarrow> False"
proof -
  obtain xs ys where d: "xs \<noteq> []" "list_all is_digit (xs @ ys)" "digits_val 0 (xs @ ys) = bu_val (dec_mag v)" "int (length ys) = d_s v"
    and out: "beans_dec_str alloc v = Ok (dec_text (dec_negative v) xs ys) \<or>
     beans_dec_str alloc v = Panic (asc ''decimal too large to print'') 0 0 \<and> (\<exists>n. \<not> alloc n) \<and> 61 < d_s v"
    using dec_str_text [OF assms, of alloc] by blast
  from parse_dec_text [OF assms d] out show ?thesis by (auto simp: beans_str_to_decimal_def)
qed

theorem decimal_text_roundtrip_witness:
  "\<exists>t. beans_dec_str (\<lambda>_. True) \<lparr>d_lo = 5, d_hi = 0, d_s = 2\<rparr> = Ok t \<and>
     beans_str_to_decimal t = Ok (Inr \<lparr>d_lo = 5, d_hi = 0, d_s = 2\<rparr>)"
  using decimal_text_roundtrip [of "\<lparr>d_lo = 5, d_hi = 0, d_s = 2\<rparr>" "\<lambda>_. True"] small_decimal [of 5 2]
  by (auto split: rt.splits)

text \<open>
  The scale of an exact quotient is the difference of the scales whenever the divisor's coefficient
  divides the dividend's, trailing zeros included: \<^verbatim>\<open>1.00 / 1\<close> is \<^verbatim>\<open>1.00\<close>.
\<close>

lemma divisible_quotient_keeps_scale:
  assumes a: "dec_ok a" and b: "dec_ok b" and nz: "\<not> dec_zero a" "\<not> dec_zero b"
    and dvd: "dec_int b dvd dec_int a" and s: "d_s b \<le> d_s a"
  shows "\<exists>r. beans_decv_div a b line col = Ok r \<and> dec_int r = dec_int a div dec_int b \<and> d_s r = d_s a - d_s b"
proof -
  let ?A = "bu_val (dec_mag a)" and ?B = "bu_val (dec_mag b)" and ?n = "dec_negative a \<noteq> dec_negative b"
  have pos: "0 < ?A" "0 < ?B" using nz by (simp_all add: dec_zero_val)
  have "int ?B dvd int ?A" using dvd unfolding abs_dec_int [symmetric] by simp
  then have "?B dvd ?A" by (simp only: int_dvd_int_iff)
  then have mod0: "?A mod ?B = 0" by simp
  obtain q r where d: "bu_divmod (dec_mag a) (dec_mag b) = Some (q, r)" "bu_val q = ?A div ?B" "bu_val r = ?A mod ?B"
    using bu_divmod_val [OF pos(2), of "dec_mag a"] by blast
  have A: "?A = ?A div ?B * ?B" using mod0 by auto
  then have q0: "0 < bu_val q" using d(2) pos(1) by (metis mult_zero_left neq0_conv)
  have "bu_val q \<le> ?A" using d(2) by simp
  then have small: "bu_val q < 10 ^ 38" using a by (simp add: dec_ok_def)
  let ?ds = "quotient_digits q"
  note ds = quotient_digits_val [of q]
  have len: "length ?ds \<le> 38" "?ds \<noteq> []"
  proof -
    have has: "has_digits (length ?ds) (bu_val q)" using ds q0 by simp
    then show "?ds \<noteq> []" by (auto simp: has_digits_def)
    show "length ?ds \<le> 38"
    proof (rule ccontr)
      assume more: "\<not> length ?ds \<le> 38"
      then have "(10 :: nat) ^ 38 \<le> 10 ^ (length ?ds - 1)" by (intro power_increasing) auto
      also have "\<dots> \<le> bu_val q" using has more by (auto simp: has_digits_def)
      finally show False using small by simp
    qed
  qed
  have "bu_zero r" using d(3) mod0 by (simp add: bu_zero_val)
  then have loop: "div_loop (dec_mag b) r ?ds (int (length ?ds) - 1) line col = Ok (?ds, r, int (length ?ds) - 1)"
    by (simp add: div_loop.simps [of "dec_mag b" r])
  have "digits_nat (wide_val (replicate 8 0)) ?ds < 10 ^ 40" using ds small by simp
  from kept_digits_val [OF zero_wide(1) this, of line col] obtain w where
    w: "kept_digits ?ds (replicate 8 0) line col = Ok w" "wide_ok w" "wide_val w = bu_val q" using ds by auto
  have count: "(if int (length ?ds) < 38 then int (length ?ds) else 38) = int (length ?ds)" "\<not> int (length ?ds) > 38"
    using len by auto
  have scale: "int (length ?ds) - 1 - (int (length ?ds) - 1 + d_s b - d_s a) = d_s a - d_s b" by simp
  have tail: "div_tail a b line col ?ds r (int (length ?ds) - 1) = dec_finish w ?n (d_s a - d_s b) BROUND_HALF_EVEN line col"
    unfolding div_tail_def Let_def count(1) scale using len(2) count(2) w(1) by simp
  have sc: "0 \<le> d_s a - d_s b" "d_s a - d_s b \<le> BDEC_MAX_SCALE" using a b s by (auto simp: dec_ok_def)
  have "wide_val w < 10 ^ 38" using small w(3) by simp
  from dec_finish_exact [OF w(2) this sc, of ?n BROUND_HALF_EVEN line col] obtain m where
    m: "dec_finish w ?n (d_s a - d_s b) BROUND_HALF_EVEN line col = Ok (dec_set m ?n (d_s a - d_s b))" "bu_val m = bu_val q"
    using w(3) by auto
  have "beans_decv_div a b line col = Ok (dec_set m ?n (d_s a - d_s b))"
    using decv_div_unfold [OF nz d(1), of line col] len(1) loop tail m(1) by simp
  moreover have "dec_int (dec_set m ?n (d_s a - d_s b)) = dec_int a div dec_int b"
  proof -
    have "dec_int (dec_set m ?n (d_s a - d_s b)) = (if ?n then - int (?A div ?B) else int (?A div ?B))"
      using dec_set_small(1) [of m] small m(2) d(2) by simp
    moreover have "int ?A mod int ?B = 0" unfolding of_nat_mod [symmetric] mod0 by simp
    ultimately show ?thesis by (auto simp: dec_int_def zdiv_int zdiv_zminus1_eq_if zdiv_zminus2_eq_if)
  qed
  ultimately show ?thesis by simp
qed

lemma drop_fraction_val: "bu_val (drop_fraction n m) = bu_val m div 10 ^ n"
proof (induction n arbitrary: m)
  case (Suc n)
  obtain q r where d: "bu_div_small m 10 = Some (q, r)" "bu_val q = bu_val m div 10"
    using bu_div_small_val [of 10 m] by auto
  show ?case
  proof (cases "bu_zero m")
    case False
    with d Suc.IH [of q] show ?thesis by (simp add: div_mult2_eq)
  qed (simp add: bu_zero_val)
qed simp

text \<open>The whole part of a decimal, toward zero.\<close>

definition whole_part :: "rat \<Rightarrow> int" where
  "whole_part x = (if x < 0 then \<lceil>x\<rceil> else \<lfloor>x\<rfloor>)"

lemma whole_part_dec:
  "whole_part (dec_val v) = (if dec_negative v then - int (bu_val (dec_mag v) div 10 ^ nat (d_s v))
     else int (bu_val (dec_mag v) div 10 ^ nat (d_s v)))"
proof -
  have fl: "\<lfloor>of_nat (bu_val (dec_mag v)) / 10 ^ nat (d_s v) :: rat\<rfloor> = int (bu_val (dec_mag v) div 10 ^ nat (d_s v))"
    using fraction_parts(1) [of "10 ^ nat (d_s v)" "bu_val (dec_mag v)"] by simp
  have neg: "dec_val v < 0 \<longleftrightarrow> dec_negative v" by (simp add: dec_val_def dec_negative_int divide_less_0_iff)
  show ?thesis
  proof (cases "dec_negative v")
    case True
    then have "dec_val v = - (of_nat (bu_val (dec_mag v)) / 10 ^ nat (d_s v))" unfolding dec_val_sign with_sign_def by simp
    with True neg fl show ?thesis unfolding whole_part_def by (simp add: ceiling_minus)
  next
    case False
    then have "dec_val v = of_nat (bu_val (dec_mag v)) / 10 ^ nat (d_s v)" unfolding dec_val_sign with_sign_def by simp
    with False neg fl show ?thesis unfolding whole_part_def by simp
  qed
qed

lemma bu_lo_val: "bu_lo m = of_nat (bu_val m)"
proof -
  have "(18446744073709551616 :: u64) = 0" by simp
  then have "18446744073709551616 * w = 0" for w :: u64 by (metis mult_zero_left)
  then show ?thesis unfolding bu_val_def by (simp add: of_nat_power)
qed

text \<open>C29. A decimal becomes the integer that is its whole part, cut to 64 bits, and every 64-bit integer
  becomes the decimal of its value and comes back.\<close>

theorem decimal_int_conversions:
  assumes "dec_ok v" "i64_ok x"
  shows "beans_dec_to_int v = sint (word_of_int (whole_part (dec_val v)) :: u64) \<and>
    (i64_ok (whole_part (dec_val v)) \<longrightarrow> beans_dec_to_int v = whole_part (dec_val v)) \<and>
    dec_ok (beans_dec_from_int x) \<and> dec_val (beans_dec_from_int x) = of_int x \<and> beans_dec_to_int (beans_dec_from_int x) = x"
proof -
  have to: "beans_dec_to_int v = sint (word_of_int (whole_part (dec_val v)) :: u64)" for v
    unfolding whole_part_dec beans_dec_to_int_def Let_def bu_lo_val drop_fraction_val by simp
  have same: "sint (word_of_int y :: u64) = y" if "i64_ok y" for y
    using that by (simp add: i64_ok_def sint_sbintrunc' signed_take_bit_int_eq_self)
  let ?m = "\<lparr>bu_lo = (if x < 0 then 0 - u64_of x else u64_of x), bu_hi = 0\<rparr>"
  have mag: "int (bu_val ?m) = \<bar>x\<bar>"
  proof -
    have r: "- (2 ^ 63) \<le> x" "x < 2 ^ 63" using assms(2) by (simp_all add: i64_ok_def)
    have "(if x < 0 then 0 - u64_of x else u64_of x) = word_of_int \<bar>x\<bar>" by (simp add: u64_of_def)
    moreover have "int (unat (word_of_int \<bar>x\<bar> :: u64)) = \<bar>x\<bar>" using r by (simp add: unsigned_of_int take_bit_int_eq_self)
    ultimately show ?thesis by (simp add: bu_val_def)
  qed
  have "int (bu_val ?m) < int (10 ^ 38)" unfolding mag using assms(2) by (auto simp: i64_ok_def abs_less_iff)
  then have "bu_val ?m < 10 ^ 38" by (simp only: of_nat_less_iff)
  note s = dec_set_small [OF this, of "x < 0" 0]
  have eq: "beans_dec_from_int x = dec_set ?m (x < 0) 0" by (simp add: beans_dec_from_int_def Let_def)
  have int: "dec_int (beans_dec_from_int x) = x" unfolding eq s(1) mag by simp
  have ok: "dec_ok (beans_dec_from_int x)" unfolding eq s(3) by simp
  have val: "dec_val (beans_dec_from_int x) = of_int x" unfolding dec_val_def int by (simp add: eq)
  have "whole_part (dec_val (beans_dec_from_int x)) = x" unfolding val whole_part_def by simp
  with to same assms(2) ok val show ?thesis by metis
qed

theorem decimal_int_conversions_witness:
  "beans_dec_to_int \<lparr>d_lo = 1999, d_hi = 0, d_s = 2\<rparr> = 19 \<and> beans_dec_to_int (beans_dec_from_int (-7)) = -7"
proof -
  have v: "dec_ok \<lparr>d_lo = 1999, d_hi = 0, d_s = 2\<rparr>" "dec_val \<lparr>d_lo = 1999, d_hi = 0, d_s = 2\<rparr> = 1999 / 100"
    using small_decimal [of 1999 2] by simp_all
  have "\<lfloor>1999 / 100 :: rat\<rfloor> = 19" by (simp add: floor_eq_iff)
  then have "whole_part (1999 / 100) = 19" by (simp add: whole_part_def)
  then show ?thesis using decimal_int_conversions [OF v(1), of "-7"] v(2) by (simp add: i64_ok_def)
qed

end
