(* ===== verification/Rt_Value_Lists.thy ===== *)
theory Rt_Value_Lists
  imports Rt_Decimal_Round Rt_Sort
begin

unbundle bit_operations_syntax

text \<open>
  Lists whose elements are wider than a slot (\<^verbatim>\<open>src/runtime/beans_rt.c\<close>): the largest, the smallest
  and the search of a decimal list, and the merge sorts of decimal lists and of lists of structs.

  An element is a cell of the list's buffer; a decimal cell is its four words. Unlike the sorts of
  plain slots, these check their scratch buffers. Comparators that change the list while it is
  sorted are refused by the code (\<^verbatim>\<open>rt_sort_check\<close>) and are not expressible here.
\<close>

section \<open>Decimal lists\<close>

text \<open>The words of a \<^verbatim>\<open>BDec\<close> in a buffer, low limb first.\<close>

definition cell_dec :: "elem \<Rightarrow> bdec" where
  "cell_dec c = \<lparr>d_lo = c ! 0, d_hi = c ! 1, d_s = sint (c ! 2)\<rparr>"

fun decv_best :: "(int \<Rightarrow> bool) \<Rightarrow> elem list \<Rightarrow> bdec \<Rightarrow> bdec rt" where
  "decv_best better [] out = Ok out"
| "decv_best better (c # cs) out =
     rt_bind (beans_dec_cmp (cell_dec c) out) (\<lambda>order.
       decv_best better cs (if better order then cell_dec c else out))"

definition list_decv_pick :: "(int \<Rightarrow> bool) \<Rightarrow> blist \<Rightarrow> (bdec \<times> bool) rt" where
  "list_decv_pick better l =
     (if \<not> l_len l > 0 then Ok (dec_set bu_0 False 0, False)
      else
        let cells = take (l_len l) (l_buf l) in
        rt_bind (decv_best better (tl cells) (cell_dec (hd cells))) (\<lambda>out. Ok (out, True)))"

definition beans_list_decv_max :: "blist \<Rightarrow> (bdec \<times> bool) rt" where
  "beans_list_decv_max l = list_decv_pick (\<lambda>order. order > 0) l"

definition beans_list_decv_min :: "blist \<Rightarrow> (bdec \<times> bool) rt" where
  "beans_list_decv_min l = list_decv_pick (\<lambda>order. order < 0) l"

fun decv_find :: "elem list \<Rightarrow> bdec \<Rightarrow> nat \<Rightarrow> (nat \<times> bool) rt" where
  "decv_find [] v i = Ok (0, False)"
| "decv_find (c # cs) v i =
     rt_bind (beans_dec_cmp (cell_dec c) v) (\<lambda>order. if order = 0 then Ok (i, True) else decv_find cs v (i + 1))"

definition beans_list_decv_index :: "blist \<Rightarrow> bdec \<Rightarrow> (nat \<times> bool) rt" where
  "beans_list_decv_index l v = decv_find (take (l_len l) (l_buf l)) v 0"

definition beans_list_decv_contains :: "blist \<Rightarrow> bdec \<Rightarrow> bool rt" where
  "beans_list_decv_contains l v = rt_bind (decv_find (take (l_len l) (l_buf l)) v 0) (\<lambda>(i, found). Ok found)"

section \<open>Sorting cells\<close>

definition put_cells :: "blist \<Rightarrow> elem list \<Rightarrow> blist" where
  "put_cells l cells = l\<lparr>l_buf := cells @ drop (length cells) (l_buf l)\<rparr>"

text \<open>
  The bottom-up merge over inline elements. A block without a partner is copied to the buffer and back,
  which changes nothing.
\<close>

definition cell_merge_sort ::
    "(u64 \<Rightarrow> bool) \<Rightarrow> u64 \<Rightarrow> (elem \<Rightarrow> elem \<Rightarrow> bool rt) \<Rightarrow> elem list \<Rightarrow> elem list rt" where
  "cell_merge_sort alloc stride lt cells =
     (let n = length cells in
      if n < 2 then Ok cells
      else if \<not> alloc (of_nat n * stride) then out_of_memory 0 0
      else merge_widths lt cells n 1)"

definition decv_less :: "(bdec \<Rightarrow> bdec \<Rightarrow> bool rt) option \<Rightarrow> elem \<Rightarrow> elem \<Rightarrow> bool rt" where
  "decv_less thunk x y =
     (case thunk of
        Some f \<Rightarrow> f (cell_dec x) (cell_dec y)
      | None \<Rightarrow> rt_bind (beans_dec_cmp (cell_dec x) (cell_dec y)) (\<lambda>order. Ok (order < 0)))"

definition list_decv_merge_sort :: "(u64 \<Rightarrow> bool) \<Rightarrow> blist \<Rightarrow> (bdec \<Rightarrow> bdec \<Rightarrow> bool rt) option \<Rightarrow> blist rt" where
  "list_decv_merge_sort alloc l thunk =
     rt_bind (cell_merge_sort alloc 32 (decv_less thunk) (take (l_len l) (l_buf l))) (\<lambda>cells. Ok (put_cells l cells))"

definition beans_list_decv_sort :: "(u64 \<Rightarrow> bool) \<Rightarrow> blist \<Rightarrow> blist rt" where
  "beans_list_decv_sort alloc l =
     list_decv_merge_sort alloc (if l_len l > 1 then list_changed l LIST_CHANGE_SORT else l) None"

definition beans_list_decv_sort_by :: "(u64 \<Rightarrow> bool) \<Rightarrow> blist \<Rightarrow> (bdec \<Rightarrow> bdec \<Rightarrow> bool rt) \<Rightarrow> blist rt" where
  "beans_list_decv_sort_by alloc l thunk =
     list_decv_merge_sort alloc (if l_len l > 1 then list_changed l LIST_CHANGE_SORT else l) (Some thunk)"

text \<open>One key per element, then the merge over keys and elements together.\<close>

definition cell_sort_by_key ::
    "(u64 \<Rightarrow> bool) \<Rightarrow> u64 \<Rightarrow> (elem \<Rightarrow> slot rt) \<Rightarrow> blist \<Rightarrow> blist rt" where
  "cell_sort_by_key alloc stride key_fn l =
     (let n = l_len l; cells = take n (l_buf l) in
      if n < 1 then Ok l
      else
        let l = (if n > 1 then list_changed l LIST_CHANGE_SORT else l) in
        if \<not> alloc (of_nat n * 8) \<or> \<not> alloc (of_nat n * stride) then out_of_memory 0 0
        else
          rt_bind (keys_of key_fn cells) (\<lambda>keys.
          rt_bind (merge_widths (\<lambda>x y. Ok (sint (fst x) < sint (fst y))) (zip keys cells) n 1) (\<lambda>pairs.
            Ok (put_cells l (map snd pairs)))))"

definition beans_list_decv_sort_by_key :: "(u64 \<Rightarrow> bool) \<Rightarrow> blist \<Rightarrow> (bdec \<Rightarrow> slot rt) \<Rightarrow> blist rt" where
  "beans_list_decv_sort_by_key alloc l key_fn = cell_sort_by_key alloc 32 (\<lambda>c. key_fn (cell_dec c)) l"

definition beans_list_val_sort_by :: "(u64 \<Rightarrow> bool) \<Rightarrow> blist \<Rightarrow> (elem \<Rightarrow> elem \<Rightarrow> bool rt) \<Rightarrow> blist rt" where
  "beans_list_val_sort_by alloc l thunk =
     (if l_len l < 2 then Ok l
      else
        let l = list_changed l LIST_CHANGE_SORT in
        rt_bind (cell_merge_sort alloc (u64_of (list_stride l)) thunk (take (l_len l) (l_buf l)))
          (\<lambda>cells. Ok (put_cells l cells)))"

definition beans_list_val_sort_by_key :: "(u64 \<Rightarrow> bool) \<Rightarrow> blist \<Rightarrow> (elem \<Rightarrow> slot rt) \<Rightarrow> blist rt" where
  "beans_list_val_sort_by_key alloc l key_fn = cell_sort_by_key alloc (u64_of (list_stride l)) key_fn l"

section \<open>Comparators that agree on the elements\<close>

lemma merge_run_agree:
  assumes "\<And>x y. x \<in> S \<Longrightarrow> y \<in> S \<Longrightarrow> lt x y = lt' x y" "set a \<subseteq> S" "mid \<le> length a" "hi \<le> length a"
  shows "merge_run lt a i mid j hi = merge_run lt' a i mid j hi"
  using assms
proof (induction lt a i mid j hi rule: merge_run.induct)
  case (1 lt a i mid j hi)
  show ?case
  proof (cases "i < mid \<and> j < hi")
    case True
    have "a ! j \<in> S" "a ! i \<in> S" using True "1.prems"(2-4) by (auto intro: nth_mem)
    then have eq: "lt (a ! j) (a ! i) = lt' (a ! j) (a ! i)" by (rule "1.prems"(1))
    show ?thesis
      unfolding merge_run.simps [of lt a i mid j hi] merge_run.simps [of lt' a i mid j hi] eq
      using True "1.IH" [OF True] "1.prems" by (auto intro!: rt_bind_cong)
  next
    case False
    have "merge_run f a i mid j hi = Ok (sub_range a i mid @ sub_range a j hi)" for f :: "'a \<Rightarrow> 'a \<Rightarrow> bool rt"
      by (simp only: merge_run.simps [of f a i mid j hi] if_not_P [OF False])
    then show ?thesis by simp
  qed
qed

lemma merge_run_result:
  "merge_run lt a i mid j hi = Ok b \<Longrightarrow> i \<le> mid \<Longrightarrow> j \<le> hi \<Longrightarrow> mid \<le> length a \<Longrightarrow> hi \<le> length a \<Longrightarrow>
   set b \<subseteq> set a \<and> length b = (mid - i) + (hi - j)"
proof (induction lt a i mid j hi arbitrary: b rule: merge_run.induct)
  case (1 lt a i mid j hi)
  show ?case
  proof (cases "i < mid \<and> j < hi")
    case True
    with "1.prems"(1) obtain right where r: "lt (a ! j) (a ! i) = Ok right"
      by (subst (asm) merge_run.simps) (auto simp: rt_bind_Ok_iff)
    have "a ! i \<in> set a" "a ! j \<in> set a" using True "1.prems" by auto
    then show ?thesis
      using "1.prems" "1.IH"(1) [OF True, of right] "1.IH"(2) [OF True, of right] True r
      by (subst (asm) merge_run.simps) (cases right; fastforce simp: rt_bind_Ok_iff)
  next
    case False
    with "1.prems" have "b = sub_range a i mid @ sub_range a j hi" by (subst (asm) merge_run.simps) simp
    with "1.prems" show ?thesis by (auto simp: sub_range_def dest: in_set_takeD in_set_dropD)
  qed
qed

text \<open>The whole sort depends on the comparator only on the elements.\<close>

lemma merge_blocks_agree:
  assumes "\<And>x y. x \<in> S \<Longrightarrow> y \<in> S \<Longrightarrow> lt x y = lt' x y" "set a \<subseteq> S" "length a = n"
  shows "merge_blocks lt a n w lo = merge_blocks lt' a n w lo \<and>
    (\<forall>b. merge_blocks lt a n w lo = Ok b \<longrightarrow> set b \<subseteq> S \<and> length b = n)"
  using assms
proof (induction lt a n w lo rule: merge_blocks.induct)
  case (1 lt a n w lo)
  define mid where "mid = (if lo + w < n then lo + w else n)"
  define hi where "hi = (if lo + 2 * w < n then lo + 2 * w else n)"
  show ?case
  proof (cases "lo < n \<and> 0 < w")
    case False
    have "merge_blocks f a n w lo = Ok a" for f :: "'a \<Rightarrow> 'a \<Rightarrow> bool rt"
      by (simp only: merge_blocks.simps [of f a n w lo] if_not_P [OF False])
    with "1.prems"(2,3) show ?thesis by simp
  next
    case True
    have run: "merge_run lt a lo mid mid hi = merge_run lt' a lo mid mid hi"
      using "1.prems" by (intro merge_run_agree [where S = S]) (auto simp: mid_def hi_def)
    show ?thesis
    proof (cases "hi \<le> mid")
      case skip: True
      have "merge_blocks f a n w lo = merge_blocks f a n w (lo + 2 * w)" for f :: "'a \<Rightarrow> 'a \<Rightarrow> bool rt"
        unfolding merge_blocks.simps [of f a n w lo] mid_def [symmetric] hi_def [symmetric] Let_def using True skip by simp
      with "1.IH"(1) [OF True mid_def hi_def skip "1.prems"] show ?thesis by simp
    next
      case False
      have "set (take lo a @ b @ drop hi a) \<subseteq> S \<and> length (take lo a @ b @ drop hi a) = n"
        if "merge_run lt a lo mid mid hi = Ok b" for b
      proof -
        from merge_run_result [OF that] True False "1.prems"(3)
        have "set b \<subseteq> set a" "length b = (mid - lo) + (hi - mid)" by (auto simp: mid_def hi_def)
        with "1.prems"(2,3) True False show ?thesis
          by (auto simp: mid_def hi_def dest: in_set_takeD in_set_dropD split: if_splits)
      qed
      note buf = this
      have unfold: "merge_blocks f a n w lo =
          rt_bind (merge_run f a lo mid mid hi) (\<lambda>buf. merge_blocks f (take lo a @ buf @ drop hi a) n w (lo + 2 * w))"
        for f :: "'a \<Rightarrow> 'a \<Rightarrow> bool rt"
        unfolding merge_blocks.simps [of f a n w lo] mid_def [symmetric] hi_def [symmetric] Let_def using True False by simp
      show ?thesis
      proof (cases "merge_run lt a lo mid mid hi")
        case (Ok b)
        from buf [OF Ok] have b: "set (take lo a @ b @ drop hi a) \<subseteq> S" "length (take lo a @ b @ drop hi a) = n" by blast+
        from "1.IH"(2) [OF True mid_def hi_def False "1.prems"(1) b] show ?thesis
          unfolding unfold run [symmetric] Ok rt_bind.simps .
      qed (simp_all add: unfold run [symmetric])
    qed
  qed
qed

lemma merge_widths_agree:
  assumes "\<And>x y. x \<in> S \<Longrightarrow> y \<in> S \<Longrightarrow> lt x y = lt' x y" "set a \<subseteq> S" "length a = n"
  shows "merge_widths lt a n w = merge_widths lt' a n w"
  using assms
proof (induction lt a n w rule: merge_widths.induct)
  case (1 lt a n w)
  note blocks = merge_blocks_agree [where S = S and lt = lt and lt' = lt' and a = a and n = n and w = w and lo = 0, OF "1.prems"]
  show ?case
  proof (cases "w < n \<and> 0 < w")
    case True
    with "1.IH" [OF True "1.prems"(1)] blocks show ?thesis
      by (cases "merge_blocks lt' a n w 0")
        (simp_all add: merge_widths.simps [of lt a n w] merge_widths.simps [of lt' a n w])
  next
    case False
    have "merge_widths f a n w = Ok a" for f :: "'a \<Rightarrow> 'a \<Rightarrow> bool rt"
      by (simp only: merge_widths.simps [of f a n w] if_not_P [OF False])
    then show ?thesis by simp
  qed
qed

section \<open>Results\<close>

text \<open>A decimal list: four words in every live cell, and each a decimal.\<close>

definition decimals_ok :: "blist \<Rightarrow> bool" where
  "decimals_ok l \<longleftrightarrow> list_ok l \<and> list_all (\<lambda>c. dec_ok (cell_dec c)) (live l)"

lemma decv_best_val:
  assumes "list_all (\<lambda>c. dec_ok (cell_dec c)) cs" "dec_ok out"
  shows "\<exists>r. decv_best (\<lambda>order. order > 0) cs out = Ok r \<and> dec_ok r \<and>
      r \<in> insert out (cell_dec ` set cs) \<and> (\<forall>d \<in> insert out (cell_dec ` set cs). dec_val d \<le> dec_val r)"
    and "\<exists>r. decv_best (\<lambda>order. order < 0) cs out = Ok r \<and> dec_ok r \<and>
      r \<in> insert out (cell_dec ` set cs) \<and> (\<forall>d \<in> insert out (cell_dec ` set cs). dec_val r \<le> dec_val d)"
proof -
  show "\<exists>r. decv_best (\<lambda>order. order > 0) cs out = Ok r \<and> dec_ok r \<and>
      r \<in> insert out (cell_dec ` set cs) \<and> (\<forall>d \<in> insert out (cell_dec ` set cs). dec_val d \<le> dec_val r)"
    using assms
  proof (induction cs arbitrary: out)
    case (Cons c cs)
    from Cons.prems have c: "dec_ok (cell_dec c)" by simp
    define out' where "out' = (if order_of (dec_val (cell_dec c)) (dec_val out) > 0 then cell_dec c else out)"
    have "dec_ok out'" using c Cons.prems(2) by (simp add: out'_def)
    with Cons.IH [of out'] Cons.prems obtain r where r: "decv_best (\<lambda>order. order > 0) cs out' = Ok r" "dec_ok r"
      "r \<in> insert out' (cell_dec ` set cs)" "\<forall>d \<in> insert out' (cell_dec ` set cs). dec_val d \<le> dec_val r" by auto
    have "dec_val (cell_dec c) \<le> dec_val out'" "dec_val out \<le> dec_val out'" "out' \<in> {out, cell_dec c}"
      by (auto simp: out'_def order_of_def)
    with r dec_cmp_val [OF c Cons.prems(2)] show ?case by (auto simp: out'_def [symmetric] intro: order_trans)
  qed auto
  show "\<exists>r. decv_best (\<lambda>order. order < 0) cs out = Ok r \<and> dec_ok r \<and>
      r \<in> insert out (cell_dec ` set cs) \<and> (\<forall>d \<in> insert out (cell_dec ` set cs). dec_val r \<le> dec_val d)"
    using assms
  proof (induction cs arbitrary: out)
    case (Cons c cs)
    from Cons.prems have c: "dec_ok (cell_dec c)" by simp
    define out' where "out' = (if order_of (dec_val (cell_dec c)) (dec_val out) < 0 then cell_dec c else out)"
    have "dec_ok out'" using c Cons.prems(2) by (simp add: out'_def)
    with Cons.IH [of out'] Cons.prems obtain r where r: "decv_best (\<lambda>order. order < 0) cs out' = Ok r" "dec_ok r"
      "r \<in> insert out' (cell_dec ` set cs)" "\<forall>d \<in> insert out' (cell_dec ` set cs). dec_val r \<le> dec_val d" by auto
    have "dec_val out' \<le> dec_val (cell_dec c)" "dec_val out' \<le> dec_val out" "out' \<in> {out, cell_dec c}"
      by (auto simp: out'_def order_of_def)
    with r dec_cmp_val [OF c Cons.prems(2)] show ?case by (auto simp: out'_def [symmetric] intro: order_trans)
  qed auto
qed

lemma decv_sort_cells:
  assumes "list_all (\<lambda>c. dec_ok (cell_dec c)) cells" "alloc (of_nat (length cells) * 32)"
  shows "cell_merge_sort alloc 32 (decv_less None) cells = Ok (sort_key (\<lambda>c. dec_val (cell_dec c)) cells)"
proof (cases "length cells < 2")
  case True
  then have "sort_key (\<lambda>c. dec_val (cell_dec c)) cells = cells" by (cases cells; cases "tl cells") auto
  with True show ?thesis by (simp add: cell_merge_sort_def)
next
  case False
  let ?f = "\<lambda>c. dec_val (cell_dec c)"
  obtain b where b: "merge_widths (\<lambda>x y. Ok (?f x < ?f y)) cells (length cells) 1 = Ok b"
    "weak_order.stable_sorted (\<lambda>x y. ?f x < ?f y) cells b" using keyed.merge_sort_stable [of ?f cells] by blast
  have "merge_widths (decv_less None) cells (length cells) 1 = merge_widths (\<lambda>x y. Ok (?f x < ?f y)) cells (length cells) 1"
  proof (rule merge_widths_agree [where S = "set cells"])
    fix x y
    assume "x \<in> set cells" "y \<in> set cells"
    then have "dec_ok (cell_dec x)" "dec_ok (cell_dec y)" using assms(1) by (auto simp: list_all_iff)
    from dec_cmp_val [OF this] show "decv_less None x y = Ok (?f x < ?f y)"
      by (simp add: decv_less_def order_of_def)
  qed auto
  also have "\<dots> = Ok (sort_key ?f cells)" unfolding b(1) stable_sorted_sort_key [OF b(2)] ..
  finally show ?thesis using False assms(2) by (simp add: cell_merge_sort_def)
qed

lemma put_cells_live:
  assumes "list_ok l" "length cells = l_len l"
  shows "live (put_cells l cells) = cells" "list_ok (put_cells l cells)"
  using assms by (auto simp: live_def put_cells_def list_ok_def list_stride_def)

lemma decv_find_val:
  assumes "list_all (\<lambda>c. dec_ok (cell_dec c)) cs" "dec_ok v"
  shows "decv_find cs v i = Ok (case find (\<lambda>j. dec_val (cell_dec (cs ! j)) = dec_val v) [0..<length cs] of
      None \<Rightarrow> (0, False) | Some j \<Rightarrow> (i + j, True))"
  using assms(1)
proof (induction cs arbitrary: i)
  case (Cons c cs)
  have shift: "[0..<length (c # cs)] = 0 # map Suc [0..<length cs]" by (simp add: upt_conv_Cons map_Suc_upt del: upt_Suc)
  have "find (\<lambda>j. dec_val (cell_dec ((c # cs) ! j)) = dec_val v) (map Suc js) =
      map_option Suc (find (\<lambda>j. dec_val (cell_dec (cs ! j)) = dec_val v) js)" for js
    by (induction js) auto
  with Cons dec_cmp_val [of "cell_dec c" v] assms(2) show ?case
    unfolding shift by (auto simp: order_of_def split: option.splits)
qed simp

section \<open>Properties\<close>


definition demo_decimals :: blist where
  "demo_decimals = \<lparr>l_buf = [[25, 0, 1, 0], [3, 0, 0, 0], [250, 0, 2, 0], []], l_inline = False, l_len = 3, l_cap = 4,
     l_stride = 32, l_mask = 0, l_count = 0, l_kind = 0\<rparr>"

lemma demo_decimals_ok: "decimals_ok demo_decimals" "live demo_decimals = [[25, 0, 1, 0], [3, 0, 0, 0], [250, 0, 2, 0]]"
  "dec_val (cell_dec [25, 0, 1, 0]) = 5 / 2" "dec_val (cell_dec [3, 0, 0, 0]) = 3" "dec_val (cell_dec [250, 0, 2, 0]) = 5 / 2"
  using small_decimal [of 25 1] small_decimal [of 3 0] small_decimal [of 250 2]
  by (simp_all add: demo_decimals_def decimals_ok_def list_ok_def list_stride_def live_def cell_dec_def)


text \<open>The largest and the smallest of a non-empty decimal list are elements no other element exceeds or
  falls below, the index of a value is its first position and containment agrees with it; an empty
  list answers that there is none. None of them panics.\<close>

theorem decimal_list_queries_by_value:
  assumes "decimals_ok l" "dec_ok v"
  shows "(if l_len l = 0 then beans_list_decv_max l = Ok (dec_set bu_0 False 0, False) \<and> beans_list_decv_min l = Ok (dec_set bu_0 False 0, False)
     else \<exists>hi lo. beans_list_decv_max l = Ok (hi, True) \<and> beans_list_decv_min l = Ok (lo, True) \<and>
       {hi, lo} \<subseteq> cell_dec ` set (live l) \<and> dec_val ` cell_dec ` set (live l) \<subseteq> {dec_val lo .. dec_val hi}) \<and>
    (case find (\<lambda>j. dec_val (cell_dec (live l ! j)) = dec_val v) [0..<l_len l] of
       None \<Rightarrow> beans_list_decv_index l v = Ok (0, False) \<and> beans_list_decv_contains l v = Ok False
     | Some j \<Rightarrow> beans_list_decv_index l v = Ok (j, True) \<and> beans_list_decv_contains l v = Ok True)"
proof
  have ok: "list_all (\<lambda>c. dec_ok (cell_dec c)) (live l)" "length (live l) = l_len l"
    using assms(1) by (simp_all add: decimals_ok_def length_live)
  note found = decv_find_val [OF ok(1) assms(2), of 0]
  show "case find (\<lambda>j. dec_val (cell_dec (live l ! j)) = dec_val v) [0..<l_len l] of
       None \<Rightarrow> beans_list_decv_index l v = Ok (0, False) \<and> beans_list_decv_contains l v = Ok False
     | Some j \<Rightarrow> beans_list_decv_index l v = Ok (j, True) \<and> beans_list_decv_contains l v = Ok True"
    using found by (auto simp: beans_list_decv_index_def beans_list_decv_contains_def live_def [symmetric] ok(2) split: option.splits)
  show "if l_len l = 0 then beans_list_decv_max l = Ok (dec_set bu_0 False 0, False) \<and> beans_list_decv_min l = Ok (dec_set bu_0 False 0, False)
     else \<exists>hi lo. beans_list_decv_max l = Ok (hi, True) \<and> beans_list_decv_min l = Ok (lo, True) \<and>
       {hi, lo} \<subseteq> cell_dec ` set (live l) \<and> dec_val ` cell_dec ` set (live l) \<subseteq> {dec_val lo .. dec_val hi}"
  proof (cases "live l")
    case Nil
    with ok(2) show ?thesis by (simp add: beans_list_decv_max_def beans_list_decv_min_def list_decv_pick_def)
  next
    case (Cons c cs)
    with ok have c: "list_all (\<lambda>c. dec_ok (cell_dec c)) cs" "dec_ok (cell_dec c)" "0 < l_len l" by auto
    from decv_best_val [OF c(1,2)] obtain hi lo where
      r: "decv_best (\<lambda>order. order > 0) cs (cell_dec c) = Ok hi" "decv_best (\<lambda>order. order < 0) cs (cell_dec c) = Ok lo"
      and mem: "{hi, lo} \<subseteq> cell_dec ` set (live l)"
      and bounds: "\<forall>d \<in> cell_dec ` set (live l). dec_val d \<le> dec_val hi" "\<forall>d \<in> cell_dec ` set (live l). dec_val lo \<le> dec_val d"
      unfolding Cons list.simps image_insert by blast
    have "dec_val ` cell_dec ` set (live l) \<subseteq> {dec_val lo .. dec_val hi}" using bounds by auto
    moreover have "beans_list_decv_max l = Ok (hi, True)" "beans_list_decv_min l = Ok (lo, True)"
      using r c(3) Cons
      by (simp_all add: beans_list_decv_max_def beans_list_decv_min_def list_decv_pick_def live_def [symmetric])
    ultimately show ?thesis using mem c(3) by auto
  qed
qed

theorem decimal_list_queries_by_value_witness:
  "beans_list_decv_index demo_decimals \<lparr>d_lo = 30, d_hi = 0, d_s = 1\<rparr> = Ok (1, True)"
proof -
  have v: "dec_ok \<lparr>d_lo = 30, d_hi = 0, d_s = 1\<rparr>" "dec_val \<lparr>d_lo = 30, d_hi = 0, d_s = 1\<rparr> = 3"
    using small_decimal [of 30 1] by simp_all
  have "l_len demo_decimals = 3" "[0..<3] = [0, 1, 2 :: nat]" by (simp_all add: demo_decimals_def upt_rec)
  with decimal_list_queries_by_value [OF demo_decimals_ok(1) v(1)] v(2) show ?thesis
    by (simp add: demo_decimals_ok(2-))
qed

end
