(* ===== verification/Rt_Arena.thy ===== *)
theory Rt_Arena
  imports Rt_Lists
begin

text \<open>
  The arena of the runtime (\<^verbatim>\<open>BArena\<close> in \<^verbatim>\<open>src/runtime/beans_rt.c\<close>): an append-only buffer that
  hands out handles. As for lists, a backing is the cells that were really allocated, an element is
  its machine words, and an operation returns the calls it makes on what the arena owns.
\<close>

unbundle bit_operations_syntax

section \<open>State\<close>

record barena =
  a_buf :: "elem list"
  a_len :: nat
  a_cap :: nat
  a_stride :: int
  a_mask :: u64
  a_cycle :: u64

definition arena_load :: "barena \<Rightarrow> nat \<Rightarrow> elem rt" where
  "arena_load a i = (if i < length (a_buf a) then Ok (a_buf a ! i) else Fault)"

definition arena_store :: "barena \<Rightarrow> nat \<Rightarrow> elem \<Rightarrow> barena rt" where
  "arena_store a i e =
     (if i < length (a_buf a) then Ok (a\<lparr>a_buf := (a_buf a)[i := e]\<rparr>) else Fault)"

section \<open>Operations\<close>

definition beans_arena_new :: "(u64 \<Rightarrow> bool) \<Rightarrow> int \<Rightarrow> bool \<Rightarrow> int \<Rightarrow> int \<Rightarrow> barena rt" where
  "beans_arena_new alloc capacity elem_ptr line col =
     (if capacity < 0 then rt_panic 96 ''negative arena capacity %lld'' [ArgI64 capacity] line col
      else if capacity > 2 ^ 58 then Panic (asc ''arena capacity too large'') line col
      else if \<not> alloc 80 then out_of_memory 0 0
      else if capacity \<noteq> 0 \<and> \<not> alloc (of_int capacity * 8) then out_of_memory line col
      else Ok \<lparr>a_buf = replicate (cells_of (of_int capacity * 8) 8) [0], a_len = 0, a_cap = nat capacity,
               a_stride = -8, a_mask = (if elem_ptr then 1 else 0), a_cycle = 0\<rparr>)"

definition beans_arena_new_typed ::
    "(u64 \<Rightarrow> bool) \<Rightarrow> int \<Rightarrow> int \<Rightarrow> u64 \<Rightarrow> u64 \<Rightarrow> int \<Rightarrow> int \<Rightarrow> barena rt" where
  "beans_arena_new_typed alloc capacity stride ptr_mask cycle_mask line col =
     (if capacity < 0 then rt_panic 96 ''negative arena capacity %lld'' [ArgI64 capacity] line col
      else if stride \<le> 0 \<or> stride > 2 ^ 30 then Panic (asc ''invalid arena element size'') line col
      else if capacity > 2 ^ 58 div stride then Panic (asc ''arena capacity too large'') line col
      else if \<not> alloc 80 then out_of_memory 0 0
      else if capacity \<noteq> 0 \<and> \<not> alloc (of_int capacity * of_int stride) then out_of_memory line col
      else Ok \<lparr>a_buf = replicate (cells_of (of_int capacity * of_int stride) stride) [], a_len = 0,
               a_cap = nat capacity, a_stride = stride, a_mask = ptr_mask, a_cycle = cycle_mask\<rparr>)"

text \<open>The reallocation of both \<open>put\<close>s; cells past the old ones are fresh.\<close>

definition arena_grow :: "(u64 \<Rightarrow> bool) \<Rightarrow> barena \<Rightarrow> nat \<Rightarrow> int \<Rightarrow> barena rt" where
  "arena_grow alloc a cap' stride =
     (let bytes = of_nat cap' * of_int stride; n = cells_of bytes stride in
      if \<not> alloc bytes then out_of_memory 0 0
      else Ok (a\<lparr>a_buf := take n (a_buf a) @ replicate (n - length (a_buf a)) [], a_cap := cap'\<rparr>))"

abbreviation next_cap :: "barena \<Rightarrow> nat" where
  "next_cap a \<equiv> (if a_cap a \<noteq> 0 then a_cap a * 2 else 8)"

type_synonym 'a aeff = "('a \<times> effect list) rt"

definition beans_arena_put :: "(u64 \<Rightarrow> bool) \<Rightarrow> barena \<Rightarrow> slot \<Rightarrow> (barena \<times> nat) aeff" where
  "beans_arena_put alloc a v =
     (let eff = (if a_mask a \<noteq> 0 then [CcWrite v] else []) in
      rt_bind (if a_len a = a_cap a then arena_grow alloc a (next_cap a) 8 else Ok a) (\<lambda>a.
      rt_bind (arena_store a (a_len a) [v]) (\<lambda>a.
        Ok ((a\<lparr>a_len := a_len a + 1\<rparr>, a_len a), eff))))"

definition beans_arena_put_typed :: "(u64 \<Rightarrow> bool) \<Rightarrow> barena \<Rightarrow> elem \<Rightarrow> (barena \<times> nat) aeff" where
  "beans_arena_put_typed alloc a e =
     (let eff = cc_write_typed e (a_mask a) in
      rt_bind (if a_len a = a_cap a then
                 if a_stride a = 0 then Fault
                 else if int (next_cap a) > 2 ^ 58 div a_stride a
                 then Panic (asc ''arena capacity too large'') 0 0
                 else arena_grow alloc a (next_cap a) (a_stride a)
               else Ok a) (\<lambda>a.
      rt_bind (arena_store a (a_len a) e) (\<lambda>a.
        Ok ((a\<lparr>a_len := a_len a + 1\<rparr>, a_len a), eff @ (if a_cycle a \<noteq> 0 then [PossibleRoot] else [])))))"

text \<open>\<^verbatim>\<open>get\<close> answers nothing for a handle that was not given out; \<^verbatim>\<open>at\<close> panics.\<close>

definition beans_arena_get_typed :: "barena \<Rightarrow> int \<Rightarrow> elem option rt" where
  "beans_arena_get_typed a handle =
     (if handle < 0 \<or> handle \<ge> int (a_len a) then Ok None
      else rt_bind (arena_load a (nat handle)) (\<lambda>e. Ok (Some e)))"

definition beans_arena_get :: "barena \<Rightarrow> int \<Rightarrow> slot option rt" where
  "beans_arena_get a handle =
     (if handle < 0 \<or> handle \<ge> int (a_len a) then Ok None
      else rt_bind (arena_load a (nat handle)) (\<lambda>e. Ok (Some (hd e))))"

definition beans_arena_at_typed :: "barena \<Rightarrow> int \<Rightarrow> int \<Rightarrow> int \<Rightarrow> elem rt" where
  "beans_arena_at_typed a handle line col =
     (if handle < 0 \<or> handle \<ge> int (a_len a) then
        rt_panic 112 ''arena handle %lld out of range (len %lld)'' [ArgI64 handle, ArgI64 (int (a_len a))] line col
      else arena_load a (nat handle))"

definition beans_arena_at :: "barena \<Rightarrow> int \<Rightarrow> int \<Rightarrow> int \<Rightarrow> slot rt" where
  "beans_arena_at a handle line col =
     (if handle < 0 \<or> handle \<ge> int (a_len a) then
        rt_panic 112 ''arena handle %lld out of range (len %lld)'' [ArgI64 handle, ArgI64 (int (a_len a))] line col
      else rt_bind (arena_load a (nat handle)) (\<lambda>e. Ok (hd e)))"

text \<open>
  Clearing empties the arena first and then releases from the last element down; it stops at an index
  a deinit has put into again. \<open>run\<close> is what the releases of one element do to the arena.
\<close>

fun rt_arena_clear_from ::
    "(effect list \<Rightarrow> barena \<Rightarrow> barena) \<Rightarrow> bool \<Rightarrow> barena \<Rightarrow> nat \<Rightarrow> barena aeff" where
  "rt_arena_clear_from run i64_encoded a 0 = Ok (a, [])"
| "rt_arena_clear_from run i64_encoded a (Suc i) =
     (if i < a_len a then Ok (a, [])
      else
        rt_bind (arena_load a i) (\<lambda>e.
          let eff = release_masked_slots e (a_mask a) i64_encoded in
          rt_bind (rt_arena_clear_from run i64_encoded (run eff a) i) (\<lambda>(a', effs). Ok (a', eff @ effs))))"

definition beans_arena_clear :: "(effect list \<Rightarrow> barena \<Rightarrow> barena) \<Rightarrow> barena \<Rightarrow> barena aeff" where
  "beans_arena_clear run a =
     (let n = a_len a; a1 = a\<lparr>a_len := 0\<rparr> in
      if a_mask a1 = 0 then Ok (a1, []) else rt_arena_clear_from run (a_stride a1 < 0) a1 n)"

section \<open>An arena as a sequence\<close>

definition arena_ok :: "int \<Rightarrow> barena \<Rightarrow> bool" where
  "arena_ok w a \<longleftrightarrow> a_stride a = w \<and> 0 < w \<and> a_len a \<le> a_cap a \<and> length (a_buf a) = a_cap a \<and> int (a_cap a) * w \<le> 2 ^ 58"

definition arena_items :: "barena \<Rightarrow> elem list" where
  "arena_items a = take (a_len a) (a_buf a)"

datatype arena_cmd = Put elem | Fetch int | FetchAt int | Clear

datatype arena_answer = Handle nat | Element "elem option" | Done

fun arena_step :: "(u64 \<Rightarrow> bool) \<Rightarrow> barena \<Rightarrow> arena_cmd \<Rightarrow> (barena \<times> arena_answer) rt" where
  "arena_step alloc a (Put e) = rt_bind (beans_arena_put_typed alloc a e) (\<lambda>((a, h), _). Ok (a, Handle h))"
| "arena_step alloc a (Fetch h) = rt_bind (beans_arena_get_typed a h) (\<lambda>r. Ok (a, Element r))"
| "arena_step alloc a (FetchAt h) = rt_bind (beans_arena_at_typed a h 0 0) (\<lambda>e. Ok (a, Element (Some e)))"
| "arena_step alloc a Clear = rt_bind (beans_arena_clear (\<lambda>_ a. a) a) (\<lambda>(a, _). Ok (a, Done))"

fun arena_spec :: "elem list \<Rightarrow> arena_cmd \<Rightarrow> (elem list \<times> arena_answer) option" where
  "arena_spec xs (Put e) = Some (xs @ [e], Handle (length xs))"
| "arena_spec xs (Fetch h) = Some (xs, Element (if 0 \<le> h \<and> h < int (length xs) then Some (xs ! nat h) else None))"
| "arena_spec xs (FetchAt h) =
     (if 0 \<le> h \<and> h < int (length xs) then Some (xs, Element (Some (xs ! nat h))) else None)"
| "arena_spec xs Clear = Some ([], Done)"

definition arena_excuse :: "bstr \<Rightarrow> bool" where
  "arena_excuse m \<longleftrightarrow> m = asc ''out of memory'' \<or> m = asc ''arena capacity too large''"

lemma length_items: "arena_ok w a \<Longrightarrow> length (arena_items a) = a_len a"
  by (simp add: arena_ok_def arena_items_def)

lemma arena_load_item: "arena_ok w a \<Longrightarrow> i < a_len a \<Longrightarrow> arena_load a i = Ok (arena_items a ! i)"
  by (simp add: arena_ok_def arena_items_def arena_load_def)

text \<open>A put of an element when the backing is full or not.\<close>

lemma arena_room:
  fixes alloc :: "u64 \<Rightarrow> bool"
  assumes "arena_ok w a"
  defines "grown \<equiv> (if a_len a = a_cap a then
       if a_stride a = 0 then Fault
       else if int (next_cap a) > 2 ^ 58 div a_stride a then Panic (asc ''arena capacity too large'') 0 0
       else arena_grow alloc a (next_cap a) (a_stride a) else Ok a)"
  shows "(\<exists>a'. grown = Ok a' \<and> arena_ok w a' \<and> arena_items a' = arena_items a \<and> a_len a' = a_len a \<and> a_len a < a_cap a') \<or>
    (\<exists>m. grown = Panic m 0 0 \<and> arena_excuse m)"
proof (cases "a_len a = a_cap a \<and> int (next_cap a) \<le> 2 ^ 58 div a_stride a")
  case False
  then show ?thesis using assms by (auto simp: arena_ok_def arena_excuse_def grown_def)
next
  case True
  have w: "a_stride a = w" "0 < w" "length (a_buf a) = a_cap a" using assms(1) by (simp_all add: arena_ok_def)
  have "int (next_cap a) * w \<le> 2 ^ 58 div w * w" using True w by (intro mult_right_mono) auto
  also have "\<dots> \<le> 2 ^ 58" using minus_mod_eq_div_mult [of "2 ^ 58" w] pos_mod_sign [OF w(2), of "2 ^ 58"] by linarith
  finally have fits: "int (next_cap a) * w \<le> 2 ^ 58" .
  then have "cells_of (of_int (int (next_cap a)) * of_int w) w = nat (int (next_cap a))"
    using w(2) by (intro cells_of_product) auto
  then have cells: "cells_of (of_nat (next_cap a) * of_int w) w = next_cap a" by simp
  have big: "a_cap a < next_cap a" by simp
  let ?a = "a\<lparr>a_buf := a_buf a @ replicate (next_cap a - a_cap a) [], a_cap := next_cap a\<rparr>"
  have "arena_ok w ?a" using assms(1) fits big by (simp add: arena_ok_def)
  moreover have "arena_items ?a = arena_items a" using assms(1) by (simp add: arena_ok_def arena_items_def)
  moreover have "grown = (if \<not> alloc (of_nat (next_cap a) * of_int w) then out_of_memory 0 0 else Ok ?a)"
    unfolding grown_def arena_grow_def Let_def w(1) cells using True w big by auto
  ultimately show ?thesis using big True by (auto simp: out_of_memory_def arena_excuse_def)
qed

lemma arena_put_result:
  assumes "arena_ok w a"
  shows "(\<exists>a' eff. beans_arena_put_typed alloc a e = Ok ((a', a_len a), eff) \<and> arena_ok w a' \<and> arena_items a' = arena_items a @ [e]) \<or>
    (\<exists>m. beans_arena_put_typed alloc a e = Panic m 0 0 \<and> arena_excuse m)"
  using arena_room [OF assms, of alloc]
proof (elim disjE exE conjE)
  fix a1 assume g: "(if a_len a = a_cap a then
       if a_stride a = 0 then Fault
       else if int (next_cap a) > 2 ^ 58 div a_stride a then Panic (asc ''arena capacity too large'') 0 0
       else arena_grow alloc a (next_cap a) (a_stride a) else Ok a) = Ok a1"
    and a1: "arena_ok w a1" "arena_items a1 = arena_items a" "a_len a1 = a_len a" "a_len a < a_cap a1"
  let ?a = "a1\<lparr>a_buf := (a_buf a1)[a_len a := e], a_len := a_len a + 1\<rparr>"
  have "a_len a < length (a_buf a1)" using a1 by (simp add: arena_ok_def)
  then have "arena_items ?a = arena_items a @ [e]"
    using a1(2,3) by (simp add: arena_items_def take_Suc_conv_app_nth)
  moreover have "arena_ok w ?a" using a1 by (simp add: arena_ok_def)
  moreover have "beans_arena_put_typed alloc a e =
      Ok ((?a, a_len a), cc_write_typed e (a_mask a) @ (if a_cycle ?a \<noteq> 0 then [PossibleRoot] else []))"
    unfolding beans_arena_put_typed_def Let_def g using a1 \<open>a_len a < length (a_buf a1)\<close> by (simp add: arena_store_def)
  ultimately show ?thesis by blast
qed (auto simp: beans_arena_put_typed_def Let_def)

lemma arena_clear_walk:
  "a_len a = 0 \<Longrightarrow> n \<le> length (a_buf a) \<Longrightarrow> \<exists>effs. rt_arena_clear_from (\<lambda>_ a. a) i64 a n = Ok (a, effs)"
  by (induction n) (auto simp: arena_load_def Let_def)

lemma arena_clear_result:
  assumes "arena_ok w a"
  shows "\<exists>effs. beans_arena_clear (\<lambda>_ a. a) a = Ok (a\<lparr>a_len := 0\<rparr>, effs)"
  using arena_clear_walk [of "a\<lparr>a_len := 0\<rparr>" "a_len a" "a_stride a < 0"] assms
  by (auto simp: beans_arena_clear_def Let_def arena_ok_def)

lemma arena_panics:
  "\<exists>m. rt_panic 112 ''arena handle %lld out of range (len %lld)'' [ArgI64 i, ArgI64 j] line col = Panic m line col"
  by (simp add: rt_panic_def rt_vformat_def ll_spec_def)

text \<open>One command, all three outcomes.\<close>

lemma arena_step_meets:
  assumes ok: "arena_ok w a"
  shows "case arena_step alloc a c of
      Ok (a', x) \<Rightarrow> arena_ok w a' \<and> arena_spec (arena_items a) c = Some (arena_items a', x)
    | Panic m _ _ \<Rightarrow> arena_excuse m \<or> arena_spec (arena_items a) c = None
    | Fault \<Rightarrow> False"
proof (cases c)
  case (Put e)
  then show ?thesis using arena_put_result [OF ok, of alloc e] by (auto simp: length_items [OF ok])
next
  case (Fetch h)
  then show ?thesis using ok arena_load_item [OF ok] by (auto simp: beans_arena_get_typed_def length_items [OF ok])
next
  case (FetchAt h)
  then show ?thesis
    using ok arena_load_item [OF ok] arena_panics [where 'a = elem, of h "int (a_len a)" 0 0]
    by (auto simp: beans_arena_at_typed_def length_items [OF ok])
next
  case Clear
  then show ?thesis using ok arena_clear_result [OF ok] by (auto simp: arena_ok_def arena_items_def)
qed

interpretation typed_arena: rt_refinement "arena_step alloc" "arena_ok w" arena_items arena_spec arena_excuse "\<lambda>_. True"
  for alloc w
  using arena_step_meets [where w = w and alloc = alloc] by unfold_locales (fastforce split: rt.splits)+

section \<open>Properties\<close>


definition small_arena :: barena where
  "small_arena = \<lparr>a_buf = [[]], a_len = 0, a_cap = 1, a_stride = 16, a_mask = 0, a_cycle = 0\<rparr>"


end
