(* ===== verification/Rt_Heap.thy ===== *)
theory Rt_Heap
  imports Rt_Arena Rt_Maps "HOL-Library.AList"
begin

text \<open>
  Memory management of the runtime (\<^verbatim>\<open>src/runtime/beans_rt.c\<close>): reference counts, the release cascade,
  the buffer of possible cycle roots and the trial-deletion collector, for one thread (\<^verbatim>\<open>cc_mt\<close> is 0).

  The heap maps addresses to objects, an object being its decoded header and its payload. A freed shell
  leaves the heap, so that every later access to it is \<open>Fault\<close>; so is a decrement of a zero count and
  an increment that would carry into the size class, the two ways a count can leave its 48 bits.
  A work stack (\<^verbatim>\<open>CCStack\<close>) is a list with its top first. The body of a deinit is a parameter, as is
  the allocator. Objects of kind 6 (files, shared and weak handles) are not part of this heap.
\<close>

declare rt_bind_cong [fundef_cong]

section \<open>Objects\<close>

datatype color = CC_BLACK | CC_GRAY | CC_WHITE | CC_PURPLE

text \<open>
  What the shape-walker reads of an object, by its kind: the masked slots of a class object or box, the
  slots an extended shape lists, a list, a map, a mutex or an arena; \<open>Leaf\<close> is a string, a byte buffer
  or any object whose shape has no pointers.
\<close>

datatype payload =
    Leaf
  | Fixed u64 "slot list"
  | Extended "slot list"
  | ListBody blist
  | MapBody bmap
  | MutexBody slot
  | ArenaBody barena

record obj =
  o_count :: nat
  o_immortal :: bool
  o_fin :: bool
  o_color :: color
  o_buf :: bool
  o_body :: payload

type_synonym heap = "(slot \<times> obj) list"

definition obj_at :: "heap \<Rightarrow> slot \<Rightarrow> obj rt" where
  "obj_at h p = (case map_of h p of None \<Rightarrow> Fault | Some ob \<Rightarrow> Ok ob)"

definition put_obj :: "heap \<Rightarrow> slot \<Rightarrow> obj \<Rightarrow> heap" where
  "put_obj h p ob = AList.update p ob h"

definition rc_inc :: "obj \<Rightarrow> obj rt" where
  "rc_inc ob = (if o_count ob + 1 < 2 ^ 48 then Ok (ob\<lparr>o_count := o_count ob + 1\<rparr>) else Fault)"

definition rc_dec :: "obj \<Rightarrow> obj rt" where
  "rc_dec ob = (if o_count ob = 0 then Fault else Ok (ob\<lparr>o_count := o_count ob - 1\<rparr>))"

section \<open>The shape-walker\<close>

definition map_entry_children :: "bmap \<Rightarrow> slot \<times> elem \<Rightarrow> slot list" where
  "map_entry_children m e =
     (if m_key_owned m \<and> fst e \<noteq> 0 then [fst e] else []) @
     (if \<not> m_val_owned m then []
      else if \<not> m_wide m then filter (\<lambda>w. w \<noteq> 0) (snd e)
      else masked_children (snd e) (m_vmask m) False)"

text \<open>The non-null children of an object in the order \<^verbatim>\<open>cc_walk\<close> visits them.\<close>

fun body_children :: "payload \<Rightarrow> slot list" where
  "body_children Leaf = []"
| "body_children (Fixed pmask ws) = masked_children ws pmask False"
| "body_children (Extended ws) = filter (\<lambda>c. c \<noteq> 0) ws"
| "body_children (ListBody l) =
     concat (map (\<lambda>e. masked_children e (l_mask l) (l_stride l < 0)) (take (l_len l) (l_buf l)))"
| "body_children (MapBody m) = concat (map (map_entry_children m) (take (m_used m) (m_data m)))"
| "body_children (MutexBody inner) = (if inner \<noteq> 0 then [inner] else [])"
| "body_children (ArenaBody a) =
     concat (map (\<lambda>e. masked_children e (a_mask a) (a_stride a < 0)) (take (a_len a) (a_buf a)))"

text \<open>A loop over a list whose body may fail; \<^verbatim>\<open>cc_walk\<close> is the loop over an object's children.\<close>

fun rt_each :: "('a \<Rightarrow> 'c \<Rightarrow> 'c rt) \<Rightarrow> 'a list \<Rightarrow> 'c \<Rightarrow> 'c rt" where
  "rt_each fn [] ctx = Ok ctx"
| "rt_each fn (c # cs) ctx = rt_bind (fn c ctx) (rt_each fn cs)"

abbreviation cc_walk :: "(slot \<Rightarrow> 'c \<Rightarrow> 'c rt) \<Rightarrow> slot list \<Rightarrow> 'c \<Rightarrow> 'c rt" where
  "cc_walk \<equiv> rt_each"

type_synonym cc_ctx = "heap \<times> slot list"

definition cc_visit_push :: "slot \<Rightarrow> cc_ctx \<Rightarrow> cc_ctx rt" where
  "cc_visit_push c ctx =
     (case ctx of (h, st) \<Rightarrow>
        rt_bind (obj_at h c) (\<lambda>ob. Ok (h, if o_immortal ob then st else c # st)))"

definition cc_visit_dec_push :: "slot \<Rightarrow> cc_ctx \<Rightarrow> cc_ctx rt" where
  "cc_visit_dec_push c ctx =
     (case ctx of (h, st) \<Rightarrow>
        rt_bind (obj_at h c) (\<lambda>ob.
          if o_immortal ob then Ok (h, st)
          else rt_bind (rc_dec ob) (\<lambda>ob'. Ok (put_obj h c ob', c # st))))"

definition cc_visit_inc_push :: "slot \<Rightarrow> cc_ctx \<Rightarrow> cc_ctx rt" where
  "cc_visit_inc_push c ctx =
     (case ctx of (h, st) \<Rightarrow>
        rt_bind (obj_at h c) (\<lambda>ob.
          if o_immortal ob then Ok (h, st)
          else rt_bind (rc_inc ob) (\<lambda>ob'.
            if o_color ob' \<noteq> CC_BLACK then Ok (put_obj h c (ob'\<lparr>o_color := CC_BLACK\<rparr>), c # st)
            else Ok (put_obj h c ob', st))))"

definition cc_restore_edge :: "slot \<Rightarrow> heap \<Rightarrow> heap rt" where
  "cc_restore_edge c h =
     rt_bind (obj_at h c) (\<lambda>ob.
       if o_immortal ob then Ok h else rt_bind (rc_inc ob) (\<lambda>ob'. Ok (put_obj h c ob')))"

section \<open>Counting colours\<close>

definition color_at :: "heap \<Rightarrow> slot \<Rightarrow> color option" where
  "color_at h p = map_option o_color (map_of h p)"

definition painted :: "heap \<Rightarrow> color set \<Rightarrow> nat" where
  "painted h C = card {p. \<exists>c \<in> C. color_at h p = Some c}"

lemma map_of_put [simp]: "map_of (put_obj h p ob) q = (if q = p then Some ob else map_of h q)"
  by (simp add: put_obj_def update_conv')

lemma obj_at_Ok [simp]: "obj_at h p = Ok ob \<longleftrightarrow> map_of h p = Some ob"
  by (simp add: obj_at_def split: option.splits)

lemma obj_at_not_Panic [simp]: "obj_at h p \<noteq> Panic msg line col"
  by (simp add: obj_at_def split: option.splits)

lemma color_at_put [simp]: "color_at (put_obj h p ob) q = (if q = p then Some (o_color ob) else color_at h q)"
  by (simp add: color_at_def)

lemma finite_painted: "finite {p. \<exists>c \<in> C. color_at h p = Some c}"
  by (rule finite_subset [OF _ finite_dom_map_of [of h]]) (auto simp: color_at_def)

lemma painted_cong: "(\<And>q. color_at h' q = color_at h q) \<Longrightarrow> painted h' C = painted h C"
  by (simp add: painted_def)

lemma painted_leaves:
  assumes "color_at h p = Some c" "c \<in> C" "\<And>q. color_at h' q = (if q = p then Some c' else color_at h q)" "c' \<notin> C"
  shows "painted h C = Suc (painted h' C)"
proof -
  have "{q. \<exists>c \<in> C. color_at h q = Some c} = insert p {q. \<exists>c \<in> C. color_at h' q = Some c}"
    using assms by auto
  moreover have "p \<notin> {q. \<exists>c \<in> C. color_at h' q = Some c}" using assms by auto
  ultimately show ?thesis unfolding painted_def using finite_painted [of C h'] by simp
qed

lemma walk_keeps_colors:
  assumes "\<And>c x x'. fn c x = Ok x' \<Longrightarrow> color_at (fst x') = color_at (fst x)"
    and "cc_walk fn cs x = Ok x'"
  shows "color_at (fst x') = color_at (fst x)"
  using assms(2)
proof (induction cs arbitrary: x)
  case (Cons c cs)
  then obtain y where "fn c x = Ok y" "cc_walk fn cs y = Ok x'" by (auto simp: rt_bind_Ok_iff)
  with Cons.IH [of y] assms(1) show ?case by metis
qed simp

lemma rc_dec_Ok: "rc_dec ob = Ok ob' \<longleftrightarrow> o_count ob \<noteq> 0 \<and> ob' = ob\<lparr>o_count := o_count ob - 1\<rparr>"
  by (auto simp: rc_dec_def)

lemma rc_inc_Ok: "rc_inc ob = Ok ob' \<longleftrightarrow> o_count ob + 1 < 2 ^ 48 \<and> ob' = ob\<lparr>o_count := o_count ob + 1\<rparr>"
  by (auto simp: rc_inc_def)

lemma visit_dec_colors: "cc_visit_dec_push c x = Ok x' \<Longrightarrow> color_at (fst x') = color_at (fst x)"
  by (cases x) (auto simp: cc_visit_dec_push_def rc_dec_Ok rt_bind_Ok_iff color_at_def fun_eq_iff split: if_splits)

lemma visit_push_heap: "cc_visit_push c x = Ok x' \<Longrightarrow> fst x' = fst x"
  by (cases x) (auto simp: cc_visit_push_def rt_bind_Ok_iff)

lemma walk_push_heap: "cc_walk cc_visit_push cs x = Ok x' \<Longrightarrow> fst x' = fst x"
proof (induction cs arbitrary: x)
  case (Cons c cs)
  then obtain y where "cc_visit_push c x = Ok y" "cc_walk cc_visit_push cs y = Ok x'" by (auto simp: rt_bind_Ok_iff)
  with Cons.IH [of y] visit_push_heap show ?case by metis
qed simp

lemma visit_inc_painted:
  assumes "cc_visit_inc_push c x = Ok x'"
  shows "painted (fst x') (- {CC_BLACK}) + length (snd x') = painted (fst x) (- {CC_BLACK}) + length (snd x) \<and>
    (\<forall>q. color_at (fst x') q = color_at (fst x) q \<or> color_at (fst x') q = Some CC_BLACK)"
proof -
  obtain h st where x: "x = (h, st)" by (cases x)
  from assms obtain ob where ob: "map_of h c = Some ob" by (auto simp: x cc_visit_inc_push_def rt_bind_Ok_iff)
  show ?thesis
  proof (cases "o_immortal ob")
    case True
    with assms ob show ?thesis by (auto simp: x cc_visit_inc_push_def rt_bind_Ok_iff)
  next
    case False
    from assms ob False obtain ob' where ob': "rc_inc ob = Ok ob'" "o_color ob' = o_color ob"
      by (auto simp: x cc_visit_inc_push_def rt_bind_Ok_iff rc_inc_def split: if_splits)
    show ?thesis
    proof (cases "o_color ob = CC_BLACK")
      case True
      then have "x' = (put_obj h c ob', st)" using assms ob ob' False by (simp add: x cc_visit_inc_push_def obj_at_def)
      moreover have same: "color_at (put_obj h c ob') q = color_at h q" for q using ob ob' by (simp add: color_at_def)
      moreover have "painted (put_obj h c ob') (- {CC_BLACK}) = painted h (- {CC_BLACK})" by (rule painted_cong) (rule same)
      ultimately show ?thesis by (simp add: x)
    next
      case black: False
      let ?h = "put_obj h c (ob'\<lparr>o_color := CC_BLACK\<rparr>)"
      have x': "x' = (?h, c # st)" using assms ob ob' False black by (simp add: x cc_visit_inc_push_def obj_at_def)
      have "painted h (- {CC_BLACK}) = Suc (painted ?h (- {CC_BLACK}))"
        using ob black by (intro painted_leaves [of h c "o_color ob" _ ?h CC_BLACK]) (auto simp: color_at_def)
      then show ?thesis by (simp add: x x')
    qed
  qed
qed

lemma walk_inc_painted:
  "cc_walk cc_visit_inc_push cs x = Ok x' \<Longrightarrow>
    painted (fst x') (- {CC_BLACK}) + length (snd x') = painted (fst x) (- {CC_BLACK}) + length (snd x) \<and>
    (\<forall>q. color_at (fst x') q = color_at (fst x) q \<or> color_at (fst x') q = Some CC_BLACK)"
proof (induction cs arbitrary: x)
  case (Cons c cs)
  then obtain y where "cc_visit_inc_push c x = Ok y" "cc_walk cc_visit_inc_push cs y = Ok x'" by (auto simp: rt_bind_Ok_iff)
  with Cons.IH [of y] visit_inc_painted [of c x y] show ?case by metis
qed simp

section \<open>The phases of the collector\<close>

text \<open>Trial deletion: everything reachable turns gray and every edge walked takes one count away.\<close>

function mark_gray_loop :: "heap \<Rightarrow> slot list \<Rightarrow> heap rt" where
  "mark_gray_loop h [] = Ok h"
| "mark_gray_loop h (p # st) =
     rt_bind (obj_at h p) (\<lambda>ob.
       if o_color ob = CC_GRAY then mark_gray_loop h st
       else
         rt_bind (cc_walk cc_visit_dec_push (body_children (o_body ob))
                    (put_obj h p (ob\<lparr>o_color := CC_GRAY\<rparr>), st)) (\<lambda>x.
           mark_gray_loop (fst x) (snd x)))"
  by pat_completeness auto
termination
proof (relation "measures [\<lambda>(h, st). painted h (- {CC_GRAY}), \<lambda>(h, st). length st]")
  fix h p st ob x
  assume ob: "obj_at h p = Ok ob" "o_color ob \<noteq> CC_GRAY"
    and run: "cc_walk cc_visit_dec_push (body_children (o_body ob)) (put_obj h p (ob\<lparr>o_color := CC_GRAY\<rparr>), st) = Ok x"
  let ?h = "put_obj h p (ob\<lparr>o_color := CC_GRAY\<rparr>)"
  from walk_keeps_colors [OF visit_dec_colors run] have "color_at (fst x) = color_at ?h" by simp
  then have "painted (fst x) (- {CC_GRAY}) = painted ?h (- {CC_GRAY})" by (intro painted_cong) simp
  moreover have "painted h (- {CC_GRAY}) = Suc (painted ?h (- {CC_GRAY}))"
    using ob by (intro painted_leaves [of h p "o_color ob" _ ?h CC_GRAY]) (auto simp: color_at_def)
  ultimately show "((fst x, snd x), h, p # st) \<in>
      measures [\<lambda>(h, st). painted h (- {CC_GRAY}), \<lambda>(h, st). length st]" by (cases x) simp
qed simp_all

definition cc_mark_gray :: "heap \<Rightarrow> slot \<Rightarrow> heap rt" where
  "cc_mark_gray h root = mark_gray_loop h [root]"

text \<open>Restoring what an externally referenced object reaches.\<close>

function scan_black_loop :: "heap \<Rightarrow> slot list \<Rightarrow> heap rt" where
  "scan_black_loop h [] = Ok h"
| "scan_black_loop h (p # st) =
     rt_bind (obj_at h p) (\<lambda>ob.
       rt_bind (cc_walk cc_visit_inc_push (body_children (o_body ob)) (h, st)) (\<lambda>x.
         scan_black_loop (fst x) (snd x)))"
  by pat_completeness auto
termination
proof (relation "measure (\<lambda>(h, st). painted h (- {CC_BLACK}) + length st)")
  fix h p st ob x
  assume "cc_walk cc_visit_inc_push (body_children (o_body ob)) (h, st) = Ok x"
  from walk_inc_painted [OF this]
  show "((fst x, snd x), h, p # st) \<in> measure (\<lambda>(h, st). painted h (- {CC_BLACK}) + length st)" by (cases x) simp
qed simp

definition cc_scan_black :: "heap \<Rightarrow> slot \<Rightarrow> heap rt" where
  "cc_scan_black h root =
     rt_bind (obj_at h root) (\<lambda>ob. scan_black_loop (put_obj h root (ob\<lparr>o_color := CC_BLACK\<rparr>)) [root])"

lemma scan_black_loop_colors:
  "scan_black_loop h st = Ok h' \<Longrightarrow> color_at h' q = color_at h q \<or> color_at h' q = Some CC_BLACK"
proof (induction h st rule: scan_black_loop.induct)
  case (2 h p st)
  from "2.prems" obtain ob x where ob: "obj_at h p = Ok ob"
    and run: "cc_walk cc_visit_inc_push (body_children (o_body ob)) (h, st) = Ok x"
    and rest: "scan_black_loop (fst x) (snd x) = Ok h'" by (auto simp: rt_bind_Ok_iff simp del: obj_at_Ok)
  from "2.IH" [OF ob run rest] conjunct2 [OF walk_inc_painted [OF run], THEN spec, of q] show ?case by auto
qed simp

text \<open>Deciding each gray object: a count left over means a reference from outside.\<close>

function scan_loop :: "heap \<Rightarrow> slot list \<Rightarrow> heap rt" where
  "scan_loop h [] = Ok h"
| "scan_loop h (p # st) =
     rt_bind (obj_at h p) (\<lambda>ob.
       if o_color ob \<noteq> CC_GRAY then scan_loop h st
       else if o_count ob > 0 then rt_bind (cc_scan_black h p) (\<lambda>h'. scan_loop h' st)
       else
         rt_bind (cc_walk cc_visit_push (body_children (o_body ob))
                    (put_obj h p (ob\<lparr>o_color := CC_WHITE\<rparr>), st)) (\<lambda>x.
           scan_loop (fst x) (snd x)))"
  by pat_completeness auto
termination
proof (relation "measures [\<lambda>(h, st). painted h {CC_GRAY}, \<lambda>(h, st). length st]")
  fix h p st ob h'
  assume ob: "obj_at h p = Ok ob" "\<not> o_color ob \<noteq> CC_GRAY" and run: "cc_scan_black h p = Ok h'"
  let ?h = "put_obj h p (ob\<lparr>o_color := CC_BLACK\<rparr>)"
  from run ob have "scan_black_loop ?h [p] = Ok h'" by (simp add: cc_scan_black_def obj_at_def)
  from scan_black_loop_colors [OF this] have c: "color_at h' q = color_at ?h q \<or> color_at h' q = Some CC_BLACK" for q .
  have "color_at ?h q = Some CC_GRAY" if "color_at h' q = Some CC_GRAY" for q
    using c [of q] that by (simp del: color_at_put)
  then have "painted h' {CC_GRAY} \<le> painted ?h {CC_GRAY}"
    unfolding painted_def by (intro card_mono finite_painted) (auto simp del: color_at_put)
  moreover have "painted h {CC_GRAY} = Suc (painted ?h {CC_GRAY})"
    using ob by (intro painted_leaves [of h p "o_color ob" _ ?h CC_BLACK]) (auto simp: color_at_def)
  ultimately show "((h', st), h, p # st) \<in> measures [\<lambda>(h, st). painted h {CC_GRAY}, \<lambda>(h, st). length st]" by simp
next
  fix h p st ob x
  assume ob: "obj_at h p = Ok ob" "\<not> o_color ob \<noteq> CC_GRAY"
    and run: "cc_walk cc_visit_push (body_children (o_body ob)) (put_obj h p (ob\<lparr>o_color := CC_WHITE\<rparr>), st) = Ok x"
  let ?h = "put_obj h p (ob\<lparr>o_color := CC_WHITE\<rparr>)"
  have "fst x = ?h" using walk_push_heap [OF run] by simp
  moreover have "painted h {CC_GRAY} = Suc (painted ?h {CC_GRAY})"
    using ob by (intro painted_leaves [of h p "o_color ob" _ ?h CC_WHITE]) (auto simp: color_at_def)
  ultimately show "((fst x, snd x), h, p # st) \<in> measures [\<lambda>(h, st). painted h {CC_GRAY}, \<lambda>(h, st). length st]"
    by (cases x) simp
qed simp_all

definition cc_scan :: "heap \<Rightarrow> slot \<Rightarrow> heap rt" where
  "cc_scan h root = scan_loop h [root]"

text \<open>Gathering the white set; a member still buffered waits for its own turn.\<close>

function collect_white_loop :: "heap \<Rightarrow> slot list \<Rightarrow> slot list \<Rightarrow> (heap \<times> slot list) rt" where
  "collect_white_loop h [] dead = Ok (h, dead)"
| "collect_white_loop h (p # st) dead =
     rt_bind (obj_at h p) (\<lambda>ob.
       if o_color ob \<noteq> CC_WHITE \<or> o_buf ob then collect_white_loop h st dead
       else
         rt_bind (cc_walk cc_visit_push (body_children (o_body ob))
                    (put_obj h p (ob\<lparr>o_color := CC_BLACK\<rparr>), st)) (\<lambda>x.
           collect_white_loop (fst x) (snd x) (dead @ [p])))"
  by pat_completeness auto
termination
proof (relation "measures [\<lambda>(h, st, dead). painted h {CC_WHITE}, \<lambda>(h, st, dead). length st]")
  fix h p st ob x and dead :: "slot list"
  assume ob: "obj_at h p = Ok ob" "\<not> (o_color ob \<noteq> CC_WHITE \<or> o_buf ob)"
    and run: "cc_walk cc_visit_push (body_children (o_body ob)) (put_obj h p (ob\<lparr>o_color := CC_BLACK\<rparr>), st) = Ok x"
  let ?h = "put_obj h p (ob\<lparr>o_color := CC_BLACK\<rparr>)"
  have "fst x = ?h" using walk_push_heap [OF run] by simp
  moreover have "painted h {CC_WHITE} = Suc (painted ?h {CC_WHITE})"
    using ob by (intro painted_leaves [of h p "o_color ob" _ ?h CC_BLACK]) (auto simp: color_at_def)
  ultimately show "((fst x, snd x, dead @ [p]), h, p # st, dead) \<in>
      measures [\<lambda>(h, st, dead). painted h {CC_WHITE}, \<lambda>(h, st, dead). length st]" by (cases x) simp
qed simp_all

definition cc_collect_white :: "heap \<Rightarrow> slot \<Rightarrow> slot list \<Rightarrow> (heap \<times> slot list) rt" where
  "cc_collect_white h root dead = collect_white_loop h [root] dead"

declare mark_gray_loop.simps [simp del] scan_black_loop.simps [simp del]
  scan_loop.simps [simp del] collect_white_loop.simps [simp del]

section \<open>State of the memory manager\<close>

record cc =
  c_heap :: heap
  c_roots :: "slot list"
  c_cap :: nat
  c_threshold :: nat
  c_walk_min :: nat
  c_pending :: bool
  c_collecting :: bool
  c_in_deinit :: nat

definition put_at :: "cc \<Rightarrow> slot \<Rightarrow> obj \<Rightarrow> cc" where
  "put_at s p ob = s\<lparr>c_heap := put_obj (c_heap s) p ob\<rparr>"

section \<open>The buffer of possible roots\<close>

function root_room :: "nat \<Rightarrow> nat \<Rightarrow> nat rt" where
  "root_room cap' needed =
     (if cap' < needed then
        if cap' > 2 ^ 60 then Panic (asc ''cycle root buffer too large'') 0 0
        else if cap' = 0 then Fault
        else root_room (cap' * 2) needed
      else Ok cap')"
  by auto
termination by (relation "measure (\<lambda>(cap', needed). needed - cap')") auto

declare root_room.simps [simp del]

definition cc_append_roots :: "(u64 \<Rightarrow> bool) \<Rightarrow> cc \<Rightarrow> slot list \<Rightarrow> cc rt" where
  "cc_append_roots alloc s new =
     (if new = [] then Ok s
      else
        let needed = length (c_roots s) + length new in
        if needed \<ge> 2 ^ 63 then Panic (asc ''cycle root buffer too large'') 0 0
        else
          rt_bind
            (if needed > c_cap s then
               rt_bind (root_room (if c_cap s \<noteq> 0 then c_cap s * 2 else 1024) needed) (\<lambda>cap'.
                 if \<not> alloc (of_nat cap' * 8) then out_of_memory 0 0 else Ok (s\<lparr>c_cap := cap'\<rparr>))
             else Ok s) (\<lambda>s.
          let s = s\<lparr>c_roots := c_roots s @ new\<rparr> in
          Ok (if length (c_roots s) \<ge> c_threshold s then s\<lparr>c_pending := True\<rparr> else s)))"

definition cc_possible_root :: "(u64 \<Rightarrow> bool) \<Rightarrow> slot \<Rightarrow> cc \<Rightarrow> cc rt" where
  "cc_possible_root alloc p s =
     rt_bind (obj_at (c_heap s) p) (\<lambda>ob.
       let s = put_at s p (ob\<lparr>o_color := CC_PURPLE, o_buf := True\<rparr>) in
       if o_buf ob then Ok s else cc_append_roots alloc s [p])"

section \<open>Reference counts and death\<close>

definition beans_retain :: "slot \<Rightarrow> cc \<Rightarrow> cc rt" where
  "beans_retain p s =
     (if p = 0 then Ok s
      else rt_bind (obj_at (c_heap s) p) (\<lambda>ob.
        if o_immortal ob then Ok s else rt_bind (rc_inc ob) (\<lambda>ob'. Ok (put_at s p ob'))))"

definition cc_free_shell :: "heap \<Rightarrow> slot \<Rightarrow> heap" where
  "cc_free_shell h p = AList.delete p h"

text \<open>
  The death of an object with a deinit: the body runs with a count of one held and the flag cleared, and
  the count is put back whatever the body did to it.
\<close>

definition beans_do_deinit :: "(slot \<Rightarrow> cc \<Rightarrow> cc rt) \<Rightarrow> slot \<Rightarrow> cc \<Rightarrow> cc rt" where
  "beans_do_deinit deinit p s =
     rt_bind (obj_at (c_heap s) p) (\<lambda>ob.
     rt_bind (rc_inc ob) (\<lambda>ob'.
     rt_bind (deinit p ((put_at s p (ob'\<lparr>o_fin := False\<rparr>))\<lparr>c_in_deinit := c_in_deinit s + 1\<rparr>)) (\<lambda>s.
     rt_bind (obj_at (c_heap s) p) (\<lambda>now.
       Ok ((put_at s p (now\<lparr>o_count := o_count ob, o_fin := False\<rparr>))\<lparr>c_in_deinit := c_in_deinit s - 1\<rparr>)))))"

text \<open>The children go to the work stack; a buffered shell stays as a black husk.\<close>

definition rt_finish_death :: "slot \<Rightarrow> cc \<times> slot list \<Rightarrow> (cc \<times> slot list) rt" where
  "rt_finish_death p x =
     (case x of (s, st) \<Rightarrow>
        rt_bind (obj_at (c_heap s) p) (\<lambda>ob.
        rt_bind (cc_walk cc_visit_push (body_children (o_body ob)) (c_heap s, st)) (\<lambda>(h, st).
          if o_buf ob then Ok (s\<lparr>c_heap := put_obj h p (ob\<lparr>o_color := CC_BLACK\<rparr>)\<rparr>, st)
          else Ok (s\<lparr>c_heap := cc_free_shell h p\<rparr>, st))))"

text \<open>Whether the shape of an object has room for an outgoing edge.\<close>

fun may_cycle :: "payload \<Rightarrow> bool" where
  "may_cycle Leaf = False"
| "may_cycle (Fixed pmask _) = (pmask \<noteq> 0)"
| "may_cycle (Extended _) = True"
| "may_cycle (ListBody l) = (l_mask l \<noteq> 0)"
| "may_cycle (MapBody m) = (m_key_owned m \<or> m_val_owned m)"
| "may_cycle (MutexBody _) = True"
| "may_cycle (ArenaBody a) = (a_mask a \<noteq> 0)"

text \<open>One turn of the cascade of \<^verbatim>\<open>beans_release\<close>.\<close>

definition release_one ::
    "(u64 \<Rightarrow> bool) \<Rightarrow> (slot \<Rightarrow> cc \<Rightarrow> cc rt) \<Rightarrow> cc \<Rightarrow> slot \<Rightarrow> slot list \<Rightarrow> (cc \<times> slot list) rt" where
  "release_one alloc deinit s cur st =
     rt_bind (obj_at (c_heap s) cur) (\<lambda>ob.
       if o_immortal ob then Ok (s, st)
       else
         rt_bind (rc_dec ob) (\<lambda>ob'.
           let s = put_at s cur ob' in
           if o_count ob' = 0 then
             rt_bind (if o_fin ob' then beans_do_deinit deinit cur s else Ok s) (\<lambda>s. rt_finish_death cur (s, st))
           else if may_cycle (o_body ob) then rt_bind (cc_possible_root alloc cur s) (\<lambda>s. Ok (s, st))
           else Ok (s, st)))"

partial_function (option) release_loop ::
    "(u64 \<Rightarrow> bool) \<Rightarrow> (slot \<Rightarrow> cc \<Rightarrow> cc rt) \<Rightarrow> cc \<Rightarrow> slot \<Rightarrow> slot list \<Rightarrow> cc rt option" where
  "release_loop alloc deinit s cur st =
     (case release_one alloc deinit s cur st of
        Ok (s', []) \<Rightarrow> Some (Ok s')
      | Ok (s', c # st') \<Rightarrow> release_loop alloc deinit s' c st'
      | Panic msg line col \<Rightarrow> Some (Panic msg line col)
      | Fault \<Rightarrow> Some Fault)"

definition beans_release :: "(u64 \<Rightarrow> bool) \<Rightarrow> (slot \<Rightarrow> cc \<Rightarrow> cc rt) \<Rightarrow> slot \<Rightarrow> cc \<Rightarrow> cc rt option" where
  "beans_release alloc deinit p s = (if p = 0 then Some (Ok s) else release_loop alloc deinit s p [])"

text \<open>Sequencing of calls that may also not return.\<close>

fun then_do :: "'a rt option \<Rightarrow> ('a \<Rightarrow> 'b rt option) \<Rightarrow> 'b rt option" where
  "then_do None f = None"
| "then_do (Some (Ok x)) f = f x"
| "then_do (Some (Panic msg line col)) f = Some (Panic msg line col)"
| "then_do (Some Fault) f = Some Fault"

fun release_all :: "(u64 \<Rightarrow> bool) \<Rightarrow> (slot \<Rightarrow> cc \<Rightarrow> cc rt) \<Rightarrow> slot list \<Rightarrow> cc \<Rightarrow> cc rt option" where
  "release_all alloc deinit [] s = Some (Ok s)"
| "release_all alloc deinit (p # ps) s = then_do (beans_release alloc deinit p s) (release_all alloc deinit ps)"

section \<open>A collection\<close>

text \<open>
  The deinit bodies of one dead cycle run with true counts: the trial deletions of the set are undone,
  every member is held, and afterwards the members are parked again and their holds dropped. The
  answer says whether the set was taken over.
\<close>

definition run_member_deinit :: "(slot \<Rightarrow> cc \<Rightarrow> cc rt) \<Rightarrow> slot \<Rightarrow> cc \<Rightarrow> cc rt" where
  "run_member_deinit deinit p s =
     rt_bind (obj_at (c_heap s) p) (\<lambda>ob. if o_fin ob then beans_do_deinit deinit p s else Ok s)"

definition rt_cycle_deinits_finish ::
    "(u64 \<Rightarrow> bool) \<Rightarrow> (slot \<Rightarrow> cc \<Rightarrow> cc rt) \<Rightarrow> slot list \<Rightarrow> cc \<Rightarrow> cc rt option" where
  "rt_cycle_deinits_finish alloc deinit dead s =
     then_do (Some (rt_bind (rt_each (run_member_deinit deinit) dead s) (rt_each (cc_possible_root alloc) dead)))
       (release_all alloc deinit dead)"

definition has_fin :: "heap \<Rightarrow> slot \<Rightarrow> bool" where
  "has_fin h p = (case map_of h p of None \<Rightarrow> False | Some ob \<Rightarrow> o_fin ob)"

definition restore_member :: "slot \<Rightarrow> cc \<Rightarrow> cc rt" where
  "restore_member p s =
     rt_bind (obj_at (c_heap s) p) (\<lambda>ob.
     rt_bind (cc_walk cc_restore_edge (body_children (o_body ob)) (c_heap s)) (\<lambda>h. Ok (s\<lparr>c_heap := h\<rparr>)))"

definition cc_run_cycle_deinits ::
    "(u64 \<Rightarrow> bool) \<Rightarrow> (slot \<Rightarrow> cc \<Rightarrow> cc rt) \<Rightarrow> slot list \<Rightarrow> cc \<Rightarrow> (cc \<times> bool) rt option" where
  "cc_run_cycle_deinits alloc deinit dead s =
     (if \<not> list_ex (has_fin (c_heap s)) dead then Some (Ok (s, False))
      else
        then_do (Some (rt_bind (rt_each restore_member dead s) (rt_each beans_retain dead))) (\<lambda>s.
        then_do (rt_cycle_deinits_finish alloc deinit dead s) (\<lambda>s. Some (Ok (s, True)))))"

definition cc_free_one :: "slot \<Rightarrow> heap \<Rightarrow> heap rt" where
  "cc_free_one p h =
     rt_bind (obj_at h p) (\<lambda>ob.
       if o_buf ob then Ok (put_obj h p (ob\<lparr>o_color := CC_BLACK\<rparr>)) else Ok (cc_free_shell h p))"

definition cc_free_cycle_shells :: "slot list \<Rightarrow> cc \<Rightarrow> cc rt" where
  "cc_free_cycle_shells dead s = rt_bind (rt_each cc_free_one dead (c_heap s)) (\<lambda>h. Ok (s\<lparr>c_heap := h\<rparr>))"

text \<open>The cheap half: live purple candidates stay, husks are freed, everything else drops out.\<close>

fun cc_filter :: "heap \<Rightarrow> slot list \<Rightarrow> (heap \<times> slot list) rt" where
  "cc_filter h [] = Ok (h, [])"
| "cc_filter h (p # ps) =
     rt_bind (obj_at h p) (\<lambda>ob.
       if o_color ob = CC_PURPLE \<and> o_count ob > 0 then rt_bind (cc_filter h ps) (\<lambda>(h, n). Ok (h, p # n))
       else if o_count ob = 0 then cc_filter (cc_free_shell h p) ps
       else cc_filter (put_obj h p (ob\<lparr>o_buf := False\<rparr>)) ps)"

definition cc_collect_root :: "slot \<Rightarrow> heap \<times> slot list \<Rightarrow> (heap \<times> slot list) rt" where
  "cc_collect_root p x =
     (case x of (h, dead) \<Rightarrow>
        rt_bind (obj_at h p) (\<lambda>ob. cc_collect_white (put_obj h p (ob\<lparr>o_buf := False\<rparr>)) p dead))"

text \<open>The expensive half: mark, scan and collect from every candidate.\<close>

definition trial_deletion :: "slot list \<Rightarrow> heap \<Rightarrow> (heap \<times> slot list) rt" where
  "trial_deletion ps h =
     rt_bind (rt_each (\<lambda>p h. cc_mark_gray h p) ps h) (\<lambda>h.
     rt_bind (rt_each (\<lambda>p h. cc_scan h p) ps h) (\<lambda>h.
       rt_each cc_collect_root ps (h, [])))"

definition cc_collect ::
    "(u64 \<Rightarrow> bool) \<Rightarrow> (slot \<Rightarrow> cc \<Rightarrow> cc rt) \<Rightarrow> bool \<Rightarrow> cc \<Rightarrow> cc rt option" where
  "cc_collect alloc deinit force s =
     (if c_collecting s \<or> c_in_deinit s \<noteq> 0 then Some (Ok s)
      else
        then_do (Some (rt_bind (cc_filter (c_heap s) (c_roots s)) (\<lambda>(h, kept).
          let walk = (kept \<noteq> [] \<and> (force \<or> length kept \<ge> c_walk_min s)) in
          rt_bind (if walk then trial_deletion kept h else Ok (h, [])) (\<lambda>(h, dead).
          let n = (if walk then [] else kept) in
          Ok (s\<lparr>c_heap := h, c_roots := n, c_collecting := True,
                c_walk_min := (if \<not> walk then c_walk_min s else if dead \<noteq> [] then 256
                               else if c_walk_min s * 4 > 2 ^ 18 then 2 ^ 18 else c_walk_min s * 4),
                c_threshold := length n * 2 + 256, c_pending := False\<rparr>, dead))))) (\<lambda>(s, dead).
        then_do (cc_run_cycle_deinits alloc deinit dead s) (\<lambda>(s, taken).
        then_do (Some (if taken then Ok s else cc_free_cycle_shells dead s)) (\<lambda>s.
          Some (Ok (s\<lparr>c_collecting := False\<rparr>))))))"

section \<open>Allocation and boxes\<close>

text \<open>
  Allocation is the point where a pending collection runs. Where the block comes from (a pool, a slab or
  the host) is the parameter \<open>fresh\<close>: an address that no object of the heap has.
\<close>

definition beans_alloc ::
    "(u64 \<Rightarrow> bool) \<Rightarrow> (heap \<Rightarrow> slot) \<Rightarrow> (slot \<Rightarrow> cc \<Rightarrow> cc rt) \<Rightarrow> u64 \<Rightarrow> payload \<Rightarrow> cc \<Rightarrow> (cc \<times> slot) rt option" where
  "beans_alloc alloc fresh deinit size' body s =
     then_do (if c_pending s \<and> \<not> c_collecting s then cc_collect alloc deinit False s else Some (Ok s)) (\<lambda>s.
       if \<not> alloc ((16 + size' + 15) AND NOT 15) then Some (out_of_memory 0 0)
       else
         let p = fresh (c_heap s) in
         Some (Ok (put_at s p \<lparr>o_count = 1, o_immortal = False, o_fin = False, o_color = CC_BLACK, o_buf = False,
                               o_body = body\<rparr>, p)))"

definition beans_box_new_typed ::
    "(u64 \<Rightarrow> bool) \<Rightarrow> (heap \<Rightarrow> slot) \<Rightarrow> (slot \<Rightarrow> cc \<Rightarrow> cc rt) \<Rightarrow> elem \<Rightarrow> int \<Rightarrow> u64 \<Rightarrow> u64 \<Rightarrow> cc \<Rightarrow> (cc \<times> slot) rt option" where
  "beans_box_new_typed alloc fresh deinit value' size' ptr_mask cycle_mask s =
     (if size' \<le> 0 \<or> size' > 2 ^ 30 then Some (Panic (asc ''invalid box value size'') 0 0)
      else
        then_do (beans_alloc alloc fresh deinit (of_int size') (Fixed ptr_mask value') s) (\<lambda>(s, box).
        then_do (Some (if cycle_mask \<noteq> 0 then cc_possible_root alloc box s else Ok s)) (\<lambda>s. Some (Ok (s, box)))))"

definition beans_box_get_typed :: "slot \<Rightarrow> cc \<Rightarrow> elem rt" where
  "beans_box_get_typed box s =
     rt_bind (obj_at (c_heap s) box) (\<lambda>ob. case o_body ob of Fixed _ value' \<Rightarrow> Ok value' | _ \<Rightarrow> Fault)"

text \<open>The store stands before the old value is released, from its last pointer down.\<close>

definition beans_box_set_typed ::
    "(u64 \<Rightarrow> bool) \<Rightarrow> (slot \<Rightarrow> cc \<Rightarrow> cc rt) \<Rightarrow> slot \<Rightarrow> elem \<Rightarrow> u64 \<Rightarrow> u64 \<Rightarrow> cc \<Rightarrow> cc rt option" where
  "beans_box_set_typed alloc deinit box value' ptr_mask cycle_mask s =
     then_do (Some (obj_at (c_heap s) box)) (\<lambda>ob.
       case o_body ob of
         Fixed pmask old \<Rightarrow>
           let s = put_at s box (ob\<lparr>o_body := Fixed pmask value'\<rparr>) in
           then_do (Some (if cycle_mask \<noteq> 0 then cc_possible_root alloc box s else Ok s))
             (release_all alloc deinit (rev (masked_children old ptr_mask False)))
       | _ \<Rightarrow> Some Fault)"

end
