(* ===== verification/Rt_Heap_Spec.thy ===== *)
theory Rt_Heap_Spec
  imports Rt_Heap "HOL-Library.Multiset"
begin

text \<open>
  What the memory manager maintains. The live objects are the mortal ones with a count above zero; an
  edge of the heap is a pointer from a live object to a mortal one. \<open>ext p\<close> is the number of references
  to \<open>p\<close> held outside the heap (by the program, or by a work stack). The heap is well formed when the
  count of every live object is exactly its external references plus the edges that end in it.
\<close>

unbundle bit_operations_syntax

section \<open>Edges and counts\<close>

definition mortal_at :: "heap \<Rightarrow> slot \<Rightarrow> bool" where
  "mortal_at h p = (case map_of h p of None \<Rightarrow> False | Some ob \<Rightarrow> \<not> o_immortal ob)"

definition count_at :: "heap \<Rightarrow> slot \<Rightarrow> nat" where
  "count_at h p = (case map_of h p of None \<Rightarrow> 0 | Some ob \<Rightarrow> o_count ob)"

definition buf_at :: "heap \<Rightarrow> slot \<Rightarrow> bool" where
  "buf_at h p = (case map_of h p of None \<Rightarrow> False | Some ob \<Rightarrow> o_buf ob)"

definition all_kids :: "heap \<Rightarrow> slot \<Rightarrow> slot list" where
  "all_kids h p = (case map_of h p of None \<Rightarrow> [] | Some ob \<Rightarrow> body_children (o_body ob))"

definition kids :: "heap \<Rightarrow> slot \<Rightarrow> slot list" where
  "kids h p = filter (mortal_at h) (all_kids h p)"

definition live_objs :: "heap \<Rightarrow> slot set" where
  "live_objs h = {p. mortal_at h p \<and> 0 < count_at h p}"

definition heap_edges :: "heap \<Rightarrow> (slot \<times> slot) set" where
  "heap_edges h = {(p, q). p \<in> live_objs h \<and> q \<in> set (kids h p)}"

text \<open>The edges from a set of objects to one object.\<close>

definition edges_into :: "heap \<Rightarrow> slot set \<Rightarrow> slot \<Rightarrow> nat" where
  "edges_into h A q = (\<Sum>p\<in>A. count_list (kids h p) q)"

definition reached :: "heap \<Rightarrow> slot set \<Rightarrow> slot set" where
  "reached h A = (heap_edges h)\<^sup>* `` A"

definition held :: "(slot \<Rightarrow> nat) \<Rightarrow> slot set" where
  "held ext = {p. 0 < ext p}"

definition heap_ok :: "heap \<Rightarrow> (slot \<Rightarrow> nat) \<Rightarrow> bool" where
  "heap_ok h ext \<longleftrightarrow>
     map_of h 0 = None \<and>
     (\<forall>p. count_at h p < 2 ^ 48) \<and>
     (\<forall>p \<in> live_objs h. \<forall>c \<in> set (all_kids h p). map_of h c \<noteq> None \<and> (mortal_at h c \<longrightarrow> c \<in> live_objs h)) \<and>
     (\<forall>p \<in> live_objs h. count_at h p = ext p + edges_into h (live_objs h) p) \<and>
     held ext \<subseteq> live_objs h"

text \<open>
  The buffer of candidates: it holds exactly the buffered objects, once each; candidates alive are purple
  and husks black; and every live object the program cannot reach is reached from a live candidate.
\<close>

definition roots_ok :: "heap \<Rightarrow> slot list \<Rightarrow> bool" where
  "roots_ok h roots \<longleftrightarrow>
     distinct roots \<and> set roots = {p. buf_at h p} \<and>
     (\<forall>p. mortal_at h p \<longrightarrow>
        (if buf_at h p then color_at h p = Some (if 0 < count_at h p then CC_PURPLE else CC_BLACK)
         else color_at h p = Some CC_BLACK \<and> 0 < count_at h p)) \<and>
     (\<forall>p. buf_at h p \<longrightarrow> mortal_at h p)"

definition garbage_found :: "heap \<Rightarrow> (slot \<Rightarrow> nat) \<Rightarrow> slot list \<Rightarrow> bool" where
  "garbage_found h ext roots \<longleftrightarrow>
     live_objs h - reached h (held ext) \<subseteq> reached h (set roots \<inter> live_objs h)"

definition memory_ok :: "cc \<Rightarrow> (slot \<Rightarrow> nat) \<Rightarrow> bool" where
  "memory_ok s ext \<longleftrightarrow>
     heap_ok (c_heap s) ext \<and> roots_ok (c_heap s) (c_roots s) \<and> garbage_found (c_heap s) ext (c_roots s) \<and>
     \<not> c_collecting s \<and> c_in_deinit s = 0"

section \<open>Basic facts\<close>

lemma finite_live: "finite (live_objs h)"
  by (rule finite_subset [OF _ finite_dom_map_of [of h]]) (auto simp: live_objs_def mortal_at_def split: option.splits)

lemma finite_heap_edges: "finite (heap_edges h)"
proof -
  have "heap_edges h \<subseteq> Sigma (live_objs h) (\<lambda>p. set (kids h p))" by (auto simp: heap_edges_def)
  then show ?thesis by (rule finite_subset) (simp add: finite_live)
qed

lemma edges_into_disjoint:
  "finite A \<Longrightarrow> finite B \<Longrightarrow> A \<inter> B = {} \<Longrightarrow> edges_into h (A \<union> B) q = edges_into h A q + edges_into h B q"
  by (simp add: edges_into_def sum.union_disjoint)

lemma edges_into_insert:
  "finite A \<Longrightarrow> p \<notin> A \<Longrightarrow> edges_into h (insert p A) q = count_list (kids h p) q + edges_into h A q"
  by (simp add: edges_into_def)

lemma edges_into_mono: "finite B \<Longrightarrow> A \<subseteq> B \<Longrightarrow> edges_into h A q \<le> edges_into h B q"
  unfolding edges_into_def by (rule sum_mono2) auto

lemma edges_into_diff:
  "finite B \<Longrightarrow> A \<subseteq> B \<Longrightarrow> edges_into h (B - A) q = edges_into h B q - edges_into h A q"
  unfolding edges_into_def by (rule sum_diff_nat) (auto intro: finite_subset)

lemma edges_into_zero_iff: "finite A \<Longrightarrow> edges_into h A q = 0 \<longleftrightarrow> (\<forall>p \<in> A. q \<notin> set (kids h p))"
  by (simp add: edges_into_def count_list_0_iff)

lemma edges_into_pos: "finite A \<Longrightarrow> p \<in> A \<Longrightarrow> q \<in> set (kids h p) \<Longrightarrow> 0 < edges_into h A q"
  using edges_into_zero_iff [of A h q] by (meson neq0_conv)

lemma reached_refl: "A \<subseteq> reached h A"
  by (auto simp: reached_def)

lemma reached_step: "p \<in> reached h A \<Longrightarrow> p \<in> live_objs h \<Longrightarrow> q \<in> set (kids h p) \<Longrightarrow> q \<in> reached h A"
  by (auto simp: reached_def heap_edges_def intro: rtrancl_into_rtrancl)

lemma reached_mono: "A \<subseteq> B \<Longrightarrow> reached h A \<subseteq> reached h B"
  by (auto simp: reached_def)

text \<open>A set that holds \<open>A\<close> and is closed under edges holds everything reached from \<open>A\<close>.\<close>

lemma reached_least:
  assumes "A \<subseteq> C" "\<And>p q. p \<in> C \<Longrightarrow> p \<in> live_objs h \<Longrightarrow> q \<in> set (kids h p) \<Longrightarrow> q \<in> C"
  shows "reached h A \<subseteq> C"
proof
  fix q assume "q \<in> reached h A"
  then obtain p where "p \<in> A" "(p, q) \<in> (heap_edges h)\<^sup>*" by (auto simp: reached_def)
  from this(2) show "q \<in> C"
    by (induction rule: rtrancl_induct) (use \<open>p \<in> A\<close> assms in \<open>auto simp: heap_edges_def\<close>)
qed

lemma kids_live:
  assumes "heap_ok h ext" "p \<in> live_objs h" "q \<in> set (kids h p)"
  shows "q \<in> live_objs h"
  using assms by (auto simp: heap_ok_def kids_def)

lemma reached_live:
  assumes "heap_ok h ext" "A \<subseteq> live_objs h"
  shows "reached h A \<subseteq> live_objs h"
  using reached_least [OF assms(2)] kids_live [OF assms(1)] by blast

end
