(* ===== verification/Rt_Collect.thy ===== *)
theory Rt_Collect
  imports Rt_Heap_Spec
begin

text \<open>
  Trial deletion is exact: marking takes away every edge among the objects reached from the candidates,
  scanning gives back what externally referenced objects reach, and what stays white has no reference
  from outside. The phases change counts, colours and buffer bits, never the shape of the heap.
\<close>

unbundle bit_operations_syntax

section \<open>Heaps of the same shape\<close>

definition same_struct :: "heap \<Rightarrow> heap \<Rightarrow> bool" where
  "same_struct h h' \<longleftrightarrow>
     (\<forall>p. map_option (\<lambda>ob. (o_immortal ob, o_fin ob, o_body ob)) (map_of h' p) =
          map_option (\<lambda>ob. (o_immortal ob, o_fin ob, o_body ob)) (map_of h p))"

lemma same_struct_refl [simp]: "same_struct h h"
  by (simp add: same_struct_def)

lemma same_struct_trans: "same_struct h h' \<Longrightarrow> same_struct h' h'' \<Longrightarrow> same_struct h h''"
  by (simp add: same_struct_def)

lemma same_struct_dom: "same_struct h h' \<Longrightarrow> map_of h' p = None \<longleftrightarrow> map_of h p = None"
  unfolding same_struct_def by (drule spec [of _ p]) (cases "map_of h p"; cases "map_of h' p"; simp)

lemma same_struct_at:
  assumes "same_struct h h'"
  shows "mortal_at h' p = mortal_at h p" "all_kids h' p = all_kids h p" "has_fin h' p = has_fin h p"
proof -
  have "map_option (\<lambda>ob. (o_immortal ob, o_fin ob, o_body ob)) (map_of h' p) =
      map_option (\<lambda>ob. (o_immortal ob, o_fin ob, o_body ob)) (map_of h p)" using assms by (simp add: same_struct_def)
  then show "mortal_at h' p = mortal_at h p" "all_kids h' p = all_kids h p" "has_fin h' p = has_fin h p"
    by (cases "map_of h p"; cases "map_of h' p"; simp add: mortal_at_def all_kids_def has_fin_def)+
qed

lemma same_struct_kids: "same_struct h h' \<Longrightarrow> kids h' p = kids h p"
  by (simp add: kids_def same_struct_at cong: filter_cong)

lemma same_struct_edges: "same_struct h h' \<Longrightarrow> edges_into h' A q = edges_into h A q"
  by (simp add: edges_into_def same_struct_kids)

lemma same_struct_put:
  "map_of h p = Some ob \<Longrightarrow> o_immortal ob' = o_immortal ob \<Longrightarrow> o_fin ob' = o_fin ob \<Longrightarrow> o_body ob' = o_body ob \<Longrightarrow>
    same_struct h (put_obj h p ob')"
  by (simp add: same_struct_def)

lemma at_put [simp]:
  "count_at (put_obj h p ob) q = (if q = p then o_count ob else count_at h q)"
  "buf_at (put_obj h p ob) q = (if q = p then o_buf ob else buf_at h q)"
  "mortal_at (put_obj h p ob) q = (if q = p then \<not> o_immortal ob else mortal_at h q)"
  by (simp_all add: count_at_def buf_at_def mortal_at_def)

lemma at_some:
  assumes "map_of h p = Some ob"
  shows "count_at h p = o_count ob" "buf_at h p = o_buf ob" "mortal_at h p \<longleftrightarrow> \<not> o_immortal ob"
    "color_at h p = Some (o_color ob)" "all_kids h p = body_children (o_body ob)" "has_fin h p = o_fin ob"
  using assms by (simp_all add: count_at_def buf_at_def mortal_at_def color_at_def all_kids_def has_fin_def)

lemma mortal_dom: "mortal_at h p \<Longrightarrow> \<exists>ob. map_of h p = Some ob \<and> \<not> o_immortal ob"
  by (auto simp: mortal_at_def split: option.splits)

section \<open>Visitors over the children of one object\<close>

text \<open>Only the counts differ.\<close>

definition recounted :: "heap \<Rightarrow> (slot \<Rightarrow> nat) \<Rightarrow> heap \<Rightarrow> bool" where
  "recounted h f h' \<longleftrightarrow>
     same_struct h h' \<and> color_at h' = color_at h \<and> buf_at h' = buf_at h \<and> count_at h' = f"

lemma visit_dec_step:
  assumes "map_of h c = Some ob" "mortal_at h c \<longrightarrow> 0 < count_at h c"
  shows "\<exists>h'. cc_visit_dec_push c (h, st) = Ok (h', if mortal_at h c then c # st else st) \<and>
    recounted h (\<lambda>q. count_at h q - count_list (filter (mortal_at h) [c]) q) h'"
proof (cases "mortal_at h c")
  case True
  then have "\<not> o_immortal ob" "o_count ob \<noteq> 0" using assms at_some [OF assms(1)] by auto
  then show ?thesis using assms True at_some [OF assms(1)]
    by (auto simp: cc_visit_dec_push_def obj_at_def rc_dec_def recounted_def fun_eq_iff intro!: same_struct_put)
qed (use assms at_some [OF assms(1)] in
  \<open>auto simp: cc_visit_dec_push_def obj_at_def recounted_def\<close>)

lemma walk_dec:
  assumes "\<And>c. c \<in> set cs \<Longrightarrow> map_of h c \<noteq> None" "\<And>q. count_list (filter (mortal_at h) cs) q \<le> count_at h q"
  shows "\<exists>h'. cc_walk cc_visit_dec_push cs (h, st) = Ok (h', rev (filter (mortal_at h) cs) @ st) \<and>
    recounted h (\<lambda>q. count_at h q - count_list (filter (mortal_at h) cs) q) h'"
  using assms
proof (induction cs arbitrary: h st)
  case Nil
  then show ?case by (auto simp: recounted_def)
next
  case (Cons c cs)
  obtain ob where ob: "map_of h c = Some ob" using Cons.prems(1) [of c] by auto
  have "mortal_at h c \<longrightarrow> 0 < count_at h c" using Cons.prems(2) [of c] by auto
  from visit_dec_step [OF ob this, of st] obtain h1 where
    h1: "cc_visit_dec_push c (h, st) = Ok (h1, if mortal_at h c then c # st else st)"
      "recounted h (\<lambda>q. count_at h q - count_list (filter (mortal_at h) [c]) q) h1" by blast
  have m: "mortal_at h1 = mortal_at h" using h1(2) same_struct_at(1) by (auto simp: recounted_def fun_eq_iff)
  have dom: "map_of h1 c' \<noteq> None" if "c' \<in> set cs" for c'
    using Cons.prems(1) [of c'] that h1(2) same_struct_dom [of h h1 c'] by (auto simp: recounted_def)
  have cnt: "count_list (filter (mortal_at h1) cs) q \<le> count_at h1 q" for q
    using Cons.prems(2) [of q] h1(2) by (auto simp: m recounted_def split: if_splits)
  from Cons.IH [OF dom cnt, of "if mortal_at h c then c # st else st"] obtain h' where
    h': "cc_walk cc_visit_dec_push cs (h1, if mortal_at h c then c # st else st) =
        Ok (h', rev (filter (mortal_at h) cs) @ (if mortal_at h c then c # st else st))"
      "recounted h1 (\<lambda>q. count_at h1 q - count_list (filter (mortal_at h) cs) q) h'" unfolding m by blast
  have "recounted h (\<lambda>q. count_at h q - count_list (filter (mortal_at h) (c # cs)) q) h'"
    using h1(2) h'(2) by (auto simp: recounted_def fun_eq_iff intro: same_struct_trans)
  with h1(1) h'(1) show ?case by auto
qed

lemma visit_push_step:
  assumes "map_of h c = Some ob"
  shows "cc_visit_push c (h, st) = Ok (h, if mortal_at h c then c # st else st)"
  using assms at_some [OF assms] by (auto simp: cc_visit_push_def obj_at_def)

lemma walk_push:
  "(\<And>c. c \<in> set cs \<Longrightarrow> map_of h c \<noteq> None) \<Longrightarrow>
    cc_walk cc_visit_push cs (h, st) = Ok (h, rev (filter (mortal_at h) cs) @ st)"
proof (induction cs arbitrary: st)
  case (Cons c cs)
  obtain ob where "map_of h c = Some ob" using Cons.prems [of c] by auto
  from visit_push_step [OF this] Cons show ?case by auto
qed simp

text \<open>The visitor that gives counts back and blackens: each object it newly blackens is pushed once.\<close>

definition blackened :: "heap \<Rightarrow> slot set \<Rightarrow> (slot \<Rightarrow> nat) \<Rightarrow> heap \<Rightarrow> bool" where
  "blackened h A f h' \<longleftrightarrow>
     same_struct h h' \<and> color_at h' = (\<lambda>q. if q \<in> A then Some CC_BLACK else color_at h q) \<and>
     buf_at h' = buf_at h \<and> count_at h' = f"

lemma visit_inc_step:
  assumes ob: "map_of h c = Some ob" and room: "mortal_at h c \<longrightarrow> count_at h c + 1 < 2 ^ 48"
  shows "\<exists>h'. cc_visit_inc_push c (h, st) =
      Ok (h', if mortal_at h c \<and> color_at h c \<noteq> Some CC_BLACK then c # st else st) \<and>
    blackened h (set (filter (mortal_at h) [c])) (\<lambda>q. count_at h q + count_list (filter (mortal_at h) [c]) q) h'"
proof (cases "mortal_at h c")
  case True
  then have inc: "rc_inc ob = Ok (ob\<lparr>o_count := o_count ob + 1\<rparr>)" "\<not> o_immortal ob"
    using assms at_some [OF ob] by (auto simp: rc_inc_def)
  show ?thesis
  proof (cases "o_color ob = CC_BLACK")
    case black: True
    then show ?thesis using True inc at_some [OF ob] ob
      by (auto simp: cc_visit_inc_push_def obj_at_def blackened_def fun_eq_iff intro!: same_struct_put)
  next
    case False
    then show ?thesis using True inc at_some [OF ob] ob
      by (auto simp: cc_visit_inc_push_def obj_at_def blackened_def fun_eq_iff intro!: same_struct_put)
  qed
qed (use ob at_some [OF ob] in \<open>auto simp: cc_visit_inc_push_def obj_at_def blackened_def\<close>)

lemma walk_inc:
  assumes "\<And>c. c \<in> set cs \<Longrightarrow> map_of h c \<noteq> None"
    and "\<And>q. mortal_at h q \<Longrightarrow> count_at h q + count_list (filter (mortal_at h) cs) q < 2 ^ 48"
    and "distinct st" "\<And>p. p \<in> set st \<Longrightarrow> color_at h p = Some CC_BLACK"
  shows "\<exists>h' st'. cc_walk cc_visit_inc_push cs (h, st) = Ok (h', st') \<and> distinct st' \<and>
    set st' = set st \<union> {c \<in> set (filter (mortal_at h) cs). color_at h c \<noteq> Some CC_BLACK} \<and>
    blackened h (set (filter (mortal_at h) cs)) (\<lambda>q. count_at h q + count_list (filter (mortal_at h) cs) q) h'"
  using assms
proof (induction cs arbitrary: h st)
  case Nil
  then show ?case by (auto simp: blackened_def)
next
  case (Cons c cs)
  obtain ob where ob: "map_of h c = Some ob" using Cons.prems(1) [of c] by auto
  have "mortal_at h c \<longrightarrow> count_at h c + 1 < 2 ^ 48" using Cons.prems(2) [of c] by auto
  let ?st = "if mortal_at h c \<and> color_at h c \<noteq> Some CC_BLACK then c # st else st"
  from visit_inc_step [OF ob \<open>mortal_at h c \<longrightarrow> count_at h c + 1 < 2 ^ 48\<close>, of st] obtain h1 where
    h1: "cc_visit_inc_push c (h, st) = Ok (h1, ?st)"
      "blackened h (set (filter (mortal_at h) [c])) (\<lambda>q. count_at h q + count_list (filter (mortal_at h) [c]) q) h1"
    by blast
  have m: "mortal_at h1 = mortal_at h" using h1(2) same_struct_at(1) by (auto simp: blackened_def fun_eq_iff)
  have dom: "map_of h1 c' \<noteq> None" if "c' \<in> set cs" for c'
    using Cons.prems(1) [of c'] that h1(2) same_struct_dom [of h h1 c'] by (auto simp: blackened_def)
  have cnt: "count_at h1 q + count_list (filter (mortal_at h1) cs) q < 2 ^ 48" if "mortal_at h1 q" for q
    using Cons.prems(2) [of q] h1(2) that by (auto simp: m blackened_def split: if_splits)
  have "distinct ?st" using Cons.prems(3,4) by auto
  moreover have "color_at h1 p = Some CC_BLACK" if "p \<in> set ?st" for p
    using that Cons.prems(4) h1(2) by (auto simp: blackened_def split: if_splits)
  ultimately obtain h' st' where h': "cc_walk cc_visit_inc_push cs (h1, ?st) = Ok (h', st')" "distinct st'"
      "set st' = set ?st \<union> {c \<in> set (filter (mortal_at h) cs). color_at h1 c \<noteq> Some CC_BLACK}"
      "blackened h1 (set (filter (mortal_at h) cs)) (\<lambda>q. count_at h1 q + count_list (filter (mortal_at h) cs) q) h'"
    using Cons.IH [OF dom cnt] unfolding m by blast
  have "blackened h (set (filter (mortal_at h) (c # cs)))
      (\<lambda>q. count_at h q + count_list (filter (mortal_at h) (c # cs)) q) h'"
    using h1(2) h'(4) by (auto simp: blackened_def fun_eq_iff intro: same_struct_trans)
  moreover have "set st' = set st \<union> {c' \<in> set (filter (mortal_at h) (c # cs)). color_at h c' \<noteq> Some CC_BLACK}"
    using h'(3) h1(2) by (auto simp: blackened_def split: if_splits)
  ultimately show ?case using h1(1) h'(1,2) by auto
qed

section \<open>Marking\<close>

text \<open>\<open>G\<close> is gray, and every edge from it has taken one count away.\<close>

definition marked :: "heap \<Rightarrow> slot set \<Rightarrow> heap \<Rightarrow> bool" where
  "marked h0 G h \<longleftrightarrow>
     same_struct h0 h \<and> buf_at h = buf_at h0 \<and> G \<subseteq> live_objs h0 \<and>
     color_at h = (\<lambda>q. if q \<in> G then Some CC_GRAY else color_at h0 q) \<and>
     count_at h = (\<lambda>q. count_at h0 q - edges_into h0 G q)"

lemma live_dom: "p \<in> live_objs h \<Longrightarrow> \<exists>ob. map_of h p = Some ob \<and> \<not> o_immortal ob"
  by (auto simp: live_objs_def dest: mortal_dom)

lemma kids_filter: "same_struct h0 h \<Longrightarrow> map_of h p = Some ob \<Longrightarrow> filter (mortal_at h) (body_children (o_body ob)) = kids h0 p"
  using same_struct_at(1,2) [of h0 h] at_some(5) [of h p ob] by (metis kids_def filter_cong)

lemma children_dom:
  assumes "heap_ok h0 ext" "same_struct h0 h" "p \<in> live_objs h0" "map_of h p = Some ob" "c \<in> set (body_children (o_body ob))"
  shows "map_of h c \<noteq> None"
proof -
  have "c \<in> set (all_kids h0 p)" using assms at_some(5) [OF assms(4)] same_struct_at(2) [OF assms(2)] by simp
  then have "map_of h0 c \<noteq> None" using assms(1,3) by (auto simp: heap_ok_def)
  then show ?thesis using same_struct_dom [OF assms(2)] by simp
qed

lemma edges_bounded:
  assumes "heap_ok h0 ext" "A \<subseteq> live_objs h0" "q \<in> live_objs h0"
  shows "edges_into h0 A q \<le> count_at h0 q"
proof -
  have "edges_into h0 A q \<le> edges_into h0 (live_objs h0) q" by (rule edges_into_mono [OF finite_live assms(2)])
  also have "\<dots> \<le> count_at h0 q" using assms(1,3) by (simp add: heap_ok_def)
  finally show ?thesis .
qed

lemma kids_count_zero:
  assumes "heap_ok h0 ext" "p \<in> live_objs h0" "q \<notin> live_objs h0"
  shows "count_list (kids h0 p) q = 0"
  using kids_live [OF assms(1,2)] assms(3) by (auto simp: count_list_0_iff)

lemma mark_gray_loop_marks:
  assumes ok: "heap_ok h0 ext" and gray: "\<And>p. p \<in> live_objs h0 \<Longrightarrow> color_at h0 p \<noteq> Some CC_GRAY"
    and m: "marked h0 G h" and st: "set st \<subseteq> live_objs h0"
    and closed: "\<And>g. g \<in> G \<Longrightarrow> set (kids h0 g) \<subseteq> G \<union> set st"
  shows "\<exists>h' G'. mark_gray_loop h st = Ok h' \<and> marked h0 G' h' \<and> G \<union> set st \<subseteq> G' \<and>
    (\<forall>g \<in> G'. set (kids h0 g) \<subseteq> G') \<and> G' \<subseteq> G \<union> reached h0 (set st)"
  using m st closed
proof (induction h st arbitrary: G rule: mark_gray_loop.induct)
  case (1 h)
  then show ?case by (auto simp: mark_gray_loop.simps)
next
  case (2 h p st)
  have p: "p \<in> live_objs h0" using "2.prems"(2) by simp
  have str: "same_struct h0 h" using "2.prems"(1) by (simp add: marked_def)
  obtain ob where ob: "map_of h p = Some ob"
    using live_dom [OF p] same_struct_dom [OF str, of p] by auto
  have col: "o_color ob = CC_GRAY \<longleftrightarrow> p \<in> G"
    using at_some(4) [OF ob] "2.prems"(1) gray [OF p] by (auto simp: marked_def split: if_splits)
  show ?case
  proof (cases "p \<in> G")
    case True
    have cl: "set (kids h0 g) \<subseteq> G \<union> set st" if "g \<in> G" for g using "2.prems"(3) [OF that] True by auto
    have "set st \<subseteq> live_objs h0" using "2.prems"(2) by simp
    from "2.IH"(1) [of ob, OF _ _ "2.prems"(1) this cl] ob col True obtain h' G' where
      r: "mark_gray_loop h st = Ok h'" "marked h0 G' h'" "G \<union> set st \<subseteq> G'" "\<forall>g \<in> G'. set (kids h0 g) \<subseteq> G'"
        "G' \<subseteq> G \<union> reached h0 (set st)" by auto
    have "reached h0 (set st) \<subseteq> reached h0 (set (p # st))" by (rule reached_mono) auto
    then have "mark_gray_loop h (p # st) = Ok h' \<and> marked h0 G' h' \<and> G \<union> set (p # st) \<subseteq> G' \<and>
        (\<forall>g \<in> G'. set (kids h0 g) \<subseteq> G') \<and> G' \<subseteq> G \<union> reached h0 (set (p # st))"
      using r ob col True by (auto simp: mark_gray_loop.simps obj_at_def)
    then show ?thesis by blast
  next
    case False
    let ?h = "put_obj h p (ob\<lparr>o_color := CC_GRAY\<rparr>)"
    let ?G = "insert p G"
    have fin: "finite G" using "2.prems"(1) finite_live [of h0] by (auto simp: marked_def intro: finite_subset)
    have G: "?G \<subseteq> live_objs h0" using p "2.prems"(1) by (simp add: marked_def)
    have str1: "same_struct h ?h" by (rule same_struct_put [OF ob]) simp_all
    have str0: "same_struct h0 ?h" by (rule same_struct_trans [OF str str1])
    have here: "map_of ?h p = Some (ob\<lparr>o_color := CC_GRAY\<rparr>)" by simp
    have kids: "filter (mortal_at ?h) (body_children (o_body ob)) = kids h0 p"
      using kids_filter [OF str0 here] by simp
    have cnt: "count_at ?h q = count_at h0 q - edges_into h0 G q" for q
      using "2.prems"(1) at_some(1) [OF ob] by (auto simp: marked_def)
    have ins: "edges_into h0 ?G q = count_list (kids h0 p) q + edges_into h0 G q" for q
      by (rule edges_into_insert [OF fin False])
    have le: "count_list (kids h0 p) q \<le> count_at ?h q" for q
    proof (cases "q \<in> live_objs h0")
      case True
      show ?thesis unfolding cnt using edges_bounded [OF ok G True, unfolded ins] by linarith
    qed (simp add: kids_count_zero [OF ok p])
    have dom: "map_of ?h c \<noteq> None" if "c \<in> set (body_children (o_body ob))" for c
      using children_dom [OF ok str0 p here] that by simp
    have le': "count_list (filter (mortal_at ?h) (body_children (o_body ob))) q \<le> count_at ?h q" for q
      unfolding kids by (rule le)
    from walk_dec [OF dom le', of st] obtain h2 where
      w: "cc_walk cc_visit_dec_push (body_children (o_body ob)) (?h, st) = Ok (h2, rev (kids h0 p) @ st)"
        "recounted ?h (\<lambda>q. count_at ?h q - count_list (kids h0 p) q) h2" unfolding kids by blast
    have m2: "marked h0 ?G h2"
    proof -
      have "same_struct h0 h2" using w(2) str0 by (auto simp: recounted_def intro: same_struct_trans)
      moreover have "buf_at h2 = buf_at h0"
        using w(2) "2.prems"(1) at_some(2) [OF ob] by (auto simp: recounted_def marked_def fun_eq_iff)
      moreover have "color_at h2 = (\<lambda>q. if q \<in> ?G then Some CC_GRAY else color_at h0 q)"
        using w(2) "2.prems"(1) by (auto simp: recounted_def marked_def fun_eq_iff)
      moreover have "count_at h2 = (\<lambda>q. count_at h0 q - edges_into h0 ?G q)"
        using w(2) unfolding recounted_def cnt ins by (simp add: add.commute)
      ultimately show ?thesis using G by (simp add: marked_def)
    qed
    have st2: "set (rev (kids h0 p) @ st) \<subseteq> live_objs h0" using kids_live [OF ok p] "2.prems"(2) by auto
    have cl2: "set (kids h0 g) \<subseteq> ?G \<union> set (rev (kids h0 p) @ st)" if "g \<in> ?G" for g
      using "2.prems"(3) [of g] that by auto
    obtain h' G' where r: "mark_gray_loop h2 (rev (kids h0 p) @ st) = Ok h'" "marked h0 G' h'"
        "?G \<union> set (rev (kids h0 p) @ st) \<subseteq> G'" "\<forall>g \<in> G'. set (kids h0 g) \<subseteq> G'"
        "G' \<subseteq> ?G \<union> reached h0 (set (rev (kids h0 p) @ st))"
      using "2.IH"(2) [of ob "(h2, rev (kids h0 p) @ st)" ?G] m2 st2 cl2 w(1) ob col False by auto
    have "reached h0 (set (rev (kids h0 p) @ st)) \<subseteq> reached h0 (set (p # st))"
    proof (rule reached_least)
      have "set (kids h0 p) \<subseteq> reached h0 (set (p # st))"
        using reached_step [OF _ p] reached_refl [of "set (p # st)" h0] by auto
      then show "set (rev (kids h0 p) @ st) \<subseteq> reached h0 (set (p # st))"
        using reached_refl [of "set (p # st)" h0] by auto
    qed (rule reached_step)
    then have "mark_gray_loop h (p # st) = Ok h' \<and> marked h0 G' h' \<and> G \<union> set (p # st) \<subseteq> G' \<and>
        (\<forall>g \<in> G'. set (kids h0 g) \<subseteq> G') \<and> G' \<subseteq> G \<union> reached h0 (set (p # st))"
      using r ob col False w(1) reached_refl [of "set (p # st)" h0]
      by (auto simp: mark_gray_loop.simps obj_at_def)
    then show ?thesis by blast
  qed
qed

lemma mark_all:
  assumes ok: "heap_ok h0 ext" and gray: "\<And>p. p \<in> live_objs h0 \<Longrightarrow> color_at h0 p \<noteq> Some CC_GRAY"
    and m: "marked h0 G h" and ps: "set ps \<subseteq> live_objs h0" and closed: "\<And>g. g \<in> G \<Longrightarrow> set (kids h0 g) \<subseteq> G"
  shows "\<exists>h'. rt_each (\<lambda>p h. cc_mark_gray h p) ps h = Ok h' \<and> marked h0 (G \<union> reached h0 (set ps)) h'"
  using m ps closed
proof (induction ps arbitrary: h G)
  case Nil
  then show ?case by (simp add: reached_def)
next
  case (Cons p ps)
  have p: "set [p] \<subseteq> live_objs h0" using Cons.prems(2) by simp
  have "set (kids h0 g) \<subseteq> G \<union> set [p]" if "g \<in> G" for g using Cons.prems(3) [OF that] by auto
  from mark_gray_loop_marks [OF ok gray Cons.prems(1) p this] obtain h1 G1 where
    r: "mark_gray_loop h [p] = Ok h1" "marked h0 G1 h1" "G \<union> set [p] \<subseteq> G1" "\<forall>g \<in> G1. set (kids h0 g) \<subseteq> G1"
      "G1 \<subseteq> G \<union> reached h0 (set [p])" by blast
  have "reached h0 {p} \<subseteq> G1" by (rule reached_least) (use r(3,4) in auto)
  then have G1: "G1 = G \<union> reached h0 {p}" using r(3,5) by auto
  have "set ps \<subseteq> live_objs h0" using Cons.prems(2) by simp
  from Cons.IH [OF r(2) this] r(4) obtain h' where
    "rt_each (\<lambda>p h. cc_mark_gray h p) ps h1 = Ok h'" "marked h0 (G1 \<union> reached h0 (set ps)) h'" by blast
  moreover have "G1 \<union> reached h0 (set ps) = G \<union> reached h0 (set (p # ps))"
    unfolding G1 by (auto simp: reached_def)
  ultimately show ?case using r(1) by (simp add: cc_mark_gray_def)
qed

section \<open>Scanning\<close>

text \<open>
  \<open>R\<close> is what was marked, \<open>B\<close> is black again, \<open>W\<close> is white; the edges of the objects of \<open>P\<close>, black but
  still on the work stack, have not been given back yet.
\<close>

definition scanned :: "heap \<Rightarrow> slot set \<Rightarrow> slot set \<Rightarrow> slot set \<Rightarrow> slot set \<Rightarrow> heap \<Rightarrow> bool" where
  "scanned h0 R W B P h \<longleftrightarrow>
     same_struct h0 h \<and> buf_at h = buf_at h0 \<and> R \<subseteq> live_objs h0 \<and> W \<subseteq> R \<and> B \<subseteq> R \<and> W \<inter> B = {} \<and> P \<subseteq> B \<and>
     color_at h = (\<lambda>q. if q \<in> B then Some CC_BLACK else if q \<in> W then Some CC_WHITE
                       else if q \<in> R then Some CC_GRAY else color_at h0 q) \<and>
     count_at h = (\<lambda>q. count_at h0 q - edges_into h0 (R - (B - P)) q)"

definition edge_closed :: "heap \<Rightarrow> slot set \<Rightarrow> bool" where
  "edge_closed h A \<longleftrightarrow> (\<forall>p \<in> A. set (kids h p) \<subseteq> A)"

lemma edge_closedD: "edge_closed h A \<Longrightarrow> p \<in> A \<Longrightarrow> q \<in> set (kids h p) \<Longrightarrow> q \<in> A"
  by (auto simp: edge_closed_def)

lemma no_edge_out:
  assumes "edge_closed h B" "finite B" "q \<notin> B"
  shows "edges_into h B q = 0"
  using assms by (auto simp: edges_into_zero_iff edge_closed_def)

lemma scan_black_loop_restores:
  assumes ok: "heap_ok h0 ext" and R: "edge_closed h0 R"
    and s: "scanned h0 R W B (set st) h" and st: "distinct st" and cl: "\<And>b. b \<in> B - set st \<Longrightarrow> set (kids h0 b) \<subseteq> B"
  shows "\<exists>h' B'. scan_black_loop h st = Ok h' \<and> scanned h0 R (W - B') B' {} h' \<and> B \<subseteq> B' \<and> edge_closed h0 B' \<and>
    B' \<subseteq> B \<union> reached h0 (set st)"
  using s st cl
proof (induction h st arbitrary: W B rule: scan_black_loop.induct)
  case (1 h)
  then have "W - B = W" by (auto simp: scanned_def)
  with 1 show ?case by (intro exI [of _ h] exI [of _ B]) (auto simp: scan_black_loop.simps edge_closed_def)
next
  case (2 h p st)
  note s = "2.prems"(1) [unfolded scanned_def]
  have p: "p \<in> B" "p \<in> R" "p \<in> live_objs h0" using s by auto
  have fin: "finite R" using s finite_live [of h0] by (auto intro: finite_subset)
  obtain ob where ob: "map_of h p = Some ob" using live_dom [OF p(3)] same_struct_dom [of h0 h p] s by auto
  let ?K = "set (kids h0 p)"
  have K: "?K \<subseteq> R" using R p(2) by (auto simp: edge_closed_def)
  have str: "same_struct h0 h" using s by simp
  have kids: "filter (mortal_at h) (body_children (o_body ob)) = kids h0 p" by (rule kids_filter [OF str ob])
  let ?U = "R - (B - set (p # st))" and ?V = "R - ((B - set (p # st)) \<union> {p})"
  have U: "?U = insert p ?V" "p \<notin> ?V" using p by auto
  have E: "edges_into h0 ?U q = count_list (kids h0 p) q + edges_into h0 ?V q" for q
    unfolding U(1) using U(2) fin by (intro edges_into_insert) auto
  have cnt: "count_at h q = count_at h0 q - edges_into h0 ?U q" for q using s by simp
  have Ule: "?U \<subseteq> live_objs h0" using s by auto
  have restore: "count_at h q + count_list (kids h0 p) q = count_at h0 q - edges_into h0 ?V q" for q
  proof (cases "q \<in> live_objs h0")
    case True
    from edges_bounded [OF ok Ule True] show ?thesis unfolding cnt E by simp
  next
    case False
    then have "count_list (kids h0 p) q = 0" by (rule kids_count_zero [OF ok p(3)])
    then show ?thesis unfolding cnt E by simp
  qed
  have dom: "map_of h c \<noteq> None" if "c \<in> set (body_children (o_body ob))" for c
    using children_dom [OF ok str p(3) ob that] .
  have room: "count_at h q + count_list (filter (mortal_at h) (body_children (o_body ob))) q < 2 ^ 48"
    if "mortal_at h q" for q
  proof -
    have "count_at h0 q < 2 ^ 48" using ok by (simp add: heap_ok_def)
    then show ?thesis unfolding kids restore by simp
  qed
  have black: "color_at h q = Some CC_BLACK" if "q \<in> set st" for q using s that by auto
  obtain h2 st' where w: "cc_walk cc_visit_inc_push (body_children (o_body ob)) (h, st) = Ok (h2, st')" "distinct st'"
      "set st' = set st \<union> {c \<in> ?K. color_at h c \<noteq> Some CC_BLACK}"
      "blackened h ?K (\<lambda>q. count_at h q + count_list (kids h0 p) q) h2"
    using walk_inc [OF dom room _ black, of st] "2.prems"(2) unfolding kids by auto
  have new: "{c \<in> ?K. color_at h c \<noteq> Some CC_BLACK} = ?K - B" using s K by auto
  let ?B = "B \<union> ?K"
  have pend: "?B - set st' = (B - set (p # st)) \<union> {p}"
    using w(3) "2.prems"(2) p(1) s unfolding new by auto
  have s2: "scanned h0 R (W - ?K) ?B (set st') h2"
  proof -
    have "same_struct h0 h2" using w(4) str by (auto simp: blackened_def intro: same_struct_trans)
    moreover have "buf_at h2 = buf_at h0" using w(4) s by (simp add: blackened_def)
    moreover have "set st' \<subseteq> ?B" using w(3) s unfolding new by auto
    moreover have "color_at h2 = (\<lambda>q. if q \<in> ?B then Some CC_BLACK else if q \<in> W - ?K then Some CC_WHITE
        else if q \<in> R then Some CC_GRAY else color_at h0 q)"
      using w(4) s by (auto simp: blackened_def fun_eq_iff)
    moreover have "count_at h2 = (\<lambda>q. count_at h0 q - edges_into h0 (R - (?B - set st')) q)"
      unfolding pend using w(4) restore by (auto simp: blackened_def fun_eq_iff)
    ultimately show ?thesis using s K by (auto simp: scanned_def)
  qed
  have cl2: "set (kids h0 b) \<subseteq> ?B" if "b \<in> ?B - set st'" for b
    using that "2.prems"(3) [of b] unfolding pend by auto
  obtain h' B' where r: "scan_black_loop h2 st' = Ok h'" "scanned h0 R (W - ?K - B') B' {} h'" "?B \<subseteq> B'"
      "edge_closed h0 B'" "B' \<subseteq> ?B \<union> reached h0 (set st')"
    using "2.IH" [of ob "(h2, st')" "W - ?K" ?B] s2 w(1,2) cl2 ob by auto
  have "W - ?K - B' = W - B'" using r(3) by auto
  moreover have "reached h0 (set st') \<subseteq> reached h0 (set (p # st))"
  proof (rule reached_least)
    show "set st' \<subseteq> reached h0 (set (p # st))"
      using w(3) reached_step [of p h0 "set (p # st)", OF _ p(3)] reached_refl [of "set (p # st)" h0] by auto
  qed (rule reached_step)
  moreover have "?K \<subseteq> reached h0 (set (p # st))"
    using reached_step [of p h0 "set (p # st)", OF _ p(3)] reached_refl [of "set (p # st)" h0] by auto
  ultimately have "scan_black_loop h (p # st) = Ok h' \<and> scanned h0 R (W - B') B' {} h' \<and> B \<subseteq> B' \<and> edge_closed h0 B' \<and>
      B' \<subseteq> B \<union> reached h0 (set (p # st))"
    using r w(1) ob by (auto simp: scan_black_loop.simps obj_at_def)
  then show ?case by blast
qed

text \<open>The objects of \<open>R\<close> with a reference from outside \<open>R\<close>.\<close>

definition held_into :: "heap \<Rightarrow> slot set \<Rightarrow> slot set" where
  "held_into h R = {p \<in> R. edges_into h R p < count_at h p}"

text \<open>What the scan maintains between two objects of its stack.\<close>

definition scanning :: "heap \<Rightarrow> slot set \<Rightarrow> slot set \<Rightarrow> slot set \<Rightarrow> slot set \<Rightarrow> heap \<Rightarrow> bool" where
  "scanning h0 R W B S h \<longleftrightarrow>
     scanned h0 R W B {} h \<and> edge_closed h0 B \<and> B \<subseteq> reached h0 (held_into h0 R) \<and>
     (\<forall>w \<in> W. set (kids h0 w) \<subseteq> W \<union> B \<union> S \<and> count_at h0 w = edges_into h0 R w)"

lemma scan_loop_decides:
  assumes ok: "heap_ok h0 ext" and R: "edge_closed h0 R"
    and s: "scanning h0 R W B (set st) h" and st: "set st \<subseteq> R"
  shows "\<exists>h' W' B'. scan_loop h st = Ok h' \<and> scanning h0 R W' B' {} h' \<and> W \<union> B \<union> set st \<subseteq> W' \<union> B'"
  using s st
proof (induction h st arbitrary: W B rule: scan_loop.induct)
  case (1 h)
  then show ?case by (intro exI [of _ h] exI [of _ W] exI [of _ B]) (auto simp: scan_loop.simps)
next
  case (2 h p st)
  note s0 = "2.prems"(1) [unfolded scanning_def]
  note s = s0 [THEN conjunct1, unfolded scanned_def]
  have p: "p \<in> R" "p \<in> live_objs h0" using "2.prems"(2) s by auto
  have fin: "finite R" "finite B" using s finite_live [of h0] by (auto intro: finite_subset)
  have str: "same_struct h0 h" using s by simp
  obtain ob where ob: "map_of h p = Some ob" using live_dom [OF p(2)] same_struct_dom [OF str, of p] by auto
  have gray: "o_color ob = CC_GRAY \<longleftrightarrow> p \<notin> W \<union> B"
    using at_some(4) [OF ob] s p by (auto split: if_splits)
  show ?case
  proof (cases "p \<in> W \<union> B")
    case True
    have "scanning h0 R W B (set st) h" using "2.prems"(1) True by (auto simp: scanning_def)
    moreover have "set st \<subseteq> R" using "2.prems"(2) by simp
    ultimately obtain h' W' B' where "scan_loop h st = Ok h'" "scanning h0 R W' B' {} h'" "W \<union> B \<union> set st \<subseteq> W' \<union> B'"
      using "2.IH"(1) [of ob W B] ob gray True by auto
    then have "scan_loop h (p # st) = Ok h' \<and> scanning h0 R W' B' {} h' \<and> W \<union> B \<union> set (p # st) \<subseteq> W' \<union> B'"
      using True ob gray by (auto simp: scan_loop.simps obj_at_def)
    then show ?thesis by blast
  next
    case False
    have split: "edges_into h0 R p = edges_into h0 (R - B) p"
    proof -
      have "edges_into h0 B p = 0" using no_edge_out [of h0 B p] s0 fin(2) False by simp
      then show ?thesis using edges_into_diff [OF fin(1), of B h0 p] s by simp
    qed
    have cnt: "o_count ob = count_at h0 p - edges_into h0 R p"
      using at_some(1) [OF ob] s unfolding split by (simp add: fun_eq_iff)
    show ?thesis
    proof (cases "o_count ob > 0")
      case True
      let ?h = "put_obj h p (ob\<lparr>o_color := CC_BLACK\<rparr>)" and ?B = "insert p B"
      have ext: "p \<in> held_into h0 R" using True cnt p(1) by (simp add: held_into_def)
      have rest: "R - (?B - set [p]) = R - B" using False by auto
      have s1: "scanned h0 R W ?B (set [p]) ?h"
        unfolding scanned_def rest
        using s p False at_some [OF ob] same_struct_trans [OF str same_struct_put [OF ob]] by (auto simp: fun_eq_iff)
      have "set (kids h0 b) \<subseteq> ?B" if "b \<in> ?B - set [p]" for b
        using that s0 by (auto simp: edge_closed_def)
      from scan_black_loop_restores [OF ok R s1 _ this] obtain h1 B1 where
        r: "scan_black_loop ?h [p] = Ok h1" "scanned h0 R (W - B1) B1 {} h1" "?B \<subseteq> B1" "edge_closed h0 B1"
          "B1 \<subseteq> ?B \<union> reached h0 (set [p])" by auto
      have "reached h0 {p} \<subseteq> reached h0 (held_into h0 R)" by (rule reached_mono) (use ext in simp)
      then have "B1 \<subseteq> reached h0 (held_into h0 R)"
        using r(5) s0 ext reached_refl [of "held_into h0 R" h0] by auto
      moreover have "set (kids h0 w) \<subseteq> W - B1 \<union> B1 \<union> set st" if "w \<in> W - B1" for w
        using s0 that r(3) by fastforce
      ultimately have "scanning h0 R (W - B1) B1 (set st) h1"
        using r(2,4) s0 by (auto simp: scanning_def)
      moreover have black: "cc_scan_black h p = Ok h1" using ob r(1) by (simp add: cc_scan_black_def obj_at_def)
      moreover have "set st \<subseteq> R" using "2.prems"(2) by simp
      ultimately obtain h' W' B' where
        "scan_loop h1 st = Ok h'" "scanning h0 R W' B' {} h'" "W - B1 \<union> B1 \<union> set st \<subseteq> W' \<union> B'"
        using "2.IH"(2) [of ob h1 "W - B1" B1] ob gray True False by auto
      then have "scan_loop h (p # st) = Ok h' \<and> scanning h0 R W' B' {} h' \<and> W \<union> B \<union> set (p # st) \<subseteq> W' \<union> B'"
        using True ob gray False black r(3) by (auto simp: scan_loop.simps obj_at_def)
      then show ?thesis by blast
    next
      case zero: False
      let ?h = "put_obj h p (ob\<lparr>o_color := CC_WHITE\<rparr>)" and ?W = "insert p W"
      have str1: "same_struct h0 ?h" using same_struct_trans [OF str same_struct_put [OF ob]] by simp
      have here: "map_of ?h p = Some (ob\<lparr>o_color := CC_WHITE\<rparr>)" by simp
      have kids: "filter (mortal_at ?h) (body_children (o_body ob)) = kids h0 p"
        using kids_filter [OF str1 here] by simp
      have dom: "map_of ?h c \<noteq> None" if "c \<in> set (body_children (o_body ob))" for c
        using children_dom [OF ok str1 p(2) here] that by simp
      have w: "cc_walk cc_visit_push (body_children (o_body ob)) (?h, st) = Ok (?h, rev (kids h0 p) @ st)"
        using walk_push [OF dom, of "body_children (o_body ob)" st] unfolding kids by simp
      have "edges_into h0 R p \<le> count_at h0 p" using edges_bounded [OF ok _ p(2), of R] s by simp
      then have eq: "count_at h0 p = edges_into h0 R p" using cnt zero by simp
      have "scanned h0 R ?W B {} ?h"
        unfolding scanned_def using s p False at_some [OF ob] str1 by (auto simp: fun_eq_iff)
      then have "scanning h0 R ?W B (set (rev (kids h0 p) @ st)) ?h"
        using s0 eq by (auto simp: scanning_def)
      moreover have "set (rev (kids h0 p) @ st) \<subseteq> R" using "2.prems"(2) R p(1) by (auto simp: edge_closed_def)
      ultimately obtain h' W' B' where
        "scan_loop ?h (rev (kids h0 p) @ st) = Ok h'" "scanning h0 R W' B' {} h'"
        "?W \<union> B \<union> set (rev (kids h0 p) @ st) \<subseteq> W' \<union> B'"
        using "2.IH"(3) [of ob "(?h, rev (kids h0 p) @ st)" ?W B] ob gray zero False w by auto
      then have "scan_loop h (p # st) = Ok h' \<and> scanning h0 R W' B' {} h' \<and> W \<union> B \<union> set (p # st) \<subseteq> W' \<union> B'"
        using zero ob gray False w by (auto simp: scan_loop.simps obj_at_def)
      then show ?thesis by blast
    qed
  qed
qed

lemma scan_all:
  assumes "heap_ok h0 ext" "edge_closed h0 R" "scanning h0 R W B {} h" "set ps \<subseteq> R"
  shows "\<exists>h' W' B'. rt_each (\<lambda>p h. cc_scan h p) ps h = Ok h' \<and> scanning h0 R W' B' {} h' \<and> W \<union> B \<union> set ps \<subseteq> W' \<union> B'"
  using assms(3,4)
proof (induction ps arbitrary: h W B)
  case Nil
  then show ?case by auto
next
  case (Cons p ps)
  have "scanning h0 R W B (set [p]) h" using Cons.prems(1) by (auto simp: scanning_def)
  from scan_loop_decides [OF assms(1,2) this] Cons.prems(2) obtain h1 W1 B1 where
    r: "scan_loop h [p] = Ok h1" "scanning h0 R W1 B1 {} h1" "W \<union> B \<union> set [p] \<subseteq> W1 \<union> B1" by auto
  from Cons.IH [OF r(2)] Cons.prems(2) obtain h' W' B' where
    "rt_each (\<lambda>p h. cc_scan h p) ps h1 = Ok h'" "scanning h0 R W' B' {} h'" "W1 \<union> B1 \<union> set ps \<subseteq> W' \<union> B'" by auto
  moreover have "W \<union> B \<union> set (p # ps) \<subseteq> W' \<union> B'" using r(3) calculation(3) by auto
  ultimately show ?case using r(1) by (intro exI [of _ h'] exI [of _ W'] exI [of _ B']) (simp add: cc_scan_def)
qed

text \<open>Once every candidate is decided, the black set is what the held objects reach and the rest is white.\<close>

lemma scan_complete:
  assumes "scanning h0 (reached h0 A) W B {} h" "A \<subseteq> W \<union> B" "edge_closed h0 (reached h0 A)"
  shows "B = reached h0 (held_into h0 (reached h0 A))" "W = reached h0 A - B"
proof -
  let ?R = "reached h0 A"
  have s: "W \<subseteq> ?R" "B \<subseteq> ?R" "W \<inter> B = {}" "edge_closed h0 B" "B \<subseteq> reached h0 (held_into h0 ?R)"
    "\<And>w. w \<in> W \<Longrightarrow> set (kids h0 w) \<subseteq> W \<union> B \<and> count_at h0 w = edges_into h0 ?R w"
    using assms(1) by (auto simp: scanning_def scanned_def)
  have "?R \<subseteq> W \<union> B"
    by (rule reached_least) (use assms(2) s(4,6) in \<open>auto simp: edge_closed_def\<close>)
  then show "W = ?R - B" using s(1-3) by auto
  have "held_into h0 ?R \<subseteq> B" using \<open>?R \<subseteq> W \<union> B\<close> s(6) by (fastforce simp: held_into_def)
  then have "reached h0 (held_into h0 ?R) \<subseteq> B"
    by (rule reached_least) (use s(4) in \<open>auto simp: edge_closed_def\<close>)
  then show "B = reached h0 (held_into h0 ?R)" using s(5) by auto
qed

section \<open>Gathering the white set\<close>

text \<open>\<open>U\<close> is still buffered and \<open>D\<close> is gathered, on top of the scanned heap \<open>h1\<close>.\<close>

definition gathered :: "heap \<Rightarrow> slot set \<Rightarrow> slot set \<Rightarrow> slot list \<Rightarrow> slot set \<Rightarrow> heap \<Rightarrow> bool" where
  "gathered h1 W U dead S h \<longleftrightarrow>
     same_struct h1 h \<and> count_at h = count_at h1 \<and> buf_at h = (\<lambda>q. q \<in> U) \<and>
     color_at h = (\<lambda>q. if q \<in> set dead then Some CC_BLACK else color_at h1 q) \<and>
     distinct dead \<and> set dead \<subseteq> W \<and> set dead \<inter> U = {} \<and>
     (\<forall>d \<in> set dead. set (kids h1 d) \<inter> W \<subseteq> set dead \<union> S \<union> U)"

lemma collect_white_loop_gathers:
  assumes ok: "heap_ok h0 ext" and str: "same_struct h0 h1"
    and W: "W \<subseteq> live_objs h0" "\<And>q. q \<in> live_objs h0 \<Longrightarrow> color_at h1 q = Some CC_WHITE \<longleftrightarrow> q \<in> W"
    and g: "gathered h1 W U dead (set st) h" and st: "set st \<subseteq> live_objs h0"
  shows "\<exists>h' dead'. collect_white_loop h st dead = Ok (h', dead') \<and> gathered h1 W U dead' {} h' \<and>
    set dead \<union> (set st \<inter> W - U) \<subseteq> set dead'"
  using g st
proof (induction h st dead rule: collect_white_loop.induct)
  case (1 h dead)
  then show ?case by (auto simp: collect_white_loop.simps)
next
  case (2 h p st dead)
  note g = "2.prems"(1) [unfolded gathered_def]
  have p: "p \<in> live_objs h0" using "2.prems"(2) by simp
  have str2: "same_struct h0 h" using g str by (auto intro: same_struct_trans)
  obtain ob where ob: "map_of h p = Some ob" using live_dom [OF p] same_struct_dom [OF str2, of p] by auto
  have skip: "o_color ob \<noteq> CC_WHITE \<or> o_buf ob \<longleftrightarrow> p \<in> set dead \<or> p \<notin> W \<or> p \<in> U"
    using at_some(2,4) [OF ob] g W(2) [OF p] by (auto split: if_splits)
  show ?case
  proof (cases "p \<in> set dead \<or> p \<notin> W \<or> p \<in> U")
    case True
    have "gathered h1 W U dead (set st) h" using g True by (auto simp: gathered_def)
    moreover have "set st \<subseteq> live_objs h0" using "2.prems"(2) by simp
    ultimately obtain h' dead' where "collect_white_loop h st dead = Ok (h', dead')" "gathered h1 W U dead' {} h'"
        "set dead \<union> (set st \<inter> W - U) \<subseteq> set dead'"
      using "2.IH"(1) [of ob] ob skip True by auto
    then have "collect_white_loop h (p # st) dead = Ok (h', dead') \<and> gathered h1 W U dead' {} h' \<and>
        set dead \<union> (set (p # st) \<inter> W - U) \<subseteq> set dead'"
      using True ob skip by (auto simp: collect_white_loop.simps obj_at_def)
    then show ?thesis by blast
  next
    case False
    let ?h = "put_obj h p (ob\<lparr>o_color := CC_BLACK\<rparr>)"
    have str3: "same_struct h ?h" by (rule same_struct_put [OF ob]) simp_all
    have str0: "same_struct h0 ?h" by (rule same_struct_trans [OF str2 str3])
    have here: "map_of ?h p = Some (ob\<lparr>o_color := CC_BLACK\<rparr>)" by simp
    have kids: "filter (mortal_at ?h) (body_children (o_body ob)) = kids h0 p"
      using kids_filter [OF str0 here] by simp
    have dom: "map_of ?h c \<noteq> None" if "c \<in> set (body_children (o_body ob))" for c
      using children_dom [OF ok str0 p here] that by simp
    have w: "cc_walk cc_visit_push (body_children (o_body ob)) (?h, st) = Ok (?h, rev (kids h0 p) @ st)"
      using walk_push [OF dom, of "body_children (o_body ob)" st] unfolding kids by simp
    have k1: "kids h1 p = kids h0 p" by (rule same_struct_kids [OF str])
    have "gathered h1 W U (dead @ [p]) (set (rev (kids h0 p) @ st)) ?h"
      unfolding gathered_def
    proof (intro conjI)
      show "same_struct h1 ?h" using g str3 by (auto intro: same_struct_trans)
      show "count_at ?h = count_at h1" using g at_some(1) [OF ob] by (auto simp: fun_eq_iff)
      show "buf_at ?h = (\<lambda>q. q \<in> U)" using g at_some(2) [OF ob] by (auto simp: fun_eq_iff)
      show "color_at ?h = (\<lambda>q. if q \<in> set (dead @ [p]) then Some CC_BLACK else color_at h1 q)"
        using g by (auto simp: fun_eq_iff)
      show "\<forall>d \<in> set (dead @ [p]). set (kids h1 d) \<inter> W \<subseteq> set (dead @ [p]) \<union> set (rev (kids h0 p) @ st) \<union> U"
        using g k1 by auto
    qed (use g False in auto)
    moreover have "set (rev (kids h0 p) @ st) \<subseteq> live_objs h0" using kids_live [OF ok p] "2.prems"(2) by auto
    ultimately obtain h' dead' where "collect_white_loop ?h (rev (kids h0 p) @ st) (dead @ [p]) = Ok (h', dead')"
        "gathered h1 W U dead' {} h'" "set (dead @ [p]) \<union> (set (rev (kids h0 p) @ st) \<inter> W - U) \<subseteq> set dead'"
      using "2.IH"(2) [of ob "(?h, rev (kids h0 p) @ st)"] ob skip False w by auto
    then have "collect_white_loop h (p # st) dead = Ok (h', dead') \<and> gathered h1 W U dead' {} h' \<and>
        set dead \<union> (set (p # st) \<inter> W - U) \<subseteq> set dead'"
      using False ob skip w by (auto simp: collect_white_loop.simps obj_at_def)
    then show ?thesis by blast
  qed
qed

lemma collect_all:
  assumes ok: "heap_ok h0 ext" and str: "same_struct h0 h1"
    and W: "W \<subseteq> live_objs h0" "\<And>q. q \<in> live_objs h0 \<Longrightarrow> color_at h1 q = Some CC_WHITE \<longleftrightarrow> q \<in> W"
    and g: "gathered h1 W (set ps) dead {} h" and ps: "set ps \<subseteq> live_objs h0" "distinct ps"
  shows "\<exists>h' dead'. rt_each cc_collect_root ps (h, dead) = Ok (h', dead') \<and> gathered h1 W {} dead' {} h' \<and>
    set dead \<union> (set ps \<inter> W) \<subseteq> set dead'"
  using g ps
proof (induction ps arbitrary: h dead)
  case Nil
  then show ?case by (auto simp: gathered_def)
next
  case (Cons p ps)
  note g = Cons.prems(1) [unfolded gathered_def]
  have p: "p \<in> live_objs h0" using Cons.prems(2) by simp
  have str2: "same_struct h0 h" using g str by (auto intro: same_struct_trans)
  obtain ob where ob: "map_of h p = Some ob" using live_dom [OF p] same_struct_dom [OF str2, of p] by auto
  let ?h = "put_obj h p (ob\<lparr>o_buf := False\<rparr>)"
  have "gathered h1 W (set ps) dead (set [p]) ?h"
    unfolding gathered_def
  proof (intro conjI)
    show "same_struct h1 ?h" using g same_struct_put [OF ob, of "ob\<lparr>o_buf := False\<rparr>"] by (auto intro: same_struct_trans)
    show "count_at ?h = count_at h1" using g at_some(1) [OF ob] by (auto simp: fun_eq_iff)
    show "buf_at ?h = (\<lambda>q. q \<in> set ps)" using g Cons.prems(3) by (auto simp: fun_eq_iff)
    show "color_at ?h = (\<lambda>q. if q \<in> set dead then Some CC_BLACK else color_at h1 q)"
      using g at_some(4) [OF ob] by (auto simp: fun_eq_iff)
  qed (use g in auto)
  from collect_white_loop_gathers [OF ok str W this] p obtain h2 dead2 where
    r: "collect_white_loop ?h [p] dead = Ok (h2, dead2)" "gathered h1 W (set ps) dead2 {} h2"
      "set dead \<union> (set [p] \<inter> W - set ps) \<subseteq> set dead2" by auto
  from Cons.IH [OF r(2)] Cons.prems(2,3) obtain h' dead' where
    "rt_each cc_collect_root ps (h2, dead2) = Ok (h', dead')" "gathered h1 W {} dead' {} h'"
    "set dead2 \<union> (set ps \<inter> W) \<subseteq> set dead'" by auto
  moreover have "cc_collect_root p (h, dead) = Ok (h2, dead2)"
    using r(1) ob by (simp add: cc_collect_root_def cc_collect_white_def obj_at_def)
  ultimately show ?case using r(3) Cons.prems(3) by auto
qed

section \<open>Trial deletion as a whole\<close>

text \<open>
  What trial deletion of the candidates \<open>ps\<close> gathers: the objects reached from them that no reference
  from outside that set keeps alive.
\<close>

definition doomed :: "heap \<Rightarrow> slot set \<Rightarrow> slot set" where
  "doomed h A = reached h A - reached h (held_into h (reached h A))"

lemma reached_closed: "A \<subseteq> live_objs h \<Longrightarrow> heap_ok h ext \<Longrightarrow> edge_closed h (reached h A)"
  using reached_live [of h ext A] reached_step [of _ h A] by (auto simp: edge_closed_def)

theorem trial_deletion_exact:
  assumes ok: "heap_ok h ext" and colors: "\<And>p. p \<in> live_objs h \<Longrightarrow> color_at h p \<noteq> Some CC_GRAY \<and> color_at h p \<noteq> Some CC_WHITE"
    and ps: "set ps \<subseteq> live_objs h" "distinct ps" "set ps = {p. buf_at h p}"
  shows "\<exists>h' dead. trial_deletion ps h = Ok (h', dead) \<and> distinct dead \<and> set dead = doomed h (set ps) \<and>
    same_struct h h' \<and> buf_at h' = (\<lambda>_. False) \<and>
    count_at h' = (\<lambda>q. count_at h q - edges_into h (doomed h (set ps)) q) \<and>
    color_at h' = (\<lambda>q. if q \<in> reached h (set ps) then Some CC_BLACK else color_at h q)"
proof -
  let ?R = "reached h (set ps)"
  let ?B = "reached h (held_into h ?R)"
  have R: "?R \<subseteq> live_objs h" "edge_closed h ?R" using reached_live [OF ok ps(1)] reached_closed [OF ps(1) ok] by auto
  have psR: "set ps \<subseteq> ?R" by (rule reached_refl)
  have "marked h {} h" by (simp add: marked_def edges_into_def)
  from mark_all [OF ok _ this ps(1)] colors obtain h1 where
    h1: "rt_each (\<lambda>p h. cc_mark_gray h p) ps h = Ok h1" "marked h ?R h1" by auto
  have s1: "scanning h ?R {} {} {} h1"
    using h1(2) R(1) by (auto simp: scanning_def scanned_def marked_def edge_closed_def)
  from scan_all [OF ok R(2) this psR] obtain h2 W B where
    h2: "rt_each (\<lambda>p h. cc_scan h p) ps h1 = Ok h2" "scanning h ?R W B {} h2" "set ps \<subseteq> W \<union> B" by auto
  have B: "B = ?B" and W: "W = doomed h (set ps)"
    using scan_complete [OF h2(2,3) R(2)] by (simp_all add: doomed_def)
  note s2 = h2(2) [unfolded scanning_def scanned_def]
  have white: "color_at h2 q = Some CC_WHITE \<longleftrightarrow> q \<in> W" if "q \<in> live_objs h" for q
    using s2 colors [OF that] by auto
  have g0: "gathered h2 W (set ps) [] {} h2" using s2 ps(3) by (auto simp: gathered_def fun_eq_iff)
  have "W \<subseteq> live_objs h" "same_struct h h2" using s2 by auto
  from collect_all [OF ok this(2,1) white g0 ps(1,2)] obtain h' dead where
    h': "rt_each cc_collect_root ps (h2, []) = Ok (h', dead)" "gathered h2 W {} dead {} h'" "set ps \<inter> W \<subseteq> set dead"
    by auto
  note g = h'(2) [unfolded gathered_def]
  have all: "W \<subseteq> set dead"
  proof -
    have "?R \<subseteq> set dead \<union> B"
    proof (rule reached_least)
      show "set ps \<subseteq> set dead \<union> B" using h2(3) h'(3) by auto
      fix p q assume p: "p \<in> set dead \<union> B" and live: "p \<in> live_objs h" and q: "q \<in> set (kids h p)"
      show "q \<in> set dead \<union> B"
      proof (cases "p \<in> B")
        case True
        then show ?thesis using q s2 by (auto simp: edge_closed_def)
      next
        case False
        then have "p \<in> set dead" using p by simp
        then have "p \<in> ?R" using g s2 by auto
        then have "q \<in> ?R" using q R(2) by (auto simp: edge_closed_def)
        moreover have "set (kids h2 p) \<inter> W \<subseteq> set dead" using g \<open>p \<in> set dead\<close> by auto
        then have "set (kids h p) \<inter> W \<subseteq> set dead" using same_struct_kids [of h h2 p] s2 by simp
        ultimately show ?thesis using q W B by (auto simp: doomed_def)
      qed
    qed
    then show ?thesis using s2 by auto
  qed
  then have dead: "set dead = W" using g by auto
  have "trial_deletion ps h = Ok (h', dead)" using h1(1) h2(1) h'(1) by (simp add: trial_deletion_def)
  moreover have "same_struct h h'" using g s2 by (auto intro: same_struct_trans)
  moreover have "count_at h' = (\<lambda>q. count_at h q - edges_into h (doomed h (set ps)) q)"
    using g s2 by (simp add: W B doomed_def)
  moreover have "color_at h' = (\<lambda>q. if q \<in> ?R then Some CC_BLACK else color_at h q)"
    using g s2 dead W B by (auto simp: fun_eq_iff doomed_def)
  moreover have "buf_at h' = (\<lambda>_. False)" using g by simp
  ultimately show ?thesis using g dead W by auto
qed

end
