(* ===== verification/Rt_Memory.thy ===== *)
theory Rt_Memory
  imports Rt_Collect
begin

text \<open>
  The memory manager keeps its invariant: releasing, storing, allocating and collecting never lose a live
  object, never touch a freed one, and keep every unreachable object within reach of a candidate, so
  that a forced collection leaves exactly what the program can reach.
\<close>

unbundle bit_operations_syntax

section \<open>Removing objects\<close>

definition pruned :: "heap \<Rightarrow> slot set \<Rightarrow> heap \<Rightarrow> bool" where
  "pruned h Z h' \<longleftrightarrow>
     (\<forall>q. map_option (\<lambda>ob. (o_immortal ob, o_fin ob, o_body ob)) (map_of h' q) =
        (if q \<in> Z then None else map_option (\<lambda>ob. (o_immortal ob, o_fin ob, o_body ob)) (map_of h q)))"

lemma pruned_at:
  assumes "pruned h Z h'"
  shows "mortal_at h' q \<longleftrightarrow> mortal_at h q \<and> q \<notin> Z" "map_of h' q = None \<longleftrightarrow> q \<in> Z \<or> map_of h q = None"
    "q \<notin> Z \<Longrightarrow> all_kids h' q = all_kids h q" "q \<notin> Z \<Longrightarrow> has_fin h' q = has_fin h q"
proof -
  have "map_option (\<lambda>ob. (o_immortal ob, o_fin ob, o_body ob)) (map_of h' q) =
        (if q \<in> Z then None else map_option (\<lambda>ob. (o_immortal ob, o_fin ob, o_body ob)) (map_of h q))"
    using assms by (simp add: pruned_def)
  then show "mortal_at h' q \<longleftrightarrow> mortal_at h q \<and> q \<notin> Z" "map_of h' q = None \<longleftrightarrow> q \<in> Z \<or> map_of h q = None"
    "q \<notin> Z \<Longrightarrow> all_kids h' q = all_kids h q" "q \<notin> Z \<Longrightarrow> has_fin h' q = has_fin h q"
    by (cases "map_of h q"; cases "map_of h' q"; auto simp: mortal_at_def all_kids_def has_fin_def split: if_splits)+
qed

text \<open>An immortal object: a constant of the program.\<close>

definition fixed_at :: "heap \<Rightarrow> slot \<Rightarrow> bool" where
  "fixed_at h p \<longleftrightarrow> map_of h p \<noteq> None \<and> \<not> mortal_at h p"

text \<open>The constants stay and no address appears.\<close>

definition within :: "heap \<Rightarrow> heap \<Rightarrow> bool" where
  "within h h' \<longleftrightarrow>
     (\<forall>p. fixed_at h p \<longrightarrow> fixed_at h' p) \<and> (\<forall>p. map_of h' p \<noteq> None \<longrightarrow> map_of h p \<noteq> None)"

lemma within_trans: "within h h' \<Longrightarrow> within h' h'' \<Longrightarrow> within h h''"
  unfolding within_def by blast

lemma within_pruned:
  assumes "pruned h Z h'" "\<And>q. q \<in> Z \<Longrightarrow> mortal_at h q"
  shows "within h h'"
  using pruned_at(1,2) [OF assms(1)] assms(2) by (auto simp: within_def fixed_at_def)

lemma pruned_empty: "same_struct h h' \<Longrightarrow> pruned h {} h'"
  by (simp add: same_struct_def pruned_def)

lemma edges_into_cong: "(\<And>p. p \<in> A \<Longrightarrow> kids h' p = kids h p) \<Longrightarrow> edges_into h' A q = edges_into h A q"
  by (simp add: edges_into_def)

lemma heap_ok_pruned:
  assumes ok: "heap_ok h ext" and pr: "pruned h Z h'"
    and cnt: "\<And>q. q \<notin> Z \<Longrightarrow> count_at h' q = count_at h q - edges_into h (Z \<inter> live_objs h) q"
    and out: "\<And>p. p \<in> live_objs h - Z \<Longrightarrow> set (all_kids h p) \<inter> Z = {}"
    and stay: "\<And>p. p \<in> live_objs h - Z \<Longrightarrow> edges_into h (Z \<inter> live_objs h) p < count_at h p"
    and ext: "held ext \<inter> Z = {}"
  shows "heap_ok h' ext" "live_objs h' = live_objs h - Z" "\<And>p. p \<in> live_objs h - Z \<Longrightarrow> kids h' p = kids h p"
proof -
  have dead: "count_at h' q = 0" if "q \<in> Z" for q
    using pruned_at(2) [OF pr, of q] that by (simp add: count_at_def)
  show live: "live_objs h' = live_objs h - Z"
    using pruned_at(1) [OF pr] cnt stay by (auto simp: live_objs_def)
  have L: "kids h' p = kids h p" if "p \<in> live_objs h - Z" for p
  proof -
    have "all_kids h' p = all_kids h p" using pruned_at(3) [OF pr] that by simp
    moreover have "mortal_at h' c = mortal_at h c" if "c \<in> set (all_kids h p)" for c
      using pruned_at(1) [OF pr, of c] out [OF \<open>p \<in> live_objs h - Z\<close>] that by auto
    ultimately show ?thesis unfolding kids_def by (simp cong: filter_cong)
  qed
  then show "\<And>p. p \<in> live_objs h - Z \<Longrightarrow> kids h' p = kids h p" .
  have fin: "finite (live_objs h)" by (rule finite_live)
  have edges: "edges_into h' (live_objs h - Z) q = edges_into h (live_objs h) q - edges_into h (Z \<inter> live_objs h) q" for q
  proof -
    have "edges_into h' (live_objs h - Z) q = edges_into h (live_objs h - Z \<inter> live_objs h) q"
      using edges_into_cong [of "live_objs h - Z" h' h q] L by (simp add: Diff_Int2 Diff_Int)
    then show ?thesis by (simp add: edges_into_diff [OF fin])
  qed
  show "heap_ok h' ext"
    unfolding heap_ok_def live
  proof (intro conjI allI ballI)
    show "map_of h' 0 = None" using ok pruned_at(2) [OF pr, of 0] by (simp add: heap_ok_def)
    show "count_at h' p < 2 ^ 48" for p
    proof -
      have "count_at h p < 2 ^ 48" using ok by (simp add: heap_ok_def)
      then show ?thesis using cnt [of p] dead [of p] by (cases "p \<in> Z") auto
    qed
    fix p assume p: "p \<in> live_objs h - Z"
    show "count_at h' p = ext p + edges_into h' (live_objs h - Z) p"
    proof -
      have "count_at h p = ext p + edges_into h (live_objs h) p" using ok p by (simp add: heap_ok_def)
      moreover have "edges_into h (Z \<inter> live_objs h) p \<le> edges_into h (live_objs h) p"
        by (rule edges_into_mono [OF fin]) simp
      ultimately show ?thesis using cnt [of p] p edges [of p] by simp
    qed
    fix c assume c: "c \<in> set (all_kids h' p)"
    then have c': "c \<in> set (all_kids h p)" using pruned_at(3) [OF pr, of p] p by simp
    then have "c \<notin> Z" using out [OF p] by auto
    then show "map_of h' c \<noteq> None" using ok p c' pruned_at(2) [OF pr, of c] by (auto simp: heap_ok_def)
    show "mortal_at h' c \<longrightarrow> c \<in> live_objs h - Z"
      using ok p c' \<open>c \<notin> Z\<close> pruned_at(1) [OF pr, of c] by (auto simp: heap_ok_def)
  next
    show "held ext \<subseteq> live_objs h - Z" using ok ext by (auto simp: heap_ok_def)
  qed
qed

text \<open>Reachability only looks at the edges of reached objects.\<close>

lemma reached_subset_of:
  assumes "\<And>p. p \<in> reached h A \<Longrightarrow> p \<in> live_objs h \<Longrightarrow> p \<in> live_objs h' \<and> set (kids h p) \<subseteq> set (kids h' p)"
  shows "reached h A \<subseteq> reached h' A"
proof
  fix q assume "q \<in> reached h A"
  then obtain p where "p \<in> A" "(p, q) \<in> (heap_edges h)\<^sup>*" by (auto simp: reached_def)
  from this(2) have "q \<in> reached h A \<and> q \<in> reached h' A"
  proof (induction rule: rtrancl_induct)
    case base
    then show ?case using \<open>p \<in> A\<close> reached_refl by blast
  next
    case (step y z)
    then have y: "y \<in> live_objs h" "z \<in> set (kids h y)" by (auto simp: heap_edges_def)
    have "z \<in> reached h A" using reached_step [OF _ y] step.IH by blast
    moreover have "z \<in> reached h' A" using reached_step [of y h' A z] step.IH assms [of y] y by blast
    ultimately show ?case by blast
  qed
  then show "q \<in> reached h' A" by simp
qed

lemma reached_pruned:
  assumes "live_objs h' = live_objs h - Z" "\<And>p. p \<in> live_objs h - Z \<Longrightarrow> kids h' p = kids h p"
    "reached h A \<inter> Z = {}"
  shows "reached h' A = reached h A"
proof
  show "reached h A \<subseteq> reached h' A"
  proof (rule reached_subset_of)
    fix p assume "p \<in> reached h A" "p \<in> live_objs h"
    then have "p \<in> live_objs h - Z" using assms(3) by auto
    then show "p \<in> live_objs h' \<and> set (kids h p) \<subseteq> set (kids h' p)" using assms(1,2) by simp
  qed
  show "reached h' A \<subseteq> reached h A"
  proof (rule reached_least [OF reached_refl])
    fix p q assume "p \<in> reached h A" "p \<in> live_objs h'" "q \<in> set (kids h' p)"
    then show "q \<in> reached h A" using assms reached_step [of p h A q] by auto
  qed
qed

section \<open>The doomed set\<close>

lemma doomed_facts:
  assumes ok: "heap_ok h ext" and A: "A \<subseteq> live_objs h"
  defines "W \<equiv> doomed h A"
  shows "W \<subseteq> live_objs h" "held ext \<inter> W = {}"
    "\<And>p. p \<in> live_objs h - W \<Longrightarrow> set (all_kids h p) \<inter> W = {}"
    "\<And>p. p \<in> live_objs h - W \<Longrightarrow> edges_into h W p < count_at h p"
    "reached h (held ext) \<inter> W = {}"
proof -
  let ?R = "reached h A" and ?L = "live_objs h"
  let ?B = "reached h (held_into h ?R)"
  have R: "?R \<subseteq> ?L" "edge_closed h ?R" using reached_live [OF ok A] reached_closed [OF A ok] by auto
  have fin: "finite ?L" "finite ?R" using finite_live R(1) by (auto intro: finite_subset)
  have W: "W = ?R - ?B" by (simp add: W_def doomed_def)
  show WL: "W \<subseteq> ?L" using W R(1) by auto
  have cntL: "count_at h p = ext p + edges_into h ?L p" if "p \<in> ?L" for p using ok that by (simp add: heap_ok_def)
  have white: "count_at h w = edges_into h ?R w" if "w \<in> W" for w
  proof -
    have "w \<in> ?R" "w \<notin> held_into h ?R" using that W reached_refl [of "held_into h ?R" h] by auto
    then have "\<not> edges_into h ?R w < count_at h w" by (simp add: held_into_def)
    moreover have "edges_into h ?R w \<le> count_at h w" using edges_bounded [OF ok R(1)] WL that by auto
    ultimately show ?thesis by simp
  qed
  have noedge: "w \<notin> set (kids h p)" if p: "p \<in> ?L - W" and w: "w \<in> W" for p w
  proof
    assume edge: "w \<in> set (kids h p)"
    show False
    proof (cases "p \<in> ?R")
      case True
      then have "p \<in> ?B" using p W by simp
      then have "w \<in> ?B" using reached_step [OF _ _ edge] p by blast
      then show False using w W by simp
    next
      case False
      have "edges_into h ?R w + count_list (kids h p) w \<le> edges_into h ?L w"
      proof -
        have "edges_into h (insert p ?R) w \<le> edges_into h ?L w"
          using p R(1) by (intro edges_into_mono [OF fin(1)]) auto
        then show ?thesis using edges_into_insert [OF fin(2) False, of h w] by simp
      qed
      moreover have "0 < count_list (kids h p) w" using edge by (metis count_list_0_iff neq0_conv)
      ultimately show False using white [OF w] cntL [of w] WL w by auto
    qed
  qed
  then show "set (all_kids h p) \<inter> W = {}" if "p \<in> ?L - W" for p
    using that WL by (auto simp: kids_def live_objs_def)
  show held: "held ext \<inter> W = {}"
  proof -
    have "ext w = 0" if "w \<in> W" for w
    proof -
      have "edges_into h ?R w \<le> edges_into h ?L w" by (rule edges_into_mono [OF fin(1) R(1)])
      then show ?thesis using white [OF that] cntL [of w] WL that by auto
    qed
    then show ?thesis by (auto simp: held_def)
  qed
  show "edges_into h W p < count_at h p" if p: "p \<in> ?L - W" for p
  proof (cases "p \<in> ?R")
    case False
    have "edges_into h W p = 0"
      using R(2) False W fin(2) by (subst edges_into_zero_iff) (auto intro: finite_subset simp: edge_closed_def)
    then show ?thesis using p by (simp add: live_objs_def)
  next
    case True
    then have "p \<in> ?B" using p W by simp
    then obtain q where q: "q \<in> held_into h ?R" "(q, p) \<in> (heap_edges h)\<^sup>*" by (auto simp: reached_def)
    have WR: "edges_into h W p \<le> edges_into h ?R p" using W by (intro edges_into_mono [OF fin(2)]) auto
    have Rp: "edges_into h ?R p \<le> count_at h p" using edges_bounded [OF ok R(1)] p by simp
    from q(2) show ?thesis
    proof (cases rule: rtranclE)
      case base
      then show ?thesis using q(1) WR by (simp add: held_into_def)
    next
      case (step y)
      then have y: "y \<in> ?L" "p \<in> set (kids h y)" by (auto simp: heap_edges_def)
      have "y \<in> ?B" using step(1) q(1) by (auto simp: reached_def)
      moreover have "q \<in> ?R" using q(1) by (simp add: held_into_def)
      then have "y \<in> ?R" using step(1) by (auto simp: reached_def intro: rtrancl_trans)
      ultimately have "y \<in> ?R - W" using W by simp
      moreover have "0 < edges_into h (?R - W) p"
        using \<open>y \<in> ?R - W\<close> y(2) fin(2) by (intro edges_into_pos) auto
      moreover have "edges_into h (?R - W) p = edges_into h ?R p - edges_into h W p"
        using W by (intro edges_into_diff [OF fin(2)]) auto
      ultimately show ?thesis using Rp by simp
    qed
  qed
  have "reached h (held ext) \<subseteq> ?L - W"
  proof (rule reached_least)
    show "held ext \<subseteq> ?L - W" using ok held by (auto simp: heap_ok_def)
    fix p q assume "p \<in> ?L - W" "q \<in> set (kids h p)"
    then show "q \<in> ?L - W" using noedge kids_live [OF ok] by blast
  qed
  then show "reached h (held ext) \<inter> W = {}" by auto
qed

text \<open>When every unreachable object is within reach of the candidates, all of them are doomed.\<close>

lemma garbage_doomed:
  assumes ok: "heap_ok h ext" and A: "A \<subseteq> live_objs h" and found: "live_objs h - reached h (held ext) \<subseteq> reached h A"
  shows "doomed h A = live_objs h - reached h (held ext)"
proof -
  let ?L = "live_objs h" and ?R = "reached h A"
  have R: "?R \<subseteq> ?L" by (rule reached_live [OF ok A])
  have fin: "finite ?L" by (rule finite_live)
  have "g \<notin> reached h (held_into h ?R)" if g: "g \<in> ?L - reached h (held ext)" for g
  proof
    assume "g \<in> reached h (held_into h ?R)"
    then obtain q where q: "q \<in> held_into h ?R" "(q, g) \<in> (heap_edges h)\<^sup>*" by (auto simp: reached_def)
    have qR: "q \<in> ?R" "edges_into h ?R q < count_at h q" using q(1) by (auto simp: held_into_def)
    have q': "q \<notin> reached h (held ext)"
    proof
      assume "q \<in> reached h (held ext)"
      then have "g \<in> reached h (held ext)" using q(2) by (auto simp: reached_def intro: rtrancl_trans)
      with g show False by simp
    qed
    then have "ext q = 0" using reached_refl [of "held ext" h] by (auto simp: held_def)
    moreover have "count_at h q = ext q + edges_into h ?L q" using ok qR(1) R by (auto simp: heap_ok_def)
    ultimately have "0 < edges_into h (?L - ?R) q" using qR(2) edges_into_diff [OF fin R, of h q] by simp
    moreover have "finite (?L - ?R)" using fin by simp
    ultimately obtain p where p: "p \<in> ?L - ?R" "q \<in> set (kids h p)"
      using edges_into_zero_iff [of "?L - ?R" h q] by auto
    then have "p \<notin> reached h (held ext)" using q' reached_step [of p h "held ext" q] by auto
    then show False using p(1) found by auto
  qed
  then have "?L - reached h (held ext) \<subseteq> doomed h A" using found by (auto simp: doomed_def)
  then show ?thesis using doomed_facts(1,5) [OF ok A] by auto
qed

section \<open>A collection\<close>

lemma map_of_free [simp]: "map_of (cc_free_shell h p) q = (if q = p then None else map_of h q)"
  by (simp add: cc_free_shell_def delete_conv')

lemma at_cong:
  assumes "map_of h' q = map_of h q"
  shows "count_at h' q = count_at h q" "buf_at h' q = buf_at h q" "color_at h' q = color_at h q"
    "mortal_at h' q = mortal_at h q" "all_kids h' q = all_kids h q" "has_fin h' q = has_fin h q"
  using assms by (simp_all add: count_at_def buf_at_def color_at_def mortal_at_def all_kids_def has_fin_def)

lemma at_gone:
  "map_of h q = None \<Longrightarrow> count_at h q = 0 \<and> \<not> buf_at h q \<and> color_at h q = None \<and> \<not> mortal_at h q"
  by (simp add: count_at_def buf_at_def color_at_def mortal_at_def)

lemma filter_result:
  "distinct ps \<Longrightarrow>
    (\<And>p. p \<in> set ps \<Longrightarrow> map_of h p \<noteq> None \<and> color_at h p = Some (if 0 < count_at h p then CC_PURPLE else CC_BLACK)) \<Longrightarrow>
    \<exists>h'. cc_filter h ps = Ok (h', filter (\<lambda>p. 0 < count_at h p) ps) \<and>
      (\<forall>q. map_of h' q = (if q \<in> set ps \<and> count_at h q = 0 then None else map_of h q))"
proof (induction ps arbitrary: h)
  case (Cons p ps)
  obtain ob where ob: "map_of h p = Some ob" using Cons.prems(2) [of p] by auto
  have cnt: "count_at h p = o_count ob" "color_at h p = Some (o_color ob)" by (rule at_some [OF ob])+
  show ?case
  proof (cases "0 < o_count ob")
    case True
    then have "o_color ob = CC_PURPLE" using Cons.prems(2) [of p] cnt by simp
    moreover obtain h' where "cc_filter h ps = Ok (h', filter (\<lambda>p. 0 < count_at h p) ps)"
        "\<forall>q. map_of h' q = (if q \<in> set ps \<and> count_at h q = 0 then None else map_of h q)"
      using Cons.IH [of h] Cons.prems by auto
    ultimately show ?thesis using True ob cnt by (auto simp: obj_at_def)
  next
    case False
    let ?h = "cc_free_shell h p"
    have keep: "count_at ?h q = count_at h q" "color_at ?h q = color_at h q" if "q \<in> set ps" for q
      using Cons.prems(1) that by (auto simp: count_at_def color_at_def)
    have "distinct ps" using Cons.prems(1) by simp
    moreover have "map_of ?h q \<noteq> None \<and> color_at ?h q = Some (if 0 < count_at ?h q then CC_PURPLE else CC_BLACK)"
      if "q \<in> set ps" for q
      using Cons.prems that keep [OF that] by auto
    ultimately obtain h' where h': "cc_filter ?h ps = Ok (h', filter (\<lambda>p. 0 < count_at ?h p) ps)"
        "\<forall>q. map_of h' q = (if q \<in> set ps \<and> count_at ?h q = 0 then None else map_of ?h q)"
      using Cons.IH [of ?h] by blast
    have "filter (\<lambda>p. 0 < count_at ?h p) ps = filter (\<lambda>p. 0 < count_at h p) (p # ps)"
      using False cnt keep(1) by (simp cong: filter_cong)
    moreover have "map_of h' q = (if q \<in> set (p # ps) \<and> count_at h q = 0 then None else map_of h q)" for q
      using h'(2) keep(1) [of q] False cnt by auto
    moreover have "cc_filter h (p # ps) = cc_filter ?h ps" using False ob by (simp add: obj_at_def)
    ultimately show ?thesis using h'(1) by auto
  qed
qed simp

lemma free_result:
  "distinct dead \<Longrightarrow> (\<And>p. p \<in> set dead \<Longrightarrow> map_of h p \<noteq> None \<and> \<not> buf_at h p) \<Longrightarrow>
    \<exists>h'. rt_each cc_free_one dead h = Ok h' \<and> (\<forall>q. map_of h' q = (if q \<in> set dead then None else map_of h q))"
proof (induction dead arbitrary: h)
  case (Cons p ps)
  obtain ob where ob: "map_of h p = Some ob" using Cons.prems(2) [of p] by auto
  have "\<not> o_buf ob" using Cons.prems(2) [of p] at_some(2) [OF ob] by simp
  then have one: "cc_free_one p h = Ok (cc_free_shell h p)" using ob by (simp add: cc_free_one_def obj_at_def)
  have "map_of (cc_free_shell h p) q \<noteq> None \<and> \<not> buf_at (cc_free_shell h p) q" if "q \<in> set ps" for q
    using Cons.prems(1) Cons.prems(2) [of q] that by (auto simp: buf_at_def)
  with Cons.IH [of "cc_free_shell h p"] Cons.prems(1) obtain h' where
    "rt_each cc_free_one ps (cc_free_shell h p) = Ok h'"
    "\<forall>q. map_of h' q = (if q \<in> set ps then None else map_of (cc_free_shell h p) q)" by auto
  with one Cons.prems(1) show ?case by auto
qed simp

text \<open>The cheap half drops the husks and nothing else.\<close>

lemma filter_keeps:
  assumes ok: "heap_ok h ext" and roots: "roots_ok h ps" and found: "garbage_found h ext ps"
  shows "\<exists>h'. cc_filter h ps = Ok (h', filter (\<lambda>p. 0 < count_at h p) ps) \<and> heap_ok h' ext \<and>
    roots_ok h' (filter (\<lambda>p. 0 < count_at h p) ps) \<and> garbage_found h' ext (filter (\<lambda>p. 0 < count_at h p) ps) \<and>
    live_objs h' = live_objs h \<and> (\<forall>p \<in> live_objs h. map_of h' p = map_of h p) \<and>
    (\<forall>p. mortal_at h' p \<longrightarrow> p \<in> live_objs h') \<and> reached h' (held ext) = reached h (held ext) \<and>
    within h h'"
proof -
  let ?kept = "filter (\<lambda>p. 0 < count_at h p) ps" and ?Z = "{p. buf_at h p \<and> count_at h p = 0}"
  note r = roots [unfolded roots_ok_def]
  have mortal: "mortal_at h p" if "p \<in> set ps" for p using that r by auto
  have "map_of h p \<noteq> None \<and> color_at h p = Some (if 0 < count_at h p then CC_PURPLE else CC_BLACK)" if "p \<in> set ps" for p
    using that r mortal_dom [OF mortal [OF that]] by auto
  with filter_result [of ps h] r obtain h' where h': "cc_filter h ps = Ok (h', ?kept)"
      "\<And>q. map_of h' q = (if q \<in> ?Z then None else map_of h q)" by auto
  have Z: "?Z \<inter> live_objs h = {}" by (auto simp: live_objs_def)
  have pr: "pruned h ?Z h'" using h'(2) by (simp add: pruned_def)
  have eq: "map_of h' q = map_of h q" if "q \<notin> ?Z" for q by (simp only: h'(2) if_not_P [OF that])
  have cnt: "count_at h' q = count_at h q - edges_into h (?Z \<inter> live_objs h) q" if "q \<notin> ?Z" for q
    using at_cong(1) [OF eq [OF that]] unfolding Z by (simp add: edges_into_def)
  have out: "set (all_kids h p) \<inter> ?Z = {}" if "p \<in> live_objs h - ?Z" for p
    using ok that r by (fastforce simp: heap_ok_def live_objs_def)
  have stay: "edges_into h (?Z \<inter> live_objs h) p < count_at h p" if "p \<in> live_objs h - ?Z" for p
    using that unfolding Z by (simp add: edges_into_def live_objs_def)
  have ext: "held ext \<inter> ?Z = {}" using ok Z by (auto simp: heap_ok_def)
  note p = heap_ok_pruned [OF ok pr cnt out stay ext]
  have live: "live_objs h' = live_objs h" using p(2) Z by auto
  have keep: "map_of h' q = map_of h q" if "q \<in> live_objs h" for q using h'(2) [of q] that Z by auto
  have same: "count_at h' q = count_at h q" "buf_at h' q = buf_at h q" "color_at h' q = color_at h q"
    "mortal_at h' q = mortal_at h q" if "q \<notin> ?Z" for q
    by (rule at_cong [OF eq [OF that]])+
  have gone: "\<not> mortal_at h' q" "\<not> buf_at h' q" if "q \<in> ?Z" for q
    using at_gone [of h' q] h'(2) [of q] that by simp_all
  have roots': "roots_ok h' ?kept"
    unfolding roots_ok_def
  proof (intro conjI allI impI)
    show "distinct ?kept" using r by simp
    show "set ?kept = {p. buf_at h' p}" 
    proof (intro set_eqI)
      fix q
      have "q \<in> set ps \<longleftrightarrow> buf_at h q" using r by auto
      then show "q \<in> set ?kept \<longleftrightarrow> q \<in> {p. buf_at h' p}"
        using same(2) [of q] gone(2) [of q] by (cases "q \<in> ?Z") auto
    qed
    show "mortal_at h' p" if "buf_at h' p" for p
      using that same(2,4) [of p] gone(2) [of p] r by blast
    fix p assume m: "mortal_at h' p"
    then have "p \<notin> ?Z" using gone(1) by blast
    then show "if buf_at h' p then color_at h' p = Some (if 0 < count_at h' p then CC_PURPLE else CC_BLACK)
        else color_at h' p = Some CC_BLACK \<and> 0 < count_at h' p"
      using m r same [of p] by simp
  qed
  have all_live: "p \<in> live_objs h'" if m: "mortal_at h' p" for p
  proof -
    have "p \<notin> ?Z" using gone(1) m by blast
    then have "0 < count_at h p" using same [of p] m r by (cases "buf_at h p") auto
    then show ?thesis using same [of p] m \<open>p \<notin> ?Z\<close> by (simp add: live_objs_def)
  qed
  have disj: "reached h A \<inter> ?Z = {}" if "A \<subseteq> live_objs h" for A using reached_live [OF ok that] Z by auto
  have reach: "reached h' A = reached h A" if "A \<subseteq> live_objs h" for A
    by (rule reached_pruned [OF p(2,3) disj [OF that]])
  have held: "held ext \<subseteq> live_objs h" using ok by (simp add: heap_ok_def)
  have "set ps \<inter> live_objs h = set ?kept \<inter> live_objs h" by (auto simp: live_objs_def)
  then have "garbage_found h' ext ?kept"
    using found reach [OF held] reach [of "set ps \<inter> live_objs h"] by (simp add: garbage_found_def live)
  moreover have "within h h'" by (rule within_pruned [OF pr]) (use r in blast)
  ultimately show ?thesis using h'(1) p(1) roots' live keep all_live reach [OF held] by blast
qed

text \<open>
  The expensive half, on a heap without husks: the doomed set goes, everything else stays with the
  counts of its remaining references, and the unreachable objects are all among the doomed.
\<close>

lemma trial_frees:
  assumes ok: "heap_ok h ext" and roots: "roots_ok h ps" and found: "garbage_found h ext ps"
    and all_live: "\<And>p. mortal_at h p \<Longrightarrow> p \<in> live_objs h"
  shows "\<exists>h' dead h''. trial_deletion ps h = Ok (h', dead) \<and> distinct dead \<and>
    set dead = live_objs h - reached h (held ext) \<and> same_struct h h' \<and> buf_at h' = (\<lambda>_. False) \<and>
    count_at h' = (\<lambda>q. count_at h q - edges_into h (set dead) q) \<and>
    color_at h' = (\<lambda>q. if mortal_at h q then Some CC_BLACK else color_at h q) \<and>
    rt_each cc_free_one dead h' = Ok h'' \<and> heap_ok h'' ext \<and> roots_ok h'' [] \<and>
    live_objs h'' = reached h (held ext) \<and> reached h'' (held ext) = reached h (held ext) \<and>
    (\<forall>p \<in> live_objs h''. all_kids h'' p = all_kids h p \<and> kids h'' p = kids h p \<and> has_fin h'' p = has_fin h p) \<and>
    within h h''"
proof -
  note r = roots [unfolded roots_ok_def]
  have ps: "set ps \<subseteq> live_objs h" "distinct ps" "set ps = {p. buf_at h p}" using r all_live by auto
  have colors: "color_at h p \<noteq> Some CC_GRAY \<and> color_at h p \<noteq> Some CC_WHITE" if "p \<in> live_objs h" for p
    using that r by (fastforce simp: live_objs_def split: if_splits)
  have W: "doomed h (set ps) = live_objs h - reached h (held ext)"
    using garbage_doomed [OF ok ps(1)] found ps(1) by (simp add: garbage_found_def Int_absorb2)
  from trial_deletion_exact [OF ok colors ps] obtain h' dead where
    t: "trial_deletion ps h = Ok (h', dead)" "distinct dead" "set dead = doomed h (set ps)" "same_struct h h'"
      "buf_at h' = (\<lambda>_. False)" "count_at h' = (\<lambda>q. count_at h q - edges_into h (doomed h (set ps)) q)"
      "color_at h' = (\<lambda>q. if q \<in> reached h (set ps) then Some CC_BLACK else color_at h q)" by blast
  note d = doomed_facts [OF ok ps(1)]
  have black: "color_at h' = (\<lambda>q. if mortal_at h q then Some CC_BLACK else color_at h q)"
  proof
    fix q
    show "color_at h' q = (if mortal_at h q then Some CC_BLACK else color_at h q)"
    proof (cases "q \<in> reached h (set ps)")
      case True
      then have "mortal_at h q" using reached_live [OF ok ps(1)] by (auto simp: live_objs_def)
      then show ?thesis using True t(7) by simp
    next
      case False
      then have "\<not> buf_at h q" using ps(3) reached_refl [of "set ps" h] by auto
      then show ?thesis using False t(7) r by simp
    qed
  qed
  have "map_of h' p \<noteq> None \<and> \<not> buf_at h' p" if "p \<in> set dead" for p
    using that t(3,5) d(1) live_dom [of p h] same_struct_dom [OF t(4), of p] by auto
  from free_result [OF t(2) this] obtain h'' where
    f: "rt_each cc_free_one dead h' = Ok h''" "\<And>q. map_of h'' q = (if q \<in> set dead then None else map_of h' q)" by auto
  let ?W = "doomed h (set ps)"
  have Wl: "?W \<inter> live_objs h = ?W" using d(1) by auto
  have pr: "pruned h ?W h''" using t(3,4) f(2) by (simp add: pruned_def same_struct_def)
  have same: "count_at h'' q = count_at h' q" "color_at h'' q = color_at h' q" "buf_at h'' q = buf_at h' q" if "q \<notin> ?W" for q
    by (rule at_cong, use f(2) [of q] that t(3) in simp)+
  have cnt: "count_at h'' q = count_at h q - edges_into h (?W \<inter> live_objs h) q" if "q \<notin> ?W" for q
    using same(1) [OF that] t(6) unfolding Wl by simp
  have stay: "edges_into h (?W \<inter> live_objs h) p < count_at h p" if "p \<in> live_objs h - ?W" for p
    using d(4) [OF that] unfolding Wl .
  note p = heap_ok_pruned [OF ok pr cnt d(3) stay d(2)]
  have held: "reached h (held ext) \<subseteq> live_objs h" using reached_live [OF ok] ok by (simp add: heap_ok_def)
  then have live: "live_objs h'' = reached h (held ext)" using p(2) W by auto
  have nobuf: "\<not> buf_at h'' q" for q
  proof (cases "q \<in> ?W")
    case True
    then show ?thesis using f(2) [of q] t(3) by (simp add: buf_at_def)
  qed (use same(3) t(5) in simp)
  have "roots_ok h'' []"
    unfolding roots_ok_def
  proof (intro conjI allI impI)
    fix q assume m: "mortal_at h'' q"
    then have q: "mortal_at h q" "q \<notin> ?W" using pruned_at(1) [OF pr, of q] by auto
    then have "q \<in> live_objs h''" using all_live p(2) by auto
    then show "if buf_at h'' q then color_at h'' q = Some (if 0 < count_at h'' q then CC_PURPLE else CC_BLACK)
        else color_at h'' q = Some CC_BLACK \<and> 0 < count_at h'' q"
      using nobuf same(2) [OF q(2)] black q(1) by (simp add: live_objs_def)
  qed (use nobuf in auto)
  moreover have "reached h'' (held ext) = reached h (held ext)"
    by (rule reached_pruned [OF p(2,3) d(5)])
  moreover have "all_kids h'' q = all_kids h q \<and> kids h'' q = kids h q \<and> has_fin h'' q = has_fin h q" if "q \<in> live_objs h''" for q
    using that p(2,3) pruned_at(3,4) [OF pr, of q] by auto
  moreover have "within h h''" by (rule within_pruned [OF pr]) (use d(1) in \<open>auto simp: live_objs_def\<close>)
  ultimately show ?thesis using t(1,2,4,5,6) f(1) p(1) live black W t(3)
    by (intro exI [of _ h'] exI [of _ dead] exI [of _ h'']) simp
qed

section \<open>Heaps that differ only in colours, buffer bits and deinit flags\<close>

definition alike :: "heap \<Rightarrow> heap \<Rightarrow> bool" where
  "alike h h' \<longleftrightarrow>
     (\<forall>q. (map_of h' q = None \<longleftrightarrow> map_of h q = None) \<and> mortal_at h' q = mortal_at h q \<and>
        count_at h' q = count_at h q \<and> all_kids h' q = all_kids h q)"

lemma alike_facts:
  assumes "alike h h'"
  shows "live_objs h' = live_objs h" "kids h' = kids h" "reached h' = reached h" "heap_ok h' ext = heap_ok h ext"
proof -
  have a: "mortal_at h' = mortal_at h" "count_at h' = count_at h" "all_kids h' = all_kids h"
    "\<And>q. map_of h' q = None \<longleftrightarrow> map_of h q = None"
    using assms by (auto simp: alike_def fun_eq_iff)
  show live: "live_objs h' = live_objs h" by (simp add: live_objs_def a)
  show kids: "kids h' = kids h" by (simp add: kids_def a fun_eq_iff)
  show "reached h' = reached h" by (simp add: reached_def heap_edges_def live kids fun_eq_iff)
  show "heap_ok h' ext = heap_ok h ext" by (simp add: heap_ok_def live a edges_into_def kids)
qed

text \<open>A change of the objects one by one.\<close>

definition mapped :: "heap \<Rightarrow> (slot \<Rightarrow> obj \<Rightarrow> obj) \<Rightarrow> heap \<Rightarrow> bool" where
  "mapped h F h' \<longleftrightarrow> (\<forall>q. map_of h' q = map_option (F q) (map_of h q))"

lemma mapped_refl [simp]: "mapped h (\<lambda>_ ob. ob) h"
  by (simp add: mapped_def option.map_ident)

lemma mapped_trans: "mapped h F h' \<Longrightarrow> mapped h' G h'' \<Longrightarrow> mapped h (\<lambda>q ob. G q (F q ob)) h''"
  by (simp add: mapped_def option.map_comp comp_def)

lemma mapped_put: "map_of h p = Some ob \<Longrightarrow> mapped h (\<lambda>q x. if q = p then f x else x) (put_obj h p (f ob))"
  by (auto simp: mapped_def option.map_ident split: option.splits)

definition on_set :: "slot set \<Rightarrow> (obj \<Rightarrow> obj) \<Rightarrow> slot \<Rightarrow> obj \<Rightarrow> obj" where
  "on_set A f q ob = (if q \<in> A then f ob else ob)"

lemma mapped_on_insert:
  assumes "mapped h (\<lambda>q x. if q = p then f x else x) h1" "mapped h1 (on_set A f) h2" "p \<notin> A"
  shows "mapped h (on_set (insert p A) f) h2"
proof -
  have "(\<lambda>q ob. on_set A f q (if q = p then f ob else ob)) = on_set (insert p A) f"
    using assms(3) by (auto simp: on_set_def fun_eq_iff)
  with mapped_trans [OF assms(1,2)] show ?thesis by simp
qed

section \<open>A dead cycle with deinit bodies\<close>

definition excused :: "bstr \<Rightarrow> bool" where
  "excused msg \<longleftrightarrow> msg = asc ''out of memory'' \<or> msg = asc ''cycle root buffer too large''"

text \<open>A deinit body that leaves the memory manager alone.\<close>

definition quiet :: "(slot \<Rightarrow> cc \<Rightarrow> cc rt) \<Rightarrow> bool" where
  "quiet deinit \<longleftrightarrow> (\<forall>p s. deinit p s = Ok s)"

definition same_control :: "cc \<Rightarrow> cc \<Rightarrow> bool" where
  "same_control s s' \<longleftrightarrow> c_collecting s' = c_collecting s \<and> c_in_deinit s' = c_in_deinit s"

lemma root_room_result: "(\<exists>cap'. root_room cap needed = Ok cap') \<or>
    root_room cap needed = Panic (asc ''cycle root buffer too large'') 0 0 \<or> cap = 0"
proof (induction cap needed rule: root_room.induct)
  case (1 cap needed)
  then show ?case by (subst (1 2) root_room.simps) auto
qed

lemma append_one:
  "(\<exists>s'. cc_append_roots alloc s [p] = Ok s' \<and> c_heap s' = c_heap s \<and> c_roots s' = c_roots s @ [p] \<and> same_control s s') \<or>
   (\<exists>msg. cc_append_roots alloc s [p] = Panic msg 0 0 \<and> excused msg)"
proof -
  let ?n = "if c_cap s \<noteq> 0 then c_cap s * 2 else 1024"
  have "?n \<noteq> 0" by simp
  with root_room_result [of ?n "length (c_roots s) + 1"]
  consider cap' where "root_room ?n (length (c_roots s) + 1) = Ok cap'"
    | "root_room ?n (length (c_roots s) + 1) = Panic (asc ''cycle root buffer too large'') 0 0" by auto
  then show ?thesis
    by cases (auto simp: cc_append_roots_def Let_def excused_def out_of_memory_def same_control_def)
qed

lemma possible_root_result:
  assumes ob: "map_of (c_heap s) p = Some ob"
  shows "(\<exists>s'. cc_possible_root alloc p s = Ok s' \<and> c_heap s' = put_obj (c_heap s) p (ob\<lparr>o_color := CC_PURPLE, o_buf := True\<rparr>) \<and>
      c_roots s' = (if o_buf ob then c_roots s else c_roots s @ [p]) \<and> same_control s s') \<or>
    (\<exists>msg. cc_possible_root alloc p s = Panic msg 0 0 \<and> excused msg)"
proof (cases "o_buf ob")
  case False
  then have "cc_possible_root alloc p s = cc_append_roots alloc (put_at s p (ob\<lparr>o_color := CC_PURPLE, o_buf := True\<rparr>)) [p]"
    using ob by (simp add: cc_possible_root_def Let_def obj_at_def)
  with append_one [of alloc "put_at s p (ob\<lparr>o_color := CC_PURPLE, o_buf := True\<rparr>)" p] False show ?thesis
    by (auto simp: put_at_def same_control_def)
qed (use ob in \<open>auto simp: cc_possible_root_def Let_def obj_at_def put_at_def same_control_def\<close>)

lemma park_each:
  "distinct ps \<Longrightarrow> (\<And>p. p \<in> set ps \<Longrightarrow> map_of (c_heap s) p \<noteq> None \<and> \<not> buf_at (c_heap s) p) \<Longrightarrow>
    (\<exists>s'. rt_each (cc_possible_root alloc) ps s = Ok s' \<and>
      mapped (c_heap s) (on_set (set ps) (\<lambda>ob. ob\<lparr>o_color := CC_PURPLE, o_buf := True\<rparr>)) (c_heap s') \<and>
      c_roots s' = c_roots s @ ps \<and> same_control s s') \<or>
    (\<exists>msg. rt_each (cc_possible_root alloc) ps s = Panic msg 0 0 \<and> excused msg)"
proof (induction ps arbitrary: s)
  case Nil
  then show ?case by (simp add: on_set_def same_control_def)
next
  case (Cons p ps)
  obtain ob where ob: "map_of (c_heap s) p = Some ob" using Cons.prems(2) [of p] by auto
  have nb: "\<not> o_buf ob" using Cons.prems(2) [of p] at_some(2) [OF ob] by simp
  let ?f = "\<lambda>ob. ob\<lparr>o_color := CC_PURPLE, o_buf := True\<rparr>"
  from possible_root_result [OF ob, of alloc] nb show ?case
  proof (elim disjE exE conjE)
    fix s1 assume s1: "cc_possible_root alloc p s = Ok s1" "c_heap s1 = put_obj (c_heap s) p (?f ob)"
      "c_roots s1 = (if o_buf ob then c_roots s else c_roots s @ [p])" "same_control s s1"
    have step: "mapped (c_heap s) (\<lambda>q x. if q = p then ?f x else x) (c_heap s1)"
      unfolding s1(2) by (rule mapped_put [OF ob])
    have "map_of (c_heap s1) q \<noteq> None \<and> \<not> buf_at (c_heap s1) q" if "q \<in> set ps" for q
      using Cons.prems that by (auto simp: s1(2))
    moreover have "distinct ps" using Cons.prems(1) by simp
    ultimately show ?thesis using Cons.IH [of s1]
    proof (elim meta_impE disjE exE conjE)
      fix s2 assume s2: "rt_each (cc_possible_root alloc) ps s1 = Ok s2" "mapped (c_heap s1) (on_set (set ps) ?f) (c_heap s2)"
        "c_roots s2 = c_roots s1 @ ps" "same_control s1 s2"
      from mapped_on_insert [OF step s2(2)] Cons.prems(1)
      have "mapped (c_heap s) (on_set (set (p # ps)) ?f) (c_heap s2)" by simp
      then show ?thesis using s1 s2 nb by (auto simp: same_control_def)
    qed (use s1 in auto)
  qed auto
qed

lemma retain_each:
  "distinct ps \<Longrightarrow> (\<And>p. p \<in> set ps \<Longrightarrow> p \<noteq> 0 \<and> mortal_at (c_heap s) p \<and> count_at (c_heap s) p + 1 < 2 ^ 48) \<Longrightarrow>
    \<exists>s'. rt_each beans_retain ps s = Ok s' \<and>
      mapped (c_heap s) (on_set (set ps) (\<lambda>ob. ob\<lparr>o_count := o_count ob + 1\<rparr>)) (c_heap s') \<and>
      c_roots s' = c_roots s \<and> same_control s s'"
proof (induction ps arbitrary: s)
  case Nil
  then show ?case by (simp add: on_set_def same_control_def)
next
  case (Cons p ps)
  obtain ob where ob: "map_of (c_heap s) p = Some ob" "\<not> o_immortal ob" using Cons.prems(2) [of p] mortal_dom by auto
  let ?f = "\<lambda>ob. ob\<lparr>o_count := o_count ob + 1\<rparr>"
  have step: "beans_retain p s = Ok (put_at s p (?f ob))"
    using ob Cons.prems(2) [of p] at_some(1) [OF ob(1)] by (simp add: beans_retain_def obj_at_def rc_inc_def)
  let ?s = "put_at s p (?f ob)"
  have "q \<noteq> 0 \<and> mortal_at (c_heap ?s) q \<and> count_at (c_heap ?s) q + 1 < 2 ^ 48" if "q \<in> set ps" for q
    using Cons.prems that by (auto simp: put_at_def)
  from Cons.IH [OF _ this] Cons.prems(1) obtain s' where s': "rt_each beans_retain ps ?s = Ok s'"
    "mapped (c_heap ?s) (on_set (set ps) ?f) (c_heap s')" "c_roots s' = c_roots ?s" "same_control ?s s'" by auto
  have "mapped (c_heap s) (\<lambda>q x. if q = p then ?f x else x) (c_heap ?s)"
    unfolding put_at_def using mapped_put [OF ob(1), of ?f] by simp
  from mapped_on_insert [OF this s'(2)] Cons.prems(1)
  have "mapped (c_heap s) (on_set (set (p # ps)) ?f) (c_heap s')" by simp
  then show ?case using step s' by (auto simp: put_at_def same_control_def)
qed

lemma quiet_deinit:
  assumes "quiet deinit" "map_of (c_heap s) p = Some ob" "o_count ob + 1 < 2 ^ 48"
  shows "\<exists>s'. beans_do_deinit deinit p s = Ok s' \<and> c_roots s' = c_roots s \<and> same_control s s' \<and>
    (\<forall>q. map_of (c_heap s') q = (if q = p then Some (ob\<lparr>o_fin := False\<rparr>) else map_of (c_heap s) q))"
  using assms by (auto simp: beans_do_deinit_def obj_at_def rc_inc_def quiet_def put_at_def same_control_def)

lemma deinit_each:
  assumes q: "quiet deinit"
  shows "distinct ps \<Longrightarrow> (\<And>p. p \<in> set ps \<Longrightarrow> map_of (c_heap s) p \<noteq> None \<and> count_at (c_heap s) p + 1 < 2 ^ 48) \<Longrightarrow>
    \<exists>s'. rt_each (run_member_deinit deinit) ps s = Ok s' \<and>
      mapped (c_heap s) (on_set (set ps) (\<lambda>ob. ob\<lparr>o_fin := False\<rparr>)) (c_heap s') \<and>
      c_roots s' = c_roots s \<and> same_control s s'"
proof (induction ps arbitrary: s)
  case Nil
  then show ?case by (simp add: on_set_def same_control_def)
next
  case (Cons p ps)
  obtain ob where ob: "map_of (c_heap s) p = Some ob" using Cons.prems(2) [of p] by auto
  let ?f = "\<lambda>ob. ob\<lparr>o_fin := False\<rparr>"
  have "o_count ob + 1 < 2 ^ 48" using Cons.prems(2) [of p] at_some(1) [OF ob] by simp
  from quiet_deinit [OF q ob this] obtain s0 where s0: "beans_do_deinit deinit p s = Ok s0" "c_roots s0 = c_roots s"
    "same_control s s0" "\<And>q. map_of (c_heap s0) q = (if q = p then Some (?f ob) else map_of (c_heap s) q)" by auto
  have "\<exists>s1. run_member_deinit deinit p s = Ok s1 \<and> c_roots s1 = c_roots s \<and> same_control s s1 \<and>
      (\<forall>q. map_of (c_heap s1) q = (if q = p then Some (?f ob) else map_of (c_heap s) q))"
  proof (cases "o_fin ob")
    case True
    then show ?thesis using s0 ob by (auto simp: run_member_deinit_def obj_at_def)
  next
    case False
    then have "?f ob = ob" by simp
    then show ?thesis using False ob by (auto simp: run_member_deinit_def obj_at_def same_control_def)
  qed
  then obtain s1 where s1: "run_member_deinit deinit p s = Ok s1" "c_roots s1 = c_roots s" "same_control s s1"
    "\<And>q. map_of (c_heap s1) q = (if q = p then Some (?f ob) else map_of (c_heap s) q)" by blast
  have step: "mapped (c_heap s) (\<lambda>q x. if q = p then ?f x else x) (c_heap s1)"
    using s1(4) ob by (auto simp: mapped_def option.map_ident split: option.splits)
  have "map_of (c_heap s1) q \<noteq> None \<and> count_at (c_heap s1) q + 1 < 2 ^ 48" if "q \<in> set ps" for q
  proof -
    have "map_of (c_heap s1) q = map_of (c_heap s) q" using s1(4) [of q] Cons.prems(1) that by auto
    then show ?thesis using Cons.prems(2) [of q] that at_cong(1) [of "c_heap s1" q "c_heap s"] by simp
  qed
  from Cons.IH [OF _ this] Cons.prems(1) obtain s' where s': "rt_each (run_member_deinit deinit) ps s1 = Ok s'"
    "mapped (c_heap s1) (on_set (set ps) ?f) (c_heap s')" "c_roots s' = c_roots s1" "same_control s1 s'" by auto
  from mapped_on_insert [OF step s'(2)] Cons.prems(1)
  have "mapped (c_heap s) (on_set (set (p # ps)) ?f) (c_heap s')" by simp
  then show ?case using s1 s' by (auto simp: same_control_def)
qed

text \<open>Dropping a hold on a parked object that has other references.\<close>

lemma release_parked:
  assumes ob: "map_of (c_heap s) p = Some ob" "\<not> o_immortal ob" "o_count ob \<ge> 2" "o_buf ob" "o_color ob = CC_PURPLE" "p \<noteq> 0"
  shows "\<exists>s'. beans_release alloc deinit p s = Some (Ok s') \<and> c_roots s' = c_roots s \<and> same_control s s' \<and>
    (\<forall>q. map_of (c_heap s') q = (if q = p then Some (ob\<lparr>o_count := o_count ob - 1\<rparr>) else map_of (c_heap s) q))"
proof -
  have "\<exists>s'. release_one alloc deinit s p [] = Ok (s', []) \<and> c_roots s' = c_roots s \<and> same_control s s' \<and>
    (\<forall>q. map_of (c_heap s') q = (if q = p then Some (ob\<lparr>o_count := o_count ob - 1\<rparr>) else map_of (c_heap s) q))"
    using ob by (auto simp: release_one_def obj_at_def rc_dec_def put_at_def cc_possible_root_def same_control_def Let_def)
  then obtain s' where "release_one alloc deinit s p [] = Ok (s', [])" "c_roots s' = c_roots s" "same_control s s'"
    "\<forall>q. map_of (c_heap s') q = (if q = p then Some (ob\<lparr>o_count := o_count ob - 1\<rparr>) else map_of (c_heap s) q)" by blast
  then show ?thesis using ob(6) by (auto simp: beans_release_def release_loop.simps)
qed

lemma release_each:
  "distinct ps \<Longrightarrow> (\<And>p. p \<in> set ps \<Longrightarrow> p \<noteq> 0 \<and> mortal_at (c_heap s) p \<and> 2 \<le> count_at (c_heap s) p \<and> buf_at (c_heap s) p \<and>
      color_at (c_heap s) p = Some CC_PURPLE) \<Longrightarrow>
    \<exists>s'. release_all alloc deinit ps s = Some (Ok s') \<and>
      mapped (c_heap s) (on_set (set ps) (\<lambda>ob. ob\<lparr>o_count := o_count ob - 1\<rparr>)) (c_heap s') \<and>
      c_roots s' = c_roots s \<and> same_control s s'"
proof (induction ps arbitrary: s)
  case Nil
  then show ?case by (simp add: on_set_def same_control_def)
next
  case (Cons p ps)
  obtain ob where ob: "map_of (c_heap s) p = Some ob" "\<not> o_immortal ob" using Cons.prems(2) [of p] mortal_dom by auto
  let ?f = "\<lambda>ob. ob\<lparr>o_count := o_count ob - 1\<rparr>"
  have "o_count ob \<ge> 2" "o_buf ob" "o_color ob = CC_PURPLE" "p \<noteq> 0"
    using Cons.prems(2) [of p] at_some [OF ob(1)] by auto
  from release_parked [OF ob this] obtain s1 where s1: "beans_release alloc deinit p s = Some (Ok s1)"
    "c_roots s1 = c_roots s" "same_control s s1"
    "\<And>q. map_of (c_heap s1) q = (if q = p then Some (?f ob) else map_of (c_heap s) q)" by blast
  have step: "mapped (c_heap s) (\<lambda>q x. if q = p then ?f x else x) (c_heap s1)"
    using s1(4) ob by (auto simp: mapped_def option.map_ident split: option.splits)
  have "q \<noteq> 0 \<and> mortal_at (c_heap s1) q \<and> 2 \<le> count_at (c_heap s1) q \<and> buf_at (c_heap s1) q \<and>
      color_at (c_heap s1) q = Some CC_PURPLE" if "q \<in> set ps" for q
  proof -
    have "map_of (c_heap s1) q = map_of (c_heap s) q" using s1(4) [of q] Cons.prems(1) that by auto
    from at_cong [OF this] show ?thesis using Cons.prems(2) [of q] that by simp
  qed
  from Cons.IH [OF _ this] Cons.prems(1) obtain s' where s': "release_all alloc deinit ps s1 = Some (Ok s')"
    "mapped (c_heap s1) (on_set (set ps) ?f) (c_heap s')" "c_roots s' = c_roots s1" "same_control s1 s'" by auto
  from mapped_on_insert [OF step s'(2)] Cons.prems(1)
  have "mapped (c_heap s) (on_set (set (p # ps)) ?f) (c_heap s')" by simp
  then show ?case using s1 s' by (auto simp: same_control_def)
qed

text \<open>Undoing the trial deletions of the members.\<close>

lemma restore_step:
  assumes ob: "map_of h c = Some ob" and room: "mortal_at h c \<longrightarrow> count_at h c + 1 < 2 ^ 48"
  shows "\<exists>h'. cc_restore_edge c h = Ok h' \<and>
    recounted h (\<lambda>q. count_at h q + count_list (filter (mortal_at h) [c]) q) h'"
proof (cases "mortal_at h c")
  case True
  then show ?thesis using assms at_some [OF ob]
    by (auto simp: cc_restore_edge_def obj_at_def rc_inc_def recounted_def fun_eq_iff intro!: same_struct_put)
qed (use ob at_some [OF ob] in \<open>auto simp: cc_restore_edge_def obj_at_def recounted_def\<close>)

lemma walk_restore:
  assumes "\<And>c. c \<in> set cs \<Longrightarrow> map_of h c \<noteq> None"
    and "\<And>q. mortal_at h q \<Longrightarrow> count_at h q + count_list (filter (mortal_at h) cs) q < 2 ^ 48"
  shows "\<exists>h'. cc_walk cc_restore_edge cs h = Ok h' \<and>
    recounted h (\<lambda>q. count_at h q + count_list (filter (mortal_at h) cs) q) h'"
  using assms
proof (induction cs arbitrary: h)
  case Nil
  then show ?case by (auto simp: recounted_def)
next
  case (Cons c cs)
  obtain ob where ob: "map_of h c = Some ob" using Cons.prems(1) [of c] by auto
  have "mortal_at h c \<longrightarrow> count_at h c + 1 < 2 ^ 48" using Cons.prems(2) [of c] by auto
  from restore_step [OF ob this] obtain h1 where h1: "cc_restore_edge c h = Ok h1"
      "recounted h (\<lambda>q. count_at h q + count_list (filter (mortal_at h) [c]) q) h1" by blast
  have m: "mortal_at h1 = mortal_at h" using h1(2) same_struct_at(1) by (auto simp: recounted_def fun_eq_iff)
  have dom: "map_of h1 c' \<noteq> None" if "c' \<in> set cs" for c'
    using Cons.prems(1) [of c'] that h1(2) same_struct_dom [of h h1 c'] by (auto simp: recounted_def)
  have cnt: "count_at h1 q + count_list (filter (mortal_at h1) cs) q < 2 ^ 48" if "mortal_at h1 q" for q
    using Cons.prems(2) [of q] h1(2) that by (auto simp: m recounted_def split: if_splits)
  from Cons.IH [OF dom cnt] obtain h' where h': "cc_walk cc_restore_edge cs h1 = Ok h'"
      "recounted h1 (\<lambda>q. count_at h1 q + count_list (filter (mortal_at h) cs) q) h'" unfolding m by blast
  have "recounted h (\<lambda>q. count_at h q + count_list (filter (mortal_at h) (c # cs)) q) h'"
    using h1(2) h'(2) by (auto simp: recounted_def fun_eq_iff intro: same_struct_trans)
  with h1(1) h'(1) show ?case by auto
qed

lemma restore_each:
  assumes ok: "heap_ok h0 ext"
  shows "distinct ps \<Longrightarrow> set ps \<subseteq> live_objs h0 \<Longrightarrow> same_struct h0 (c_heap s) \<Longrightarrow>
    (\<And>q. count_at (c_heap s) q = count_at h0 q - edges_into h0 (set ps) q) \<Longrightarrow>
    \<exists>s'. rt_each restore_member ps s = Ok s' \<and> same_struct h0 (c_heap s') \<and> count_at (c_heap s') = count_at h0 \<and>
      color_at (c_heap s') = color_at (c_heap s) \<and> buf_at (c_heap s') = buf_at (c_heap s) \<and>
      c_roots s' = c_roots s \<and> same_control s s'"
proof (induction ps arbitrary: s)
  case Nil
  then show ?case by (auto simp: edges_into_def same_control_def)
next
  case (Cons p ps)
  let ?h = "c_heap s"
  have p: "p \<in> live_objs h0" "set ps \<subseteq> live_objs h0" "p \<notin> set ps" "distinct ps" using Cons.prems(1,2) by auto
  obtain ob where ob: "map_of ?h p = Some ob" using live_dom [OF p(1)] same_struct_dom [OF Cons.prems(3), of p] by auto
  have kids: "filter (mortal_at ?h) (body_children (o_body ob)) = kids h0 p" by (rule kids_filter [OF Cons.prems(3) ob])
  have E: "edges_into h0 (set (p # ps)) q = count_list (kids h0 p) q + edges_into h0 (set ps) q" for q
    using edges_into_insert [of "set ps" p h0 q] p(3) by simp
  have undone: "count_at ?h q + count_list (kids h0 p) q = count_at h0 q - edges_into h0 (set ps) q" for q
  proof (cases "q \<in> live_objs h0")
    case True
    from edges_bounded [OF ok Cons.prems(2) True] show ?thesis unfolding Cons.prems(4) E by simp
  next
    case False
    then have "count_list (kids h0 p) q = 0" by (rule kids_count_zero [OF ok p(1)])
    then show ?thesis unfolding Cons.prems(4) E by simp
  qed
  have dom: "map_of ?h c \<noteq> None" if "c \<in> set (body_children (o_body ob))" for c
    using children_dom [OF ok Cons.prems(3) p(1) ob that] .
  have room: "count_at ?h q + count_list (filter (mortal_at ?h) (body_children (o_body ob))) q < 2 ^ 48"
    if "mortal_at ?h q" for q
  proof -
    have "count_at h0 q < 2 ^ 48" using ok by (simp add: heap_ok_def)
    then show ?thesis unfolding kids undone by simp
  qed
  from walk_restore [OF dom room] obtain h1 where h1: "cc_walk cc_restore_edge (body_children (o_body ob)) ?h = Ok h1"
      "recounted ?h (\<lambda>q. count_at ?h q + count_list (kids h0 p) q) h1" unfolding kids by blast
  have step: "restore_member p s = Ok (s\<lparr>c_heap := h1\<rparr>)" using h1(1) ob by (simp add: restore_member_def obj_at_def)
  have "same_struct h0 h1" using h1(2) Cons.prems(3) by (auto simp: recounted_def intro: same_struct_trans)
  moreover have "count_at h1 q = count_at h0 q - edges_into h0 (set ps) q" for q
    using h1(2) unfolding recounted_def undone by simp
  ultimately obtain s' where "rt_each restore_member ps (s\<lparr>c_heap := h1\<rparr>) = Ok s'" "same_struct h0 (c_heap s')"
      "count_at (c_heap s') = count_at h0" "color_at (c_heap s') = color_at h1" "buf_at (c_heap s') = buf_at h1"
      "c_roots s' = c_roots s" "same_control s s'"
    using Cons.IH [of "s\<lparr>c_heap := h1\<rparr>"] p(2,4) by (auto simp: same_control_def)
  then show ?case using step h1(2) by (auto simp: recounted_def)
qed

text \<open>
  The deinit pass over the gathered set: the bodies have run, every member is an ordinary object with its
  true count again, parked as a candidate.
\<close>

lemma cycle_deinits_hand_back:
  assumes ok: "heap_ok h0 ext" and q: "quiet deinit" and ps: "distinct ps" "set ps \<subseteq> live_objs h0"
    and s: "same_struct h0 (c_heap s)" "\<And>q. count_at (c_heap s) q = count_at h0 q - edges_into h0 (set ps) q"
    and nb: "buf_at (c_heap s) = (\<lambda>_. False)" and room: "\<And>p. p \<in> set ps \<Longrightarrow> count_at h0 p + 2 < 2 ^ 48"
    and fin: "list_ex (has_fin (c_heap s)) ps"
  shows "(\<exists>s'. cc_run_cycle_deinits alloc deinit ps s = Some (Ok (s', True)) \<and> alike h0 (c_heap s') \<and>
      color_at (c_heap s') = (\<lambda>q. if q \<in> set ps then Some CC_PURPLE else color_at (c_heap s) q) \<and>
      buf_at (c_heap s') = (\<lambda>q. q \<in> set ps) \<and> c_roots s' = c_roots s @ ps \<and> same_control s s' \<and>
      (\<forall>p. has_fin (c_heap s') p \<longleftrightarrow> has_fin h0 p \<and> p \<notin> set ps)) \<or>
    (\<exists>msg. cc_run_cycle_deinits alloc deinit ps s = Some (Panic msg 0 0) \<and> excused msg)"
proof -
  from restore_each [OF ok ps s] obtain s1 where s1: "rt_each restore_member ps s = Ok s1"
      "same_struct h0 (c_heap s1)" "count_at (c_heap s1) = count_at h0" "color_at (c_heap s1) = color_at (c_heap s)"
      "buf_at (c_heap s1) = buf_at (c_heap s)" "c_roots s1 = c_roots s" "same_control s s1" by blast
  have mortal: "mortal_at (c_heap s1) p" "p \<noteq> 0" if "p \<in> set ps" for p
  proof -
    have "p \<in> live_objs h0" using ps(2) that by auto
    then show "mortal_at (c_heap s1) p" "p \<noteq> 0"
      using same_struct_at(1) [OF s1(2), of p] ok by (auto simp: live_objs_def heap_ok_def mortal_at_def)
  qed
  have "p \<noteq> 0 \<and> mortal_at (c_heap s1) p \<and> count_at (c_heap s1) p + 1 < 2 ^ 48" if "p \<in> set ps" for p
    using mortal [OF that] room [OF that] s1(3) by simp
  from retain_each [OF ps(1) this] obtain s2 where s2: "rt_each beans_retain ps s1 = Ok s2"
      "mapped (c_heap s1) (on_set (set ps) (\<lambda>ob. ob\<lparr>o_count := o_count ob + 1\<rparr>)) (c_heap s2)"
      "c_roots s2 = c_roots s1" "same_control s1 s2" by blast
  have at2: "map_of (c_heap s2) q = map_option (\<lambda>ob. if q \<in> set ps then ob\<lparr>o_count := o_count ob + 1\<rparr> else ob) (map_of (c_heap s1) q)" for q
    using s2(2) by (cases "map_of (c_heap s1) q") (simp_all add: mapped_def on_set_def)
  have c2: "count_at (c_heap s2) q = count_at h0 q + (if q \<in> set ps then 1 else 0)" for q
  proof (cases "map_of (c_heap s1) q")
    case None
    then have "q \<notin> set ps" using mortal(1) [of q] by (auto simp: mortal_at_def)
    moreover have "count_at h0 q = 0" using None s1(3) by (metis at_gone)
    ultimately show ?thesis using at2 [of q] None by (simp add: count_at_def)
  next
    case (Some ob)
    then show ?thesis using at2 [of q] at_some(1) [OF Some] s1(3) by (simp add: count_at_def)
  qed
  have "map_of (c_heap s2) p \<noteq> None \<and> count_at (c_heap s2) p + 1 < 2 ^ 48" if "p \<in> set ps" for p
    using at2 [of p] mortal_dom [OF mortal(1) [OF that]] c2 [of p] room [OF that] that by auto
  from deinit_each [OF q ps(1) this] obtain s3 where s3: "rt_each (run_member_deinit deinit) ps s2 = Ok s3"
      "mapped (c_heap s2) (on_set (set ps) (\<lambda>ob. ob\<lparr>o_fin := False\<rparr>)) (c_heap s3)"
      "c_roots s3 = c_roots s2" "same_control s2 s3" by blast
  have at3: "map_of (c_heap s3) q = map_option (\<lambda>ob. if q \<in> set ps then ob\<lparr>o_count := o_count ob + 1, o_fin := False\<rparr> else ob)
      (map_of (c_heap s1) q)" for q
    using s3(2) at2 [of q] by (cases "map_of (c_heap s1) q") (simp_all add: mapped_def on_set_def)
  have taken: "cc_run_cycle_deinits alloc deinit ps s =
      then_do (then_do (Some (rt_each (cc_possible_root alloc) ps s3)) (release_all alloc deinit ps)) (\<lambda>s. Some (Ok (s, True)))"
    using fin s1(1) s2(1) s3(1) by (simp add: cc_run_cycle_deinits_def rt_cycle_deinits_finish_def)
  have "map_of (c_heap s3) p \<noteq> None \<and> \<not> buf_at (c_heap s3) p" if m: "p \<in> set ps" for p
  proof -
    obtain ob where ob: "map_of (c_heap s1) p = Some ob" using mortal_dom [OF mortal(1) [OF m]] by auto
    moreover have "\<not> o_buf ob" using at_some(2) [OF ob] s1(5) nb by simp
    ultimately show ?thesis using at3 [of p] m by (simp add: buf_at_def)
  qed
  from park_each [OF ps(1) this, of alloc] show ?thesis
  proof (elim meta_impE disjE exE conjE)
    fix s4 assume s4: "rt_each (cc_possible_root alloc) ps s3 = Ok s4"
      "mapped (c_heap s3) (on_set (set ps) (\<lambda>ob. ob\<lparr>o_color := CC_PURPLE, o_buf := True\<rparr>)) (c_heap s4)"
      "c_roots s4 = c_roots s3 @ ps" "same_control s3 s4"
    have at4: "map_of (c_heap s4) q = map_option (\<lambda>ob. if q \<in> set ps
        then ob\<lparr>o_count := o_count ob + 1, o_fin := False, o_color := CC_PURPLE, o_buf := True\<rparr> else ob) (map_of (c_heap s1) q)" for q
      using s4(2) at3 [of q] by (cases "map_of (c_heap s1) q") (simp_all add: mapped_def on_set_def)
    have "p \<noteq> 0 \<and> mortal_at (c_heap s4) p \<and> 2 \<le> count_at (c_heap s4) p \<and> buf_at (c_heap s4) p \<and>
        color_at (c_heap s4) p = Some CC_PURPLE" if m: "p \<in> set ps" for p
    proof -
      obtain ob where ob: "map_of (c_heap s1) p = Some ob" "\<not> o_immortal ob" using mortal_dom [OF mortal(1) [OF m]] by auto
      have "0 < o_count ob" using at_some(1) [OF ob(1)] s1(3) ps(2) m by (auto simp: live_objs_def)
      then show ?thesis using at4 [of p] ob m mortal(2) [OF m]
        by (simp add: mortal_at_def count_at_def buf_at_def color_at_def)
    qed
    from release_each [OF ps(1) this] obtain s5 where s5: "release_all alloc deinit ps s4 = Some (Ok s5)"
        "mapped (c_heap s4) (on_set (set ps) (\<lambda>ob. ob\<lparr>o_count := o_count ob - 1\<rparr>)) (c_heap s5)"
        "c_roots s5 = c_roots s4" "same_control s4 s5" by blast
    have at5: "map_of (c_heap s5) q = map_option (\<lambda>ob. if q \<in> set ps
        then ob\<lparr>o_fin := False, o_color := CC_PURPLE, o_buf := True\<rparr> else ob) (map_of (c_heap s1) q)" for q
      using s5(2) at4 [of q] by (cases "map_of (c_heap s1) q") (simp_all add: mapped_def on_set_def)
    have "cc_run_cycle_deinits alloc deinit ps s = Some (Ok (s5, True))" using taken s4(1) s5(1) by simp
    moreover have "alike h0 (c_heap s5)"
      unfolding alike_def
    proof
      fix q
      have "count_at (c_heap s1) q = count_at h0 q" using s1(3) by simp
      then show "(map_of (c_heap s5) q = None) = (map_of h0 q = None) \<and> mortal_at (c_heap s5) q = mortal_at h0 q \<and>
          count_at (c_heap s5) q = count_at h0 q \<and> all_kids (c_heap s5) q = all_kids h0 q"
        using at5 [of q] same_struct_dom [OF s1(2), of q] same_struct_at(1,2) [OF s1(2), of q]
        by (cases "map_of (c_heap s1) q") (auto simp: mortal_at_def count_at_def all_kids_def)
    qed
    moreover have "color_at (c_heap s5) = (\<lambda>q. if q \<in> set ps then Some CC_PURPLE else color_at (c_heap s) q)"
    proof
      fix q
      have "color_at (c_heap s) q = map_option o_color (map_of (c_heap s1) q)"
        unfolding s1(4) [symmetric] by (simp add: color_at_def)
      then show "color_at (c_heap s5) q = (if q \<in> set ps then Some CC_PURPLE else color_at (c_heap s) q)"
        using at5 [of q] mortal(1) [of q] unfolding color_at_def [of "c_heap s5"]
        by (cases "map_of (c_heap s1) q") (auto simp: mortal_at_def)
    qed
    moreover have "buf_at (c_heap s5) = (\<lambda>q. q \<in> set ps)"
    proof
      fix q
      have "\<not> buf_at (c_heap s1) q" using s1(5) nb by simp
      then show "buf_at (c_heap s5) q = (q \<in> set ps)"
        using at5 [of q] mortal(1) [of q] by (cases "map_of (c_heap s1) q") (auto simp: buf_at_def mortal_at_def)
    qed
    moreover have "has_fin (c_heap s5) p \<longleftrightarrow> has_fin h0 p \<and> p \<notin> set ps" for p
      using at5 [of p] same_struct_at(3) [OF s1(2), of p] by (cases "map_of (c_heap s1) p") (auto simp: has_fin_def)
    ultimately show ?thesis
      using s5(3,4) s4(3,4) s3(3,4) s2(3,4) s1(6,7) by (auto simp: same_control_def)
  qed (use taken in auto)
qed

section \<open>The collector keeps the invariant\<close>

text \<open>How the state after a collection relates to the one before.\<close>

definition collected :: "cc \<Rightarrow> (slot \<Rightarrow> nat) \<Rightarrow> bool \<Rightarrow> cc \<Rightarrow> bool" where
  "collected s ext force s' \<longleftrightarrow>
     (let h = c_heap s; h' = c_heap s'; garbage = live_objs h - reached h (held ext) in
      memory_ok s' ext \<and> reached h' (held ext) = reached h (held ext) \<and> live_objs h' \<subseteq> live_objs h \<and>
      (\<forall>p \<in> live_objs h'. all_kids h' p = all_kids h p \<and> count_at h' p \<le> count_at h p \<and> (has_fin h' p \<longrightarrow> has_fin h p)) \<and>
      (force \<longrightarrow> (\<forall>p \<in> live_objs h' - reached h (held ext). \<not> has_fin h' p)) \<and>
      (force \<and> (\<forall>p \<in> garbage. \<not> has_fin h p) \<longrightarrow> live_objs h' = reached h (held ext) \<and> c_roots s' = []) \<and>
      within h h')"

lemma memory_ok_after:
  assumes "heap_ok h ext" "roots_ok h ps" "garbage_found h ext ps" "c_in_deinit s = 0"
  shows "memory_ok (s\<lparr>c_heap := h, c_roots := ps, c_collecting := False\<rparr>) ext"
  using assms by (simp add: memory_ok_def)

lemma garbage_found_none: "live_objs h = reached h (held ext) \<Longrightarrow> garbage_found h ext ps"
  by (simp add: garbage_found_def)

definition dead_fin :: "cc \<Rightarrow> (slot \<Rightarrow> nat) \<Rightarrow> bool" where
  "dead_fin s ext \<longleftrightarrow> (\<exists>p \<in> live_objs (c_heap s) - reached (c_heap s) (held ext). has_fin (c_heap s) p)"

lemma collect_cases:
  assumes m: "memory_ok s ext" and q: "dead_fin s ext \<Longrightarrow> quiet deinit" and room: "\<And>p. p \<in> live_objs (c_heap s) \<Longrightarrow> count_at (c_heap s) p + 2 < 2 ^ 48"
  shows "(\<exists>s'. cc_collect alloc deinit force s = Some (Ok s') \<and> collected s ext force s') \<or>
    (\<exists>msg. cc_collect alloc deinit force s = Some (Panic msg 0 0) \<and> excused msg \<and> dead_fin s ext)"
proof -
  let ?h = "c_heap s" and ?ps = "c_roots s"
  let ?kept = "filter (\<lambda>p. 0 < count_at ?h p) ?ps"
  have ok: "heap_ok ?h ext" "roots_ok ?h ?ps" "garbage_found ?h ext ?ps" "\<not> c_collecting s" "c_in_deinit s = 0"
    using m by (simp_all add: memory_ok_def)
  have held: "reached ?h (held ext) \<subseteq> live_objs ?h" using reached_live [OF ok(1)] ok(1) by (simp add: heap_ok_def)
  from filter_keeps [OF ok(1-3)] obtain h1 where f: "cc_filter ?h ?ps = Ok (h1, ?kept)" "heap_ok h1 ext"
      "roots_ok h1 ?kept" "garbage_found h1 ext ?kept" "live_objs h1 = live_objs ?h"
      "\<And>p. p \<in> live_objs ?h \<Longrightarrow> map_of h1 p = map_of ?h p" "\<And>p. mortal_at h1 p \<Longrightarrow> p \<in> live_objs h1"
      "reached h1 (held ext) = reached ?h (held ext)" "within ?h h1" by blast
  have same: "all_kids h1 p = all_kids ?h p" "count_at h1 p = count_at ?h p" "has_fin h1 p = has_fin ?h p"
    if "p \<in> live_objs ?h" for p using at_cong [OF f(6) [OF that]] by auto
  define walk where "walk \<longleftrightarrow> ?kept \<noteq> [] \<and> (force \<or> c_walk_min s \<le> length ?kept)"
  define ready where "ready h dead = s\<lparr>c_heap := h, c_roots := (if walk then [] else ?kept), c_collecting := True,
      c_walk_min := (if \<not> walk then c_walk_min s else if dead \<noteq> [] then 256
                     else if c_walk_min s * 4 > 2 ^ 18 then 2 ^ 18 else c_walk_min s * 4),
      c_threshold := length (if walk then [] else ?kept) * 2 + 256, c_pending := False\<rparr>" for h and dead :: "slot list"
  have unfold: "cc_collect alloc deinit force s =
      then_do (cc_run_cycle_deinits alloc deinit dead (ready h dead)) (\<lambda>(s, taken).
        then_do (Some (if taken then Ok s else cc_free_cycle_shells dead s)) (\<lambda>s. Some (Ok (s\<lparr>c_collecting := False\<rparr>))))"
    if "(if walk then trial_deletion ?kept h1 else Ok (h1, [])) = Ok (h, dead)" for h dead
  proof -
    have cond: "\<not> (c_collecting s \<or> c_in_deinit s \<noteq> 0)" using ok(4,5) by simp
    show ?thesis
      unfolding cc_collect_def if_not_P [OF cond] f(1) rt_bind.simps prod.case Let_def walk_def [symmetric] that
        then_do.simps ready_def ..
  qed
  show ?thesis
  proof (cases walk)
    case False
    let ?s = "(ready h1 [])\<lparr>c_collecting := False\<rparr>"
    have run: "cc_collect alloc deinit force s = Some (Ok ?s)"
      using unfold [of h1 "[]"] False by (simp add: cc_run_cycle_deinits_def cc_free_cycle_shells_def ready_def)
    have mem: "memory_ok ?s ext" using f(2-4) ok(5) False by (simp add: memory_ok_def ready_def)
    have "live_objs ?h = reached ?h (held ext) \<and> ?kept = []" if force
    proof -
      have "?kept = []" using False that by (simp add: walk_def)
      then have "live_objs h1 - reached h1 (held ext) \<subseteq> reached h1 {}" using f(4) by (simp add: garbage_found_def)
      then show ?thesis using f(5,8) held \<open>?kept = []\<close> by (auto simp: reached_def)
    qed
    then have "collected s ext force ?s"
      unfolding collected_def Let_def using mem f(5,8,9) same False by (auto simp: ready_def)
    with run show ?thesis by blast
  next
    case True
    have roots: "set ?kept \<subseteq> live_objs h1" using f(3,7) by (auto simp: roots_ok_def)
    from trial_frees [OF f(2-4,7)] obtain h2 dead h3 where
      t: "trial_deletion ?kept h1 = Ok (h2, dead)" "distinct dead" "set dead = live_objs h1 - reached h1 (held ext)"
        "same_struct h1 h2" "buf_at h2 = (\<lambda>_. False)" "count_at h2 = (\<lambda>q. count_at h1 q - edges_into h1 (set dead) q)"
        "color_at h2 = (\<lambda>q. if mortal_at h1 q then Some CC_BLACK else color_at h1 q)"
        "rt_each cc_free_one dead h2 = Ok h3" "heap_ok h3 ext" "roots_ok h3 []" "live_objs h3 = reached h1 (held ext)"
        "reached h3 (held ext) = reached h1 (held ext)"
        "\<And>p. p \<in> live_objs h3 \<Longrightarrow> all_kids h3 p = all_kids h1 p \<and> kids h3 p = kids h1 p \<and> has_fin h3 p = has_fin h1 p"
        "within h1 h3" by blast
    let ?s = "ready h2 dead"
    have heap: "c_heap ?s = h2" "c_roots ?s = []" "c_in_deinit ?s = 0" using True ok(5) by (simp_all add: ready_def)
    note run = unfold [of h2 dead] t(1) True
    show ?thesis
    proof (cases "list_ex (has_fin h2) dead")
      case False
      let ?e = "?s\<lparr>c_heap := h3, c_collecting := False\<rparr>"
      have "cc_collect alloc deinit force s = Some (Ok ?e)"
        using run False t(8) heap by (simp add: cc_run_cycle_deinits_def cc_free_cycle_shells_def)
      moreover have "garbage_found h3 ext []" by (rule garbage_found_none) (simp add: t(11,12))
      then have "memory_ok ?e ext" using t(9,10) heap(2,3) by (simp add: memory_ok_def)
      moreover have "count_at h3 p \<le> count_at ?h p" if p: "p \<in> live_objs h3" for p
      proof -
        have p1: "p \<in> live_objs h1" "p \<notin> set dead" using p t(3,11) held f(5,8) by auto
        have "count_at h3 p = ext p + edges_into h3 (live_objs h3) p" using t(9) p by (simp add: heap_ok_def)
        moreover have "edges_into h3 (live_objs h3) p = edges_into h1 (live_objs h3) p"
          using t(13) by (intro edges_into_cong) simp
        moreover have "edges_into h1 (live_objs h3) p \<le> edges_into h1 (live_objs h1) p"
          using t(11) held f(5,8) by (intro edges_into_mono [OF finite_live]) auto
        moreover have "count_at h1 p = ext p + edges_into h1 (live_objs h1) p" using f(2) p1 by (simp add: heap_ok_def)
        ultimately show ?thesis using same(2) [of p] p1(1) f(5) by simp
      qed
      ultimately have "collected s ext force ?e"
        unfolding collected_def Let_def using t(11-13) f(5,8) within_trans [OF f(9) t(14)] held same heap(2) by auto
      with \<open>cc_collect alloc deinit force s = Some (Ok ?e)\<close> show ?thesis by blast
    next
      case fin: True
      have "\<exists>p \<in> set dead. has_fin h1 p"
        using fin same_struct_at(3) [OF t(4)] by (auto simp: list_ex_iff)
      then have some: "\<exists>p \<in> live_objs ?h - reached ?h (held ext). has_fin ?h p"
        using t(3) f(5,8) same(3) by auto
      then have d: "dead_fin s ext" by (simp add: dead_fin_def)
      note q' = q [OF d]
      have W: "set dead \<subseteq> live_objs h1" using t(3) by auto
      have "count_at h1 p + 2 < 2 ^ 48" if "p \<in> set dead" for p using room [of p] same(2) [of p] W that f(5) by auto
      from cycle_deinits_hand_back [OF f(2) q' t(2) W, of ?s alloc, unfolded heap, OF t(4) _ t(5) this fin] t(6)
      consider s' where "cc_run_cycle_deinits alloc deinit dead ?s = Some (Ok (s', True))" "alike h1 (c_heap s')"
          "color_at (c_heap s') = (\<lambda>q. if q \<in> set dead then Some CC_PURPLE else color_at h2 q)"
          "buf_at (c_heap s') = (\<lambda>q. q \<in> set dead)" "c_roots s' = dead" "same_control ?s s'"
          "\<And>p. has_fin (c_heap s') p \<longleftrightarrow> has_fin h1 p \<and> p \<notin> set dead"
        | msg where "cc_run_cycle_deinits alloc deinit dead ?s = Some (Panic msg 0 0)" "excused msg" by auto
      then show ?thesis
      proof cases
        case (1 s')
        let ?e = "s'\<lparr>c_collecting := False\<rparr>"
        note a = alike_facts [OF 1(2)]
        have eqs: "mortal_at (c_heap s') p = mortal_at h1 p" "count_at (c_heap s') p = count_at h1 p"
          "all_kids (c_heap s') p = all_kids h1 p" for p using 1(2) by (simp_all add: alike_def)
        have runs: "cc_collect alloc deinit force s = Some (Ok ?e)" using run 1(1) by simp
        have "roots_ok (c_heap s') dead"
          unfolding roots_ok_def
        proof (intro conjI allI impI)
          show "distinct dead" by (rule t(2))
          show "set dead = {p. buf_at (c_heap s') p}" by (simp add: 1(4))
          show "mortal_at (c_heap s') p" if "buf_at (c_heap s') p" for p
            using that W by (auto simp: 1(4) eqs live_objs_def)
          fix p assume "mortal_at (c_heap s') p"
          then have "p \<in> live_objs h1" "mortal_at h1 p" using f(7) eqs by auto
          then show "if buf_at (c_heap s') p
              then color_at (c_heap s') p = Some (if 0 < count_at (c_heap s') p then CC_PURPLE else CC_BLACK)
              else color_at (c_heap s') p = Some CC_BLACK \<and> 0 < count_at (c_heap s') p"
            using 1(3,4) t(7) eqs by (simp add: live_objs_def)
        qed
        moreover have "garbage_found (c_heap s') ext dead"
          using reached_refl [of "set dead" h1] W t(3) by (auto simp: garbage_found_def a Int_absorb2)
        ultimately have mem: "memory_ok ?e ext"
          using f(2) a(4) 1(5,6) heap(3) by (simp add: memory_ok_def same_control_def)
        have "collected s ext force ?e"
          unfolding collected_def Let_def
        proof (intro conjI impI ballI)
          show "memory_ok ?e ext" by (rule mem)
          show "reached (c_heap ?e) (held ext) = reached ?h (held ext)" by (simp add: a f(8))
          show "live_objs (c_heap ?e) \<subseteq> live_objs ?h" by (simp add: a f(5))
          show "all_kids (c_heap ?e) p = all_kids ?h p" "count_at (c_heap ?e) p \<le> count_at ?h p"
            "has_fin (c_heap ?e) p \<Longrightarrow> has_fin ?h p" if "p \<in> live_objs (c_heap ?e)" for p
            using that a(1) f(5) same [of p] eqs [of p] 1(7) [of p] by simp_all
          show "\<not> has_fin (c_heap ?e) p" if "p \<in> live_objs (c_heap ?e) - reached ?h (held ext)" for p
            using that a(1) t(3) f(5,8) 1(7) [of p] by auto
          have "within h1 (c_heap ?e)" using 1(2) by (auto simp: alike_def fixed_at_def within_def)
          then show "within ?h (c_heap ?e)" by (rule within_trans [OF f(9)])
          show "live_objs (c_heap ?e) = reached ?h (held ext)" "c_roots ?e = []"
            if "force \<and> (\<forall>p \<in> live_objs ?h - reached ?h (held ext). \<not> has_fin ?h p)"
            using that some by auto
        qed
        with runs show ?thesis by blast
      qed (use run d in auto)
    qed
  qed
qed

lemma collect_keeps:
  assumes "memory_ok s ext" "quiet deinit" "\<And>p. p \<in> live_objs (c_heap s) \<Longrightarrow> count_at (c_heap s) p + 2 < 2 ^ 48"
  shows "(\<exists>s'. cc_collect alloc deinit force s = Some (Ok s') \<and> collected s ext force s') \<or>
    (\<exists>msg. cc_collect alloc deinit force s = Some (Panic msg 0 0) \<and> excused msg)"
  using collect_cases [OF assms(1,2,3), of alloc force] by blast

end
