(* ===== verification/Rt_Release.thy ===== *)
theory Rt_Release
  imports Rt_Memory
begin

text \<open>
  The release cascade: every reference it still owes is on its work stack, so that the invariant holds
  between two turns with the stack counted among the external references. It stops because every turn
  takes one count out of the heap.
\<close>

unbundle bit_operations_syntax

section \<open>References on a work stack\<close>

definition ext_plus :: "(slot \<Rightarrow> nat) \<Rightarrow> slot list \<Rightarrow> slot \<Rightarrow> nat" where
  "ext_plus ext st p = ext p + count_list st p"

lemma ext_plus_Nil [simp]: "ext_plus ext [] = ext"
  by (simp add: ext_plus_def fun_eq_iff)

lemma count_list_rev: "count_list (rev xs) a = count_list xs a"
  by (induction xs) auto

lemma reached_union: "reached h (A \<union> B) = reached h A \<union> reached h B"
  by (auto simp: reached_def)

lemma reached_leaf:
  assumes "kids h p = []"
  shows "reached h {p} = {p}"
proof
  show "reached h {p} \<subseteq> {p}" by (rule reached_least) (use assms in auto)
qed (use reached_refl in auto)

section \<open>One reference less\<close>

text \<open>A live object that keeps a count after losing a reference from outside.\<close>

lemma drop_ref_heap_ok:
  assumes ok: "heap_ok h e" and e: "\<And>p. e p = e' p + (if p = cur then 1 else 0)" and two: "2 \<le> count_at h cur"
    and cur: "cur \<in> live_objs h"
    and h': "\<And>q. map_of h' q = None \<longleftrightarrow> map_of h q = None" "\<And>q. mortal_at h' q = mortal_at h q"
      "\<And>q. all_kids h' q = all_kids h q" "\<And>q. count_at h' q = count_at h q - (if q = cur then 1 else 0)"
  shows "heap_ok h' e'" "live_objs h' = live_objs h" "kids h' = kids h" "reached h' = reached h"
proof -
  show live: "live_objs h' = live_objs h" using two cur by (auto simp: live_objs_def h')
  show kids: "kids h' = kids h" by (simp add: kids_def h' fun_eq_iff cong: filter_cong)
  show "reached h' = reached h" by (simp add: reached_def heap_edges_def live kids fun_eq_iff)
  have "count_at h' p = e' p + edges_into h (live_objs h) p" if "p \<in> live_objs h" for p
    using ok that e [of p] h'(4) [of p] by (simp add: heap_ok_def)
  moreover have "count_at h' p < 2 ^ 48" for p
  proof -
    have "count_at h p < 2 ^ 48" using ok by (simp add: heap_ok_def)
    then show ?thesis using h'(4) [of p] by simp
  qed
  moreover have "held e' \<subseteq> live_objs h" using ok e by (auto simp: heap_ok_def held_def)
  ultimately show "heap_ok h' e'"
    using ok unfolding heap_ok_def live h'(1-3) edges_into_def kids by auto
qed

lemma drop_ref_garbage:
  assumes ok: "heap_ok h e" and found: "garbage_found h e roots" and e: "\<And>p. e p = e' p + (if p = cur then 1 else 0)"
    and two: "2 \<le> count_at h cur" and cur: "cur \<in> live_objs h"
    and h': "live_objs h' = live_objs h" "reached h' = reached h"
    and roots: "set roots \<subseteq> set roots'" "kids h cur \<noteq> [] \<Longrightarrow> cur \<in> set roots'"
  shows "garbage_found h' e' roots'"
  unfolding garbage_found_def h'
proof
  fix g assume g: "g \<in> live_objs h - reached h (held e')"
  have held: "held e = insert cur (held e')" using e by (auto simp: held_def)
  then have split: "reached h (held e) = reached h {cur} \<union> reached h (held e')"
    using reached_union [of h "{cur}" "held e'"] by simp
  have old: "q \<in> reached h (set roots' \<inter> live_objs h)" if "q \<in> live_objs h - reached h (held e)" for q
  proof -
    have "q \<in> reached h (set roots \<inter> live_objs h)" using found that by (auto simp: garbage_found_def)
    moreover have "set roots \<inter> live_objs h \<subseteq> set roots' \<inter> live_objs h" using roots(1) by auto
    ultimately show ?thesis using reached_mono by blast
  qed
  show "g \<in> reached h (set roots' \<inter> live_objs h)"
  proof (cases "g \<in> reached h {cur}")
    case False
    then show ?thesis using old g split by simp
  next
    case True
    show ?thesis
    proof (cases "kids h cur = []")
      case False
      then have "{cur} \<subseteq> set roots' \<inter> live_objs h" using roots(2) cur by simp
      then show ?thesis using True reached_mono by blast
    next
      case leaf: True
      then have "g = cur" using True reached_leaf by auto
      then have "e' cur = 0" using g reached_refl [of "held e'" h] by (auto simp: held_def)
      then have "0 < edges_into h (live_objs h) cur"
        using ok two cur e [of cur] by (auto simp: heap_ok_def)
      then obtain p where p: "p \<in> live_objs h" "cur \<in> set (kids h p)"
        using edges_into_zero_iff [OF finite_live, of h h cur] by auto
      have "p \<noteq> cur" using p(2) leaf by auto
      moreover have "p \<notin> reached h (held e')" using g \<open>g = cur\<close> reached_step [OF _ p] by blast
      ultimately have "p \<in> live_objs h - reached h (held e)" using p(1) split reached_leaf [OF leaf] by simp
      from reached_step [OF old [OF this] p] show ?thesis by (simp add: \<open>g = cur\<close>)
    qed
  qed
qed

text \<open>An object whose last reference goes: its own references pass to the stack.\<close>

lemma death_keeps:
  assumes ok: "heap_ok h e" and found: "garbage_found h e roots" and one: "count_at h cur = 1" and ecur: "0 < e cur"
    and e': "\<And>p. e' p = (e p - (if p = cur then 1 else 0)) + count_list (kids h cur) p"
    and live: "live_objs h' = live_objs h - {cur}"
    and h': "\<And>q. q \<noteq> cur \<Longrightarrow> map_of h' q = map_of h q" "map_of h' 0 = None" "count_at h' cur = 0"
  shows "heap_ok h' e'" "garbage_found h' e' roots" "\<And>p. p \<in> live_objs h' \<Longrightarrow> kids h' p = kids h p"
    "\<And>p. p \<in> live_objs h' \<Longrightarrow> cur \<notin> set (all_kids h p)"
proof -
  have cur: "cur \<in> live_objs h" using ok ecur by (auto simp: heap_ok_def held_def)
  have cnt: "count_at h p = e p + edges_into h (live_objs h) p" if "p \<in> live_objs h" for p
    using ok that by (simp add: heap_ok_def)
  have "e cur = 1" "edges_into h (live_objs h) cur = 0" using cnt [OF cur] one ecur by auto
  then have noedge: "cur \<notin> set (kids h p)" if "p \<in> live_objs h" for p
    using edges_into_zero_iff [OF finite_live, of h h cur] that by auto
  have mcur: "mortal_at h cur" using cur by (simp add: live_objs_def)
  show nokid: "cur \<notin> set (all_kids h p)" if "p \<in> live_objs h'" for p
    using noedge [of p] that mcur by (auto simp: live kids_def)
  have same: "count_at h' q = count_at h q" "mortal_at h' q = mortal_at h q" "all_kids h' q = all_kids h q" if "q \<noteq> cur" for q
    using at_cong [OF h'(1) [OF that]] by auto
  show kids: "kids h' p = kids h p" if p: "p \<in> live_objs h'" for p
  proof -
    have "p \<noteq> cur" using p live by auto
    moreover have "mortal_at h' c = mortal_at h c" if "c \<in> set (all_kids h p)" for c
      using same(2) [of c] nokid [OF p] that by (cases "c = cur") auto
    ultimately show ?thesis unfolding kids_def using same(3) [of p] by (simp cong: filter_cong)
  qed
  have fin: "finite (live_objs h)" by (rule finite_live)
  have split: "edges_into h (live_objs h) p = count_list (kids h cur) p + edges_into h' (live_objs h') p" for p
  proof -
    have "live_objs h = insert cur (live_objs h - {cur})" using cur by auto
    then have "edges_into h (live_objs h) p = count_list (kids h cur) p + edges_into h (live_objs h - {cur}) p"
      using edges_into_insert [of "live_objs h - {cur}" cur h p] fin by simp
    moreover have "edges_into h' (live_objs h') p = edges_into h (live_objs h - {cur}) p"
      unfolding live [symmetric] by (rule edges_into_cong) (rule kids)
    ultimately show ?thesis by simp
  qed
  have heldsub: "held e' \<subseteq> live_objs h'"
  proof
    fix p assume "p \<in> held e'"
    then have "0 < e p - (if p = cur then 1 else 0) \<or> p \<in> set (kids h cur)"
      using e' [of p] count_list_0_iff [of "kids h cur" p] by (auto simp: held_def)
    moreover have "p \<noteq> cur" using calculation \<open>e cur = 1\<close> noedge [OF cur] by auto
    ultimately have "p \<in> live_objs h"
      using ok kids_live [OF ok cur] by (auto simp: heap_ok_def held_def split: if_splits)
    with \<open>p \<noteq> cur\<close> show "p \<in> live_objs h'" by (simp add: live)
  qed
  show "heap_ok h' e'"
    unfolding heap_ok_def
  proof (intro conjI allI ballI)
    show "map_of h' 0 = None" by (rule h'(2))
    show "count_at h' p < 2 ^ 48" for p
    proof (cases "p = cur")
      case False
      then show ?thesis using ok same(1) by (simp add: heap_ok_def)
    qed (simp add: h'(3))
    fix p assume p: "p \<in> live_objs h'"
    then have p': "p \<in> live_objs h" "p \<noteq> cur" using live by auto
    show "count_at h' p = e' p + edges_into h' (live_objs h') p"
      using cnt [OF p'(1)] split [of p] e' [of p] same(1) [OF p'(2)] p'(2) by simp
    fix c assume c: "c \<in> set (all_kids h' p)"
    then have c': "c \<in> set (all_kids h p)" "c \<noteq> cur" using same(3) [OF p'(2)] nokid [OF p] by auto
    show "map_of h' c \<noteq> None" using ok p'(1) c' h'(1) [OF c'(2)] by (auto simp: heap_ok_def)
    show "mortal_at h' c \<longrightarrow> c \<in> live_objs h'"
      using ok p'(1) c' same(2) [OF c'(2)] live by (auto simp: heap_ok_def)
  qed (rule heldsub)
  show "garbage_found h' e' roots"
    unfolding garbage_found_def
  proof
    fix g assume g: "g \<in> live_objs h' - reached h' (held e')"
    have kid_held: "q \<in> held e'" if "q \<in> set (kids h cur)" for q
    proof -
      have "0 < count_list (kids h cur) q" using that by (metis count_list_0_iff neq0_conv)
      then show ?thesis using e' [of q] by (simp add: held_def)
    qed
    have step: "q \<in> reached h' A" if "p \<in> reached h' A" "p \<in> live_objs h" "p \<noteq> cur" "q \<in> set (kids h p)" for p q A
      using reached_step [of p h' A q] that kids [of p] live by auto
    have "reached h (held e) \<subseteq> insert cur (reached h' (held e'))"
    proof (rule reached_least)
      have "held e \<subseteq> insert cur (held e')" using e' by (auto simp: held_def)
      then show "held e \<subseteq> insert cur (reached h' (held e'))" using reached_refl [of "held e'" h'] by auto
      fix p q assume "p \<in> insert cur (reached h' (held e'))" "p \<in> live_objs h" "q \<in> set (kids h p)"
      then show "q \<in> insert cur (reached h' (held e'))"
        using kid_held [of q] reached_refl [of "held e'" h'] step [of p "held e'" q] by (cases "p = cur") auto
    qed
    then have "g \<in> live_objs h - reached h (held e)" using g live by auto
    then have "g \<in> reached h (set roots \<inter> live_objs h)" using found by (auto simp: garbage_found_def)
    moreover have "reached h (set roots \<inter> live_objs h) \<subseteq>
        insert cur (reached h' (held e') \<union> reached h' (set roots \<inter> live_objs h'))"
    proof (rule reached_least)
      show "set roots \<inter> live_objs h \<subseteq> insert cur (reached h' (held e') \<union> reached h' (set roots \<inter> live_objs h'))"
        using reached_refl [of "set roots \<inter> live_objs h'" h'] live by auto
      fix p q assume "p \<in> insert cur (reached h' (held e') \<union> reached h' (set roots \<inter> live_objs h'))"
        "p \<in> live_objs h" "q \<in> set (kids h p)"
      then show "q \<in> insert cur (reached h' (held e') \<union> reached h' (set roots \<inter> live_objs h'))"
        using kid_held [of q] reached_refl [of "held e'" h'] step [of p _ q] by (cases "p = cur") auto
    qed
    ultimately show "g \<in> reached h' (set roots \<inter> live_objs h')" using g live by auto
  qed
qed

section \<open>One turn of the cascade\<close>

definition shrunk :: "heap \<Rightarrow> heap \<Rightarrow> bool" where
  "shrunk h h' \<longleftrightarrow> live_objs h' \<subseteq> live_objs h \<and> (\<forall>p. fixed_at h p \<longrightarrow> fixed_at h' p) \<and>
     (\<forall>p \<in> live_objs h'. all_kids h' p = all_kids h p \<and> count_at h' p \<le> count_at h p \<and> (has_fin h' p \<longrightarrow> has_fin h p))"

lemma shrunk_trans: "shrunk h h' \<Longrightarrow> shrunk h' h'' \<Longrightarrow> shrunk h h''"
  unfolding shrunk_def
proof (elim conjE, intro conjI ballI)
  fix p assume sub: "live_objs h'' \<subseteq> live_objs h'" and p: "p \<in> live_objs h''"
    and "\<forall>p. fixed_at h p \<longrightarrow> fixed_at h' p" "\<forall>p. fixed_at h' p \<longrightarrow> fixed_at h'' p"
    and a: "\<forall>p \<in> live_objs h'. all_kids h' p = all_kids h p \<and> count_at h' p \<le> count_at h p \<and> (has_fin h' p \<longrightarrow> has_fin h p)"
    and b: "\<forall>p \<in> live_objs h''. all_kids h'' p = all_kids h' p \<and> count_at h'' p \<le> count_at h' p \<and> (has_fin h'' p \<longrightarrow> has_fin h' p)"
  from p sub have "p \<in> live_objs h'" by blast
  with a b p show "all_kids h'' p = all_kids h p" "count_at h'' p \<le> count_at h p" "has_fin h'' p \<longrightarrow> has_fin h p"
    by (auto intro: order_trans)
qed auto

definition total_count :: "heap \<Rightarrow> nat" where
  "total_count h = (\<Sum>p\<in>live_objs h. count_at h p)"

lemma total_count_less:
  assumes "shrunk h h'" "p \<in> live_objs h" "p \<notin> live_objs h' \<or> count_at h' p < count_at h p"
  shows "total_count h' < total_count h"
proof -
  let ?f = "\<lambda>p. if p \<in> live_objs h' then count_at h' p else 0"
  have "total_count h' = (\<Sum>p\<in>live_objs h. ?f p)"
    unfolding total_count_def using assms(1) finite_live
    by (subst sum.inter_restrict [symmetric]) (auto simp: shrunk_def Int_absorb1)
  also have "\<dots> < total_count h"
    unfolding total_count_def
  proof (rule sum_strict_mono_ex1 [OF finite_live])
    show "\<forall>x \<in> live_objs h. ?f x \<le> count_at h x" using assms(1) by (auto simp: shrunk_def)
    have "?f p < count_at h p" using assms(2,3) by (auto simp: live_objs_def)
    then show "\<exists>a \<in> live_objs h. ?f a < count_at h a" using assms(2) by blast
  qed
  finally show ?thesis .
qed

lemma leaf_children: "\<not> may_cycle body \<Longrightarrow> body_children body = []"
  by (cases body) (simp_all add: masked_children_def map_entry_children_def)

lemma survivor_turn:
  assumes m: "memory_ok s (ext_plus ext (cur # st))" and ob: "map_of (c_heap s) cur = Some ob" and two: "2 \<le> o_count ob"
  shows "(\<exists>s'. release_one alloc deinit s cur st = Ok (s', st) \<and> memory_ok s' (ext_plus ext st) \<and>
      total_count (c_heap s') < total_count (c_heap s) \<and> shrunk (c_heap s) (c_heap s')) \<or>
    (\<exists>msg. release_one alloc deinit s cur st = Panic msg 0 0 \<and> excused msg)"
proof -
  let ?h = "c_heap s" and ?e = "ext_plus ext (cur # st)" and ?e' = "ext_plus ext st"
  let ?ob = "ob\<lparr>o_count := o_count ob - 1\<rparr>"
  have ok: "heap_ok ?h ?e" "roots_ok ?h (c_roots s)" "garbage_found ?h ?e (c_roots s)" "\<not> c_collecting s" "c_in_deinit s = 0"
    using m by (simp_all add: memory_ok_def)
  have e: "?e p = ?e' p + (if p = cur then 1 else 0)" for p by (simp add: ext_plus_def)
  have "0 < ?e cur" by (simp add: ext_plus_def)
  then have cur: "cur \<in> live_objs ?h" using ok(1) by (auto simp: heap_ok_def held_def)
  note at = at_some [OF ob]
  have mortal: "\<not> o_immortal ob" using cur at(3) by (simp add: live_objs_def)
  have result: "memory_ok s' ?e' \<and> total_count (c_heap s') < total_count ?h \<and> shrunk ?h (c_heap s')"
    if h': "\<And>q. map_of (c_heap s') q = (if q = cur then Some ob' else map_of ?h q)"
      and ob': "o_count ob' = o_count ob - 1" "o_immortal ob' = o_immortal ob" "o_body ob' = o_body ob" "o_fin ob' = o_fin ob"
      and r: "roots_ok (c_heap s') (c_roots s')" "set (c_roots s) \<subseteq> set (c_roots s')"
        "kids ?h cur \<noteq> [] \<Longrightarrow> cur \<in> set (c_roots s')" and ctrl: "same_control s s'" for s' ob'
  proof -
    have obs: "map_of (c_heap s') q = None \<longleftrightarrow> map_of ?h q = None" "mortal_at (c_heap s') q = mortal_at ?h q"
      "all_kids (c_heap s') q = all_kids ?h q" "count_at (c_heap s') q = count_at ?h q - (if q = cur then 1 else 0)"
      "has_fin (c_heap s') q = has_fin ?h q" for q
      using h' [of q] ob ob' at by (auto simp: mortal_at_def all_kids_def count_at_def has_fin_def)
    have two': "2 \<le> count_at ?h cur" using two at(1) by simp
    note d = drop_ref_heap_ok [OF ok(1) e two' cur obs(1-4)]
    have "garbage_found (c_heap s') ?e' (c_roots s')"
      by (rule drop_ref_garbage [OF ok(1,3) e two' cur d(2,4) r(2,3)])
    then have "memory_ok s' ?e'" using d(1) r(1) ok(4,5) ctrl by (simp add: memory_ok_def same_control_def)
    moreover have sh: "shrunk ?h (c_heap s')" using d(2) obs by (simp add: shrunk_def fixed_at_def)
    moreover have "count_at (c_heap s') cur < count_at ?h cur" using obs(4) two' by simp
    ultimately show ?thesis using total_count_less [OF sh cur] by blast
  qed
  have unfold: "release_one alloc deinit s cur st =
      (if may_cycle (o_body ob) then rt_bind (cc_possible_root alloc cur (put_at s cur ?ob)) (\<lambda>s. Ok (s, st))
       else Ok (put_at s cur ?ob, st))"
    using ob mortal two by (simp add: release_one_def obj_at_def rc_dec_def)
  have rs: "set (c_roots s) = {p. buf_at ?h p}" "distinct (c_roots s)"
    "\<And>p. mortal_at ?h p \<Longrightarrow>
        (if buf_at ?h p then color_at ?h p = Some (if 0 < count_at ?h p then CC_PURPLE else CC_BLACK)
         else color_at ?h p = Some CC_BLACK \<and> 0 < count_at ?h p)" "\<And>p. buf_at ?h p \<Longrightarrow> mortal_at ?h p"
    using ok(2) by (auto simp: roots_ok_def)
  show ?thesis
  proof (cases "may_cycle (o_body ob)")
    case False
    let ?s = "put_at s cur ?ob"
    have h': "map_of (c_heap ?s) q = (if q = cur then Some ?ob else map_of ?h q)" for q by (simp add: put_at_def)
    have "roots_ok (c_heap ?s) (c_roots ?s)"
      using rs rs(3) [of cur] at two mortal by (auto simp: roots_ok_def put_at_def)
    moreover have "kids ?h cur = []" using leaf_children [OF False] at(5) by (simp add: kids_def)
    ultimately have "memory_ok ?s ?e' \<and> total_count (c_heap ?s) < total_count ?h \<and> shrunk ?h (c_heap ?s)"
      by (intro result [OF h']) (simp_all add: put_at_def same_control_def)
    then show ?thesis using unfold False by auto
  next
    case True
    have here: "map_of (c_heap (put_at s cur ?ob)) cur = Some ?ob" by (simp add: put_at_def)
    from possible_root_result [OF here, of alloc] show ?thesis
    proof (elim disjE exE conjE)
      let ?ob2 = "?ob\<lparr>o_color := CC_PURPLE, o_buf := True\<rparr>"
      fix s' assume s': "cc_possible_root alloc cur (put_at s cur ?ob) = Ok s'"
        "c_heap s' = put_obj (c_heap (put_at s cur ?ob)) cur ?ob2"
        "c_roots s' = (if o_buf ?ob then c_roots (put_at s cur ?ob) else c_roots (put_at s cur ?ob) @ [cur])"
        "same_control (put_at s cur ?ob) s'"
      have h': "map_of (c_heap s') q = (if q = cur then Some ?ob2 else map_of ?h q)" for q
        by (simp add: s'(2) put_at_def)
      have roots': "set (c_roots s') = insert cur (set (c_roots s))" "distinct (c_roots s')"
        using s'(3) rs(1,2) at(2) by (auto simp: put_at_def)
      have "roots_ok (c_heap s') (c_roots s')"
        unfolding roots_ok_def using roots' rs two mortal by (auto simp: s'(2) put_at_def)
      moreover have "same_control s s'" using s'(4) by (simp add: same_control_def put_at_def)
      ultimately have "memory_ok s' ?e' \<and> total_count (c_heap s') < total_count ?h \<and> shrunk ?h (c_heap s')"
        using roots' by (intro result [OF h']) auto
      then show ?thesis using unfold True s'(1) by auto
    qed (use unfold True in auto)
  qed
qed

lemma death_turn:
  assumes m: "memory_ok s (ext_plus ext (cur # st))" and ob: "map_of (c_heap s) cur = Some ob" and one: "o_count ob = 1"
    and q: "quiet deinit"
  shows "\<exists>s' st'. release_one alloc deinit s cur st = Ok (s', st') \<and> memory_ok s' (ext_plus ext st') \<and>
      total_count (c_heap s') < total_count (c_heap s) \<and> shrunk (c_heap s) (c_heap s')"
proof -
  let ?h = "c_heap s" and ?e = "ext_plus ext (cur # st)"
  let ?ob = "ob\<lparr>o_count := 0\<rparr>" and ?dead = "ob\<lparr>o_count := 0, o_fin := False\<rparr>"
  have ok: "heap_ok ?h ?e" "roots_ok ?h (c_roots s)" "garbage_found ?h ?e (c_roots s)" "\<not> c_collecting s" "c_in_deinit s = 0"
    using m by (simp_all add: memory_ok_def)
  have ecur: "0 < ?e cur" by (simp add: ext_plus_def)
  then have cur: "cur \<in> live_objs ?h" using ok(1) by (auto simp: heap_ok_def held_def)
  note at = at_some [OF ob]
  have mortal: "\<not> o_immortal ob" using cur at(3) by (simp add: live_objs_def)
  have "\<exists>s1. (if o_fin ?ob then beans_do_deinit deinit cur (put_at s cur ?ob) else Ok (put_at s cur ?ob)) = Ok s1 \<and>
      c_roots s1 = c_roots s \<and> same_control s s1 \<and>
      (\<forall>q. map_of (c_heap s1) q = (if q = cur then Some ?dead else map_of ?h q))"
  proof (cases "o_fin ob")
    case True
    have "map_of (c_heap (put_at s cur ?ob)) cur = Some ?ob" "o_count ?ob + 1 < 2 ^ 48" by (simp_all add: put_at_def)
    from quiet_deinit [OF q this] True show ?thesis by (auto simp: put_at_def same_control_def)
  next
    case False
    then have "?dead = ?ob" by simp
    then show ?thesis using False by (auto simp: put_at_def same_control_def)
  qed
  then obtain s1 where s1: "(if o_fin ?ob then beans_do_deinit deinit cur (put_at s cur ?ob) else Ok (put_at s cur ?ob)) = Ok s1"
    "c_roots s1 = c_roots s" "same_control s s1" "\<And>q. map_of (c_heap s1) q = (if q = cur then Some ?dead else map_of ?h q)"
    by blast
  let ?h1 = "c_heap s1"
  have str: "mortal_at ?h1 p = mortal_at ?h p" "map_of ?h1 p = None \<longleftrightarrow> map_of ?h p = None" for p
    using s1(4) [of p] ob by (auto simp: mortal_at_def)
  have kids: "filter (mortal_at ?h1) (body_children (o_body ob)) = kids ?h cur"
    unfolding kids_def at(5) by (simp add: str(1) cong: filter_cong)
  have dom: "map_of ?h1 c \<noteq> None" if "c \<in> set (body_children (o_body ob))" for c
    using ok(1) cur at(5) that str(2) [of c] by (auto simp: heap_ok_def)
  from walk_push [OF dom, of "body_children (o_body ob)" st]
  have walk: "cc_walk cc_visit_push (body_children (o_body ob)) (?h1, st) = Ok (?h1, rev (kids ?h cur) @ st)"
    unfolding kids by simp
  define h' where "h' = (if o_buf ob then put_obj ?h1 cur (?dead\<lparr>o_color := CC_BLACK\<rparr>) else cc_free_shell ?h1 cur)"
  let ?s = "s1\<lparr>c_heap := h'\<rparr>" and ?st = "rev (kids ?h cur) @ st"
  have run: "release_one alloc deinit s cur st = Ok (?s, ?st)"
    using ob mortal one s1(1) s1(4) [of cur] walk
    by (simp add: release_one_def obj_at_def rc_dec_def rt_finish_death_def h'_def)
  have h': "map_of h' q = map_of ?h q" if "q \<noteq> cur" for q using that s1(4) [of q] by (simp add: h'_def)
  have gone: "count_at h' cur = 0" "buf_at h' cur = o_buf ob" "mortal_at h' cur \<longleftrightarrow> o_buf ob"
    "o_buf ob \<Longrightarrow> color_at h' cur = Some CC_BLACK"
    using mortal by (auto simp: h'_def count_at_def buf_at_def mortal_at_def color_at_def)
  note same = at_cong [OF h']
  have live: "live_objs h' = live_objs ?h - {cur}" using same(1,4) gone(1) by (auto simp: live_objs_def) (metis neq0_conv)+
  have "cur \<noteq> 0" "map_of ?h 0 = None" using ok(1) ob by (auto simp: heap_ok_def)
  then have zero: "map_of h' 0 = None" using h' [of 0] by simp
  have e': "ext_plus ext ?st p = (?e p - (if p = cur then 1 else 0)) + count_list (kids ?h cur) p" for p
    by (simp add: ext_plus_def count_list_rev)
  have cnt: "count_at ?h cur = 1" using one at(1) by simp
  note d = death_keeps [OF ok(1,3) cnt ecur e' live h' zero gone(1)]
  have "roots_ok h' (c_roots s)"
    unfolding roots_ok_def
  proof (intro conjI allI impI)
    show "distinct (c_roots s)" using ok(2) by (simp add: roots_ok_def)
    have buf: "buf_at h' p = buf_at ?h p" for p using same(2) [of p] gone(2) at(2) by (cases "p = cur") auto
    then show "set (c_roots s) = {p. buf_at h' p}" using ok(2) by (simp add: roots_ok_def)
    show "mortal_at h' p" if "buf_at h' p" for p
      using that buf [of p] ok(2) same(4) [of p] gone(2,3) by (cases "p = cur") (auto simp: roots_ok_def)
    fix p assume "mortal_at h' p"
    then show "if buf_at h' p then color_at h' p = Some (if 0 < count_at h' p then CC_PURPLE else CC_BLACK)
        else color_at h' p = Some CC_BLACK \<and> 0 < count_at h' p"
      using ok(2) same(1-4) [of p] gone by (cases "p = cur") (auto simp: roots_ok_def)
  qed
  then have mem: "memory_ok ?s (ext_plus ext ?st)"
    using d(1,2) ok(4,5) s1(2,3) by (simp add: memory_ok_def same_control_def)
  have sh: "shrunk ?h (c_heap ?s)"
    unfolding shrunk_def
  proof (intro conjI ballI allI impI)
    fix q assume fx: "fixed_at ?h q"
    then have "q \<noteq> cur" using mortal at(3) by (auto simp: fixed_at_def)
    then show "fixed_at (c_heap ?s) q" using fx h' [of q] same(4) [of q] by (simp add: fixed_at_def)
  qed (use live same(1,5,6) in auto)
  have "cur \<notin> live_objs (c_heap ?s)" using live by simp
  then show ?thesis using run mem sh total_count_less [OF sh cur] by blast
qed

lemma release_turn:
  assumes "memory_ok s (ext_plus ext (cur # st))" "quiet deinit"
  shows "(\<exists>s' st'. release_one alloc deinit s cur st = Ok (s', st') \<and> memory_ok s' (ext_plus ext st') \<and>
      total_count (c_heap s') < total_count (c_heap s) \<and> shrunk (c_heap s) (c_heap s')) \<or>
    (\<exists>msg. release_one alloc deinit s cur st = Panic msg 0 0 \<and> excused msg)"
proof -
  have "heap_ok (c_heap s) (ext_plus ext (cur # st))" using assms(1) by (simp add: memory_ok_def)
  moreover have "0 < ext_plus ext (cur # st) cur" by (simp add: ext_plus_def)
  ultimately have cur: "cur \<in> live_objs (c_heap s)" by (auto simp: heap_ok_def held_def)
  then obtain ob where ob: "map_of (c_heap s) cur = Some ob" using live_dom by blast
  have "0 < o_count ob" using cur at_some(1) [OF ob] by (simp add: live_objs_def)
  then consider "2 \<le> o_count ob" | "o_count ob = 1" by linarith
  then show ?thesis
  proof cases
    case 1
    from survivor_turn [OF assms(1) ob this] show ?thesis by blast
  next
    case 2
    from death_turn [OF assms(1) ob this assms(2)] show ?thesis by blast
  qed
qed

lemma release_loop_keeps:
  assumes q: "quiet deinit"
  shows "memory_ok s (ext_plus ext (cur # st)) \<Longrightarrow>
    (\<exists>s'. release_loop alloc deinit s cur st = Some (Ok s') \<and> memory_ok s' ext \<and> shrunk (c_heap s) (c_heap s')) \<or>
    (\<exists>msg. release_loop alloc deinit s cur st = Some (Panic msg 0 0) \<and> excused msg)"
proof (induction "total_count (c_heap s)" arbitrary: s cur st rule: less_induct)
  case less
  from release_turn [OF less.prems q, of alloc] show ?case
  proof (elim disjE exE conjE)
    fix s1 st1 assume t: "release_one alloc deinit s cur st = Ok (s1, st1)" "memory_ok s1 (ext_plus ext st1)"
      "total_count (c_heap s1) < total_count (c_heap s)" "shrunk (c_heap s) (c_heap s1)"
    show ?thesis
    proof (cases st1)
      case Nil
      then show ?thesis using t by (simp add: release_loop.simps)
    next
      case (Cons c st2)
      have "release_loop alloc deinit s cur st = release_loop alloc deinit s1 c st2"
        using t(1) Cons by (simp add: release_loop.simps [of alloc deinit s])
      with less.hyps [OF t(3) t(2) [unfolded Cons]] shrunk_trans [OF t(4)] show ?thesis by auto
    qed
  next
    fix msg assume "release_one alloc deinit s cur st = Panic msg 0 0" "excused msg"
    then show ?thesis by (simp add: release_loop.simps)
  qed
qed

text \<open>Releasing a reference the program holds returns, and the reference is gone from the invariant.\<close>

lemma release_keeps:
  assumes "memory_ok s ext" "quiet deinit" "0 < ext p"
  shows "(\<exists>s'. beans_release alloc deinit p s = Some (Ok s') \<and> memory_ok s' (ext(p := ext p - 1)) \<and> shrunk (c_heap s) (c_heap s')) \<or>
    (\<exists>msg. beans_release alloc deinit p s = Some (Panic msg 0 0) \<and> excused msg)"
proof -
  have "heap_ok (c_heap s) ext" using assms(1) by (simp add: memory_ok_def)
  then have "p \<noteq> 0" using assms(3) live_dom [of p "c_heap s"] by (auto simp: heap_ok_def held_def)
  moreover have "ext_plus (ext(p := ext p - 1)) [p] = ext" using assms(3) by (simp add: ext_plus_def fun_eq_iff)
  ultimately show ?thesis
    using release_loop_keeps [OF assms(2), of s "ext(p := ext p - 1)" p "[]" alloc] assms(1)
    by (simp add: beans_release_def)
qed

end
