(* ===== verification/Rt_Mutator.thy ===== *)
theory Rt_Mutator
  imports Rt_Release
begin

text \<open>
  The program beside the memory manager: it retains what it can reach, releases what it holds, allocates
  boxes, stores into them and collects, in any order. Every call keeps the invariant and returns, or
  panics for lack of memory; and the forced collections at exit leave exactly what is still reachable.
\<close>

unbundle bit_operations_syntax

section \<open>References passed between the program and the heap\<close>

text \<open>The program gives away the references it holds to some objects; constants are not counted.\<close>

definition give :: "(slot \<Rightarrow> nat) \<Rightarrow> slot list \<Rightarrow> slot \<Rightarrow> nat" where
  "give ext cs p = ext p - count_list cs p"

definition owns :: "heap \<Rightarrow> (slot \<Rightarrow> nat) \<Rightarrow> slot list \<Rightarrow> bool" where
  "owns h ext cs \<longleftrightarrow> (\<forall>c \<in> set cs. fixed_at h c \<or> count_list cs c \<le> ext c)"

lemma count_list_filter: "count_list (filter P cs) p = (if P p then count_list cs p else 0)"
  by (induction cs) auto

lemma owns_give:
  assumes "heap_ok h ext" "owns h ext cs"
  shows "ext p = give ext cs p + count_list (filter (mortal_at h) cs) p"
proof (cases "p \<in> set cs \<and> mortal_at h p")
  case True
  then have "count_list cs p \<le> ext p" using assms(2) by (auto simp: owns_def fixed_at_def)
  then show ?thesis using True by (simp add: give_def count_list_filter)
next
  case False
  have "ext p = 0 \<or> count_list cs p = 0"
  proof (cases "p \<in> set cs")
    case True
    then have "p \<notin> live_objs h" using False by (simp add: live_objs_def)
    then show ?thesis using assms(1) by (auto simp: heap_ok_def held_def)
  qed (simp add: count_list_0_iff)
  then show ?thesis using False by (auto simp: give_def count_list_filter count_list_0_iff)
qed

lemma owned_in_heap:
  assumes "heap_ok h ext" "owns h ext cs" "c \<in> set cs"
  shows "map_of h c \<noteq> None" "mortal_at h c \<Longrightarrow> c \<in> live_objs h" "c \<noteq> 0"
proof -
  have pos: "0 < count_list cs c" using assms(3) by (metis count_list_0_iff neq0_conv)
  have "fixed_at h c \<or> 0 < ext c" using assms(2,3) pos by (auto simp: owns_def)
  then have "fixed_at h c \<or> c \<in> live_objs h" using assms(1) by (auto simp: heap_ok_def held_def)
  then show "map_of h c \<noteq> None" "mortal_at h c \<Longrightarrow> c \<in> live_objs h"
    using live_dom [of c h] by (auto simp: fixed_at_def)
  with assms(1) show "c \<noteq> 0" by (auto simp: heap_ok_def)
qed

lemma owns_within:
  assumes "owns h ext cs" "within h h'"
  shows "owns h' ext cs"
  using assms by (auto simp: owns_def within_def)

section \<open>A store into an object\<close>

text \<open>
  An object the program keeps holding gets new children, which the program gave up, and the references
  of the old ones pass to the program.
\<close>

lemma rewire_keeps:
  assumes ok: "heap_ok h ext" and own: "owns h ext cs" and obj: "map_of h p = Some ob" and p: "0 < give ext cs p"
    and kid: "body_children body = cs"
    and e': "\<And>q. e' q = give ext cs q + count_list (kids h p) q"
    and h': "h' = put_obj h p (ob\<lparr>o_body := body\<rparr>)"
  shows "heap_ok h' e'" "live_objs h' = live_objs h" "\<And>q. count_at h' q = count_at h q" "\<And>q. mortal_at h' q = mortal_at h q"
    "\<And>q. buf_at h' q = buf_at h q" "\<And>q. color_at h' q = color_at h q" "\<And>q. fixed_at h' q = fixed_at h q"
    "garbage_found h ext roots \<Longrightarrow> garbage_found h' e' roots"
proof -
  have mp: "map_of h' q = (if q = p then Some (ob\<lparr>o_body := body\<rparr>) else map_of h q)" for q by (simp add: h')
  show cnt: "count_at h' q = count_at h q" and mort: "mortal_at h' q = mortal_at h q"
    and "buf_at h' q = buf_at h q" "color_at h' q = color_at h q" for q
    using obj mp [of q] by (auto simp: count_at_def mortal_at_def buf_at_def color_at_def)
  show "fixed_at h' q = fixed_at h q" for q using obj mp [of q] mort [of q] by (auto simp: fixed_at_def)
  show live: "live_objs h' = live_objs h" by (simp add: live_objs_def cnt mort)
  have all: "all_kids h' q = (if q = p then cs else all_kids h q)" for q
    using mp [of q] kid by (simp add: all_kids_def)
  have kids: "kids h' q = (if q = p then filter (mortal_at h) cs else kids h q)" for q
    by (simp add: kids_def all mort cong: filter_cong)
  have pl: "p \<in> live_objs h"
  proof -
    have "0 < ext p" using p by (simp add: give_def)
    then show ?thesis using ok by (auto simp: heap_ok_def held_def)
  qed
  have split: "edges_into g (live_objs h) q = count_list (kids g p) q + edges_into g (live_objs h - {p}) q" for g q
    using edges_into_insert [of "live_objs h - {p}" p g q] pl finite_live [of h] by (simp add: insert_absorb)
  have rest: "edges_into h' (live_objs h - {p}) q = edges_into h (live_objs h - {p}) q" for q
    by (rule edges_into_cong) (simp add: kids)
  note given = owns_give [OF ok own]
  have sub: "held e' \<subseteq> live_objs h"
  proof
    fix q assume "q \<in> held e'"
    then have "0 < ext q \<or> q \<in> set (kids h p)"
      using e' [of q] given [of q] count_list_0_iff [of "kids h p" q] by (auto simp: held_def)
    then show "q \<in> live_objs h" using ok kids_live [OF ok pl] by (auto simp: heap_ok_def held_def)
  qed
  show "heap_ok h' e'"
    unfolding heap_ok_def live
  proof (intro conjI allI ballI sub)
    show "map_of h' 0 = None" using ok obj mp [of 0] by (auto simp: heap_ok_def)
    show "count_at h' q < 2 ^ 48" for q using ok by (simp add: cnt heap_ok_def)
    fix q assume q: "q \<in> live_objs h"
    have "count_at h q = ext q + edges_into h (live_objs h) q" using ok q by (simp add: heap_ok_def)
    then show "count_at h' q = e' q + edges_into h' (live_objs h) q"
      using given [of q] e' [of q] split [of h q] split [of h' q] rest [of q] by (simp add: cnt kids)
    fix c assume "c \<in> set (all_kids h' q)"
    then consider "c \<in> set cs" | "c \<in> set (all_kids h q)" by (auto simp: all split: if_splits)
    then have "map_of h c \<noteq> None \<and> (mortal_at h c \<longrightarrow> c \<in> live_objs h)"
      using owned_in_heap [OF ok own] ok q by cases (auto simp: heap_ok_def)
    then show "map_of h' c \<noteq> None" "mortal_at h' c \<longrightarrow> c \<in> live_objs h" using mp [of c] mort [of c] by auto
  qed
  assume found: "garbage_found h ext roots"
  have held': "held e' = held (give ext cs) \<union> set (kids h p)"
    using e' by (auto simp: held_def) (metis add.right_neutral count_list_0_iff neq0_conv)+
  have kid_reached: "q \<in> reached h' (held e')" if "q \<in> set (kids h p)" for q
    using that held' reached_refl [of "held e'" h'] by auto
  have "p \<in> reached h' (held e')" using p held' reached_refl [of "held e'" h'] by (auto simp: held_def)
  then have new: "q \<in> reached h' (held e')" if "q \<in> set cs" "mortal_at h q" for q
    using reached_step [of p h' _ q] pl that by (simp add: live kids)
  have step: "q \<in> reached h' A \<union> reached h' (held e')" if "x \<in> reached h' A" "x \<in> live_objs h" "q \<in> set (kids h x)" for x q A
  proof (cases "x = p")
    case False
    then show ?thesis using reached_step [of x h' A q] that by (simp add: live kids)
  qed (use that kid_reached in simp)
  have keep: "reached h (held ext) \<subseteq> reached h' (held e')"
  proof (rule reached_least)
    show "held ext \<subseteq> reached h' (held e')"
    proof
      fix q assume "q \<in> held ext"
      then have "0 < give ext cs q \<or> q \<in> set (filter (mortal_at h) cs)"
        using given [of q] count_list_0_iff [of "filter (mortal_at h) cs" q] by (auto simp: held_def)
      then show "q \<in> reached h' (held e')" using new held' reached_refl [of "held e'" h'] by (auto simp: held_def)
    qed
  qed (use step [of _ "held e'"] in auto)
  have "reached h (set roots \<inter> live_objs h) \<subseteq> reached h' (set roots \<inter> live_objs h) \<union> reached h' (held e')"
    by (rule reached_least) (use step step [of _ "held e'"] reached_refl [of "set roots \<inter> live_objs h" h'] in auto)
  then show "garbage_found h' e' roots" using found keep by (fastforce simp: garbage_found_def live)
qed

section \<open>Single calls\<close>

lemma retain_keeps:
  assumes m: "memory_ok s ext" and p: "p \<in> live_objs (c_heap s)" and room: "count_at (c_heap s) p + 1 < 2 ^ 48"
  shows "\<exists>s'. beans_retain p s = Ok s' \<and> memory_ok s' (ext(p := ext p + 1))"
proof -
  let ?h = "c_heap s"
  have ok: "heap_ok ?h ext" "roots_ok ?h (c_roots s)" "garbage_found ?h ext (c_roots s)" "\<not> c_collecting s" "c_in_deinit s = 0"
    using m by (simp_all add: memory_ok_def)
  from p obtain ob where ob: "map_of ?h p = Some ob" using live_dom by blast
  note at = at_some [OF ob]
  have mortal: "\<not> o_immortal ob" using p ob by (simp add: live_objs_def mortal_at_def)
  have "p \<noteq> 0" using ok(1) ob by (auto simp: heap_ok_def)
  define h' where "h' = put_obj ?h p (ob\<lparr>o_count := o_count ob + 1\<rparr>)"
  have run: "beans_retain p s = Ok (s\<lparr>c_heap := h'\<rparr>)"
    using ob mortal room at(1) \<open>p \<noteq> 0\<close> by (simp add: beans_retain_def obj_at_def rc_inc_def put_at_def h'_def)
  have obs: "map_of h' q = None \<longleftrightarrow> map_of ?h q = None" "mortal_at h' q = mortal_at ?h q" "all_kids h' q = all_kids ?h q"
    "buf_at h' q = buf_at ?h q" "color_at h' q = color_at ?h q"
    "count_at h' q = count_at ?h q + (if q = p then 1 else 0)" for q
    using ob by (auto simp: mortal_at_def all_kids_def count_at_def buf_at_def color_at_def h'_def)
  have live: "live_objs h' = live_objs ?h" 
  proof (intro set_eqI)
    show "q \<in> live_objs h' \<longleftrightarrow> q \<in> live_objs ?h" for q using p by (cases "q = p") (simp_all add: live_objs_def obs)
  qed
  have kids: "kids h' = kids ?h" by (simp add: kids_def obs fun_eq_iff cong: filter_cong)
  have reach: "reached h' = reached ?h" by (simp add: reached_def heap_edges_def live kids fun_eq_iff)
  let ?e = "ext(p := ext p + 1)"
  have sub: "held ext \<subseteq> held ?e" "held ?e \<subseteq> live_objs ?h" using ok(1) p by (auto simp: heap_ok_def held_def split: if_splits)
  have "count_at h' q < 2 ^ 48" for q using ok(1) room by (simp add: obs heap_ok_def)
  then have "heap_ok h' ?e"
    using ok(1) sub(2) unfolding heap_ok_def live edges_into_def kids obs(1-3) by (auto simp: obs(6))
  moreover have "roots_ok h' (c_roots s)"
    using ok(2) p unfolding roots_ok_def obs(2,4,5) by (auto simp: obs(6) live_objs_def)
  moreover have "garbage_found h' ?e (c_roots s)"
    using ok(3) reached_mono [OF sub(1), of ?h] by (auto simp: garbage_found_def live reach)
  ultimately show ?thesis using run ok(4,5) by (simp add: memory_ok_def)
qed

lemma constant_ignored:
  assumes "fixed_at (c_heap s) p"
  shows "beans_retain p s = Ok s" "beans_release alloc deinit p s = Some (Ok s)"
proof -
  obtain ob where ob: "map_of (c_heap s) p = Some ob" "o_immortal ob"
    using assms by (auto simp: fixed_at_def mortal_at_def)
  then have one: "release_one alloc deinit s p [] = Ok (s, [])" by (simp add: release_one_def obj_at_def)
  show "beans_retain p s = Ok s" using ob by (simp add: beans_retain_def obj_at_def)
  show "beans_release alloc deinit p s = Some (Ok s)" by (simp add: beans_release_def release_loop.simps one)
qed

lemma release_all_keeps:
  assumes q: "quiet deinit"
  shows "memory_ok s (ext_plus ext (filter (\<lambda>c. c \<notin> F) cs)) \<Longrightarrow> \<forall>c \<in> F. fixed_at (c_heap s) c \<Longrightarrow>
    (\<exists>s'. release_all alloc deinit cs s = Some (Ok s') \<and> memory_ok s' ext \<and> shrunk (c_heap s) (c_heap s')) \<or>
    (\<exists>msg. release_all alloc deinit cs s = Some (Panic msg 0 0) \<and> excused msg)"
proof (induction cs arbitrary: s)
  case Nil
  then show ?case by (auto simp: shrunk_def)
next
  case (Cons c cs)
  show ?case
  proof (cases "c \<in> F")
    case True
    then show ?thesis using Cons constant_ignored(2) [of s c alloc deinit] by simp
  next
    case False
    let ?e = "ext_plus ext (filter (\<lambda>c. c \<notin> F) (c # cs))"
    have e: "?e(c := ?e c - 1) = ext_plus ext (filter (\<lambda>c. c \<notin> F) cs)" "0 < ?e c"
      using False by (auto simp: ext_plus_def fun_eq_iff)
    from release_keeps [OF Cons.prems(1) q e(2), of alloc] show ?thesis
    proof (elim disjE exE conjE)
      fix s1 assume r: "beans_release alloc deinit c s = Some (Ok s1)" "memory_ok s1 (?e(c := ?e c - 1))" "shrunk (c_heap s) (c_heap s1)"
      have "\<forall>c \<in> F. fixed_at (c_heap s1) c" using Cons.prems(2) r(3) by (simp add: shrunk_def)
      from Cons.IH [OF r(2) [unfolded e(1)] this] r(1) shrunk_trans [OF r(3)] show ?thesis by auto
    qed simp
  qed
qed

text \<open>Parking a live object as a candidate.\<close>

lemma park_keeps:
  assumes m: "memory_ok s ext" and p: "p \<in> live_objs (c_heap s)"
  shows "(\<exists>s'. cc_possible_root alloc p s = Ok s' \<and> memory_ok s' ext \<and> alike (c_heap s) (c_heap s')) \<or>
    (\<exists>msg. cc_possible_root alloc p s = Panic msg 0 0 \<and> excused msg)"
proof -
  let ?h = "c_heap s"
  have ok: "heap_ok ?h ext" "roots_ok ?h (c_roots s)" "garbage_found ?h ext (c_roots s)" "\<not> c_collecting s" "c_in_deinit s = 0"
    using m by (simp_all add: memory_ok_def)
  from p obtain ob where ob: "map_of ?h p = Some ob" using live_dom by blast
  from possible_root_result [OF ob, of alloc] show ?thesis
  proof (elim disjE exE conjE)
    fix s' assume r: "cc_possible_root alloc p s = Ok s'"
      "c_heap s' = put_obj ?h p (ob\<lparr>o_color := CC_PURPLE, o_buf := True\<rparr>)"
      "c_roots s' = (if o_buf ob then c_roots s else c_roots s @ [p])" "same_control s s'"
    let ?h' = "c_heap s'"
    have al: "alike ?h ?h'" using ob by (simp add: r(2) alike_def mortal_at_def count_at_def all_kids_def)
    have obs: "buf_at ?h' q \<longleftrightarrow> buf_at ?h q \<or> q = p" "color_at ?h' q = (if q = p then Some CC_PURPLE else color_at ?h q)" for q
      using ob by (auto simp: r(2) buf_at_def)
    have same: "mortal_at ?h' = mortal_at ?h" "count_at ?h' = count_at ?h" using al by (auto simp: alike_def fun_eq_iff)
    have "set (c_roots s) = {q. buf_at ?h q}" "distinct (c_roots s)" using ok(2) by (simp_all add: roots_ok_def)
    then have roots: "distinct (c_roots s')" "set (c_roots s') = {q. buf_at ?h' q}"
      using at_some(2) [OF ob] by (auto simp: r(3) obs)
    have "roots_ok ?h' (c_roots s')"
      using ok(2) p roots unfolding roots_ok_def obs same by (auto simp: live_objs_def)
    moreover have "garbage_found ?h' ext (c_roots s')"
    proof -
      have "set (c_roots s) \<inter> live_objs ?h \<subseteq> set (c_roots s') \<inter> live_objs ?h" by (auto simp: r(3))
      from reached_mono [OF this, of ?h] ok(3) show ?thesis by (auto simp: garbage_found_def alike_facts [OF al])
    qed
    ultimately have "memory_ok s' ext" using ok(1,4,5) r(4) by (simp add: memory_ok_def alike_facts(4) [OF al] same_control_def)
    with r(1) al show ?thesis by blast
  qed simp
qed

section \<open>Allocation\<close>

text \<open>A new object without children, held once by the program.\<close>

lemma add_leaf_keeps:
  assumes ok: "heap_ok h ext" "roots_ok h roots" "garbage_found h ext roots" and p: "p \<noteq> 0" "map_of h p = None"
    and ob: "o_count ob = 1" "\<not> o_immortal ob" "o_color ob = CC_BLACK" "\<not> o_buf ob" "o_body ob = Leaf"
    and h': "h' = put_obj h p ob" and e': "e' = ext(p := 1)"
  shows "heap_ok h' e'" "roots_ok h' roots" "garbage_found h' e' roots" "live_objs h' = insert p (live_objs h)"
    "\<And>q. fixed_at h q \<Longrightarrow> fixed_at h' q"
proof -
  have mp: "map_of h' q = (if q = p then Some ob else map_of h q)" for q by (simp add: h')
  note same = at_cong [of h' _ h, OF mp [THEN trans, OF if_not_P]]
  note old = at_gone [OF p(2)]
  note new = at_some [of h' p ob, OF mp [THEN trans, OF if_P [OF refl]]]
  show live: "live_objs h' = insert p (live_objs h)"
  proof (intro set_eqI)
    show "q \<in> live_objs h' \<longleftrightarrow> q \<in> insert p (live_objs h)" for q
      using same(1,4) [of q] new(1,3) ob(1,2) by (cases "q = p") (simp_all add: live_objs_def)
  qed
  have pl: "p \<notin> live_objs h" using old by (simp add: live_objs_def)
  then have noext: "ext p = 0" using ok(1) by (auto simp: heap_ok_def held_def)
  have nokid: "p \<notin> set (all_kids h q)" if "q \<in> live_objs h" for q using ok(1) that p(2) unfolding heap_ok_def by blast
  have kids: "kids h' q = kids h q" if "q \<in> live_objs h" for q
  proof -
    have "q \<noteq> p" using that pl by auto
    moreover have "mortal_at h' c = mortal_at h c" if "c \<in> set (all_kids h q)" for c
      using same(4) [of c] nokid [OF \<open>q \<in> live_objs h\<close>] that by (cases "c = p") auto
    ultimately show ?thesis using same(5) [of q] by (simp add: kids_def cong: filter_cong)
  qed
  have pk: "all_kids h' p = []" "kids h' p = []" using new(5) ob(5) by (simp_all add: kids_def)
  have edges: "edges_into h' (live_objs h') q = edges_into h (live_objs h) q" for q
  proof -
    have "edges_into h' (live_objs h') q = edges_into h' (live_objs h) q"
      unfolding live using edges_into_insert [OF finite_live pl] pk by simp
    also have "\<dots> = edges_into h (live_objs h) q" by (rule edges_into_cong) (rule kids)
    finally show ?thesis .
  qed
  have intop: "edges_into h (live_objs h) p = 0"
    using edges_into_zero_iff [OF finite_live, of h h p] nokid by (auto simp: kids_def)
  show "heap_ok h' e'"
    unfolding heap_ok_def
  proof (intro conjI allI ballI)
    show "map_of h' 0 = None" using ok(1) p(1) mp [of 0] by (simp add: heap_ok_def)
    show "count_at h' q < 2 ^ 48" for q
      using ok(1) same(1) [of q] new(1) ob(1) by (cases "q = p") (simp_all add: heap_ok_def)
    show "held e' \<subseteq> live_objs h'" using ok(1) by (auto simp: live e' heap_ok_def held_def)
    fix q assume q: "q \<in> live_objs h'"
    show "count_at h' q = e' q + edges_into h' (live_objs h') q"
    proof (cases "q = p")
      case True
      then show ?thesis using new(1) ob(1) edges intop by (simp add: e')
    next
      case False
      then show ?thesis using q ok(1) same(1) [of q] edges by (simp add: live e' heap_ok_def)
    qed
    fix c assume c: "c \<in> set (all_kids h' q)"
    then have "q \<noteq> p" using pk by auto
    then have "q \<in> live_objs h" "c \<in> set (all_kids h q)" using q c same(5) [of q] live by auto
    then have "map_of h c \<noteq> None \<and> (mortal_at h c \<longrightarrow> c \<in> live_objs h)" "c \<noteq> p" using ok(1) nokid by (auto simp: heap_ok_def)
    then show "map_of h' c \<noteq> None" "mortal_at h' c \<longrightarrow> c \<in> live_objs h'" using mp [of c] same(4) [of c] live by auto
  qed
  have heq: "held e' = insert p (held ext)" by (auto simp: e' held_def)
  have sub: "reached h A \<subseteq> reached h' (insert p A)" for A
    by (rule reached_least) (use reached_refl [of "insert p A" h'] reached_step [of _ h' "insert p A"] kids live in auto)
  show "garbage_found h' e' roots"
    unfolding garbage_found_def
  proof
    fix g assume g: "g \<in> live_objs h' - reached h' (held e')"
    then have "g \<in> live_objs h" "g \<notin> reached h (held ext)"
      using sub [of "held ext"] heq reached_refl [of "held e'" h'] live by auto
    then have "g \<in> reached h (set roots \<inter> live_objs h)" using ok(3) by (auto simp: garbage_found_def)
    moreover have "reached h (set roots \<inter> live_objs h) \<subseteq> reached h' (set roots \<inter> live_objs h')"
      by (rule reached_least)
        (use reached_refl [of "set roots \<inter> live_objs h'" h'] reached_step [of _ h' "set roots \<inter> live_objs h'"] kids live in auto)
    ultimately show "g \<in> reached h' (set roots \<inter> live_objs h')" by blast
  qed
  show "fixed_at h' q" if "fixed_at h q" for q
    using that p(2) mp [of q] same(4) [of q] by (cases "q = p") (auto simp: fixed_at_def)
  show "roots_ok h' roots"
    unfolding roots_ok_def
  proof (intro conjI allI impI)
    show "distinct roots" using ok(2) by (simp add: roots_ok_def)
    have buf: "buf_at h' q = buf_at h q" for q using same(2) [of q] new(2) ob(4) old by (cases "q = p") auto
    then show "set roots = {q. buf_at h' q}" using ok(2) by (simp add: roots_ok_def)
    show "mortal_at h' q" if "buf_at h' q" for q
      using that ok(2) new(3) ob(2) same(4) [of q] by (cases "q = p") (auto simp: roots_ok_def buf)
    fix q assume "mortal_at h' q"
    then show "if buf_at h' q then color_at h' q = Some (if 0 < count_at h' q then CC_PURPLE else CC_BLACK)
        else color_at h' q = Some CC_BLACK \<and> 0 < count_at h' q"
      using ok(2) same(1,3,4) [of q] new ob old by (cases "q = p") (auto simp: roots_ok_def buf)
  qed
qed

text \<open>
  The allocator returns an address no object has while there is one; and the memory has room when no
  count comes within two of the size class and some address is free.
\<close>

definition fresh_addresses :: "(heap \<Rightarrow> slot) \<Rightarrow> bool" where
  "fresh_addresses fresh \<longleftrightarrow> (\<forall>h. (\<exists>p. p \<noteq> 0 \<and> map_of h p = None) \<longrightarrow> fresh h \<noteq> 0 \<and> map_of h (fresh h) = None)"

definition roomy :: "cc \<Rightarrow> bool" where
  "roomy s \<longleftrightarrow> (\<forall>p \<in> live_objs (c_heap s). count_at (c_heap s) p + 2 < 2 ^ 48) \<and> (\<exists>p. p \<noteq> 0 \<and> map_of (c_heap s) p = None)"

lemma roots_ok_same:
  assumes "\<And>q. count_at h' q = count_at h q" "\<And>q. mortal_at h' q = mortal_at h q" "\<And>q. buf_at h' q = buf_at h q"
    "\<And>q. color_at h' q = color_at h q"
  shows "roots_ok h' roots = roots_ok h roots"
  using assms by (simp add: roots_ok_def)

lemma alloc_keeps:
  assumes m: "memory_ok s ext" and q: "quiet deinit" and room: "roomy s" and fr: "fresh_addresses fresh"
    and own: "owns (c_heap s) ext (body_children body)"
  shows "(\<exists>s' p. beans_alloc alloc fresh deinit size' body s = Some (Ok (s', p)) \<and>
      memory_ok s' ((give ext (body_children body))(p := 1)) \<and> p \<notin> held ext) \<or>
    (\<exists>msg. beans_alloc alloc fresh deinit size' body s = Some (Panic msg 0 0) \<and> excused msg)"
proof -
  let ?first = "if c_pending s \<and> \<not> c_collecting s then cc_collect alloc deinit False s else Some (Ok s)"
  let ?cs = "body_children body"
  have "(\<exists>s1. ?first = Some (Ok s1) \<and> memory_ok s1 ext \<and> within (c_heap s) (c_heap s1)) \<or>
      (\<exists>msg. ?first = Some (Panic msg 0 0) \<and> excused msg)"
  proof (cases "c_pending s \<and> \<not> c_collecting s")
    case True
    with collect_keeps [OF m q, of alloc False] room show ?thesis by (auto simp: roomy_def collected_def Let_def)
  next
    case False
    then show ?thesis using m by (auto simp: within_def)
  qed
  then show ?thesis
  proof (elim disjE exE conjE)
    fix s1 assume first: "?first = Some (Ok s1)" and m1: "memory_ok s1 ext" and w: "within (c_heap s) (c_heap s1)"
    let ?h = "c_heap s1" and ?p = "fresh (c_heap s1)"
    let ?ob = "\<lparr>o_count = 1, o_immortal = False, o_fin = False, o_color = CC_BLACK, o_buf = False, o_body = body\<rparr>"
    have ok: "heap_ok ?h ext" "roots_ok ?h (c_roots s1)" "garbage_found ?h ext (c_roots s1)" "\<not> c_collecting s1" "c_in_deinit s1 = 0"
      using m1 by (simp_all add: memory_ok_def)
    have "\<exists>p. p \<noteq> 0 \<and> map_of ?h p = None" using room w unfolding roomy_def within_def by blast
    then have p: "?p \<noteq> 0" "map_of ?h ?p = None" using fr unfolding fresh_addresses_def by blast+
    note own1 = owns_within [OF own w]
    have noext: "ext ?p = 0" "?p \<notin> held ext" using ok(1) p(2) live_dom [of ?p ?h] by (auto simp: heap_ok_def held_def)
    have nokid: "?p \<notin> set ?cs" using owned_in_heap(1) [OF ok(1) own1, of ?p] p(2) by auto
    have run: "beans_alloc alloc fresh deinit size' body s =
        (if \<not> alloc ((16 + size' + 15) AND NOT 15) then Some (out_of_memory 0 0) else Some (Ok (put_at s1 ?p ?ob, ?p)))"
      unfolding beans_alloc_def first by (simp add: Let_def)
    define h1 where "h1 = put_obj ?h ?p (?ob\<lparr>o_body := Leaf\<rparr>)"
    define e1 where "e1 = ext(?p := 1)"
    note a = add_leaf_keeps [OF ok(1-3) p _ _ _ _ _ h1_def e1_def, simplified]
    have own2: "owns h1 e1 ?cs"
      using own1 a(5) nokid unfolding owns_def e1_def by (metis fun_upd_other)
    have at: "map_of h1 ?p = Some (?ob\<lparr>o_body := Leaf\<rparr>)" by (simp add: h1_def)
    have kids: "kids h1 ?p = []" using at by (simp add: kids_def all_kids_def)
    have give: "give e1 ?cs = (give ext ?cs)(?p := 1)" using nokid by (simp add: give_def e1_def fun_eq_iff count_list_0_iff)
    define h2 where "h2 = put_obj ?h ?p ?ob"
    have h2: "h2 = put_obj h1 ?p (?ob\<lparr>o_body := Leaf\<rparr>\<lparr>o_body := body\<rparr>)" by (simp add: h1_def h2_def put_obj_def)
    have pos: "0 < give e1 ?cs ?p" by (simp add: give)
    have e2: "give e1 ?cs q = give e1 ?cs q + count_list (kids h1 ?p) q" for q by (simp add: kids)
    note r = rewire_keeps [where e' = "give e1 ?cs", OF a(1) own2 at pos refl e2 h2]
    have "roots_ok h2 (c_roots s1)" unfolding roots_ok_same [OF r(3-6)] by (rule a(2))
    then have "memory_ok (put_at s1 ?p ?ob) ((give ext ?cs)(?p := 1))"
      using r(1) r(8) [OF a(3)] ok(4,5) by (simp add: memory_ok_def put_at_def give h2_def)
    then show ?thesis using run noext(2) by (cases "alloc ((16 + size' + 15) AND NOT 15)") (simp_all add: out_of_memory_def excused_def)
  next
    fix msg assume "?first = Some (Panic msg 0 0)" "excused msg"
    then show ?thesis unfolding beans_alloc_def by simp
  qed
qed

section \<open>Boxes\<close>

definition box_kids :: "u64 \<Rightarrow> elem \<Rightarrow> slot list" where
  "box_kids ptr_mask value' = masked_children value' ptr_mask False"

lemma box_new_keeps:
  assumes m: "memory_ok s ext" and q: "quiet deinit" and room: "roomy s" and fr: "fresh_addresses fresh"
    and own: "owns (c_heap s) ext (box_kids ptr_mask value')" and size: "0 < size'" "size' \<le> 2 ^ 30"
  shows "(\<exists>s' p. beans_box_new_typed alloc fresh deinit value' size' ptr_mask cycle_mask s = Some (Ok (s', p)) \<and>
      memory_ok s' ((give ext (box_kids ptr_mask value'))(p := 1)) \<and> p \<notin> held ext) \<or>
    (\<exists>msg. beans_box_new_typed alloc fresh deinit value' size' ptr_mask cycle_mask s = Some (Panic msg 0 0) \<and> excused msg)"
proof -
  have kids: "body_children (Fixed ptr_mask value') = box_kids ptr_mask value'" by (simp add: box_kids_def)
  have unfold: "beans_box_new_typed alloc fresh deinit value' size' ptr_mask cycle_mask s =
      then_do (beans_alloc alloc fresh deinit (of_int size') (Fixed ptr_mask value') s) (\<lambda>(s, box).
        then_do (Some (if cycle_mask \<noteq> 0 then cc_possible_root alloc box s else Ok s)) (\<lambda>s. Some (Ok (s, box))))"
    using size by (simp add: beans_box_new_typed_def)
  from alloc_keeps [OF m q room fr, of "Fixed ptr_mask value'", unfolded kids, OF own, of alloc "of_int size'"]
  show ?thesis
  proof (elim disjE exE conjE)
    fix s1 p assume a: "beans_alloc alloc fresh deinit (of_int size') (Fixed ptr_mask value') s = Some (Ok (s1, p))"
      and m1: "memory_ok s1 ((give ext (box_kids ptr_mask value'))(p := 1))" and p: "p \<notin> held ext"
    show ?thesis
    proof (cases "cycle_mask = 0")
      case True
      then show ?thesis using unfold a m1 p by simp
    next
      case False
      have "p \<in> live_objs (c_heap s1)" using m1 by (auto simp: memory_ok_def heap_ok_def held_def)
      from park_keeps [OF m1 this, of alloc] show ?thesis using unfold a p False by auto
    qed
  qed (simp add: unfold)
qed

lemma box_set_keeps:
  assumes m: "memory_ok s ext" and q: "quiet deinit" and own: "owns (c_heap s) ext (box_kids ptr_mask value')"
    and box: "map_of (c_heap s) box = Some ob" "o_body ob = Fixed ptr_mask old" "0 < give ext (box_kids ptr_mask value') box"
  shows "(\<exists>s'. beans_box_set_typed alloc deinit box value' ptr_mask cycle_mask s = Some (Ok s') \<and>
      memory_ok s' (give ext (box_kids ptr_mask value'))) \<or>
    (\<exists>msg. beans_box_set_typed alloc deinit box value' ptr_mask cycle_mask s = Some (Panic msg 0 0) \<and> excused msg)"
proof -
  let ?h = "c_heap s" and ?new = "box_kids ptr_mask value'" and ?old = "box_kids ptr_mask old"
  let ?body = "Fixed ptr_mask value'"
  have ok: "heap_ok ?h ext" "roots_ok ?h (c_roots s)" "garbage_found ?h ext (c_roots s)" "\<not> c_collecting s" "c_in_deinit s = 0"
    using m by (simp_all add: memory_ok_def)
  define h1 where "h1 = put_obj ?h box (ob\<lparr>o_body := ?body\<rparr>)"
  define e1 where "e1 q = give ext ?new q + count_list (kids ?h box) q" for q
  have kids: "body_children ?body = ?new" "all_kids ?h box = ?old" by (simp_all add: box_kids_def at_some(5) [OF box(1)] box(2))
  note r = rewire_keeps [OF ok(1) own box(1,3) kids(1) e1_def h1_def]
  define s1 where "s1 = put_at s box (ob\<lparr>o_body := ?body\<rparr>)"
  have s1: "c_heap s1 = h1" "c_roots s1 = c_roots s" "c_collecting s1 = c_collecting s" "c_in_deinit s1 = c_in_deinit s"
    by (simp_all add: s1_def put_at_def h1_def)
  have "roots_ok h1 (c_roots s)" unfolding roots_ok_same [OF r(3-6)] by (rule ok(2))
  then have m1: "memory_ok s1 e1" using r(1) r(8) [OF ok(3)] ok(4,5) by (simp add: memory_ok_def s1)
  have unfold: "beans_box_set_typed alloc deinit box value' ptr_mask cycle_mask s =
      then_do (Some (if cycle_mask \<noteq> 0 then cc_possible_root alloc box s1 else Ok s1)) (release_all alloc deinit (rev ?old))"
    using box by (simp add: beans_box_set_typed_def obj_at_def s1_def box_kids_def Let_def)
  have live: "box \<in> live_objs ?h"
  proof -
    have "0 < ext box" using box(3) by (simp add: give_def)
    then show ?thesis using ok(1) by (auto simp: heap_ok_def held_def)
  qed
  let ?F = "{c. fixed_at ?h c}"
  have "c \<notin> ?F \<longleftrightarrow> mortal_at ?h c" if "c \<in> set (rev ?old)" for c
    using ok(1) live that kids(2) by (auto simp: heap_ok_def fixed_at_def)
  then have "filter (\<lambda>c. c \<notin> ?F) (rev ?old) = rev (kids ?h box)"
    unfolding kids_def kids(2) rev_filter by (intro filter_cong) auto
  then have owed: "ext_plus (give ext ?new) (filter (\<lambda>c. c \<notin> ?F) (rev ?old)) = e1"
    by (simp add: ext_plus_def e1_def count_list_rev fun_eq_iff)
  have rest: "(\<exists>s'. release_all alloc deinit (rev ?old) s2 = Some (Ok s') \<and> memory_ok s' (give ext ?new)) \<or>
      (\<exists>msg. release_all alloc deinit (rev ?old) s2 = Some (Panic msg 0 0) \<and> excused msg)"
    if "memory_ok s2 e1" "\<forall>c \<in> ?F. fixed_at (c_heap s2) c" for s2
    using release_all_keeps [OF q that(1) [folded owed] that(2), of alloc] by blast
  have fixed: "\<forall>c \<in> ?F. fixed_at h1 c" using r(7) by simp
  show ?thesis
  proof (cases "cycle_mask = 0")
    case True
    then show ?thesis using unfold rest [OF m1] fixed by (simp add: s1(1))
  next
    case False
    have "box \<in> live_objs (c_heap s1)" using live r(2) by (simp add: s1(1))
    from park_keeps [OF m1 this, of alloc] show ?thesis
    proof (elim disjE exE conjE)
      fix s2 assume p: "cc_possible_root alloc box s1 = Ok s2" "memory_ok s2 e1" "alike (c_heap s1) (c_heap s2)"
      have "\<forall>c \<in> ?F. fixed_at (c_heap s2) c" using fixed p(3) by (simp add: alike_def fixed_at_def s1(1))
      from rest [OF p(2) this] show ?thesis using unfold p(1) False by simp
    qed (use unfold False in simp)
  qed
qed

section \<open>The program as a sequence of calls\<close>

datatype mem_call =
    Retain slot
  | Release slot
  | Collect bool
  | BoxNew elem int u64 u64
  | BoxSet slot elem u64 u64

text \<open>
  What the compiler's ownership rules allow: retain what is reachable, release what is held, and store
  only references the program gives up; the box stored into stays held and was made with the same mask.
\<close>

fun allowed :: "mem_call \<Rightarrow> heap \<Rightarrow> (slot \<Rightarrow> nat) \<Rightarrow> bool" where
  "allowed (Retain p) h ext \<longleftrightarrow> p \<in> reached h (held ext) \<or> fixed_at h p"
| "allowed (Release p) h ext \<longleftrightarrow> 0 < ext p \<or> fixed_at h p"
| "allowed (Collect _) h ext \<longleftrightarrow> True"
| "allowed (BoxNew v size' pm _) h ext \<longleftrightarrow> owns h ext (box_kids pm v) \<and> 0 < size' \<and> size' \<le> 2 ^ 30"
| "allowed (BoxSet box v pm _) h ext \<longleftrightarrow>
     owns h ext (box_kids pm v) \<and> 0 < give ext (box_kids pm v) box \<and>
     (\<exists>ob old. map_of h box = Some ob \<and> o_body ob = Fixed pm old)"

fun perform :: "(u64 \<Rightarrow> bool) \<Rightarrow> (heap \<Rightarrow> slot) \<Rightarrow> (slot \<Rightarrow> cc \<Rightarrow> cc rt) \<Rightarrow> mem_call \<Rightarrow> cc \<Rightarrow> (cc \<times> slot) rt option" where
  "perform alloc fresh deinit (Retain p) s = then_do (Some (beans_retain p s)) (\<lambda>s. Some (Ok (s, p)))"
| "perform alloc fresh deinit (Release p) s = then_do (beans_release alloc deinit p s) (\<lambda>s. Some (Ok (s, p)))"
| "perform alloc fresh deinit (Collect force) s = then_do (cc_collect alloc deinit force s) (\<lambda>s. Some (Ok (s, 0)))"
| "perform alloc fresh deinit (BoxNew v size' pm cm) s = beans_box_new_typed alloc fresh deinit v size' pm cm s"
| "perform alloc fresh deinit (BoxSet box v pm cm) s =
     then_do (beans_box_set_typed alloc deinit box v pm cm s) (\<lambda>s. Some (Ok (s, box)))"

fun hold_after :: "mem_call \<Rightarrow> heap \<Rightarrow> slot \<Rightarrow> (slot \<Rightarrow> nat) \<Rightarrow> slot \<Rightarrow> nat" where
  "hold_after (Retain p) h r ext = (if fixed_at h p then ext else ext(p := ext p + 1))"
| "hold_after (Release p) h r ext = (if fixed_at h p then ext else ext(p := ext p - 1))"
| "hold_after (Collect _) h r ext = ext"
| "hold_after (BoxNew v _ pm _) h r ext = (give ext (box_kids pm v))(r := 1)"
| "hold_after (BoxSet _ v pm _) h r ext = give ext (box_kids pm v)"

lemma perform_keeps:
  assumes m: "memory_ok s ext" and q: "quiet deinit" and fr: "fresh_addresses fresh" and room: "roomy s"
    and call: "allowed call (c_heap s) ext"
  shows "(\<exists>s' r. perform alloc fresh deinit call s = Some (Ok (s', r)) \<and> memory_ok s' (hold_after call (c_heap s) r ext)) \<or>
    (\<exists>msg. perform alloc fresh deinit call s = Some (Panic msg 0 0) \<and> excused msg)"
proof (cases call)
  case (Retain p)
  show ?thesis
  proof (cases "fixed_at (c_heap s) p")
    case True
    then show ?thesis using m by (simp add: Retain constant_ignored(1))
  next
    case False
    have "p \<in> reached (c_heap s) (held ext)" using call False by (simp add: Retain)
    then have p: "p \<in> live_objs (c_heap s)" using m reached_live [of "c_heap s" ext "held ext"] by (auto simp: memory_ok_def heap_ok_def)
    have "count_at (c_heap s) p + 1 < 2 ^ 48" using room p by (fastforce simp: roomy_def)
    from retain_keeps [OF m p this] show ?thesis using False by (auto simp: Retain)
  qed
next
  case (Release p)
  show ?thesis
  proof (cases "fixed_at (c_heap s) p")
    case True
    then show ?thesis using m by (simp add: Release constant_ignored(2))
  next
    case False
    then have "0 < ext p" using call by (simp add: Release)
    from release_keeps [OF m q this, of alloc] show ?thesis using False by (auto simp: Release)
  qed
next
  case (Collect force)
  from collect_keeps [OF m q, of alloc force] room show ?thesis by (auto simp: Collect roomy_def collected_def Let_def)
next
  case (BoxNew v size' pm cm)
  then show ?thesis using box_new_keeps [OF m q room fr, of pm v size' alloc cm] call by auto
next
  case (BoxSet box v pm cm)
  then obtain ob old where "owns (c_heap s) ext (box_kids pm v)" "0 < give ext (box_kids pm v) box"
    "map_of (c_heap s) box = Some ob" "o_body ob = Fixed pm old" using call by auto
  from box_set_keeps [OF m q this(1,3,4,2), of alloc cm] show ?thesis by (auto simp: BoxSet)
qed

text \<open>The memory manager as the process starts: nothing but constants.\<close>

definition start_memory :: "heap \<Rightarrow> cc" where
  "start_memory h = \<lparr>c_heap = h, c_roots = [], c_cap = 0, c_threshold = 256, c_walk_min = 256, c_pending = False,
     c_collecting = False, c_in_deinit = 0\<rparr>"

definition constants :: "heap \<Rightarrow> bool" where
  "constants h \<longleftrightarrow> list_all (\<lambda>(p, ob). p \<noteq> 0 \<and> o_immortal ob \<and> \<not> o_buf ob \<and> o_count ob < 2 ^ 48) h"

lemma start_memory_ok:
  assumes "constants h"
  shows "memory_ok (start_memory h) (\<lambda>_. 0)"
proof -
  have c: "p \<noteq> 0 \<and> o_immortal ob \<and> \<not> o_buf ob \<and> o_count ob < 2 ^ 48" if "map_of h p = Some ob" for p ob
    using assms map_of_SomeD [OF that] by (auto simp: constants_def list_all_iff)
  have none: "\<not> mortal_at h p" "\<not> buf_at h p" "count_at h p < 2 ^ 48" for p
    using c [of p] by (auto simp: mortal_at_def buf_at_def count_at_def split: option.splits)
  then have live: "live_objs h = {}" by (simp add: live_objs_def)
  have "map_of h 0 = None" using c [of 0] by (cases "map_of h 0") auto
  then show ?thesis
    using none by (simp add: memory_ok_def start_memory_def heap_ok_def roots_ok_def garbage_found_def live held_def)
qed

inductive mem_reach :: "(u64 \<Rightarrow> bool) \<Rightarrow> (heap \<Rightarrow> slot) \<Rightarrow> (slot \<Rightarrow> cc \<Rightarrow> cc rt) \<Rightarrow> cc \<Rightarrow> (slot \<Rightarrow> nat) \<Rightarrow> bool"
  for alloc fresh deinit where
  mem_start: "constants h \<Longrightarrow> mem_reach alloc fresh deinit (start_memory h) (\<lambda>_. 0)"
| mem_next: "mem_reach alloc fresh deinit s ext \<Longrightarrow> roomy s \<Longrightarrow> allowed call (c_heap s) ext \<Longrightarrow>
    perform alloc fresh deinit call s = Some (Ok (s', r)) \<Longrightarrow>
    mem_reach alloc fresh deinit s' (hold_after call (c_heap s) r ext)"

lemma reach_memory_ok:
  assumes "mem_reach alloc fresh deinit s ext" "quiet deinit" "fresh_addresses fresh"
  shows "memory_ok s ext"
  using assms(1)
proof induction
  case (mem_start h)
  then show ?case by (rule start_memory_ok)
next
  case (mem_next s ext call s' r)
  from perform_keeps [OF mem_next.IH assms(2,3) mem_next.hyps(2,3), of alloc] mem_next.hyps(4) show ?case by auto
qed

section \<open>The collections at exit\<close>

text \<open>\<open>n\<close> is the number of passes that remain of the eight.\<close>

fun exit_passes :: "(u64 \<Rightarrow> bool) \<Rightarrow> (slot \<Rightarrow> cc \<Rightarrow> cc rt) \<Rightarrow> nat \<Rightarrow> cc \<Rightarrow> cc rt option" where
  "exit_passes alloc deinit 0 s = Some (Ok s)"
| "exit_passes alloc deinit (Suc n) s =
     then_do (cc_collect alloc deinit True s) (\<lambda>s.
       if n < 7 \<and> c_roots s = [] then Some (Ok s) else exit_passes alloc deinit n s)"

definition cc_at_exit :: "(u64 \<Rightarrow> bool) \<Rightarrow> (slot \<Rightarrow> cc \<Rightarrow> cc rt) \<Rightarrow> cc \<Rightarrow> cc rt option" where
  "cc_at_exit alloc deinit s = exit_passes alloc deinit 8 s"

lemma memory_without_roots:
  assumes "memory_ok s ext" "c_roots s = []" "map_of (c_heap s) p \<noteq> None"
  shows "fixed_at (c_heap s) p \<or> p \<in> live_objs (c_heap s)"
  using assms by (auto simp: memory_ok_def roots_ok_def fixed_at_def live_objs_def split: if_splits)

lemma collect_bounded:
  assumes "memory_ok s ext" "dead_fin s ext \<longrightarrow> quiet deinit" "\<forall>p \<in> live_objs (c_heap s). count_at (c_heap s) p + 2 < 2 ^ 48"
  shows "(\<exists>s'. cc_collect alloc deinit force s = Some (Ok s') \<and> collected s ext force s') \<or>
    (\<exists>msg. cc_collect alloc deinit force s = Some (Panic msg 0 0) \<and> excused msg \<and> dead_fin s ext)"
  by (rule collect_cases [OF assms(1)]) (use assms(2,3) in blast)+

lemma exit_keeps_reached:
  assumes m: "memory_ok s ext" and q: "dead_fin s ext \<longrightarrow> quiet deinit"
    and room: "\<forall>p \<in> live_objs (c_heap s). count_at (c_heap s) p + 2 < 2 ^ 48"
  shows "(\<exists>s'. cc_at_exit alloc deinit s = Some (Ok s') \<and> memory_ok s' ext \<and> c_roots s' = [] \<and>
      live_objs (c_heap s') = reached (c_heap s) (held ext)) \<or>
    (\<exists>msg. cc_at_exit alloc deinit s = Some (Panic msg 0 0) \<and> excused msg \<and> dead_fin s ext)"
proof -
  have start: "cc_at_exit alloc deinit s = then_do (cc_collect alloc deinit True s) (exit_passes alloc deinit 7)"
    using exit_passes.simps(2) [of alloc deinit 7 s] by (simp add: cc_at_exit_def)
  have second: "exit_passes alloc deinit 7 s1 = then_do (cc_collect alloc deinit True s1) (\<lambda>s.
      if c_roots s = [] then Some (Ok s) else exit_passes alloc deinit 6 s)" for s1
    using exit_passes.simps(2) [of alloc deinit 6 s1] by simp
  from collect_bounded [OF m q room, of alloc True] show ?thesis
  proof (elim disjE exE conjE)
    fix s1 assume c1: "cc_collect alloc deinit True s = Some (Ok s1)" "collected s ext True s1"
    have m1: "memory_ok s1 ext" and reach: "reached (c_heap s1) (held ext) = reached (c_heap s) (held ext)"
      and clean: "\<forall>p \<in> live_objs (c_heap s1) - reached (c_heap s1) (held ext). \<not> has_fin (c_heap s1) p"
      using c1(2) by (simp_all add: collected_def Let_def)
    then have no: "\<not> dead_fin s1 ext" by (simp add: dead_fin_def)
    have "\<forall>p \<in> live_objs (c_heap s1). count_at (c_heap s1) p + 2 < 2 ^ 48"
    proof
      fix p assume "p \<in> live_objs (c_heap s1)"
      then have "p \<in> live_objs (c_heap s)" "count_at (c_heap s1) p \<le> count_at (c_heap s) p"
        using c1(2) by (auto simp: collected_def Let_def)
      then show "count_at (c_heap s1) p + 2 < 2 ^ 48" using room by (meson add_le_mono1 le_less_trans)
    qed
    from collect_bounded [OF m1 _ this, of deinit alloc True] no obtain s2 where
      c2: "cc_collect alloc deinit True s1 = Some (Ok s2)" "collected s1 ext True s2" by blast
    then have "memory_ok s2 ext" "live_objs (c_heap s2) = reached (c_heap s) (held ext)" "c_roots s2 = []"
      using clean reach by (simp_all add: collected_def Let_def)
    then show ?thesis using start second c1(1) c2(1) by simp
  qed (simp add: start)
qed

end
