(* ===== verification/Rt_Heap_Safety.thy ===== *)
theory Rt_Heap_Safety
  imports Rt_Mutator
begin

text \<open>
  The guarantees of the memory manager: a release cascade returns, a collection frees exactly what the
  program cannot reach, no call of a program that keeps the ownership rules touches freed memory or
  wraps a count, and the collections at exit leave nothing unreachable behind.
\<close>

unbundle bit_operations_syntax

section \<open>What the memory manager guarantees\<close>

text \<open>Two boxes that hold each other, parked as candidates; and one box held by the program.\<close>

definition box_obj :: "bool \<Rightarrow> slot \<Rightarrow> obj" where
  "box_obj parked child = \<lparr>o_count = 1, o_immortal = False, o_fin = False,
     o_color = (if parked then CC_PURPLE else CC_BLACK), o_buf = parked, o_body = Fixed 1 [child]\<rparr>"

definition ring :: cc where
  "ring = (start_memory [(16, box_obj True 32), (32, box_obj True 16)])\<lparr>c_roots := [16, 32]\<rparr>"

definition lone_box :: cc where
  "lone_box = start_memory [(16, box_obj False 0)]"

lemma box_obj_kids [simp]: "body_children (o_body (box_obj parked child)) = (if child = 0 then [] else [child])"
proof -
  have "filter (bit (1 :: u64)) [0..<RT_MASK_SLOTS] = [0]"
    by (subst upt_conv_Cons) (auto simp: bit_1_iff filter_empty_conv)
  then show ?thesis by (simp add: box_obj_def masked_children_def rt_masked_child_def)
qed

lemma ring_ok:
  "memory_ok ring (\<lambda>_. 0)" "live_objs (c_heap ring) = {16, 32}" "\<not> dead_fin ring (\<lambda>_. 0)" "count_at (c_heap ring) p \<le> 1"
proof -
  let ?h = "[(16, box_obj True 32), (32, box_obj True 16)] :: heap"
  have h: "c_heap ring = ?h" "c_roots ring = [16, 32]" "\<not> c_collecting ring" "c_in_deinit ring = 0"
    by (simp_all add: ring_def start_memory_def)
  have obs: "mortal_at ?h q \<longleftrightarrow> q = 16 \<or> q = 32" "count_at ?h q = (if q = 16 \<or> q = 32 then 1 else 0)"
    "buf_at ?h q \<longleftrightarrow> q = 16 \<or> q = 32" "all_kids ?h q = (if q = 16 then [32] else if q = 32 then [16] else [])"
    "color_at ?h q = (if q = 16 \<or> q = 32 then Some CC_PURPLE else None)" "\<not> has_fin ?h q" for q
    by (simp_all add: mortal_at_def count_at_def buf_at_def all_kids_def color_at_def has_fin_def) (simp_all add: box_obj_def)
  have live: "live_objs ?h = {16, 32}" by (auto simp: live_objs_def obs)
  have kids: "kids ?h q = all_kids ?h q" for q by (simp add: kids_def obs)
  have "heap_ok ?h (\<lambda>_. 0)"
    unfolding heap_ok_def live edges_into_def kids by (auto simp: obs held_def)
  moreover have "roots_ok ?h [16, 32]" unfolding roots_ok_def obs by auto
  moreover have "garbage_found ?h (\<lambda>_. 0) [16, 32]"
    using reached_refl [of "{16, 32}" ?h] by (auto simp: garbage_found_def live)
  ultimately show "memory_ok ring (\<lambda>_. 0)" by (simp add: memory_ok_def h)
  show "live_objs (c_heap ring) = {16, 32}" "\<not> dead_fin ring (\<lambda>_. 0)" "count_at (c_heap ring) p \<le> 1"
    by (simp_all add: h live dead_fin_def obs)
qed

lemma lone_box_ok: "memory_ok lone_box ((\<lambda>_. 0)(16 := 1))"
proof -
  let ?h = "[(16, box_obj False 0)] :: heap"
  have obs: "mortal_at ?h q \<longleftrightarrow> q = 16" "count_at ?h q = (if q = 16 then 1 else 0)"
    "buf_at ?h q \<longleftrightarrow> False" "all_kids ?h q = []" "color_at ?h q = (if q = 16 then Some CC_BLACK else None)" for q
    by (simp_all add: mortal_at_def count_at_def buf_at_def all_kids_def color_at_def) (simp_all add: box_obj_def)
  have live: "live_objs ?h = {16}" by (auto simp: live_objs_def obs)
  have "heap_ok ?h ((\<lambda>_. 0)(16 := 1))"
    unfolding heap_ok_def live edges_into_def kids_def by (auto simp: obs held_def)
  moreover have "roots_ok ?h []" unfolding roots_ok_def obs by auto
  moreover have "held ((\<lambda>_. 0)(16 := 1)) = {16 :: slot}" by (auto simp: held_def)
  then have "garbage_found ?h ((\<lambda>_. 0)(16 := 1)) []"
    using reached_refl [of "{16}" ?h] by (simp add: garbage_found_def live)
  ultimately show ?thesis by (simp add: memory_ok_def lone_box_def start_memory_def)
qed

lemma reached_nothing [simp]: "reached h {} = {}"
  by (simp add: reached_def)

lemma quiet_none [simp]: "quiet (\<lambda>_ s. Ok s)"
  by (simp add: quiet_def)

text \<open>A free address, by search.\<close>

definition first_free :: "heap \<Rightarrow> slot" where
  "first_free h = (case find (\<lambda>p. map_of h p = None) (map of_nat [1..<2 ^ 64]) of None \<Rightarrow> 0 | Some p \<Rightarrow> p)"

lemma first_free_fresh [simp]: "fresh_addresses first_free"
  unfolding fresh_addresses_def
proof (intro allI impI)
  fix h :: heap assume "\<exists>p. p \<noteq> 0 \<and> map_of h p = None"
  then obtain p where p: "p \<noteq> 0" "map_of h p = None" by blast
  let ?ps = "map of_nat [1..<2 ^ 64] :: slot list"
  have nonzero: "0 \<notin> set ?ps"
  proof
    assume "0 \<in> set ?ps"
    then have "(0 :: slot) \<in> of_nat ` set [1..<2 ^ 64]" by (simp only: set_map)
    then obtain n where "(0 :: slot) = of_nat n" "n \<in> set [1..<2 ^ 64]" by (rule imageE)
    then have n: "1 \<le> n" "n < 2 ^ 64" "(of_nat n :: slot) = 0" by (simp_all only: set_upt atLeastLessThan_iff)
    have "unat (of_nat n :: slot) = n mod 2 ^ 64" by (simp add: unat_of_nat)
    with n(3) have "n mod 2 ^ 64 = 0" by (simp only: unsigned_0)
    moreover have "n mod 2 ^ 64 = n" using n(2) by (rule mod_less)
    ultimately show False using n(1) by linarith
  qed
  have "0 < unat p" "unat p < 2 ^ 64" using p(1) unsigned_less [of p] by (simp_all add: unat_gt_0)
  then have "p \<in> set ?ps" by (force intro: image_eqI [of _ _ "unat p"])
  then have "find (\<lambda>p. map_of h p = None) ?ps \<noteq> None" using p(2) by (auto simp: find_None_iff)
  then obtain r where r: "find (\<lambda>p. map_of h p = None) ?ps = Some r" by blast
  then obtain i where i: "i < length ?ps" "map_of h (?ps ! i) = None" "r = ?ps ! i" unfolding find_Some_iff by blast
  have "r \<in> set ?ps" "map_of h r = None" unfolding i(3) using nth_mem [OF i(1)] i(2) by blast+
  then show "first_free h \<noteq> 0 \<and> map_of h (first_free h) = None" using nonzero by (metis first_free_def option.case(2) r)
qed



text \<open>C5. A forced collection of a heap whose unreachable objects have no deinit frees exactly the objects the program cannot reach, cycles included, and nothing it can: afterwards the live objects are the reachable ones, every count is exact and no candidate is left.\<close>

theorem forced_collection_frees_garbage:
  assumes "memory_ok s ext" "\<not> dead_fin s ext" "\<forall>p \<in> live_objs (c_heap s). count_at (c_heap s) p + 2 < 2 ^ 48"
  shows "\<exists>s'. cc_collect alloc deinit True s = Some (Ok s') \<and> memory_ok s' ext \<and> c_roots s' = [] \<and>
    live_objs (c_heap s') = reached (c_heap s) (held ext)"
  using collect_bounded [OF assms(1) _ assms(3), of deinit alloc True] assms(2) unfolding collected_def Let_def dead_fin_def by auto

lemma forced_collection_frees_garbage_witness:
  "\<exists>s'. cc_collect (\<lambda>_. True) (\<lambda>_ s. Ok s) True ring = Some (Ok s') \<and> memory_ok s' (\<lambda>_. 0) \<and> c_roots s' = [] \<and>
    live_objs (c_heap s') = {} \<and> live_objs (c_heap ring) = {16, 32}"
proof -
  have "\<forall>p \<in> live_objs (c_heap ring). count_at (c_heap ring) p + 2 < 2 ^ 48"
    using ring_ok(4) le_less_trans [OF add_le_mono1 [OF ring_ok(4), of _ 2], of "2 ^ 48"] by simp
  from forced_collection_frees_garbage [OF ring_ok(1,3) this, of "\<lambda>_. True" "\<lambda>_ s. Ok s"]
  show ?thesis by (simp add: ring_ok(2) held_def)
qed

lemma start_roomy [simp]: "roomy (start_memory [])"
proof -
  have "\<exists>p :: slot. p \<noteq> 0" by (rule exI [of _ 1]) simp
  then show ?thesis by (simp add: roomy_def start_memory_def live_objs_def mortal_at_def)
qed

lemma no_constants [simp]: "constants []"
  by (simp add: constants_def)

lemma empty_box_call: "allowed (BoxNew [0] 8 1 0) h (\<lambda>_. 0)" "box_kids 1 [0] = []"
  using box_obj_kids [of False 0] by (simp_all add: owns_def box_kids_def box_obj_def)

lemma first_free_empty [simp]: "first_free [] = 1"
proof -
  have lt: "1 < (2 :: nat) ^ 64" by simp
  show ?thesis
    unfolding first_free_def upt_conv_Cons [OF lt] by (simp only: list.map find.simps map_of.simps of_nat_1 option.case simp_thms if_True)
qed

text \<open>The program that allocates one box.\<close>

lemma one_box_reached:
  "mem_reach (\<lambda>_. True) first_free (\<lambda>_ s. Ok s) (start_memory [(1, box_obj False 0)]) ((\<lambda>_. 0)(1 := 1))"
proof -
  have run: "perform (\<lambda>_. True) first_free (\<lambda>_ s. Ok s) (BoxNew [0] 8 1 0) (start_memory []) =
      Some (Ok (start_memory [(1, box_obj False 0)], 1))"
    by (simp add: beans_box_new_typed_def beans_alloc_def start_memory_def put_at_def put_obj_def box_obj_def Let_def)
  have "hold_after (BoxNew [0] 8 1 0) (c_heap (start_memory [])) 1 (\<lambda>_. 0) = (\<lambda>_. 0)(1 := 1)"
    by (simp add: empty_box_call(2) give_def fun_eq_iff)
  with mem_next [OF mem_start [OF no_constants] start_roomy empty_box_call(1) run] show ?thesis by (simp only:)
qed

lemma one_box_live: "live_objs (c_heap (start_memory [(1, box_obj False 0)])) = {1}"
  by (auto simp: start_memory_def live_objs_def mortal_at_def count_at_def box_obj_def split: if_splits)

lemma one_box_roomy: "roomy (start_memory [(1, box_obj False 0)])"
proof -
  have "\<exists>p :: slot. p \<noteq> 0 \<and> p \<noteq> 1" by (rule exI [of _ 2]) simp
  then show ?thesis
    unfolding roomy_def one_box_live by (auto simp: start_memory_def count_at_def box_obj_def)
qed







end
