(* ===== verification/Rt_Chan.thy ===== *)
theory Rt_Chan
  imports Rt_Lists
begin

text \<open>
  Channels (\<^verbatim>\<open>BChan\<close> in \<^verbatim>\<open>src/runtime/beans_rt.c\<close>): a ring of values under a lock, with a line of
  parked fibers and a condition variable of blocked threads at either end. Every section between taking
  the lock and giving it up (by unlocking, parking or waiting) is one function; a program is any
  interleaving of such sections. The theorems say that values arrive in the order sent and that no
  wakeup is lost.
\<close>

unbundle bit_operations_syntax

section \<open>Lines of parked fibers\<close>

text \<open>
  A waiter is a record on the stack of the fiber that waits, so a fiber is in at most one line; its number
  stands for the record's address. \<open>None\<close> is the null pointer.
\<close>

record waiters =
  w_next :: "nat \<Rightarrow> nat option"
  w_signalled :: "nat \<Rightarrow> bool"

type_synonym wline = "nat option \<times> nat option"

definition set_next :: "nat \<Rightarrow> nat option \<Rightarrow> waiters \<Rightarrow> waiters" where
  "set_next f x ws = ws\<lparr>w_next := (w_next ws)(f := x)\<rparr>"

definition set_signalled :: "nat \<Rightarrow> bool \<Rightarrow> waiters \<Rightarrow> waiters" where
  "set_signalled f b ws = ws\<lparr>w_signalled := (w_signalled ws)(f := b)\<rparr>"

definition fiber_line_push :: "nat \<Rightarrow> wline \<times> waiters \<Rightarrow> wline \<times> waiters" where
  "fiber_line_push waiter x =
     (case x of ((front, tail), ws) \<Rightarrow>
        let ws = set_next waiter None ws in
        case tail of
          Some t \<Rightarrow> ((front, Some waiter), set_next t (Some waiter) ws)
        | None \<Rightarrow> ((Some waiter, Some waiter), ws))"

definition fiber_line_pop :: "wline \<times> waiters \<Rightarrow> ((wline \<times> waiters) \<times> nat) option" where
  "fiber_line_pop x =
     (case x of ((front, tail), ws) \<Rightarrow>
        case front of
          None \<Rightarrow> None
        | Some waiter \<Rightarrow>
            let front' = w_next ws waiter;
                tail' = (if front' = None then None else tail) in
            Some (((front', tail'), set_signalled waiter True (set_next waiter None ws)), waiter))"

text \<open>The search of a cancelled waiter, with the record before it.\<close>

partial_function (option) line_find :: "(nat \<Rightarrow> nat option) \<Rightarrow> nat \<Rightarrow> nat option \<Rightarrow> nat option \<Rightarrow> (nat option \<times> bool) option" where
  "line_find nx waiter previous cursor =
     (if cursor = None then Some (previous, False)
      else if cursor = Some waiter then Some (previous, True)
      else line_find nx waiter cursor (nx (the cursor)))"

definition fiber_line_remove :: "nat \<Rightarrow> wline \<times> waiters \<Rightarrow> (wline \<times> waiters) option" where
  "fiber_line_remove waiter x =
     (case x of ((front, tail), ws) \<Rightarrow>
        case line_find (w_next ws) waiter None front of
          None \<Rightarrow> None
        | Some (previous, False) \<Rightarrow> Some x
        | Some (previous, True) \<Rightarrow>
            let after = w_next ws waiter;
                front' = (if previous = None then after else front);
                ws' = (case previous of None \<Rightarrow> ws | Some p \<Rightarrow> set_next p after ws);
                tail' = (if tail = Some waiter then previous else tail) in
            Some ((front', tail'), set_next waiter None ws'))"

subsection \<open>A line stands for a list\<close>

fun chain :: "(nat \<Rightarrow> nat option) \<Rightarrow> nat option \<Rightarrow> nat list \<Rightarrow> bool" where
  "chain nx p [] \<longleftrightarrow> p = None"
| "chain nx p (x # xs) \<longleftrightarrow> p = Some x \<and> chain nx (nx x) xs"

definition line_of :: "waiters \<Rightarrow> wline \<Rightarrow> nat list \<Rightarrow> bool" where
  "line_of ws l xs \<longleftrightarrow> distinct xs \<and> chain (w_next ws) (fst l) xs \<and> snd l = (if xs = [] then None else Some (last xs))"

lemma chain_cong: "(\<And>x. x \<in> set xs \<Longrightarrow> nx' x = nx x) \<Longrightarrow> chain nx' p xs = chain nx p xs"
  by (induction xs arbitrary: p) auto

lemma chain_upd [simp]: "f \<notin> set xs \<Longrightarrow> chain (nx(f := q)) p xs = chain nx p xs"
  by (rule chain_cong) auto

lemma line_frame:
  "line_of ws l xs \<Longrightarrow> (\<And>x. x \<in> set xs \<Longrightarrow> w_next ws' x = w_next ws x) \<Longrightarrow> line_of ws' l xs"
  using chain_cong [of xs "w_next ws'" "w_next ws"] by (simp add: line_of_def)

lemma chain_snoc:
  "distinct xs \<Longrightarrow> x \<notin> set xs \<Longrightarrow> xs \<noteq> [] \<Longrightarrow> chain nx p xs \<Longrightarrow> chain (nx(x := None, last xs := Some x)) p (xs @ [x])"
proof (induction xs arbitrary: p)
  case (Cons y ys)
  show ?case
  proof (cases ys)
    case (Cons z zs)
    have "y \<noteq> last ys" "y \<noteq> x" using Cons.prems Cons last_in_set [of ys] by auto
    then show ?thesis using Cons.IH [of "nx y"] Cons.prems Cons by auto
  qed (use Cons.prems in simp)
qed simp

lemma push_line:
  assumes "line_of ws l xs" "f \<notin> set xs"
  shows "\<exists>l' ws'. fiber_line_push f (l, ws) = (l', ws') \<and> line_of ws' l' (xs @ [f]) \<and> w_signalled ws' = w_signalled ws \<and>
    (\<forall>y. y \<noteq> f \<and> y \<notin> set xs \<longrightarrow> w_next ws' y = w_next ws y)"
proof (cases "xs = []")
  case True
  then show ?thesis using assms by (cases l) (simp add: fiber_line_push_def line_of_def set_next_def Let_def)
next
  case False
  then have "last xs \<noteq> f" using assms(2) last_in_set [of xs] by auto
  then show ?thesis
    using False assms chain_snoc [of xs f "w_next ws" "fst l"] last_in_set [of xs]
    by (cases l) (auto simp: fiber_line_push_def line_of_def set_next_def Let_def)
qed

lemma pop_line:
  assumes "line_of ws l xs"
  shows "case xs of
      [] \<Rightarrow> fiber_line_pop (l, ws) = None
    | f # fs \<Rightarrow> \<exists>l' ws'. fiber_line_pop (l, ws) = Some ((l', ws'), f) \<and> line_of ws' l' fs \<and>
        w_signalled ws' = (w_signalled ws)(f := True) \<and> (\<forall>y. y \<noteq> f \<longrightarrow> w_next ws' y = w_next ws y)"
proof (cases xs)
  case Nil
  then show ?thesis using assms by (cases l) (simp add: fiber_line_pop_def line_of_def)
next
  case (Cons f fs)
  have a: "distinct (f # fs)" "chain (w_next ws) (w_next ws f) fs" "l = (Some f, Some (last (f # fs)))"
    using assms Cons by (cases l; simp add: line_of_def)+
  have "chain ((w_next ws)(f := None)) (w_next ws f) fs" using a by simp
  moreover have "w_next ws f = None \<longleftrightarrow> fs = []" using a(2) by (cases fs) auto
  ultimately show ?thesis
    using a Cons by (auto simp: fiber_line_pop_def line_of_def set_next_def set_signalled_def Let_def)
qed

lemma find_line:
  "chain (w_next ws) p xs \<Longrightarrow> distinct xs \<Longrightarrow> f \<in> set xs \<Longrightarrow>
    line_find (w_next ws) f prev p = Some (if takeWhile (\<lambda>x. x \<noteq> f) xs = [] then prev else Some (last (takeWhile (\<lambda>x. x \<noteq> f) xs)), True)"
proof (induction xs arbitrary: p prev)
  case (Cons x xs)
  then have p: "p = Some x" "chain (w_next ws) (w_next ws x) xs" by auto
  show ?case
  proof (cases "x = f")
    case True
    then show ?thesis using p by (simp add: line_find.simps)
  next
    case False
    then have "line_find (w_next ws) f prev p = line_find (w_next ws) f (Some x) (w_next ws x)" using p by (simp add: line_find.simps [of "w_next ws" f prev])
    then show ?thesis using Cons.IH [OF p(2), of "Some x"] Cons.prems False by simp
  qed
qed simp

lemma chain_split:
  "distinct (us @ f # vs) \<Longrightarrow> us \<noteq> [] \<Longrightarrow> chain nx p (us @ f # vs) \<Longrightarrow> chain (nx(last us := nx f, f := None)) p (us @ vs)"
proof (induction us arbitrary: p)
  case (Cons u us)
  then have p: "p = Some u" "chain nx (nx u) (us @ f # vs)" "u \<noteq> f" "u \<notin> set vs" "f \<notin> set vs" by auto
  show ?case
  proof (cases "us = []")
    case True
    then have "chain nx (nx f) vs" "nx u = Some f" using p(2) by auto
    then have "chain (nx(u := nx f, f := None)) (nx f) vs" using p(4,5) chain_upd [of f vs "nx(u := nx f)" None] chain_upd [of u vs nx "nx f"] by blast
    moreover have "(nx(u := nx f, f := None)) u = nx f" using p(3) by simp
    ultimately show ?thesis using True p(1) by (simp del: fun_upd_apply)
  next
    case False
    then have "u \<noteq> last us" using Cons.prems(1) last_in_set [of us] by auto
    then show ?thesis using Cons.IH [of "nx u"] Cons.prems(1) False p by simp
  qed
qed simp

text \<open>Leaving from the middle keeps everyone else in order.\<close>

lemma remove_line:
  assumes "line_of ws l xs" "f \<in> set xs"
  shows "\<exists>l' ws'. fiber_line_remove f (l, ws) = Some (l', ws') \<and> line_of ws' l' (remove1 f xs) \<and>
    w_signalled ws' = w_signalled ws \<and> (\<forall>y. y \<notin> set xs \<longrightarrow> w_next ws' y = w_next ws y)"
proof -
  from assms(2) obtain us vs where xs: "xs = us @ f # vs" "f \<notin> set us" by (meson split_list_first)
  have "xs \<noteq> []" using assms(2) by auto
  then obtain front where l: "l = (front, Some (last xs))" using assms(1) by (cases l) (auto simp: line_of_def)
  then have a: "distinct xs" "chain (w_next ws) front xs" using assms by (simp_all add: line_of_def)
  have tw: "takeWhile (\<lambda>x. x \<noteq> f) xs = us" using xs by (auto simp: takeWhile_append takeWhile_eq_all_conv)
  have find: "line_find (w_next ws) f None front = Some (if us = [] then None else Some (last us), True)"
    using find_line [OF a(2,1) assms(2), of None] by (simp add: tw)
  have rem: "remove1 f xs = us @ vs" using xs by (simp add: remove1_append)
  have dist: "distinct (us @ vs)" "f \<notin> set vs" "last xs = (if vs = [] then f else last vs)" using a(1) xs by auto
  have lastf: "last xs = f \<longleftrightarrow> vs = []" using dist(2,3) last_in_set [of vs] by auto
  show ?thesis
  proof (cases "us = []")
    case True
    then have "chain (w_next ws) (w_next ws f) vs" using a(2) xs by simp
    then have "chain ((w_next ws)(f := None)) (w_next ws f) vs" using dist(2) chain_upd [of f vs "w_next ws" None] by blast
    then show ?thesis
      unfolding rem l using find True dist lastf assms(2)
      by (auto simp: fiber_line_remove_def line_of_def set_next_def Let_def)
  next
    case False
    then have lastu: "last us \<noteq> f" "last us \<in> set us" using xs(2) last_in_set [of us] by auto
    from chain_split [OF a(1) [unfolded xs(1)] False a(2) [unfolded xs(1)]]
    show ?thesis
      unfolding rem l using find False dist lastf lastu xs(1) assms(2)
      by (auto simp: fiber_line_remove_def line_of_def set_next_def Let_def)
  qed
qed

section \<open>Channels\<close>

text \<open>\<^verbatim>\<open>beans_fiber_current()\<close> tells a fiber from a plain thread. The threads blocked on a condition are a list.\<close>

datatype task = Fiber nat | Thread nat

record bchan =
  ch_q :: "elem list"
  ch_head :: nat
  ch_count :: nat
  ch_cap :: nat
  ch_closed :: bool
  ch_stride :: int
  ch_mask :: u64
  ch_send :: wline
  ch_recv :: wline
  ch_waiters :: waiters
  ch_can_send :: "nat list"
  ch_can_recv :: "nat list"

text \<open>\<^verbatim>\<open>calloc\<close> refuses a product that does not fit the address type.\<close>

definition calloc :: "(u64 \<Rightarrow> bool) \<Rightarrow> nat \<Rightarrow> nat \<Rightarrow> bool" where
  "calloc alloc n width \<longleftrightarrow> n * width < 2 ^ 64 \<and> alloc (of_nat (n * width))"

definition chan_fresh :: "nat \<Rightarrow> elem \<Rightarrow> int \<Rightarrow> u64 \<Rightarrow> bchan" where
  "chan_fresh cap' zero stride ptr_mask =
     \<lparr>ch_q = replicate cap' zero, ch_head = 0, ch_count = 0, ch_cap = cap', ch_closed = False, ch_stride = stride,
      ch_mask = ptr_mask, ch_send = (None, None), ch_recv = (None, None),
      ch_waiters = \<lparr>w_next = (\<lambda>_. None), w_signalled = (\<lambda>_. False)\<rparr>, ch_can_send = [], ch_can_recv = []\<rparr>"

definition beans_chan_new :: "(u64 \<Rightarrow> bool) \<Rightarrow> int \<Rightarrow> bool \<Rightarrow> bchan rt" where
  "beans_chan_new alloc cap' elem_ptr =
     (let n = nat (if cap' > 0 then cap' else 1) in
      if \<not> calloc alloc n 8 then out_of_memory 0 0
      else Ok (chan_fresh n [0] (-8) (if elem_ptr then 1 else 0)))"

definition beans_chan_new_typed :: "(u64 \<Rightarrow> bool) \<Rightarrow> int \<Rightarrow> int \<Rightarrow> u64 \<Rightarrow> bchan rt" where
  "beans_chan_new_typed alloc cap' stride ptr_mask =
     (if stride \<le> 0 \<or> stride > 2 ^ 30 then Panic (asc ''invalid channel element size'') 0 0
      else
        let capacity = (if cap' > 0 then cap' else 1) in
        if capacity > 2 ^ 58 div stride then Panic (asc ''channel capacity too large'') 0 0
        else if \<not> calloc alloc (nat capacity) (nat stride) then out_of_memory 0 0
        else Ok (chan_fresh (nat capacity) (replicate ((nat stride + 7) div 8) 0) stride ptr_mask))"

text \<open>
  The start of \<^verbatim>\<open>fiber_line_wait\<close>, a fresh waiter at the end of the line, and what the fiber does when it
  runs again: a signal that has landed wins over a cancel, and a cancelled waiter leaves the line.
\<close>

definition fiber_line_enter :: "nat \<Rightarrow> wline \<times> waiters \<Rightarrow> wline \<times> waiters" where
  "fiber_line_enter f x = fiber_line_push f (fst x, set_signalled f False (set_next f None (snd x)))"

datatype woken = Resumed | StillParked | Cancelled

definition fiber_line_woken :: "bool \<Rightarrow> nat \<Rightarrow> wline \<times> waiters \<Rightarrow> (woken \<times> wline \<times> waiters) option" where
  "fiber_line_woken cancelled f x =
     (if w_signalled (snd x) f then Some (Resumed, x)
      else if cancelled then map_option (Pair Cancelled) (fiber_line_remove f x)
      else Some (StillParked, x))"

text \<open>
  \<^verbatim>\<open>pthread_cond_signal\<close> wakes some of the blocked threads; \<open>signal\<close> answers those that stay blocked.
\<close>

definition signal_law :: "(nat list \<Rightarrow> nat list) \<Rightarrow> bool" where
  "signal_law signal \<longleftrightarrow>
     (\<forall>ts. distinct ts \<longrightarrow> distinct (signal ts) \<and> set (signal ts) \<subseteq> set ts \<and> (ts \<noteq> [] \<longrightarrow> set (signal ts) \<noteq> set ts))"

definition chan_wake_receiver :: "(nat list \<Rightarrow> nat list) \<Rightarrow> bchan \<Rightarrow> bchan" where
  "chan_wake_receiver signal c =
     (case fiber_line_pop (ch_recv c, ch_waiters c) of
        Some ((l, ws), _) \<Rightarrow> c\<lparr>ch_recv := l, ch_waiters := ws\<rparr>
      | None \<Rightarrow> c\<lparr>ch_can_recv := signal (ch_can_recv c)\<rparr>)"

definition chan_wake_sender :: "(nat list \<Rightarrow> nat list) \<Rightarrow> bchan \<Rightarrow> bchan" where
  "chan_wake_sender signal c =
     (case fiber_line_pop (ch_send c, ch_waiters c) of
        Some ((l, ws), _) \<Rightarrow> c\<lparr>ch_send := l, ch_waiters := ws\<rparr>
      | None \<Rightarrow> c\<lparr>ch_can_send := signal (ch_can_send c)\<rparr>)"

text \<open>One turn of the waiting loops: ready, or the caller goes to wait and gives up the lock.\<close>

definition chan_send_wait :: "task \<Rightarrow> bchan \<Rightarrow> bool \<times> bchan" where
  "chan_send_wait me c =
     (if ch_count c < ch_cap c \<or> ch_closed c then (True, c)
      else case me of
        Fiber f \<Rightarrow> (case fiber_line_enter f (ch_send c, ch_waiters c) of (l, ws) \<Rightarrow> (False, c\<lparr>ch_send := l, ch_waiters := ws\<rparr>))
      | Thread n \<Rightarrow> (False, c\<lparr>ch_can_send := ch_can_send c @ [n]\<rparr>))"

definition chan_recv_wait :: "task \<Rightarrow> bchan \<Rightarrow> bool \<times> bchan" where
  "chan_recv_wait me c =
     (if ch_count c \<noteq> 0 \<or> ch_closed c then (True, c)
      else case me of
        Fiber f \<Rightarrow> (case fiber_line_enter f (ch_recv c, ch_waiters c) of (l, ws) \<Rightarrow> (False, c\<lparr>ch_recv := l, ch_waiters := ws\<rparr>))
      | Thread n \<Rightarrow> (False, c\<lparr>ch_can_recv := ch_can_recv c @ [n]\<rparr>))"

text \<open>The ring: a store behind the last value, and the load of the first.\<close>

definition chan_put :: "bchan \<Rightarrow> elem \<Rightarrow> bchan rt" where
  "chan_put c e =
     (if ch_cap c = 0 then Fault
      else
        let i = (ch_head c + ch_count c) mod ch_cap c in
        if i < length (ch_q c) then Ok (c\<lparr>ch_q := (ch_q c)[i := e], ch_count := ch_count c + 1\<rparr>) else Fault)"

definition chan_take :: "(elem \<Rightarrow> elem) \<Rightarrow> bchan \<Rightarrow> (bchan \<times> elem) rt" where
  "chan_take left_behind c =
     (if ch_cap c = 0 \<or> ch_head c \<ge> length (ch_q c) then Fault
      else
        let e = ch_q c ! ch_head c in
        Ok (c\<lparr>ch_q := (ch_q c)[ch_head c := left_behind e], ch_head := (ch_head c + 1) mod ch_cap c,
              ch_count := ch_count c - 1\<rparr>, e))"

text \<open>The values a send publishes to other threads once it is committed.\<close>

definition publish :: "bool \<Rightarrow> bchan \<Rightarrow> slot list \<Rightarrow> slot list" where
  "publish mt c vs = (if mt \<and> ch_mask c \<noteq> 0 then vs else [])"

datatype 'a held_lock = Returned 'a | Waiting

definition beans_chan_send_typed ::
    "(nat list \<Rightarrow> nat list) \<Rightarrow> bool \<Rightarrow> task \<Rightarrow> elem \<Rightarrow> bchan \<Rightarrow> (bchan \<times> bool held_lock \<times> slot list) rt" where
  "beans_chan_send_typed signal mt me e c =
     (case chan_send_wait me c of (ready, c) \<Rightarrow>
        if \<not> ready then Ok (c, Waiting, [])
        else if ch_closed c then Ok (c, Returned False, [])
        else
          rt_bind (chan_put c e) (\<lambda>c'.
            Ok (chan_wake_receiver signal c', Returned True, publish mt c (masked_children e (ch_mask c) False))))"

definition beans_chan_send ::
    "(nat list \<Rightarrow> nat list) \<Rightarrow> bool \<Rightarrow> task \<Rightarrow> slot \<Rightarrow> bchan \<Rightarrow> (bchan \<times> bool held_lock \<times> slot list) rt" where
  "beans_chan_send signal mt me v c =
     (case chan_send_wait me c of (ready, c) \<Rightarrow>
        if \<not> ready then Ok (c, Waiting, [])
        else if ch_closed c then Ok (c, Returned False, [])
        else rt_bind (chan_put c [v]) (\<lambda>c'. Ok (chan_wake_receiver signal c', Returned True, publish mt c [v])))"

definition beans_chan_recv_typed ::
    "(nat list \<Rightarrow> nat list) \<Rightarrow> task \<Rightarrow> bchan \<Rightarrow> (bchan \<times> elem option held_lock) rt" where
  "beans_chan_recv_typed signal me c =
     (case chan_recv_wait me c of (ready, c) \<Rightarrow>
        if \<not> ready then Ok (c, Waiting)
        else if ch_count c = 0 then Ok (c, Returned None)
        else rt_bind (chan_take (map (\<lambda>_. 0)) c) (\<lambda>(c, e). Ok (chan_wake_sender signal c, Returned (Some e))))"

definition beans_chan_recv ::
    "(nat list \<Rightarrow> nat list) \<Rightarrow> task \<Rightarrow> bchan \<Rightarrow> (bchan \<times> slot option held_lock) rt" where
  "beans_chan_recv signal me c =
     (case chan_recv_wait me c of (ready, c) \<Rightarrow>
        if \<not> ready then Ok (c, Waiting)
        else if ch_count c = 0 then Ok (c, Returned None)
        else rt_bind (chan_take (\<lambda>e. e) c) (\<lambda>(c, e). Ok (chan_wake_sender signal c, Returned (Some (hd e)))))"

definition beans_chan_try_send_typed ::
    "(nat list \<Rightarrow> nat list) \<Rightarrow> bool \<Rightarrow> elem \<Rightarrow> bchan \<Rightarrow> (bchan \<times> bool \<times> slot list) rt" where
  "beans_chan_try_send_typed signal mt e c =
     (if ch_closed c \<or> ch_count c = ch_cap c then Ok (c, False, [])
      else
        rt_bind (chan_put c e) (\<lambda>c'.
          Ok (chan_wake_receiver signal c', True, publish mt c (masked_children e (ch_mask c) False))))"

definition beans_chan_try_send ::
    "(nat list \<Rightarrow> nat list) \<Rightarrow> bool \<Rightarrow> slot \<Rightarrow> bchan \<Rightarrow> (bchan \<times> bool \<times> slot list) rt" where
  "beans_chan_try_send signal mt v c =
     (if ch_closed c \<or> ch_count c = ch_cap c then Ok (c, False, [])
      else rt_bind (chan_put c [v]) (\<lambda>c'. Ok (chan_wake_receiver signal c', True, publish mt c [v])))"

definition beans_chan_try_recv_typed :: "(nat list \<Rightarrow> nat list) \<Rightarrow> bchan \<Rightarrow> (bchan \<times> elem option) rt" where
  "beans_chan_try_recv_typed signal c =
     (if ch_count c = 0 then Ok (c, None)
      else rt_bind (chan_take (map (\<lambda>_. 0)) c) (\<lambda>(c, e). Ok (chan_wake_sender signal c, Some e)))"

definition beans_chan_try_recv :: "(nat list \<Rightarrow> nat list) \<Rightarrow> bchan \<Rightarrow> (bchan \<times> slot option) rt" where
  "beans_chan_try_recv signal c =
     (if ch_count c = 0 then Ok (c, None)
      else rt_bind (chan_take (\<lambda>e. e) c) (\<lambda>(c, e). Ok (chan_wake_sender signal c, Some (hd e))))"

text \<open>Closing wakes everybody.\<close>

partial_function (option) line_wake_all :: "wline \<times> waiters \<Rightarrow> (wline \<times> waiters) option" where
  "line_wake_all x = (let r = fiber_line_pop x in if r = None then Some x else line_wake_all (fst (the r)))"

definition beans_chan_close :: "bchan \<Rightarrow> bchan option" where
  "beans_chan_close c =
     Option.bind (line_wake_all (ch_send c, ch_waiters c)) (\<lambda>(sl, ws).
     Option.bind (line_wake_all (ch_recv c, ws)) (\<lambda>(rl, ws).
       Some (c\<lparr>ch_closed := True, ch_send := sl, ch_recv := rl, ch_waiters := ws, ch_can_send := [], ch_can_recv := []\<rparr>)))"

text \<open>A gate is an empty channel: opening it is closing, waiting on it is the closed-only half of a receive.\<close>

definition beans_gate_new :: "(u64 \<Rightarrow> bool) \<Rightarrow> bchan rt" where
  "beans_gate_new alloc = beans_chan_new alloc 1 False"

definition beans_gate_open :: "bchan \<Rightarrow> bchan option" where
  "beans_gate_open c = beans_chan_close c"

definition beans_gate_is_open :: "bchan \<Rightarrow> bool" where
  "beans_gate_is_open c = ch_closed c"

definition beans_gate_wait :: "task \<Rightarrow> bchan \<Rightarrow> bchan \<times> unit held_lock" where
  "beans_gate_wait me c =
     (if ch_closed c then (c, Returned ())
      else case me of
        Fiber f \<Rightarrow> (case fiber_line_enter f (ch_recv c, ch_waiters c) of (l, ws) \<Rightarrow> (c\<lparr>ch_recv := l, ch_waiters := ws\<rparr>, Waiting))
      | Thread n \<Rightarrow> (c\<lparr>ch_can_recv := ch_can_recv c @ [n]\<rparr>, Waiting))"

section \<open>The ring as a queue\<close>

definition ring_ok :: "bchan \<Rightarrow> bool" where
  "ring_ok c \<longleftrightarrow> 0 < ch_cap c \<and> length (ch_q c) = ch_cap c \<and> ch_head c < ch_cap c \<and> ch_count c \<le> ch_cap c"

definition chan_vals :: "bchan \<Rightarrow> elem list" where
  "chan_vals c = map (\<lambda>i. ch_q c ! ((ch_head c + i) mod ch_cap c)) [0..<ch_count c]"

lemma length_vals [simp]: "length (chan_vals c) = ch_count c"
  by (simp add: chan_vals_def)

lemma ring_slot_inj:
  assumes "i < n" "j < n" "(h + i) mod n = (h + j) mod (n :: nat)"
  shows "i = j"
proof -
  have up: "a = b" if "a \<le> b" "b < n" "(h + a) mod n = (h + b) mod n" for a b
  proof -
    have "n dvd (h + b) - (h + a)" using that mod_eq_dvd_iff_nat [of "h + a" "h + b" n] by simp
    then have "n dvd b - a" by simp
    then show ?thesis using that dvd_imp_le [of n "b - a"] by linarith
  qed
  show ?thesis using up [of i j] up [of j i] assms by (cases "i \<le> j") auto
qed

lemma put_vals:
  assumes "ring_ok c" "ch_count c < ch_cap c"
  shows "\<exists>q'. chan_put c e = Ok (c\<lparr>ch_q := q', ch_count := ch_count c + 1\<rparr>) \<and> ring_ok (c\<lparr>ch_q := q', ch_count := ch_count c + 1\<rparr>) \<and>
    chan_vals (c\<lparr>ch_q := q', ch_count := ch_count c + 1\<rparr>) = chan_vals c @ [e]"
proof -
  let ?i = "(ch_head c + ch_count c) mod ch_cap c" and ?q = "(ch_q c)[(ch_head c + ch_count c) mod ch_cap c := e]"
  have i: "?i < length (ch_q c)" using assms(1) by (simp add: ring_ok_def)
  have "?q ! ((ch_head c + j) mod ch_cap c) = ch_q c ! ((ch_head c + j) mod ch_cap c)" if "j < ch_count c" for j
    using ring_slot_inj [of j "ch_cap c" "ch_count c" "ch_head c"] that assms(2) by (intro nth_list_update_neq) auto
  then have "chan_vals (c\<lparr>ch_q := ?q, ch_count := ch_count c + 1\<rparr>) = chan_vals c @ [e]"
    using i by (simp add: chan_vals_def)
  moreover have "ring_ok (c\<lparr>ch_q := ?q, ch_count := ch_count c + 1\<rparr>)" using assms by (simp add: ring_ok_def)
  moreover have "chan_put c e = Ok (c\<lparr>ch_q := ?q, ch_count := ch_count c + 1\<rparr>)"
    using i assms(1) by (simp add: chan_put_def Let_def ring_ok_def)
  ultimately show ?thesis by blast
qed

lemma take_vals:
  assumes "ring_ok c" "0 < ch_count c"
  shows "\<exists>q' h'. chan_take f c = Ok (c\<lparr>ch_q := q', ch_head := h', ch_count := ch_count c - 1\<rparr>, hd (chan_vals c)) \<and>
    ring_ok (c\<lparr>ch_q := q', ch_head := h', ch_count := ch_count c - 1\<rparr>) \<and>
    chan_vals (c\<lparr>ch_q := q', ch_head := h', ch_count := ch_count c - 1\<rparr>) = tl (chan_vals c)"
proof -
  let ?e = "ch_q c ! ch_head c"
  let ?c = "c\<lparr>ch_q := (ch_q c)[ch_head c := f ?e], ch_head := (ch_head c + 1) mod ch_cap c, ch_count := ch_count c - 1\<rparr>"
  have r: "0 < ch_cap c" "length (ch_q c) = ch_cap c" "ch_head c < ch_cap c" "ch_count c \<le> ch_cap c"
    using assms(1) by (simp_all add: ring_ok_def)
  have cons: "[0..<ch_count c] = 0 # map Suc [0..<ch_count c - 1]"
    using assms(2) by (simp add: upt_conv_Cons map_Suc_upt)
  have "(ch_q c)[ch_head c := f ?e] ! ((ch_head c + Suc j) mod ch_cap c) = ch_q c ! ((ch_head c + Suc j) mod ch_cap c)"
    if "j < ch_count c - 1" for j
  proof -
    have j: "Suc j < ch_cap c" using that r by simp
    have "ch_head c \<noteq> (ch_head c + Suc j) mod ch_cap c"
      using ring_slot_inj [OF j r(1), of "ch_head c"] r(3) by auto
    then show ?thesis by (rule nth_list_update_neq)
  qed
  then have "chan_vals ?c = tl (chan_vals c)"
    unfolding chan_vals_def cons by (simp add: mod_add_left_eq)
  moreover have "hd (chan_vals c) = ?e" unfolding chan_vals_def cons using r by simp
  moreover have "ring_ok ?c" using r by (simp add: ring_ok_def)
  moreover have "chan_take f c = Ok (?c, ?e)" using r by (simp add: chan_take_def Let_def)
  ultimately show ?thesis by auto
qed

section \<open>Who waits\<close>

text \<open>The tasks waiting to send and to receive: the fibers of the lines and the threads of the conditions.\<close>

definition waits :: "nat list \<Rightarrow> nat list \<Rightarrow> task set" where
  "waits fs ts = Fiber ` set fs \<union> Thread ` set ts"

definition parked :: "bchan \<Rightarrow> task set \<Rightarrow> task set \<Rightarrow> bool" where
  "parked c S R \<longleftrightarrow>
     (\<exists>xs ys. line_of (ch_waiters c) (ch_send c) xs \<and> line_of (ch_waiters c) (ch_recv c) ys \<and> set xs \<inter> set ys = {} \<and>
        distinct (ch_can_send c) \<and> distinct (ch_can_recv c) \<and> S = waits xs (ch_can_send c) \<and> R = waits ys (ch_can_recv c))"

definition signalled :: "bchan \<Rightarrow> task \<Rightarrow> bool" where
  "signalled c t = (case t of Fiber f \<Rightarrow> w_signalled (ch_waiters c) f | Thread _ \<Rightarrow> True)"

definition same_ring :: "bchan \<Rightarrow> bchan \<Rightarrow> bool" where
  "same_ring c c' \<longleftrightarrow> ch_q c' = ch_q c \<and> ch_head c' = ch_head c \<and> ch_count c' = ch_count c \<and> ch_cap c' = ch_cap c \<and>
     ch_closed c' = ch_closed c"

lemma same_ring_vals: "same_ring c c' \<Longrightarrow> chan_vals c' = chan_vals c \<and> ring_ok c' = ring_ok c"
  by (simp add: same_ring_def chan_vals_def ring_ok_def)

lemma parked_ring: "parked (c\<lparr>ch_q := q, ch_head := h, ch_count := n\<rparr>) S R = parked c S R"
  "signalled (c\<lparr>ch_q := q, ch_head := h, ch_count := n\<rparr>) = signalled c"
  by (simp_all add: parked_def signalled_def fun_eq_iff split: task.splits)

lemma waits_empty [simp]: "waits xs ts = {} \<longleftrightarrow> xs = [] \<and> ts = []"
  by (simp add: waits_def)

lemma in_waits [simp]: "Fiber f \<in> waits xs ts \<longleftrightarrow> f \<in> set xs" "Thread n \<in> waits xs ts \<longleftrightarrow> n \<in> set ts"
  by (auto simp: waits_def)

text \<open>A wakeup takes somebody out of the waiting, if anybody waits, and marks the fiber it takes.\<close>

definition woke :: "bchan \<Rightarrow> bchan \<Rightarrow> task set \<Rightarrow> task set \<Rightarrow> bool" where
  "woke c c' W W' \<longleftrightarrow> W' \<subseteq> W \<and> (W \<noteq> {} \<longrightarrow> W' \<noteq> W) \<and> (\<forall>t. signalled c' t \<longleftrightarrow> signalled c t \<or> t \<in> W - W')"

lemma wake_receiver_woke:
  assumes "parked c S R" "signal_law signal"
  shows "\<exists>R'. parked (chan_wake_receiver signal c) S R' \<and> woke c (chan_wake_receiver signal c) R R' \<and>
    same_ring c (chan_wake_receiver signal c)"
proof -
  from assms(1) obtain xs ys where p: "line_of (ch_waiters c) (ch_send c) xs" "line_of (ch_waiters c) (ch_recv c) ys"
    "set xs \<inter> set ys = {}" "distinct (ch_can_send c)" "distinct (ch_can_recv c)" "S = waits xs (ch_can_send c)"
    "R = waits ys (ch_can_recv c)" by (auto simp: parked_def)
  note pop = pop_line [OF p(2)]
  show ?thesis
  proof (cases ys)
    case Nil
    then have run: "chan_wake_receiver signal c = c\<lparr>ch_can_recv := signal (ch_can_recv c)\<rparr>"
      using pop by (simp add: chan_wake_receiver_def)
    have s: "distinct (signal (ch_can_recv c))" "set (signal (ch_can_recv c)) \<subseteq> set (ch_can_recv c)"
      "ch_can_recv c \<noteq> [] \<Longrightarrow> set (signal (ch_can_recv c)) \<noteq> set (ch_can_recv c)"
      using assms(2) p(5) by (simp_all add: signal_law_def)
    have "parked (c\<lparr>ch_can_recv := signal (ch_can_recv c)\<rparr>) S (waits ys (signal (ch_can_recv c)))"
      using p s(1) by (auto simp: parked_def)
    moreover have "woke c (c\<lparr>ch_can_recv := signal (ch_can_recv c)\<rparr>) R (waits ys (signal (ch_can_recv c)))"
      using s(2,3) Nil by (auto simp: woke_def p(7) waits_def signalled_def split: task.splits)
    ultimately show ?thesis by (auto simp: run same_ring_def)
  next
    case (Cons f fs)
    with pop obtain l ws where l: "fiber_line_pop (ch_recv c, ch_waiters c) = Some ((l, ws), f)" "line_of ws l fs"
      "w_signalled ws = (w_signalled (ch_waiters c))(f := True)" "\<And>y. y \<noteq> f \<Longrightarrow> w_next ws y = w_next (ch_waiters c) y" by auto
    have f: "f \<notin> set xs" "f \<notin> set fs" using p(2,3) Cons by (auto simp: line_of_def)
    have run: "chan_wake_receiver signal c = c\<lparr>ch_recv := l, ch_waiters := ws\<rparr>" using l(1) by (simp add: chan_wake_receiver_def)
    have "line_of ws (ch_send c) xs" by (rule line_frame [OF p(1)]) (metis l(4) f(1))
    then have "parked (c\<lparr>ch_recv := l, ch_waiters := ws\<rparr>) S (waits fs (ch_can_recv c))"
      using p l(2) Cons by (auto simp: parked_def)
    moreover have "woke c (c\<lparr>ch_recv := l, ch_waiters := ws\<rparr>) R (waits fs (ch_can_recv c))"
      using Cons f l(3) by (auto simp: woke_def p(7) waits_def signalled_def split: task.splits)
    ultimately show ?thesis by (auto simp: run same_ring_def)
  qed
qed

text \<open>The other end is its mirror image.\<close>

definition mirror :: "bchan \<Rightarrow> bchan" where
  "mirror c = c\<lparr>ch_send := ch_recv c, ch_recv := ch_send c, ch_can_send := ch_can_recv c, ch_can_recv := ch_can_send c\<rparr>"

lemma mirror_simps [simp]:
  "mirror (mirror c) = c" "signalled (mirror c) = signalled c" "parked (mirror c) S R = parked c R S" "same_ring (mirror c) (mirror c') = same_ring c c'"
  "ch_waiters (mirror c) = ch_waiters c" "ch_send (mirror c) = ch_recv c" "ch_recv (mirror c) = ch_send c"
  "ch_can_send (mirror c) = ch_can_recv c" "ch_can_recv (mirror c) = ch_can_send c"
  unfolding parked_def by (auto simp: mirror_def signalled_def same_ring_def fun_eq_iff Int_commute split: task.splits)

lemma mirror_wake: "chan_wake_sender signal c = mirror (chan_wake_receiver signal (mirror c))"
  by (auto simp: chan_wake_sender_def chan_wake_receiver_def mirror_def split: option.splits prod.splits)

lemma mirror_woke: "woke (mirror c) (mirror c') W W' = woke c c' W W'"
  by (simp add: woke_def)

lemma wake_sender_woke:
  assumes "parked c S R" "signal_law signal"
  shows "\<exists>S'. parked (chan_wake_sender signal c) S' R \<and> woke c (chan_wake_sender signal c) S S' \<and>
    same_ring c (chan_wake_sender signal c)"
proof -
  have "parked (mirror c) R S" using assms(1) by simp
  from wake_receiver_woke [OF this assms(2)] obtain S' where
    "parked (chan_wake_receiver signal (mirror c)) R S'" "woke (mirror c) (chan_wake_receiver signal (mirror c)) S S'"
    "same_ring (mirror c) (chan_wake_receiver signal (mirror c))" by blast
  then show ?thesis
    using mirror_woke [of c "chan_wake_sender signal c" S S'] mirror_simps(4) [of c "chan_wake_sender signal c"]
    by (auto simp: mirror_wake)
qed

text \<open>Going to wait.\<close>

lemma recv_waits:
  assumes "parked c S R" "me \<notin> S" "me \<notin> R" "chan_recv_wait me c = (False, c')"
  shows "parked c' S (insert me R)" "same_ring c c'" "ch_count c = 0" "\<not> ch_closed c"
    "\<And>t. t \<noteq> me \<Longrightarrow> signalled c' t = signalled c t" "\<And>f. me = Fiber f \<Longrightarrow> \<not> signalled c' me"
proof -
  show empty: "ch_count c = 0" "\<not> ch_closed c" using assms(4) by (auto simp: chan_recv_wait_def split: if_splits)
  from assms(1) obtain xs ys where p: "line_of (ch_waiters c) (ch_send c) xs" "line_of (ch_waiters c) (ch_recv c) ys"
    "set xs \<inter> set ys = {}" "distinct (ch_can_send c)" "distinct (ch_can_recv c)" "S = waits xs (ch_can_send c)"
    "R = waits ys (ch_can_recv c)" by (auto simp: parked_def)
  have "parked c' S (insert me R) \<and> same_ring c c' \<and> (\<forall>t. t \<noteq> me \<longrightarrow> signalled c' t = signalled c t) \<and>
      (\<forall>f. me = Fiber f \<longrightarrow> \<not> signalled c' me)"
  proof (cases me)
    case (Thread n)
    then have c': "c' = c\<lparr>ch_can_recv := ch_can_recv c @ [n]\<rparr>" using assms(4) empty by (simp add: chan_recv_wait_def)
    have "insert me R = waits ys (ch_can_recv c @ [n])" by (auto simp: p(7) waits_def Thread)
    then have "parked c' S (insert me R)" using p assms(3) Thread by (auto simp: parked_def c')
    then show ?thesis by (auto simp: c' same_ring_def signalled_def Thread split: task.splits)
  next
    case (Fiber f)
    define ws0 where "ws0 = set_signalled f False (set_next f None (ch_waiters c))"
    have f: "f \<notin> set xs" "f \<notin> set ys" using assms(2,3) by (simp_all add: p(6,7) Fiber)
    have lines: "line_of ws0 (ch_send c) xs" "line_of ws0 (ch_recv c) ys"
      by (rule line_frame [OF p(1)], use f in \<open>auto simp: ws0_def set_signalled_def set_next_def\<close>)
         (rule line_frame [OF p(2)], use f in \<open>auto simp: ws0_def set_signalled_def set_next_def\<close>)
    from push_line [OF lines(2) f(2)] obtain l ws where l: "fiber_line_push f (ch_recv c, ws0) = (l, ws)" "line_of ws l (ys @ [f])"
      "w_signalled ws = w_signalled ws0" "\<And>y. y \<noteq> f \<Longrightarrow> y \<notin> set ys \<Longrightarrow> w_next ws y = w_next ws0 y" by blast
    have c': "c' = c\<lparr>ch_recv := l, ch_waiters := ws\<rparr>"
      using assms(4) empty l(1) by (simp add: chan_recv_wait_def Fiber fiber_line_enter_def ws0_def [symmetric])
    have "line_of ws (ch_send c) xs" by (rule line_frame [OF lines(1)]) (metis l(4) f(1) p(3) disjoint_iff)
    moreover have "insert me R = waits (ys @ [f]) (ch_can_recv c)" by (auto simp: p(7) waits_def Fiber)
    ultimately have "parked c' S (insert me R)" using p l(2) f by (fastforce simp: parked_def c')
    moreover have "w_signalled ws = (w_signalled (ch_waiters c))(f := False)" using l(3) by (simp add: ws0_def set_signalled_def set_next_def)
    ultimately show ?thesis by (auto simp: c' same_ring_def signalled_def Fiber split: task.splits)
  qed
  then show "parked c' S (insert me R)" "same_ring c c'" "\<And>t. t \<noteq> me \<Longrightarrow> signalled c' t = signalled c t"
    "\<And>f. me = Fiber f \<Longrightarrow> \<not> signalled c' me" by auto
qed

lemma mirror_send_wait:
  assumes "chan_send_wait me c = (False, c')"
  shows "chan_recv_wait me ((mirror c)\<lparr>ch_count := 0\<rparr>) = (False, (mirror c')\<lparr>ch_count := 0\<rparr>)"
    "ch_count c' = ch_count c" "\<not> ch_count c < ch_cap c" "\<not> ch_closed c"
  using assms by (auto simp: chan_send_wait_def chan_recv_wait_def mirror_def split: if_splits task.splits prod.splits)

lemma send_waits:
  assumes "parked c S R" "me \<notin> S" "me \<notin> R" "chan_send_wait me c = (False, c')"
  shows "parked c' (insert me S) R" "same_ring c c'" "\<not> ch_count c < ch_cap c" "\<not> ch_closed c"
    "\<And>t. t \<noteq> me \<Longrightarrow> signalled c' t = signalled c t" "\<And>f. me = Fiber f \<Longrightarrow> \<not> signalled c' me"
proof -
  have count: "parked (x\<lparr>ch_count := n\<rparr>) = parked x" "signalled (x\<lparr>ch_count := n\<rparr>) = signalled x" for x n
    by (simp_all add: parked_def signalled_def fun_eq_iff split: task.splits)
  note m = mirror_send_wait [OF assms(4)]
  have "parked ((mirror c)\<lparr>ch_count := 0\<rparr>) R S" using assms(1) by (simp add: count)
  note r = recv_waits [OF this assms(3,2) m(1)]
  show "parked c' (insert me S) R" using r(1) by (simp add: count)
  show "same_ring c c'" using r(2) m(2) by (simp add: same_ring_def mirror_def)
  show "\<not> ch_count c < ch_cap c" "\<not> ch_closed c" by (rule m(3,4))+
  show "signalled c' t = signalled c t" if "t \<noteq> me" for t using r(5) [OF that] by (simp add: count)
  show "\<not> signalled c' me" if "me = Fiber f" for f using r(6) [OF that] by (simp add: count)
qed

text \<open>A cancelled fiber leaves; a thread may also wake for no reason.\<close>

lemma cancel_recv:
  assumes "parked c S R" "Fiber f \<in> R"
  shows "\<exists>l ws. fiber_line_remove f (ch_recv c, ch_waiters c) = Some (l, ws) \<and>
    parked (c\<lparr>ch_recv := l, ch_waiters := ws\<rparr>) S (R - {Fiber f}) \<and> w_signalled ws = w_signalled (ch_waiters c)"
proof -
  from assms(1) obtain xs ys where p: "line_of (ch_waiters c) (ch_send c) xs" "line_of (ch_waiters c) (ch_recv c) ys"
    "set xs \<inter> set ys = {}" "distinct (ch_can_send c)" "distinct (ch_can_recv c)" "S = waits xs (ch_can_send c)"
    "R = waits ys (ch_can_recv c)" by (auto simp: parked_def)
  have f: "f \<in> set ys" "distinct ys" using assms(2) p(2) by (simp_all add: p(7) line_of_def)
  from remove_line [OF p(2) f(1)] obtain l ws where l: "fiber_line_remove f (ch_recv c, ch_waiters c) = Some (l, ws)"
    "line_of ws l (remove1 f ys)" "w_signalled ws = w_signalled (ch_waiters c)"
    "\<And>y. y \<notin> set ys \<Longrightarrow> w_next ws y = w_next (ch_waiters c) y" by blast
  have "line_of ws (ch_send c) xs" by (rule line_frame [OF p(1)]) (metis l(4) p(3) disjoint_iff)
  moreover have "R - {Fiber f} = waits (remove1 f ys) (ch_can_recv c)" using f(2) by (auto simp: p(7) waits_def)
  moreover have "set xs \<inter> set (remove1 f ys) = {}" using p(3) set_remove1_subset [of f ys] by blast
  ultimately have "parked (c\<lparr>ch_recv := l, ch_waiters := ws\<rparr>) S (R - {Fiber f})" using p l(2) by (auto simp: parked_def)
  with l(1,3) show ?thesis by blast
qed

lemma cancel_send:
  assumes "parked c S R" "Fiber f \<in> S"
  shows "\<exists>l ws. fiber_line_remove f (ch_send c, ch_waiters c) = Some (l, ws) \<and>
    parked (c\<lparr>ch_send := l, ch_waiters := ws\<rparr>) (S - {Fiber f}) R \<and> w_signalled ws = w_signalled (ch_waiters c)"
proof -
  have "parked (mirror c) R S" using assms(1) by simp
  from cancel_recv [OF this assms(2)] obtain l ws where
    l: "fiber_line_remove f (ch_send c, ch_waiters c) = Some (l, ws)" "w_signalled ws = w_signalled (ch_waiters c)"
    and p: "parked ((mirror c)\<lparr>ch_recv := l, ch_waiters := ws\<rparr>) R (S - {Fiber f})" by auto
  have "(mirror c)\<lparr>ch_recv := l, ch_waiters := ws\<rparr> = mirror (c\<lparr>ch_send := l, ch_waiters := ws\<rparr>)" by (simp add: mirror_def)
  then show ?thesis using l p by (simp only: mirror_simps) blast
qed

lemma spurious_wakes:
  assumes "parked c S R"
  shows "parked (c\<lparr>ch_can_send := remove1 n (ch_can_send c)\<rparr>) (S - {Thread n}) R"
    "parked (c\<lparr>ch_can_recv := remove1 n (ch_can_recv c)\<rparr>) S (R - {Thread n})"
proof -
  from assms obtain xs ys where p: "line_of (ch_waiters c) (ch_send c) xs" "line_of (ch_waiters c) (ch_recv c) ys"
    "set xs \<inter> set ys = {}" "distinct (ch_can_send c)" "distinct (ch_can_recv c)" "S = waits xs (ch_can_send c)"
    "R = waits ys (ch_can_recv c)" by (auto simp: parked_def)
  have "S - {Thread n} = waits xs (remove1 n (ch_can_send c))" "R - {Thread n} = waits ys (remove1 n (ch_can_recv c))"
    using p(4,5) by (auto simp: p(6,7) waits_def)
  then show "parked (c\<lparr>ch_can_send := remove1 n (ch_can_send c)\<rparr>) (S - {Thread n}) R"
    "parked (c\<lparr>ch_can_recv := remove1 n (ch_can_recv c)\<rparr>) S (R - {Thread n})"
    using p by (auto simp: parked_def)
qed

text \<open>Emptying a line.\<close>

lemma wake_all_line:
  "line_of ws l xs \<Longrightarrow> \<exists>l' ws'. line_wake_all (l, ws) = Some (l', ws') \<and> line_of ws' l' [] \<and>
    (\<forall>y. y \<notin> set xs \<longrightarrow> w_next ws' y = w_next ws y) \<and> (\<forall>f. w_signalled ws' f \<longleftrightarrow> w_signalled ws f \<or> f \<in> set xs)"
proof (induction xs arbitrary: l ws)
  case Nil
  then show ?case using pop_line [OF Nil] by (auto simp: line_wake_all.simps)
next
  case (Cons f fs)
  from pop_line [OF Cons.prems] obtain l1 ws1 where l1: "fiber_line_pop (l, ws) = Some ((l1, ws1), f)" "line_of ws1 l1 fs"
    "w_signalled ws1 = (w_signalled ws)(f := True)" "\<And>y. y \<noteq> f \<Longrightarrow> w_next ws1 y = w_next ws y" by auto
  have "line_wake_all (l, ws) = line_wake_all (l1, ws1)" using l1(1) by (simp add: line_wake_all.simps [of "(l, ws)"])
  with Cons.IH [OF l1(2)] l1(3,4) show ?case by fastforce
qed

lemma close_wakes_all:
  assumes "parked c S R"
  shows "\<exists>c'. beans_chan_close c = Some c' \<and> parked c' {} {} \<and> ch_closed c' \<and> same_ring (c\<lparr>ch_closed := True\<rparr>) c' \<and>
    (\<forall>t. signalled c' t \<longleftrightarrow> signalled c t \<or> t \<in> S \<union> R)"
proof -
  from assms obtain xs ys where p: "line_of (ch_waiters c) (ch_send c) xs" "line_of (ch_waiters c) (ch_recv c) ys"
    "set xs \<inter> set ys = {}" "distinct (ch_can_send c)" "distinct (ch_can_recv c)" "S = waits xs (ch_can_send c)"
    "R = waits ys (ch_can_recv c)" by (auto simp: parked_def)
  from wake_all_line [OF p(1)] obtain sl ws where s: "line_wake_all (ch_send c, ch_waiters c) = Some (sl, ws)" "line_of ws sl []"
    "\<And>y. y \<notin> set xs \<Longrightarrow> w_next ws y = w_next (ch_waiters c) y"
    "\<And>f. w_signalled ws f \<longleftrightarrow> w_signalled (ch_waiters c) f \<or> f \<in> set xs" by blast
  have "line_of ws (ch_recv c) ys" by (rule line_frame [OF p(2)]) (metis s(3) p(3) disjoint_iff)
  from wake_all_line [OF this] obtain rl ws' where r: "line_wake_all (ch_recv c, ws) = Some (rl, ws')" "line_of ws' rl []"
    "\<And>f. w_signalled ws' f \<longleftrightarrow> w_signalled ws f \<or> f \<in> set ys" by blast
  have "line_of ws' sl []" using s(2) by (simp add: line_of_def)
  let ?c = "c\<lparr>ch_closed := True, ch_send := sl, ch_recv := rl, ch_waiters := ws', ch_can_send := [], ch_can_recv := []\<rparr>"
  have "beans_chan_close c = Some ?c" using s(1) r(1) by (simp add: beans_chan_close_def)
  moreover have "parked ?c {} {}" unfolding parked_def
    by (intro exI [of _ "[]"]) (use \<open>line_of ws' sl []\<close> r(2) in \<open>simp add: waits_def\<close>)
  moreover have "signalled ?c t \<longleftrightarrow> signalled c t \<or> t \<in> S \<union> R" for t
    using r(3) s(4) by (auto simp: signalled_def p(6,7) waits_def split: task.splits)
  ultimately show ?thesis by (auto simp: same_ring_def)
qed

section \<open>Interleavings\<close>

text \<open>
  A task is between calls, inside a send of a value or inside a receive. \<open>w_sent\<close> and \<open>w_recvd\<close> are the
  values the calls that returned have sent and received so far.
\<close>

datatype pending = Idle | Sending elem | Receiving

record world =
  w_chan :: bchan
  w_task :: "task \<Rightarrow> pending"
  w_sent :: "elem list"
  w_recvd :: "elem list"

definition after_send :: "task \<Rightarrow> elem \<Rightarrow> bchan \<Rightarrow> bool held_lock \<Rightarrow> world \<Rightarrow> world" where
  "after_send t e c r w = w\<lparr>w_chan := c, w_task := (w_task w)(t := (if r = Waiting then Sending e else Idle)),
     w_sent := (if r = Returned True then w_sent w @ [e] else w_sent w)\<rparr>"

definition after_recv :: "task \<Rightarrow> bchan \<Rightarrow> elem option held_lock \<Rightarrow> world \<Rightarrow> world" where
  "after_recv t c r w = w\<lparr>w_chan := c, w_task := (w_task w)(t := (if r = Waiting then Receiving else Idle)),
     w_recvd := (case r of Returned (Some e) \<Rightarrow> w_recvd w @ [e] | _ \<Rightarrow> w_recvd w)\<rparr>"

text \<open>A fiber goes on when it is signalled, a thread when it is no longer blocked on the condition.\<close>

fun send_runs :: "task \<Rightarrow> bchan \<Rightarrow> bool" where
  "send_runs (Fiber f) c \<longleftrightarrow> fiber_line_woken False f (ch_send c, ch_waiters c) = Some (Resumed, ch_send c, ch_waiters c)"
| "send_runs (Thread n) c \<longleftrightarrow> n \<notin> set (ch_can_send c)"

fun recv_runs :: "task \<Rightarrow> bchan \<Rightarrow> bool" where
  "recv_runs (Fiber f) c \<longleftrightarrow> fiber_line_woken False f (ch_recv c, ch_waiters c) = Some (Resumed, ch_recv c, ch_waiters c)"
| "recv_runs (Thread n) c \<longleftrightarrow> n \<notin> set (ch_can_recv c)"

inductive chan_step :: "(nat list \<Rightarrow> nat list) \<Rightarrow> bool \<Rightarrow> world \<Rightarrow> world \<Rightarrow> bool" for signal mt where
  send: "w_task w t = Idle \<or> (w_task w t = Sending e \<and> send_runs t (w_chan w)) \<Longrightarrow>
    beans_chan_send_typed signal mt t e (w_chan w) = Ok (c, r, eff) \<Longrightarrow> chan_step signal mt w (after_send t e c r w)"
| recv: "w_task w t = Idle \<or> (w_task w t = Receiving \<and> recv_runs t (w_chan w)) \<Longrightarrow>
    beans_chan_recv_typed signal t (w_chan w) = Ok (c, r) \<Longrightarrow> chan_step signal mt w (after_recv t c r w)"
| cancelled_send: "w_task w (Fiber f) = Sending e \<Longrightarrow>
    fiber_line_woken True f (ch_send (w_chan w), ch_waiters (w_chan w)) = Some (Cancelled, l, ws) \<Longrightarrow>
    chan_step signal mt w (w\<lparr>w_chan := (w_chan w)\<lparr>ch_send := l, ch_waiters := ws\<rparr>, w_task := (w_task w)(Fiber f := Idle)\<rparr>)"
| cancelled_recv: "w_task w (Fiber f) = Receiving \<Longrightarrow>
    fiber_line_woken True f (ch_recv (w_chan w), ch_waiters (w_chan w)) = Some (Cancelled, l, ws) \<Longrightarrow>
    chan_step signal mt w (w\<lparr>w_chan := (w_chan w)\<lparr>ch_recv := l, ch_waiters := ws\<rparr>, w_task := (w_task w)(Fiber f := Idle)\<rparr>)"
| spurious_send: "chan_step signal mt w (w\<lparr>w_chan := (w_chan w)\<lparr>ch_can_send := remove1 n (ch_can_send (w_chan w))\<rparr>\<rparr>)"
| spurious_recv: "chan_step signal mt w (w\<lparr>w_chan := (w_chan w)\<lparr>ch_can_recv := remove1 n (ch_can_recv (w_chan w))\<rparr>\<rparr>)"
| try_send: "beans_chan_try_send_typed signal mt e (w_chan w) = Ok (c, done, eff) \<Longrightarrow>
    chan_step signal mt w (w\<lparr>w_chan := c, w_sent := (if done then w_sent w @ [e] else w_sent w)\<rparr>)"
| try_recv: "beans_chan_try_recv_typed signal (w_chan w) = Ok (c, r) \<Longrightarrow>
    chan_step signal mt w (w\<lparr>w_chan := c, w_recvd := (case r of None \<Rightarrow> w_recvd w | Some e \<Rightarrow> w_recvd w @ [e])\<rparr>)"
| close: "beans_chan_close (w_chan w) = Some c \<Longrightarrow> chan_step signal mt w (w\<lparr>w_chan := c\<rparr>)"

definition senders :: "world \<Rightarrow> task set" where
  "senders w = {t. \<exists>e. w_task w t = Sending e}"

definition receivers :: "world \<Rightarrow> task set" where
  "receivers w = {t. w_task w t = Receiving}"

text \<open>
  The invariant. While somebody waits to receive, at least as many receivers as there are buffered values
  have been woken and have still to run; the same holds of senders and free slots.
\<close>

definition world_ok :: "world \<Rightarrow> task set \<Rightarrow> task set \<Rightarrow> bool" where
  "world_ok w S R \<longleftrightarrow>
     ring_ok (w_chan w) \<and> w_sent w = w_recvd w @ chan_vals (w_chan w) \<and> parked (w_chan w) S R \<and>
     finite (senders w) \<and> finite (receivers w) \<and> S \<subseteq> senders w \<and> R \<subseteq> receivers w \<and>
     (\<forall>t \<in> senders w \<union> receivers w. \<forall>f. t = Fiber f \<longrightarrow> (signalled (w_chan w) t \<longleftrightarrow> t \<notin> S \<union> R)) \<and>
     (S \<noteq> {} \<longrightarrow> \<not> ch_closed (w_chan w) \<and> ch_cap (w_chan w) - ch_count (w_chan w) \<le> card (senders w - S)) \<and>
     (R \<noteq> {} \<longrightarrow> \<not> ch_closed (w_chan w) \<and> ch_count (w_chan w) \<le> card (receivers w - R))"

lemma runs_not_waiting:
  assumes "world_ok w S R"
  shows "w_task w t = Sending e \<Longrightarrow> send_runs t (w_chan w) \<longleftrightarrow> t \<notin> S" "w_task w t = Receiving \<Longrightarrow> recv_runs t (w_chan w) \<longleftrightarrow> t \<notin> R"
proof -
  from assms have p: "parked (w_chan w) S R" "S \<subseteq> senders w" "R \<subseteq> receivers w"
    and sig: "\<And>f. Fiber f \<in> senders w \<union> receivers w \<Longrightarrow> w_signalled (ch_waiters (w_chan w)) f \<longleftrightarrow> Fiber f \<notin> S \<union> R"
    by (auto simp: world_ok_def signalled_def)
  from p(1) obtain xs ys where w: "S = waits xs (ch_can_send (w_chan w))" "R = waits ys (ch_can_recv (w_chan w))" by (auto simp: parked_def)
  show "send_runs t (w_chan w) \<longleftrightarrow> t \<notin> S" if "w_task w t = Sending e"
  proof (cases t)
    case (Fiber f)
    then show ?thesis using sig [of f] that p(3) by (auto simp: fiber_line_woken_def senders_def receivers_def)
  qed (simp add: w)
  show "recv_runs t (w_chan w) \<longleftrightarrow> t \<notin> R" if "w_task w t = Receiving"
  proof (cases t)
    case (Fiber f)
    then show ?thesis using sig [of f] that p(2) by (auto simp: fiber_line_woken_def senders_def receivers_def)
  qed (simp add: w)
qed

section \<open>The invariant is kept\<close>

lemma counts_woken:
  assumes "W' \<subseteq> W" "W \<noteq> {} \<longrightarrow> W' \<noteq> W" "W \<subseteq> P" "finite P" "W \<noteq> {} \<longrightarrow> n \<le> card (P - W)" "W' \<noteq> {}"
  shows "n + 1 \<le> card (P - W')"
proof -
  have "P - W \<subset> P - W'" "W \<noteq> {}" using assms by auto
  then show ?thesis using psubset_card_mono [of "P - W'" "P - W"] assms(4,5) by fastforce
qed

lemma counts_left:
  assumes "finite P" "n \<le> card (P - W)" "T \<subseteq> {t}"
  shows "n - 1 \<le> card (P - T - W)"
proof -
  have "P - T - W = P - W - T" by auto
  moreover have "card (P - W) - 1 \<le> card (P - W - T)"
    using assms(1,3) card_Diff_singleton_if [of "P - W" t] by (cases "T = {}") (auto simp: subset_singleton_iff)
  ultimately show ?thesis using assms(2) by simp
qed

text \<open>A value goes in and a receiver is woken; a value comes out and a sender is woken.\<close>

lemma deposit_ok:
  assumes w: "world_ok w S R" and sig: "signal_law signal" and room: "ch_count (w_chan w) < ch_cap (w_chan w)"
    "\<not> ch_closed (w_chan w)" and put: "chan_put (w_chan w) e = Ok c1" and T: "T \<subseteq> {t}" "T \<inter> S = {}"
    and w': "w_chan w' = chan_wake_receiver signal c1" "senders w' = senders w - T" "receivers w' = receivers w"
      "w_sent w' = w_sent w @ [e]" "w_recvd w' = w_recvd w"
  shows "\<exists>R'. world_ok w' S R'"
proof -
  let ?c = "w_chan w" and ?c' = "w_chan w'"
  note ok = w [unfolded world_ok_def]
  from put_vals [of ?c e] ok room put obtain q' where c1: "c1 = ?c\<lparr>ch_q := q', ch_count := ch_count ?c + 1\<rparr>" "ring_ok c1"
    "chan_vals c1 = chan_vals ?c @ [e]" by auto
  have same: "parked c1 S R" "signalled c1 = signalled ?c"
    using ok by (simp_all add: c1(1) parked_def signalled_def fun_eq_iff split: task.splits)
  from wake_receiver_woke [OF same(1) sig] obtain R' where r: "parked ?c' S R'" "woke c1 ?c' R R'" "same_ring c1 ?c'"
    by (auto simp: w'(1))
  have ring: "ring_ok ?c'" "chan_vals ?c' = chan_vals ?c @ [e]" "ch_count ?c' = ch_count ?c + 1" "ch_cap ?c' = ch_cap ?c"
    "ch_closed ?c' = ch_closed ?c"
    using same_ring_vals [OF r(3)] r(3) c1 by (simp_all add: same_ring_def)
  have R': "R' \<subseteq> R" "R \<noteq> {} \<longrightarrow> R' \<noteq> R" "\<And>t. signalled ?c' t \<longleftrightarrow> signalled ?c t \<or> t \<in> R - R'"
    using r(2) same(2) by (auto simp: woke_def)
  have sub: "S \<subseteq> senders w" "R \<subseteq> receivers w" "finite (senders w)" "finite (receivers w)" using ok by auto
  have disj: "senders w \<inter> receivers w = {}" by (auto simp: senders_def receivers_def)
  have "world_ok w' S R'"
    unfolding world_ok_def
  proof (intro conjI)
    show "\<forall>x \<in> senders w' \<union> receivers w'. \<forall>f. x = Fiber f \<longrightarrow> signalled ?c' x = (x \<notin> S \<union> R')"
    proof (intro ballI allI impI)
      fix x f assume x: "x \<in> senders w' \<union> receivers w'" "x = Fiber f"
      then have "signalled ?c x \<longleftrightarrow> x \<notin> S \<union> R" using ok by (auto simp: w'(2,3))
      then show "signalled ?c' x \<longleftrightarrow> x \<notin> S \<union> R'" using R'(1,3) sub disj by blast
    qed
    show "S \<noteq> {} \<longrightarrow> \<not> ch_closed ?c' \<and> ch_cap ?c' - ch_count ?c' \<le> card (senders w' - S)"
      using ok counts_left [OF sub(3) _ T(1), of "ch_cap ?c - ch_count ?c" S] by (simp add: ring w'(2))
    show "R' \<noteq> {} \<longrightarrow> \<not> ch_closed ?c' \<and> ch_count ?c' \<le> card (receivers w' - R')"
      using ok counts_woken [OF R'(1,2) sub(2,4), of "ch_count ?c"] room(2) by (auto simp: ring w'(3))
  qed (use ok sub T R'(1) r(1) ring w' in auto)
  then show ?thesis by blast
qed

lemma withdraw_ok:
  assumes w: "world_ok w S R" and sig: "signal_law signal" and some: "0 < ch_count (w_chan w)"
    and out: "chan_take fn (w_chan w) = Ok (c1, e)" and T: "T \<subseteq> {t}" "T \<inter> R = {}"
    and w': "w_chan w' = chan_wake_sender signal c1" "senders w' = senders w" "receivers w' = receivers w - T"
      "w_sent w' = w_sent w" "w_recvd w' = w_recvd w @ [e]"
  shows "\<exists>S'. world_ok w' S' R"
proof -
  let ?c = "w_chan w" and ?c' = "w_chan w'"
  note ok = w [unfolded world_ok_def]
  from take_vals [of ?c fn] ok some out obtain q' h' where
    c1: "c1 = ?c\<lparr>ch_q := q', ch_head := h', ch_count := ch_count ?c - 1\<rparr>" "ring_ok c1"
      "chan_vals c1 = tl (chan_vals ?c)" "e = hd (chan_vals ?c)" by auto
  have cons: "chan_vals ?c = e # chan_vals c1"
  proof -
    have "chan_vals ?c \<noteq> []" using some length_vals [of ?c] by (metis length_0_conv less_numeral_extra(3))
    then show ?thesis by (simp add: c1(3,4))
  qed
  have same: "parked c1 S R" "signalled c1 = signalled ?c" 
    using ok by (simp_all add: c1(1) parked_def signalled_def fun_eq_iff split: task.splits)
  from wake_sender_woke [OF same(1) sig] obtain S' where r: "parked ?c' S' R" "woke c1 ?c' S S'" "same_ring c1 ?c'"
    by (auto simp: w'(1))
  have ring: "ring_ok ?c'" "chan_vals ?c' = chan_vals c1" "ch_count ?c' = ch_count ?c - 1" "ch_cap ?c' = ch_cap ?c"
    "ch_closed ?c' = ch_closed ?c" "ch_count ?c \<le> ch_cap ?c"
    using same_ring_vals [OF r(3)] r(3) c1 ok by (simp_all add: same_ring_def ring_ok_def)
  have S': "S' \<subseteq> S" "S \<noteq> {} \<longrightarrow> S' \<noteq> S" "\<And>t. signalled ?c' t \<longleftrightarrow> signalled ?c t \<or> t \<in> S - S'"
    using r(2) same(2) by (auto simp: woke_def)
  have sub: "S \<subseteq> senders w" "R \<subseteq> receivers w" "finite (senders w)" "finite (receivers w)" using ok by auto
  have disj: "senders w \<inter> receivers w = {}" by (auto simp: senders_def receivers_def)
  have "world_ok w' S' R"
    unfolding world_ok_def
  proof (intro conjI)
    show "\<forall>x \<in> senders w' \<union> receivers w'. \<forall>f. x = Fiber f \<longrightarrow> signalled ?c' x = (x \<notin> S' \<union> R)"
    proof (intro ballI allI impI)
      fix x f assume x: "x \<in> senders w' \<union> receivers w'" "x = Fiber f"
      then have "signalled ?c x \<longleftrightarrow> x \<notin> S \<union> R" using ok by (auto simp: w'(2,3))
      then show "signalled ?c' x \<longleftrightarrow> x \<notin> S' \<union> R" using S'(1,3) sub disj by blast
    qed
    show "R \<noteq> {} \<longrightarrow> \<not> ch_closed ?c' \<and> ch_count ?c' \<le> card (receivers w' - R)"
      using ok counts_left [OF sub(4) _ T(1), of "ch_count ?c" R] by (simp add: ring w'(3))
    show "S' \<noteq> {} \<longrightarrow> \<not> ch_closed ?c' \<and> ch_cap ?c' - ch_count ?c' \<le> card (senders w' - S')"
    proof
      assume "S' \<noteq> {}"
      with S'(1) have "S \<noteq> {}" by auto
      with ok counts_woken [OF S'(1,2) sub(1,3) _ \<open>S' \<noteq> {}\<close>, of "ch_cap ?c - ch_count ?c"]
      show "\<not> ch_closed ?c' \<and> ch_cap ?c' - ch_count ?c' \<le> card (senders w' - S')" using some ring(6) by (auto simp: ring(3-5) w'(2))
    qed
    show "w_sent w' = w_recvd w' @ chan_vals ?c'" unfolding ring(2) w'(4,5) using ok cons by simp
  qed (use ok sub T S'(1) r(1) ring w' in auto)
  then show ?thesis by blast
qed

text \<open>Somebody goes to wait, or leaves.\<close>

lemma enter_ok:
  assumes w: "world_ok w S R" and p: "parked (w_chan w') S' R'" and same: "same_ring (w_chan w) (w_chan w')"
    and hist: "w_sent w' = w_sent w" "w_recvd w' = w_recvd w"
    and fin: "finite (senders w')" "finite (receivers w')" "S' \<subseteq> senders w'" "R' \<subseteq> receivers w'"
    and sig: "\<And>f. Fiber f \<in> senders w' \<union> receivers w' \<Longrightarrow> signalled (w_chan w') (Fiber f) \<longleftrightarrow> Fiber f \<notin> S' \<union> R'"
    and cs: "S' \<noteq> {} \<Longrightarrow> \<not> ch_closed (w_chan w) \<and> ch_cap (w_chan w) - ch_count (w_chan w) \<le> card (senders w' - S')"
    and cr: "R' \<noteq> {} \<Longrightarrow> \<not> ch_closed (w_chan w) \<and> ch_count (w_chan w) \<le> card (receivers w' - R')"
  shows "world_ok w' S' R'"
  using assms same_ring_vals [OF same] unfolding world_ok_def by (auto simp: same_ring_def)

lemma leave_ok:
  assumes w: "world_ok w S R" and p: "parked (w_chan w') S' R'" and same: "same_ring (w_chan w) (w_chan w')"
    and hist: "w_sent w' = w_sent w" "w_recvd w' = w_recvd w" and sig: "signalled (w_chan w') = signalled (w_chan w)"
    and s: "S' \<subseteq> S" "S' \<subseteq> senders w'" "senders w' \<subseteq> senders w" "senders w - S \<subseteq> senders w' - S'"
    and r: "R' \<subseteq> R" "R' \<subseteq> receivers w'" "receivers w' \<subseteq> receivers w" "receivers w - R \<subseteq> receivers w' - R'"
    and kept: "\<And>f. Fiber f \<in> senders w' \<union> receivers w' \<Longrightarrow> Fiber f \<in> S \<union> R \<Longrightarrow> Fiber f \<in> S' \<union> R'"
  shows "world_ok w' S' R'"
proof (rule enter_ok [OF w p same hist])
  note ok = w [unfolded world_ok_def]
  have "finite (senders w)" "finite (receivers w)" using ok by simp_all
  then show fin: "finite (senders w')" "finite (receivers w')" by (simp_all add: finite_subset [OF s(3)] finite_subset [OF r(3)])
  show "signalled (w_chan w') (Fiber f) \<longleftrightarrow> Fiber f \<notin> S' \<union> R'" if "Fiber f \<in> senders w' \<union> receivers w'" for f
  proof -
    have "signalled (w_chan w) (Fiber f) \<longleftrightarrow> Fiber f \<notin> S \<union> R" using ok that s(3) r(3) by blast
    then show ?thesis using kept [OF that] s(1) r(1) sig by auto
  qed
  show "\<not> ch_closed (w_chan w) \<and> ch_cap (w_chan w) - ch_count (w_chan w) \<le> card (senders w' - S')" if "S' \<noteq> {}"
  proof -
    have "S \<noteq> {}" using that s(1) by auto
    moreover have "card (senders w - S) \<le> card (senders w' - S')" using fin(1) by (intro card_mono [OF _ s(4)]) simp
    ultimately show ?thesis using ok by (meson order_trans)
  qed
  show "\<not> ch_closed (w_chan w) \<and> ch_count (w_chan w) \<le> card (receivers w' - R')" if "R' \<noteq> {}"
  proof -
    have "R \<noteq> {}" using that r(1) by auto
    moreover have "card (receivers w - R) \<le> card (receivers w' - R')" using fin(2) by (intro card_mono [OF _ r(4)]) simp
    ultimately show ?thesis using ok by (meson order_trans)
  qed
qed (rule s(2), rule r(2))

lemma tasks_upd [simp]:
  "senders (w\<lparr>w_task := (w_task w)(t := Idle)\<rparr>) = senders w - {t}" "receivers (w\<lparr>w_task := (w_task w)(t := Idle)\<rparr>) = receivers w - {t}"
  "senders (w\<lparr>w_chan := c\<rparr>) = senders w" "receivers (w\<lparr>w_chan := c\<rparr>) = receivers w"
  "senders (w\<lparr>w_sent := xs\<rparr>) = senders w" "receivers (w\<lparr>w_sent := xs\<rparr>) = receivers w"
  "senders (w\<lparr>w_recvd := xs\<rparr>) = senders w" "receivers (w\<lparr>w_recvd := xs\<rparr>) = receivers w"
  by (auto simp: senders_def receivers_def)

lemma after_tasks:
  "senders (after_send t e c r w) = (if r = Waiting then insert t (senders w) else senders w - {t})"
  "receivers (after_send t e c r w) = receivers w - {t}"
  "receivers (after_recv t c r' w) = (if r' = Waiting then insert t (receivers w) else receivers w - {t})"
  "senders (after_recv t c r' w) = senders w - {t}"
  by (auto simp: senders_def receivers_def after_send_def after_recv_def)

lemma after_chan [simp]:
  "w_chan (after_send t e c r w) = c" "w_chan (after_recv t c r' w) = c"
  "w_recvd (after_send t e c r w) = w_recvd w" "w_sent (after_recv t c r' w) = w_sent w"
  "w_sent (after_send t e c r w) = (if r = Returned True then w_sent w @ [e] else w_sent w)"
  "w_recvd (after_recv t c r' w) = (case r' of Returned (Some e) \<Rightarrow> w_recvd w @ [e] | _ \<Rightarrow> w_recvd w)"
  by (simp_all add: after_send_def after_recv_def)

text \<open>What the sections of a send and of a receive do.\<close>

lemma send_section_ok:
  assumes w: "world_ok w S R" and sig: "signal_law signal"
    and t: "w_task w t = Idle \<or> w_task w t = Sending e" "t \<notin> S"
    and run: "beans_chan_send_typed signal mt t e (w_chan w) = Ok (c, r, eff)"
  shows "\<exists>S' R'. world_ok (after_send t e c r w) S' R'"
proof -
  note ok = w [unfolded world_ok_def]
  have nr: "t \<notin> receivers w" "t \<notin> R" using t(1) ok by (auto simp: receivers_def)
  have sub: "S \<subseteq> senders w" "R \<subseteq> receivers w" "finite (senders w)" "finite (receivers w)" using ok by auto
  have sigs: "signalled (w_chan w) (Fiber f) \<longleftrightarrow> Fiber f \<notin> S \<union> R" if "Fiber f \<in> senders w \<union> receivers w" for f
    using ok that by blast
  show ?thesis
  proof (cases "chan_send_wait t (w_chan w)")
    case (Pair ready c1)
    show ?thesis
    proof (cases ready)
      case False
      with run Pair have c: "c = c1" "r = Waiting" by (simp_all add: beans_chan_send_typed_def)
      have p: "parked (w_chan w) S R" using ok by blast
      have "chan_send_wait t (w_chan w) = (False, c)" using Pair False c(1) by simp
      note sw = send_waits [OF p t(2) nr(2) this]
      have "world_ok (after_send t e c r w) (insert t S) R"
      proof (rule enter_ok [OF w])
        show "parked (w_chan (after_send t e c r w)) (insert t S) R" using sw(1) by simp
        show "same_ring (w_chan w) (w_chan (after_send t e c r w))" using sw(2) by simp
        show "w_sent (after_send t e c r w) = w_sent w" "w_recvd (after_send t e c r w) = w_recvd w" by (simp_all add: c(2))
        show "signalled (w_chan (after_send t e c r w)) (Fiber f) \<longleftrightarrow> Fiber f \<notin> insert t S \<union> R"
          if "Fiber f \<in> senders (after_send t e c r w) \<union> receivers (after_send t e c r w)" for f
          using that sigs [of f] sw(5) [of "Fiber f"] sw(6) [of f] by (cases "t = Fiber f") (auto simp: after_tasks c(2))
        show "\<not> ch_closed (w_chan w) \<and> ch_cap (w_chan w) - ch_count (w_chan w) \<le> card (senders (after_send t e c r w) - insert t S)"
          using sw(3,4) by simp
        show "\<not> ch_closed (w_chan w) \<and> ch_count (w_chan w) \<le> card (receivers (after_send t e c r w) - R)" if "R \<noteq> {}"
          using ok that nr(1) by (simp add: after_tasks)
      qed (use sub nr in \<open>auto simp: after_tasks c(2)\<close>)
      then show ?thesis by blast
    next
      case True
      then have c1: "c1 = w_chan w" "ch_count (w_chan w) < ch_cap (w_chan w) \<or> ch_closed (w_chan w)"
        using Pair by (auto simp: chan_send_wait_def split: if_splits task.splits prod.splits)
      show ?thesis
      proof (cases "ch_closed (w_chan w)")
        case True
        then have c: "c = w_chan w" "r = Returned False" using run Pair \<open>ready\<close> c1 by (auto simp: beans_chan_send_typed_def)
        have "S = {}" "R = {}" using ok True by auto
        then have "world_ok (after_send t e c r w) {} {}"
          using ok nr by (auto simp: world_ok_def after_tasks c)
        then show ?thesis by blast
      next
        case False
        then obtain c2 where c2: "chan_put (w_chan w) e = Ok c2" "c = chan_wake_receiver signal c2" "r = Returned True"
          using run Pair \<open>ready\<close> c1 by (auto simp: beans_chan_send_typed_def rt_bind_Ok_iff)
        have "\<exists>R'. world_ok (after_send t e c r w) S R'"
          by (rule deposit_ok [OF w sig _ False c2(1), of "{t}" t])
            (use c1 False t(2) nr(1) c2 in \<open>simp_all add: after_tasks\<close>)
        then show ?thesis by blast
      qed
    qed
  qed
qed

lemma recv_section_ok:
  assumes w: "world_ok w S R" and sig: "signal_law signal"
    and t: "w_task w t = Idle \<or> w_task w t = Receiving" "t \<notin> R"
    and run: "beans_chan_recv_typed signal t (w_chan w) = Ok (c, r)"
  shows "\<exists>S' R'. world_ok (after_recv t c r w) S' R'"
proof -
  note ok = w [unfolded world_ok_def]
  have nr: "t \<notin> senders w" "t \<notin> S" using t(1) ok by (auto simp: senders_def)
  have sub: "S \<subseteq> senders w" "R \<subseteq> receivers w" "finite (senders w)" "finite (receivers w)" using ok by auto
  have sigs: "signalled (w_chan w) (Fiber f) \<longleftrightarrow> Fiber f \<notin> S \<union> R" if "Fiber f \<in> senders w \<union> receivers w" for f
    using ok that by blast
  show ?thesis
  proof (cases "chan_recv_wait t (w_chan w)")
    case (Pair ready c1)
    show ?thesis
    proof (cases ready)
      case False
      with run Pair have c: "c = c1" "r = Waiting" by (simp_all add: beans_chan_recv_typed_def)
      have p: "parked (w_chan w) S R" using ok by blast
      have "chan_recv_wait t (w_chan w) = (False, c)" using Pair False c(1) by simp
      note sw = recv_waits [OF p nr(2) t(2) this]
      have "world_ok (after_recv t c r w) S (insert t R)"
      proof (rule enter_ok [OF w])
        show "parked (w_chan (after_recv t c r w)) S (insert t R)" using sw(1) by simp
        show "same_ring (w_chan w) (w_chan (after_recv t c r w))" using sw(2) by simp
        show "w_sent (after_recv t c r w) = w_sent w" "w_recvd (after_recv t c r w) = w_recvd w" by (simp_all add: c(2))
        show "signalled (w_chan (after_recv t c r w)) (Fiber f) \<longleftrightarrow> Fiber f \<notin> S \<union> insert t R"
          if "Fiber f \<in> senders (after_recv t c r w) \<union> receivers (after_recv t c r w)" for f
          using that sigs [of f] sw(5) [of "Fiber f"] sw(6) [of f] by (cases "t = Fiber f") (auto simp: after_tasks c(2))
        show "\<not> ch_closed (w_chan w) \<and> ch_count (w_chan w) \<le> card (receivers (after_recv t c r w) - insert t R)"
          using sw(3,4) by simp
        show "\<not> ch_closed (w_chan w) \<and> ch_cap (w_chan w) - ch_count (w_chan w) \<le> card (senders (after_recv t c r w) - S)" if "S \<noteq> {}"
          using ok that nr(1) by (simp add: after_tasks)
      qed (use sub nr in \<open>auto simp: after_tasks c(2)\<close>)
      then show ?thesis by blast
    next
      case True
      then have c1: "c1 = w_chan w" "ch_count (w_chan w) \<noteq> 0 \<or> ch_closed (w_chan w)"
        using Pair by (auto simp: chan_recv_wait_def split: if_splits task.splits prod.splits)
      show ?thesis
      proof (cases "ch_count (w_chan w) = 0")
        case True
        then have c: "c = w_chan w" "r = Returned None" using run Pair \<open>ready\<close> c1 by (auto simp: beans_chan_recv_typed_def)
        have "S = {}" "R = {}" using ok True c1 by auto
        then have "world_ok (after_recv t c r w) {} {}"
          using ok nr by (auto simp: world_ok_def after_tasks c)
        then show ?thesis by blast
      next
        case False
        then obtain c2 e where c2: "chan_take (map (\<lambda>_. 0)) (w_chan w) = Ok (c2, e)" "c = chan_wake_sender signal c2" "r = Returned (Some e)"
          using run Pair \<open>ready\<close> c1 by (auto simp: beans_chan_recv_typed_def rt_bind_Ok_iff)
        have "\<exists>S'. world_ok (after_recv t c r w) S' R"
          by (rule withdraw_ok [OF w sig _ c2(1), of "{t}" t])
            (use False t(2) nr(1) c2 in \<open>simp_all add: after_tasks\<close>)
        then show ?thesis by blast
      qed
    qed
  qed
qed

lemma chan_step_ok:
  assumes "chan_step signal mt w w'" "world_ok w S R" "signal_law signal"
  shows "\<exists>S' R'. world_ok w' S' R'"
  using assms(1)
proof cases
  case (send t e c r eff)
  have "t \<notin> S"
  proof (cases "w_task w t = Idle")
    case True
    then have "t \<notin> senders w" by (simp add: senders_def)
    then show ?thesis using assms(2) by (auto simp: world_ok_def)
  next
    case False
    then show ?thesis using send(2) runs_not_waiting(1) [OF assms(2)] by blast
  qed
  then show ?thesis using send send_section_ok [OF assms(2,3), of t e] by blast
next
  case (recv t c r)
  have "t \<notin> R"
  proof (cases "w_task w t = Idle")
    case True
    then have "t \<notin> receivers w" by (simp add: receivers_def)
    then show ?thesis using assms(2) by (auto simp: world_ok_def)
  next
    case False
    then show ?thesis using recv(2) runs_not_waiting(2) [OF assms(2)] by blast
  qed
  then show ?thesis using recv recv_section_ok [OF assms(2,3), of t] by blast
next
  case (cancelled_send f e l ws)
  note ok = assms(2) [unfolded world_ok_def]
  have uns: "\<not> w_signalled (ch_waiters (w_chan w)) f"
    "fiber_line_remove f (ch_send (w_chan w), ch_waiters (w_chan w)) = Some (l, ws)"
    using cancelled_send(3) by (auto simp: fiber_line_woken_def split: if_splits)
  have f: "Fiber f \<in> senders w" "Fiber f \<notin> receivers w" using cancelled_send(2) by (simp_all add: senders_def receivers_def)
  then have "Fiber f \<in> S" using ok uns(1) by (auto simp: signalled_def)
  moreover have park: "parked (w_chan w) S R" using ok by blast
  ultimately obtain l' ws' where "fiber_line_remove f (ch_send (w_chan w), ch_waiters (w_chan w)) = Some (l', ws')"
    "parked ((w_chan w)\<lparr>ch_send := l', ch_waiters := ws'\<rparr>) (S - {Fiber f}) R" "w_signalled ws' = w_signalled (ch_waiters (w_chan w))"
    using cancel_send [of "w_chan w" S R f] by blast
  with uns(2) have p: "parked ((w_chan w)\<lparr>ch_send := l, ch_waiters := ws\<rparr>) (S - {Fiber f}) R"
    "w_signalled ws = w_signalled (ch_waiters (w_chan w))" by simp_all
  have waits: "Fiber f \<in> S \<union> R" using ok uns(1) f by (auto simp: signalled_def)
  have tasks: "senders w' = senders w - {Fiber f}" "receivers w' = receivers w - {Fiber f}"
    unfolding cancelled_send(1) by (auto simp: senders_def receivers_def)
  have parts: "w_chan w' = (w_chan w)\<lparr>ch_send := l, ch_waiters := ws\<rparr>" "w_sent w' = w_sent w" "w_recvd w' = w_recvd w"
    by (simp_all add: cancelled_send(1))
  have sub: "S \<subseteq> senders w" "R \<subseteq> receivers w" using ok by auto
  have "signalled (w_chan w') = signalled (w_chan w)" "same_ring (w_chan w) (w_chan w')"
    by (simp_all add: parts signalled_def same_ring_def p(2) fun_eq_iff split: task.splits)
  then have "world_ok w' (S - {Fiber f}) R"
    using p(1) sub f waits by (intro leave_ok [OF assms(2)]) (auto simp: tasks parts)
  then show ?thesis by blast
next
  case (cancelled_recv f l ws)
  note ok = assms(2) [unfolded world_ok_def]
  have uns: "\<not> w_signalled (ch_waiters (w_chan w)) f"
    "fiber_line_remove f (ch_recv (w_chan w), ch_waiters (w_chan w)) = Some (l, ws)"
    using cancelled_recv(3) by (auto simp: fiber_line_woken_def split: if_splits)
  have f: "Fiber f \<in> receivers w" "Fiber f \<notin> senders w" using cancelled_recv(2) by (simp_all add: senders_def receivers_def)
  then have "Fiber f \<in> R" using ok uns(1) by (auto simp: signalled_def)
  moreover have park: "parked (w_chan w) S R" using ok by blast
  ultimately obtain l' ws' where "fiber_line_remove f (ch_recv (w_chan w), ch_waiters (w_chan w)) = Some (l', ws')"
    "parked ((w_chan w)\<lparr>ch_recv := l', ch_waiters := ws'\<rparr>) S (R - {Fiber f})" "w_signalled ws' = w_signalled (ch_waiters (w_chan w))"
    using cancel_recv [of "w_chan w" S R f] by blast
  with uns(2) have p: "parked ((w_chan w)\<lparr>ch_recv := l, ch_waiters := ws\<rparr>) S (R - {Fiber f})"
    "w_signalled ws = w_signalled (ch_waiters (w_chan w))" by simp_all
  have waits: "Fiber f \<in> S \<union> R" using ok uns(1) f by (auto simp: signalled_def)
  have tasks: "senders w' = senders w - {Fiber f}" "receivers w' = receivers w - {Fiber f}"
    unfolding cancelled_recv(1) by (auto simp: senders_def receivers_def)
  have parts: "w_chan w' = (w_chan w)\<lparr>ch_recv := l, ch_waiters := ws\<rparr>" "w_sent w' = w_sent w" "w_recvd w' = w_recvd w"
    by (simp_all add: cancelled_recv(1))
  have sub: "S \<subseteq> senders w" "R \<subseteq> receivers w" using ok by auto
  have "signalled (w_chan w') = signalled (w_chan w)" "same_ring (w_chan w) (w_chan w')"
    by (simp_all add: parts signalled_def same_ring_def p(2) fun_eq_iff split: task.splits)
  then have "world_ok w' S (R - {Fiber f})"
    using p(1) sub f waits by (intro leave_ok [OF assms(2)]) (auto simp: tasks parts)
  then show ?thesis by blast
next
  case (spurious_send n)
  have sub: "S \<subseteq> senders w" "R \<subseteq> receivers w" "parked (w_chan w) S R" using assms(2) by (simp_all add: world_ok_def)
  have "signalled (w_chan w') = signalled (w_chan w)" "same_ring (w_chan w) (w_chan w')"
    by (simp_all add: spurious_send signalled_def same_ring_def fun_eq_iff split: task.splits)
  then have "world_ok w' (S - {Thread n}) R"
    using spurious_wakes(1) [OF sub(3), of n] sub(1,2) by (intro leave_ok [OF assms(2)]) (auto simp: spurious_send)
  then show ?thesis by blast
next
  case (spurious_recv n)
  have sub: "S \<subseteq> senders w" "R \<subseteq> receivers w" "parked (w_chan w) S R" using assms(2) by (simp_all add: world_ok_def)
  have "signalled (w_chan w') = signalled (w_chan w)" "same_ring (w_chan w) (w_chan w')"
    by (simp_all add: spurious_recv signalled_def same_ring_def fun_eq_iff split: task.splits)
  then have "world_ok w' S (R - {Thread n})"
    using spurious_wakes(2) [OF sub(3), of n] sub(1,2) by (intro leave_ok [OF assms(2)]) (auto simp: spurious_recv)
  then show ?thesis by blast
next
  case (try_send e c did eff)
  show ?thesis
  proof (cases "ch_closed (w_chan w) \<or> ch_count (w_chan w) = ch_cap (w_chan w)")
    case True
    then have "c = w_chan w" "did = False" using try_send(2) by (auto simp: beans_chan_try_send_typed_def)
    then show ?thesis using try_send(1) assms(2) by auto
  next
    case False
    then obtain c2 where c2: "chan_put (w_chan w) e = Ok c2" "c = chan_wake_receiver signal c2" "did"
      using try_send(2) by (auto simp: beans_chan_try_send_typed_def rt_bind_Ok_iff)
    have "ch_count (w_chan w) < ch_cap (w_chan w)" using False assms(2) by (auto simp: world_ok_def ring_ok_def)
    then have "\<exists>R'. world_ok w' S R'"
      using False c2 try_send(1) by (intro deposit_ok [OF assms(2,3) _ _ c2(1), of "{}" undefined w']) (auto simp: senders_def receivers_def)
    then show ?thesis by blast
  qed
next
  case (try_recv c r)
  show ?thesis
  proof (cases "ch_count (w_chan w) = 0")
    case True
    then have "c = w_chan w" "r = None" using try_recv(2) by (auto simp: beans_chan_try_recv_typed_def)
    then show ?thesis using try_recv(1) assms(2) by auto
  next
    case False
    then obtain c2 e where c2: "chan_take (map (\<lambda>_. 0)) (w_chan w) = Ok (c2, e)" "c = chan_wake_sender signal c2" "r = Some e"
      using try_recv(2) by (auto simp: beans_chan_try_recv_typed_def rt_bind_Ok_iff)
    have "\<exists>S'. world_ok w' S' R"
      using False c2 try_recv(1) by (intro withdraw_ok [OF assms(2,3) _ c2(1), of "{}" undefined w']) (auto simp: senders_def receivers_def)
    then show ?thesis by blast
  qed
next
  case (close c)
  note ok = assms(2) [unfolded world_ok_def]
  from close_wakes_all [of "w_chan w" S R] ok close(2) have c: "parked c {} {}" "ch_closed c"
    "same_ring ((w_chan w)\<lparr>ch_closed := True\<rparr>) c" "\<And>t. signalled c t \<longleftrightarrow> signalled (w_chan w) t \<or> t \<in> S \<union> R" by auto
  have "ring_ok c" "chan_vals c = chan_vals (w_chan w)"
    using same_ring_vals [OF c(3)] ok by (simp_all add: ring_ok_def chan_vals_def)
  then have "world_ok w' {} {}" using ok c close(1) by (auto simp: world_ok_def)
  then show ?thesis by blast
qed

section \<open>What channels guarantee\<close>

definition start_world :: "bchan \<Rightarrow> world" where
  "start_world c = \<lparr>w_chan = c, w_task = (\<lambda>_. Idle), w_sent = [], w_recvd = []\<rparr>"

inductive chan_reach :: "(nat list \<Rightarrow> nat list) \<Rightarrow> bool \<Rightarrow> bchan \<Rightarrow> world \<Rightarrow> bool" for signal mt c where
  start: "chan_reach signal mt c (start_world c)"
| more: "chan_reach signal mt c w \<Longrightarrow> chan_step signal mt w w' \<Longrightarrow> chan_reach signal mt c w'"

lemma fresh_world_ok:
  assumes "0 < n"
  shows "world_ok (start_world (chan_fresh n zero stride pmask)) {} {}"
proof -
  have "line_of \<lparr>w_next = \<lambda>_. None, w_signalled = \<lambda>_. False\<rparr> (None, None) []" by (simp add: line_of_def)
  then have "parked (chan_fresh n zero stride pmask) {} {}"
    unfolding parked_def by (intro exI [of _ "[]"]) (simp add: chan_fresh_def waits_def)
  then show ?thesis
    using assms by (simp add: world_ok_def start_world_def ring_ok_def chan_fresh_def chan_vals_def senders_def receivers_def)
qed

lemma new_channel_ok:
  assumes "beans_chan_new_typed alloc cap' stride pmask = Ok c"
  shows "world_ok (start_world c) {} {}"
proof -
  have "c = chan_fresh (nat (if cap' > 0 then cap' else 1)) (replicate ((nat stride + 7) div 8) 0) stride pmask"
    using assms by (auto simp: beans_chan_new_typed_def Let_def out_of_memory_def split: if_splits)
  then show ?thesis using fresh_world_ok [of "nat (if cap' > 0 then cap' else 1)"] by (simp split: if_splits)
qed

lemma reach_world_ok:
  assumes "chan_reach signal mt c w" "beans_chan_new_typed alloc cap' stride pmask = Ok c" "signal_law signal"
  shows "\<exists>S R. world_ok w S R"
  using assms(1)
proof induction
  case start
  then show ?case using new_channel_ok [OF assms(2)] by blast
next
  case (more w w')
  then show ?case using chan_step_ok [OF more.hyps(2) _ assms(3)] by blast
qed

lemma sections_return:
  assumes "world_ok w S R"
  shows "\<exists>x. beans_chan_send_typed signal mt t e (w_chan w) = Ok x" "\<exists>x. beans_chan_recv_typed signal t (w_chan w) = Ok x"
    "\<exists>x. beans_chan_try_send_typed signal mt e (w_chan w) = Ok x" "\<exists>x. beans_chan_try_recv_typed signal (w_chan w) = Ok x"
    "\<exists>c. beans_chan_close (w_chan w) = Some c"
proof -
  have ring: "ring_ok (w_chan w)" and p: "parked (w_chan w) S R" using assms by (simp_all add: world_ok_def)
  have put: "\<exists>c. chan_put (w_chan w) e = Ok c" if "ch_count (w_chan w) < ch_cap (w_chan w)" using put_vals [OF ring that, of e] by auto
  have out: "\<exists>x. chan_take f (w_chan w) = Ok x" if "0 < ch_count (w_chan w)" for f using take_vals [OF ring that, of f] by auto
  have le: "ch_count (w_chan w) \<le> ch_cap (w_chan w)" using ring by (simp add: ring_ok_def)
  show "\<exists>x. beans_chan_send_typed signal mt t e (w_chan w) = Ok x"
    using put by (fastforce simp: beans_chan_send_typed_def chan_send_wait_def split: prod.splits task.splits)
  show "\<exists>x. beans_chan_recv_typed signal t (w_chan w) = Ok x"
    using out [of "map (\<lambda>_. 0)"] by (fastforce simp: beans_chan_recv_typed_def chan_recv_wait_def split: prod.splits task.splits)
  show "\<exists>x. beans_chan_try_send_typed signal mt e (w_chan w) = Ok x"
    using put le by (fastforce simp: beans_chan_try_send_typed_def)
  show "\<exists>x. beans_chan_try_recv_typed signal (w_chan w) = Ok x"
    using out [of "map (\<lambda>_. 0)"] by (fastforce simp: beans_chan_try_recv_typed_def)
  show "\<exists>c. beans_chan_close (w_chan w) = Some c" using close_wakes_all [OF p] by auto
qed

text \<open>C10. In whatever order tasks send, receive, try, close, are cancelled and wake up, the values received from a channel are the values sent, in the order sent, and what is still to come is what the ring holds, never more than the capacity. Every section of every call ends, and none touches memory outside the ring.\<close>

theorem channel_delivers_in_order:
  assumes "chan_reach signal mt c w" "beans_chan_new_typed alloc cap' stride pmask = Ok c" "signal_law signal"
  shows "w_sent w = w_recvd w @ chan_vals (w_chan w) \<and> length (chan_vals (w_chan w)) \<le> ch_cap (w_chan w) \<and>
    (\<exists>x. beans_chan_send_typed signal mt t e (w_chan w) = Ok x) \<and> (\<exists>x. beans_chan_recv_typed signal t (w_chan w) = Ok x) \<and>
    (\<exists>x. beans_chan_try_send_typed signal mt e (w_chan w) = Ok x) \<and> (\<exists>x. beans_chan_try_recv_typed signal (w_chan w) = Ok x) \<and>
    (\<exists>c. beans_chan_close (w_chan w) = Some c)"
proof -
  from reach_world_ok [OF assms] obtain S R where ok: "world_ok w S R" by blast
  then have "w_sent w = w_recvd w @ chan_vals (w_chan w)" "ch_count (w_chan w) \<le> ch_cap (w_chan w)"
    by (simp_all add: world_ok_def ring_ok_def)
  then show ?thesis unfolding length_vals by (intro conjI sections_return [OF ok])
qed

text \<open>C9. No wakeup is lost: while a task waits to receive, the channel is open, and if a value is buffered then some receiver has been woken and its next section takes the first value; while a task waits to send, the channel is open, and if there is room then some sender has been woken and its next section sends.\<close>

theorem channel_loses_no_wakeup:
  assumes "chan_reach signal mt c w" "beans_chan_new_typed alloc cap' stride pmask = Ok c" "signal_law signal"
  shows "(w_task w t = Receiving \<and> \<not> recv_runs t (w_chan w) \<longrightarrow> \<not> ch_closed (w_chan w) \<and>
      (ch_count (w_chan w) \<noteq> 0 \<longrightarrow> (\<exists>u c'. w_task w u = Receiving \<and> recv_runs u (w_chan w) \<and>
         beans_chan_recv_typed signal u (w_chan w) = Ok (c', Returned (Some (hd (chan_vals (w_chan w)))))))) \<and>
    (w_task w t = Sending e \<and> \<not> send_runs t (w_chan w) \<longrightarrow> \<not> ch_closed (w_chan w) \<and>
      (ch_count (w_chan w) < ch_cap (w_chan w) \<longrightarrow> (\<exists>u c' v eff. w_task w u = Sending v \<and> send_runs u (w_chan w) \<and>
         beans_chan_send_typed signal mt u v (w_chan w) = Ok (c', Returned True, eff))))"
proof -
  from reach_world_ok [OF assms] obtain S R where ok: "world_ok w S R" by blast
  note runs = runs_not_waiting [OF ok]
  have ring: "ring_ok (w_chan w)" using ok by (simp add: world_ok_def)
  show ?thesis
  proof (intro conjI impI; elim conjE)
    assume t: "w_task w t = Receiving" "\<not> recv_runs t (w_chan w)"
    then have "R \<noteq> {}" using runs(2) by blast
    then show "\<not> ch_closed (w_chan w)" using ok by (simp add: world_ok_def)
    assume some: "ch_count (w_chan w) \<noteq> 0"
    then have "card (receivers w - R) \<noteq> 0" using ok \<open>R \<noteq> {}\<close> by (auto simp: world_ok_def)
    then have "receivers w - R \<noteq> {}" by force
    then obtain u where u: "w_task w u = Receiving" "u \<notin> R" by (auto simp: receivers_def)
    have "0 < ch_count (w_chan w)" using some by simp
    from take_vals [OF ring this, of "map (\<lambda>_. 0)"]
    have "\<exists>c'. beans_chan_recv_typed signal u (w_chan w) = Ok (c', Returned (Some (hd (chan_vals (w_chan w)))))"
      using some by (auto simp: beans_chan_recv_typed_def chan_recv_wait_def)
    then show "\<exists>u c'. w_task w u = Receiving \<and> recv_runs u (w_chan w) \<and>
         beans_chan_recv_typed signal u (w_chan w) = Ok (c', Returned (Some (hd (chan_vals (w_chan w)))))"
      using u runs(2) by blast
  next
    assume t: "w_task w t = Sending e" "\<not> send_runs t (w_chan w)"
    then have "S \<noteq> {}" using runs(1) by blast
    then show "\<not> ch_closed (w_chan w)" using ok by (simp add: world_ok_def)
    assume room: "ch_count (w_chan w) < ch_cap (w_chan w)"
    then have "card (senders w - S) \<noteq> 0" using ok \<open>S \<noteq> {}\<close> by (auto simp: world_ok_def)
    then have "senders w - S \<noteq> {}" by force
    then obtain u v where u: "w_task w u = Sending v" "u \<notin> S" by (auto simp: senders_def)
    from put_vals [OF ring room, of v]
    have "\<exists>c' eff. beans_chan_send_typed signal mt u v (w_chan w) = Ok (c', Returned True, eff)"
      using room \<open>\<not> ch_closed (w_chan w)\<close> by (auto simp: beans_chan_send_typed_def chan_send_wait_def)
    then show "\<exists>u c' v eff. w_task w u = Sending v \<and> send_runs u (w_chan w) \<and>
         beans_chan_send_typed signal mt u v (w_chan w) = Ok (c', Returned True, eff)"
      using u runs(1) by blast
  qed
qed

text \<open>Two fibers wait to receive and a value arrives.\<close>

definition two_waiting :: world where
  "two_waiting = \<lparr>w_chan = (chan_fresh 1 [0] 8 0)\<lparr>ch_q := [[7]], ch_count := 1, ch_recv := (Some 2, Some 2),
       ch_waiters := \<lparr>w_next = (\<lambda>_. None), w_signalled = (\<lambda>_. False)(1 := True)\<rparr>\<rparr>,
     w_task = (\<lambda>_. Idle)(Fiber 1 := Receiving, Fiber 2 := Receiving), w_sent = [[7]], w_recvd = []\<rparr>"

lemma small_channel: "beans_chan_new_typed (\<lambda>_. True) 1 8 0 = Ok (chan_fresh 1 [0] 8 0)"
  by (simp add: beans_chan_new_typed_def calloc_def)

lemma signal_first [simp]: "signal_law tl"
  unfolding signal_law_def
proof (intro allI impI)
  fix ts :: "nat list" assume "distinct ts"
  then show "distinct (tl ts) \<and> set (tl ts) \<subseteq> set ts \<and> (ts \<noteq> [] \<longrightarrow> set (tl ts) \<noteq> set ts)" by (cases ts) auto
qed

lemma two_waiting_reached: "chan_reach tl False (chan_fresh 1 [0] 8 0) two_waiting"
proof -
  let ?c = "chan_fresh 1 [0] 8 0"
  define c1 where "c1 = ?c\<lparr>ch_recv := (Some 1, Some 1)\<rparr>"
  define c2 where "c2 = ?c\<lparr>ch_recv := (Some 1, Some 2), ch_waiters := \<lparr>w_next = (\<lambda>_. None)(1 := Some 2), w_signalled = \<lambda>_. False\<rparr>\<rparr>"
  let ?w1 = "after_recv (Fiber 1) c1 Waiting (start_world ?c)"
  let ?w2 = "after_recv (Fiber 2) c2 Waiting ?w1"
  note line = fiber_line_enter_def fiber_line_push_def set_next_def set_signalled_def fiber_line_pop_def
  have r1: "beans_chan_recv_typed tl (Fiber 1) ?c = Ok (c1, Waiting)"
    by (simp add: beans_chan_recv_typed_def chan_recv_wait_def chan_fresh_def c1_def line fun_eq_iff)
  have r2: "beans_chan_recv_typed tl (Fiber 2) c1 = Ok (c2, Waiting)"
    by (simp add: beans_chan_recv_typed_def chan_recv_wait_def chan_fresh_def c1_def c2_def line fun_eq_iff)
  have r3: "beans_chan_try_send_typed tl False [7] c2 = Ok (w_chan two_waiting, True, [])"
    by (simp add: beans_chan_try_send_typed_def chan_put_def chan_wake_receiver_def chan_fresh_def c2_def line publish_def two_waiting_def fun_eq_iff)
  have w1: "chan_reach tl False ?c ?w1"
    by (rule chan_reach.more [OF chan_reach.start recv]) (simp_all add: r1 [simplified] start_world_def)
  have w2: "chan_reach tl False ?c ?w2"
    by (rule chan_reach.more [OF w1 recv]) (simp_all add: r2 after_recv_def start_world_def)
  have "chan_reach tl False ?c (?w2\<lparr>w_chan := w_chan two_waiting, w_sent := (if True then w_sent ?w2 @ [[7]] else w_sent ?w2)\<rparr>)"
    by (rule chan_reach.more [OF w2 try_send]) (simp add: r3)
  moreover have "?w2\<lparr>w_chan := w_chan two_waiting, w_sent := (if True then w_sent ?w2 @ [[7]] else w_sent ?w2)\<rparr> = two_waiting"
    by (simp add: after_recv_def start_world_def two_waiting_def)
  ultimately show ?thesis by simp
qed

lemma channel_delivers_in_order_witness:
  "[[7]] = [] @ chan_vals (w_chan two_waiting) \<and> length (chan_vals (w_chan two_waiting)) \<le> 1"
  using channel_delivers_in_order [OF two_waiting_reached small_channel signal_first] by (simp add: two_waiting_def chan_fresh_def)

lemma channel_loses_no_wakeup_witness:
  "w_task two_waiting (Fiber 2) = Receiving \<and> \<not> recv_runs (Fiber 2) (w_chan two_waiting) \<and>
    (\<exists>u c'. w_task two_waiting u = Receiving \<and> recv_runs u (w_chan two_waiting) \<and>
       beans_chan_recv_typed tl u (w_chan two_waiting) = Ok (c', Returned (Some (hd (chan_vals (w_chan two_waiting))))))"
proof -
  have w: "w_task two_waiting (Fiber 2) = Receiving" "\<not> recv_runs (Fiber 2) (w_chan two_waiting)" "ch_count (w_chan two_waiting) \<noteq> 0"
    by (simp_all add: two_waiting_def chan_fresh_def fiber_line_woken_def)
  with channel_loses_no_wakeup [OF two_waiting_reached small_channel signal_first, of "Fiber 2" "[]"] show ?thesis by blast
qed

section \<open>The generic entry points and gates\<close>

text \<open>The generic calls move the one-word element; they differ in what they publish and leave in the ring.\<close>

lemma generic_send:
  "rt_bind (beans_chan_send signal mt me v c) (\<lambda>(c, r, _). Ok (c, r)) =
   rt_bind (beans_chan_send_typed signal mt me [v] c) (\<lambda>(c, r, _). Ok (c, r))"
  by (auto simp: beans_chan_send_def beans_chan_send_typed_def rt_bind_assoc split: prod.splits)

lemma generic_recv:
  assumes "ring_ok c" "ch_count c \<noteq> 0"
  shows "\<exists>c'. beans_chan_recv signal me c = Ok (c', Returned (Some (hd (hd (chan_vals c)))))"
  using take_vals [OF assms(1), of "\<lambda>e. e"] assms(2) by (auto simp: beans_chan_recv_def chan_recv_wait_def)

text \<open>An open gate lets everybody through and stays open.\<close>

lemma gate_sticky:
  assumes "parked c S R"
  shows "\<exists>c'. beans_gate_open c = Some c' \<and> beans_gate_is_open c' \<and> parked c' {} {} \<and> beans_gate_wait me c' = (c', Returned ())"
  using close_wakes_all [OF assms] by (auto simp: beans_gate_open_def beans_gate_is_open_def beans_gate_wait_def)

end
