(* ===== verification/Spec2Isabelle.thy ===== *)
theory Spec2Isabelle
  imports Rt_Map_Ops Rt_Bytes Rt_Utf8 Rt_Show Rt_Value_Lists Rt_Heap_Safety Rt_Chan
begin

unbundle bit_operations_syntax

text \<open>
  Verification of the C runtime of the Beans language (\<^verbatim>\<open>src/runtime/\<close>). A compiled Beans
  program calls this runtime for its strings, lists, maps, byte buffers and decimals; the runtime owns
  their layout, their growth, the retains and releases of what they hold, and the panics of misuse.

  \<^bold>\<open>Theories.\<close> Each theory models one part of \<^verbatim>\<open>src/runtime/beans_rt.c\<close> and imports the ones it
  calls. Definitions carry the names of the C functions.
  \<^item> \<^verbatim>\<open>Beans_Prelude\<close>: machine types, the result type \<open>'a rt\<close> (a value, a panic with its message and
    position, or a memory fault / undefined behaviour), C's memory functions, and the locale
    \<open>rt_refinement\<close>, which lifts a one-step refinement to every command sequence.
  \<^item> \<^verbatim>\<open>Rt_Format\<close>: little-endian words, digit generators, \<^verbatim>\<open>rt_vformat\<close>.
  \<^item> \<^verbatim>\<open>Rt_Strings\<close>: the string operations. Search finds the leftmost occurrence; the two passes of
    replace and of interpolation agree, so their writes fill the allocation; split and join, and
    printing and reading an integer, are round trips.
  \<^item> \<^verbatim>\<open>Rt_Slots\<close>: order, equality and hash of the eight-byte slot, pointer masks. The contract of keys
    is the locale \<open>slot_keys\<close>, interpreted for the raw, float and string kinds.
  \<^item> \<^verbatim>\<open>Rt_Lists\<close>: \<^verbatim>\<open>BList\<close>, generic and typed entry points; every program of operations refines the
    mathematical sequence.
  \<^item> \<^verbatim>\<open>Rt_Sort\<close>: merge sort, radix sort, sort by key, all equal to the stable sort.
  \<^item> \<^verbatim>\<open>Rt_Maps\<close>, \<^verbatim>\<open>Rt_Map_Index\<close>, \<^verbatim>\<open>Rt_Map_Spec\<close>, \<^verbatim>\<open>Rt_Map_Ops\<close>: the operations of \<^verbatim>\<open>BMap\<close>; the theory of
    its open-addressing index; the invariant of entries, holes and index; refinement of the
    association list, ownership, iteration and clearing.
  \<^item> \<^verbatim>\<open>Rt_Bytes\<close>: byte buffers, whose cells say whether they were ever written; varints, fixed-width
    access, CRC-32 and its equality with the bitwise division.
  \<^item> \<^verbatim>\<open>Rt_Utf8\<close>: characters, the validating decoder, the generated width tables and the column count.
  \<^item> \<^verbatim>\<open>Rt_Show\<close>: joining lists and the iterative show driver, a loop over a work stack. The driver is a
    partial function into \<open>option\<close>; its theorem says that it returns, on cyclic data too. The step
    functions the compiler emits (\<^verbatim>\<open>src/src/llvm_requests.b\<close>) are modelled by the shape they print.
  \<^item> \<^verbatim>\<open>Rt_Wide\<close>: the 128-bit and 512-bit integers of the decimal type, in 64-bit words.
  \<^item> \<^verbatim>\<open>Rt_Decimal\<close>: the decimal type \<^verbatim>\<open>BDec\<close>: the four operations, rounding, comparison, hash, text.
    \<^verbatim>\<open>Rt_Decimal_Spec\<close> states what they mean over the rationals (nearest decimal, ties to even, overflow)
    and proves it of the common rounding step; \<^verbatim>\<open>Rt_Decimal_Sums\<close>, \<^verbatim>\<open>Rt_Decimal_Text\<close>,
    \<^verbatim>\<open>Rt_Decimal_Div\<close> and \<^verbatim>\<open>Rt_Decimal_Round\<close> prove it of the operations.
  \<^item> \<^verbatim>\<open>Rt_Value_Lists\<close>: lists of decimals and of structs: queries and checked sorts.
  \<^item> \<^verbatim>\<open>Rt_Arena\<close>: the append-only store with handles; every program on it refines the sequence.
  \<^item> \<^verbatim>\<open>Rt_Heap\<close>: reference counts, the release cascade, the buffer of candidates, the trial-deletion
    collector, allocation and boxes. The heap is an association list of objects; a freed object leaves
    it, so that touching one again is \<open>Fault\<close>. \<^verbatim>\<open>Rt_Heap_Spec\<close> states what the manager keeps
    (\<open>memory_ok\<close>: exact counts, the candidates buffered once, garbage always within reach of a candidate);
    \<^verbatim>\<open>Rt_Collect\<close> proves trial deletion exact, \<^verbatim>\<open>Rt_Memory\<close> a whole collection, \<^verbatim>\<open>Rt_Release\<close> the
    release cascade, \<^verbatim>\<open>Rt_Mutator\<close> the other calls and every sequence of them (\<open>mem_reach\<close>), and
    \<^verbatim>\<open>Rt_Heap_Safety\<close> collects the guarantees: no access to freed memory, no count out of range, every
    call returns, exactly the unreachable objects are freed. The premise \<open>roomy\<close> says that no object has
    \<open>2 ^ 48 - 2\<close> references and some address is free; \<open>quiet\<close> that deinit bodies leave the manager alone.
  \<^item> \<^verbatim>\<open>Rt_Chan\<close>: channels and gates. The lines of parked fibers are linked records that stand for
    lists; every section under the lock is a function, and \<open>chan_step\<close> lets tasks run them in any order,
    with cancellations and spurious wakeups. Values arrive in order and no wakeup is lost.
  \<^item> This theory: maps keyed by decimals, which need the decimal order, the key contract and the map.

  \<^bold>\<open>Modelling conventions.\<close> A signed C integer is an \<open>int\<close> with the range written out where it
  matters, an unsigned one a word. Buffers are the cells really allocated, so that an access out of
  bounds is \<open>Fault\<close>. The allocator is a parameter that says which byte counts it grants. Retains,
  releases and write barriers are returned as a list of effects in the order of the calls. What a
  release may run (a deinit that changes the collection) is a parameter. Loops are structural or have
  a termination proof; the doubling loops that may run for ever and the show driver are partial
  functions into \<open>option\<close>. A comparator is a function of the two elements, so the code's check against a
  comparator that changes the list is not expressible.

  \<^bold>\<open>Not modelled.\<close> Everything that calls the operating system (files, processes, sockets, TLS),
  fibers, the tables the compiler generates for reflection, vendored parsers, the conversion of a
  decimal to a double and the float formatter (host floating point), the big-endian layout of
  \<^verbatim>\<open>BDec\<close>, the memory manager of threaded programs (per-worker candidate buffers, husk sweeps, shared
  and weak handles, the recovery from a panicking deinit), what lies under \<^verbatim>\<open>pthread\<close> and the fiber
  scheduler (a condition signal is a parameter that wakes somebody), and the compiler itself, which is not
  written in C.
\<close>

section \<open>Maps keyed by decimals\<close>


text \<open>Slot 3 points at \<^verbatim>\<open>2.5\<close>, slot 7 at \<^verbatim>\<open>2.50\<close>, every other slot at 1.\<close>

definition demo_dat :: "slot \<Rightarrow> bdec" where
  "demo_dat a = (if a = 3 then \<lparr>d_lo = 25, d_hi = 0, d_s = 1\<rparr>
     else if a = 7 then \<lparr>d_lo = 250, d_hi = 0, d_s = 2\<rparr> else \<lparr>d_lo = 1, d_hi = 0, d_s = 0\<rparr>)"

lemma demo_dat_ok: "dec_ok (demo_dat a)" "dec_val (demo_dat a) = (if a = 3 \<or> a = 7 then 5 / 2 else 1)"
  using small_decimal [of 25 1] small_decimal [of 250 2] small_decimal [of 1 0] by (auto simp: demo_dat_def)


end
